(* ===== verification/Gateway_Prelude.thy ===== *)
theory Gateway_Prelude
  imports Main "HOL-Library.Word" "HOL-Library.Monad_Syntax" "HOL-Library.Sublist"
    "HOL-Library.Code_Target_Numeral"
begin

unbundle bit_operations_syntax

text \<open>
  Shared vocabulary of the development: bytes and the big-endian reads and writes of
  Node's \<open>Buffer\<close>, the string operations the gateway uses (\<open>split\<close>, \<open>join\<close>,
  \<open>trim\<close>, \<open>toLowerCase\<close>), the insertion-ordered \<open>Map\<close> of JavaScript, and the
  generic interfaces (locales) that several components implement: a transition system
  with an invariant and an incremental reader of a byte stream.

  A JavaScript exception is the value \<open>None\<close>; a \<open>null\<close> result that the caller
  inspects is an inner \<open>option\<close>. A string is a list of characters, that is of code units
  up to 255; code units above that do not occur in the modelled data, and where the source
  branches on "not ASCII" the characters from 128 on take that branch.
\<close>

named_theorems wire_simps \<open>reads and writes of big-endian integers\<close>
named_theorems jsmap_simps \<open>the insertion-ordered map\<close>

section \<open>Bytes\<close>

type_synonym byte = "8 word"
type_synonym bytes = "byte list"

definition byte_of :: "nat \<Rightarrow> byte" where
  "byte_of n = word_of_nat n"

definition char_byte :: "char \<Rightarrow> byte" where
  "char_byte c = word_of_nat (of_char c)"

definition byte_char :: "byte \<Rightarrow> char" where
  "byte_char b = char_of (unat b)"

text \<open>\<open>buf.readUInt16BE(off)\<close> and \<open>buf.readUInt32BE(off)\<close>: a read past the end throws.\<close>

definition readU16 :: "bytes \<Rightarrow> nat \<Rightarrow> nat option" where
  "readU16 buf off =
     (if off + 2 \<le> length buf then Some (unat (buf ! off) * 256 + unat (buf ! (off + 1))) else None)"

definition readU32 :: "bytes \<Rightarrow> nat \<Rightarrow> nat option" where
  "readU32 buf off =
     (if off + 4 \<le> length buf
      then Some (((unat (buf ! off) * 256 + unat (buf ! (off + 1))) * 256
                  + unat (buf ! (off + 2))) * 256 + unat (buf ! (off + 3)))
      else None)"

text \<open>\<open>buf.subarray(s, e)\<close>.\<close>

definition subarray :: "bytes \<Rightarrow> nat \<Rightarrow> nat \<Rightarrow> bytes" where
  "subarray buf s e = take (e - s) (drop s buf)"

text \<open>
  The bytes that \<open>writeUInt16BE\<close> and \<open>writeUInt32BE\<close> store; a value that does not
  fit throws.
\<close>

definition u16 :: "nat \<Rightarrow> bytes option" where
  "u16 n = (if n < 65536 then Some [byte_of (n div 256), byte_of n] else None)"

definition u32 :: "nat \<Rightarrow> bytes option" where
  "u32 n =
     (if n < 4294967296
      then Some [byte_of (n div 16777216), byte_of (n div 65536), byte_of (n div 256), byte_of n]
      else None)"

lemma unat_byte_of [simp]: "unat (byte_of n) = n mod 256"
  by (simp add: byte_of_def unat_of_nat)

lemma byte_of_unat [simp]: "byte_of (unat b) = b"
  by (simp add: byte_of_def)

lemma byte_char_byte [simp]: "byte_char (char_byte c) = c"
  by (simp add: byte_char_def char_byte_def unat_of_nat take_bit_eq_mod)

lemma unat_byte_less [simp]: "unat (b :: byte) < 256"
  using unsigned_less [of b] by simp

lemma char_byte_char [simp]: "char_byte (byte_char b) = b"
  by (simp add: byte_char_def char_byte_def)

lemma char_byte_inj [simp]: "char_byte c = char_byte d \<longleftrightarrow> c = d"
  by (metis byte_char_byte)

lemma be16_bound: "a < 256 \<Longrightarrow> b < 256 \<Longrightarrow> a * 256 + b < (65536 :: nat)"
  by linarith

lemma be32_bound:
  "a < 256 \<Longrightarrow> b < 256 \<Longrightarrow> c < 256 \<Longrightarrow> d < 256
   \<Longrightarrow> ((a * 256 + b) * 256 + c) * 256 + d < (4294967296 :: nat)"
  using be16_bound [of a b] be16_bound [of c d] by (simp add: algebra_simps)

lemma readU16_bound: "readU16 buf off = Some n \<Longrightarrow> n < 65536"
  using be16_bound [OF unat_byte_less unat_byte_less]
  by (auto simp: readU16_def split: if_splits)

lemma readU32_bound: "readU32 buf off = Some n \<Longrightarrow> n < 4294967296"
  using be32_bound [OF unat_byte_less unat_byte_less unat_byte_less unat_byte_less]
  by (auto simp: readU32_def simp del: distrib_right_numeral split: if_splits)

lemma readU16_None_iff: "readU16 buf off = None \<longleftrightarrow> length buf < off + 2"
  by (auto simp: readU16_def)

lemma readU16_append [wire_simps]:
  "off + 2 \<le> length a \<Longrightarrow> readU16 (a @ b) off = readU16 a off"
  by (simp add: readU16_def nth_append)

lemma readU16_skip [wire_simps]:
  "length a \<le> off \<Longrightarrow> readU16 (a @ b) off = readU16 b (off - length a)"
  by (auto simp: readU16_def nth_append Suc_diff_le le_diff_conv)

lemma readU32_append [wire_simps]:
  "off + 4 \<le> length a \<Longrightarrow> readU32 (a @ b) off = readU32 a off"
  by (simp add: readU32_def nth_append)

lemma readU32_skip [wire_simps]:
  assumes "length a \<le> off"
  shows "readU32 (a @ b) off = readU32 b (off - length a)"
proof -
  obtain k where "off = length a + k" using assms le_Suc_ex by blast
  then show ?thesis by (simp add: readU32_def nth_append)
qed

lemma readU16_u16: "u16 n = Some w \<Longrightarrow> readU16 (w @ rest) 0 = Some n"
  by (auto simp: u16_def readU16_def split: if_splits)

lemma readU32_u32: "u32 n = Some w \<Longrightarrow> readU32 (w @ rest) 0 = Some n"
proof -
  assume "u32 n = Some w"
  then have n: "n < 4294967296"
    and w: "w = [byte_of (n div 16777216), byte_of (n div 65536), byte_of (n div 256), byte_of n]"
    by (auto simp: u32_def split: if_splits)
  have h: "n div 16777216 < 256"
    using n by (simp add: less_mult_imp_div_less)
  have "n div 65536 = n div 256 div 256" "n div 16777216 = n div 256 div 256 div 256"
    by (simp_all add: div_mult2_eq [symmetric])
  with h have "((n div 16777216 mod 256 * 256 + n div 65536 mod 256) * 256
          + n div 256 mod 256) * 256 + n mod 256 = n"
    by (metis div_mult_mod_eq mod_less)
  with h show ?thesis by (simp add: w readU32_def)
qed

lemma u16_length [wire_simps]: "u16 n = Some w \<Longrightarrow> length w = 2"
  by (auto simp: u16_def split: if_splits)

lemma u32_length [wire_simps]: "u32 n = Some w \<Longrightarrow> length w = 4"
  by (auto simp: u32_def split: if_splits)

lemma u16_of_read: "readU16 buf off = Some n \<Longrightarrow> u16 n = Some (subarray buf off (off + 2))"
proof -
  assume r: "readU16 buf off = Some n"
  then have len: "off + 2 \<le> length buf"
    and n: "n = unat (buf ! off) * 256 + unat (buf ! (off + 1))"
    by (auto simp: readU16_def split: if_splits)
  have "subarray buf off (off + 2) = [buf ! off, buf ! (off + 1)]"
    using len by (auto simp: subarray_def numeral_2_eq_2 take_Suc_conv_app_nth)
  moreover have "unat (buf ! (off + 1)) < 256" "unat (buf ! off) < 256"
    by simp_all
  ultimately show ?thesis
    using n readU16_bound [OF r] by (simp add: u16_def word_unat_eq_iff)
qed

lemma length_subarray [simp]: "e \<le> length buf \<Longrightarrow> length (subarray buf s e) = e - s"
  by (simp add: subarray_def)

section \<open>Strings\<close>

text \<open>\<open>s.split(c)\<close> with a one-character separator, and \<open>parts.join(c)\<close>.\<close>

fun split_on :: "'a \<Rightarrow> 'a list \<Rightarrow> 'a list list" where
  "split_on c [] = [[]]"
| "split_on c (x # xs) =
     (if x = c then [] # split_on c xs
      else (case split_on c xs of [] \<Rightarrow> [[x]] | p # ps \<Rightarrow> (x # p) # ps))"

fun join :: "'a \<Rightarrow> 'a list list \<Rightarrow> 'a list" where
  "join c [] = []"
| "join c [p] = p"
| "join c (p # q # ps) = p @ c # join c (q # ps)"

lemma split_on_ne [simp]: "split_on c xs \<noteq> []"
  by (induction xs) (auto split: list.splits)

lemma join_Cons: "ps \<noteq> [] \<Longrightarrow> join c (p # ps) = p @ c # join c ps"
  by (cases ps) auto

lemma join_split_on [simp]: "join c (split_on c xs) = xs"
proof (induction xs)
  case Nil
  then show ?case by simp
next
  case (Cons x xs)
  obtain p ps where p: "split_on c xs = p # ps"
    by (cases "split_on c xs") auto
  show ?case using Cons.IH p by (cases ps) (auto simp: join_Cons)
qed

lemma split_on_no_sep: "p \<in> set (split_on c xs) \<Longrightarrow> c \<notin> set p"
proof (induction xs arbitrary: p)
  case (Cons x xs)
  obtain q qs where q: "split_on c xs = q # qs"
    by (cases "split_on c xs") auto
  show ?case using Cons.prems Cons.IH q by (auto split: if_splits)
qed simp

lemma split_on_noop: "c \<notin> set p \<Longrightarrow> split_on c p = [p]"
  by (induction p) auto

lemma split_on_append: "c \<notin> set p \<Longrightarrow> split_on c (p @ c # rest) = p # split_on c rest"
  by (induction p) auto

lemma split_on_join:
  "ps \<noteq> [] \<Longrightarrow> \<forall>p \<in> set ps. c \<notin> set p \<Longrightarrow> split_on c (join c ps) = ps"
proof (induction ps rule: induct_list012)
  case (3 x y zs)
  then show ?case by (simp add: split_on_append)
qed (auto simp: split_on_noop)

lemma set_join: "set (join c ps) \<subseteq> insert c (\<Union> (set ` set ps))"
  by (induction c ps rule: join.induct) auto

text \<open>
  \<open>toLowerCase\<close> and \<open>trim\<close> on code units up to 255: \<open>A\<close>--\<open>Z\<close> and the Latin-1
  capitals; tab to carriage return, space and the no-break space.
\<close>

definition lower_code :: "nat \<Rightarrow> nat" where
  "lower_code n = (if (65 \<le> n \<and> n \<le> 90) \<or> (192 \<le> n \<and> n \<le> 222 \<and> n \<noteq> 215) then n + 32 else n)"

definition lower_char :: "char \<Rightarrow> char" where
  "lower_char c = char_of (lower_code (of_char c))"

definition toLower :: "string \<Rightarrow> string" where
  "toLower s = map lower_char s"

definition is_ws :: "char \<Rightarrow> bool" where
  "is_ws c = (let n = of_char c :: nat in (9 \<le> n \<and> n \<le> 13) \<or> n = 32 \<or> n = 160)"

definition trim :: "string \<Rightarrow> string" where
  "trim s = rev (dropWhile is_ws (rev (dropWhile is_ws s)))"

definition is_ascii :: "char \<Rightarrow> bool" where
  "is_ascii c = ((of_char c :: nat) < 128)"

definition is_digit :: "char \<Rightarrow> bool" where
  "is_digit c = (let n = of_char c :: nat in 48 \<le> n \<and> n \<le> 57)"

definition is_lower :: "char \<Rightarrow> bool" where
  "is_lower c = (let n = of_char c :: nat in 97 \<le> n \<and> n \<le> 122)"

definition is_upper :: "char \<Rightarrow> bool" where
  "is_upper c = (let n = of_char c :: nat in 65 \<le> n \<and> n \<le> 90)"

lemma lower_code_bound: "n < 256 \<Longrightarrow> lower_code n < 256"
  by (auto simp: lower_code_def)

lemma of_char_lower [simp]: "of_char (lower_char c) = lower_code (of_char c)"
  using lower_code_bound [OF nat_of_char_less_256 [of c]] by (simp add: lower_char_def)

lemma lower_code_idem [simp]: "lower_code (lower_code n) = lower_code n"
  by (auto simp: lower_code_def)

lemma lower_char_noop: "\<not> is_upper c \<Longrightarrow> (of_char c :: nat) < 0x7f \<Longrightarrow> lower_char c = c"
proof -
  assume "\<not> is_upper c" "(of_char c :: nat) < 0x7f"
  then have "lower_code (of_char c) = of_char c"
    by (auto simp: lower_code_def is_upper_def Let_def)
  then show ?thesis by (simp add: lower_char_def)
qed

lemma lower_char_idem [simp]: "lower_char (lower_char c) = lower_char c"
proof -
  have "(of_char (lower_char (lower_char c)) :: nat) = of_char (lower_char c)" by simp
  then show ?thesis by (simp only: of_char_eq_iff)
qed

lemma toLower_idem [simp]: "toLower (toLower s) = toLower s"
  by (simp add: toLower_def)

lemma toLower_length [simp]: "length (toLower s) = length s"
  by (simp add: toLower_def)

lemma toLower_append: "toLower (a @ b) = toLower a @ toLower b"
  by (simp add: toLower_def)

text \<open>
  The documented behaviour of the UTF-8 decoder that the proofs rely on: on ASCII bytes it is
  the obvious one.
\<close>

definition ascii_decoder :: "(bytes \<Rightarrow> string) \<Rightarrow> bool" where
  "ascii_decoder dec = (\<forall>s. (\<forall>c \<in> set s. is_ascii c) \<longrightarrow> dec (map char_byte s) = s)"

lemma ascii_decoder_latin1: "ascii_decoder (map byte_char)"
  by (simp add: ascii_decoder_def map_idI)

lemma split_on_append_sep: "split_on c (a @ c # b) = split_on c a @ split_on c b"
  by (induction a) (auto split: list.splits)

section \<open>The insertion-ordered map\<close>

text \<open>
  JavaScript's \<open>Map\<close> (and \<open>Set\<close>) as an association list in insertion order: \<open>set\<close>
  on a present key keeps its position, on a new key appends; \<open>delete\<close> removes it.
\<close>

type_synonym ('k, 'v) jsmap = "('k \<times> 'v) list"

fun mset_at :: "'k \<Rightarrow> 'v \<Rightarrow> ('k, 'v) jsmap \<Rightarrow> ('k, 'v) jsmap" where
  "mset_at k v [] = [(k, v)]"
| "mset_at k v ((k', v') # m) = (if k' = k then (k, v) # m else (k', v') # mset_at k v m)"

definition mdelete :: "'k \<Rightarrow> ('k, 'v) jsmap \<Rightarrow> ('k, 'v) jsmap" where
  "mdelete k m = filter (\<lambda>e. fst e \<noteq> k) m"

abbreviation mkeys :: "('k, 'v) jsmap \<Rightarrow> 'k list" where
  "mkeys m \<equiv> map fst m"

definition wf_map :: "('k, 'v) jsmap \<Rightarrow> bool" where
  "wf_map m = distinct (map fst m)"

lemma map_of_mset_at [simp, jsmap_simps]: "map_of (mset_at k v m) = (map_of m)(k \<mapsto> v)"
  by (induction k v m rule: mset_at.induct) (auto simp: fun_eq_iff)

lemma map_of_mdelete [simp, jsmap_simps]: "map_of (mdelete k m) = (map_of m)(k := None)"
  by (induction m) (auto simp: mdelete_def fun_eq_iff)

lemma keys_mset_at [simp]: "fst ` set (mset_at k v m) = insert k (fst ` set m)"
  by (induction k v m rule: mset_at.induct) auto

lemma keys_mdelete [simp]: "fst ` set (mdelete k m) = fst ` set m - {k}"
  by (auto simp: mdelete_def image_iff)

lemma wf_map_Nil [simp]: "wf_map []"
  by (simp add: wf_map_def)

lemma wf_map_mset_at [simp, intro]: "wf_map m \<Longrightarrow> wf_map (mset_at k v m)"
proof (induction k v m rule: mset_at.induct)
  case (2 k v k' v' m)
  have "set (map fst (mset_at k v m)) = insert k (set (map fst m))"
    using keys_mset_at [of k v m] by simp
  with 2 show ?case by (auto simp: wf_map_def)
qed (simp add: wf_map_def)

lemma wf_map_mdelete [simp, intro]: "wf_map m \<Longrightarrow> wf_map (mdelete k m)"
  by (simp add: wf_map_def mdelete_def distinct_map_filter)

lemma mdelete_absent: "k \<notin> fst ` set m \<Longrightarrow> mdelete k m = m"
  by (induction m) (auto simp: mdelete_def)

lemma set_mset_at: "set (mset_at k v m) \<subseteq> insert (k, v) (set m)"
  by (induction k v m rule: mset_at.induct) auto

lemma list_all_mset_at: "P (k, v) \<Longrightarrow> list_all P m \<Longrightarrow> list_all P (mset_at k v m)"
  by (induction k v m rule: mset_at.induct) auto

lemma set_mdelete: "set (mdelete k m) \<subseteq> set m"
  by (auto simp: mdelete_def)

lemma length_mdelete_le: "length (mdelete k m) \<le> length m"
  by (simp add: mdelete_def)

lemma length_mset_at_present: "k \<in> fst ` set m \<Longrightarrow> length (mset_at k v m) = length m"
  by (induction k v m rule: mset_at.induct) auto

lemma mset_at_absent: "k \<notin> fst ` set m \<Longrightarrow> mset_at k v m = m @ [(k, v)]"
  by (induction k v m rule: mset_at.induct) auto

text \<open>A loop that updates its state keeps what each round keeps.\<close>

lemma foldl_invariant:
  assumes "Q s" "\<And>s x. x \<in> set xs \<Longrightarrow> Q s \<Longrightarrow> Q (f s x)"
  shows "Q (foldl f s xs)"
  using assms by (induction xs arbitrary: s) auto

text \<open>\<open>[...new Set(xs)]\<close>: the first occurrence of each value, in order.\<close>

definition uniq :: "'a list \<Rightarrow> 'a list" where
  "uniq xs = rev (remdups (rev xs))"

lemma set_uniq [simp]: "set (uniq xs) = set xs"
  by (simp add: uniq_def)

lemma distinct_uniq [simp]: "distinct (uniq xs)"
  by (simp add: uniq_def)

lemma length_uniq_le: "length (uniq xs) \<le> length xs"
  by (simp add: uniq_def length_remdups_leq [of "rev xs", simplified])

section \<open>Interfaces\<close>

subsection \<open>Reading a byte stream in chunks\<close>

text \<open>
  Several components read a stream that arrives in arbitrary pieces and keep the unfinished
  part between them. Their contract: feeding two pieces one after the other is feeding their
  concatenation, so the result cannot depend on how the network cut the stream.
\<close>

fun feed_all :: "('b list \<Rightarrow> 's \<Rightarrow> 's option) \<Rightarrow> 'b list list \<Rightarrow> 's \<Rightarrow> 's option" where
  "feed_all feed [] s = Some s"
| "feed_all feed (c # cs) s = feed c s \<bind> feed_all feed cs"

locale incremental_reader =
  fixes ok :: "'s \<Rightarrow> bool"
    and feed :: "'b list \<Rightarrow> 's \<Rightarrow> 's option"
  assumes feed_nil: "ok s \<Longrightarrow> feed [] s = Some s"
    and feed_ok: "ok s \<Longrightarrow> feed xs s = Some s' \<Longrightarrow> ok s'"
    and feed_append: "ok s \<Longrightarrow> feed (xs @ ys) s = feed xs s \<bind> feed ys"
begin

lemma feed_all_concat: "ok s \<Longrightarrow> feed_all feed cs s = feed (concat cs) s"
proof (induction cs arbitrary: s)
  case Nil
  then show ?case by (simp add: feed_nil)
next
  case (Cons c cs)
  show ?case
  proof (cases "feed c s")
    case None
    with Cons.prems show ?thesis by (simp add: feed_append)
  next
    case (Some s')
    with Cons.IH [OF feed_ok [OF Cons.prems Some]] Cons.prems show ?thesis by (simp add: feed_append)
  qed
qed

lemma chunking_irrelevant: "ok s \<Longrightarrow> concat cs = concat ds \<Longrightarrow> feed_all feed cs s = feed_all feed ds s"
  by (simp add: feed_all_concat)

end

subsection \<open>Machines that never get stuck\<close>

text \<open>
  A component as a machine: a request changes the state or throws (\<open>None\<close>). The contract is
  an invariant under which no request throws; then no run of requests throws either and the
  invariant holds after every one of them.
\<close>

fun run :: "('op \<Rightarrow> 's \<Rightarrow> 's option) \<Rightarrow> 'op list \<Rightarrow> 's \<Rightarrow> 's option" where
  "run step [] s = Some s"
| "run step (r # rs) s = step r s \<bind> run step rs"

locale total_machine =
  fixes inv :: "'s \<Rightarrow> bool"
    and step :: "'op \<Rightarrow> 's \<Rightarrow> 's option"
  assumes step_total: "inv s \<Longrightarrow> \<exists>s'. step r s = Some s' \<and> inv s'"
begin

lemma run_total: "inv s \<Longrightarrow> \<exists>s'. run step rs s = Some s' \<and> inv s'"
proof (induction rs arbitrary: s)
  case (Cons r rs)
  obtain s' where "step r s = Some s'" "inv s'" using step_total [OF Cons.prems] by blast
  with Cons.IH [of s'] show ?case by simp
qed simp

lemma run_inv: "inv s \<Longrightarrow> run step rs s = Some s' \<Longrightarrow> inv s'"
  using run_total [of s rs] by auto

end

end
