(* ===== verification/Js_Values.thy ===== *)
theory Js_Values
  imports Complex_Main Gateway_Prelude
begin

text \<open>
  Untyped input: the values \<open>JSON.parse\<close> yields, the access to their members, and the
  small predicates the configuration checkers use (\<open>typeof\<close>, \<open>Array.isArray\<close>,
  \<open>Number.isInteger\<close>, \<open>slice\<close>, anchored regular expressions over one character class).
  An object is the list of its members in enumeration order. Numbers are rationals.

  What the checkers need of the platform (URL parsing, IDN, dates, number formatting, time
  zones) is a record of functions, an argument of the definitions that use it.
\<close>

section \<open>Values\<close>

datatype json =
    JUndef
  | JNull
  | JBool bool
  | JNum rat
  | JStr string
  | JArr "json list"
  | JObj "(string \<times> json) list"

fun isObj :: "json \<Rightarrow> bool" where
  "isObj (JObj _) = True"
| "isObj _ = False"

text \<open>\<open>isObj(v) ? v : {}\<close> as the list of its members.\<close>

fun members :: "json \<Rightarrow> (string \<times> json) list" where
  "members (JObj ms) = ms"
| "members _ = []"

text \<open>\<open>o.key\<close> for a key that is no member of \<open>Object.prototype\<close>.\<close>

definition field :: "(string \<times> json) list \<Rightarrow> string \<Rightarrow> json" where
  "field ms k = (case map_of ms k of None \<Rightarrow> JUndef | Some v \<Rightarrow> v)"

text \<open>The inherited members of every object, which a computed lookup \<open>o[k]\<close> finds too.\<close>

definition object_prototype :: "string list" where
  "object_prototype =
     [''constructor'', ''__defineGetter__'', ''__defineSetter__'', ''hasOwnProperty'',
      ''__lookupGetter__'', ''__lookupSetter__'', ''isPrototypeOf'', ''propertyIsEnumerable'',
      ''toString'', ''valueOf'', ''__proto__'', ''toLocaleString'']"

fun arr :: "json \<Rightarrow> nat \<Rightarrow> json list" where
  "arr (JArr vs) mx = take mx vs"
| "arr _ mx = []"

fun items :: "json \<Rightarrow> json list" where
  "items (JArr vs) = vs"
| "items _ = []"

definition isArray :: "json \<Rightarrow> bool" where
  "isArray v = (case v of JArr _ \<Rightarrow> True | _ \<Rightarrow> False)"

fun strOf :: "json \<Rightarrow> string option" where
  "strOf (JStr s) = Some s"
| "strOf _ = None"

text \<open>\<open>Number.isInteger(v)\<close>.\<close>

fun intOf :: "json \<Rightarrow> int option" where
  "intOf (JNum r) = (if of_int \<lfloor>r\<rfloor> = r then Some \<lfloor>r\<rfloor> else None)"
| "intOf _ = None"

fun boolOr :: "json \<Rightarrow> bool \<Rightarrow> bool" where
  "boolOr (JBool b) d = b"
| "boolOr _ d = d"

section \<open>The platform\<close>

record url =
  u_protocol :: string
  u_hostname :: string
  u_username :: string
  u_password :: string
  u_href :: string

record platform =
  pf_toASCII :: "string \<Rightarrow> string"
  pf_newURL :: "string \<Rightarrow> url option"
  pf_dateParse :: "string \<Rightarrow> rat option"
  pf_numStr :: "rat \<Rightarrow> string"
  pf_isTimezone :: "string \<Rightarrow> bool"

section \<open>Character classes\<close>

definition is_hex_lower :: "char \<Rightarrow> bool" where
  "is_hex_lower c = (is_digit c \<or> (let n = of_char c :: nat in 97 \<le> n \<and> n \<le> 102))"

definition is_alpha :: "char \<Rightarrow> bool" where
  "is_alpha c = (is_lower c \<or> is_upper c)"

definition is_alnum :: "char \<Rightarrow> bool" where
  "is_alnum c = (is_alpha c \<or> is_digit c)"

text \<open>\<open>/^[class]{lo,hi}$/\<close> and \<open>/^[first][class]{0,n}$/\<close>.\<close>

definition re_class :: "(char \<Rightarrow> bool) \<Rightarrow> nat \<Rightarrow> nat \<Rightarrow> string \<Rightarrow> bool" where
  "re_class P lo hi s = (lo \<le> length s \<and> length s \<le> hi \<and> list_all P s)"

definition re_first :: "(char \<Rightarrow> bool) \<Rightarrow> (char \<Rightarrow> bool) \<Rightarrow> nat \<Rightarrow> string \<Rightarrow> bool" where
  "re_first P Q n s = (case s of [] \<Rightarrow> False | c # cs \<Rightarrow> P c \<and> length cs \<le> n \<and> list_all Q cs)"

text \<open>The decimal value of a digit string.\<close>

definition dec_value :: "string \<Rightarrow> nat" where
  "dec_value s = foldl (\<lambda>n c. n * 10 + (of_char c - 48)) 0 s"

text \<open>A natural number in a template literal.\<close>

fun dec_string :: "nat \<Rightarrow> string" where
  "dec_string n =
     (if n < 10 then [char_of (48 + n)] else dec_string (n div 10) @ [char_of (48 + n mod 10)])"

declare dec_string.simps [simp del]

lemma dec_value_snoc: "dec_value (s @ [c]) = dec_value s * 10 + (of_char c - 48)"
  by (simp add: dec_value_def)

lemma dec_value_dec_string [simp]: "dec_value (dec_string n) = n"
proof (induction n rule: dec_string.induct)
  case (1 n)
  show ?case
  proof (cases "n < 10")
    case True
    then show ?thesis by (subst dec_string.simps) (simp add: dec_value_def)
  next
    case False
    have "of_char (char_of (48 + n mod 10) :: char) = (48 + n mod 10 :: nat)" by (simp add: mod_less)
    with False 1 show ?thesis by (subst dec_string.simps) (simp add: dec_value_snoc)
  qed
qed

lemma dec_string_digits: "list_all is_digit (dec_string n)"
proof (induction n rule: dec_string.induct)
  case (1 n)
  have "is_digit (char_of (48 + m))" if "m < 10" for m :: nat
    using that by (simp add: is_digit_def Let_def)
  with 1 show ?case by (subst dec_string.simps) (cases "n < 10", simp_all)
qed

text \<open>\<open>net.isIPv4\<close>: four decimal numbers up to 255 without leading zeros.\<close>

definition is_octet :: "string \<Rightarrow> bool" where
  "is_octet s = (re_class is_digit 1 3 s \<and> dec_value s \<le> 255 \<and> (1 < length s \<longrightarrow> hd s \<noteq> CHR ''0''))"

definition isIPv4 :: "string \<Rightarrow> bool" where
  "isIPv4 s = (let ps = split_on CHR ''.'' s in length ps = 4 \<and> list_all is_octet ps)"

section \<open>Lists of checked items\<close>

text \<open>\<open>[...new Set(xs.map(f).filter(Boolean))].slice(0, max)\<close>.\<close>

definition collect :: "('a \<Rightarrow> 'b option) \<Rightarrow> nat \<Rightarrow> 'a list \<Rightarrow> 'b list" where
  "collect f mx xs = take mx (uniq (List.map_filter f xs))"

lemma length_collect [simp]: "length (collect f mx xs) \<le> mx"
  by (simp add: collect_def)

lemma distinct_collect [simp]: "distinct (collect f mx xs)"
  by (simp add: collect_def distinct_take)

lemma set_map_filter: "y \<in> set (List.map_filter f xs) \<longleftrightarrow> (\<exists>x \<in> set xs. f x = Some y)"
  by (induction xs) (auto simp: List.map_filter_simps split: option.splits)

lemma collect_memD: "y \<in> set (collect f mx xs) \<Longrightarrow> \<exists>x \<in> set xs. f x = Some y"
  by (auto simp: collect_def dest!: in_set_takeD simp: set_map_filter)

lemma re_class_length: "re_class P lo hi s \<Longrightarrow> lo \<le> length s \<and> length s \<le> hi"
  by (simp add: re_class_def)

text \<open>\<open>normalizeMac\<close> (\<open>src/src/features/macs.js\<close>).\<close>

definition mac_sep :: "char \<Rightarrow> bool" where
  "mac_sep c = (c = CHR '':'' \<or> c = CHR ''-'' \<or> c = CHR ''.'' \<or> is_ws c)"

fun pairs_join :: "string \<Rightarrow> string" where
  "pairs_join (a # b # c # cs) = a # b # CHR '':'' # pairs_join (c # cs)"
| "pairs_join s = s"

definition normalizeMac :: "string \<Rightarrow> string option" where
  "normalizeMac mac =
     (let hex = toLower (filter (\<lambda>c. \<not> mac_sep c) mac)
      in if re_class is_hex_lower 12 12 hex then Some (pairs_join hex) else None)"

text \<open>The canonical form: six lower-case hex pairs joined by colons.\<close>

definition canonical_mac :: "string \<Rightarrow> bool" where
  "canonical_mac m =
     (let ps = split_on CHR '':'' m in length ps = 6 \<and> list_all (re_class is_hex_lower 2 2) ps)"

lemma is_hex_not_sep: "is_hex_lower c \<Longrightarrow> \<not> mac_sep c \<and> c \<noteq> CHR '':'' \<and> lower_char c = c"
proof -
  assume "is_hex_lower c"
  then have n: "(of_char c :: nat) \<in> {48..57} \<union> {97..102}"
    by (auto simp: is_hex_lower_def is_digit_def Let_def)
  then have "lower_char c = c" by (auto simp: lower_char_def lower_code_def)
  moreover have "c \<noteq> CHR '':''" "c \<noteq> CHR ''-''" "c \<noteq> CHR ''.''" "\<not> is_ws c"
    using n by (auto simp: is_ws_def Let_def)
  ultimately show ?thesis by (simp add: mac_sep_def)
qed

lemma length_12:
  assumes "length (s :: 'a list) = 12"
  obtains a b c d e f g h i j k l where "s = [a, b, c, d, e, f, g, h, i, j, k, l]"
  using assms by (auto simp: numeral_eq_Suc length_Suc_conv)

lemma normalizeMac_canonical: "normalizeMac raw = Some m \<Longrightarrow> canonical_mac m"
proof -
  assume a: "normalizeMac raw = Some m"
  define hex where "hex = toLower (filter (\<lambda>c. \<not> mac_sep c) raw)"
  have h: "list_all is_hex_lower hex" "length hex = 12" and m: "m = pairs_join hex"
    using a by (auto simp: normalizeMac_def hex_def Let_def re_class_def split: if_splits)
  obtain x1 x2 x3 x4 x5 x6 x7 x8 x9 x10 x11 x12
    where "hex = [x1, x2, x3, x4, x5, x6, x7, x8, x9, x10, x11, x12]"
    using length_12 [OF h(2)] .
  with h(1) m show ?thesis by (simp add: canonical_mac_def is_hex_not_sep re_class_def Let_def)
qed

lemma normalizeMac_fixed: "normalizeMac raw = Some m \<Longrightarrow> normalizeMac m = Some m"
proof -
  assume a: "normalizeMac raw = Some m"
  define hex where "hex = toLower (filter (\<lambda>c. \<not> mac_sep c) raw)"
  have h: "list_all is_hex_lower hex" "length hex = 12" and m: "m = pairs_join hex"
    using a by (auto simp: normalizeMac_def hex_def Let_def re_class_def split: if_splits)
  obtain x1 x2 x3 x4 x5 x6 x7 x8 x9 x10 x11 x12
    where x: "hex = [x1, x2, x3, x4, x5, x6, x7, x8, x9, x10, x11, x12]"
    using length_12 [OF h(2)] .
  have "mac_sep CHR '':''" by (simp add: mac_sep_def)
  with h(1) m x have "filter (\<lambda>c. \<not> mac_sep c) m = hex" "toLower hex = hex"
    by (simp_all add: is_hex_not_sep toLower_def)
  with h m show ?thesis by (simp add: normalizeMac_def re_class_def)
qed

end
