(* ===== verification/Domain_Set.thy ===== *)
theory Domain_Set
  imports Gateway_Prelude "HOL-Library.Multiset"
begin

text \<open>
  Compact domain sets (\<open>src/src/dns/domainSet.js\<close>): the 53-bit hash, the suffixes of a name,
  cleaning a domain, the binary search over sorted hashes, the growing hash buffer, one
  loaded list and the small pattern sets. The IDN conversion \<open>domainToASCII\<close> of Node's
  \<open>url\<close> module is the parameter \<open>toASCII\<close>.
\<close>

section \<open>The hash\<close>

text \<open>
  \<open>Math.imul\<close>, \<open>^\<close> and \<open>>>>\<close> on 32-bit words; the result is read as the number
  \<open>(h1 & 0x1fffff) * 2^32 + (h2 >>> 0)\<close>.
\<close>

definition hash_init :: "32 word \<times> 32 word" where
  "hash_init = (0x811c9dc5, 0x9747b28c)"

definition hash_step :: "32 word \<times> 32 word \<Rightarrow> nat \<Rightarrow> 32 word \<times> 32 word" where
  "hash_step hh c =
     (let h1 = (fst hh XOR word_of_nat c) * 0x01000193;
          h2 = (snd hh XOR word_of_nat c) * 0x5bd1e995
      in (h1, h2 XOR drop_bit 13 h2))"

definition hash_final :: "32 word \<times> 32 word \<Rightarrow> nat" where
  "hash_final hh =
     (let h2 = (snd hh XOR drop_bit 15 (snd hh)) * 0x85ebca6b;
          h2' = h2 XOR drop_bit 16 h2
      in unat (fst hh AND 0x1fffff) * 4294967296 + unat h2')"

definition hash53 :: "string \<Rightarrow> nat" where
  "hash53 s = hash_final (foldl hash_step hash_init (map of_char s))"

section \<open>Names\<close>

fun dot_tails :: "string \<Rightarrow> string list" where
  "dot_tails [] = []"
| "dot_tails (c # cs) = (if c = CHR ''.'' then cs # dot_tails cs else dot_tails cs)"

definition suffixes :: "string \<Rightarrow> string list" where
  "suffixes name = name # dot_tails name"

definition label_edge :: "char \<Rightarrow> bool" where
  "label_edge c = (is_lower c \<or> is_digit c \<or> c = CHR ''_'')"

definition label_mid :: "char \<Rightarrow> bool" where
  "label_mid c = (label_edge c \<or> c = CHR ''-'')"

text \<open>\<open>LABEL_RE\<close>: \<open>/^[a-z0-9_]([a-z0-9_-]{0,61}[a-z0-9_])?$/\<close>.\<close>

definition label_re :: "string \<Rightarrow> bool" where
  "label_re l =
     (l \<noteq> [] \<and> length l \<le> 63 \<and> label_edge (hd l) \<and> label_edge (last l) \<and> list_all label_mid l)"

definition cleanDomain :: "(string \<Rightarrow> string) \<Rightarrow> bool \<Rightarrow> string \<Rightarrow> string option" where
  "cleanDomain toASCII allowSingleLabel raw =
     (let s0 = toLower (trim raw);
          s1 = (if s0 \<noteq> [] \<and> last s0 = CHR ''.'' then butlast s0 else s0)
      in if s1 = [] \<or> 253 < length s1 then None
         else let s2 = (if list_all is_ascii s1 then s1 else toASCII s1)
           in if s2 = [] then None
              else if list_all (\<lambda>c. is_digit c \<or> c = CHR ''.'') s2 then None
              else let labels = split_on CHR ''.'' s2
                in if \<not> allowSingleLabel \<and> length labels < 2 then None
                   else if \<not> list_all label_re labels then None
                   else Some s2)"

section \<open>Sorted hash arrays\<close>

function lowerBound_loop :: "nat list \<Rightarrow> nat \<Rightarrow> nat \<Rightarrow> nat \<Rightarrow> nat" where
  "lowerBound_loop arr v lo hi =
     (if lo < hi
      then let mid = (lo + hi) div 2
        in if arr ! mid < v then lowerBound_loop arr v (mid + 1) hi else lowerBound_loop arr v lo mid
      else lo)"
  by pat_completeness auto
termination
  by (relation "measure (\<lambda>(arr, v, lo, hi). hi - lo)") (auto simp: Let_def)

declare lowerBound_loop.simps [simp del]

definition lowerBound :: "nat list \<Rightarrow> nat \<Rightarrow> nat" where
  "lowerBound arr v = lowerBound_loop arr v 0 (length arr)"

definition hasHash :: "nat list \<Rightarrow> nat \<Rightarrow> bool" where
  "hasHash arr v = (let i = lowerBound arr v in i < length arr \<and> arr ! i = v)"

text \<open>
  The builder: a typed array of fixed length \<open>hb_buf\<close> (zero-initialised; a write outside it
  is ignored, as \<open>xs[i := v]\<close> is) and the number of stored hashes.
\<close>

record hash_builder =
  hb_buf :: "nat list"
  hb_n :: nat

definition newHashBuilder :: "nat \<Rightarrow> hash_builder" where
  "newHashBuilder initial = \<lparr>hb_buf = replicate initial 0, hb_n = 0\<rparr>"

definition addHash :: "nat \<Rightarrow> hash_builder \<Rightarrow> hash_builder" where
  "addHash h b =
     (let buf = (if hb_n b = length (hb_buf b)
                 then hb_buf b @ replicate (length (hb_buf b)) 0 else hb_buf b)
      in b\<lparr>hb_buf := buf[hb_n b := h], hb_n := hb_n b + 1\<rparr>)"

definition addDomain :: "string \<Rightarrow> hash_builder \<Rightarrow> hash_builder" where
  "addDomain d b = addHash (hash53 d) b"

text \<open>The in-place removal of duplicates in \<open>finish\<close>: reader \<open>r\<close>, writer \<open>w\<close>.\<close>

function dedup_loop :: "nat list \<Rightarrow> nat \<Rightarrow> nat \<Rightarrow> nat list" where
  "dedup_loop a r w =
     (if r < length a
      then if r = 0 \<or> a ! r \<noteq> a ! (r - 1) then dedup_loop (a[w := a ! r]) (r + 1) (w + 1)
           else dedup_loop a (r + 1) w
      else take w a)"
  by pat_completeness auto
termination
  by (relation "measure (\<lambda>(a, r, w). length a - r)") auto

declare dedup_loop.simps [simp del]

definition finish :: "hash_builder \<Rightarrow> nat list" where
  "finish b = dedup_loop (sort (take (hb_n b) (hb_buf b))) 0 0"

section \<open>Lists and pattern sets\<close>

record compact_list =
  cl_suffix :: "nat list"
  cl_exact :: "nat list"
  cl_except :: "nat list"

definition cl_size :: "compact_list \<Rightarrow> nat" where
  "cl_size l = length (cl_suffix l) + length (cl_exact l)"

definition cl_bytes :: "compact_list \<Rightarrow> nat" where
  "cl_bytes l = (length (cl_suffix l) + length (cl_exact l) + length (cl_except l)) * 8"

definition matchHashes :: "compact_list \<Rightarrow> nat list \<Rightarrow> bool" where
  "matchHashes l h =
     (if cl_except l \<noteq> [] \<and> list_ex (hasHash (cl_except l)) h then False
      else if cl_exact l \<noteq> [] \<and> (case h of [] \<Rightarrow> False | h0 # _ \<Rightarrow> hasHash (cl_exact l) h0) then True
      else cl_suffix l \<noteq> [] \<and> list_ex (hasHash (cl_suffix l)) h)"

definition cl_matches :: "compact_list \<Rightarrow> string \<Rightarrow> bool" where
  "cl_matches l name = matchHashes l (map hash53 (suffixes name))"

record pattern_set =
  ps_incl :: "string list"
  ps_sub :: "string list"

definition emptyPatternSet :: pattern_set where
  "emptyPatternSet = \<lparr>ps_incl = [], ps_sub = []\<rparr>"

definition set_add :: "'a \<Rightarrow> 'a list \<Rightarrow> 'a list" where
  "set_add x xs = (if x \<in> set xs then xs else xs @ [x])"

definition addPattern :: "(string \<Rightarrow> string) \<Rightarrow> string \<Rightarrow> pattern_set \<Rightarrow> pattern_set" where
  "addPattern toASCII p s =
     (let wild = prefix ''*.'' (trim p)
      in case cleanDomain toASCII False (if wild then drop 2 (trim p) else p) of
           None \<Rightarrow> s
         | Some d \<Rightarrow> if wild then s\<lparr>ps_sub := set_add d (ps_sub s)\<rparr>
                     else s\<lparr>ps_incl := set_add d (ps_incl s)\<rparr>)"

definition newPatternSet :: "(string \<Rightarrow> string) \<Rightarrow> string list \<Rightarrow> pattern_set" where
  "newPatternSet toASCII patterns = foldl (\<lambda>s p. addPattern toASCII p s) emptyPatternSet patterns"

definition ps_size :: "pattern_set \<Rightarrow> nat" where
  "ps_size s = length (ps_incl s) + length (ps_sub s)"

definition ps_matches :: "pattern_set \<Rightarrow> string \<Rightarrow> bool" where
  "ps_matches s name =
     (if ps_size s = 0 then False
      else if name \<in> set (ps_incl s) then True
      else list_ex (\<lambda>t. t \<in> set (ps_incl s) \<or> t \<in> set (ps_sub s)) (dot_tails name))"

section \<open>The hash fits a double\<close>

lemma and_mask_21: "unat ((h :: 32 word) AND 0x1fffff) < 2097152"
proof -
  have "h AND 0x1fffff = take_bit 21 h"
    by (simp add: take_bit_eq_mask mask_eq_exp_minus_1)
  then have "unat (h AND 0x1fffff) = take_bit 21 (unat h)"
    by (simp add: unsigned_take_bit_eq)
  also have "\<dots> < 2 ^ 21" by (rule take_bit_nat_less_exp)
  finally show ?thesis by simp
qed

lemma hash_final_bound: "hash_final hh < 2 ^ 53"
proof -
  have "a * 4294967296 + unat x < 2 ^ 53" if "a < 2097152" for a and x :: "32 word"
  proof -
    have "unat x < 4294967296" using unsigned_less [of x] by simp
    then have "a * 4294967296 + unat x < (a + 1) * 4294967296" by simp
    also have "\<dots> \<le> 2097152 * 4294967296" using that by (intro mult_le_mono1) simp
    finally show ?thesis by simp
  qed
  with and_mask_21 show ?thesis unfolding hash_final_def Let_def by blast
qed

section \<open>Suffixes\<close>

lemma dot_tails_iff: "s \<in> set (dot_tails name) \<longleftrightarrow> (\<exists>p. name = p @ CHR ''.'' # s)"
proof (induction name)
  case (Cons c cs)
  show ?case
  proof
    assume "s \<in> set (dot_tails (c # cs))"
    with Cons show "\<exists>p. c # cs = p @ CHR ''.'' # s"
      by (auto split: if_splits intro: exI [of _ "[]"] exI [of _ "c # _"])
  next
    assume "\<exists>p. c # cs = p @ CHR ''.'' # s"
    then obtain p where "c # cs = p @ CHR ''.'' # s" by blast
    with Cons show "s \<in> set (dot_tails (c # cs))"
      by (cases p) auto
  qed
qed simp

lemma suffixes_iff: "s \<in> set (suffixes name) \<longleftrightarrow> s = name \<or> (\<exists>p. name = p @ CHR ''.'' # s)"
  by (auto simp: suffixes_def dot_tails_iff)

lemma dot_tails_mono: "set (suffixes d) \<subseteq> set (dot_tails (p @ CHR ''.'' # d))"
  by (induction p) (auto simp: suffixes_def)

section \<open>Binary search and the builder\<close>

lemma lowerBound_loop_correct:
  "sorted arr \<Longrightarrow> lo \<le> hi \<Longrightarrow> hi \<le> length arr \<Longrightarrow>
   \<forall>k < lo. arr ! k < v \<Longrightarrow> \<forall>k. hi \<le> k \<longrightarrow> k < length arr \<longrightarrow> v \<le> arr ! k \<Longrightarrow>
   (let i = lowerBound_loop arr v lo hi in
      i \<le> length arr \<and> (\<forall>k < i. arr ! k < v) \<and> (\<forall>k. i \<le> k \<longrightarrow> k < length arr \<longrightarrow> v \<le> arr ! k))"
proof (induction arr v lo hi rule: lowerBound_loop.induct)
  case (1 arr v lo hi)
  show ?case
  proof (cases "lo < hi")
    case False
    then have "lowerBound_loop arr v lo hi = lo" by (subst lowerBound_loop.simps) simp
    with False "1.prems" show ?thesis by simp
  next
    case True
    let ?m = "(lo + hi) div 2"
    have m: "lo \<le> ?m" "?m < hi" using True by auto
    show ?thesis
    proof (cases "arr ! ?m < v")
      case less: True
      have "arr ! k < v" if "k < ?m + 1" for k
        using sorted_nth_mono [OF "1.prems"(1), of k ?m] that m "1.prems"(3) less by auto
      with "1.IH"(1) [OF True refl less] "1.prems" m show ?thesis
        using True less by (simp add: lowerBound_loop.simps [of arr v lo hi])
    next
      case ge: False
      have "v \<le> arr ! k" if "?m \<le> k" "k < length arr" for k
        using sorted_nth_mono [OF "1.prems"(1), of ?m k] that ge by auto
      with "1.IH"(2) [OF True refl ge] "1.prems" m show ?thesis
        using True ge by (simp add: lowerBound_loop.simps [of arr v lo hi])
    qed
  qed
qed

lemma hasHash_iff: "sorted arr \<Longrightarrow> hasHash arr v \<longleftrightarrow> v \<in> set arr"
proof -
  assume s: "sorted arr"
  let ?i = "lowerBound arr v"
  have i: "?i \<le> length arr" "\<forall>k < ?i. arr ! k < v" "\<forall>k. ?i \<le> k \<longrightarrow> k < length arr \<longrightarrow> v \<le> arr ! k"
    using lowerBound_loop_correct [OF s, of 0 "length arr" v] by (simp_all add: lowerBound_def Let_def)
  show ?thesis
  proof
    assume "hasHash arr v"
    then show "v \<in> set arr" by (metis hasHash_def nth_mem)
  next
    assume "v \<in> set arr"
    then obtain k where k: "k < length arr" "arr ! k = v" by (auto simp: in_set_conv_nth)
    then have "?i \<le> k" using i(2) by (metis not_less less_irrefl)
    then have "?i < length arr" "arr ! ?i \<le> v" using k sorted_nth_mono [OF s, of ?i k] by auto
    with i(3) show "hasHash arr v" by (simp add: hasHash_def Let_def order_antisym)
  qed
qed


text \<open>The builder holds exactly the hashes that were added, in order.\<close>

definition holds :: "hash_builder \<Rightarrow> nat list \<Rightarrow> bool" where
  "holds b xs = (hb_n b = length xs \<and> hb_n b \<le> length (hb_buf b) \<and> hb_buf b \<noteq> [] \<and>
                 take (hb_n b) (hb_buf b) = xs)"

lemma holds_new: "0 < k \<Longrightarrow> holds (newHashBuilder k) []"
  by (simp add: holds_def newHashBuilder_def)

lemma holds_addHash: "holds b xs \<Longrightarrow> holds (addHash h b) (xs @ [h])"
proof -
  assume h: "holds b xs"
  define buf where "buf = (if hb_n b = length (hb_buf b)
                 then hb_buf b @ replicate (length (hb_buf b)) 0 else hb_buf b)"
  have lt: "hb_n b < length buf" and tk: "take (hb_n b) buf = xs"
    using h by (auto simp: buf_def holds_def)
  have "take (Suc (hb_n b)) (buf[hb_n b := h]) = xs @ [h]"
    using lt tk by (simp add: take_Suc_conv_app_nth take_update_cancel)
  moreover have "addHash h b = b\<lparr>hb_buf := buf[hb_n b := h], hb_n := hb_n b + 1\<rparr>"
    by (simp add: addHash_def buf_def)
  ultimately show ?thesis using h lt by (auto simp: holds_def)
qed

lemma holds_foldl: "holds b xs \<Longrightarrow> holds (foldl (\<lambda>b h. addHash h b) b hs) (xs @ hs)"
proof (induction hs arbitrary: b xs)
  case (Cons h hs)
  from Cons.IH [OF holds_addHash [OF Cons.prems]] show ?case by simp
qed simp

lemma remdups_adj_take_Suc:
  assumes "r < length xs"
  shows "remdups_adj (take (Suc r) xs) =
    (if r = 0 \<or> xs ! r \<noteq> xs ! (r - 1) then remdups_adj (take r xs) @ [xs ! r] else remdups_adj (take r xs))"
proof (cases r)
  case 0
  with assms show ?thesis by (cases xs) auto
next
  case (Suc k)
  then have "take (Suc r) xs = take k xs @ [xs ! k, xs ! r]" "take r xs = take k xs @ [xs ! k]"
    using assms by (simp_all add: take_Suc_conv_app_nth)
  with Suc show ?thesis by (simp add: remdups_adj_append_two)
qed

lemma dedup_loop_eq:
  "w \<le> r \<Longrightarrow> r \<le> length xs \<Longrightarrow> length a = length xs \<Longrightarrow> take w a = remdups_adj (take r xs) \<Longrightarrow>
   \<forall>k. r \<le> k + 1 \<longrightarrow> k < length xs \<longrightarrow> a ! k = xs ! k \<Longrightarrow> dedup_loop a r w = remdups_adj xs"
proof (induction a r w rule: dedup_loop.induct)
  case (1 a r w)
  show ?case
  proof (cases "r < length a")
    case False
    then have "dedup_loop a r w = take w a" by (subst dedup_loop.simps) simp
    with False "1.prems" show ?thesis by simp
  next
    case True
    have ar: "a ! r = xs ! r" "r = 0 \<or> a ! (r - 1) = xs ! (r - 1)" using "1.prems" True by auto
    show ?thesis
    proof (cases "r = 0 \<or> a ! r \<noteq> a ! (r - 1)")
      case fresh: True
      have "take (w + 1) (a[w := a ! r]) = remdups_adj (take (r + 1) xs)"
        using True fresh ar "1.prems" remdups_adj_take_Suc [of r xs]
        by (auto simp: take_Suc_conv_app_nth take_update_cancel)
      moreover have "\<forall>k. r + 1 \<le> k + 1 \<longrightarrow> k < length xs \<longrightarrow> a[w := a ! r] ! k = xs ! k"
        using "1.prems" ar by (auto simp: nth_list_update)
      ultimately show ?thesis
        using "1.IH"(1) [OF True fresh] "1.prems" True fresh by (simp add: dedup_loop.simps [of a r w])
    next
      case dup: False
      have "take w a = remdups_adj (take (r + 1) xs)"
        using True dup ar "1.prems" remdups_adj_take_Suc [of r xs] by auto
      with "1.IH"(2) [OF True dup] "1.prems" True dup show ?thesis
        by (simp add: dedup_loop.simps [of a r w])
    qed
  qed
qed

lemma finish_eq: "holds b xs \<Longrightarrow> finish b = remdups_adj (sort xs)"
  using dedup_loop_eq [of 0 0 "sort xs" "sort xs"] by (auto simp: finish_def holds_def)

lemma finish_sorted: "holds b xs \<Longrightarrow> sorted (finish b)"
  by (simp add: finish_eq sorted_remdups_adj)

lemma finish_set: "holds b xs \<Longrightarrow> set (finish b) = set xs"
  by (simp add: finish_eq)

lemma distinct_remdups_adj_sorted: "sorted (xs :: nat list) \<Longrightarrow> distinct (remdups_adj xs)"
  by (induction xs rule: remdups_adj.induct) (auto simp: order_antisym)

lemma finish_distinct: "holds b xs \<Longrightarrow> distinct (finish b)"
  by (simp add: finish_eq distinct_remdups_adj_sorted)


section \<open>Matching\<close>

lemma matchHashes_iff:
  assumes "sorted (cl_suffix l)" "sorted (cl_exact l)" "sorted (cl_except l)"
  shows "matchHashes l (h0 # hs) \<longleftrightarrow>
    set (h0 # hs) \<inter> set (cl_except l) = {} \<and>
    (h0 \<in> set (cl_exact l) \<or> set (h0 # hs) \<inter> set (cl_suffix l) \<noteq> {})"
  using assms by (auto simp: matchHashes_def hasHash_iff list_ex_iff)

text \<open>
  A list built from domains: \<open>S\<close> blocked with their subdomains, \<open>E\<close> blocked exactly,
  \<open>X\<close> exceptions.
\<close>

definition build_hashes :: "nat \<Rightarrow> string list \<Rightarrow> nat list" where
  "build_hashes cap ds = finish (foldl (\<lambda>b d. addDomain d b) (newHashBuilder cap) ds)"

definition build_list :: "nat \<Rightarrow> string list \<Rightarrow> string list \<Rightarrow> string list \<Rightarrow> compact_list" where
  "build_list cap S E X =
     \<lparr>cl_suffix = build_hashes cap S, cl_exact = build_hashes cap E, cl_except = build_hashes cap X\<rparr>"

lemma holds_domains:
  "0 < cap \<Longrightarrow> holds (foldl (\<lambda>b d. addDomain d b) (newHashBuilder cap) ds) (map hash53 ds)"
proof -
  assume "0 < cap"
  moreover have "foldl (\<lambda>b d. addDomain d b) b ds = foldl (\<lambda>b h. addHash h b) b (map hash53 ds)" for b
    by (induction ds arbitrary: b) (auto simp: addDomain_def)
  ultimately show ?thesis using holds_foldl [OF holds_new, of cap "map hash53 ds"] by simp
qed

lemma build_hashes_set: "0 < cap \<Longrightarrow> set (build_hashes cap ds) = hash53 ` set ds"
  using finish_set [OF holds_domains] by (simp add: build_hashes_def)

lemma build_hashes_sorted: "0 < cap \<Longrightarrow> sorted (build_hashes cap ds)"
  using finish_sorted [OF holds_domains] by (simp add: build_hashes_def)

lemma cl_matches_build:
  assumes "0 < cap"
  shows "cl_matches (build_list cap S E X) name \<longleftrightarrow>
    hash53 ` set (suffixes name) \<inter> hash53 ` set X = {} \<and>
    (hash53 name \<in> hash53 ` set E \<or> hash53 ` set (suffixes name) \<inter> hash53 ` set S \<noteq> {})"
  using matchHashes_iff [of "build_list cap S E X" "hash53 name" "map hash53 (dot_tails name)"] assms
  by (simp add: cl_matches_def suffixes_def build_list_def build_hashes_set build_hashes_sorted)

subsection \<open>The interface of a set that covers subdomains\<close>

text \<open>
  What the policy relies on: a matcher that covers a domain covers every name below it.
\<close>

locale subdomain_closed =
  fixes covers_name :: "string \<Rightarrow> bool"
  assumes closed: "covers_name d \<Longrightarrow> covers_name (p @ CHR ''.'' # d)"
begin

lemma closed_suffix: "covers_name d \<Longrightarrow> d \<in> set (suffixes name) \<Longrightarrow> covers_name name"
  using closed by (auto simp: suffixes_iff)

lemma closed_chain: "covers_name d \<Longrightarrow> covers_name (join CHR ''.'' (ls @ [d]))"
proof (induction ls)
  case (Cons l ls)
  then show ?case using closed [of "join CHR ''.'' (ls @ [d])" l] by (simp add: join_Cons)
qed simp

end

lemma ps_matches_iff:
  "ps_matches s name \<longleftrightarrow>
     (\<exists>t \<in> set (suffixes name). t \<in> set (ps_incl s)) \<or> (\<exists>t \<in> set (dot_tails name). t \<in> set (ps_sub s))"
  by (auto simp: ps_matches_def ps_size_def suffixes_def list_ex_iff)

interpretation ps: subdomain_closed "ps_matches s" for s
proof unfold_locales
  fix d p
  assume "ps_matches s d"
  then obtain t where "t \<in> set (suffixes d)" "t \<in> set (ps_incl s) \<or> t \<in> set (ps_sub s)"
    by (auto simp: ps_matches_iff suffixes_def)
  with dot_tails_mono [of d p] show "ps_matches s (p @ CHR ''.'' # d)"
    by (auto simp: ps_matches_iff suffixes_def)
qed


section \<open>What the sets promise\<close>

lemma set_set_add [simp]: "set (set_add x xs) = insert x (set xs)"
  by (auto simp: set_add_def)

lemma distinct_set_add [simp, intro]: "distinct xs \<Longrightarrow> distinct (set_add x xs)"
  by (simp add: set_add_def)

text \<open>The pattern a text denotes: the domain, and whether only its subdomains are meant.\<close>

definition pattern_of :: "(string \<Rightarrow> string) \<Rightarrow> string \<Rightarrow> (bool \<times> string) option" where
  "pattern_of toASCII p =
     (let wild = prefix ''*.'' (trim p)
      in map_option (Pair wild) (cleanDomain toASCII False (if wild then drop 2 (trim p) else p)))"

lemma addPattern_sets:
  "set (ps_incl (addPattern f p s)) = set (ps_incl s) \<union> {d. pattern_of f p = Some (False, d)}"
  "set (ps_sub (addPattern f p s)) = set (ps_sub s) \<union> {d. pattern_of f p = Some (True, d)}"
  by (auto simp: addPattern_def pattern_of_def Let_def split: option.splits)

lemma newPatternSet_sets:
  "set (ps_incl (newPatternSet f ps)) = {d. \<exists>p \<in> set ps. pattern_of f p = Some (False, d)}"
  "set (ps_sub (newPatternSet f ps)) = {d. \<exists>p \<in> set ps. pattern_of f p = Some (True, d)}"
proof -
  have "set (ps_incl (foldl (\<lambda>s p. addPattern f p s) s ps)) =
          set (ps_incl s) \<union> {d. \<exists>p \<in> set ps. pattern_of f p = Some (False, d)} \<and>
        set (ps_sub (foldl (\<lambda>s p. addPattern f p s) s ps)) =
          set (ps_sub s) \<union> {d. \<exists>p \<in> set ps. pattern_of f p = Some (True, d)}" for s
    by (induction ps arbitrary: s) (auto simp: addPattern_sets)
  then show "set (ps_incl (newPatternSet f ps)) = {d. \<exists>p \<in> set ps. pattern_of f p = Some (False, d)}"
    "set (ps_sub (newPatternSet f ps)) = {d. \<exists>p \<in> set ps. pattern_of f p = Some (True, d)}"
    by (simp_all add: newPatternSet_def emptyPatternSet_def)
qed

text \<open>The label grammar and what \<open>cleanDomain\<close> lets through.\<close>

lemma label_re_chars: "label_re l \<Longrightarrow> c \<in> set l \<Longrightarrow> label_mid c"
  by (auto simp: label_re_def list_all_iff)

lemma label_re_no_dot: "label_re l \<Longrightarrow> CHR ''.'' \<notin> set l"
  using label_re_chars [of l "CHR ''.''"]
  by (auto simp: label_mid_def label_edge_def is_lower_def is_digit_def)

lemma cleanDomain_SomeD:
  assumes "cleanDomain f single raw = Some d"
  shows "d \<noteq> []" "list_all label_re (split_on CHR ''.'' d)"
    "single \<or> 2 \<le> length (split_on CHR ''.'' d)"
    "\<not> list_all (\<lambda>c. is_digit c \<or> c = CHR ''.'') d"
  using assms by (auto simp: cleanDomain_def Let_def split: if_splits)

lemma label_mid_lower: "label_mid c \<Longrightarrow> lower_char c = c \<and> is_ascii c \<and> \<not> is_ws c"
proof -
  assume "label_mid c"
  then have n: "(of_char c :: nat) \<in> {97..122} \<union> {48..57} \<union> {95, 45}"
    by (auto simp: label_mid_def label_edge_def is_lower_def is_digit_def Let_def)
  then have "lower_code (of_char c) = of_char c"
    by (auto simp: lower_code_def)
  with n show ?thesis
    by (auto simp: lower_char_def is_ascii_def is_ws_def Let_def)
qed

lemma clean_chars:
  assumes "list_all label_re (split_on CHR ''.'' d)" "c \<in> set d"
  shows "label_mid c \<or> c = CHR ''.''"
proof -
  have "set d \<subseteq> insert CHR ''.'' (\<Union> (set ` set (split_on CHR ''.'' d)))"
    using set_join [of "CHR ''.''" "split_on CHR ''.'' d"] by simp
  with assms label_re_chars show ?thesis by (fastforce simp: list_all_iff)
qed

lemma clean_fixed:
  assumes "list_all label_re (split_on CHR ''.'' d)"
  shows "toLower d = d" "trim d = d" "list_all is_ascii d" "d \<noteq> [] \<Longrightarrow> last d \<noteq> CHR ''.''"
proof -
  have dot: "lower_char CHR ''.'' = CHR ''.''" "is_ascii CHR ''.''" "\<not> is_ws CHR ''.''"
    by code_simp+
  have c: "lower_char c = c \<and> is_ascii c \<and> \<not> is_ws c" if "c \<in> set d" for c
    using clean_chars [OF assms that] label_mid_lower dot by blast
  show "toLower d = d" unfolding toLower_def using c by (intro map_idI) blast
  show "list_all is_ascii d" using c by (simp add: list_all_iff)
  have "dropWhile is_ws xs = xs" if "set xs \<subseteq> set d" for xs
    using c that by (cases xs) auto
  then show "trim d = d" by (simp add: trim_def)
  show "last d \<noteq> CHR ''.''" if "d \<noteq> []"
  proof
    assume "last d = CHR ''.''"
    with that obtain p where "d = p @ [CHR ''.'']" by (metis append_butlast_last_id)
    moreover have "split_on c (p @ [c]) = split_on c p @ [[]]" for c :: char and p
      by (induction p) (auto split: list.splits)
    ultimately show False using assms by (simp add: label_re_def)
  qed
qed

text \<open>
  The growing buffer with its in-place sort and duplicate removal implements a finite set:
  whatever hashes were added, in whatever order and however often the buffer had to grow,
  \<open>finish\<close> returns exactly these hashes once each in ascending order, and the binary search
  finds exactly the added ones.
\<close>

theorem hash_builder_is_set:
  assumes "0 < cap"
  shows "finish (foldl (\<lambda>b h. addHash h b) (newHashBuilder cap) hs) = sorted_list_of_set (set hs)
     \<and> (hasHash (finish (foldl (\<lambda>b h. addHash h b) (newHashBuilder cap) hs)) v \<longleftrightarrow> v \<in> set hs)"
proof -
  have h: "holds (foldl (\<lambda>b h. addHash h b) (newHashBuilder cap) hs) hs"
    using holds_foldl [OF holds_new [OF assms]] by simp
  show ?thesis
    using finish_sorted [OF h] finish_distinct [OF h] finish_set [OF h] hasHash_iff
      sorted_list_of_set.idem_if_sorted_distinct by metis
qed

theorem hash_builder_is_set_witness:
  "finish (foldl (\<lambda>b h. addHash h b) (newHashBuilder 2) [7, 3, 7, 5, 3]) = [3, 5, 7]"
proof -
  have "sorted_list_of_set (set [7, 3, 7, 5, 3 :: nat]) = [3, 5, 7]" by code_simp
  with hash_builder_is_set [of 2 "[7, 3, 7, 5, 3]" 5] show ?thesis by simp
qed

text \<open>
  C16. A loaded block list decides by hashes only, yet whenever the 53-bit hash does not collide
  on the names involved it decides exactly as documented: an exception for the name or a parent
  domain lifts the block, otherwise an exact entry blocks just that name and a suffix entry
  blocks the domain with all its subdomains.
\<close>

theorem list_match_exact:
  assumes "0 < cap" and "inj_on hash53 (set (suffixes name) \<union> set S \<union> set E \<union> set X)"
  shows "cl_matches (build_list cap S E X) name \<longleftrightarrow>
    (\<forall>d \<in> set X. name \<noteq> d \<and> (\<forall>p. name \<noteq> p @ CHR ''.'' # d)) \<and>
    (name \<in> set E \<or> (\<exists>d \<in> set S. name = d \<or> (\<exists>p. name = p @ CHR ''.'' # d)))"
proof -
  have i: "hash53 ` A \<inter> hash53 ` B = {} \<longleftrightarrow> A \<inter> B = {}"
    if "A \<subseteq> set (suffixes name)" "B \<subseteq> set S \<union> set E \<union> set X" for A B
  proof -
    have "A \<subseteq> set (suffixes name) \<union> set S \<union> set E \<union> set X"
      "B \<subseteq> set (suffixes name) \<union> set S \<union> set E \<union> set X" using that by auto
    from inj_on_image_Int [OF assms(2) this] show ?thesis by (metis image_is_empty)
  qed
  have n: "name \<in> set (suffixes name)" by (simp add: suffixes_def)
  then have e: "hash53 name \<in> hash53 ` set E \<longleftrightarrow> name \<in> set E"
    using inj_on_image_mem_iff [OF assms(2), of name "set E"] by auto
  have d: "set (suffixes name) \<inter> D = {} \<longleftrightarrow>
      (\<forall>d \<in> D. name \<noteq> d \<and> (\<forall>p. name \<noteq> p @ CHR ''.'' # d))" for D
    unfolding disjoint_iff suffixes_iff by blast
  have x: "hash53 ` set (suffixes name) \<inter> hash53 ` set X = {} \<longleftrightarrow> set (suffixes name) \<inter> set X = {}"
    "hash53 ` set (suffixes name) \<inter> hash53 ` set S = {} \<longleftrightarrow> set (suffixes name) \<inter> set S = {}"
    by (rule i; blast)+
  show ?thesis
    unfolding cl_matches_build [OF assms(1)] e x d by simp
qed

theorem list_match_exact_witness:
  "cl_matches (build_list 1 [''a''] [] [''o.a'']) ''x.a''"
proof -
  have "hash53 ''a'' \<noteq> hash53 ''x.a''" "hash53 ''a'' \<noteq> hash53 ''o.a''" "hash53 ''x.a'' \<noteq> hash53 ''o.a''"
    by code_simp+
  then have "inj_on hash53 (set (suffixes ''x.a'') \<union> set [''a''] \<union> set [] \<union> set [''o.a''])"
    by (auto simp: suffixes_def inj_on_def)
  from list_match_exact [OF _ this, of 1] show ?thesis
    by (auto simp: Cons_eq_append_conv)
qed

text \<open>The patterns cover a name: the domain itself or, with or without \<open>*.\<close>, what is below it.\<close>

definition covers :: "(string \<Rightarrow> string) \<Rightarrow> string list \<Rightarrow> string \<Rightarrow> bool" where
  "covers f ps name =
     (\<exists>p \<in> set ps. \<exists>wild d. pattern_of f p = Some (wild, d) \<and>
        (\<not> wild \<and> name = d \<or> (\<exists>q. name = q @ CHR ''.'' # d)))"

lemma ps_matches_new: "ps_matches (newPatternSet f ps) name \<longleftrightarrow> covers f ps name"
proof -
  define T where "T d = (\<exists>q. name = q @ CHR ''.'' # d)" for d
  have "(\<exists>p \<in> set ps. \<exists>wild d. pattern_of f p = Some (wild, d) \<and> (\<not> wild \<and> name = d \<or> T d)) \<longleftrightarrow>
      (\<exists>d. (\<exists>p \<in> set ps. pattern_of f p = Some (False, d)) \<and> (name = d \<or> T d)) \<or>
      (\<exists>d. (\<exists>p \<in> set ps. pattern_of f p = Some (True, d)) \<and> T d)"
    by (metis (full_types))
  then show ?thesis
    unfolding covers_def ps_matches_iff newPatternSet_sets suffixes_iff Bex_def dot_tails_iff T_def [symmetric]
    by blast
qed

text \<open>
  A pattern set built from user input matches a name exactly when one of the patterns
  covers it: \<open>example.com\<close> the domain and everything below it, \<open>*.example.com\<close> only
  what is below it; texts that are not domains are ignored. In particular a name below a
  matched name is matched too.
\<close>

theorem pattern_set_match:
  "(ps_matches (newPatternSet f ps) name \<longleftrightarrow>
     (\<exists>p \<in> set ps. \<exists>wild d. pattern_of f p = Some (wild, d) \<and>
        (\<not> wild \<and> name = d \<or> (\<exists>q. name = q @ CHR ''.'' # d)))) \<and>
   (ps_matches (newPatternSet f ps) name \<longrightarrow> ps_matches (newPatternSet f ps) (q @ CHR ''.'' # name))"
  using ps_matches_new [of f ps name] ps.closed [of "newPatternSet f ps" name q] unfolding covers_def by blast

text \<open>
  Cleaning a domain is idempotent and yields a well-formed name: a cleaned name consists of
  valid lower-case labels (two or more unless single labels are allowed) and is never an IPv4
  literal, and within the length limit cleaning it again changes nothing.
\<close>

lemma cleanDomain_stable:
  assumes "cleanDomain f single raw = Some d"
  shows "list_all label_re (split_on CHR ''.'' d)
    \<and> (single \<or> 2 \<le> length (split_on CHR ''.'' d))
    \<and> \<not> list_all (\<lambda>c. is_digit c \<or> c = CHR ''.'') d
    \<and> (length d \<le> 253 \<longrightarrow> cleanDomain f single d = Some d)"
proof -
  note c = cleanDomain_SomeD [OF assms]
  note x = clean_fixed [OF c(2)]
  have "cleanDomain f single d = Some d" if "length d \<le> 253"
    using c x(4) [OF c(1)] that unfolding cleanDomain_def x(1) x(2) by (auto simp: Let_def x(3))
  with c show ?thesis by blast
qed

end
