(* ===== verification/List_Parser.thy ===== *)
theory List_Parser
  imports Domain_Set
begin

text \<open>
  Reading block lists (\<open>src/src/dns/listParser.js\<close>): hashing a domain straight from the
  bytes, the three line formats, and the streaming reader with its limits. A byte buffer is a
  list of bytes; a read outside it is \<open>undefined\<close>, here \<open>None\<close>. The parameters are
  Node's UTF-8 decoder \<open>dec\<close> and its IDN conversion \<open>toASCII\<close>.
\<close>

section \<open>Hashing a domain from its bytes\<close>

datatype list_format = Domains | Hosts | Adblock
datatype entry_kind = Suffix | Exact | Except

definition MAX_LINE :: nat where
  "MAX_LINE = 1024"

definition NL :: byte where
  "NL = 0x0a"

definition isSpace :: "byte \<Rightarrow> bool" where
  "isSpace c = (c = 0x20 \<or> c = 0x09 \<or> c = 0x0d \<or> c = 0x0b \<or> c = 0x0c)"

definition isAlnum :: "nat \<Rightarrow> bool" where
  "isAlnum c = ((0x61 \<le> c \<and> c \<le> 0x7a) \<or> (0x30 \<le> c \<and> c \<le> 0x39))"

text \<open>The three results: the hash, \<open>null\<close> and \<open>undefined\<close>.\<close>

datatype hash_result = Hash nat | Invalid | NonAscii

fun hashDomain_loop ::
  "bytes \<Rightarrow> 32 word \<times> 32 word \<Rightarrow> nat \<Rightarrow> nat \<Rightarrow> nat \<Rightarrow> bool \<Rightarrow> hash_result" where
  "hashDomain_loop [] hh labelLen dots prev alpha =
     (if labelLen = 0 \<or> prev = 0x2d \<or> dots = 0 \<or> \<not> alpha then Invalid else Hash (hash_final hh))"
| "hashDomain_loop (b # bs) hh labelLen dots prev alpha =
     (let c0 = unat b;
          c = (if 0x41 \<le> c0 \<and> c0 \<le> 0x5a then c0 + 32 else c0)
      in if 0x80 \<le> c0 then NonAscii
         else if c = 0x2e
         then if labelLen = 0 \<or> prev = 0x2d then Invalid
              else hashDomain_loop bs (hash_step hh c) 0 (dots + 1) c alpha
         else if isAlnum c \<or> c = 0x5f \<or> (c = 0x2d \<and> 0 < labelLen)
         then if 63 < labelLen + 1 then Invalid
              else hashDomain_loop bs (hash_step hh c) (labelLen + 1) dots c (alpha \<or> 0x39 < c)
         else Invalid)"

definition hashDomainBytes :: "bytes \<Rightarrow> nat \<Rightarrow> nat \<Rightarrow> hash_result" where
  "hashDomainBytes buf s e0 =
     (let e = (if s < e0 \<and> buf ! (e0 - 1) = 0x2e then e0 - 1 else e0)
      in if e - s < 3 \<or> 253 < e - s then Invalid
         else hashDomain_loop (subarray buf s e) hash_init 0 0 0x2e False)"

definition domainHash :: "(bytes \<Rightarrow> string) \<Rightarrow> (string \<Rightarrow> string) \<Rightarrow> bytes \<Rightarrow> nat \<Rightarrow> nat \<Rightarrow> nat option" where
  "domainHash dec toASCII buf s e =
     (case hashDomainBytes buf s e of
        Hash h \<Rightarrow> Some h
      | Invalid \<Rightarrow> None
      | NonAscii \<Rightarrow> map_option hash53 (cleanDomain toASCII False (dec (subarray buf s e))))"

definition isIpToken :: "bytes \<Rightarrow> nat \<Rightarrow> nat \<Rightarrow> bool" where
  "isIpToken buf s e =
     (if e - s < 2 \<or> 39 < e - s then False
      else list_all (\<lambda>b. let c = unat (b OR 0x20)
              in (0x30 \<le> c \<and> c \<le> 0x39) \<or> c = 0x2e \<or> c = 0x3a \<or> (0x61 \<le> c \<and> c \<le> 0x66))
            (subarray buf s e))"

section \<open>One line\<close>

definition at :: "bytes \<Rightarrow> nat \<Rightarrow> byte option" where
  "at buf i = (if i < length buf then Some (buf ! i) else None)"

text \<open>\<open>buf.indexOf(b, from)\<close>; \<open>None\<close> is \<open>-1\<close>.\<close>

definition indexOf :: "bytes \<Rightarrow> byte \<Rightarrow> nat \<Rightarrow> nat option" where
  "indexOf buf b from =
     (let k = length (takeWhile (\<lambda>x. x \<noteq> b) (drop from buf))
      in if from + k < length buf then Some (from + k) else None)"

text \<open>\<open>while (p < e && P(buf[p])) p++\<close> and \<open>while (e > s && P(buf[e - 1])) e--\<close>.\<close>

function skipUp :: "(byte \<Rightarrow> bool) \<Rightarrow> bytes \<Rightarrow> nat \<Rightarrow> nat \<Rightarrow> nat" where
  "skipUp P buf p e = (if p < e \<and> P (buf ! p) then skipUp P buf (p + 1) e else p)"
  by pat_completeness auto
termination
  by (relation "measure (\<lambda>(P, buf, p, e). e - p)") auto

fun skipDown :: "(byte \<Rightarrow> bool) \<Rightarrow> bytes \<Rightarrow> nat \<Rightarrow> nat \<Rightarrow> nat" where
  "skipDown P buf s e =
     (case e of 0 \<Rightarrow> 0 | Suc k \<Rightarrow> if s < e \<and> P (buf ! k) then skipDown P buf s k else e)"

declare skipUp.simps [simp del] skipDown.simps [simp del]

definition ADBLOCK_OPTS :: "string list" where
  "ADBLOCK_OPTS = ['''', ''$important'', ''$all'', ''$document'']"

definition HOSTS_SKIP :: "nat list" where
  "HOSTS_SKIP =
     map hash53 [''localhost.localdomain'', ''local.localdomain'', ''ip6-localhost.localdomain'']"

lemma skipUp_ge: "p \<le> skipUp P buf p e"
  by (induction P buf p e rule: skipUp.induct) (subst skipUp.simps, auto)

lemma skipUp_stop: "skipUp P buf p e < e \<Longrightarrow> \<not> P (buf ! skipUp P buf p e)"
proof (induction P buf p e rule: skipUp.induct)
  case (1 P buf p e)
  show ?case
  proof (cases "p < e \<and> P (buf ! p)")
    case True
    with "1.IH" [OF True] "1.prems" show ?thesis by (simp add: skipUp.simps [of P buf p e])
  next
    case False
    then have "skipUp P buf p e = p" by (subst skipUp.simps) auto
    with False "1.prems" show ?thesis by auto
  qed
qed

lemma skipUp_progress:
  assumes "p < e"
  shows "p < skipUp (\<lambda>b. \<not> P b) buf (skipUp P buf p e) e"
proof (cases "skipUp P buf p e < e")
  case True
  let ?t = "skipUp P buf p e"
  have "skipUp (\<lambda>b. \<not> P b) buf ?t e = skipUp (\<lambda>b. \<not> P b) buf (?t + 1) e"
    using True skipUp_stop [OF True] by (subst skipUp.simps) simp
  with skipUp_ge [of p P buf e] skipUp_ge [of "?t + 1" "\<lambda>b. \<not> P b" buf e] show ?thesis by simp
next
  case False
  with assms skipUp_ge [of "skipUp P buf p e" "\<lambda>b. \<not> P b" buf e] show ?thesis by simp
qed

text \<open>
  The names after the address of a hosts line. Every round of the loop moves \<open>p\<close> forward:
  either over white space or over a name.
\<close>

function hosts_loop ::
  "(bytes \<Rightarrow> string) \<Rightarrow> (string \<Rightarrow> string) \<Rightarrow> bytes \<Rightarrow> nat \<Rightarrow> nat \<Rightarrow> (entry_kind \<times> nat) list" where
  "hosts_loop dec toASCII buf p e =
     (if p < e
      then let t = skipUp isSpace buf p e;
               p' = skipUp (\<lambda>b. \<not> isSpace b) buf t e;
               entry = (if t < p'
                        then case domainHash dec toASCII buf t p' of
                               None \<Rightarrow> []
                             | Some h \<Rightarrow> if h \<in> set HOSTS_SKIP then [] else [(Exact, h)]
                        else [])
        in entry @ hosts_loop dec toASCII buf p' e
      else [])"
  by pat_completeness auto
termination
proof (relation "measure (\<lambda>(dec, toASCII, buf, p, e). e - p)")
  fix dec :: "bytes \<Rightarrow> string" and toASCII :: "string \<Rightarrow> string" and buf p e t p'
    and entry :: "(entry_kind \<times> nat) list"
  assume "p < e" "t = skipUp isSpace buf p e" "p' = skipUp (\<lambda>b. \<not> isSpace b) buf t e"
  with skipUp_progress [of p e isSpace buf]
  show "((dec, toASCII, buf, p', e), (dec, toASCII, buf, p, e))
          \<in> measure (\<lambda>(dec, toASCII, buf, p, e). e - p)" by simp
qed simp

declare hosts_loop.simps [simp del]

text \<open>
  The entries a line adds, in order; the line counts as used (\<open>true\<close>) exactly when it adds
  one. The window \<open>s\<close>, \<open>e\<close> of the three formats is the trimmed, non-empty line.
\<close>

definition adblockRule ::
  "(bytes \<Rightarrow> string) \<Rightarrow> (string \<Rightarrow> string) \<Rightarrow> bytes \<Rightarrow> nat \<Rightarrow> nat \<Rightarrow> entry_kind \<Rightarrow> (entry_kind \<times> nat) list" where
  "adblockRule dec toASCII buf p e kind =
     (case indexOf buf 0x5e p of
        None \<Rightarrow> []
      | Some caret \<Rightarrow>
          if e \<le> caret then []
          else if map byte_char (subarray buf (caret + 1) e) \<notin> set ADBLOCK_OPTS then []
          else (case domainHash dec toASCII buf p caret of None \<Rightarrow> [] | Some h \<Rightarrow> [(kind, h)]))"

definition adblockLine ::
  "(bytes \<Rightarrow> string) \<Rightarrow> (string \<Rightarrow> string) \<Rightarrow> bytes \<Rightarrow> nat \<Rightarrow> nat \<Rightarrow> (entry_kind \<times> nat) list" where
  "adblockLine dec toASCII buf s e =
     (if at buf s = Some 0x21 \<or> at buf s = Some 0x5b \<or> at buf s = Some 0x23 then []
      else let ex = (at buf s = Some 0x40 \<and> at buf (s + 1) = Some 0x40);
               p = (if ex then s + 2 else s)
        in if at buf p \<noteq> Some 0x7c \<or> at buf (p + 1) \<noteq> Some 0x7c then []
           else adblockRule dec toASCII buf (p + 2) e (if ex then Except else Suffix))"

definition commentEnd :: "bytes \<Rightarrow> nat \<Rightarrow> nat \<Rightarrow> nat" where
  "commentEnd buf s e =
     (case indexOf buf 0x23 s of
        None \<Rightarrow> e
      | Some h \<Rightarrow> if h < e then skipDown isSpace buf s h else e)"

definition hostsLine ::
  "(bytes \<Rightarrow> string) \<Rightarrow> (string \<Rightarrow> string) \<Rightarrow> bytes \<Rightarrow> nat \<Rightarrow> nat \<Rightarrow> (entry_kind \<times> nat) list" where
  "hostsLine dec toASCII buf s e =
     (let p = skipUp (\<lambda>b. \<not> isSpace b) buf s e
      in if \<not> isIpToken buf s p then [] else hosts_loop dec toASCII buf p e)"

definition domainsLine ::
  "(bytes \<Rightarrow> string) \<Rightarrow> (string \<Rightarrow> string) \<Rightarrow> bytes \<Rightarrow> nat \<Rightarrow> nat \<Rightarrow> (entry_kind \<times> nat) list" where
  "domainsLine dec toASCII buf s e =
     (if list_ex isSpace (subarray buf s e) then []
      else let s' = (if at buf s = Some 0x2a \<and> at buf (s + 1) = Some 0x2e then s + 2
                     else if at buf s = Some 0x2e then s + 1 else s)
        in (case domainHash dec toASCII buf s' e of None \<Rightarrow> [] | Some h \<Rightarrow> [(Suffix, h)]))"

definition parseLineBytes ::
  "(bytes \<Rightarrow> string) \<Rightarrow> (string \<Rightarrow> string) \<Rightarrow> list_format \<Rightarrow> bytes \<Rightarrow> nat \<Rightarrow> nat
   \<Rightarrow> (entry_kind \<times> nat) list" where
  "parseLineBytes dec toASCII format buf s0 e0 =
     (let s = skipUp isSpace buf s0 e0;
          e = skipDown isSpace buf s e0
      in if e \<le> s then []
         else if format = Adblock then adblockLine dec toASCII buf s e
         else if at buf s = Some 0x23 \<or> at buf s = Some 0x21 then []
         else let e' = commentEnd buf s e
           in if format = Hosts then hostsLine dec toASCII buf s e'
              else domainsLine dec toASCII buf s e')"

section \<open>The stream\<close>

record reader =
  rd_suffix :: hash_builder
  rd_exact :: hash_builder
  rd_except :: hash_builder
  rd_lines :: nat
  rd_skipped :: nat
  rd_total :: nat
  rd_rest :: "bytes option"
  rd_overlong :: bool

text \<open>\<open>add\<close>: \<open>None\<close> is the exception \<open>ListTooLarge\<close>, which ends the whole read.\<close>

definition add_entry :: "nat \<Rightarrow> entry_kind \<times> nat \<Rightarrow> reader \<Rightarrow> reader option" where
  "add_entry maxEntries kh r =
     (let r' = r\<lparr>rd_total := rd_total r + 1\<rparr>
      in if maxEntries < rd_total r' then None
         else Some (case fst kh of
                      Suffix \<Rightarrow> r'\<lparr>rd_suffix := addHash (snd kh) (rd_suffix r)\<rparr>
                    | Exact \<Rightarrow> r'\<lparr>rd_exact := addHash (snd kh) (rd_exact r)\<rparr>
                    | Except \<Rightarrow> r'\<lparr>rd_except := addHash (snd kh) (rd_except r)\<rparr>))"

fun add_entries :: "nat \<Rightarrow> (entry_kind \<times> nat) list \<Rightarrow> reader \<Rightarrow> reader option" where
  "add_entries maxEntries [] r = Some r"
| "add_entries maxEntries (kh # khs) r = add_entry maxEntries kh r \<bind> add_entries maxEntries khs"

definition readLine ::
  "(bytes \<Rightarrow> string) \<Rightarrow> (string \<Rightarrow> string) \<Rightarrow> list_format \<Rightarrow> nat \<Rightarrow> bytes \<Rightarrow> nat \<Rightarrow> nat
   \<Rightarrow> reader \<Rightarrow> reader option" where
  "readLine dec toASCII format maxEntries buf s e r =
     (let es = parseLineBytes dec toASCII format buf s e
      in add_entries maxEntries es (r\<lparr>rd_lines := rd_lines r + 1\<rparr>) \<bind>
         (\<lambda>r. Some (if es = []
                then let p = skipUp isSpace buf s e
                  in if p < e \<and> at buf p \<noteq> Some 0x23 \<and> at buf p \<noteq> Some 0x21 \<and> at buf p \<noteq> Some 0x5b
                     then r\<lparr>rd_skipped := rd_skipped r + 1\<rparr> else r
                else r)))"

text \<open>The inner loop over one chunk, from offset \<open>s\<close>: one round per line end.\<close>

function chunk_loop ::
  "(bytes \<Rightarrow> string) \<Rightarrow> (string \<Rightarrow> string) \<Rightarrow> list_format \<Rightarrow> nat \<Rightarrow> bytes \<Rightarrow> nat \<Rightarrow> reader
   \<Rightarrow> (nat \<times> reader) option" where
  "chunk_loop dec toASCII format maxEntries chunk s r =
     (case indexOf chunk NL s of
        None \<Rightarrow> Some (s, r)
      | Some nl \<Rightarrow>
          (if rd_overlong r
           then Some (r\<lparr>rd_overlong := False, rd_skipped := rd_skipped r + 1\<rparr>)
           else case rd_rest r of
                  Some rest \<Rightarrow>
                    (let full = rest @ subarray chunk s nl; r' = r\<lparr>rd_rest := None\<rparr>
                     in if length full \<le> MAX_LINE
                        then readLine dec toASCII format maxEntries full 0 (length full) r'
                        else Some (r'\<lparr>rd_skipped := rd_skipped r' + 1\<rparr>))
                | None \<Rightarrow>
                    if nl - s \<le> MAX_LINE
                    then readLine dec toASCII format maxEntries chunk s nl r
                    else Some (r\<lparr>rd_skipped := rd_skipped r + 1\<rparr>)) \<bind>
          chunk_loop dec toASCII format maxEntries chunk (nl + 1))"
  by pat_completeness auto
termination
  by (relation "measure (\<lambda>(dec, toASCII, format, m, chunk, s, r). length chunk - s)")
    (auto simp: indexOf_def Let_def split: if_splits)

declare chunk_loop.simps [simp del]

definition keep_tail :: "bytes \<Rightarrow> nat \<Rightarrow> reader \<Rightarrow> reader" where
  "keep_tail chunk s r =
     (if s < length chunk \<and> \<not> rd_overlong r
      then let tail = drop s chunk;
               rest = (case rd_rest r of Some q \<Rightarrow> q @ tail | None \<Rightarrow> tail)
        in if MAX_LINE < length rest then r\<lparr>rd_rest := None, rd_overlong := True\<rparr>
           else r\<lparr>rd_rest := Some rest\<rparr>
      else r)"

definition read_chunk ::
  "(bytes \<Rightarrow> string) \<Rightarrow> (string \<Rightarrow> string) \<Rightarrow> list_format \<Rightarrow> nat \<Rightarrow> bytes \<Rightarrow> reader \<Rightarrow> reader option" where
  "read_chunk dec toASCII format maxEntries chunk r =
     chunk_loop dec toASCII format maxEntries chunk 0 r \<bind> (\<lambda>(s, r). Some (keep_tail chunk s r))"

definition newReader :: "list_format \<Rightarrow> nat \<Rightarrow> nat \<Rightarrow> reader" where
  "newReader format maxEntries expectedEntries =
     (let cap = min maxEntries (max 1024 expectedEntries);
          b = newHashBuilder 1024
      in \<lparr>rd_suffix = (if format = Hosts then b else newHashBuilder cap),
          rd_exact = (if format = Hosts then newHashBuilder cap else b),
          rd_except = b, rd_lines = 0, rd_skipped = 0, rd_total = 0,
          rd_rest = None, rd_overlong = False\<rparr>)"

record parsed_list =
  pl_list :: compact_list
  pl_entries :: nat
  pl_lines :: nat
  pl_skipped :: nat

definition finishReader :: "reader \<Rightarrow> parsed_list" where
  "finishReader r =
     (let l = \<lparr>cl_suffix = finish (rd_suffix r), cl_exact = finish (rd_exact r),
               cl_except = finish (rd_except r)\<rparr>
      in \<lparr>pl_list = l, pl_entries = cl_size l, pl_lines = rd_lines r, pl_skipped = rd_skipped r\<rparr>)"

definition last_line ::
  "(bytes \<Rightarrow> string) \<Rightarrow> (string \<Rightarrow> string) \<Rightarrow> list_format \<Rightarrow> nat \<Rightarrow> reader \<Rightarrow> reader option" where
  "last_line dec toASCII format maxEntries r =
     (case rd_rest r of
        Some rest \<Rightarrow> if rd_overlong r then Some r
                     else readLine dec toASCII format maxEntries rest 0 (length rest) r
      | None \<Rightarrow> Some r)"

definition parseListStream ::
  "(bytes \<Rightarrow> string) \<Rightarrow> (string \<Rightarrow> string) \<Rightarrow> list_format \<Rightarrow> nat \<Rightarrow> nat \<Rightarrow> bytes list
   \<Rightarrow> parsed_list option" where
  "parseListStream dec toASCII format maxEntries expectedEntries stream =
     feed_all (read_chunk dec toASCII format maxEntries) stream
       (newReader format maxEntries expectedEntries) \<bind>
     last_line dec toASCII format maxEntries \<bind> (\<lambda>r. Some (finishReader r))"

text \<open>\<open>countLines\<close>: line ends, plus one for an unterminated last line.\<close>

definition count_chunk :: "nat \<times> byte \<Rightarrow> bytes \<Rightarrow> nat \<times> byte" where
  "count_chunk nl c =
     (fst nl + length (filter (\<lambda>b. b = NL) c), if c = [] then snd nl else last c)"

definition countLines :: "bytes list \<Rightarrow> nat" where
  "countLines stream =
     (let (n, l) = foldl count_chunk (0, NL) stream in if l = NL then n else n + 1)"


section \<open>A line is read from its own bytes\<close>

text \<open>
  Lines inside a chunk are read in place. The lemmas show that what follows the line's end does
  not matter, as long as it is the line end itself: the window \<open>w\<close> inside \<open>a @ w @ b\<close> is
  read like \<open>w\<close> alone.
\<close>

named_theorems window_simps \<open>operations on a window of a larger buffer\<close>

lemma subarray_window [window_simps]:
  "j \<le> length w \<Longrightarrow> subarray (a @ w @ b) (length a + i) (length a + j) = subarray w i j"
  by (simp add: subarray_def)

lemma skipUp_le: "p \<le> e \<Longrightarrow> skipUp P buf p e \<le> e"
  by (induction P buf p e rule: skipUp.induct) (subst skipUp.simps, auto)

lemma skipDown_bounds: "s \<le> e \<Longrightarrow> s \<le> skipDown P buf s e \<and> skipDown P buf s e \<le> e"
proof (induction e)
  case 0
  then show ?case by (subst skipDown.simps, subst skipDown.simps) simp
next
  case (Suc e)
  then show ?case by (auto simp: skipDown.simps [of P buf s "Suc e"])
qed

lemma skipUp_window [window_simps]:
  "j \<le> length w \<Longrightarrow>
   skipUp P (a @ w @ b) (length a + i) (length a + j) = length a + skipUp P w i j"
proof (induction P w i j rule: skipUp.induct)
  case (1 P w i j)
  show ?case
  proof (cases "i < j \<and> P (w ! i)")
    case True
    with 1 have "(w @ b) ! i = w ! i" by (simp add: nth_append)
    with True "1.IH" [OF True] "1.prems" show ?thesis
      by (simp add: skipUp.simps [of P w i j] skipUp.simps [of P "a @ w @ b" "length a + i"])
  next
    case False
    with "1.prems" have "\<not> (length a + i < length a + j \<and> P ((a @ w @ b) ! (length a + i)))"
      by (auto simp: nth_append)
    with False show ?thesis
      by (auto simp add: skipUp.simps [of P w i j] skipUp.simps [of P "a @ w @ b" "length a + i"])
  qed
qed

lemma skipDown_window [window_simps]:
  "j \<le> length w \<Longrightarrow> i \<le> j \<Longrightarrow>
   skipDown P (a @ w @ b) (length a + i) (length a + j) = length a + skipDown P w i j"
proof (induction j)
  case 0
  then show ?case
    by (simp add: skipDown.simps [of P w 0 0] skipDown.simps [of P "a @ w @ b" "length a"] split: nat.splits)
next
  case (Suc j)
  have n: "(w @ b) ! j = w ! j" using Suc.prems by (simp add: nth_append)
  show ?case
  proof (cases "i < Suc j \<and> P (w ! j)")
    case True
    with Suc n show ?thesis
      by (simp add: skipDown.simps [of P w i "Suc j"]
          skipDown.simps [of P "a @ w @ b" "length a + i" "Suc (length a + j)"])
  next
    case False
    with Suc.prems n show ?thesis
      by (auto simp: skipDown.simps [of P w i "Suc j"]
          skipDown.simps [of P "a @ w @ b" "length a + i" "Suc (length a + j)"])
  qed
qed

lemma hashDomainBytes_window [window_simps]:
  assumes "j \<le> length w"
  shows "hashDomainBytes (a @ w @ b) (length a + i) (length a + j) = hashDomainBytes w i j"
proof (cases "i < j")
  case True
  then have "(a @ w @ b) ! (length a + j - 1) = w ! (j - 1)"
    using assms by (cases j) (auto simp: nth_append)
  with True assms show ?thesis
    using subarray_window [of "j - 1" w a b i]
    by (simp add: hashDomainBytes_def subarray_window Let_def)
next
  case False
  with assms show ?thesis by (simp add: hashDomainBytes_def Let_def)
qed

lemma domainHash_window [window_simps]:
  "j \<le> length w \<Longrightarrow>
   domainHash dec f (a @ w @ b) (length a + i) (length a + j) = domainHash dec f w i j"
  by (simp add: domainHash_def hashDomainBytes_window subarray_window split: hash_result.splits)

lemma isIpToken_window [window_simps]:
  "j \<le> length w \<Longrightarrow> isIpToken (a @ w @ b) (length a + i) (length a + j) = isIpToken w i j"
  by (simp add: isIpToken_def window_simps)

lemma hosts_loop_window [window_simps]:
  "j \<le> length w \<Longrightarrow>
   hosts_loop dec f (a @ w @ b) (length a + i) (length a + j) = hosts_loop dec f w i j"
proof (induction dec f w i j rule: hosts_loop.induct)
  case (1 dec f w i j)
  show ?case
  proof (cases "i < j")
    case True
    let ?t = "skipUp isSpace w i j"
    let ?p = "skipUp (\<lambda>b. \<not> isSpace b) w ?t j"
    have "?p \<le> j" using True by (simp add: skipUp_le)
    with "1.IH" [OF True refl refl refl] "1.prems" True show ?thesis
      by (simp add: hosts_loop.simps [of dec f w i j]
          hosts_loop.simps [of dec f "a @ w @ b" "length a + i"] window_simps Let_def)
  next
    case False
    then show ?thesis
      by (simp add: hosts_loop.simps [of dec f w i j] hosts_loop.simps [of dec f "a @ w @ b" "length a + i"])
  qed
qed

text \<open>What follows the window is the end of the buffer or a line end.\<close>

definition line_ends :: "bytes \<Rightarrow> bool" where
  "line_ends b = (b = [] \<or> hd b = NL)"

lemma at_window [window_simps]:
  "line_ends b \<Longrightarrow> i \<le> length w \<Longrightarrow> x \<noteq> NL \<Longrightarrow>
   at (a @ w @ b) (length a + i) = Some x \<longleftrightarrow> at w i = Some x"
  by (cases b) (auto simp: at_def nth_append line_ends_def)

lemma indexOf_le: "indexOf w x i = Some k \<Longrightarrow> i \<le> k \<and> k < length w"
  by (auto simp: indexOf_def Let_def split: if_splits)

lemma takeWhile_neq_less: "x \<in> set xs \<Longrightarrow> length (takeWhile (\<lambda>y. y \<noteq> x) xs) < length xs"
  by (induction xs) auto

lemma indexOf_window_Some:
  assumes "indexOf w x i = Some k"
  shows "indexOf (a @ w @ b) x (length a + i) = Some (length a + k)"
proof -
  let ?d = "drop i w"
  have i: "i \<le> length w" using indexOf_le [OF assms] by simp
  then have d: "drop (length a + i) (a @ w @ b) = ?d @ b" by simp
  have k: "k = i + length (takeWhile (\<lambda>y. y \<noteq> x) ?d)" "k < length w"
    using assms by (auto simp: indexOf_def Let_def split: if_splits)
  have "x \<in> set ?d"
  proof (rule ccontr)
    assume "x \<notin> set ?d"
    then have "takeWhile (\<lambda>y. y \<noteq> x) ?d = ?d" by (auto simp: takeWhile_eq_all_conv)
    with k i show False by simp
  qed
  then have l: "takeWhile (\<lambda>y. y \<noteq> x) (?d @ b) = takeWhile (\<lambda>y. y \<noteq> x) ?d"
    by (simp add: takeWhile_append1 [where x = x])
  show ?thesis unfolding indexOf_def Let_def d l using k by simp
qed

lemma indexOf_window_None:
  assumes "indexOf w x i = None" "i \<le> length w"
    and "indexOf (a @ w @ b) x (length a + i) = Some k"
  shows "length a + length w \<le> k"
proof -
  let ?d = "drop i w"
  have d: "drop (length a + i) (a @ w @ b) = ?d @ b" using assms(2) by simp
  have "x \<notin> set ?d"
    using assms(1,2) takeWhile_neq_less [of x ?d] by (auto simp: indexOf_def Let_def split: if_splits)
  then have l: "takeWhile (\<lambda>y. y \<noteq> x) (?d @ b) = ?d @ takeWhile (\<lambda>y. y \<noteq> x) b"
    by (intro takeWhile_append2) auto
  show ?thesis using assms(2,3) unfolding indexOf_def Let_def d l by (auto split: if_splits)
qed

lemma commentEnd_window [window_simps]:
  assumes "i \<le> length w" "j \<le> length w"
  shows "commentEnd (a @ w @ b) (length a + i) (length a + j) = length a + commentEnd w i j"
proof (cases "indexOf w 0x23 i")
  case None
  with indexOf_window_None [OF None assms(1), of a b] assms show ?thesis
    by (auto simp: commentEnd_def split: option.splits)
next
  case (Some k)
  with indexOf_le [OF Some] indexOf_window_Some [OF Some, of a b] assms show ?thesis
    by (simp add: commentEnd_def skipDown_window)
qed

lemma commentEnd_le: "i \<le> j \<Longrightarrow> commentEnd w i j \<le> j"
proof (cases "indexOf w 0x23 i")
  case (Some k)
  assume "i \<le> j"
  with indexOf_le [OF Some] skipDown_bounds [of i k isSpace w] Some show ?thesis
    by (auto simp: commentEnd_def)
qed (simp add: commentEnd_def)

lemma commentEnd_ge: "i \<le> j \<Longrightarrow> i \<le> commentEnd w i j"
proof (cases "indexOf w 0x23 i")
  case (Some k)
  assume "i \<le> j"
  with indexOf_le [OF Some] skipDown_bounds [of i k isSpace w] Some show ?thesis
    by (auto simp: commentEnd_def)
qed (simp add: commentEnd_def)

lemma adblockRule_window [window_simps]:
  assumes "q \<le> length w" "j \<le> length w"
  shows "adblockRule dec f (a @ w @ b) (length a + q) (length a + j) kind = adblockRule dec f w q j kind"
proof (cases "indexOf w 0x5e q")
  case None
  with indexOf_window_None [OF None assms(1), of a b] assms show ?thesis
    by (fastforce simp: adblockRule_def split: option.splits)
next
  case (Some k)
  with indexOf_le [OF Some] indexOf_window_Some [OF Some, of a b] assms
    subarray_window [OF assms(2), of a b "k + 1"] domainHash_window [of k w dec f a b q]
  show ?thesis by (simp add: adblockRule_def)
qed

lemma not_NL: "(0x21 :: byte) \<noteq> NL" "(0x5b :: byte) \<noteq> NL" "(0x23 :: byte) \<noteq> NL" "(0x40 :: byte) \<noteq> NL"
  "(0x7c :: byte) \<noteq> NL" "(0x2a :: byte) \<noteq> NL" "(0x2e :: byte) \<noteq> NL"
  by (simp_all add: NL_def)

lemma at_SomeD: "at w i = Some x \<Longrightarrow> i < length w"
  by (simp add: at_def split: if_splits)

lemma at_two_window:
  assumes "line_ends b" "p \<le> length w" "x \<noteq> NL" "y \<noteq> NL"
  shows "at (a @ w @ b) (length a + p) = Some x \<and> at (a @ w @ b) (length a + p + 1) = Some y
      \<longleftrightarrow> at w p = Some x \<and> at w (p + 1) = Some y"
  using at_window [OF assms(1,2,3), of a] at_window [of b "p + 1" w y a] assms at_SomeD [of w p x]
  by (auto simp: add.assoc simp del: add_Suc_right)

lemma adblockLine_window [window_simps]:
  assumes b: "line_ends b" and i: "i < j" and j: "j \<le> length w"
  shows "adblockLine dec f (a @ w @ b) (length a + i) (length a + j) = adblockLine dec f w i j"
proof -
  have il: "i \<le> length w" using i j by simp
  note two = at_two_window [OF b]
  note one = at_window [OF b il]
  let ?ex = "at w i = Some 0x40 \<and> at w (i + 1) = Some 0x40"
  have ex: "at (a @ w @ b) (length a + i) = Some 0x40 \<and> at (a @ w @ b) (length a + i + 1) = Some 0x40 \<longleftrightarrow> ?ex"
    using two [OF il] not_NL(4) by blast
  define p where "p = (if ?ex then i + 2 else i)"
  have pl: "p \<le> length w" using at_SomeD [of w "i + 1"] il by (auto simp: p_def)
  have p: "(if ?ex then length a + i + 2 else length a + i) = length a + p" by (simp add: p_def)
  have bar: "at (a @ w @ b) (length a + p) \<noteq> Some 0x7c \<or> at (a @ w @ b) (length a + p + 1) \<noteq> Some 0x7c
      \<longleftrightarrow> at w p \<noteq> Some 0x7c \<or> at w (p + 1) \<noteq> Some 0x7c"
    using two [OF pl not_NL(5) not_NL(5), of a] by blast
  have r: "adblockRule dec f (a @ w @ b) (length a + p + 2) (length a + j) k = adblockRule dec f w (p + 2) j k"
    if "\<not> (at w p \<noteq> Some 0x7c \<or> at w (p + 1) \<noteq> Some 0x7c)" for k
    using adblockRule_window [of "p + 2" w j dec f a b k] that at_SomeD [of w "p + 1"] j
    by (simp add: add.assoc)
  show ?thesis
    unfolding adblockLine_def Let_def ex p bar one [OF not_NL(1)] one [OF not_NL(2)] one [OF not_NL(3)]
      p_def [symmetric] using r by (simp cong: if_cong)
qed

lemma hostsLine_window [window_simps]:
  assumes "i \<le> j" "j \<le> length w"
  shows "hostsLine dec f (a @ w @ b) (length a + i) (length a + j) = hostsLine dec f w i j"
  using skipUp_le [OF assms(1), of "\<lambda>b. \<not> isSpace b" w] assms
  by (simp add: hostsLine_def Let_def window_simps)

lemma domainsLine_window [window_simps]:
  assumes b: "line_ends b" and "i \<le> length w" and j: "j \<le> length w"
  shows "domainsLine dec f (a @ w @ b) (length a + i) (length a + j) = domainsLine dec f w i j"
  using at_two_window [OF b assms(2) not_NL(6,7), of a] at_window [OF b assms(2) not_NL(7), of a]
    domainHash_window [OF j, of dec f a b "i + 2"] domainHash_window [OF j, of dec f a b "i + 1"]
    domainHash_window [OF j, of dec f a b i]
  by (simp add: domainsLine_def Let_def subarray_window [OF j])

lemma parseLineBytes_window:
  assumes b: "line_ends b"
  shows "parseLineBytes dec f fmt (a @ w @ b) (length a) (length a + length w)
       = parseLineBytes dec f fmt w 0 (length w)"
proof -
  let ?s = "skipUp isSpace w 0 (length w)"
  let ?e = "skipDown isSpace w ?s (length w)"
  let ?c = "commentEnd w ?s ?e"
  have s: "skipUp isSpace (a @ w @ b) (length a) (length a + length w) = length a + ?s"
    using skipUp_window [of "length w" w isSpace a b 0] by simp
  have sl: "?s \<le> length w" by (simp add: skipUp_le)
  have e: "skipDown isSpace (a @ w @ b) (length a + ?s) (length a + length w) = length a + ?e"
    using skipDown_window [OF _ sl] by simp
  have el: "?e \<le> length w" using skipDown_bounds [OF sl] by simp
  have c: "commentEnd (a @ w @ b) (length a + ?s) (length a + ?e) = length a + ?c"
    using commentEnd_window [OF sl el] .
  have cl: "?c \<le> length w" if "?s < ?e" using commentEnd_le [of ?s ?e w] that el by simp
  show ?thesis
  proof (cases "?s < ?e")
    case True
    have sc: "?s \<le> ?c" using True commentEnd_ge [of ?s ?e w] by simp
    show ?thesis
      unfolding parseLineBytes_def s e c Let_def at_window [OF b sl not_NL(3)] at_window [OF b sl not_NL(2)]
        at_window [OF b sl not_NL(1)] adblockLine_window [OF b True el]
        hostsLine_window [OF sc cl [OF True]] domainsLine_window [OF b sl cl [OF True]]
      by simp
  next
    case False
    then show ?thesis unfolding parseLineBytes_def s e Let_def by simp
  qed
qed


section \<open>The reader does not see the chunk borders\<close>

lemma at_prefix_window:
  "line_ends b \<Longrightarrow> p < length w \<Longrightarrow> at (a @ w @ b) (length a + p) = at w p"
  by (simp add: at_def nth_append)

lemma readLine_window:
  assumes b: "line_ends b"
  shows "readLine dec f fmt m (a @ w @ b) (length a) (length a + length w) r =
         readLine dec f fmt m w 0 (length w) r"
proof -
  let ?p = "skipUp isSpace w 0 (length w)"
  have p: "skipUp isSpace (a @ w @ b) (length a) (length a + length w) = length a + ?p"
    using skipUp_window [of "length w" w isSpace a b 0] by simp
  have at: "at (a @ w @ b) (length a + ?p) = at w ?p" if "?p < length w"
    using at_prefix_window [OF b that] .
  show ?thesis
    unfolding readLine_def parseLineBytes_window [OF b] p Let_def
    using at by (auto intro!: Option.bind_cong simp: add_le_cancel_left)
qed

text \<open>What a line end does with the text \<open>w\<close> in front of it.\<close>

definition endLine ::
  "(bytes \<Rightarrow> string) \<Rightarrow> (string \<Rightarrow> string) \<Rightarrow> list_format \<Rightarrow> nat \<Rightarrow> bytes \<Rightarrow> reader \<Rightarrow> reader option" where
  "endLine dec f fmt m w r =
     (if rd_overlong r then Some (r\<lparr>rd_overlong := False, rd_skipped := rd_skipped r + 1\<rparr>)
      else let full = (case rd_rest r of Some q \<Rightarrow> q @ w | None \<Rightarrow> w); r' = r\<lparr>rd_rest := None\<rparr>
        in if length full \<le> MAX_LINE then readLine dec f fmt m full 0 (length full) r'
           else Some (r'\<lparr>rd_skipped := rd_skipped r' + 1\<rparr>))"

lemma indexOf_first: "x \<notin> set w \<Longrightarrow> indexOf (a @ w @ x # c) x (length a) = Some (length a + length w)"
  by (auto simp: indexOf_def Let_def takeWhile_append)

lemma indexOf_absent: "x \<notin> set c \<Longrightarrow> indexOf (a @ c) x (length a) = None"
proof -
  assume "x \<notin> set c"
  then have l: "takeWhile (\<lambda>y. y \<noteq> x) c = c" by (auto simp: takeWhile_eq_all_conv)
  have d: "drop (length a) (a @ c) = c" by simp
  show ?thesis unfolding indexOf_def d l by simp
qed

lemma chunk_loop_none: "NL \<notin> set c \<Longrightarrow> chunk_loop dec f fmt m (a @ c) (length a) r = Some (length a, r)"
  by (subst chunk_loop.simps) (simp add: indexOf_absent)

lemma chunk_loop_line:
  assumes "NL \<notin> set w"
  shows "chunk_loop dec f fmt m (a @ w @ NL # c) (length a) r =
    endLine dec f fmt m w r \<bind> chunk_loop dec f fmt m (a @ w @ NL # c) (length a + length w + 1)"
proof -
  have b: "line_ends (NL # c)" by (simp add: line_ends_def)
  have n: "rd_rest r = None \<Longrightarrow> r\<lparr>rd_rest := None\<rparr> = r" by simp
  have sub: "subarray (a @ w @ NL # c) (length a) (length a + length w) = w"
    by (simp add: subarray_def)
  show ?thesis
    by (subst chunk_loop.simps)
      (auto simp: indexOf_first [OF assms] endLine_def sub readLine_window [OF b] Let_def n
        split: option.splits)
qed

definition read_from ::
  "(bytes \<Rightarrow> string) \<Rightarrow> (string \<Rightarrow> string) \<Rightarrow> list_format \<Rightarrow> nat \<Rightarrow> bytes \<Rightarrow> bytes \<Rightarrow> reader \<Rightarrow> reader option" where
  "read_from dec f fmt m a c r =
     chunk_loop dec f fmt m (a @ c) (length a) r \<bind> (\<lambda>(s, r). Some (keep_tail (a @ c) s r))"

lemma read_from_none: "NL \<notin> set c \<Longrightarrow> read_from dec f fmt m a c r = Some (keep_tail c 0 r)"
  by (simp add: read_from_def chunk_loop_none keep_tail_def)

lemma read_from_line:
  "NL \<notin> set w \<Longrightarrow>
   read_from dec f fmt m a (w @ NL # c) r = endLine dec f fmt m w r \<bind> read_from dec f fmt m (a @ w @ [NL]) c"
  by (cases "endLine dec f fmt m w r") (simp_all add: read_from_def chunk_loop_line)

lemma split_at_NL:
  obtains "NL \<notin> set c" | w c' where "c = w @ NL # c'" "NL \<notin> set w"
  by (metis split_list_first)

lemma read_from_eq: "read_from dec f fmt m a c r = read_from dec f fmt m [] c r"
proof (induction "length c" arbitrary: a c r rule: less_induct)
  case less
  show ?case
  proof (cases c rule: split_at_NL)
    case 1
    then show ?thesis by (simp add: read_from_none)
  next
    case (2 w c')
    have "read_from dec f fmt m (a @ w @ [NL]) c' = read_from dec f fmt m (w @ [NL]) c'"
      using less [of c' "a @ w @ [NL]"] less [of c' "w @ [NL]"] 2 by (simp add: fun_eq_iff)
    with 2 read_from_line [of w dec f fmt m "[]" c'] show ?thesis by (simp add: read_from_line)
  qed
qed

lemma read_chunk_none: "NL \<notin> set c \<Longrightarrow> read_chunk dec f fmt m c r = Some (keep_tail c 0 r)"
  using read_from_none [of c dec f fmt m "[]" r] by (simp add: read_from_def read_chunk_def)

lemma read_chunk_line:
  "NL \<notin> set w \<Longrightarrow>
   read_chunk dec f fmt m (w @ NL # c) r = endLine dec f fmt m w r \<bind> read_chunk dec f fmt m c"
  using read_from_line [of w dec f fmt m "[]" c r] read_from_eq [of dec f fmt m "w @ [NL]" c]
  by (simp add: read_from_def read_chunk_def fun_eq_iff cong: Option.bind_cong)

text \<open>The reader's invariant: an unfinished line is short and not empty; none is kept while skipping.\<close>

definition reader_ok :: "reader \<Rightarrow> bool" where
  "reader_ok r =
     (case rd_rest r of None \<Rightarrow> True | Some q \<Rightarrow> \<not> rd_overlong r \<and> q \<noteq> [] \<and> length q \<le> MAX_LINE)"

lemma add_entry_frame:
  "add_entry m kh r = Some r' \<Longrightarrow> rd_rest r' = rd_rest r \<and> rd_overlong r' = rd_overlong r"
  by (auto simp: add_entry_def Let_def split: if_splits entry_kind.splits)

lemma add_entries_frame:
  "add_entries m es r = Some r' \<Longrightarrow> rd_rest r' = rd_rest r \<and> rd_overlong r' = rd_overlong r"
  by (induction es arbitrary: r) (auto simp: bind_eq_Some_conv dest!: add_entry_frame)

lemma readLine_frame:
  "readLine dec f fmt m buf s e r = Some r' \<Longrightarrow> rd_rest r' = rd_rest r \<and> rd_overlong r' = rd_overlong r"
  by (auto simp: readLine_def Let_def bind_eq_Some_conv dest!: add_entries_frame split: if_splits)

lemma endLine_ok: "reader_ok r \<Longrightarrow> endLine dec f fmt m w r = Some r' \<Longrightarrow> reader_ok r' \<and> rd_rest r' = None"
  by (auto simp: endLine_def reader_ok_def Let_def dest!: readLine_frame split: if_splits option.splits)

lemma keep_tail_ok: "reader_ok r \<Longrightarrow> reader_ok (keep_tail c s r)"
  by (auto simp: keep_tail_def reader_ok_def Let_def split: option.splits)

lemma keep_tail_append: "reader_ok r \<Longrightarrow> keep_tail (c @ d) 0 r = keep_tail d 0 (keep_tail c 0 r)"
  by (cases "rd_rest r") (auto simp: keep_tail_def reader_ok_def Let_def)

lemma endLine_append:
  "reader_ok r \<Longrightarrow> endLine dec f fmt m (c @ w) r = endLine dec f fmt m w (keep_tail c 0 r)"
  by (cases "rd_rest r") (auto simp: endLine_def keep_tail_def reader_ok_def Let_def)

lemma read_chunk_ok: "reader_ok r \<Longrightarrow> read_chunk dec f fmt m c r = Some r' \<Longrightarrow> reader_ok r'"
proof (induction "length c" arbitrary: c r rule: less_induct)
  case less
  show ?case
  proof (cases c rule: split_at_NL)
    case 1
    with less.prems show ?thesis by (auto simp: read_chunk_none keep_tail_ok)
  next
    case (2 w c')
    with less.prems obtain r1 where "endLine dec f fmt m w r = Some r1" "read_chunk dec f fmt m c' r1 = Some r'"
      by (auto simp: read_chunk_line bind_eq_Some_conv)
    with less.hyps [of c' r1] 2 endLine_ok [OF less.prems(1)] show ?thesis by auto
  qed
qed

lemma read_chunk_append:
  "reader_ok r \<Longrightarrow>
   read_chunk dec f fmt m (c @ d) r = read_chunk dec f fmt m c r \<bind> read_chunk dec f fmt m d"
proof (induction "length c" arbitrary: c r rule: less_induct)
  case less
  show ?case
  proof (cases c rule: split_at_NL)
    case 1
    show ?thesis
    proof (cases d rule: split_at_NL)
      case d: 1
      with 1 less.prems show ?thesis by (simp add: read_chunk_none keep_tail_append)
    next
      case (2 w d')
      with 1 less.prems show ?thesis
        using read_chunk_line [of "c @ w" dec f fmt m d' r]
        by (simp add: read_chunk_none read_chunk_line endLine_append)
    qed
  next
    case (2 w c')
    show ?thesis
    proof (cases "endLine dec f fmt m w r")
      case (Some r1)
      with less.hyps [of c' r1] 2 endLine_ok [OF less.prems Some] show ?thesis
        by (simp add: read_chunk_line)
    qed (use 2 in \<open>simp add: read_chunk_line\<close>)
  qed
qed

interpretation list_reader: incremental_reader reader_ok "read_chunk dec f fmt m" for dec f fmt m
proof unfold_locales
  show "read_chunk dec f fmt m [] r = Some r" for r
    by (simp add: read_chunk_none keep_tail_def)
qed (auto intro: read_chunk_ok read_chunk_append)


section \<open>Hashing the bytes is hashing the cleaned name\<close>

definition lower_bytes :: "bytes \<Rightarrow> string" where
  "lower_bytes bs = toLower (map byte_char bs)"

lemma code_dot: "(of_char c = (46 :: nat)) = (c = CHR ''.'')"
  and code_dash: "(of_char c = (45 :: nat)) = (c = CHR ''-'')"
  and code_underscore: "(of_char c = (95 :: nat)) = (c = CHR ''_'')"
proof -
  have "(of_char CHR ''.'' :: nat) = 46" "(of_char CHR ''-'' :: nat) = 45" "(of_char CHR ''_'' :: nat) = 95"
    by simp_all
  then show "(of_char c = (46 :: nat)) = (c = CHR ''.'')" "(of_char c = (45 :: nat)) = (c = CHR ''-'')"
    "(of_char c = (95 :: nat)) = (c = CHR ''_'')"
    by (metis of_char_eq_iff)+
qed

lemma label_edge_code: "label_edge c \<longleftrightarrow> isAlnum (of_char c) \<or> of_char c = (0x5f :: nat)"
  by (auto simp: label_edge_def isAlnum_def is_lower_def is_digit_def Let_def code_underscore)

lemma label_mid_code: "label_mid c \<longleftrightarrow> isAlnum (of_char c) \<or> of_char c = (0x5f :: nat) \<or> of_char c = (0x2d :: nat)"
  by (auto simp: label_mid_def label_edge_code code_dash)

lemma of_byte_char: "of_char (byte_char b) = unat b"
  by (simp add: byte_char_def unat_byte_less [THEN mod_less])

lemma lower_byte_code:
  "unat b < 128 \<Longrightarrow>
   of_char (lower_char (byte_char b)) = (if 0x41 \<le> unat b \<and> unat b \<le> 0x5a then unat b + 32 else unat b)"
  by (auto simp: of_byte_char lower_code_def)

text \<open>An unfinished label that can still become a valid one.\<close>

definition label_start :: "string \<Rightarrow> bool" where
  "label_start l = (list_all label_mid l \<and> length l \<le> 63 \<and> (l \<noteq> [] \<longrightarrow> label_edge (hd l)))"

lemma label_re_of_start: "label_start l \<Longrightarrow> label_re l \<longleftrightarrow> l \<noteq> [] \<and> last l \<noteq> CHR ''-''"
  by (cases l rule: rev_cases) (auto simp: label_start_def label_re_def label_mid_def label_edge_def
      is_lower_def is_digit_def)

lemma label_re_extends:
  assumes "label_re (l @ c # q)"
  shows "label_mid c" "length l < 63" "l = [] \<Longrightarrow> label_edge c"
  using assms by (auto simp: label_re_def)

lemma label_start_snoc:
  "label_start l \<Longrightarrow> label_start (l @ [c]) \<longleftrightarrow> length l < 63 \<and> label_mid c \<and> (l = [] \<longrightarrow> label_edge c)"
  by (cases l) (auto simp: label_start_def)

lemma label_mid_not_dot: "label_mid c \<Longrightarrow> c \<noteq> CHR ''.''"
  by (auto simp: label_mid_def label_edge_def is_lower_def is_digit_def)

lemma hashDomain_loop_eq:
  assumes "list_all (\<lambda>b. unat b < 128) bs" "label_start l"
    and "prev = (if l = [] then 0x2e else of_char (last l))"
  shows "hashDomain_loop bs hh (length l) dots prev alpha =
    (let t = lower_bytes bs; parts = split_on CHR ''.'' t
     in if list_all label_re ((l @ hd parts) # tl parts) \<and> dots + length (tl parts) \<noteq> 0 \<and>
           (alpha \<or> list_ex (\<lambda>c. 0x39 < (of_char c :: nat)) t)
        then Hash (hash_final (foldl hash_step hh (map of_char t))) else Invalid)"
  using assms
proof (induction bs arbitrary: l hh dots prev alpha)
  case Nil
  have "prev = 0x2d \<longleftrightarrow> l \<noteq> [] \<and> last l = CHR ''-''" using Nil.prems(3) by (auto simp: code_dash)
  with Nil.prems show ?case by (auto simp: lower_bytes_def toLower_def label_re_of_start)
next
  case (Cons b bs)
  define ch where "ch = lower_char (byte_char b)"
  define n where "n = (of_char ch :: nat)"
  have b: "unat b < 128" "\<not> 128 \<le> unat b" using Cons.prems(1) by auto
  have n: "(if 0x41 \<le> unat b \<and> unat b \<le> 0x5a then unat b + 32 else unat b) = n"
    using lower_byte_code [OF b(1)] by (simp only: n_def ch_def)
  have t: "lower_bytes (b # bs) = ch # lower_bytes bs" by (simp add: lower_bytes_def toLower_def ch_def)
  obtain p ps where ps: "split_on CHR ''.'' (lower_bytes bs) = p # ps"
    by (cases "split_on CHR ''.'' (lower_bytes bs)") auto
  have dash: "prev = 0x2d \<longleftrightarrow> l \<noteq> [] \<and> last l = CHR ''-''" using Cons.prems(3) by (auto simp: code_dash)
  have step: "hashDomain_loop (b # bs) hh (length l) dots prev alpha =
      (if n = 0x2e then if l = [] \<or> prev = 0x2d then Invalid
         else hashDomain_loop bs (hash_step hh n) 0 (dots + 1) n alpha
       else if isAlnum n \<or> n = 0x5f \<or> n = 0x2d \<and> l \<noteq> [] then if 63 < length l + 1 then Invalid
         else hashDomain_loop bs (hash_step hh n) (length l + 1) dots n (alpha \<or> 0x39 < n)
       else Invalid)"
    unfolding hashDomain_loop.simps Let_def n using b by simp
  have asc: "list_all (\<lambda>b. unat b < 128) bs" using Cons.prems(1) by simp
  show ?case
  proof (cases "ch = CHR ''.''")
    case True
    then have nd: "n = 0x2e" by (simp add: n_def)
    show ?thesis
      unfolding step t using nd True ps dash label_re_of_start [OF Cons.prems(2)]
        Cons.IH [OF asc, of "[]" n "hash_step hh n" "dots + 1" alpha]
      by (auto simp: label_start_def n_def)
  next
    case False
    then have nd: "n \<noteq> 0x2e" by (simp add: n_def code_dot)
    have ok: "isAlnum n \<or> n = 0x5f \<or> n = 0x2d \<and> l \<noteq> [] \<longleftrightarrow> label_mid ch \<and> (l = [] \<longrightarrow> label_edge ch)"
      by (auto simp: n_def label_mid_code label_edge_code isAlnum_def)
    show ?thesis
    proof (cases "label_start (l @ [ch])")
      case st: True
      then have "label_mid ch \<and> (l = [] \<longrightarrow> label_edge ch)" "length l < 63"
        using label_start_snoc [OF Cons.prems(2)] by auto
      with Cons.IH [OF asc st, of n "hash_step hh n" dots "alpha \<or> 0x39 < n"] nd ok False ps show ?thesis
        unfolding step t by (auto simp: n_def Let_def)
    next
      case bad: False
      then have "\<not> (label_mid ch \<and> (l = [] \<longrightarrow> label_edge ch)) \<or> 63 < length l + 1"
        using label_start_snoc [OF Cons.prems(2)] by auto
      moreover have "\<not> label_re (l @ ch # p)"
        using bad label_re_extends label_start_snoc [OF Cons.prems(2)] by blast
      ultimately show ?thesis
        unfolding step t using nd ok False ps by auto
    qed
  qed
qed


lemma two_labels_length:
  assumes "2 \<le> length (split_on c d)" "list_all label_re (split_on c d)"
  shows "3 \<le> length d"
proof -
  obtain a b r where ps: "split_on c d = a # b # r"
    using assms(1) by (cases "split_on c d" rule: remdups_adj.cases) auto
  have "d = a @ c # join c (b # r)" using join_split_on [of c d] ps by simp
  moreover have "a \<noteq> []" "b \<noteq> []" using assms(2) ps by (auto simp: label_re_def)
  moreover have "length b \<le> length (join c (b # r))" by (cases r) auto
  ultimately show ?thesis by (cases a; cases b) auto
qed

lemma hashDomain_loop_init:
  assumes "list_all (\<lambda>b. unat b < 128) bs"
  shows "hashDomain_loop bs hash_init 0 0 0x2e False =
    (let t = lower_bytes bs
     in if list_all label_re (split_on CHR ''.'' t) \<and> 2 \<le> length (split_on CHR ''.'' t) \<and>
           list_ex (\<lambda>c. 0x39 < (of_char c :: nat)) t
        then Hash (hash53 t) else Invalid)"
proof -
  obtain p ps where ps: "split_on CHR ''.'' (lower_bytes bs) = p # ps"
    by (cases "split_on CHR ''.'' (lower_bytes bs)") auto
  show ?thesis
    using hashDomain_loop_eq [OF assms, of "[]" "0x2e" hash_init 0 False]
    by (auto simp: label_start_def ps hash53_def Let_def Suc_le_eq)
qed

lemma lower_bytes_last:
  "list_all (\<lambda>b. unat b < 128) w \<Longrightarrow> w \<noteq> [] \<Longrightarrow> last (lower_bytes w) = CHR ''.'' \<longleftrightarrow> last w = 0x2e"
proof (cases w rule: rev_cases)
  case (snoc xs b)
  assume "list_all (\<lambda>b. unat b < 128) w"
  with snoc have "unat b < 128" by simp
  from lower_byte_code [OF this] have "lower_char (byte_char b) = CHR ''.'' \<longleftrightarrow> unat b = 0x2e"
    by (auto simp: code_dot [symmetric])
  with snoc show ?thesis by (simp add: lower_bytes_def toLower_def word_unat_eq_iff)
qed simp

lemma lower_bytes_ascii: "list_all (\<lambda>b. unat b < 128) w \<Longrightarrow> list_all is_ascii (lower_bytes w)"
  by (induction w) (auto simp: lower_bytes_def toLower_def is_ascii_def of_byte_char lower_code_def)

lemma cleanDomain_ascii:
  assumes "list_all (\<lambda>b. unat b < 128) w" "trim (map byte_char w) = map byte_char w"
  shows "cleanDomain f False (map byte_char w) =
    (let v = (if w \<noteq> [] \<and> last w = 0x2e then butlast w else w); t = lower_bytes v
     in if length v \<le> 253 \<and> list_all label_re (split_on CHR ''.'' t) \<and> 2 \<le> length (split_on CHR ''.'' t) \<and>
           \<not> list_all (\<lambda>c. is_digit c \<or> c = CHR ''.'') t then Some t else None)"
proof -
  define v where "v = (if w \<noteq> [] \<and> last w = 0x2e then butlast w else w)"
  have s0: "toLower (trim (map byte_char w)) = lower_bytes w" by (simp add: assms(2) lower_bytes_def)
  have s1: "(if lower_bytes w \<noteq> [] \<and> last (lower_bytes w) = CHR ''.'' then butlast (lower_bytes w)
             else lower_bytes w) = lower_bytes v"
    using lower_bytes_last [OF assms(1)]
    by (auto simp: v_def lower_bytes_def toLower_def map_butlast)
  have "list_all (\<lambda>b. unat b < 128) v" using assms(1) by (auto simp: v_def list_all_iff dest: in_set_butlastD)
  then have a: "list_all is_ascii (lower_bytes v)" by (rule lower_bytes_ascii)
  have l: "length (lower_bytes v) = length v" by (simp add: lower_bytes_def)
  show ?thesis
    unfolding cleanDomain_def s0 s1 Let_def v_def [symmetric] using a l
    by (auto simp: label_re_def not_le)
qed

lemma digits_no_alpha:
  "list_ex (\<lambda>c. 0x39 < (of_char c :: nat)) t \<Longrightarrow> \<not> list_all (\<lambda>c. is_digit c \<or> c = CHR ''.'') t"
  by (fastforce simp: list_ex_iff list_all_iff is_digit_def Let_def)

text \<open>
  The byte-level hash on every ASCII window without surrounding white space. It refuses each
  name without a letter or underscore; of these \<open>cleanDomain\<close> refuses the ones of digits and
  dots only.
\<close>

lemma hash_bytes_cases:
  assumes "s \<le> e" "e \<le> length buf"
    and "list_all (\<lambda>b. unat b < 128) (subarray buf s e)"
    and "trim (map byte_char (subarray buf s e)) = map byte_char (subarray buf s e)"
  shows "hashDomainBytes buf s e =
    (case cleanDomain f False (map byte_char (subarray buf s e)) of
       None \<Rightarrow> Invalid
     | Some d \<Rightarrow> if list_ex (\<lambda>c. 0x39 < (of_char c :: nat)) d then Hash (hash53 d) else Invalid)"
proof -
  define w where "w = subarray buf s e"
  define v where "v = (if w \<noteq> [] \<and> last w = 0x2e then butlast w else w)"
  define e' where "e' = (if s < e \<and> buf ! (e - 1) = 0x2e then e - 1 else e)"
  have "length w = e - s" "w \<noteq> [] \<Longrightarrow> last w = buf ! (e - 1)"
    using assms(1,2) by (auto simp: w_def subarray_def last_conv_nth)
  then have v: "subarray buf s e' = v" and lv: "e' - s = length v"
    using assms(1,2) by (auto simp: e'_def v_def w_def subarray_def butlast_take)
  have asc: "list_all (\<lambda>b. unat b < 128) v"
    using assms(3) by (auto simp: v_def w_def list_all_iff dest: in_set_butlastD)
  have "hashDomainBytes buf s e =
      (if length v < 3 \<or> 253 < length v then Invalid else hashDomain_loop v hash_init 0 0 0x2e False)"
    unfolding hashDomainBytes_def Let_def e'_def [symmetric] v lv ..
  moreover have "3 \<le> length v"
    if "list_all label_re (split_on CHR ''.'' (lower_bytes v))" "2 \<le> length (split_on CHR ''.'' (lower_bytes v))"
    using two_labels_length [OF that(2,1)] by (simp add: lower_bytes_def)
  ultimately show ?thesis
    unfolding hashDomain_loop_init [OF asc] w_def [symmetric]
      cleanDomain_ascii [OF assms(3,4) [folded w_def]] v_def [symmetric] Let_def
    using digits_no_alpha [of "lower_bytes v"] by (auto split: if_splits)
qed

lemma letterless_name_refused:
  "cleanDomain id False ''1-2.34'' = Some ''1-2.34'' \<and>
   hashDomainBytes (map char_byte ''1-2.34'') 0 6 = Invalid"
proof
  show "cleanDomain id False ''1-2.34'' = Some ''1-2.34''" by code_simp
  show "hashDomainBytes (map char_byte ''1-2.34'') 0 6 = Invalid" by code_simp
qed

lemma lower_code_ge: "n \<le> lower_code n"
  by (simp add: lower_code_def)

text \<open>
  C18. On names that have a letter or an underscore the byte-level hash computes the same as
  cleaning the name as a string and hashing it: for every window of ASCII bytes without
  surrounding white space that holds a character above \<open>9\<close> in the character table,
  \<open>hashDomainBytes\<close> returns the hash of the cleaned (lower-cased, dot-stripped, label-checked)
  domain, and refuses the window exactly when \<open>cleanDomain\<close> refuses the string.
\<close>

theorem hash_bytes_is_hash_of_clean:
  assumes "s \<le> e" "e \<le> length buf"
    and "list_all (\<lambda>b. unat b < 128) (subarray buf s e)"
    and "trim (map byte_char (subarray buf s e)) = map byte_char (subarray buf s e)"
    and "list_ex (\<lambda>b. 0x39 < unat b) (subarray buf s e)"
  shows "hashDomainBytes buf s e =
    (case cleanDomain f False (map byte_char (subarray buf s e)) of
       None \<Rightarrow> Invalid | Some d \<Rightarrow> Hash (hash53 d))"
proof -
  define w where "w = subarray buf s e"
  define v where "v = (if w \<noteq> [] \<and> last w = 0x2e then butlast w else w)"
  obtain b where b: "b \<in> set w" "0x39 < unat b" using assms(5) by (auto simp: w_def list_ex_iff)
  then have "b \<noteq> 0x2e" by auto
  with b(1) have "b \<in> set v" by (cases w rule: rev_cases) (auto simp: v_def)
  then have "lower_char (byte_char b) \<in> set (lower_bytes v)" by (simp add: lower_bytes_def toLower_def)
  moreover have "0x39 < (of_char (lower_char (byte_char b)) :: nat)"
    using b(2) lower_code_ge [of "unat b"] by (simp add: byte_char_def take_bit_eq_mod)
  ultimately have "list_ex (\<lambda>c. 0x39 < (of_char c :: nat)) (lower_bytes v)" unfolding list_ex_iff by blast
  moreover have "d = lower_bytes v" if "cleanDomain f False (map byte_char w) = Some d" for d
    using that unfolding cleanDomain_ascii [OF assms(3,4) [folded w_def]] v_def [symmetric] Let_def
    by (auto split: if_splits)
  ultimately show ?thesis
    unfolding hash_bytes_cases [OF assms(1-4), where f = f] w_def [symmetric] by (auto split: option.split)
qed

theorem hash_bytes_is_hash_of_clean_witness:
  "hashDomainBytes (map char_byte ''@@||Ads.Net.^'') 4 12 = Hash (hash53 ''ads.net'')"
proof -
  let ?b = "map char_byte ''@@||Ads.Net.^''"
  have w: "subarray ?b 4 12 = map char_byte ''Ads.Net.''" by code_simp
  have a: "list_all (\<lambda>b. unat b < 128) (map char_byte ''Ads.Net.'')" by code_simp
  have t: "trim (map byte_char (map char_byte ''Ads.Net.'')) = map byte_char (map char_byte ''Ads.Net.'')"
    by code_simp
  have c: "cleanDomain id False (map byte_char (map char_byte ''Ads.Net.'')) = Some ''ads.net''" by code_simp
  have l: "list_ex (\<lambda>b. 0x39 < unat b) (map char_byte ''Ads.Net.'')" by code_simp
  from hash_bytes_is_hash_of_clean [of 4 12 ?b id, unfolded w, OF _ _ a t l] c show ?thesis by simp
qed


section \<open>What a list file contributes\<close>

text \<open>
  The specification: cut the text at the line ends, drop the overlong lines, and take the
  entries of the others in order.
\<close>

definition line_entries ::
  "(bytes \<Rightarrow> string) \<Rightarrow> (string \<Rightarrow> string) \<Rightarrow> list_format \<Rightarrow> bytes \<Rightarrow> (entry_kind \<times> nat) list" where
  "line_entries dec f fmt l =
     (if length l \<le> MAX_LINE then parseLineBytes dec f fmt l 0 (length l) else [])"

definition file_entries ::
  "(bytes \<Rightarrow> string) \<Rightarrow> (string \<Rightarrow> string) \<Rightarrow> list_format \<Rightarrow> bytes \<Rightarrow> (entry_kind \<times> nat) list" where
  "file_entries dec f fmt bs = concat (map (line_entries dec f fmt) (split_on NL bs))"

definition of_kind :: "entry_kind \<Rightarrow> (entry_kind \<times> nat) list \<Rightarrow> nat list" where
  "of_kind k es = map snd (filter (\<lambda>e. fst e = k) es)"

definition collects :: "reader \<Rightarrow> (entry_kind \<times> nat) list \<Rightarrow> bool" where
  "collects r es =
     (rd_total r = length es \<and> holds (rd_suffix r) (of_kind Suffix es) \<and>
      holds (rd_exact r) (of_kind Exact es) \<and> holds (rd_except r) (of_kind Except es))"

text \<open>
  The outcome of reading \<open>new\<close> entries after \<open>es\<close>: the exception when the limit is passed,
  otherwise a reader that holds them all.
\<close>

definition reads :: "nat \<Rightarrow> (entry_kind \<times> nat) list \<Rightarrow> (reader \<Rightarrow> bool) \<Rightarrow> reader option \<Rightarrow> bool" where
  "reads m es P res =
     (if m < length es then res = None else \<exists>r'. res = Some r' \<and> collects r' es \<and> P r')"

lemma of_kind_snoc: "of_kind k (es @ [e]) = of_kind k es @ (if fst e = k then [snd e] else [])"
  by (simp add: of_kind_def)

lemma add_entry_collects:
  assumes "collects r es"
  shows "reads m (es @ [e]) (\<lambda>r'. rd_rest r' = rd_rest r \<and> rd_overlong r' = rd_overlong r) (add_entry m e r)"
proof (cases "m < length es + 1")
  case True
  with assms show ?thesis by (simp add: reads_def add_entry_def collects_def)
next
  case False
  with assms show ?thesis
    by (cases "fst e") (auto simp: reads_def add_entry_def collects_def of_kind_snoc holds_addHash)
qed

lemma add_entries_collects:
  "collects r es \<Longrightarrow> length es \<le> m \<Longrightarrow>
   reads m (es @ new) (\<lambda>r'. rd_rest r' = rd_rest r \<and> rd_overlong r' = rd_overlong r) (add_entries m new r)"
proof (induction new arbitrary: r es)
  case (Cons e new)
  show ?case
  proof (cases "m < length (es @ [e])")
    case True
    with add_entry_collects [OF Cons.prems(1), of m e] show ?thesis by (simp add: reads_def)
  next
    case False
    then obtain r1 where r1: "add_entry m e r = Some r1" "collects r1 (es @ [e])"
      "rd_rest r1 = rd_rest r" "rd_overlong r1 = rd_overlong r"
      using add_entry_collects [OF Cons.prems(1), of m e] by (auto simp: reads_def)
    with Cons.IH [OF r1(2)] False show ?thesis by simp
  qed
qed (simp add: reads_def)

lemma collects_update [simp]:
  "collects (r\<lparr>rd_lines := n\<rparr>) es = collects r es" "collects (r\<lparr>rd_skipped := n\<rparr>) es = collects r es"
  "collects (r\<lparr>rd_rest := q\<rparr>) es = collects r es" "collects (r\<lparr>rd_overlong := b\<rparr>) es = collects r es"
  by (simp_all add: collects_def)

lemma readLine_collects:
  assumes "collects r es" "length es \<le> m"
  shows "reads m (es @ parseLineBytes dec f fmt buf s e)
     (\<lambda>r'. rd_rest r' = rd_rest r \<and> rd_overlong r' = rd_overlong r) (readLine dec f fmt m buf s e r)"
proof -
  let ?es = "parseLineBytes dec f fmt buf s e"
  let ?r = "r\<lparr>rd_lines := rd_lines r + 1\<rparr>"
  have a: "reads m (es @ ?es) (\<lambda>r'. rd_rest r' = rd_rest r \<and> rd_overlong r' = rd_overlong r)
      (add_entries m ?es ?r)"
    using add_entries_collects [of ?r es m ?es] assms by simp
  show ?thesis
  proof (cases "m < length (es @ ?es)")
    case True
    with a show ?thesis by (simp add: reads_def readLine_def Let_def)
  next
    case False
    then obtain r1 where "add_entries m ?es ?r = Some r1" "collects r1 (es @ ?es)"
      "rd_rest r1 = rd_rest r" "rd_overlong r1 = rd_overlong r"
      using a by (auto simp: reads_def)
    with False show ?thesis by (auto simp: reads_def readLine_def Let_def)
  qed
qed

abbreviation idle :: "reader \<Rightarrow> bool" where
  "idle r \<equiv> rd_rest r = None \<and> \<not> rd_overlong r"

lemma endLine_collects:
  assumes "collects r es" "length es \<le> m" "idle r"
  shows "reads m (es @ line_entries dec f fmt w) idle (endLine dec f fmt m w r)"
proof -
  have r: "r\<lparr>rd_rest := None\<rparr> = r" using assms(3) by simp
  show ?thesis
    using readLine_collects [OF assms(1,2), of dec f fmt w 0 "length w"] assms
    by (auto simp: endLine_def line_entries_def r reads_def split: if_splits)
qed

lemma parseLine_nil [simp]: "parseLineBytes dec f fmt [] 0 0 = []"
  by (simp add: parseLineBytes_def skipUp.simps [of _ _ 0 0] skipDown.simps [of _ _ 0 0])

lemma last_part_collects:
  assumes "collects r es" "length es \<le> m" "idle r"
  shows "reads m (es @ line_entries dec f fmt c) (\<lambda>_. True) (last_line dec f fmt m (keep_tail c 0 r))"
proof (cases "c = []")
  case True
  with assms show ?thesis
    by (simp add: keep_tail_def last_line_def line_entries_def MAX_LINE_def reads_def)
next
  case False
  show ?thesis
  proof (cases "length c \<le> MAX_LINE")
    case True
    with False assms readLine_collects [of "r\<lparr>rd_rest := Some c\<rparr>" es m dec f fmt c 0 "length c"] show ?thesis
      by (auto simp: keep_tail_def last_line_def line_entries_def reads_def)
  next
    case long: False
    with False assms show ?thesis by (auto simp: keep_tail_def last_line_def line_entries_def reads_def)
  qed
qed

lemma read_all_collects:
  "collects r es \<Longrightarrow> length es \<le> m \<Longrightarrow> idle r \<Longrightarrow>
   reads m (es @ file_entries dec f fmt bs) (\<lambda>_. True)
     (read_chunk dec f fmt m bs r \<bind> last_line dec f fmt m)"
proof (induction "length bs" arbitrary: bs r es rule: less_induct)
  case less
  show ?case
  proof (cases bs rule: split_at_NL)
    case 1
    with last_part_collects [OF less.prems] show ?thesis
      by (simp add: read_chunk_none file_entries_def split_on_noop)
  next
    case (2 w c)
    have fe: "file_entries dec f fmt bs = line_entries dec f fmt w @ file_entries dec f fmt c"
      using 2 by (simp add: file_entries_def split_on_append)
    note el = endLine_collects [OF less.prems, of dec f fmt w]
    show ?thesis
    proof (cases "m < length (es @ line_entries dec f fmt w)")
      case True
      with el 2 fe show ?thesis by (simp add: read_chunk_line reads_def)
    next
      case False
      then obtain r1 where r1: "endLine dec f fmt m w r = Some r1"
        "collects r1 (es @ line_entries dec f fmt w)" "idle r1"
        using el by (auto simp: reads_def)
      with less.hyps [OF _ r1(2) _ r1(3), of c] False 2 fe show ?thesis
        by (simp add: read_chunk_line)
    qed
  qed
qed

lemma newReader_collects: "0 < m \<Longrightarrow> collects (newReader fmt m n) [] \<and> idle (newReader fmt m n)"
  by (simp add: newReader_def collects_def of_kind_def Let_def holds_new)

lemma newReader_ok: "reader_ok (newReader fmt m n)"
  by (simp add: newReader_def reader_ok_def Let_def)

lemma finish_is_set: "holds b xs \<Longrightarrow> finish b = sorted_list_of_set (set xs)"
  using finish_sorted finish_distinct finish_set sorted_list_of_set.idem_if_sorted_distinct by metis

text \<open>
  Reading a list does not depend on how the stream was cut into chunks: the loaded list and
  the counters (or the \<open>ListTooLarge\<close> error) are those of reading the whole file at once.
\<close>

lemma list_stream_chunking:
  "parseListStream dec f fmt m n chunks = parseListStream dec f fmt m n [concat chunks]"
  using list_reader.feed_all_concat [OF newReader_ok, of dec f fmt m chunks]
    list_reader.feed_all_concat [OF newReader_ok, of dec f fmt m "[concat chunks]"]
  by (simp add: parseListStream_def)

text \<open>
  C17. The streaming reader implements its specification: cut the file at the line ends, ignore
  lines over 1024 bytes, collect the entries of the rest. With more entries than allowed the
  read fails; otherwise the three hash arrays are exactly the sorted sets of the entries of
  their kind.
\<close>

theorem list_stream_spec:
  assumes "0 < m"
  shows "map_option pl_list (parseListStream dec f fmt m n chunks) =
    (let es = file_entries dec f fmt (concat chunks)
     in if m < length es then None
        else Some \<lparr>cl_suffix = sorted_list_of_set (set (of_kind Suffix es)),
                   cl_exact = sorted_list_of_set (set (of_kind Exact es)),
                   cl_except = sorted_list_of_set (set (of_kind Except es))\<rparr>)"
proof -
  let ?r = "newReader fmt m n" and ?es = "file_entries dec f fmt (concat chunks)"
  have c: "collects ?r []" "idle ?r" using newReader_collects [OF assms] by auto
  have e: "feed_all (read_chunk dec f fmt m) chunks ?r = read_chunk dec f fmt m (concat chunks) ?r"
    using list_reader.feed_all_concat [OF newReader_ok] .
  have "reads m ?es (\<lambda>_. True) (read_chunk dec f fmt m (concat chunks) ?r \<bind> last_line dec f fmt m)"
    using read_all_collects [OF c(1) _ c(2), of m dec f fmt "concat chunks"] by simp
  moreover have "parseListStream dec f fmt m n chunks =
      map_option finishReader (read_chunk dec f fmt m (concat chunks) ?r \<bind> last_line dec f fmt m)"
    unfolding parseListStream_def e by (cases "read_chunk dec f fmt m (concat chunks) ?r")
      (auto simp: map_conv_bind_option comp_def)
  ultimately show ?thesis
    by (auto simp: reads_def collects_def finishReader_def finish_is_set Let_def split: if_splits)
qed

theorem list_stream_spec_witness:
  "map_option pl_list (parseListStream (map byte_char) id Domains 10 0
     [map char_byte ''# x'' @ [NL] @ map char_byte '' a'', map char_byte ''.b''])
   = Some \<lparr>cl_suffix = [hash53 ''a.b''], cl_exact = [], cl_except = []\<rparr>"
proof -
  have "file_entries (map byte_char) id Domains
      (concat [map char_byte ''# x'' @ [NL] @ map char_byte '' a'', map char_byte ''.b'']) = [(Suffix, hash53 ''a.b'')]"
    by code_simp
  with list_stream_spec [of 10 "map byte_char" id Domains 0
      "[map char_byte ''# x'' @ [NL] @ map char_byte '' a'', map char_byte ''.b'']"]
  show ?thesis by (simp add: of_kind_def)
qed

end
