(* ===== verification/Dns_Config.thy ===== *)
theory Dns_Config
  imports Js_Values List_Parser
begin

text \<open>
  Checking \<open>features.dns\<close> of the pulled configuration (\<open>src/src/dns/config.js\<close>). The
  input is any JSON value; the result is the typed configuration of the filter. The order of
  the definitions is that of the source.
\<close>

section \<open>The checked configuration\<close>

record list_source =
  ls_url :: string
  ls_format :: list_format
  ls_sha256 :: "string option"

record schedule =
  sc_days :: "int list"
  sc_from :: nat
  sc_to :: nat
  sc_blockAll :: bool
  sc_categories :: "string list"
  sc_allowAlways :: "string list"

record profile =
  p_id :: string
  p_name :: string
  p_lists :: "string list"
  p_safeSearch :: bool
  p_allow :: "string list"
  p_deny :: "string list"
  p_schedules :: "schedule list"
  p_macs :: "string list"

record pause =
  pz_macs :: "string list"
  pz_until :: rat

record upstream_cfg =
  up_provider :: string
  up_url :: "string option"
  up_fallbackRouter :: bool

record dns_config =
  d_enabled :: bool
  d_upstream :: upstream_cfg
  d_logQueries :: bool
  d_alwaysAllow :: "string list"
  d_lists :: "(string, list_source) jsmap"
  d_categories :: "(string, string list) jsmap"
  d_profiles :: "profile list"
  d_defaultProfile :: "string option"
  d_pauses :: "pause list"
  d_extensions :: "pause list"
  d_nxdomain :: bool

section \<open>Checkers\<close>

definition DNS_PROVIDERS :: "string list" where
  "DNS_PROVIDERS = [''quad9'', ''cloudflare'', ''dns0'', ''custom'']"

fun format_of :: "json \<Rightarrow> list_format option" where
  "format_of (JStr s) =
     (if s = ''domains'' then Some Domains else if s = ''hosts'' then Some Hosts
      else if s = ''adblock'' then Some Adblock else None)"
| "format_of _ = None"

definition LIST_ID_RE :: "string \<Rightarrow> bool" where
  "LIST_ID_RE = re_first is_alnum (\<lambda>c. is_alnum c \<or> c = CHR ''_'' \<or> c = CHR ''-'') 63"

definition KEY_RE :: "string \<Rightarrow> bool" where
  "KEY_RE = re_first (\<lambda>c. is_lower c \<or> is_digit c)
     (\<lambda>c. is_lower c \<or> is_digit c \<or> c = CHR ''_'' \<or> c = CHR ''-'') 31"

definition PROFILE_ID_RE :: "string \<Rightarrow> bool" where
  "PROFILE_ID_RE = re_class (\<lambda>c. is_alnum c \<or> c \<in> set ''_.:-'') 1 64"

definition cleanPattern :: "platform \<Rightarrow> string \<Rightarrow> string option" where
  "cleanPattern pf p =
     (let t = trim p; wild = prefix ''*.'' t
      in case cleanDomain (pf_toASCII pf) False (if wild then drop 2 t else t) of
           None \<Rightarrow> None
         | Some d \<Rightarrow> Some (if wild then ''*.'' @ d else d))"

definition patterns :: "platform \<Rightarrow> json \<Rightarrow> nat \<Rightarrow> string list" where
  "patterns pf v mx = collect (\<lambda>j. strOf j \<bind> cleanPattern pf) mx (arr v (mx * 2))"

definition macs :: "json \<Rightarrow> nat \<Rightarrow> string list" where
  "macs v mx = collect (\<lambda>j. strOf j \<bind> normalizeMac) mx (arr v (mx * 2))"

definition httpsUrl :: "platform \<Rightarrow> json \<Rightarrow> string option" where
  "httpsUrl pf v =
     (case v of
        JStr u \<Rightarrow>
          if 2048 < length u then None
          else (case pf_newURL pf u of
                  None \<Rightarrow> None
                | Some x \<Rightarrow>
                    if u_protocol x = ''https:'' \<and> u_hostname x \<noteq> [] \<and> u_username x = [] \<and> u_password x = []
                    then Some (u_href x) else None)
      | _ \<Rightarrow> None)"

text \<open>\<open>TIME_RE\<close>: \<open>/^([01]\d|2[0-3]):([0-5]\d)$/\<close>.\<close>

definition time_re :: "string \<Rightarrow> (nat \<times> nat) option" where
  "time_re s =
     (case s of
        [a, b, c, d, e] \<Rightarrow>
          if ((a \<in> set ''01'' \<and> is_digit b) \<or> (a = CHR ''2'' \<and> b \<in> set ''0123'')) \<and>
             c = CHR '':'' \<and> d \<in> set ''012345'' \<and> is_digit e
          then Some (dec_value [a, b], dec_value [d, e]) else None
      | _ \<Rightarrow> None)"

definition minutes :: "json \<Rightarrow> bool \<Rightarrow> nat option" where
  "minutes v allow24 =
     (if allow24 \<and> v = JStr ''24:00'' then Some 1440
      else strOf v \<bind> time_re \<bind> (\<lambda>(h, m). Some (h * 60 + m)))"

definition timeMs :: "platform \<Rightarrow> json \<Rightarrow> rat option" where
  "timeMs pf v =
     (case v of
        JNum r \<Rightarrow> Some (if r < 1000000000000 then r * 1000 else r)
      | JStr s \<Rightarrow> if 64 < length s then None else pf_dateParse pf s
      | _ \<Rightarrow> None)"

definition schedule_days :: "json \<Rightarrow> int list" where
  "schedule_days v =
     sort (uniq (List.map_filter
       (\<lambda>j. intOf j \<bind> (\<lambda>d. if 1 \<le> d \<and> d \<le> 7 then Some d else None)) (arr v 7)))"

definition known_strings :: "(string \<Rightarrow> bool) \<Rightarrow> json list \<Rightarrow> string list" where
  "known_strings known js =
     uniq (List.map_filter (\<lambda>j. strOf j \<bind> (\<lambda>s. if known s then Some s else None)) js)"

definition normalizeSchedule :: "platform \<Rightarrow> json \<Rightarrow> string list \<Rightarrow> schedule option" where
  "normalizeSchedule pf j catKeys =
     (if \<not> isObj j then None
      else let s = members j; days = schedule_days (field s ''days'')
        in case (minutes (field s ''from'') False, minutes (field s ''to'') True) of
             (Some from, Some to) \<Rightarrow>
               if days = [] then None
               else let blockAll = (field s ''block'' = JStr ''all'');
                        categories = known_strings (\<lambda>c. c \<in> set catKeys) (arr (field s ''categories'') 16)
                 in if \<not> blockAll \<and> categories = [] then None
                    else Some \<lparr>sc_days = days, sc_from = from, sc_to = to, sc_blockAll = blockAll,
                               sc_categories = categories,
                               sc_allowAlways = patterns pf (field s ''allowAlways'') 2000\<rparr>
           | _ \<Rightarrow> None)"

definition normalizePause :: "platform \<Rightarrow> json \<Rightarrow> pause option" where
  "normalizePause pf j =
     (if \<not> isObj j then None
      else let p = members j; m = macs (field p ''macs'') 256
        in case timeMs pf (field p ''until'') of
             None \<Rightarrow> None
           | Some until \<Rightarrow> if m = [] then None else Some \<lparr>pz_macs = m, pz_until = until\<rparr>)"

definition normalizePauses :: "platform \<Rightarrow> json \<Rightarrow> pause list" where
  "normalizePauses pf v = List.map_filter (normalizePause pf) (arr v 512)"

section \<open>The whole configuration\<close>

definition hex64 :: "json \<Rightarrow> string option" where
  "hex64 v = strOf v \<bind> (\<lambda>s. let l = toLower s
     in if re_class (\<lambda>c. is_hex_lower c \<or> c \<in> set ''ABCDEF'') 64 64 s then Some l else None)"

fun lists_loop :: "platform \<Rightarrow> (string \<times> json) list \<Rightarrow> (string, list_source) jsmap
    \<Rightarrow> (string, list_source) jsmap" where
  "lists_loop pf [] acc = acc"
| "lists_loop pf ((i, l) # es) acc =
     (if 32 \<le> length acc then acc
      else if \<not> LIST_ID_RE i \<or> \<not> isObj l then lists_loop pf es acc
      else case (httpsUrl pf (field (members l) ''url''), format_of (field (members l) ''format'')) of
             (Some u, Some fmt) \<Rightarrow>
               lists_loop pf es
                 (mset_at i \<lparr>ls_url = u, ls_format = fmt, ls_sha256 = hex64 (field (members l) ''sha256'')\<rparr> acc)
           | _ \<Rightarrow> lists_loop pf es acc)"

fun categories_loop :: "platform \<Rightarrow> (string \<times> json) list \<Rightarrow> (string, string list) jsmap
    \<Rightarrow> (string, string list) jsmap" where
  "categories_loop pf [] acc = acc"
| "categories_loop pf ((k, v) # es) acc =
     categories_loop pf es (if KEY_RE k then mset_at k (patterns pf v 20000) acc else acc)"

definition idString :: "platform \<Rightarrow> json \<Rightarrow> json" where
  "idString pf v =
     (case v of JNum r \<Rightarrow> if of_int \<lfloor>r\<rfloor> = r then JStr (pf_numStr pf r) else v | _ \<Rightarrow> v)"

text \<open>\<open>lists[l]\<close> is a computed lookup: it also finds the members of \<open>Object.prototype\<close>.\<close>

definition list_known :: "(string, list_source) jsmap \<Rightarrow> string \<Rightarrow> bool" where
  "list_known ls l = (l \<in> fst ` set ls \<or> l \<in> set object_prototype)"

definition profileOf ::
  "platform \<Rightarrow> (string, list_source) jsmap \<Rightarrow> string list \<Rightarrow> nat \<Rightarrow> string \<Rightarrow> (string \<times> json) list \<Rightarrow> profile" where
  "profileOf pf ls catKeys macBudget i p =
     \<lparr>p_id = i,
      p_name = (case field p ''name'' of JStr n \<Rightarrow> take 64 n | _ \<Rightarrow> i),
      p_lists = known_strings (list_known ls) (arr (field p ''lists'') 32),
      p_safeSearch = (field p ''safeSearch'' = JBool True),
      p_allow = patterns pf (field p ''allow'') 2000,
      p_deny = patterns pf (field p ''deny'') 2000,
      p_schedules = List.map_filter (\<lambda>s. normalizeSchedule pf s catKeys) (arr (field p ''schedules'') 16),
      p_macs = macs (field p ''macs'') (min 256 macBudget)\<rparr>"

fun profiles_loop ::
  "platform \<Rightarrow> (string, list_source) jsmap \<Rightarrow> string list \<Rightarrow> json list \<Rightarrow> nat \<Rightarrow> profile list \<Rightarrow> profile list" where
  "profiles_loop pf ls catKeys [] macBudget acc = acc"
| "profiles_loop pf ls catKeys (j # js) macBudget acc =
     (case (if isObj j then strOf (idString pf (field (members j) ''id'')) else None) of
        None \<Rightarrow> profiles_loop pf ls catKeys js macBudget acc
      | Some i \<Rightarrow>
          if \<not> PROFILE_ID_RE i \<or> i \<in> p_id ` set acc then profiles_loop pf ls catKeys js macBudget acc
          else let p = profileOf pf ls catKeys macBudget i (members j)
            in profiles_loop pf ls catKeys js (macBudget - length (p_macs p)) (acc @ [p]))"

definition defaultId :: "platform \<Rightarrow> json \<Rightarrow> profile list \<Rightarrow> string option" where
  "defaultId pf v profiles =
     (let want = (case v of JNum r \<Rightarrow> Some (pf_numStr pf r) | JStr s \<Rightarrow> Some s | _ \<Rightarrow> None)
      in case want of
           Some s \<Rightarrow> if s \<in> p_id ` set profiles then Some s
                     else (case profiles of [] \<Rightarrow> None | p # _ \<Rightarrow> Some (p_id p))
         | None \<Rightarrow> (case profiles of [] \<Rightarrow> None | p # _ \<Rightarrow> Some (p_id p)))"

definition normalizeUpstream :: "platform \<Rightarrow> (string \<times> json) list \<Rightarrow> upstream_cfg" where
  "normalizeUpstream pf up =
     (let provider = (case field up ''provider'' of
                        JStr s \<Rightarrow> if s \<in> set DNS_PROVIDERS then s else ''quad9'' | _ \<Rightarrow> ''quad9'');
          url = (if provider = ''custom'' then httpsUrl pf (field up ''url'') else None)
      in \<lparr>up_provider = (if provider = ''custom'' \<and> (url = None \<or> url = Some []) then ''quad9'' else provider),
          up_url = url, up_fallbackRouter = (field up ''fallbackRouter'' \<noteq> JBool False)\<rparr>)"

definition normalizeDns :: "platform \<Rightarrow> json \<Rightarrow> dns_config" where
  "normalizeDns pf raw =
     (let d = members raw;
          ls = lists_loop pf (take 64 (members (field d ''lists''))) [];
          categories = categories_loop pf (take 16 (members (field d ''categories''))) [];
          profiles = profiles_loop pf ls (mkeys categories) (arr (field d ''profiles'') 32) 2048 []
      in \<lparr>d_enabled = (field d ''enabled'' = JBool True),
          d_upstream = normalizeUpstream pf (members (field d ''upstream'')),
          d_logQueries = (field d ''logQueries'' = JBool True),
          d_alwaysAllow = patterns pf (field d ''alwaysAllow'') 1000,
          d_lists = ls, d_categories = categories, d_profiles = profiles,
          d_defaultProfile = defaultId pf (field d ''defaultProfile'') profiles,
          d_pauses = normalizePauses pf (field d ''pauses''),
          d_extensions = normalizePauses pf (field d ''extensions''),
          d_nxdomain = (field d ''blockResponse'' = JStr ''nxdomain'')\<rparr>)"


section \<open>What the checkers guarantee\<close>

text \<open>A pattern in canonical form.\<close>

definition clean_pattern :: "string \<Rightarrow> bool" where
  "clean_pattern p =
     (let d = (if prefix ''*.'' p then drop 2 p else p)
      in list_all label_re (split_on CHR ''.'' d) \<and> 2 \<le> length (split_on CHR ''.'' d))"

text \<open>A list of patterns: each in canonical form, none twice, at most \<open>n\<close>.\<close>

definition patterns_ok :: "nat \<Rightarrow> string list \<Rightarrow> bool" where
  "patterns_ok n ps = (list_all clean_pattern ps \<and> distinct ps \<and> length ps \<le> n)"

definition macs_within :: "nat \<Rightarrow> string list \<Rightarrow> bool" where
  "macs_within n ms = (list_all canonical_mac ms \<and> distinct ms \<and> length ms \<le> n)"

definition sha_ok :: "string option \<Rightarrow> bool" where
  "sha_ok h = (case h of None \<Rightarrow> True | Some s \<Rightarrow> length s = 64 \<and> list_all is_hex_lower s)"

definition schedule_ok :: "string list \<Rightarrow> schedule \<Rightarrow> bool" where
  "schedule_ok cats s =
     (sc_days s \<noteq> [] \<and> sorted (sc_days s) \<and> distinct (sc_days s) \<and> set (sc_days s) \<subseteq> {1..7} \<and>
      sc_from s < 1440 \<and> sc_to s \<le> 1440 \<and> set (sc_categories s) \<subseteq> set cats \<and>
      distinct (sc_categories s) \<and> length (sc_categories s) \<le> 16 \<and>
      (sc_blockAll s \<or> sc_categories s \<noteq> []) \<and> patterns_ok 2000 (sc_allowAlways s))"

definition profile_ok :: "(string, list_source) jsmap \<Rightarrow> string list \<Rightarrow> profile \<Rightarrow> bool" where
  "profile_ok ls cats p =
     (PROFILE_ID_RE (p_id p) \<and> length (p_name p) \<le> 64 \<and>
      set (p_lists p) \<subseteq> fst ` set ls \<union> set object_prototype \<and> distinct (p_lists p) \<and>
      length (p_lists p) \<le> 32 \<and> patterns_ok 2000 (p_allow p) \<and> patterns_ok 2000 (p_deny p) \<and>
      list_all (schedule_ok cats) (p_schedules p) \<and> length (p_schedules p) \<le> 16 \<and>
      macs_within 256 (p_macs p))"

definition pause_ok :: "pause \<Rightarrow> bool" where
  "pause_ok p = (pz_macs p \<noteq> [] \<and> macs_within 256 (pz_macs p))"

definition upstream_ok :: "upstream_cfg \<Rightarrow> bool" where
  "upstream_ok u = (up_provider u \<in> set DNS_PROVIDERS \<and>
     (up_provider u = ''custom'' \<longrightarrow> up_url u \<noteq> None \<and> up_url u \<noteq> Some []))"

definition dns_config_ok :: "dns_config \<Rightarrow> bool" where
  "dns_config_ok d =
     (upstream_ok (d_upstream d) \<and>
      wf_map (d_lists d) \<and> length (d_lists d) \<le> 32 \<and> list_all LIST_ID_RE (mkeys (d_lists d)) \<and>
      list_all (\<lambda>kl. sha_ok (ls_sha256 (snd kl))) (d_lists d) \<and>
      wf_map (d_categories d) \<and> length (d_categories d) \<le> 16 \<and> list_all KEY_RE (mkeys (d_categories d)) \<and>
      list_all (\<lambda>kc. patterns_ok 20000 (snd kc)) (d_categories d) \<and>
      length (d_profiles d) \<le> 32 \<and> distinct (map p_id (d_profiles d)) \<and>
      list_all (profile_ok (d_lists d) (mkeys (d_categories d))) (d_profiles d) \<and>
      sum_list (map (\<lambda>p. length (p_macs p)) (d_profiles d)) \<le> 2048 \<and>
      (case d_defaultProfile d of
         None \<Rightarrow> d_profiles d = [] | Some i \<Rightarrow> i \<in> p_id ` set (d_profiles d)) \<and>
      list_all pause_ok (d_pauses d) \<and> length (d_pauses d) \<le> 512 \<and>
      list_all pause_ok (d_extensions d) \<and> length (d_extensions d) \<le> 512 \<and>
      patterns_ok 1000 (d_alwaysAllow d))"

lemma drop_prefix_2: "drop 2 (''*.'' @ d) = d" "prefix ''*.'' (''*.'' @ d)"
  by (simp_all add: prefix_def)

lemma no_star: "list_all label_re (split_on CHR ''.'' d) \<Longrightarrow> \<not> prefix ''*.'' d"
proof
  assume l: "list_all label_re (split_on CHR ''.'' d)" and "prefix ''*.'' d"
  then have "CHR ''*'' \<in> set d" by (auto simp: prefix_def)
  from clean_chars [OF l this] show False
    by (auto simp: label_mid_def label_edge_def is_lower_def is_digit_def)
qed

lemma cleanPattern_clean: "cleanPattern pf p = Some q \<Longrightarrow> clean_pattern q"
proof -
  assume "cleanPattern pf p = Some q"
  then obtain t d where d: "cleanDomain (pf_toASCII pf) False t = Some d" and q: "q = ''*.'' @ d \<or> q = d"
    by (auto simp: cleanPattern_def Let_def split: option.splits if_splits)
  note c = cleanDomain_SomeD [OF d]
  from q show ?thesis
    using c no_star [OF c(2)] by (auto simp: clean_pattern_def Let_def)
qed

lemma patterns_clean: "patterns_ok mx (patterns pf v mx)"
proof -
  have "clean_pattern y" if "y \<in> set (patterns pf v mx)" for y
    using collect_memD [OF that [unfolded patterns_def]] cleanPattern_clean
    by (auto simp: bind_eq_Some_conv)
  then have "list_all clean_pattern (patterns pf v mx)" by (simp add: list_all_iff)
  then show ?thesis by (simp add: patterns_ok_def patterns_def)
qed

lemma macs_ok: "macs_within mx (macs v mx)"
proof -
  have "canonical_mac y" if "y \<in> set (macs v mx)" for y
    using collect_memD [OF that [unfolded macs_def]] normalizeMac_canonical
    by (auto simp: bind_eq_Some_conv)
  then have "list_all canonical_mac (macs v mx)" by (simp add: list_all_iff)
  then show ?thesis by (simp add: macs_within_def macs_def)
qed

lemma length_map_filter: "length (List.map_filter f xs) \<le> length xs"
  by (induction xs) (auto simp: List.map_filter_simps split: option.splits)

lemma length_arr: "length (arr v n) \<le> n"
  by (cases "(v, n)" rule: arr.cases) auto

lemma known_strings_length: "length (known_strings P (arr v n)) \<le> n"
  unfolding known_strings_def by (rule le_trans [OF length_uniq_le le_trans [OF length_map_filter length_arr]])

lemma hex64_ok: "sha_ok (hex64 v)"
proof -
  have low: "is_hex_lower (lower_char c)" if "is_hex_lower c \<or> c \<in> set ''ABCDEF''" for c
  proof (cases "is_hex_lower c")
    case True
    then have "lower_char c = c"
      by (intro lower_char_noop) (auto simp: is_hex_lower_def is_digit_def is_upper_def Let_def)
    with True show ?thesis by simp
  qed (use that in \<open>auto simp: is_hex_lower_def is_digit_def lower_char_def lower_code_def\<close>)
  have lower: "list_all is_hex_lower (toLower s)" "length (toLower s) = 64"
    if "re_class (\<lambda>c. is_hex_lower c \<or> c \<in> set ''ABCDEF'') 64 64 s" for s
  proof -
    have "length s = 64" using that unfolding re_class_def by linarith
    moreover have "\<forall>c \<in> set s. is_hex_lower c \<or> c \<in> set ''ABCDEF''"
      using that unfolding re_class_def list_all_iff by (elim conjE)
    ultimately show "list_all is_hex_lower (toLower s)" "length (toLower s) = 64"
      using low unfolding toLower_def list_all_iff list.set_map by (simp_all only: ball_simps length_map) blast
  qed
  show ?thesis
  proof (cases "hex64 v")
    case (Some h)
    then obtain s where "re_class (\<lambda>c. is_hex_lower c \<or> c \<in> set ''ABCDEF'') 64 64 s" "h = toLower s"
      by (auto simp: hex64_def Let_def bind_eq_Some_conv simp del: set_simps split: if_splits)
    with lower show ?thesis by (simp add: Some sha_ok_def)
  qed (simp add: sha_ok_def)
qed

lemma normalizeUpstream_ok: "upstream_ok (normalizeUpstream pf up)"
  by (auto simp: normalizeUpstream_def upstream_ok_def DNS_PROVIDERS_def Let_def split: json.splits)

lemma known_strings_ok: "distinct (known_strings P js)" "y \<in> set (known_strings P js) \<Longrightarrow> P y"
  by (auto simp: known_strings_def set_map_filter bind_eq_Some_conv split: if_splits)

lemma dec_value_2: "is_digit a \<Longrightarrow> is_digit b \<Longrightarrow> dec_value [a, b] = (of_char a - 48) * 10 + (of_char b - 48)"
  by (simp add: dec_value_def)

lemma time_re_bound: "time_re s = Some (h, m) \<Longrightarrow> h < 24 \<and> m < 60"
proof -
  assume a: "time_re s = Some (h, m)"
  then obtain p q r x y where s: "s = [p, q, r, x, y]"
    by (auto simp: time_re_def split: list.splits)
  with a have h: "h = dec_value [p, q]" and m: "m = dec_value [x, y]"
    and pq: "(p \<in> set ''01'' \<and> is_digit q) \<or> (p = CHR ''2'' \<and> q \<in> set ''0123'')"
    and xy: "x \<in> set ''012345''" "is_digit y"
    by (auto simp: time_re_def split: if_splits)
  have "(of_char q :: nat) \<le> 57" "(of_char y :: nat) \<le> 57"
    using pq xy by (auto simp: is_digit_def Let_def)
  with pq xy show ?thesis by (auto simp: h m dec_value_def)
qed

lemma minutes_bound:
  "minutes v False = Some n \<Longrightarrow> n < 1440" "minutes v True = Some n \<Longrightarrow> n \<le> 1440"
  by (auto simp: minutes_def bind_eq_Some_conv split: if_splits dest!: time_re_bound)

lemma schedule_days_ok:
  "sorted (schedule_days v)" "distinct (schedule_days v)"
  "x \<in> set (schedule_days v) \<Longrightarrow> 1 \<le> x \<and> x \<le> 7"
  by (auto simp: schedule_days_def set_map_filter bind_eq_Some_conv split: if_splits)

lemma normalizeSchedule_ok: "normalizeSchedule pf j cats = Some s \<Longrightarrow> schedule_ok cats s"
  using known_strings_ok(1) known_strings_ok(2) [of _ "\<lambda>c. c \<in> set cats"] known_strings_length schedule_days_ok(1,2) patterns_clean
  by (auto simp: normalizeSchedule_def schedule_ok_def Let_def minutes_bound
      split: if_splits option.splits prod.splits dest: schedule_days_ok(3))

lemma normalizePause_ok: "normalizePause pf j = Some p \<Longrightarrow> pause_ok p"
  using macs_ok by (auto simp: normalizePause_def pause_ok_def Let_def split: if_splits option.splits)

lemma normalizePauses_ok: "list_all pause_ok (normalizePauses pf v)" "length (normalizePauses pf v) \<le> 512"
proof -
  show "list_all pause_ok (normalizePauses pf v)"
    by (auto simp: normalizePauses_def list_all_iff set_map_filter intro: normalizePause_ok)
  show "length (normalizePauses pf v) \<le> 512"
    unfolding normalizePauses_def using length_map_filter length_arr le_trans by blast
qed

lemma profileOf_ok:
  assumes "PROFILE_ID_RE i"
  shows "profile_ok ls cats (profileOf pf ls cats b i p)"
    "length (p_macs (profileOf pf ls cats b i p)) \<le> b" "p_id (profileOf pf ls cats b i p) = i"
proof -
  have n: "length i \<le> 64" using assms by (simp add: PROFILE_ID_RE_def re_class_def)
  have l: "set (known_strings (list_known ls) js) \<subseteq> fst ` set ls \<union> set object_prototype" for js
    using known_strings_ok(2) [of _ "list_known ls" js] by (auto simp: list_known_def)
  have s: "list_all (schedule_ok cats) (List.map_filter (\<lambda>s. normalizeSchedule pf s cats) js)" for js
    by (auto simp: list_all_iff set_map_filter intro: normalizeSchedule_ok)
  have sl: "length (List.map_filter (\<lambda>s. normalizeSchedule pf s cats) (arr v 16)) \<le> 16" for v
    using length_map_filter length_arr le_trans by blast
  have m: "macs_within 256 (macs v (min 256 b))" "length (macs v (min 256 b)) \<le> b" for v
    using macs_ok [of "min 256 b" v] by (auto simp: macs_within_def)
  show "profile_ok ls cats (profileOf pf ls cats b i p)"
    unfolding profile_ok_def profileOf_def
    using assms n l s sl m known_strings_ok(1) known_strings_length patterns_clean
    by (auto split: json.splits)
  show "length (p_macs (profileOf pf ls cats b i p)) \<le> b" "p_id (profileOf pf ls cats b i p) = i"
    using m by (simp_all add: profileOf_def)
qed


lemma length_mset_at: "length (mset_at k v m) \<le> length m + 1"
  by (induction k v m rule: mset_at.induct) auto

lemma list_all_keys_mset_at: "list_all P (mkeys (mset_at k v m)) \<longleftrightarrow> P k \<and> list_all P (mkeys m)"
  if "P k \<or> k \<notin> fst ` set m" for P
  using that by (induction k v m rule: mset_at.induct) auto

lemma lists_loop_ok:
  "wf_map acc \<Longrightarrow> length acc \<le> 32 \<Longrightarrow> list_all LIST_ID_RE (mkeys acc) \<Longrightarrow>
   list_all (\<lambda>kl. sha_ok (ls_sha256 (snd kl))) acc \<Longrightarrow>
   list_all (\<lambda>kl. sha_ok (ls_sha256 (snd kl))) (lists_loop pf es acc) \<and>
   wf_map (lists_loop pf es acc) \<and> length (lists_loop pf es acc) \<le> 32 \<and>
   list_all LIST_ID_RE (mkeys (lists_loop pf es acc))"
proof (induction pf es acc rule: lists_loop.induct)
  case (2 pf i l es acc)
  show ?case
  proof (cases "32 \<le> length acc \<or> \<not> LIST_ID_RE i \<or> \<not> isObj l")
    case True
    with 2 show ?thesis by auto
  next
    case False
    have "length (mset_at i v acc) \<le> 32" "list_all LIST_ID_RE (mkeys (mset_at i v acc))" for v
      using False length_mset_at [of i v acc] list_all_keys_mset_at [of LIST_ID_RE i acc v] "2.prems" by auto
    moreover have "list_all (\<lambda>kl. sha_ok (ls_sha256 (snd kl))) (mset_at i v acc)" if "sha_ok (ls_sha256 v)" for v
      using that "2.prems"(4) by (intro list_all_mset_at) simp_all
    ultimately show ?thesis using 2 False hex64_ok by (auto split: option.splits)
  qed
qed auto

lemma categories_loop_ok:
  "wf_map acc \<Longrightarrow> length acc + length es \<le> n \<Longrightarrow> list_all KEY_RE (mkeys acc) \<Longrightarrow>
   list_all (\<lambda>kc. patterns_ok 20000 (snd kc)) acc \<Longrightarrow>
   wf_map (categories_loop pf es acc) \<and> length (categories_loop pf es acc) \<le> n \<and>
   list_all KEY_RE (mkeys (categories_loop pf es acc)) \<and>
   list_all (\<lambda>kc. patterns_ok 20000 (snd kc)) (categories_loop pf es acc)"
proof (induction pf es acc rule: categories_loop.induct)
  case (2 pf k v es acc)
  have v: "list_all (\<lambda>kc. patterns_ok 20000 (snd kc)) (mset_at k w m)"
    if "patterns_ok 20000 w" "list_all (\<lambda>kc. patterns_ok 20000 (snd kc)) m" for w m
    using that by (intro list_all_mset_at) simp_all
  have l: "length (mset_at k w acc) \<le> length acc + 1" for w by (rule length_mset_at)
  show ?case
  proof (cases "KEY_RE k")
    case True
    let ?acc = "mset_at k (patterns pf v 20000) acc"
    have "wf_map ?acc" "length ?acc + length es \<le> n" "list_all KEY_RE (mkeys ?acc)"
      "list_all (\<lambda>kc. patterns_ok 20000 (snd kc)) ?acc"
      using True "2.prems" v [OF patterns_clean] l [of "patterns pf v 20000"]
        list_all_keys_mset_at [of KEY_RE k acc "patterns pf v 20000"] by auto
    with 2 True show ?thesis by simp
  next
    case False
    with 2 show ?thesis by auto
  qed
qed auto

definition mac_count :: "profile list \<Rightarrow> nat" where
  "mac_count ps = sum_list (map (\<lambda>p. length (p_macs p)) ps)"

lemma profiles_loop_ok:
  "list_all (profile_ok ls cats) acc \<Longrightarrow> distinct (map p_id acc) \<Longrightarrow> mac_count acc + b \<le> mx \<Longrightarrow>
   length acc + length js \<le> n \<Longrightarrow>
   (let ps = profiles_loop pf ls cats js b acc
    in list_all (profile_ok ls cats) ps \<and> distinct (map p_id ps) \<and> mac_count ps \<le> mx \<and> length ps \<le> n)"
proof (induction pf ls cats js b acc rule: profiles_loop.induct)
  case (1 pf ls cats b acc)
  then show ?case by simp
next
  case (2 pf ls cats j js b acc)
  let ?i = "if isObj j then strOf (idString pf (field (members j) ''id'')) else None"
  show ?case
  proof (cases ?i)
    case None
    with 2 show ?thesis by (simp only: profiles_loop.simps option.case) simp
  next
    case (Some i)
    show ?thesis
    proof (cases "\<not> PROFILE_ID_RE i \<or> i \<in> p_id ` set acc")
      case True
      with 2 Some show ?thesis by (simp only: profiles_loop.simps option.case if_True) simp
    next
      case False
      let ?p = "profileOf pf ls cats b i (members j)"
      have p: "profile_ok ls cats ?p" "length (p_macs ?p) \<le> b" "p_id ?p = i"
        using profileOf_ok [of i] False by auto
      have "mac_count (acc @ [?p]) + (b - length (p_macs ?p)) \<le> mx"
        using "2.prems"(3) p(2) by (simp add: mac_count_def)
      moreover have "distinct (map p_id (acc @ [?p]))" using "2.prems"(2) p(3) False by auto
      ultimately show ?thesis
        using "2.IH"(3) [OF Some False refl] "2.prems" p(1) Some False
        by (simp only: profiles_loop.simps option.case if_False Let_def) simp
    qed
  qed
qed

lemma defaultId_ok:
  "case defaultId pf v ps of None \<Rightarrow> ps = [] | Some i \<Rightarrow> i \<in> p_id ` set ps"
  by (cases ps) (auto simp: defaultId_def Let_def split: option.splits json.splits)

text \<open>
  C9. Whatever JSON the server sends as \<open>features.dns\<close>, the checked configuration is
  well-formed: every limit of the source holds (32 lists, 16 categories of 20000 domains, 1000
  names always allowed, 32 profiles with 32 lists, 16 schedules, 2000 patterns in each of their
  pattern lists and 256 addresses each, 2048 addresses in total, 512 pauses and extensions of
  256 addresses, names of 64 characters), nothing occurs twice, profile ids are unique, MAC
  addresses and checksums canonical, patterns clean, schedules within the day and over known
  categories, the upstream is a known provider (a custom one has an address), and the default
  profile exists whenever there is a profile.
\<close>

theorem normalizeDns_ok: "dns_config_ok (normalizeDns pf raw)"
proof -
  let ?d = "members raw"
  define ls where "ls = lists_loop pf (take 64 (members (field ?d ''lists''))) []"
  define cs where "cs = categories_loop pf (take 16 (members (field ?d ''categories''))) []"
  define ps where "ps = profiles_loop pf ls (mkeys cs) (arr (field ?d ''profiles'') 32) 2048 []"
  have l: "wf_map ls" "length ls \<le> 32" "list_all LIST_ID_RE (mkeys ls)"
    "list_all (\<lambda>kl. sha_ok (ls_sha256 (snd kl))) ls"
    using lists_loop_ok [of "[]"] by (auto simp: ls_def)
  have c: "wf_map cs" "length cs \<le> 16" "list_all KEY_RE (mkeys cs)"
    "list_all (\<lambda>kc. patterns_ok 20000 (snd kc)) cs"
    using categories_loop_ok [of "[]" "take 16 (members (field ?d ''categories''))" 16 pf]
    by (auto simp: cs_def)
  have p: "list_all (profile_ok ls (mkeys cs)) ps" "distinct (map p_id ps)" "mac_count ps \<le> 2048"
    "length ps \<le> 32"
    using profiles_loop_ok [of ls "mkeys cs" "[]" 2048 2048 "arr (field ?d ''profiles'') 32" 32 pf]
      length_arr [of "field ?d ''profiles''" 32]
    by (auto simp: ps_def mac_count_def Let_def)
  show ?thesis
    unfolding dns_config_ok_def normalizeDns_def Let_def ls_def [symmetric] cs_def [symmetric] ps_def [symmetric]
    using l c p defaultId_ok normalizePauses_ok patterns_clean normalizeUpstream_ok
    by (simp only: dns_config.simps mac_count_def simp_thms)
qed

text \<open>
  The check "is this list known" of a profile is a computed property lookup, so it accepts the
  names that every object inherits: a profile may refer to lists such as \<open>constructor\<close> that
  no configuration defines.
\<close>

theorem inherited_names_pass_as_lists:
  "p_lists (hd (d_profiles (normalizeDns pf (JObj [(''profiles'',
      JArr [JObj [(''id'', JStr ''kids''), (''lists'', JArr [JStr ''ads'', JStr ''constructor''])]])]))))
   = [''constructor'']
   \<and> d_lists (normalizeDns pf (JObj [(''profiles'',
      JArr [JObj [(''id'', JStr ''kids''), (''lists'', JArr [JStr ''ads'', JStr ''constructor''])]])])) = []"
proof -
  have "PROFILE_ID_RE ''kids''" by code_simp
  moreover have "known_strings (list_known []) [JStr ''ads'', JStr ''constructor''] = [''constructor'']"
    by code_simp
  ultimately show ?thesis
    by (simp add: normalizeDns_def field_def Let_def idString_def profileOf_def)
qed

end
