(* ===== verification/Dns_Policy.thy ===== *)
theory Dns_Policy
  imports Dns_Config
begin

text \<open>
  The decision of the DNS filter for one name (\<open>src/src/dns/policy.js\<close>) and the names of
  the search engines' safe modes (\<open>src/src/dns/safeSearch.js\<close>). Local time is a parameter
  \<open>localTime\<close>, which gives \<open>getDay()\<close>, \<open>getHours()\<close> and \<open>getMinutes()\<close> of an instant in
  milliseconds.
\<close>

section \<open>Safe search\<close>

definition is_two_letters :: "string \<Rightarrow> bool" where
  "is_two_letters = re_class is_lower 2 2"

text \<open>\<open>GOOGLE_RE\<close>: \<open>/^(www\.)?google\.((com?\.)?[a-z]{2}|com)$/\<close>.\<close>

definition GOOGLE_RE :: "string \<Rightarrow> bool" where
  "GOOGLE_RE name =
     (let n = (if prefix ''www.'' name then drop 4 name else name)
      in prefix ''google.'' n \<and>
         (let r = drop 7 n
          in is_two_letters r \<or> r = ''com'' \<or>
             (prefix ''co.'' r \<and> is_two_letters (drop 3 r)) \<or>
             (prefix ''com.'' r \<and> is_two_letters (drop 4 r))))"

definition GOOGLE_NOT :: "string list" where
  "GOOGLE_NOT = [''google.dev'', ''google.app'', ''google.org'', ''google.net'',
     ''www.google.dev'', ''www.google.app'', ''www.google.org'', ''www.google.net'']"

definition FIXED :: "(string \<times> string) list" where
  "FIXED =
     [(''www.youtube.com'', ''restrict.youtube.com''),
      (''youtube.com'', ''restrict.youtube.com''),
      (''m.youtube.com'', ''restrict.youtube.com''),
      (''youtubei.googleapis.com'', ''restrict.youtube.com''),
      (''youtube.googleapis.com'', ''restrict.youtube.com''),
      (''www.youtube-nocookie.com'', ''restrict.youtube.com''),
      (''www.bing.com'', ''strict.bing.com''),
      (''bing.com'', ''strict.bing.com''),
      (''duckduckgo.com'', ''safe.duckduckgo.com''),
      (''www.duckduckgo.com'', ''safe.duckduckgo.com''),
      (''start.duckduckgo.com'', ''safe.duckduckgo.com'')]"

definition safeSearchTarget :: "string \<Rightarrow> string option" where
  "safeSearchTarget name =
     (case map_of FIXED name of
        Some t \<Rightarrow> Some t
      | None \<Rightarrow> if GOOGLE_RE name \<and> name \<notin> set GOOGLE_NOT then Some ''forcesafesearch.google.com'' else None)"

section \<open>Constants\<close>

definition CANARY :: string where
  "CANARY = ''use-application-dns.net''"

definition LOCAL_SUFFIXES :: "string list" where
  "LOCAL_SUFFIXES = [''local'', ''lan'', ''home'', ''home.arpa'', ''internal'', ''localdomain'',
     ''localhost'', ''fritz.box'', ''speedport.ip'', ''box.lan'']"

definition PRIVATE_REVERSE :: "string list" where
  "PRIVATE_REVERSE =
     [''10.in-addr.arpa'', ''168.192.in-addr.arpa'', ''254.169.in-addr.arpa''] @
     map (\<lambda>i. dec_string (16 + i) @ ''.172.in-addr.arpa'') [0..<16] @
     [''d.f.ip6.arpa'', ''c.f.ip6.arpa'', ''8.e.f.ip6.arpa'', ''9.e.f.ip6.arpa'', ''a.e.f.ip6.arpa'',
      ''b.e.f.ip6.arpa'']"

section \<open>The compiled policy\<close>

type_synonym local_time = "nat \<times> nat \<times> nat"

definition scheduleActive :: "schedule \<Rightarrow> local_time \<Rightarrow> bool" where
  "scheduleActive s date =
     (case date of (wd, hours, mins) \<Rightarrow>
        let iso = (if wd = 0 then 7 else int wd);
            prev = (if iso = 1 then 7 else iso - 1);
            m = hours * 60 + mins;
            days = set (sc_days s)
        in if sc_from s = sc_to s then iso \<in> days
           else if sc_from s < sc_to s then iso \<in> days \<and> sc_from s \<le> m \<and> m < sc_to s
           else (iso \<in> days \<and> sc_from s \<le> m) \<or> (prev \<in> days \<and> m < sc_to s))"

definition until_add :: "rat \<Rightarrow> (string, rat) jsmap \<Rightarrow> string \<Rightarrow> (string, rat) jsmap" where
  "until_add until m mac =
     mset_at mac (max (case map_of m mac of None \<Rightarrow> 0 | Some u \<Rightarrow> u) until) m"

definition untilMap :: "pause list \<Rightarrow> (string, rat) jsmap" where
  "untilMap entries = foldl (\<lambda>m e. foldl (until_add (pz_until e)) m (pz_macs e)) [] entries"

record compiled_schedule =
  cs_schedule :: schedule
  cs_allowSet :: pattern_set

record compiled_profile =
  cp_profile :: profile
  cp_allowSet :: pattern_set
  cp_denySet :: pattern_set
  cp_schedules :: "compiled_schedule list"

record policy =
  pol_lists :: "(string, compact_list) jsmap"
  pol_alwaysAllow :: pattern_set
  pol_local :: pattern_set
  pol_categories :: "(string, pattern_set) jsmap"
  pol_profiles :: "(string, compiled_profile) jsmap"
  pol_byMac :: "(string, compiled_profile) jsmap"
  pol_default :: "compiled_profile option"
  pol_pauses :: "(string, rat) jsmap"
  pol_extensions :: "(string, rat) jsmap"

definition compileProfile :: "(string \<Rightarrow> string) \<Rightarrow> profile \<Rightarrow> compiled_profile" where
  "compileProfile f p =
     \<lparr>cp_profile = p, cp_allowSet = newPatternSet f (p_allow p), cp_denySet = newPatternSet f (p_deny p),
      cp_schedules = map (\<lambda>s. \<lparr>cs_schedule = s, cs_allowSet = newPatternSet f (sc_allowAlways s)\<rparr>)
        (p_schedules p)\<rparr>"

definition add_mac :: "compiled_profile \<Rightarrow> (string, compiled_profile) jsmap \<Rightarrow> string
    \<Rightarrow> (string, compiled_profile) jsmap" where
  "add_mac prof m mac = (if mac \<in> fst ` set m then m else mset_at mac prof m)"

fun profiles_step :: "(string \<Rightarrow> string)
    \<Rightarrow> (string, compiled_profile) jsmap \<times> (string, compiled_profile) jsmap \<Rightarrow> profile
    \<Rightarrow> (string, compiled_profile) jsmap \<times> (string, compiled_profile) jsmap" where
  "profiles_step f (profs, byMac) p =
     (let prof = compileProfile f p
      in (mset_at (p_id p) prof profs, foldl (add_mac prof) byMac (p_macs p)))"

definition strip_dot :: "string \<Rightarrow> string" where
  "strip_dot s = (case s of [] \<Rightarrow> [] | c # cs \<Rightarrow> if c = CHR ''.'' then cs else s)"

definition localSet :: "(string \<Rightarrow> string) \<Rightarrow> string list \<Rightarrow> pattern_set" where
  "localSet f localSuffixes =
     (let base = newPatternSet f
                   (map strip_dot (filter (\<lambda>s. s \<noteq> []) (LOCAL_SUFFIXES @ PRIVATE_REVERSE @ localSuffixes)))
      in foldl (\<lambda>ps s. if s \<noteq> [] \<and> CHR ''.'' \<notin> set s then ps\<lparr>ps_incl := set_add (toLower s) (ps_incl ps)\<rparr> else ps)
           base (LOCAL_SUFFIXES @ localSuffixes))"

definition newPolicy ::
  "(string \<Rightarrow> string) \<Rightarrow> dns_config \<Rightarrow> (string, compact_list) jsmap \<Rightarrow> string list \<Rightarrow> string list \<Rightarrow> policy" where
  "newPolicy f cfg ls extraAllow localSuffixes =
     (let (profs, byMac) = foldl (profiles_step f) ([], []) (d_profiles cfg)
      in \<lparr>pol_lists = ls,
          pol_alwaysAllow = newPatternSet f (d_alwaysAllow cfg @ extraAllow),
          pol_local = localSet f localSuffixes,
          pol_categories = map (\<lambda>(k, v). (k, newPatternSet f v)) (d_categories cfg),
          pol_profiles = profs, pol_byMac = byMac,
          pol_default = d_defaultProfile cfg \<bind> map_of profs,
          pol_pauses = untilMap (d_pauses cfg), pol_extensions = untilMap (d_extensions cfg)\<rparr>)"

section \<open>The decision\<close>

definition profileFor :: "policy \<Rightarrow> string option \<Rightarrow> compiled_profile option" where
  "profileFor p mac =
     (case mac \<bind> map_of (pol_byMac p) of Some prof \<Rightarrow> Some prof | None \<Rightarrow> pol_default p)"

definition isLocal :: "policy \<Rightarrow> string \<Rightarrow> bool" where
  "isLocal p name = (name = [] \<or> CHR ''.'' \<notin> set name \<or> ps_matches (pol_local p) name)"

definition active_until :: "(string, rat) jsmap \<Rightarrow> string option \<Rightarrow> rat \<Rightarrow> rat option" where
  "active_until m mac now =
     (case mac \<bind> map_of m of None \<Rightarrow> None | Some u \<Rightarrow> if u \<noteq> 0 \<and> now < u then Some u else None)"

definition pausedUntil :: "policy \<Rightarrow> string option \<Rightarrow> rat \<Rightarrow> rat option" where
  "pausedUntil p = active_until (pol_pauses p)"

definition extendedUntil :: "policy \<Rightarrow> string option \<Rightarrow> rat \<Rightarrow> rat option" where
  "extendedUntil p = active_until (pol_extensions p)"

datatype reason = Canary | Local_name | Always_allow | Profile_allow | Paused | No_profile
  | Profile_deny | Schedule | Schedule_category | On_list | Default_allow

record decision =
  dc_profileId :: "string option"
  dc_block :: bool
  dc_reason :: reason
  dc_list :: "string option"
  dc_category :: "string option"
  dc_safeSearch :: "string option"
  dc_local :: bool
  dc_nxdomain :: bool

definition decided :: "string option \<Rightarrow> bool \<Rightarrow> reason \<Rightarrow> decision" where
  "decided profileId block why =
     \<lparr>dc_profileId = profileId, dc_block = block, dc_reason = why, dc_list = None, dc_category = None,
      dc_safeSearch = None, dc_local = False, dc_nxdomain = False\<rparr>"

text \<open>The loop over the schedules: the reason and category of the first one that blocks.\<close>

fun schedule_hit :: "policy \<Rightarrow> string \<Rightarrow> local_time \<Rightarrow> compiled_schedule list
    \<Rightarrow> (reason \<times> string option) option" where
  "schedule_hit p name date [] = None"
| "schedule_hit p name date (s # ss) =
     (if \<not> scheduleActive (cs_schedule s) date \<or> ps_matches (cs_allowSet s) name
      then schedule_hit p name date ss
      else if sc_blockAll (cs_schedule s) then Some (Schedule, None)
      else case List.find (\<lambda>c. case map_of (pol_categories p) c of None \<Rightarrow> False | Some ps \<Rightarrow> ps_matches ps name)
                  (sc_categories (cs_schedule s)) of
             Some c \<Rightarrow> Some (Schedule_category, Some c)
           | None \<Rightarrow> schedule_hit p name date ss)"

definition list_hit :: "policy \<Rightarrow> string \<Rightarrow> string list \<Rightarrow> string option" where
  "list_hit p name ids =
     List.find (\<lambda>i. case map_of (pol_lists p) i of
                      None \<Rightarrow> False | Some l \<Rightarrow> matchHashes l (map hash53 (suffixes name))) ids"

definition decide :: "(rat \<Rightarrow> local_time) \<Rightarrow> policy \<Rightarrow> string \<Rightarrow> string option \<Rightarrow> rat \<Rightarrow> decision" where
  "decide localTime p name mac now =
     (let profile = profileFor p mac;
          pid = map_option (\<lambda>c. p_id (cp_profile c)) profile;
          safe = (case profile of
                    None \<Rightarrow> None
                  | Some c \<Rightarrow> if p_safeSearch (cp_profile c) then safeSearchTarget name else None);
          allow = (\<lambda>why. (decided pid False why)\<lparr>dc_safeSearch := safe\<rparr>)
      in if name = CANARY then (decided pid True Canary)\<lparr>dc_nxdomain := True\<rparr>
         else if isLocal p name then (decided pid False Local_name)\<lparr>dc_local := True\<rparr>
         else if ps_matches (pol_alwaysAllow p) name then decided pid False Always_allow
         else if (case profile of None \<Rightarrow> False | Some c \<Rightarrow> ps_matches (cp_allowSet c) name) then allow Profile_allow
         else if pausedUntil p mac now \<noteq> None then decided pid True Paused
         else case profile of
                None \<Rightarrow> decided pid False No_profile
              | Some c \<Rightarrow>
                  if ps_matches (cp_denySet c) name then decided pid True Profile_deny
                  else case (if extendedUntil p mac now = None
                             then schedule_hit p name (localTime now) (cp_schedules c) else None) of
                         Some (why, cat) \<Rightarrow> (decided pid True why)\<lparr>dc_category := cat\<rparr>
                       | None \<Rightarrow>
                           (case list_hit p name (p_lists (cp_profile c)) of
                              Some i \<Rightarrow> (decided pid True On_list)\<lparr>dc_list := Some i\<rparr>
                            | None \<Rightarrow> allow Default_allow))"

definition activeSchedules :: "(rat \<Rightarrow> local_time) \<Rightarrow> policy \<Rightarrow> string \<Rightarrow> rat \<Rightarrow> schedule list" where
  "activeSchedules localTime p profileId now =
     (case map_of (pol_profiles p) profileId of
        None \<Rightarrow> []
      | Some c \<Rightarrow> filter (\<lambda>s. scheduleActive s (localTime now)) (map cs_schedule (cp_schedules c)))"


section \<open>Pauses and profiles\<close>

lemma map_of_until_macs:
  "map_of (foldl (until_add u) m xs) mac =
     (if mac \<in> set xs then Some (max (case map_of m mac of None \<Rightarrow> 0 | Some v \<Rightarrow> v) u) else map_of m mac)"
  by (induction xs arbitrary: m) (auto simp: until_add_def split: option.splits)

lemma untilMap_active:
  assumes "0 \<le> now"
  shows "(\<exists>u. map_of (untilMap es) mac = Some u \<and> u \<noteq> 0 \<and> now < u) \<longleftrightarrow>
    (\<exists>e \<in> set es. mac \<in> set (pz_macs e) \<and> now < pz_until e)"
proof -
  have "(\<exists>u. map_of (foldl (\<lambda>m e. foldl (until_add (pz_until e)) m (pz_macs e)) m es) mac = Some u \<and> now < u) \<longleftrightarrow>
    (\<exists>u. map_of m mac = Some u \<and> now < u) \<or> (\<exists>e \<in> set es. mac \<in> set (pz_macs e) \<and> now < pz_until e)" for m
  proof (induction es arbitrary: m)
    case (Cons e es)
    have "(\<exists>u. map_of (foldl (until_add (pz_until e)) m (pz_macs e)) mac = Some u \<and> now < u) \<longleftrightarrow>
        (\<exists>u. map_of m mac = Some u \<and> now < u) \<or> (mac \<in> set (pz_macs e) \<and> now < pz_until e)"
      using assms by (auto simp: map_of_until_macs less_max_iff_disj split: option.splits)
    with Cons show ?case by auto
  qed simp
  from this [of "[]"] assms show ?thesis by (force simp: untilMap_def)
qed

lemma active_until_iff:
  assumes "0 \<le> now"
  shows "active_until (untilMap es) mac now \<noteq> None \<longleftrightarrow>
    (\<exists>m. mac = Some m \<and> (\<exists>e \<in> set es. m \<in> set (pz_macs e) \<and> now < pz_until e))"
proof (cases mac)
  case (Some m)
  have "active_until (untilMap es) mac now \<noteq> None \<longleftrightarrow>
      (\<exists>u. map_of (untilMap es) m = Some u \<and> u \<noteq> 0 \<and> now < u)"
    by (auto simp: active_until_def Some split: option.splits)
  with untilMap_active [OF assms, of es m] Some show ?thesis by simp
qed (simp add: active_until_def)

text \<open>The first profile that lists the address wins.\<close>

lemma add_mac_foldl:
  "map_of (foldl (add_mac prof) m xs) mac =
     (case map_of m mac of Some v \<Rightarrow> Some v | None \<Rightarrow> if mac \<in> set xs then Some prof else None)"
proof (induction xs arbitrary: m)
  case (Cons x xs)
  have "map_of (add_mac prof m x) mac =
      (case map_of m mac of Some v \<Rightarrow> Some v | None \<Rightarrow> if mac = x then Some prof else None)"
  proof (cases "x \<in> fst ` set m")
    case True
    then obtain v where "map_of m x = Some v" by (metis map_of_eq_None_iff not_None_eq)
    with True show ?thesis by (auto simp: add_mac_def split: option.splits)
  next
    case False
    then have "map_of m x = None" by (simp add: map_of_eq_None_iff)
    with False show ?thesis by (auto simp: add_mac_def split: option.splits)
  qed
  with Cons show ?case by (auto split: option.splits)
qed (simp split: option.splits)

lemma byMac_foldl:
  "map_of (snd (foldl (profiles_step f) (profs, m) ps)) mac =
     (case map_of m mac of Some v \<Rightarrow> Some v
      | None \<Rightarrow> map_option (compileProfile f) (List.find (\<lambda>p. mac \<in> set (p_macs p)) ps))"
  by (induction ps arbitrary: profs m) (auto simp: add_mac_foldl Let_def split: option.splits)

lemma profiles_foldl:
  "distinct (map p_id ps) \<Longrightarrow> map_of (fst (foldl (profiles_step f) (profs, m) ps)) i =
     (case List.find (\<lambda>p. p_id p = i) ps of Some p \<Rightarrow> Some (compileProfile f p) | None \<Rightarrow> map_of profs i)"
proof (induction ps arbitrary: profs m)
  case (Cons p ps)
  have "List.find (\<lambda>q. p_id q = p_id p) ps = None"
    using Cons.prems by (simp add: find_None_iff) (metis image_eqI)
  with Cons show ?case by (auto simp: Let_def split: option.splits)
qed simp

lemma newPolicy_simps:
  "pol_lists (newPolicy f cfg ls ea loc) = ls"
  "pol_alwaysAllow (newPolicy f cfg ls ea loc) = newPatternSet f (d_alwaysAllow cfg @ ea)"
  "pol_local (newPolicy f cfg ls ea loc) = localSet f loc"
  "pol_categories (newPolicy f cfg ls ea loc) = map (\<lambda>(k, v). (k, newPatternSet f v)) (d_categories cfg)"
  "pol_profiles (newPolicy f cfg ls ea loc) = fst (foldl (profiles_step f) ([], []) (d_profiles cfg))"
  "pol_byMac (newPolicy f cfg ls ea loc) = snd (foldl (profiles_step f) ([], []) (d_profiles cfg))"
  "pol_default (newPolicy f cfg ls ea loc) =
     d_defaultProfile cfg \<bind> map_of (fst (foldl (profiles_step f) ([], []) (d_profiles cfg)))"
  "pol_pauses (newPolicy f cfg ls ea loc) = untilMap (d_pauses cfg)"
  "pol_extensions (newPolicy f cfg ls ea loc) = untilMap (d_extensions cfg)"
  by (simp_all add: newPolicy_def split: prod.splits)

text \<open>The specification of the profile: first match by address, else the default.\<close>

definition profile_of :: "dns_config \<Rightarrow> string option \<Rightarrow> profile option" where
  "profile_of cfg mac =
     (case mac \<bind> (\<lambda>m. List.find (\<lambda>p. m \<in> set (p_macs p)) (d_profiles cfg)) of
        Some p \<Rightarrow> Some p
      | None \<Rightarrow> d_defaultProfile cfg \<bind> (\<lambda>i. List.find (\<lambda>p. p_id p = i) (d_profiles cfg)))"

lemma profileFor_spec:
  assumes "distinct (map p_id (d_profiles cfg))"
  shows "profileFor (newPolicy f cfg ls ea loc) mac = map_option (compileProfile f) (profile_of cfg mac)"
  using byMac_foldl [of f "[]" "[]" "d_profiles cfg"] profiles_foldl [OF assms, of f "[]" "[]"]
  by (cases mac; cases "d_defaultProfile cfg")
    (auto simp: profileFor_def profile_of_def newPolicy_simps split: option.splits)

section \<open>Schedules\<close>

text \<open>
  A schedule as a weekly interval: from its start on each of its days for its length; equal
  times mean the whole day, and an end before the start runs past midnight. The clock is the
  minute of the week, Monday 00:00 being 0.
\<close>

definition week_minute :: "local_time \<Rightarrow> int" where
  "week_minute date =
     (case date of (wd, h, mi) \<Rightarrow> (if wd = 0 then 6 else int wd - 1) * 1440 + int h * 60 + int mi)"

definition sched_start :: "schedule \<Rightarrow> int" where
  "sched_start s = (if sc_from s = sc_to s then 0 else int (sc_from s))"

definition sched_len :: "schedule \<Rightarrow> int" where
  "sched_len s =
     (if sc_from s = sc_to s then 1440
      else if sc_from s < sc_to s then int (sc_to s) - int (sc_from s)
      else 1440 - int (sc_from s) + int (sc_to s))"

definition valid_time :: "local_time \<Rightarrow> bool" where
  "valid_time date = (case date of (wd, h, mi) \<Rightarrow> wd < 7 \<and> h < 24 \<and> mi < 60)"

lemma day_offset:
  fixes i d m st len :: int
  assumes "1 \<le> i" "i \<le> 7" "1 \<le> d" "d \<le> 7" "0 \<le> m" "m < 1440" "0 \<le> st" "st < 1440" "st + len \<le> 2880" "0 \<le> len" "len \<le> 1440"
  shows "((i - 1) * 1440 + m - ((d - 1) * 1440 + st)) mod 10080 < len \<longleftrightarrow>
    (i = d \<and> st \<le> m \<and> m < st + len) \<or> ((if i = 1 then 7 else i - 1) = d \<and> m + 1440 < st + len)"
proof -
  define x where "x = 1440 * i - 1440 * d + (m - st)"
  have "-10080 \<le> x" using assms unfolding x_def by linarith
  moreover have "x < 10080" using assms unfolding x_def by linarith
  ultimately have bounds: "-10080 \<le> x" "x < 10080" .
  have e: "(i - 1) * 1440 + m - ((d - 1) * 1440 + st) = x" by (simp add: x_def)
  have md: "x mod 10080 = (if x < 0 then x + 10080 else x)"
  proof (cases "x < 0")
    case True
    have "(x + 10080) mod 10080 = x + 10080"
      using True bounds by (intro mod_pos_pos_trivial) auto
    with True show ?thesis by simp
  qed (use bounds in \<open>simp add: mod_pos_pos_trivial\<close>)
  consider "i = d" | "i = d + 1" | "i = 1 \<and> d = 7" | "2 \<le> i - d" | "i - d \<le> -1" "-5 \<le> i - d"
    using assms(1-4) by linarith
  then show ?thesis
  proof cases
    case 1
    then show ?thesis using assms unfolding e md unfolding x_def by auto
  next
    case 2
    then show ?thesis using assms unfolding e md unfolding x_def by auto
  next
    case 3
    then show ?thesis using assms unfolding e md unfolding x_def by auto
  next
    case 4
    then have "x \<ge> 2880 + (m - st)" unfolding x_def by linarith
    then show ?thesis using assms 4 unfolding e md by auto
  next
    case 5
    then have "x \<ge> -7200 + (m - st)" unfolding x_def by linarith
    moreover have "x \<le> -1440 + (m - st)" using 5 unfolding x_def by linarith
    ultimately show ?thesis using assms 5 unfolding e md by auto
  qed
qed

lemma scheduleActive_weekly:
  assumes "valid_time date" "sc_from s < 1440" "sc_to s \<le> 1440" "set (sc_days s) \<subseteq> {1..7}"
  shows "scheduleActive s date \<longleftrightarrow>
    (\<exists>d \<in> set (sc_days s). (week_minute date - ((d - 1) * 1440 + sched_start s)) mod 10080 < sched_len s)"
proof -
  obtain wd h mi where date: "date = (wd, h, mi)" by (cases date)
  define i where "i = (if wd = 0 then 7 else int wd)"
  define m where "m = int h * 60 + int mi"
  have i: "1 \<le> i" "i \<le> 7" and m: "0 \<le> m" "m < 1440"
    using assms(1) by (auto simp: valid_time_def date i_def m_def)
  have w: "week_minute date = (i - 1) * 1440 + m"
    by (simp add: week_minute_def date i_def m_def)
  have st: "0 \<le> sched_start s" "sched_start s < 1440" "0 \<le> sched_len s" "sched_len s \<le> 1440"
    "sched_start s + sched_len s \<le> 2880"
    using assms(2,3) by (auto simp: sched_start_def sched_len_def)
  have "(week_minute date - ((d - 1) * 1440 + sched_start s)) mod 10080 < sched_len s \<longleftrightarrow>
      (i = d \<and> sched_start s \<le> m \<and> m < sched_start s + sched_len s) \<or>
      ((if i = 1 then 7 else i - 1) = d \<and> m + 1440 < sched_start s + sched_len s)" if "d \<in> set (sc_days s)" for d
    using day_offset [of i d m "sched_start s" "sched_len s"] i m st assms(4) that w by force
  then have "(\<exists>d \<in> set (sc_days s). (week_minute date - ((d - 1) * 1440 + sched_start s)) mod 10080 < sched_len s) \<longleftrightarrow>
      (i \<in> set (sc_days s) \<and> sched_start s \<le> m \<and> m < sched_start s + sched_len s) \<or>
      ((if i = 1 then 7 else i - 1) \<in> set (sc_days s) \<and> m + 1440 < sched_start s + sched_len s)"
    by blast
  moreover have "scheduleActive s date \<longleftrightarrow>
      (i \<in> set (sc_days s) \<and> sched_start s \<le> m \<and> m < sched_start s + sched_len s) \<or>
      ((if i = 1 then 7 else i - 1) \<in> set (sc_days s) \<and> m + 1440 < sched_start s + sched_len s)"
    using m assms(3) by (auto simp: scheduleActive_def date i_def [symmetric] Let_def sched_start_def sched_len_def m_def)
  ultimately show ?thesis by blast
qed


section \<open>The decision against its specification\<close>

text \<open>
  The documented rules, stated on the configuration: which names are blocked for a device at a
  time.
\<close>

definition paused_at :: "pause list \<Rightarrow> string option \<Rightarrow> rat \<Rightarrow> bool" where
  "paused_at ps mac now = (\<exists>m. mac = Some m \<and> (\<exists>e \<in> set ps. m \<in> set (pz_macs e) \<and> now < pz_until e))"

definition schedule_blocks ::
  "(string \<Rightarrow> string) \<Rightarrow> dns_config \<Rightarrow> local_time \<Rightarrow> string \<Rightarrow> schedule \<Rightarrow> bool" where
  "schedule_blocks f cfg date name s =
     (scheduleActive s date \<and> \<not> covers f (sc_allowAlways s) name \<and>
      (sc_blockAll s \<or>
       (\<exists>c \<in> set (sc_categories s). \<exists>v. map_of (d_categories cfg) c = Some v \<and> covers f v name)))"

definition should_block ::
  "(string \<Rightarrow> string) \<Rightarrow> dns_config \<Rightarrow> (string, compact_list) jsmap \<Rightarrow> string list \<Rightarrow> string list
   \<Rightarrow> (rat \<Rightarrow> local_time) \<Rightarrow> string \<Rightarrow> string option \<Rightarrow> rat \<Rightarrow> bool" where
  "should_block f cfg ls extraAllow localSuffixes localTime name mac now =
     (name = CANARY \<or>
      (name \<noteq> [] \<and> CHR ''.'' \<in> set name \<and> \<not> ps_matches (localSet f localSuffixes) name \<and>
       \<not> covers f (d_alwaysAllow cfg @ extraAllow) name \<and>
       (case profile_of cfg mac of
          None \<Rightarrow> paused_at (d_pauses cfg) mac now
        | Some p \<Rightarrow>
            \<not> covers f (p_allow p) name \<and>
            (paused_at (d_pauses cfg) mac now \<or> covers f (p_deny p) name \<or>
             (\<not> paused_at (d_extensions cfg) mac now \<and>
              (\<exists>s \<in> set (p_schedules p). schedule_blocks f cfg (localTime now) name s)) \<or>
             (\<exists>i \<in> set (p_lists p). \<exists>l. map_of ls i = Some l \<and> cl_matches l name)))))"

lemma schedule_hit_iff:
  assumes "pol_categories p = map (\<lambda>(k, v). (k, newPatternSet f v)) (d_categories cfg)"
  shows "schedule_hit p name date (map (\<lambda>s. \<lparr>cs_schedule = s, cs_allowSet = newPatternSet f (sc_allowAlways s)\<rparr>) ss) \<noteq> None
    \<longleftrightarrow> (\<exists>s \<in> set ss. schedule_blocks f cfg date name s)"
proof (induction ss)
  case (Cons s ss)
  have cat: "(case map_of (pol_categories p) c of None \<Rightarrow> False | Some ps \<Rightarrow> ps_matches ps name) \<longleftrightarrow>
      (\<exists>v. map_of (d_categories cfg) c = Some v \<and> covers f v name)" for c
    by (auto simp: assms map_of_map ps_matches_new split: option.splits)
  let ?find = "List.find (\<lambda>c. case map_of (pol_categories p) c of None \<Rightarrow> False | Some ps \<Rightarrow> ps_matches ps name)
      (sc_categories s)"
  have "?find \<noteq> None \<longleftrightarrow> (\<exists>c \<in> set (sc_categories s). \<exists>v. map_of (d_categories cfg) c = Some v \<and> covers f v name)"
    unfolding find_None_iff cat by blast
  with Cons show ?case
    by (cases ?find) (auto simp: schedule_blocks_def ps_matches_new)
qed simp

lemma list_hit_iff:
  "list_hit p name is \<noteq> None \<longleftrightarrow> (\<exists>i \<in> set is. \<exists>l. map_of (pol_lists p) i = Some l \<and> cl_matches l name)"
  unfolding list_hit_def find_None_iff cl_matches_def by (auto split: option.splits)

lemma decide_block:
  "dc_block (decide lt p name mac now) \<longleftrightarrow>
     name = CANARY \<or>
     (\<not> isLocal p name \<and> \<not> ps_matches (pol_alwaysAllow p) name \<and>
      (case profileFor p mac of
         None \<Rightarrow> pausedUntil p mac now \<noteq> None
       | Some c \<Rightarrow> \<not> ps_matches (cp_allowSet c) name \<and>
           (pausedUntil p mac now \<noteq> None \<or> ps_matches (cp_denySet c) name \<or>
            (extendedUntil p mac now = None \<and> schedule_hit p name (lt now) (cp_schedules c) \<noteq> None) \<or>
            list_hit p name (p_lists (cp_profile c)) \<noteq> None)))"
  by (auto simp: decide_def Let_def decided_def split: option.splits if_splits)

text \<open>
  C2. The filter blocks a name for a device exactly when the documented rules say so: the Firefox
  canary always; never a local name or one of the always-allowed names (the server itself); never
  a name the device's profile allows, even while paused; otherwise when the device is paused, the
  profile denies the name, an active schedule covers it (and no extension is running), or one of
  the profile's loaded lists matches. The profile is the first one listing the device's MAC, else
  the default.
\<close>

theorem decide_implements_rules:
  assumes "0 \<le> now" "distinct (map p_id (d_profiles cfg))"
  shows "dc_block (decide localTime (newPolicy f cfg ls extraAllow localSuffixes) name mac now) \<longleftrightarrow>
    should_block f cfg ls extraAllow localSuffixes localTime name mac now"
proof -
  let ?p = "newPolicy f cfg ls extraAllow localSuffixes"
  have a: "pausedUntil ?p mac now \<noteq> None \<longleftrightarrow> paused_at (d_pauses cfg) mac now"
    "extendedUntil ?p mac now = None \<longleftrightarrow> \<not> paused_at (d_extensions cfg) mac now"
    unfolding pausedUntil_def extendedUntil_def newPolicy_simps paused_at_def
    using active_until_iff [OF assms(1)] by blast+
  have "schedule_hit ?p name (localTime now) (cp_schedules (compileProfile f p)) \<noteq> None \<longleftrightarrow>
      (\<exists>s \<in> set (p_schedules p). schedule_blocks f cfg (localTime now) name s)" for p
    using schedule_hit_iff [of ?p f cfg] by (simp add: newPolicy_simps compileProfile_def)
  then show ?thesis
    unfolding decide_block should_block_def profileFor_spec [OF assms(2)] a isLocal_def list_hit_iff
    by (cases "profile_of cfg mac") (auto simp: newPolicy_simps compileProfile_def ps_matches_new)
qed

theorem decide_implements_rules_witness:
  "let p = \<lparr>p_id = ''kids'', p_name = ''kids'', p_lists = [], p_safeSearch = False, p_allow = [''school.org''],
            p_deny = [''games.com''], p_schedules = [], p_macs = [''m1'']\<rparr>;
       cfg = \<lparr>d_enabled = True, d_upstream = \<lparr>up_provider = ''quad9'', up_url = None, up_fallbackRouter = True\<rparr>,
              d_logQueries = False, d_alwaysAllow = [], d_lists = [], d_categories = [], d_profiles = [p],
              d_defaultProfile = None, d_pauses = [\<lparr>pz_macs = [''m1''], pz_until = 50\<rparr>], d_extensions = [],
              d_nxdomain = False\<rparr>
   in dc_block (decide (\<lambda>_. (1, 0, 0)) (newPolicy id cfg [] [] []) ''news.com'' (Some ''m1'') 20)"
proof -
  let ?p = "\<lparr>p_id = ''kids'', p_name = ''kids'', p_lists = [], p_safeSearch = False, p_allow = [''school.org''],
            p_deny = [''games.com''], p_schedules = [], p_macs = [''m1'']\<rparr>"
  let ?cfg = "\<lparr>d_enabled = True, d_upstream = \<lparr>up_provider = ''quad9'', up_url = None, up_fallbackRouter = True\<rparr>,
              d_logQueries = False, d_alwaysAllow = [], d_lists = [], d_categories = [], d_profiles = [?p],
              d_defaultProfile = None, d_pauses = [\<lparr>pz_macs = [''m1''], pz_until = 50\<rparr>], d_extensions = [],
              d_nxdomain = False\<rparr>"
  have l: "\<not> ps_matches (localSet id []) ''news.com''" by code_simp
  have c: "\<not> covers id [''school.org''] ''news.com''"
    unfolding ps_matches_new [symmetric] by code_simp
  have "should_block id ?cfg [] [] [] (\<lambda>_. (1, 0, 0)) ''news.com'' (Some ''m1'') 20"
    using l c by (simp add: should_block_def profile_of_def paused_at_def CANARY_def covers_def)
  with decide_implements_rules [of 20 ?cfg "\<lambda>_. (1, 0, 0)" id "[]" "[]" "[]" "''news.com''" "Some ''m1''"]
  show ?thesis by (simp add: Let_def)
qed

text \<open>
  C11. A schedule is active exactly during its weekly intervals: from its start time on each of
  its days for its length, running past midnight (and from Sunday into Monday) when the end lies
  before the start, and for the whole day when both are equal.
\<close>

theorem schedule_is_weekly_interval:
  assumes "valid_time date" "schedule_ok cats s"
  shows "scheduleActive s date \<longleftrightarrow>
    (\<exists>d \<in> set (sc_days s). (week_minute date - ((d - 1) * 1440 + sched_start s)) mod 10080 < sched_len s)"
  using scheduleActive_weekly [OF assms(1)] assms(2) by (simp add: schedule_ok_def)

theorem schedule_is_weekly_interval_witness:
  "let s = \<lparr>sc_days = [7], sc_from = 1320, sc_to = 360, sc_blockAll = True, sc_categories = [], sc_allowAlways = []\<rparr>
   in valid_time (1, 5, 59) \<and> schedule_ok [] s \<and> scheduleActive s (1, 5, 59) \<and>
      (week_minute (1, 5, 59) - ((7 - 1) * 1440 + sched_start s)) mod 10080 < sched_len s"
proof -
  let ?s = "\<lparr>sc_days = [7], sc_from = 1320, sc_to = 360, sc_blockAll = True, sc_categories = [], sc_allowAlways = []\<rparr>"
  have v: "valid_time (1, 5, 59)" and o: "schedule_ok [] ?s" and a: "scheduleActive ?s (1, 5, 59)"
    by code_simp+
  from schedule_is_weekly_interval [OF v o] v o a show ?thesis by (simp add: Let_def)
qed

end
