(* ===== verification/Dns_Wire.thy ===== *)
theory Dns_Wire
  imports Gateway_Prelude
begin

text \<open>
  DNS messages: the name reader of \<open>src/src/netwatch/dnsWire.js\<close> and the parser and
  builder of \<open>src/src/dns/wire.js\<close>. \<open>None\<close> is a thrown exception in the readers and
  builders; in \<open>parseQuery\<close> and \<open>parseResponse\<close>, which catch everything, it is the
  returned \<open>null\<close>. The text decoder \<open>buf.toString('utf8', \<dots>)\<close> is the parameter
  \<open>dec\<close>; it never throws and only the text of a name depends on it.
\<close>

section \<open>Constants\<close>

definition TYPE_A :: nat where "TYPE_A = 1"
definition TYPE_CNAME :: nat where "TYPE_CNAME = 5"
definition TYPE_SOA :: nat where "TYPE_SOA = 6"
definition TYPE_AAAA :: nat where "TYPE_AAAA = 28"
definition TYPE_OPT :: nat where "TYPE_OPT = 41"

definition RCODE_NOERROR :: nat where "RCODE_NOERROR = 0"
definition RCODE_FORMERR :: nat where "RCODE_FORMERR = 1"
definition RCODE_SERVFAIL :: nat where "RCODE_SERVFAIL = 2"
definition RCODE_NXDOMAIN :: nat where "RCODE_NXDOMAIN = 3"
definition RCODE_NOTIMP :: nat where "RCODE_NOTIMP = 4"
definition RCODE_REFUSED :: nat where "RCODE_REFUSED = 5"

definition CLASS_IN :: nat where "CLASS_IN = 1"
definition EDNS_UDP :: nat where "EDNS_UDP = 1232"
definition EDE_BLOCKED :: nat where "EDE_BLOCKED = 15"
definition MAX_RR :: nat where "MAX_RR = 512"
definition MAX_JUMPS :: nat where "MAX_JUMPS = 16"

lemmas wire_const_defs =
  TYPE_A_def TYPE_CNAME_def TYPE_SOA_def TYPE_AAAA_def TYPE_OPT_def
  RCODE_NOERROR_def RCODE_FORMERR_def RCODE_SERVFAIL_def RCODE_NXDOMAIN_def RCODE_NOTIMP_def
  RCODE_REFUSED_def CLASS_IN_def EDNS_UDP_def EDE_BLOCKED_def MAX_RR_def MAX_JUMPS_def

section \<open>Reading names\<close>

text \<open>
  The loop of \<open>readName\<close>: labels read so far, the position, the position after the first
  compression pointer (\<open>next\<close>) and the number of pointers followed.
\<close>

function readName_loop ::
  "bytes \<Rightarrow> nat \<Rightarrow> nat option \<Rightarrow> nat \<Rightarrow> bytes list \<Rightarrow> (bytes list \<times> nat) option" where
  "readName_loop buf pos nxt jumps labels =
     (if length buf \<le> pos then None
      else let len = buf ! pos in
        if len = 0 then Some (labels, case nxt of None \<Rightarrow> pos + 1 | Some n \<Rightarrow> n)
        else if len AND 0xc0 = 0xc0 then
          (if length buf \<le> pos + 1 then None
           else if MAX_JUMPS < jumps + 1 then None
           else readName_loop buf
                  (push_bit 8 (unat (len AND 0x3f)) OR unat (buf ! (pos + 1)))
                  (case nxt of None \<Rightarrow> Some (pos + 2) | Some n \<Rightarrow> Some n) (jumps + 1) labels)
        else if len AND 0xc0 \<noteq> 0 then None
        else if length buf < pos + 1 + unat len then None
        else if 128 < length labels + 1 then None
        else readName_loop buf (pos + 1 + unat len) nxt jumps
               (labels @ [subarray buf (pos + 1) (pos + 1 + unat len)]))"
  by pat_completeness auto
termination
  by (relation "measures [\<lambda>(buf, pos, nxt, jumps, labels). Suc MAX_JUMPS - jumps,
                          \<lambda>(buf, pos, nxt, jumps, labels). length buf - pos]")
    (auto simp: Let_def)

declare readName_loop.simps [simp del]

definition readNameRaw :: "bytes \<Rightarrow> nat \<Rightarrow> (bytes list \<times> nat) option" where
  "readNameRaw buf off = readName_loop buf off None 0 []"

definition readName :: "(bytes \<Rightarrow> string) \<Rightarrow> bytes \<Rightarrow> nat \<Rightarrow> (string \<times> nat) option" where
  "readName dec buf off =
     map_option (\<lambda>(labels, nxt). (join CHR ''.'' (map dec labels), nxt)) (readNameRaw buf off)"

text \<open>\<open>readQuestionName\<close>: labels without compression; \<open>None\<close> is \<open>null\<close>.\<close>

function readQuestionName_loop ::
  "bytes \<Rightarrow> nat \<Rightarrow> nat \<Rightarrow> bytes list \<Rightarrow> (bytes list \<times> nat) option" where
  "readQuestionName_loop buf pos tot labels =
     (if length buf \<le> pos then None
      else let len = unat (buf ! pos) in
        if len = 0 then Some (labels, pos + 1)
        else if 63 < len then None
        else if length buf < pos + 1 + len then None
        else if 255 < tot + len + 1 then None
        else readQuestionName_loop buf (pos + 1 + len) (tot + len + 1)
               (labels @ [subarray buf (pos + 1) (pos + 1 + len)]))"
  by pat_completeness auto
termination
  by (relation "measure (\<lambda>(buf, pos, tot, labels). length buf - pos)") (auto simp: Let_def)

declare readQuestionName_loop.simps [simp del]

definition readQuestionName :: "bytes \<Rightarrow> nat \<Rightarrow> (bytes list \<times> nat) option" where
  "readQuestionName buf off = readQuestionName_loop buf off 0 []"

text \<open>\<open>labelText\<close>: lower-case text of a label, \<open>None\<close> for characters outside host names.\<close>

fun labelText :: "bytes \<Rightarrow> string option" where
  "labelText [] = Some ''''"
| "labelText (b # bs) =
     (let c = unat b in
      if c \<le> 0x20 \<or> 0x7f \<le> c \<or> c = 0x2e then None
      else map_option (Cons (char_of (if 0x41 \<le> c \<and> c \<le> 0x5a then c + 32 else c))) (labelText bs))"

text \<open>\<open>skipRR\<close>: \<open>None\<close> when it throws, \<open>Some None\<close> for the result \<open>-1\<close>.\<close>

definition skipRR :: "bytes \<Rightarrow> nat \<Rightarrow> nat option option" where
  "skipRR buf pos = do {
     (_, p) \<leftarrow> readNameRaw buf pos;
     if length buf < p + 10 then Some None
     else do {
       rdlen \<leftarrow> readU16 buf (p + 8);
       if length buf < p + 10 + rdlen then Some None else Some (Some (p + 10 + rdlen))
     }
   }"

section \<open>Parsing a query\<close>

record edns =
  udpSize :: nat
  doBit :: bool
  version :: nat

record query =
  q_id :: nat
  q_opcode :: nat
  q_rd :: bool
  q_cd :: bool
  q_qdcount :: nat
  q_edns :: "edns option"
  q_name :: "string option"
  q_nameOk :: bool
  q_qtype :: "nat option"
  q_qclass :: "nat option"
  q_question :: "bytes option"

text \<open>The loop over the answer and authority records: \<open>pos\<close> is \<open>None\<close> for \<open>-1\<close>.\<close>

fun skipRRs :: "nat \<Rightarrow> bytes \<Rightarrow> nat option \<Rightarrow> nat option option" where
  "skipRRs 0 buf pos = Some pos"
| "skipRRs (Suc n) buf pos =
     (case pos of None \<Rightarrow> Some None
      | Some p \<Rightarrow> do { pos' \<leftarrow> skipRR buf p; skipRRs n buf pos' })"

text \<open>The loop over the additional records, looking for \<open>OPT\<close>.\<close>

fun scanAdditional :: "nat \<Rightarrow> bytes \<Rightarrow> nat option \<Rightarrow> edns option \<Rightarrow> edns option option" where
  "scanAdditional 0 buf pos e = Some e"
| "scanAdditional (Suc n) buf pos e =
     (case pos of None \<Rightarrow> Some e
      | Some p \<Rightarrow> do {
          (_, nxt) \<leftarrow> readNameRaw buf p;
          if length buf < nxt + 10 then Some e
          else do {
            t \<leftarrow> readU16 buf nxt;
            e' \<leftarrow> (if t = TYPE_OPT then do {
                     ttl \<leftarrow> readU32 buf (nxt + 4);
                     sz \<leftarrow> readU16 buf (nxt + 2);
                     Some (Some \<lparr>udpSize = max 512 sz, doBit = (ttl AND 0x8000 \<noteq> 0),
                                 version = drop_bit 16 ttl AND 0xff\<rparr>)
                   } else Some e);
            pos' \<leftarrow> skipRR buf p;
            scanAdditional n buf pos' e'
          }
        })"

definition parseQuery :: "bytes \<Rightarrow> query option" where
  "parseQuery buf =
     (if length buf < 12 \<or> 65535 < length buf then None
      else do {
        qid \<leftarrow> readU16 buf 0;
        flags \<leftarrow> readU16 buf 2;
        if flags AND 0x8000 \<noteq> 0 then None
        else do {
          qdcount \<leftarrow> readU16 buf 4;
          let base = \<lparr>q_id = qid, q_opcode = drop_bit 11 flags AND 0xf,
                      q_rd = (flags AND 0x0100 \<noteq> 0), q_cd = (flags AND 0x0010 \<noteq> 0),
                      q_qdcount = qdcount, q_edns = None, q_name = None, q_nameOk = False,
                      q_qtype = None, q_qclass = None, q_question = None\<rparr>;
          if qdcount \<noteq> 1 then Some base
          else (case readQuestionName buf 12 of
              None \<Rightarrow> Some base
            | Some (labels, qend) \<Rightarrow>
                if length buf < qend + 4 then Some base
                else do {
                  qtype \<leftarrow> readU16 buf qend;
                  qclass \<leftarrow> readU16 buf (qend + 2);
                  let texts = map labelText labels;
                  let nameOk = (\<forall>t \<in> set texts. t \<noteq> None);
                  an \<leftarrow> readU16 buf 6;
                  ns \<leftarrow> readU16 buf 8;
                  ar \<leftarrow> readU16 buf 10;
                  if MAX_RR < an + ns + ar then Some base
                  else do {
                    pos \<leftarrow> skipRRs (an + ns) buf (Some (qend + 4));
                    e \<leftarrow> scanAdditional ar buf pos None;
                    Some (base\<lparr>q_name := (if nameOk then Some (join CHR ''.'' (map the texts)) else None),
                               q_nameOk := nameOk, q_qtype := Some qtype, q_qclass := Some qclass,
                               q_question := Some (subarray buf 12 (qend + 4)), q_edns := e\<rparr>)
                  }
                })
        }
      })"

section \<open>Building messages\<close>

definition encodeLabel :: "string \<Rightarrow> bytes option" where
  "encodeLabel p =
     (if 63 < length p then None else Some (byte_of (length p) # map char_byte p))"

fun encodeLabels :: "string list \<Rightarrow> bytes option" where
  "encodeLabels [] = Some [0]"
| "encodeLabels (p # ps) = do { b \<leftarrow> encodeLabel p; r \<leftarrow> encodeLabels ps; Some (b @ r) }"

definition encodeName :: "string \<Rightarrow> bytes option" where
  "encodeName name = encodeLabels (filter (\<lambda>p. p \<noteq> []) (split_on CHR ''.'' name))"

definition questionFor :: "string \<Rightarrow> nat \<Rightarrow> nat \<Rightarrow> bytes option" where
  "questionFor name qtype qclass = do {
     t \<leftarrow> u16 qtype;
     c \<leftarrow> u16 qclass;
     n \<leftarrow> encodeName name;
     Some (n @ t @ c)
   }"

definition optRecord :: "nat \<Rightarrow> bool \<Rightarrow> nat option \<Rightarrow> bytes option" where
  "optRecord usz dobit ede = do {
     rdata \<leftarrow> (case ede of None \<Rightarrow> Some []
               | Some code \<Rightarrow> do { c \<leftarrow> u16 15; l \<leftarrow> u16 2; e \<leftarrow> u16 code; Some (c @ l @ e) });
     t \<leftarrow> u16 TYPE_OPT;
     s \<leftarrow> u16 usz;
     f \<leftarrow> u32 (if dobit then 0x8000 else 0);
     l \<leftarrow> u16 (length rdata);
     Some ([0] @ t @ s @ f @ l @ rdata)
   }"

text \<open>\<open>buildQuery\<close>; \<open>ed\<close> is \<open>Some do\<close> when the client spoke EDNS.\<close>

definition buildQuery ::
  "nat \<Rightarrow> string \<Rightarrow> nat \<Rightarrow> nat \<Rightarrow> bool option \<Rightarrow> bool \<Rightarrow> bytes option" where
  "buildQuery qid name qtype qclass ed cd = do {
     i \<leftarrow> u16 (qid AND 0xffff);
     f \<leftarrow> u16 (0x0100 OR (if cd then 0x0010 else 0));
     qd \<leftarrow> u16 1;
     ar \<leftarrow> u16 (if ed = None then 0 else 1);
     q \<leftarrow> questionFor name qtype qclass;
     opt \<leftarrow> (case ed of None \<Rightarrow> Some [] | Some d \<Rightarrow> optRecord EDNS_UDP d None);
     Some (i @ f @ qd @ [0, 0] @ [0, 0] @ ar @ q @ opt)
   }"

record answer =
  a_name :: string
  a_type :: nat
  a_ttl :: nat
  a_rdata :: bytes

text \<open>\<open>Math.max(0, ttl | 0)\<close>: the value as a signed 32-bit integer, negative ones as 0.\<close>

definition ttl32 :: "nat \<Rightarrow> nat" where
  "ttl32 t = nat (max 0 (sint (word_of_nat t :: 32 word)))"

definition encodeAnswer :: "string option \<Rightarrow> answer \<Rightarrow> bytes option" where
  "encodeAnswer qname a = do {
     n \<leftarrow> (if Some (a_name a) = qname then Some [0xc0, 0x0c] else encodeName (a_name a));
     t \<leftarrow> u16 (a_type a);
     c \<leftarrow> u16 CLASS_IN;
     ttl \<leftarrow> u32 (ttl32 (a_ttl a));
     l \<leftarrow> u16 (length (a_rdata a));
     Some (n @ t @ c @ ttl @ l @ a_rdata a)
   }"

fun encodeAnswers :: "string option \<Rightarrow> answer list \<Rightarrow> bytes option" where
  "encodeAnswers qname [] = Some []"
| "encodeAnswers qname (a # as) =
     do { b \<leftarrow> encodeAnswer qname a; r \<leftarrow> encodeAnswers qname as; Some (b @ r) }"

definition responseFlags :: "query \<Rightarrow> nat \<Rightarrow> bool \<Rightarrow> nat" where
  "responseFlags q rcode tc =
     0x8000 OR push_bit 11 (q_opcode q AND 0xf) OR (if tc then 0x0200 else 0)
     OR (if q_rd q then 0x0100 else 0) OR 0x0080 OR (if q_cd q then 0x0010 else 0) OR (rcode AND 0xf)"

definition buildResponse :: "query \<Rightarrow> nat \<Rightarrow> answer list \<Rightarrow> bool \<Rightarrow> nat option \<Rightarrow> bytes option" where
  "buildResponse q rcode answers tc ede = do {
     i \<leftarrow> u16 (q_id q AND 0xffff);
     f \<leftarrow> u16 (responseFlags q rcode tc);
     qd \<leftarrow> u16 (if q_question q = None then 0 else 1);
     an \<leftarrow> u16 (if q_question q = None then 0 else length answers);
     ar \<leftarrow> u16 (if q_edns q = None then 0 else 1);
     body \<leftarrow> (case q_question q of None \<Rightarrow> Some []
              | Some question \<Rightarrow> do { as \<leftarrow> encodeAnswers (q_name q) answers; Some (question @ as) });
     opt \<leftarrow> (case q_edns q of None \<Rightarrow> Some [] | Some e \<Rightarrow> optRecord EDNS_UDP (doBit e) ede);
     Some (i @ f @ qd @ an @ [0, 0] @ ar @ body @ opt)
   }"

section \<open>Parsing a response\<close>

record resp_answer = answer +
  a_target :: "string option"

record response =
  r_id :: nat
  r_rcode :: nat
  r_tc :: bool
  r_qname :: "string option"
  r_ttlOffsets :: "nat list"
  r_minTtl :: "nat option"
  r_negTtl :: "nat option"
  r_answers :: "resp_answer list"
  r_an :: nat

record rr_state =
  s_pos :: nat
  s_ttlOffsets :: "nat list"
  s_minTtl :: "nat option"
  s_negTtl :: "nat option"
  s_answers :: "resp_answer list"

text \<open>
  One turn of the record loop of \<open>parseResponse\<close> (record number \<open>i\<close>): the negative
  TTL from an authority \<open>SOA\<close>, the answer entry, then the whole turn.
\<close>

definition rrNegTtl ::
  "bytes \<Rightarrow> nat \<Rightarrow> nat \<Rightarrow> nat \<Rightarrow> nat \<Rightarrow> nat \<Rightarrow> nat \<Rightarrow> nat \<Rightarrow> nat option \<Rightarrow> nat option option" where
  "rrNegTtl buf an ns i type ttl rd rdlen old =
     (if type \<noteq> TYPE_OPT \<and> an \<le> i \<and> i < an + ns \<and> type = TYPE_SOA then do {
        (_, mnext) \<leftarrow> readNameRaw buf rd;
        (_, rnext) \<leftarrow> readNameRaw buf mnext;
        if rnext + 20 \<le> rd + rdlen
        then do { m \<leftarrow> readU32 buf (rnext + 16); Some (Some (min ttl m)) }
        else Some old
      } else Some old)"

definition rrAnswers ::
  "(bytes \<Rightarrow> string) \<Rightarrow> bytes \<Rightarrow> nat \<Rightarrow> nat \<Rightarrow> string \<Rightarrow> nat \<Rightarrow> nat \<Rightarrow> nat \<Rightarrow> nat \<Rightarrow> resp_answer list
     \<Rightarrow> resp_answer list option" where
  "rrAnswers dec buf an i name type ttl rd rdlen old =
     (if i < an then do {
        target \<leftarrow> (if type = TYPE_CNAME
                  then do { (n, _) \<leftarrow> readName dec buf rd; Some (Some (toLower n)) }
                  else Some None);
        Some (old @ [\<lparr>a_name = toLower name, a_type = type, a_ttl = ttl,
                      a_rdata = subarray buf rd (rd + rdlen), a_target = target\<rparr>])
      } else Some old)"

definition parseRR ::
  "(bytes \<Rightarrow> string) \<Rightarrow> bytes \<Rightarrow> nat \<Rightarrow> nat \<Rightarrow> nat \<Rightarrow> rr_state \<Rightarrow> rr_state option" where
  "parseRR dec buf an ns i s = do {
     (name, p) \<leftarrow> readName dec buf (s_pos s);
     if length buf < p + 10 then None
     else do {
       type \<leftarrow> readU16 buf p;
       ttl \<leftarrow> readU32 buf (p + 4);
       rdlen \<leftarrow> readU16 buf (p + 8);
       let rd = p + 10;
       if length buf < rd + rdlen then None
       else do {
         neg \<leftarrow> rrNegTtl buf an ns i type ttl rd rdlen (s_negTtl s);
         answers' \<leftarrow> rrAnswers dec buf an i name type ttl rd rdlen (s_answers s);
         Some \<lparr>s_pos = rd + rdlen,
               s_ttlOffsets = (if type \<noteq> TYPE_OPT then s_ttlOffsets s @ [p + 4] else s_ttlOffsets s),
               s_minTtl = (if type \<noteq> TYPE_OPT \<and> i < an + ns
                           then Some (case s_minTtl s of None \<Rightarrow> ttl | Some m \<Rightarrow> min m ttl)
                           else s_minTtl s),
               s_negTtl = neg, s_answers = answers'\<rparr>
       }
     }
   }"

fun parseRRs ::
  "(bytes \<Rightarrow> string) \<Rightarrow> bytes \<Rightarrow> nat \<Rightarrow> nat \<Rightarrow> nat \<Rightarrow> nat \<Rightarrow> rr_state \<Rightarrow> rr_state option" where
  "parseRRs dec buf an ns i 0 s = Some s"
| "parseRRs dec buf an ns i (Suc n) s =
     do { s' \<leftarrow> parseRR dec buf an ns i s; parseRRs dec buf an ns (Suc i) n s' }"

definition parseResponse :: "(bytes \<Rightarrow> string) \<Rightarrow> bytes \<Rightarrow> response option" where
  "parseResponse dec buf =
     (if length buf < 12 then None
      else do {
        flags \<leftarrow> readU16 buf 2;
        if flags AND 0x8000 = 0 then None
        else do {
          qd \<leftarrow> readU16 buf 4;
          an \<leftarrow> readU16 buf 6;
          ns \<leftarrow> readU16 buf 8;
          ar \<leftarrow> readU16 buf 10;
          if MAX_RR < an + ns + ar \<or> 1 < qd then None
          else do {
            (qname, pos) \<leftarrow> (if qd = 1 then do {
                   (n, nxt) \<leftarrow> readName dec buf 12;
                   if length buf < nxt + 4 then None else Some (Some (toLower n), nxt + 4)
                 } else Some (None, 12));
            s \<leftarrow> parseRRs dec buf an ns 0 (an + ns + ar)
                   \<lparr>s_pos = pos, s_ttlOffsets = [], s_minTtl = None, s_negTtl = None, s_answers = []\<rparr>;
            rid \<leftarrow> readU16 buf 0;
            Some \<lparr>r_id = rid, r_rcode = flags AND 0xf, r_tc = (flags AND 0x0200 \<noteq> 0),
                  r_qname = qname, r_ttlOffsets = s_ttlOffsets s, r_minTtl = s_minTtl s,
                  r_negTtl = s_negTtl s, r_answers = s_answers s, r_an = an\<rparr>
          }
        }
      })"

section \<open>Adapting a stored response\<close>

text \<open>\<open>out.writeUInt32BE(v, off)\<close> and \<open>src.copy(out, off)\<close> on a message long enough.\<close>

definition overwrite :: "nat \<Rightarrow> bytes \<Rightarrow> bytes \<Rightarrow> bytes" where
  "overwrite off w buf = take off buf @ w @ drop (off + length w) buf"

fun ageTtls :: "nat \<Rightarrow> nat list \<Rightarrow> bytes \<Rightarrow> bytes option" where
  "ageTtls age [] out = Some out"
| "ageTtls age (off # offs) out = do {
     t \<leftarrow> readU32 out off;
     w \<leftarrow> u32 (if age < t then t - age else 0);
     ageTtls age offs (overwrite off w out)
   }"

definition adaptQuestion :: "bytes \<Rightarrow> bytes \<Rightarrow> bytes option \<Rightarrow> bytes option" where
  "adaptQuestion buf out question =
     (case question of None \<Rightarrow> Some out
      | Some qs \<Rightarrow> do {
          qd \<leftarrow> readU16 buf 4;
          if qd = 1 \<and> 12 + length qs \<le> length out
          then (case readQuestionName out 12 of
                  None \<Rightarrow> Some out
                | Some (_, e) \<Rightarrow>
                    if int e + 4 - 12 = int (length qs) then Some (overwrite 12 qs out) else Some out)
          else Some out
        })"

definition adaptResponse :: "bytes \<Rightarrow> nat \<Rightarrow> bytes option \<Rightarrow> nat list \<Rightarrow> int \<Rightarrow> bytes option" where
  "adaptResponse buf qid question ttlOffsets ageSec =
     (if length buf < 2 then None
      else do {
        i \<leftarrow> u16 (qid AND 0xffff);
        out \<leftarrow> adaptQuestion buf (overwrite 0 i buf) question;
        if 0 < ageSec then ageTtls (nat ageSec) ttlOffsets out else Some out
      })"

section \<open>Encoding and reading names\<close>

lemma byte_of_and_c0: "n < 64 \<Longrightarrow> byte_of n AND 0xc0 = 0"
proof -
  assume n: "n < 64"
  have "take_bit 6 (word_of_nat n :: byte) = word_of_nat (take_bit 6 n)"
    by (simp add: take_bit_of_nat)
  also have "take_bit 6 n = n" using n by (simp add: take_bit_eq_mod)
  finally have "byte_of n = byte_of n AND 63"
    by (simp add: byte_of_def take_bit_eq_mask mask_eq_exp_minus_1)
  then have "byte_of n AND 0xc0 = byte_of n AND (63 AND 0xc0)"
    by (metis and.assoc)
  then show ?thesis by simp
qed

lemma byte_of_eq_0: "n < 256 \<Longrightarrow> byte_of n = 0 \<longleftrightarrow> n = 0"
  by (simp add: word_unat_eq_iff)

definition label_size :: "string list \<Rightarrow> nat" where
  "label_size ps = sum_list (map (\<lambda>p. Suc (length p)) ps)"

lemma label_size_simps [simp]:
  "label_size [] = 0" "label_size (p # ps) = Suc (length p) + label_size ps"
  by (simp_all add: label_size_def)

lemma encodeLabels_Some_iff:
  "(\<exists>e. encodeLabels ps = Some e) \<longleftrightarrow> (\<forall>p \<in> set ps. length p \<le> 63)"
  by (induction ps) (auto simp: encodeLabel_def)

lemma encodeLabels_length: "encodeLabels ps = Some e \<Longrightarrow> length e = Suc (label_size ps)"
  by (induction ps arbitrary: e) (auto simp: encodeLabel_def bind_eq_Some_conv split: if_splits)

lemma nth_append_length3 [simp]: "(pre @ x # xs) ! length pre = x"
  by (simp add: nth_append)

lemma subarray_middle:
  "subarray (pre @ x # mid @ rest) (Suc (length pre)) (Suc (length pre + length mid)) = mid"
  by (simp add: subarray_def)

lemma readQuestionName_encode:
  "encodeLabels ps = Some e \<Longrightarrow> \<forall>p \<in> set ps. p \<noteq> [] \<Longrightarrow> tot + label_size ps \<le> 255 \<Longrightarrow>
   readQuestionName_loop (pre @ e @ rest) (length pre) tot acc =
     Some (acc @ map (map char_byte) ps, length pre + length e)"
proof (induction ps arbitrary: e pre tot acc)
  case Nil
  then have "e = [0]" by simp
  then show ?case by (subst readQuestionName_loop.simps) simp
next
  case (Cons p ps)
  from Cons.prems(1) obtain r where r: "encodeLabels ps = Some r" and p: "length p \<le> 63"
    and e: "e = byte_of (length p) # map char_byte p @ r"
    by (auto simp: encodeLabel_def bind_eq_Some_conv split: if_splits)
  let ?pre = "pre @ byte_of (length p) # map char_byte p"
  have IH: "readQuestionName_loop (?pre @ r @ rest) (length ?pre) (tot + length p + 1)
      (acc @ [map char_byte p]) = Some ((acc @ [map char_byte p]) @ map (map char_byte) ps, length ?pre + length r)"
    by (rule Cons.IH [OF r]) (use Cons.prems in auto)
  have sub: "subarray (pre @ byte_of (length p) # map char_byte p @ r @ rest)
      (Suc (length pre)) (Suc (length pre + length p)) = map char_byte p"
    using subarray_middle [of pre _ "map char_byte p"] by simp
  have "p \<noteq> []" using Cons.prems(2) by simp
  then show ?case
    using IH p Cons.prems(3)
    by (subst readQuestionName_loop.simps) (simp add: e sub Let_def algebra_simps)
qed

lemma readName_encode:
  "encodeLabels ps = Some e \<Longrightarrow> \<forall>p \<in> set ps. p \<noteq> [] \<Longrightarrow> length acc + length ps \<le> 128 \<Longrightarrow>
   readName_loop (pre @ e @ rest) (length pre) nxt jumps acc =
     Some (acc @ map (map char_byte) ps, case nxt of None \<Rightarrow> length pre + length e | Some n \<Rightarrow> n)"
proof (induction ps arbitrary: e pre acc)
  case Nil
  then have "e = [0]" by simp
  then show ?case by (subst readName_loop.simps) (simp split: option.split)
next
  case (Cons p ps)
  from Cons.prems(1) obtain r where r: "encodeLabels ps = Some r" and p: "length p \<le> 63"
    and e: "e = byte_of (length p) # map char_byte p @ r"
    by (auto simp: encodeLabel_def bind_eq_Some_conv split: if_splits)
  let ?pre = "pre @ byte_of (length p) # map char_byte p"
  have IH: "readName_loop (?pre @ r @ rest) (length ?pre) nxt jumps (acc @ [map char_byte p]) =
      Some ((acc @ [map char_byte p]) @ map (map char_byte) ps,
            case nxt of None \<Rightarrow> length ?pre + length r | Some n \<Rightarrow> n)"
    by (rule Cons.IH [OF r]) (use Cons.prems in auto)
  have sub: "subarray (pre @ byte_of (length p) # map char_byte p @ r @ rest)
      (Suc (length pre)) (Suc (length pre + length p)) = map char_byte p"
    using subarray_middle [of pre _ "map char_byte p"] by simp
  have m: "byte_of (length p) AND 192 = 0" "byte_of (length p) \<noteq> 0"
    using p Cons.prems(2) byte_of_and_c0 [of "length p"] byte_of_eq_0 [of "length p"] by auto
  have "(0 :: byte) \<noteq> 192" by (simp add: word_unat_eq_iff)
  with m show ?case
    using IH p Cons.prems(3)
    by (subst readName_loop.simps) (cases nxt; simp add: e sub Let_def algebra_simps)
qed

lemma readU16_at: "u16 n = Some w \<Longrightarrow> off = length pre \<Longrightarrow> readU16 (pre @ w @ rest) off = Some n"
  by (simp add: readU16_skip readU16_u16)

lemma readU32_at: "u32 n = Some w \<Longrightarrow> off = length pre \<Longrightarrow> readU32 (pre @ w @ rest) off = Some n"
  by (simp add: readU32_skip readU32_u32)

lemma subarray_at: "a = length pre \<Longrightarrow> b = length pre + length mid \<Longrightarrow> subarray (pre @ mid @ rest) a b = mid"
  by (simp add: subarray_def)

definition host_label :: "string \<Rightarrow> bool" where
  "host_label l =
     (l \<noteq> [] \<and> length l \<le> 63 \<and>
      (\<forall>c \<in> set l. (of_char c :: nat) > 0x20 \<and> (of_char c :: nat) < 0x7f \<and> c \<noteq> CHR ''.'' \<and> \<not> is_upper c))"

definition host_name :: "string \<Rightarrow> bool" where
  "host_name s = (length s \<le> 253 \<and> (\<forall>l \<in> set (split_on CHR ''.'' s). host_label l))"

lemma label_size_split: "label_size (split_on c s) = Suc (length s)"
proof (induction s)
  case (Cons x s)
  obtain p ps where "split_on c s = p # ps" by (cases "split_on c s") auto
  with Cons show ?case by auto
qed simp

lemma label_size_ge: "length ps \<le> label_size ps"
  by (induction ps) auto

lemma label_size_ge2: "\<forall>p \<in> set ps. p \<noteq> [] \<Longrightarrow> 2 * length ps \<le> label_size ps"
proof (induction ps)
  case (Cons p ps)
  then show ?case by (cases p) auto
qed simp

lemma host_name_encode:
  assumes "host_name s"
  obtains e where "encodeName s = Some e" "encodeLabels (split_on CHR ''.'' s) = Some e"
    "length e = length s + 2"
proof -
  have f: "filter (\<lambda>p. p \<noteq> []) (split_on CHR ''.'' s) = split_on CHR ''.'' s"
    using assms by (simp add: host_name_def host_label_def)
  obtain e where "encodeLabels (split_on CHR ''.'' s) = Some e"
    using assms encodeLabels_Some_iff [of "split_on CHR ''.'' s"]
    by (auto simp: host_name_def host_label_def)
  with f show ?thesis
    using encodeLabels_length [of "split_on CHR ''.'' s" e]
    by (intro that) (simp_all add: encodeName_def label_size_split)
qed

lemma unat_char_byte [simp]: "unat (char_byte c) = of_char c"
  by (simp add: char_byte_def unat_of_nat)

lemma labelText_host:
  "\<forall>c \<in> set l. (of_char c :: nat) > 0x20 \<and> (of_char c :: nat) < 0x7f \<and> c \<noteq> CHR ''.'' \<and> \<not> is_upper c
   \<Longrightarrow> labelText (map char_byte l) = Some l"
proof (induction l)
  case (Cons c l)
  have "(of_char c :: nat) \<noteq> 46"
  proof
    assume "(of_char c :: nat) = 46"
    then have "(of_char c :: nat) = of_char CHR ''.''" by simp
    with Cons.prems show False by (simp only: of_char_eq_iff) simp
  qed
  with Cons show ?case by (auto simp: is_upper_def Let_def)
qed simp

lemma toLower_host:
  assumes "host_name s" shows "toLower s = s"
proof -
  have "set s \<subseteq> insert CHR ''.'' (\<Union> (set ` set (split_on CHR ''.'' s)))"
    using set_join [of "CHR ''.''" "split_on CHR ''.'' s"] by simp
  moreover have "lower_char CHR ''.'' = CHR ''.''"
    by (rule lower_char_noop) (simp_all add: is_upper_def)
  moreover have "lower_char c = c" if "l \<in> set (split_on CHR ''.'' s)" "c \<in> set l" for l c
    using assms that by (intro lower_char_noop) (auto simp: host_name_def host_label_def)
  ultimately have "\<forall>c \<in> set s. lower_char c = c" by auto
  then show ?thesis by (simp add: toLower_def map_idI)
qed

section \<open>A built query parses back\<close>

lemma flag_bits [simp]:
  "((n :: nat) AND 0x8000 = 0) = (\<not> bit n 15)" "((n :: nat) AND 0x0200 = 0) = (\<not> bit n 9)"
  "((n :: nat) AND 0x0100 = 0) = (\<not> bit n 8)" "((n :: nat) AND 0x0010 = 0) = (\<not> bit n 4)"
  using and_exp_eq_0_iff_not_bit [of n 15] and_exp_eq_0_iff_not_bit [of n 9]
    and_exp_eq_0_iff_not_bit [of n 8] and_exp_eq_0_iff_not_bit [of n 4]
  by simp_all

lemma flag_bits_pos [simp]:
  "(0 < (n :: nat) AND 0x8000) = bit n 15" "(0 < (n :: nat) AND 0x0200) = bit n 9"
  "(0 < (n :: nat) AND 0x0100) = bit n 8" "(0 < (n :: nat) AND 0x0010) = bit n 4"
  using flag_bits [of n] by (auto simp del: flag_bits)

lemma and_0xf [simp]: "(n :: nat) AND 0xf = take_bit 4 n"
  by (simp add: take_bit_eq_mask mask_eq_exp_minus_1)

lemma and_0xff [simp]: "(n :: nat) AND 0xff = take_bit 8 n"
  by (simp add: take_bit_eq_mask mask_eq_exp_minus_1)

lemma and_0xffff [simp]: "(n :: nat) AND 0xffff = take_bit 16 n"
  by (simp add: take_bit_eq_mask mask_eq_exp_minus_1)

lemma readNameRaw_root: "readNameRaw (pre @ 0 # rest) (length pre) = Some ([], Suc (length pre))"
  unfolding readNameRaw_def by (subst readName_loop.simps) simp

lemma optRecord_Some:
  "ede = None \<or> (\<exists>c. ede = Some c \<and> c < 65536) \<Longrightarrow> \<exists>opt. optRecord EDNS_UDP d ede = Some opt"
  by (auto simp: optRecord_def u16_def u32_def wire_const_defs)

lemma optRecord_length: "optRecord EDNS_UDP d ede = Some opt \<Longrightarrow> length opt \<le> 17"
  by (auto simp: optRecord_def bind_eq_Some_conv u16_def u32_def split: if_splits option.splits)

text \<open>The EDNS record that \<open>optRecord\<close> writes is the one the query parser finds.\<close>

lemma scanAdditional_optRecord:
  assumes "optRecord EDNS_UDP d None = Some opt"
  shows "scanAdditional 1 (pre @ opt) (Some (length pre)) None =
     Some (Some \<lparr>udpSize = 1232, doBit = d, version = 0\<rparr>)"
proof -
  obtain f where f: "u32 (if d then 32768 else 0) = Some f"
    by (cases d) (simp_all add: u32_def)
  have opt: "opt = 0 # [0, 41] @ [4, 208] @ f @ [0, 0]"
    using assms f by (auto simp: optRecord_def wire_const_defs u16_def byte_of_def)
  let ?b = "pre @ opt"
  have n: "readNameRaw ?b (length pre) = Some ([], Suc (length pre))"
    using readNameRaw_root [of pre] by (simp add: opt)
  have t: "readU16 ?b (Suc (length pre)) = Some 41"
    using readU16_at [of 41 "[0, 41]" _ "pre @ [0]"] by (simp add: opt u16_def byte_of_def)
  have s: "readU16 ?b (Suc (Suc (Suc (length pre)))) = Some 1232"
    using readU16_at [of 1232 "[4, 208]" _ "pre @ [0, 0, 41]"] by (simp add: opt u16_def byte_of_def)
  have ttl: "readU32 ?b (5 + length pre) = Some (if d then 32768 else 0)"
    using readU32_at [OF f, of "5 + length pre" "pre @ [0, 0, 41, 4, 208]" "[0, 0]"]
    by (simp add: opt)
  have rl: "readU16 ?b (9 + length pre) = Some 0"
    using readU16_at [of 0 "[0, 0]" "9 + length pre" "pre @ [0, 0, 41, 4, 208] @ f" "[]"]
      u32_length [OF f]
    by (simp add: opt u16_def byte_of_def)
  have len: "length opt = 11"
    using u32_length [OF f] by (simp add: opt)
  show ?thesis
    by (simp add: n t s ttl rl len skipRR_def wire_const_defs bit_Suc_0_iff)
qed

lemma header_reads:
  "readU16 ([a0,a1,a2,a3,a4,a5,a6,a7,a8,a9,a10,a11] @ rest) 0 = Some (unat a0 * 256 + unat a1)"
  "readU16 ([a0,a1,a2,a3,a4,a5,a6,a7,a8,a9,a10,a11] @ rest) 2 = Some (unat a2 * 256 + unat a3)"
  "readU16 ([a0,a1,a2,a3,a4,a5,a6,a7,a8,a9,a10,a11] @ rest) 4 = Some (unat a4 * 256 + unat a5)"
  "readU16 ([a0,a1,a2,a3,a4,a5,a6,a7,a8,a9,a10,a11] @ rest) 6 = Some (unat a6 * 256 + unat a7)"
  "readU16 ([a0,a1,a2,a3,a4,a5,a6,a7,a8,a9,a10,a11] @ rest) 8 = Some (unat a8 * 256 + unat a9)"
  "readU16 ([a0,a1,a2,a3,a4,a5,a6,a7,a8,a9,a10,a11] @ rest) 10 = Some (unat a10 * 256 + unat a11)"
  by (simp_all add: readU16_def)

lemma u16_bytes: "n < 65536 \<Longrightarrow> unat (byte_of (n div 256)) * 256 + unat (byte_of n) = n"
  by simp

lemma questionFor_host:
  assumes "host_name name" "qtype < 65536" "qclass < 65536"
  obtains e t c where "encodeLabels (split_on CHR ''.'' name) = Some e" "u16 qtype = Some t"
    "u16 qclass = Some c" "questionFor name qtype qclass = Some (e @ t @ c)"
    "length e = length name + 2"
proof -
  obtain e where "encodeName name = Some e" "encodeLabels (split_on CHR ''.'' name) = Some e"
    "length e = length name + 2"
    using host_name_encode [OF assms(1)] .
  with assms(2,3) show ?thesis
    by (intro that [of e "[byte_of (qtype div 256), byte_of qtype]" "[byte_of (qclass div 256), byte_of qclass]"])
      (simp_all add: u16_def questionFor_def)
qed

text \<open>
  The question section of any message that starts with a twelve-byte header and continues
  with an encoded host name reads back as that name.
\<close>

lemma readQuestionName_host:
  assumes "host_name name" "encodeLabels (split_on CHR ''.'' name) = Some e" "length h = 12"
  shows "readQuestionName (h @ e @ rest) 12 =
    Some (map (map char_byte) (split_on CHR ''.'' name), 12 + length e)"
proof -
  have "\<forall>p \<in> set (split_on CHR ''.'' name). p \<noteq> []"
    using assms(1) by (auto simp: host_name_def host_label_def)
  moreover have "0 + label_size (split_on CHR ''.'' name) \<le> 255"
    using assms(1) by (simp add: label_size_split host_name_def)
  ultimately show ?thesis
    using readQuestionName_encode [OF assms(2), of 0 h rest "[]"] assms(3)
    by (simp add: readQuestionName_def)
qed

lemma labelText_split:
  assumes "host_name name"
  shows "map labelText (map (map char_byte) (split_on CHR ''.'' name)) =
    map Some (split_on CHR ''.'' name)"
  using assms by (auto simp: host_name_def host_label_def intro!: labelText_host)

definition expected_query ::
  "nat \<Rightarrow> string \<Rightarrow> nat \<Rightarrow> nat \<Rightarrow> bool option \<Rightarrow> bool \<Rightarrow> bytes \<Rightarrow> query" where
  "expected_query qid name qtype qclass ed cd qn =
     \<lparr>q_id = qid, q_opcode = 0, q_rd = True, q_cd = cd, q_qdcount = 1,
      q_edns = map_option (\<lambda>d. \<lparr>udpSize = 1232, doBit = d, version = 0\<rparr>) ed,
      q_name = Some name, q_nameOk = True, q_qtype = Some qtype, q_qclass = Some qclass,
      q_question = Some qn\<rparr>"

lemma parseQuery_buildQuery:
  assumes "host_name name" "qid < 65536" "qtype < 65536" "qclass < 65536"
  shows "\<exists>buf qn. buildQuery qid name qtype qclass ed cd = Some buf \<and>
     questionFor name qtype qclass = Some qn \<and>
     parseQuery buf = Some (expected_query qid name qtype qclass ed cd qn)"
proof -
  obtain e t c where e: "encodeLabels (split_on CHR ''.'' name) = Some e" and t: "u16 qtype = Some t"
    and c: "u16 qclass = Some c" and qn: "questionFor name qtype qclass = Some (e @ t @ c)"
    and le: "length e = length name + 2"
    using questionFor_host [OF assms(1,3,4)] .
  obtain opt where opt: "(case ed of None \<Rightarrow> Some [] | Some d \<Rightarrow> optRecord EDNS_UDP d None) = Some opt"
    using optRecord_Some [of None] by (cases ed) auto
  have lopt: "length opt \<le> 17"
    using opt optRecord_length [of _ None opt] by (auto split: option.splits)
  define h where "h = [byte_of (qid div 256), byte_of qid, 1, if cd then 16 else 0, 0, 1, 0, 0, 0, 0, 0,
             if ed = None then 0 else 1]"
  let ?buf = "h @ e @ t @ c @ opt"
  have lh: "length h = 12" by (simp add: h_def)
  have b: "buildQuery qid name qtype qclass ed cd = Some ?buf"
    using assms(2) opt qn
    by (auto simp: buildQuery_def h_def u16_def byte_of_def take_bit_eq_mod split: option.splits)
  have l: "length t = 2" "length c = 2" using t c by (simp_all add: u16_length)
  have q1: "readU16 ?buf (12 + length e) = Some qtype"
    using readU16_at [OF t, of "12 + length e" "h @ e" "c @ opt"] lh by simp
  have q2: "readU16 ?buf (14 + length e) = Some qclass"
    using readU16_at [OF c, of "14 + length e" "h @ e @ t" opt] l lh by simp
  have sub: "subarray ?buf 12 (16 + length e) = e @ t @ c"
    using subarray_at [of 12 h "16 + length e" "e @ t @ c" opt] l lh by simp
  have rq: "readQuestionName ?buf 12 =
      Some (map (map char_byte) (split_on CHR ''.'' name), 12 + length e)"
    by (rule readQuestionName_host [OF assms(1) e lh])
  have sc: "scanAdditional (if ed = None then 0 else 1) ?buf (Some (16 + length e)) None =
      Some (map_option (\<lambda>d. \<lparr>udpSize = 1232, doBit = d, version = 0\<rparr>) ed)"
    using scanAdditional_optRecord [of _ opt "h @ e @ t @ c"] opt l lh by (cases ed) simp_all
  have len: "length ?buf = 16 + length e + length opt" using l lh by simp
  have lb: "length name \<le> 253" using assms(1) by (simp add: host_name_def)
  have hr: "readU16 ?buf 0 = Some qid" "readU16 ?buf 2 = Some (256 + (if cd then 16 else 0))"
    "readU16 ?buf 4 = Some 1" "readU16 ?buf 6 = Some 0" "readU16 ?buf 8 = Some 0"
    "readU16 ?buf 10 = Some (if ed = None then 0 else 1)"
    using assms(2) unfolding h_def by (simp_all only: header_reads u16_bytes) simp_all
  have "parseQuery ?buf = Some (expected_query qid name qtype qclass ed cd (e @ t @ c))"
    using hr q1 q2 sub rq sc len lb le lopt labelText_split [OF assms(1)] assms(2)
    by (simp add: parseQuery_def expected_query_def wire_const_defs Let_def bit_Suc_0_iff map_idI)
  with b qn show ?thesis by blast
qed

section \<open>A built response parses back\<close>

definition wf_answer :: "answer \<Rightarrow> bool" where
  "wf_answer a =
     (host_name (a_name a) \<and> a_type a < 65536 \<and> a_type a \<noteq> TYPE_OPT \<and> a_ttl a < 2147483648 \<and>
      length (a_rdata a) < 65536 \<and>
      (a_type a = TYPE_CNAME \<longrightarrow> (\<exists>t. host_name t \<and> encodeName t = Some (a_rdata a))))"

lemma ttl32_small: "t < 2147483648 \<Longrightarrow> ttl32 t = t"
proof -
  assume "t < 2147483648"
  then have "sint (word_of_nat t :: 32 word) = int t"
    by (simp add: signed_of_nat signed_take_bit_int_eq_self)
  then show ?thesis by (simp add: ttl32_def)
qed

lemma decoded_host:
  assumes "ascii_decoder dec" "host_name s"
  shows "map dec (map (map char_byte) (split_on CHR ''.'' s)) = split_on CHR ''.'' s"
proof -
  have "dec (map char_byte l) = l" if "l \<in> set (split_on CHR ''.'' s)" for l
  proof -
    have "\<forall>c \<in> set l. is_ascii c"
      using assms(2) that by (fastforce simp: host_name_def host_label_def is_ascii_def)
    with assms(1) show ?thesis by (simp add: ascii_decoder_def)
  qed
  then show ?thesis by (simp add: map_idI)
qed

lemma host_labels_le: "host_name s \<Longrightarrow> length (split_on CHR ''.'' s) \<le> 127"
  using label_size_ge2 [of "split_on CHR ''.'' s"]
  by (fastforce simp: label_size_split host_name_def host_label_def)

lemma readName_host:
  assumes "ascii_decoder dec" "host_name s" "encodeLabels (split_on CHR ''.'' s) = Some e"
  shows "readName dec (pre @ e @ rest) (length pre) = Some (s, length pre + length e)"
proof -
  have "\<forall>p \<in> set (split_on CHR ''.'' s). p \<noteq> []"
    using assms(2) by (auto simp: host_name_def host_label_def)
  then have "readNameRaw (pre @ e @ rest) (length pre) =
      Some (map (map char_byte) (split_on CHR ''.'' s), length pre + length e)"
    using readName_encode [OF assms(3), of "[]" pre rest None 0] host_labels_le [OF assms(2)]
    by (simp add: readNameRaw_def)
  with decoded_host [OF assms(1,2)] show ?thesis by (simp add: readName_def)
qed

text \<open>A name written as the pointer \<open>0xC00C\<close> reads as the question's name.\<close>

lemma readName_pointer:
  assumes "ascii_decoder dec" "host_name s" "encodeLabels (split_on CHR ''.'' s) = Some e"
    "length h = 12" "pre = h @ e @ mid"
  shows "readName dec (pre @ [0xc0, 0x0c] @ rest) (length pre) = Some (s, length pre + 2)"
proof -
  have ne: "\<forall>p \<in> set (split_on CHR ''.'' s). p \<noteq> []"
    using assms(2) by (auto simp: host_name_def host_label_def)
  let ?buf = "pre @ [0xc0, 0x0c] @ rest"
  have at12: "readName_loop ?buf 12 (Some (length pre + 2)) 1 [] =
      Some (map (map char_byte) (split_on CHR ''.'' s), length pre + 2)"
    using readName_encode [OF assms(3) ne, of "[]" h "mid @ [0xc0, 0x0c] @ rest" "Some (length pre + 2)" 1]
      host_labels_le [OF assms(2)] assms(4,5) by simp
  have "?buf ! (length pre + 1) = 0x0c" by (simp add: nth_append)
  then have "readName_loop ?buf (length pre) None 0 [] = readName_loop ?buf 12 (Some (length pre + 2)) 1 []"
    by (subst readName_loop.simps) (simp add: MAX_JUMPS_def)
  with at12 decoded_host [OF assms(1,2)] show ?thesis
    by (simp add: readName_def readNameRaw_def)
qed

lemma readName_answer:
  assumes "ascii_decoder dec" "host_name q" "encodeLabels (split_on CHR ''.'' q) = Some e"
    "length h = 12" "pre = h @ e @ mid" "host_name s"
    "(if Some s = Some q then Some [0xc0, 0x0c] else encodeName s) = Some n"
  shows "readName dec (pre @ n @ rest) (length pre) = Some (s, length pre + length n)"
proof (cases "s = q")
  case True
  with assms(7) have "n = [0xc0, 0x0c]" by simp
  then show ?thesis using readName_pointer [OF assms(1-5), of rest] True by simp
next
  case False
  obtain e' where "encodeName s = Some e'" "encodeLabels (split_on CHR ''.'' s) = Some e'"
    using host_name_encode [OF assms(6)] by metis
  with False assms(7) readName_host [OF assms(1,6), of n pre rest] show ?thesis by simp
qed

definition parsed_answer :: "answer \<Rightarrow> string option \<Rightarrow> resp_answer" where
  "parsed_answer a tg = \<lparr>a_name = a_name a, a_type = a_type a, a_ttl = a_ttl a,
     a_rdata = a_rdata a, a_target = tg\<rparr>"

definition target_ok :: "answer \<Rightarrow> string option \<Rightarrow> bool" where
  "target_ok a tg = (if a_type a = TYPE_CNAME
     then (\<exists>t. tg = Some t \<and> host_name t \<and> encodeName t = Some (a_rdata a)) else tg = None)"

text \<open>
  Where the TTLs of the answers stand when the answers are written one after the other from
  \<open>pos\<close> on: behind the owner name (a pointer of two bytes for the question's own name), the
  type and the class.
\<close>

definition owner_size :: "string \<Rightarrow> answer \<Rightarrow> nat" where
  "owner_size q a = (if a_name a = q then 2 else length (a_name a) + 2)"

fun ttl_places :: "string \<Rightarrow> nat \<Rightarrow> answer list \<Rightarrow> nat list" where
  "ttl_places q pos [] = []"
| "ttl_places q pos (a # as) =
     (pos + owner_size q a + 4) # ttl_places q (pos + owner_size q a + 10 + length (a_rdata a)) as"

lemma owner_size_encoded:
  assumes "host_name (a_name a)"
    and "(if Some (a_name a) = Some q then Some [0xc0, 0x0c] else encodeName (a_name a)) = Some n"
  shows "length n = owner_size q a"
  using assms host_name_encode [OF assms(1)] encodeLabels_length label_size_split
  by (fastforce simp: owner_size_def split: if_splits)

definition min_opt :: "nat option \<Rightarrow> nat \<Rightarrow> nat option" where
  "min_opt m t = Some (case m of None \<Rightarrow> t | Some x \<Rightarrow> min x t)"

lemma answer_target:
  assumes dec: "ascii_decoder dec" and wf: "wf_answer a"
  obtains tg where "target_ok a tg" "(if a_type a = TYPE_CNAME
      then do { (n, _) \<leftarrow> readName dec (pre @ a_rdata a @ rest) (length pre); Some (Some (toLower n)) }
      else Some None) = Some tg"
proof (cases "a_type a = TYPE_CNAME")
  case True
  then obtain u where u: "host_name u" "encodeName u = Some (a_rdata a)"
    using wf by (auto simp: wf_answer_def)
  then have "encodeLabels (split_on CHR ''.'' u) = Some (a_rdata a)"
    using host_name_encode [OF u(1)] by (metis option.inject)
  then have "readName dec (pre @ a_rdata a @ rest) (length pre) = Some (u, length pre + length (a_rdata a))"
    by (rule readName_host [OF dec u(1)])
  with True u show ?thesis by (intro that [of "Some u"]) (simp_all add: target_ok_def toLower_host)
qed (auto simp: target_ok_def intro: that [of None])

lemma parseRR_answer:
  assumes dec: "ascii_decoder dec" and q: "host_name q" "encodeLabels (split_on CHR ''.'' q) = Some e"
    and h: "length h = 12" "pre = h @ e @ mid" and wf: "wf_answer a"
    and enc: "encodeAnswer (Some q) a = Some b" and i: "i < an" and pos: "s_pos s = length pre"
  shows "\<exists>tg. target_ok a tg \<and> length b = owner_size q a + 10 + length (a_rdata a) \<and>
    readU32 (pre @ b @ rest) (length pre + owner_size q a + 4) = Some (a_ttl a) \<and>
    parseRR dec (pre @ b @ rest) an ns i s = Some
     \<lparr>s_pos = length pre + length b, s_ttlOffsets = s_ttlOffsets s @ [length pre + owner_size q a + 4],
      s_minTtl = min_opt (s_minTtl s) (a_ttl a), s_negTtl = s_negTtl s,
      s_answers = s_answers s @ [parsed_answer a tg]\<rparr>"
proof -
  from enc obtain n t c ttl l where
      n: "(if Some (a_name a) = Some q then Some [0xc0, 0x0c] else encodeName (a_name a)) = Some n"
    and t: "u16 (a_type a) = Some t" and c: "u16 CLASS_IN = Some c"
    and ttl: "u32 (a_ttl a) = Some ttl" and l: "u16 (length (a_rdata a)) = Some l"
    and b: "b = n @ t @ c @ ttl @ l @ a_rdata a"
    using wf by (auto simp: encodeAnswer_def bind_eq_Some_conv ttl32_small wf_answer_def)
  let ?buf = "pre @ b @ rest" and ?p = "length pre + length n"
  have len: "length t = 2" "length c = 2" "length ttl = 4" "length l = 2"
    using t c ttl l by (simp_all add: u16_length u32_length)
  have wfn: "host_name (a_name a)" using wf by (simp add: wf_answer_def)
  have name: "readName dec ?buf (length pre) = Some (a_name a, ?p)"
    using readName_answer [OF dec q h wfn n, of "t @ c @ ttl @ l @ a_rdata a @ rest"] by (simp add: b)
  have rt: "readU16 ?buf ?p = Some (a_type a)"
    using readU16_at [OF t, of ?p "pre @ n"] by (simp add: b)
  have rttl: "readU32 ?buf (?p + 4) = Some (a_ttl a)"
    using readU32_at [OF ttl, of "?p + 4" "pre @ n @ t @ c"] len by (simp add: b)
  have rl: "readU16 ?buf (?p + 8) = Some (length (a_rdata a))"
    using readU16_at [OF l, of "?p + 8" "pre @ n @ t @ c @ ttl"] len by (simp add: b)
  have sub: "subarray ?buf (?p + 10) (?p + 10 + length (a_rdata a)) = a_rdata a"
    using subarray_at [of "?p + 10" "pre @ n @ t @ c @ ttl @ l" "?p + 10 + length (a_rdata a)" "a_rdata a" rest]
      len by (simp add: b)
  have lb: "length b = length n + 10 + length (a_rdata a)" using len by (simp add: b)
  let ?pre' = "pre @ n @ t @ c @ ttl @ l"
  have eq: "?pre' @ a_rdata a @ rest = ?buf" "length ?pre' = ?p + 10" using len by (simp_all add: b)
  obtain tg where tg: "target_ok a tg" and rtg: "(if a_type a = TYPE_CNAME
      then do { (n, _) \<leftarrow> readName dec ?buf (?p + 10); Some (Some (toLower n)) } else Some None) = Some tg"
    using answer_target [OF dec wf, of ?pre' rest] unfolding eq .
  have ty: "a_type a \<noteq> TYPE_OPT" using wf by (simp add: wf_answer_def)
  have "parseRR dec ?buf an ns i s = Some
     \<lparr>s_pos = length pre + length b, s_ttlOffsets = s_ttlOffsets s @ [?p + 4],
      s_minTtl = min_opt (s_minTtl s) (a_ttl a), s_negTtl = s_negTtl s,
      s_answers = s_answers s @ [parsed_answer a tg]\<rparr>"
    using name rt rttl rl sub rtg lb ty i toLower_host [OF wfn] pos
    by (simp add: parseRR_def rrNegTtl_def rrAnswers_def parsed_answer_def min_opt_def split: if_splits)
  with tg rttl lb owner_size_encoded [OF wfn n] show ?thesis by auto
qed

lemma encodeAnswers_Some:
  "\<forall>a \<in> set as. wf_answer a \<Longrightarrow> \<exists>b. encodeAnswers q as = Some b"
proof (induction as)
  case (Cons a as)
  then obtain r where r: "encodeAnswers q as = Some r" by auto
  have wf: "wf_answer a" using Cons.prems by simp
  obtain n where "encodeName (a_name a) = Some n"
    using wf host_name_encode by (metis wf_answer_def)
  then have "\<exists>b. encodeAnswer q a = Some b"
    using wf by (auto simp: encodeAnswer_def wf_answer_def ttl32_small u16_def u32_def CLASS_IN_def)
  with r show ?case by auto
qed simp

lemma parseRRs_answers:
  assumes dec: "ascii_decoder dec" and q: "host_name q" "encodeLabels (split_on CHR ''.'' q) = Some e"
    and h: "length h = 12"
  shows "\<forall>a \<in> set as. wf_answer a \<Longrightarrow> encodeAnswers (Some q) as = Some b \<Longrightarrow> pre = h @ e @ mid \<Longrightarrow>
    i + length as \<le> an \<Longrightarrow> s_pos s = length pre \<Longrightarrow>
    \<exists>s'. parseRRs dec (pre @ b @ rest) an ns i (length as) s = Some s' \<and>
      s_pos s' = length pre + length b \<and> s_minTtl s' = foldl min_opt (s_minTtl s) (map a_ttl as) \<and>
      s_negTtl s' = s_negTtl s \<and>
      s_ttlOffsets s' = s_ttlOffsets s @ ttl_places q (length pre) as \<and>
      list_all2 (\<lambda>x a. readU32 (pre @ b @ rest) x = Some (a_ttl a)) (ttl_places q (length pre) as) as \<and>
      (\<exists>ts. s_answers s' = s_answers s @ map2 parsed_answer as ts \<and> list_all2 target_ok as ts)"
proof (induction as arbitrary: b pre mid i s)
  case Nil
  then show ?case by auto
next
  case (Cons a as)
  from Cons.prems(2) obtain x r where x: "encodeAnswer (Some q) a = Some x"
    and r: "encodeAnswers (Some q) as = Some r" and b: "b = x @ r"
    by (auto simp: bind_eq_Some_conv)
  have "wf_answer a" "i < an" using Cons.prems by auto
  from parseRR_answer [OF dec q h Cons.prems(3) this(1) x this(2) Cons.prems(5), of "r @ rest" ns]
  obtain tg where tg: "target_ok a tg" and lx: "length x = owner_size q a + 10 + length (a_rdata a)"
    and rx: "readU32 (pre @ b @ rest) (length pre + owner_size q a + 4) = Some (a_ttl a)"
    and step: "parseRR dec (pre @ b @ rest) an ns i s = Some
     \<lparr>s_pos = length pre + length x, s_ttlOffsets = s_ttlOffsets s @ [length pre + owner_size q a + 4],
      s_minTtl = min_opt (s_minTtl s) (a_ttl a), s_negTtl = s_negTtl s,
      s_answers = s_answers s @ [parsed_answer a tg]\<rparr>" (is "_ = Some ?s1")
    by (auto simp: b)
  have "\<exists>s'. parseRRs dec ((pre @ x) @ r @ rest) an ns (Suc i) (length as) ?s1 = Some s' \<and>
      s_pos s' = length (pre @ x) + length r \<and> s_minTtl s' = foldl min_opt (s_minTtl ?s1) (map a_ttl as) \<and>
      s_negTtl s' = s_negTtl ?s1 \<and>
      s_ttlOffsets s' = s_ttlOffsets ?s1 @ ttl_places q (length (pre @ x)) as \<and>
      list_all2 (\<lambda>y a. readU32 ((pre @ x) @ r @ rest) y = Some (a_ttl a)) (ttl_places q (length (pre @ x)) as) as \<and>
      (\<exists>ts. s_answers s' = s_answers ?s1 @ map2 parsed_answer as ts \<and> list_all2 target_ok as ts)"
    by (rule Cons.IH [OF _ r, where mid = "mid @ x"]) (use Cons.prems in auto)
  then obtain s' ts where "parseRRs dec (pre @ b @ rest) an ns (Suc i) (length as) ?s1 = Some s'"
    "s_pos s' = length pre + length b" "s_minTtl s' = foldl min_opt (s_minTtl s) (map a_ttl (a # as))"
    "s_negTtl s' = s_negTtl s" "list_all2 target_ok as ts"
    "s_answers s' = s_answers s @ map2 parsed_answer (a # as) (tg # ts)"
    "s_ttlOffsets s' = s_ttlOffsets s @ ttl_places q (length pre) (a # as)"
    "list_all2 (\<lambda>y a. readU32 (pre @ b @ rest) y = Some (a_ttl a)) (ttl_places q (length pre + length x) as) as"
    by (auto simp: b lx add.assoc)
  with step tg rx lx show ?case by (auto simp: add.assoc intro!: exI [of _ "tg # ts"])
qed

lemma parseRR_opt:
  assumes "optRecord EDNS_UDP d ede = Some opt" "s_pos s = length pre" "an + ns \<le> i"
  shows "parseRR dec (pre @ opt) an ns i s = Some (s\<lparr>s_pos := length pre + length opt\<rparr>)"
proof -
  from assms(1) obtain t u f l rdata where t: "u16 TYPE_OPT = Some t" and u: "u16 EDNS_UDP = Some u"
    and f: "u32 (if d then 0x8000 else 0) = Some f" and l: "u16 (length rdata) = Some l"
    and opt: "opt = [0] @ t @ u @ f @ l @ rdata"
    by (auto simp: optRecord_def bind_eq_Some_conv)
  let ?b = "pre @ opt"
  have len: "length t = 2" "length u = 2" "length f = 4" "length l = 2"
    using t u f l by (simp_all add: u16_length u32_length)
  have n: "readName dec ?b (length pre) = Some ('''', Suc (length pre))"
    using readNameRaw_root [of pre] by (simp add: opt readName_def)
  have rt: "readU16 ?b (Suc (length pre)) = Some TYPE_OPT"
    using readU16_at [OF t, of "Suc (length pre)" "pre @ [0]"] by (simp add: opt)
  have rttl: "readU32 ?b (5 + length pre) = Some (if d then 0x8000 else 0)"
    using readU32_at [OF f, of "5 + length pre" "pre @ [0] @ t @ u" "l @ rdata"] len by (simp add: opt)
  have rl: "readU16 ?b (9 + length pre) = Some (length rdata)"
    using readU16_at [OF l, of "9 + length pre" "pre @ [0] @ t @ u @ f" rdata] len by (simp add: opt)
  have lo: "length opt = 11 + length rdata" using len by (simp add: opt)
  have "TYPE_OPT \<noteq> TYPE_CNAME" "TYPE_OPT \<noteq> TYPE_SOA" by (simp_all add: wire_const_defs)
  then show ?thesis
    using n rt rttl rl lo assms(2,3) by (simp add: parseRR_def rrNegTtl_def rrAnswers_def)
qed

lemma parseRRs_add:
  "parseRRs dec buf an ns i (m + k) s =
     do { s' \<leftarrow> parseRRs dec buf an ns i m s; parseRRs dec buf an ns (i + m) k s' }"
  by (induction m arbitrary: i s) (auto split: bind_splits)

lemma responseFlags_bound: "responseFlags q rcode tc < 65536"
proof -
  have "take_bit 16 (responseFlags q rcode tc) = responseFlags q rcode tc"
    by (simp add: responseFlags_def take_bit_or take_bit_push_bit)
  moreover have "take_bit 16 (responseFlags q rcode tc) < 2 ^ 16" by (rule take_bit_nat_less_exp)
  ultimately show ?thesis by simp
qed

lemma responseFlags_bits:
  "bit (responseFlags q rcode tc) 15" "bit (responseFlags q rcode tc) 9 = tc"
  "bit (responseFlags q rcode tc) 8 = q_rd q" "bit (responseFlags q rcode tc) 4 = q_cd q"
  "take_bit 4 (responseFlags q rcode tc) = take_bit 4 rcode"
  by (simp_all add: responseFlags_def bit_or_iff bit_push_bit_iff bit_take_bit_iff take_bit_or
      take_bit_push_bit bit_Suc_0_iff)

text \<open>The layout of a response: header, question, answers, EDNS record.\<close>

lemma buildResponse_layout:
  assumes name: "host_name name" "q_name q = Some name"
    and qs: "questionFor name qtype qclass = Some qn" "q_question q = Some qn"
    and q: "q_id q < 65536" "ede = None \<or> (\<exists>c. ede = Some c \<and> c < 65536)"
    and as: "\<forall>a \<in> set as. wf_answer a" "length as < 512"
  obtains h e w b opt where
    "buildResponse q rcode as tc ede = Some (h @ e @ w @ b @ opt)" "length h = 12" "length w = 4"
    "encodeLabels (split_on CHR ''.'' name) = Some e" "encodeAnswers (Some name) as = Some b"
    "(case q_edns q of None \<Rightarrow> Some [] | Some e \<Rightarrow> optRecord EDNS_UDP (doBit e) ede) = Some opt"
    "\<forall>rest. readU16 (h @ rest) 0 = Some (q_id q)"
    "\<forall>rest. readU16 (h @ rest) 2 = Some (responseFlags q rcode tc)"
    "\<forall>rest. readU16 (h @ rest) 4 = Some 1" "\<forall>rest. readU16 (h @ rest) 6 = Some (length as)"
    "\<forall>rest. readU16 (h @ rest) 8 = Some 0"
    "\<forall>rest. readU16 (h @ rest) 10 = Some (if q_edns q = None then 0 else 1)"
proof -
  obtain e t c where e: "encodeName name = Some e"
    and tc: "u16 qtype = Some t" "u16 qclass = Some c" and qn: "qn = e @ t @ c"
    using qs(1) by (auto simp: questionFor_def bind_eq_Some_conv)
  have el: "encodeLabels (split_on CHR ''.'' name) = Some e"
    using e host_name_encode [OF name(1)] by metis
  obtain b where b: "encodeAnswers (Some name) as = Some b"
    using encodeAnswers_Some [OF as(1)] by blast
  obtain opt where opt: "(case q_edns q of None \<Rightarrow> Some [] | Some e \<Rightarrow> optRecord EDNS_UDP (doBit e) ede) = Some opt"
    using optRecord_Some [OF q(2)] by (cases "q_edns q") auto
  let ?F = "responseFlags q rcode tc" and ?k = "if q_edns q = None then 0 else 1 :: nat"
  define h where "h = [byte_of (q_id q div 256), byte_of (q_id q), byte_of (?F div 256), byte_of ?F,
     0, 1, byte_of (length as div 256), byte_of (length as), 0, 0, 0, byte_of ?k]"
  have build: "buildResponse q rcode as tc ede = Some (h @ e @ (t @ c) @ b @ opt)"
    using q(1) as(2) opt b name(2) qs(2) responseFlags_bound [of q rcode tc]
    by (simp add: buildResponse_def h_def u16_def qn byte_of_def take_bit_eq_mod)
  have hr: "readU16 (h @ rest) 0 = Some (q_id q)" "readU16 (h @ rest) 2 = Some ?F"
    "readU16 (h @ rest) 4 = Some 1" "readU16 (h @ rest) 6 = Some (length as)"
    "readU16 (h @ rest) 8 = Some 0" "readU16 (h @ rest) 10 = Some ?k" for rest
    using q(1) as(2) responseFlags_bound [of q rcode tc] unfolding h_def
    by (simp_all only: header_reads) (simp_all add: u16_bytes)
  have "length h = 12" "length (t @ c) = 4" using tc by (simp_all add: h_def u16_length)
  with hr show ?thesis using that [OF build _ _ el b opt] by blast
qed

lemma parseResponse_buildResponse:
  assumes dec: "ascii_decoder dec" and name: "host_name name" "q_name q = Some name"
    and qs: "questionFor name qtype qclass = Some qn" "q_question q = Some qn"
    and q: "q_id q < 65536" "ede = None \<or> (\<exists>c. ede = Some c \<and> c < 65536)" and rc: "rcode < 16"
    and as: "\<forall>a \<in> set as. wf_answer a" "length as < 512"
  shows "\<exists>buf r. buildResponse q rcode as tc ede = Some buf \<and> parseResponse dec buf = Some r \<and>
     r_id r = q_id q \<and> r_rcode r = rcode \<and> r_tc r = tc \<and> r_qname r = Some name \<and>
     r_an r = length as \<and> r_minTtl r = foldl min_opt None (map a_ttl as) \<and> r_negTtl r = None \<and>
     r_ttlOffsets r = ttl_places name (length name + 18) as \<and>
     list_all2 (\<lambda>x a. readU32 buf x = Some (a_ttl a)) (r_ttlOffsets r) as \<and>
     (\<exists>ts. r_answers r = map2 parsed_answer as ts \<and> list_all2 target_ok as ts)"
proof -
  obtain h e w b opt where build: "buildResponse q rcode as tc ede = Some (h @ e @ w @ b @ opt)"
    and lh: "length h = 12" and lw: "length w = 4"
    and e: "encodeLabels (split_on CHR ''.'' name) = Some e"
    and b: "encodeAnswers (Some name) as = Some b"
    and opt: "(case q_edns q of None \<Rightarrow> Some [] | Some e \<Rightarrow> optRecord EDNS_UDP (doBit e) ede) = Some opt"
    and hr: "\<forall>rest. readU16 (h @ rest) 0 = Some (q_id q)"
      "\<forall>rest. readU16 (h @ rest) 2 = Some (responseFlags q rcode tc)"
      "\<forall>rest. readU16 (h @ rest) 4 = Some 1" "\<forall>rest. readU16 (h @ rest) 6 = Some (length as)"
      "\<forall>rest. readU16 (h @ rest) 8 = Some 0"
      "\<forall>rest. readU16 (h @ rest) 10 = Some (if q_edns q = None then 0 else 1)"
    by (rule buildResponse_layout [OF name qs q as, where rcode = rcode and tc = tc])
  let ?buf = "h @ e @ w @ b @ opt" and ?k = "if q_edns q = None then 0 else 1 :: nat" and ?pre = "h @ e @ w"
  let ?s0 = "\<lparr>s_pos = length ?pre, s_ttlOffsets = [], s_minTtl = None, s_negTtl = None, s_answers = []\<rparr>"
  have rn: "readName dec ?buf 12 = Some (name, 12 + length e)"
    using readName_host [OF dec name(1) e, of h] lh by simp
  obtain s1 ts where s1: "parseRRs dec ?buf (length as) 0 0 (length as) ?s0 = Some s1"
    "s_pos s1 = length (?pre @ b)" "s_minTtl s1 = foldl min_opt None (map a_ttl as)"
    "s_negTtl s1 = None" "s_answers s1 = map2 parsed_answer as ts" "list_all2 target_ok as ts"
    "s_ttlOffsets s1 = ttl_places name (length ?pre) as"
    "list_all2 (\<lambda>x a. readU32 ?buf x = Some (a_ttl a)) (ttl_places name (length ?pre) as) as"
    using parseRRs_answers [OF dec name(1) e lh as(1) b, of ?pre w 0 "length as" ?s0 opt 0]
    by auto
  have s2: "parseRRs dec ?buf (length as) 0 (length as) ?k s1 = Some (s1\<lparr>s_pos := length ?buf\<rparr>)"
    using parseRR_opt [of _ ede opt s1 "?pre @ b" "length as" 0 "length as" dec] opt s1(2)
    by (cases "q_edns q") auto
  have all: "parseRRs dec ?buf (length as) 0 0 (length as + ?k) ?s0 = Some (s1\<lparr>s_pos := length ?buf\<rparr>)"
    unfolding parseRRs_add s1(1) using s2 by simp
  have "take_bit 4 rcode = rcode" using rc by (simp add: take_bit_eq_mod)
  then have "parseResponse dec ?buf = Some \<lparr>r_id = q_id q, r_rcode = rcode, r_tc = tc,
      r_qname = Some name, r_ttlOffsets = s_ttlOffsets s1, r_minTtl = s_minTtl s1,
      r_negTtl = s_negTtl s1, r_answers = s_answers s1, r_an = length as\<rparr>"
    using hr rn all as(2) lh lw toLower_host [OF name(1)] responseFlags_bits [of q rcode tc]
    by (simp add: parseResponse_def MAX_RR_def)
  moreover have "length ?pre = length name + 18"
    using lh lw encodeLabels_length [OF e] by (simp add: label_size_split)
  ultimately show ?thesis using build s1 by auto
qed

section \<open>Bounds of the readers\<close>

text \<open>
  Whatever the bytes, a name that is read has at most 128 labels of at most 63 bytes, the
  reading position moves forward and stays inside the message.
\<close>

lemma and_c0_less: "b AND 0xc0 = 0 \<Longrightarrow> unat (b :: byte) < 64"
proof -
  assume "b AND 0xc0 = 0"
  moreover have "b = (b AND 0xc0) OR (b AND 0x3f)"
  proof -
    have "(b AND 0xc0) OR (b AND 0x3f) = b AND (0xc0 OR 0x3f)"
      by (simp only: bit.conj_disj_distrib)
    also have "(0xc0 OR 0x3f :: byte) = - 1" by simp
    finally show ?thesis by simp
  qed
  ultimately have "b = take_bit 6 b"
    by (simp add: take_bit_eq_mask mask_eq_exp_minus_1)
  then have "unat b = take_bit 6 (unat b)"
    by (metis unsigned_take_bit_eq)
  also have "\<dots> < 2 ^ 6" by (rule take_bit_nat_less_exp)
  finally show ?thesis by simp
qed

lemma readName_loop_bounds:
  "readName_loop buf pos nxt jumps labels = Some (ls, n) \<Longrightarrow>
   length labels \<le> 128 \<Longrightarrow> \<forall>l \<in> set labels. length l \<le> 63 \<Longrightarrow>
   length ls \<le> 128 \<and> (\<forall>l \<in> set ls. length l \<le> 63) \<and>
   (case nxt of None \<Rightarrow> pos < n \<and> n \<le> length buf | Some m \<Rightarrow> n = m)"
proof (induction buf pos nxt jumps labels arbitrary: ls n rule: readName_loop.induct)
  case (1 buf pos nxt jumps labels)
  show ?case
  proof (cases "length buf \<le> pos \<or> buf ! pos = 0")
    case True
    with 1(3-5) show ?thesis
      by (subst (asm) readName_loop.simps) (auto split: if_splits option.splits)
  next
    case False
    show ?thesis
    proof (cases "buf ! pos AND 0xc0 = 0xc0")
      case True
      with False 1(3) have "pos + 1 < length buf" "jumps + 1 \<le> MAX_JUMPS" and rec:
        "readName_loop buf (push_bit 8 (unat (buf ! pos AND 0x3f)) OR unat (buf ! (pos + 1)))
           (case nxt of None \<Rightarrow> Some (pos + 2) | Some n \<Rightarrow> Some n) (jumps + 1) labels = Some (ls, n)"
        by (auto simp: readName_loop.simps [of buf pos] Let_def split: if_splits)
      with 1(1) [OF _ refl _ True _ _ rec 1(4,5)] False show ?thesis
        by (auto split: option.splits)
    next
      case ptr: False
      with False 1(3) have c0: "buf ! pos AND 0xc0 = 0" and len: "pos + 1 + unat (buf ! pos) \<le> length buf"
        and lab: "length labels + 1 \<le> 128" and rec: "readName_loop buf (pos + 1 + unat (buf ! pos)) nxt jumps
           (labels @ [subarray buf (pos + 1) (pos + 1 + unat (buf ! pos))]) = Some (ls, n)"
        by (auto simp: readName_loop.simps [of buf pos] Let_def split: if_splits)
      have "length (subarray buf (pos + 1) (pos + 1 + unat (buf ! pos))) \<le> 63"
        using len and_c0_less [OF c0] by simp
      with 1(2) [OF _ refl _ ptr _ _ _ rec] False c0 len lab 1(5) show ?thesis
        by (auto split: option.splits)
    qed
  qed
qed

text \<open>
  The names of a message, as RFC 1035 has them: \<open>wire_name buf pos j labels nxt\<close> says that the
  name that starts at \<open>pos\<close> is spelt with \<open>j\<close> compression pointers, has these labels, and that
  the message goes on at \<open>nxt\<close>.
\<close>

inductive wire_name :: "bytes \<Rightarrow> nat \<Rightarrow> nat \<Rightarrow> bytes list \<Rightarrow> nat \<Rightarrow> bool" for buf where
  Root: "pos < length buf \<Longrightarrow> buf ! pos = 0 \<Longrightarrow> wire_name buf pos 0 [] (pos + 1)"
| Label: "pos < length buf \<Longrightarrow> buf ! pos \<noteq> 0 \<Longrightarrow> buf ! pos AND 0xc0 = 0 \<Longrightarrow>
    pos + 1 + unat (buf ! pos) \<le> length buf \<Longrightarrow>
    wire_name buf (pos + 1 + unat (buf ! pos)) j labels nxt \<Longrightarrow>
    wire_name buf pos j (subarray buf (pos + 1) (pos + 1 + unat (buf ! pos)) # labels) nxt"
| Pointer: "pos + 1 < length buf \<Longrightarrow> buf ! pos AND 0xc0 = 0xc0 \<Longrightarrow>
    wire_name buf (push_bit 8 (unat (buf ! pos AND 0x3f)) OR unat (buf ! (pos + 1))) j labels nxt \<Longrightarrow>
    wire_name buf pos (Suc j) labels (pos + 2)"

lemma c0_cases [simp]: "(0 :: byte) AND 0xc0 \<noteq> 0xc0" "(0xc0 :: byte) \<noteq> 0" "(0 :: byte) \<noteq> 0xc0"
  by (simp_all add: word_unat_eq_iff)

text \<open>The loop finds a name exactly when the name needs no more pointers than are left.\<close>

lemma readName_loop_sound:
  "readName_loop buf pos nxt jumps labels = Some (ls, n) \<Longrightarrow> length labels \<le> 128 \<Longrightarrow>
   \<exists>j ls' n'. wire_name buf pos j ls' n' \<and> (j \<noteq> 0 \<longrightarrow> jumps + j \<le> MAX_JUMPS) \<and> ls = labels @ ls' \<and>
     length ls \<le> 128 \<and> n = (case nxt of None \<Rightarrow> n' | Some m \<Rightarrow> m)"
proof (induction buf pos nxt jumps labels arbitrary: ls n rule: readName_loop.induct)
  case (1 buf pos nxt jumps labels)
  show ?case
  proof (cases "length buf \<le> pos \<or> buf ! pos = 0")
    case True
    with 1(3) have "pos < length buf" "buf ! pos = 0"
      "ls = labels" "n = (case nxt of None \<Rightarrow> pos + 1 | Some m \<Rightarrow> m)"
      by (auto simp: readName_loop.simps [of buf pos] split: if_splits)
    with wire_name.Root [of pos buf] 1(4) show ?thesis
      by (intro exI [of _ 0] exI [of _ "[]"] exI [of _ "pos + 1"]) simp
  next
    case False
    show ?thesis
    proof (cases "buf ! pos AND 0xc0 = 0xc0")
      case True
      with False 1(3) have lim: "pos + 1 < length buf" "jumps + 1 \<le> MAX_JUMPS" and rec:
        "readName_loop buf (push_bit 8 (unat (buf ! pos AND 0x3f)) OR unat (buf ! (pos + 1)))
           (case nxt of None \<Rightarrow> Some (pos + 2) | Some n \<Rightarrow> Some n) (jumps + 1) labels = Some (ls, n)"
        by (auto simp: readName_loop.simps [of buf pos] Let_def split: if_splits)
      from 1(1) [OF _ refl _ True _ _ rec 1(4)] False lim obtain j ls' n' where
        w: "wire_name buf (push_bit 8 (unat (buf ! pos AND 0x3f)) OR unat (buf ! (pos + 1))) j ls' n'"
        and "j \<noteq> 0 \<longrightarrow> jumps + 1 + j \<le> MAX_JUMPS" "ls = labels @ ls'" "length ls \<le> 128"
        and n: "n = (case nxt of None \<Rightarrow> pos + 2 | Some m \<Rightarrow> m)"
        by (auto split: option.splits)
      with wire_name.Pointer [OF lim(1) True w] lim(2) show ?thesis
        by (intro exI [of _ "Suc j"] exI [of _ ls'] exI [of _ "pos + 2"]) auto
    next
      case ptr: False
      with False 1(3) have c0: "buf ! pos AND 0xc0 = 0" and len: "pos + 1 + unat (buf ! pos) \<le> length buf"
        and lab: "length labels + 1 \<le> 128" and rec: "readName_loop buf (pos + 1 + unat (buf ! pos)) nxt jumps
           (labels @ [subarray buf (pos + 1) (pos + 1 + unat (buf ! pos))]) = Some (ls, n)"
        by (auto simp: readName_loop.simps [of buf pos] Let_def split: if_splits)
      from 1(2) [OF _ refl _ ptr _ _ _ rec] False c0 len lab obtain j ls' n' where
        w: "wire_name buf (pos + 1 + unat (buf ! pos)) j ls' n'"
        and "j \<noteq> 0 \<longrightarrow> jumps + j \<le> MAX_JUMPS" "length ls \<le> 128" "n = (case nxt of None \<Rightarrow> n' | Some m \<Rightarrow> m)"
        and "ls = (labels @ [subarray buf (pos + 1) (pos + 1 + unat (buf ! pos))]) @ ls'"
        by auto
      with wire_name.Label [OF _ _ c0 len w] False show ?thesis
        by (intro exI [of _ j] exI [of _ "subarray buf (pos + 1) (pos + 1 + unat (buf ! pos)) # ls'"]
            exI [of _ n']) auto
    qed
  qed
qed

lemma readName_loop_complete:
  "wire_name buf pos j ls n \<Longrightarrow> jumps + j \<le> MAX_JUMPS \<Longrightarrow> length labels + length ls \<le> 128 \<Longrightarrow>
   readName_loop buf pos nxt jumps labels = Some (labels @ ls, case nxt of None \<Rightarrow> n | Some m \<Rightarrow> m)"
proof (induction arbitrary: nxt jumps labels rule: wire_name.induct)
  case (Root pos)
  then show ?case by (simp add: readName_loop.simps [of buf pos])
next
  case (Label pos j ls n)
  then show ?case by (simp add: readName_loop.simps [of buf pos])
next
  case (Pointer pos j ls n)
  then have "buf ! pos \<noteq> 0" by auto
  with Pointer show ?case by (simp add: readName_loop.simps [of buf pos] split: option.split)
qed

lemma wire_name_labels: "wire_name buf pos j ls n \<Longrightarrow> \<forall>l \<in> set ls. 0 < length l \<and> length l \<le> 63"
proof (induction rule: wire_name.induct)
  case (Label pos j ls n)
  have "length (subarray buf (pos + 1) (pos + 1 + unat (buf ! pos))) = unat (buf ! pos)"
    using Label.hyps(4) by simp
  moreover have "0 < unat (buf ! pos)" using Label.hyps(2) by (simp add: unat_gt_0)
  ultimately show ?case using and_c0_less [OF Label.hyps(3)] Label.IH by (auto simp del: length_greater_0_conv)
qed simp_all

lemma readNameRaw_iff:
  "readNameRaw buf off = Some (ls, n) \<longleftrightarrow> (\<exists>j \<le> 16. wire_name buf off j ls n \<and> length ls \<le> 128)"
  using readName_loop_sound [of buf off None 0 "[]" ls n] readName_loop_complete [of buf off _ ls n 0 "[]" None]
  by (fastforce simp: readNameRaw_def MAX_JUMPS_def)

section \<open>Adapting a stored response keeps it\<close>

lemma overwrite_length [simp]: "off + length w \<le> length buf \<Longrightarrow> length (overwrite off w buf) = length buf"
  by (simp add: overwrite_def)

lemma overwrite_nth_below: "k < off \<Longrightarrow> off + length w \<le> length buf \<Longrightarrow> overwrite off w buf ! k = buf ! k"
  by (simp add: overwrite_def nth_append)

lemma overwrite_nth_above:
  "off + length w \<le> k \<Longrightarrow> k < length buf \<Longrightarrow> overwrite off w buf ! k = buf ! k"
  by (auto simp: overwrite_def nth_append)

lemma readU32_overwrite:
  "u32 n = Some w \<Longrightarrow> off + 4 \<le> length buf \<Longrightarrow> readU32 (overwrite off w buf) off = Some n"
  using readU32_at [of n w off "take off buf" "drop (off + 4) buf"] u32_length [of n w]
  by (simp add: overwrite_def)

lemma readU16_overwrite:
  "u16 n = Some w \<Longrightarrow> off + 2 \<le> length buf \<Longrightarrow> readU16 (overwrite off w buf) off = Some n"
  using readU16_at [of n w off "take off buf" "drop (off + 2) buf"] u16_length [of n w]
  by (simp add: overwrite_def)

lemma readU32_cong:
  "length a = length b \<Longrightarrow> (\<And>k. off \<le> k \<Longrightarrow> k < off + 4 \<Longrightarrow> a ! k = b ! k) \<Longrightarrow> readU32 a off = readU32 b off"
  by (simp add: readU32_def)

lemma readU16_cong:
  "length a = length b \<Longrightarrow> (\<And>k. off \<le> k \<Longrightarrow> k < off + 2 \<Longrightarrow> a ! k = b ! k) \<Longrightarrow> readU16 a off = readU16 b off"
  by (simp add: readU16_def)

text \<open>Offsets that start at \<open>lo\<close> or later and leave four bytes between each other.\<close>

fun spaced :: "nat \<Rightarrow> nat list \<Rightarrow> bool" where
  "spaced lo [] = True"
| "spaced lo (x # xs) = (lo \<le> x \<and> spaced (x + 4) xs)"

lemma spaced_snoc:
  "spaced lo xs \<Longrightarrow> lo \<le> y \<Longrightarrow> \<forall>x \<in> set xs. x + 4 \<le> y \<Longrightarrow> spaced lo (xs @ [y])"
  by (induction lo xs rule: spaced.induct) auto

lemma spaced_ge: "spaced lo xs \<Longrightarrow> x \<in> set xs \<Longrightarrow> lo \<le> x"
  by (induction lo xs rule: spaced.induct) fastforce+

lemma ageTtls_spaced:
  "spaced lo offs \<Longrightarrow> \<forall>x \<in> set offs. x + 4 \<le> length out \<Longrightarrow>
   \<exists>out'. ageTtls age offs out = Some out' \<and> length out' = length out \<and>
     (\<forall>k < lo. k < length out \<longrightarrow> out' ! k = out ! k) \<and>
     (\<forall>x \<in> set offs. \<exists>t. readU32 out x = Some t \<and> readU32 out' x = Some (t - age))"
proof (induction offs arbitrary: lo out)
  case (Cons x xs)
  have x: "x + 4 \<le> length out" "lo \<le> x" "spaced (x + 4) xs" using Cons.prems by auto
  have "readU32 out x \<noteq> None" using x(1) by (simp add: readU32_def)
  then obtain t where t: "readU32 out x = Some t" "t < 4294967296"
    using readU32_bound by blast
  obtain w where w: "u32 (t - age) = Some w" "length w = 4"
    using t(2) u32_length by (fastforce simp: u32_def)
  let ?o = "overwrite x w out"
  have lo: "length ?o = length out" using x w by simp
  with Cons.IH [OF x(3), of ?o] Cons.prems(2) obtain out' where
    out': "ageTtls age xs ?o = Some out'" "length out' = length out"
    and same: "\<forall>k < x + 4. k < length out \<longrightarrow> out' ! k = ?o ! k"
    and aged: "\<forall>y \<in> set xs. \<exists>t. readU32 ?o y = Some t \<and> readU32 out' y = Some (t - age)"
    by auto
  have "readU32 out' x = readU32 ?o x"
    using same out'(2) lo x by (intro readU32_cong) auto
  then have rx: "readU32 out' x = Some (t - age)"
    using readU32_overwrite [OF w(1) x(1)] by simp
  have ry: "readU32 ?o y = readU32 out y" if "y \<in> set xs" for y
  proof (rule readU32_cong [OF lo])
    fix k assume "y \<le> k" "k < y + 4"
    with that spaced_ge [OF x(3) that] Cons.prems(2) w(2) show "?o ! k = out ! k"
      by (intro overwrite_nth_above) auto
  qed
  have keep: "\<forall>k < lo. k < length out \<longrightarrow> out' ! k = out ! k"
    using same x w by (auto simp: overwrite_nth_below)
  have "ageTtls age (x # xs) out = Some out'"
    using t w out' by (auto simp: not_less)
  then show ?case using out'(2) keep rx ry aged t by auto
qed simp

lemma parseRR_offsets:
  assumes "parseRR dec buf an ns i s = Some s'" "spaced lo (s_ttlOffsets s)" "lo \<le> s_pos s"
    "\<forall>x \<in> set (s_ttlOffsets s). x + 4 \<le> s_pos s" "s_pos s \<le> length buf"
  shows "spaced lo (s_ttlOffsets s') \<and> lo \<le> s_pos s' \<and>
    (\<forall>x \<in> set (s_ttlOffsets s'). x + 4 \<le> s_pos s') \<and> s_pos s' \<le> length buf"
proof -
  from assms(1) obtain name p type rdlen where
      n: "readName dec buf (s_pos s) = Some (name, p)"
    and len: "p + 10 + rdlen \<le> length buf" and pos: "s_pos s' = p + 10 + rdlen"
    and offs: "s_ttlOffsets s' = (if type \<noteq> TYPE_OPT then s_ttlOffsets s @ [p + 4] else s_ttlOffsets s)"
    by (auto simp: parseRR_def Let_def bind_eq_Some_conv not_less split: if_splits)
  from n have "s_pos s < p"
    using readName_loop_bounds [of buf "s_pos s" None 0 "[]"] by (auto simp: readName_def readNameRaw_def)
  then show ?thesis
    using assms(2-5) len pos offs by (auto intro!: spaced_snoc)
qed

lemma parseRRs_offsets:
  "parseRRs dec buf an ns i n s = Some s' \<Longrightarrow> spaced lo (s_ttlOffsets s) \<Longrightarrow> lo \<le> s_pos s \<Longrightarrow>
   \<forall>x \<in> set (s_ttlOffsets s). x + 4 \<le> s_pos s \<Longrightarrow> s_pos s \<le> length buf \<Longrightarrow>
   spaced lo (s_ttlOffsets s') \<and> (\<forall>x \<in> set (s_ttlOffsets s'). x + 4 \<le> length buf)"
proof (induction n arbitrary: i s)
  case (Suc n)
  then obtain s1 where s1: "parseRR dec buf an ns i s = Some s1" "parseRRs dec buf an ns (Suc i) n s1 = Some s'"
    by (auto simp: bind_eq_Some_conv)
  from parseRR_offsets [OF s1(1) Suc.prems(2-5)] Suc.IH [OF s1(2)] show ?case by blast
qed fastforce

text \<open>Where the uncompressed reader accepts a name, the compressing reader ends at the same place.\<close>

lemma question_end:
  "readQuestionName_loop out pos tot acc = Some (ls, e) \<Longrightarrow> length out = length buf \<Longrightarrow>
   \<forall>k \<ge> pos. k < length buf \<longrightarrow> out ! k = buf ! k \<Longrightarrow>
   readName_loop buf pos None j acc' = Some (ls', n) \<Longrightarrow> n = e"
proof (induction out pos tot acc arbitrary: acc' rule: readQuestionName_loop.induct)
  case (1 out pos tot acc)
  have in_range: "pos < length out"
    using 1(2) by (subst (asm) readQuestionName_loop.simps) (auto split: if_splits)
  with 1(3,4) have b: "buf ! pos = out ! pos" by simp
  show ?case
  proof (cases "unat (out ! pos) = 0")
    case True
    then have "out ! pos = 0" by (simp add: word_unat_eq_iff)
    with True b in_range 1(2,3,5) show ?thesis
      by (auto simp: readQuestionName_loop.simps [of out pos] readName_loop.simps [of buf pos])
  next
    case False
    with in_range 1(2) have l: "unat (out ! pos) \<le> 63" "pos + 1 + unat (out ! pos) \<le> length out"
      "tot + unat (out ! pos) + 1 \<le> 255" and rec: "readQuestionName_loop out (pos + 1 + unat (out ! pos))
         (tot + unat (out ! pos) + 1) (acc @ [subarray out (pos + 1) (pos + 1 + unat (out ! pos))]) = Some (ls, e)"
      by (auto simp: readQuestionName_loop.simps [of out pos] Let_def split: if_splits)
    have c0: "buf ! pos AND 0xc0 = 0" using byte_of_and_c0 [of "unat (buf ! pos)"] l(1) b by simp
    moreover have "(0 :: byte) \<noteq> 0xc0" by (simp add: word_unat_eq_iff)
    moreover have "out ! pos \<noteq> 0" using False by auto
    ultimately have "\<exists>acc''. readName_loop buf (pos + 1 + unat (out ! pos)) None j acc'' = Some (ls', n)"
      using 1(5) b in_range 1(3)
      by (auto simp: readName_loop.simps [of buf pos] Let_def split: if_splits)
    with 1(1) [OF _ refl False _ _ _ rec 1(3)] in_range l 1(4) show ?thesis by fastforce
  qed
qed

lemma parseResponse_offsets:
  assumes "parseResponse dec buf = Some r"
  obtains lo where "12 \<le> lo" "spaced lo (r_ttlOffsets r)" "\<forall>x \<in> set (r_ttlOffsets r). x + 4 \<le> length buf"
    "\<forall>w ls e. length w = 2 \<longrightarrow> readU16 buf 4 = Some 1 \<longrightarrow>
       readQuestionName (overwrite 0 w buf) 12 = Some (ls, e) \<longrightarrow> e + 4 \<le> lo" "12 \<le> length buf"
proof -
  from assms obtain an ns ar qd qname pos s where buf: "12 \<le> length buf" and qd: "readU16 buf 4 = Some qd"
    and qn: "(if qd = 1 then do { (n, nxt) \<leftarrow> readName dec buf 12;
          if length buf < nxt + 4 then None else Some (Some (toLower n), nxt + 4) }
        else Some (None, 12)) = Some (qname, pos)"
    and rrs: "parseRRs dec buf an ns 0 (an + ns + ar)
       \<lparr>s_pos = pos, s_ttlOffsets = [], s_minTtl = None, s_negTtl = None, s_answers = []\<rparr> = Some s"
    and r: "r_ttlOffsets r = s_ttlOffsets s"
    by (auto simp: parseResponse_def bind_eq_Some_conv split: if_splits)
  have pos: "12 \<le> pos \<and> pos \<le> length buf \<and> (qd = 1 \<longrightarrow> (\<exists>ls nxt. readNameRaw buf 12 = Some (ls, nxt) \<and> pos = nxt + 4))"
    using qn buf readName_loop_bounds [of buf 12 None 0 "[]"]
    by (fastforce simp: readName_def readNameRaw_def bind_eq_Some_conv split: if_splits)
  have "e + 4 \<le> pos" if w: "length w = 2" and qd1: "readU16 buf 4 = Some 1"
    and e: "readQuestionName (overwrite 0 w buf) 12 = Some (ls, e)" for w :: bytes and ls e
  proof -
    obtain ls' nxt where n: "readName_loop buf 12 None 0 [] = Some (ls', nxt)" "pos = nxt + 4"
      using pos qd1 qd by (auto simp: readNameRaw_def)
    have "\<forall>k \<ge> 12. k < length buf \<longrightarrow> overwrite 0 w buf ! k = buf ! k"
      using w by (auto intro!: overwrite_nth_above)
    with question_end [OF e [unfolded readQuestionName_def] _ _ n(1)] w buf n(2) show ?thesis by simp
  qed
  moreover have "spaced pos (s_ttlOffsets s) \<and> (\<forall>x \<in> set (s_ttlOffsets s). x + 4 \<le> length buf)"
    using parseRRs_offsets [OF rrs, of pos] pos by simp
  ultimately show ?thesis using that [of pos] pos buf r by metis
qed

text \<open>The question step of \<open>adaptResponse\<close> touches nothing before byte 12 and nothing from \<open>lo\<close> on.\<close>

lemma adaptQuestion_frame:
  assumes buf: "6 \<le> length buf" "length out = length buf"
    and lo: "\<forall>ls e. readU16 buf 4 = Some 1 \<longrightarrow> readQuestionName out 12 = Some (ls, e) \<longrightarrow> e + 4 \<le> lo"
  shows "\<exists>out'. adaptQuestion buf out question = Some out' \<and> length out' = length out \<and>
     (\<forall>k < 12. k < length out \<longrightarrow> out' ! k = out ! k) \<and> (\<forall>k \<ge> lo. k < length out \<longrightarrow> out' ! k = out ! k)"
proof -
  have "readU16 buf 4 \<noteq> None" using buf by (simp add: readU16_def)
  then obtain qd where "readU16 buf 4 = Some qd" by blast
  with lo show ?thesis
    by (auto simp: adaptQuestion_def overwrite_nth_below overwrite_nth_above split: option.splits)
qed

lemma adaptResponse_parsed:
  assumes parsed: "parseResponse dec buf = Some r" and qid: "qid < 65536"
  shows "\<exists>out. adaptResponse buf qid question (r_ttlOffsets r) age = Some out \<and>
     length out = length buf \<and> readU16 out 0 = Some qid \<and> readU16 out 2 = readU16 buf 2 \<and>
     (\<forall>x \<in> set (r_ttlOffsets r). \<exists>t. readU32 buf x = Some t \<and> readU32 out x = Some (t - nat age))"
proof -
  obtain lo where lo: "12 \<le> lo" "spaced lo (r_ttlOffsets r)" "\<forall>x \<in> set (r_ttlOffsets r). x + 4 \<le> length buf"
    and q: "\<forall>w ls e. length w = 2 \<longrightarrow> readU16 buf 4 = Some 1 \<longrightarrow>
       readQuestionName (overwrite 0 w buf) 12 = Some (ls, e) \<longrightarrow> e + 4 \<le> lo" and buf: "12 \<le> length buf"
    using parseResponse_offsets [OF parsed] .
  obtain i where i: "u16 (qid AND 0xffff) = Some i" "u16 qid = Some i" "length i = 2"
    using qid by (auto simp: u16_def take_bit_eq_mod)
  let ?out = "overwrite 0 i buf"
  obtain o1 where o1: "adaptQuestion buf ?out question = Some o1" "length o1 = length buf"
    and lows: "\<forall>k < 12. o1 ! k = ?out ! k" and highs: "\<forall>k \<ge> lo. k < length buf \<longrightarrow> o1 ! k = buf ! k"
    using adaptQuestion_frame [of buf ?out lo question] q i(3) buf lo(1)
    by (auto simp: overwrite_nth_above)
  obtain o2 where o2: "ageTtls (nat age) (r_ttlOffsets r) o1 = Some o2" "length o2 = length buf"
    and keep: "\<forall>k < lo. k < length buf \<longrightarrow> o2 ! k = o1 ! k"
    and aged: "\<forall>x \<in> set (r_ttlOffsets r). \<exists>t. readU32 o1 x = Some t \<and> readU32 o2 x = Some (t - nat age)"
    using ageTtls_spaced [OF lo(2), of o1 "nat age"] lo(3) o1(2) by auto
  define out where "out = (if 0 < age then o2 else o1)"
  have "readU32 o1 x = readU32 buf x" if "x \<in> set (r_ttlOffsets r)" for x
    using that highs o1(2) lo(3) spaced_ge [OF lo(2) that] by (intro readU32_cong) auto
  with aged have ttl: "\<forall>x \<in> set (r_ttlOffsets r). \<exists>t. readU32 buf x = Some t \<and> readU32 out x = Some (t - nat age)"
    by (auto simp: out_def)
  have low: "\<forall>k < 12. out ! k = ?out ! k" using keep lows lo(1) buf by (auto simp: out_def)
  have len: "length out = length buf" using o1 o2 by (simp add: out_def)
  have "readU16 out 0 = readU16 ?out 0" using low len i(3) buf by (intro readU16_cong) auto
  also have "\<dots> = Some qid" using readU16_overwrite [OF i(2), of 0 buf] buf by simp
  finally have r0: "readU16 out 0 = Some qid" .
  have r2: "readU16 out 2 = readU16 buf 2"
    using low len i(3) buf by (intro readU16_cong) (auto simp: overwrite_nth_above)
  have "adaptResponse buf qid question (r_ttlOffsets r) age = Some out"
    using buf i o1 o2 by (simp add: adaptResponse_def out_def)
  with len r0 r2 ttl show ?thesis by blast
qed

section \<open>The properties of the message layer\<close>

text \<open>
  C4. Query round trip: for every lower-case host name, identifier, type and class, with and
  without EDNS, \<open>buildQuery\<close> returns a packet and \<open>parseQuery\<close> of that packet returns
  exactly the query it was built from (name, type, class, flags, EDNS fields, raw question).
\<close>

theorem query_roundtrip:
  assumes "host_name name" and "qid < 65536" and "qtype < 65536" and "qclass < 65536"
  shows "\<exists>buf qn. buildQuery qid name qtype qclass ed cd = Some buf \<and>
     questionFor name qtype qclass = Some qn \<and>
     parseQuery buf = Some (expected_query qid name qtype qclass ed cd qn)"
  using assms by (rule parseQuery_buildQuery)

theorem query_roundtrip_witness:
  "\<exists>buf qn. buildQuery 4660 ''ads.example.com'' 28 1 (Some True) False = Some buf \<and>
     questionFor ''ads.example.com'' 28 1 = Some qn \<and>
     parseQuery buf = Some (expected_query 4660 ''ads.example.com'' 28 1 (Some True) False qn)"
proof -
  have "host_name ''ads.example.com''" by code_simp
  then show ?thesis by (rule query_roundtrip) simp_all
qed

text \<open>
  C5. Response round trip: a response that \<open>buildResponse\<close> makes for a parsed question, with
  any list of well-formed answers and any EDNS option, is accepted by \<open>parseResponse\<close>, which
  returns the same identifier, code, truncation flag and question name, every answer in order
  (owner name, also when it was written as the pointer \<open>0xC00C\<close>, type, TTL, data and CNAME
  target), the minimum of the answers' TTLs, and the offsets of the TTLs: one for each answer,
  in order, computed from the layout, and the four bytes there are that answer's TTL (the
  EDNS record has none).
\<close>

theorem response_roundtrip:
  assumes "ascii_decoder dec" and "host_name name" and "q_name q = Some name"
    and "questionFor name qtype qclass = Some qn" and "q_question q = Some qn"
    and "q_id q < 65536" and "ede = None \<or> (\<exists>c. ede = Some c \<and> c < 65536)" and "rcode < 16"
    and "\<forall>a \<in> set as. wf_answer a" and "length as < 512"
  shows "\<exists>buf r. buildResponse q rcode as tc ede = Some buf \<and> parseResponse dec buf = Some r \<and>
     r_id r = q_id q \<and> r_rcode r = rcode \<and> r_tc r = tc \<and> r_qname r = Some name \<and>
     r_an r = length as \<and> r_minTtl r = foldl min_opt None (map a_ttl as) \<and> r_negTtl r = None \<and>
     r_ttlOffsets r = ttl_places name (length name + 18) as \<and>
     list_all2 (\<lambda>x a. readU32 buf x = Some (a_ttl a)) (r_ttlOffsets r) as \<and>
     (\<exists>ts. r_answers r = map2 parsed_answer as ts \<and> list_all2 target_ok as ts)"
  using assms by (rule parseResponse_buildResponse)

theorem response_roundtrip_witness:
  "\<exists>buf r. buildResponse (expected_query 7 ''ads.example.com'' 1 1 (Some False) False
        [3, 97, 100, 115, 7, 101, 120, 97, 109, 112, 108, 101, 3, 99, 111, 109, 0, 0, 1, 0, 1]) 0
        [\<lparr>a_name = ''ads.example.com'', a_type = 1, a_ttl = 60, a_rdata = [0, 0, 0, 0]\<rparr>] False (Some 15)
      = Some buf \<and> parseResponse (map byte_char) buf = Some r \<and> r_id r = 7 \<and> r_minTtl r = Some 60 \<and>
      r_ttlOffsets r = [39] \<and> readU32 buf 39 = Some 60"
proof -
  let ?qn = "[3, 97, 100, 115, 7, 101, 120, 97, 109, 112, 108, 101, 3, 99, 111, 109, 0, 0, 1, 0, 1] :: bytes"
  let ?q = "expected_query 7 ''ads.example.com'' 1 1 (Some False) False ?qn"
  let ?as = "[\<lparr>a_name = ''ads.example.com'', a_type = 1, a_ttl = 60, a_rdata = [0, 0, 0, 0]\<rparr>]"
  have n: "host_name ''ads.example.com''" by code_simp
  have q: "questionFor ''ads.example.com'' 1 1 = Some ?qn" by code_simp
  have a: "\<forall>a \<in> set ?as. wf_answer a" using n by (simp add: wf_answer_def wire_const_defs)
  show ?thesis
    using response_roundtrip [OF ascii_decoder_latin1 n _ q _ _ _ _ a, of ?q "Some 15" 0 False]
    by (auto simp: expected_query_def min_opt_def owner_size_def)
qed

text \<open>
  Serving from the cache: adapting any response that \<open>parseResponse\<close> accepted, with the
  offsets it reported, never throws; the result has the same length and flags, carries the
  client's identifier, and every recorded TTL has become the old TTL minus the age, stopping
  at zero.
\<close>

theorem cached_response_adapts:
  assumes "parseResponse dec buf = Some r" and "qid < 65536"
  shows "\<exists>out. adaptResponse buf qid question (r_ttlOffsets r) age = Some out \<and>
     length out = length buf \<and> readU16 out 0 = Some qid \<and> readU16 out 2 = readU16 buf 2 \<and>
     (\<forall>x \<in> set (r_ttlOffsets r). \<exists>t. readU32 buf x = Some t \<and> readU32 out x = Some (t - nat age))"
  using assms by (rule adaptResponse_parsed)

theorem cached_response_adapts_witness:
  "\<exists>r out. parseResponse (map byte_char)
       [0, 0, 129, 128, 0, 1, 0, 1, 0, 0, 0, 0, 1, 97, 0, 0, 1, 0, 1, 192, 12, 0, 1, 0, 1, 0, 0, 0, 9, 0, 1, 7] = Some r \<and>
     adaptResponse
       [0, 0, 129, 128, 0, 1, 0, 1, 0, 0, 0, 0, 1, 97, 0, 0, 1, 0, 1, 192, 12, 0, 1, 0, 1, 0, 0, 0, 9, 0, 1, 7]
       513 (Some [1, 65, 0, 0, 1, 0, 1]) (r_ttlOffsets r) 4 = Some out \<and>
     r_ttlOffsets r = [25] \<and> readU16 out 0 = Some 513 \<and> readU32 out 25 = Some 5"
proof -
  let ?b = "[0, 0, 129, 128, 0, 1, 0, 1, 0, 0, 0, 0, 1, 97, 0, 0, 1, 0, 1, 192, 12, 0, 1, 0, 1, 0, 0, 0, 9, 0, 1, 7] :: bytes"
  have off: "map_option r_ttlOffsets (parseResponse (map byte_char) ?b) = Some [25]" by code_simp
  then obtain r where r: "parseResponse (map byte_char) ?b = Some r" "r_ttlOffsets r = [25]" by auto
  have t: "readU32 ?b 25 = Some 9" by code_simp
  from cached_response_adapts [OF r(1), of 513 "Some [1, 65, 0, 0, 1, 0, 1]" 4] r(2) t
  obtain out where "adaptResponse ?b 513 (Some [1, 65, 0, 0, 1, 0, 1]) (r_ttlOffsets r) 4 = Some out"
    "readU16 out 0 = Some 513" "readU32 out 25 = Some 5"
    by auto
  with r show ?thesis by blast
qed

text \<open>
  C19. Name reading is exact and bounded: on arbitrary bytes \<open>readName\<close> ends, and it returns the
  labels and the continuation position of a name exactly when the message spells that name
  with at most 16 compression pointers and at most 128 labels; every other name, a pointer
  loop among them, is refused. Every label returned has between 1 and 63 bytes, and the
  continuation position is after the start and inside the message.
\<close>

theorem name_reader_bounds:
  "(readNameRaw buf off = Some (labels, nxt) \<longleftrightarrow>
      (\<exists>j \<le> 16. wire_name buf off j labels nxt \<and> length labels \<le> 128)) \<and>
   (readNameRaw buf off = Some (labels, nxt) \<longrightarrow>
      (\<forall>l \<in> set labels. 0 < length l \<and> length l \<le> 63) \<and> off < nxt \<and> nxt \<le> length buf)"
  using readName_loop_bounds [of buf off None 0 "[]" labels nxt] readNameRaw_iff [of buf off labels nxt]
    wire_name_labels [of buf off _ labels nxt]
  by (auto simp: readNameRaw_def)

theorem name_reader_bounds_witness:
  "readNameRaw [1, 97, 0, 1, 98, 192, 0] 3 = Some ([[98], [97]], 7) \<and>
   length [[98], [97] :: bytes] \<le> 128 \<and> (3 :: nat) < 7 \<and>
   (\<exists>j \<le> 16. wire_name [1, 97, 0, 1, 98, 192, 0] 3 j [[98], [97]] 7)"
proof -
  have r: "readNameRaw [1, 97, 0, 1, 98, 192, 0] 3 = Some ([[98], [97]], 7)" by code_simp
  show ?thesis using name_reader_bounds [of "[1, 97, 0, 1, 98, 192, 0]" 3 "[[98], [97]]" 7] r by auto
qed

end
