(* ===== verification/Dns_Upstream.thy ===== *)
theory Dns_Upstream
  imports Dns_Wire
begin

text \<open>
  Forwarding of allowed queries (\<open>src/src/dns/upstream.js\<close>): the choice of the DoH server
  address, the checks on a DoH answer, classic DNS over UDP and TCP, and the class
  \<open>Upstream\<close> with its circuit breaker and the fallback to the router. The network is a
  parameter: what a connection attempt, a DoH request or a router query answers, and the clock
  at each reading.
\<close>

definition MAX_RESPONSE :: nat where
  "MAX_RESPONSE = 65535"

definition DOWN_AFTER :: nat where
  "DOWN_AFTER = 3"

definition DOWN_MS :: int where
  "DOWN_MS = 60000"

section \<open>The DoH client\<close>

text \<open>The candidates of a new connection: all fixed addresses, the last good one first.\<close>

definition doh_candidates :: "string list \<Rightarrow> nat \<Rightarrow> string option list" where
  "doh_candidates ips ipIndex =
     (if ips = [] then [None] else map (\<lambda>i. Some (ips ! ((ipIndex + i) mod length ips))) [0..<length ips])"

fun try_connect :: "(string option \<Rightarrow> string option) \<Rightarrow> string option list \<Rightarrow> nat \<Rightarrow> string
    \<Rightarrow> string + (nat \<times> string option)" where
  "try_connect refuse [] i err = Inl err"
| "try_connect refuse (c # cs) i err =
     (case refuse c of None \<Rightarrow> Inr (i, c) | Some e \<Rightarrow> try_connect refuse cs (i + 1) e)"

text \<open>\<open>_session\<close> without a live connection: the address reached and the new \<open>ipIndex\<close>.\<close>

definition doh_connect :: "(string option \<Rightarrow> string option) \<Rightarrow> string list \<Rightarrow> nat
    \<Rightarrow> string + (string option \<times> nat)" where
  "doh_connect refuse ips ipIndex =
     (case try_connect refuse (doh_candidates ips ipIndex) 0 ''connect'' of
        Inl e \<Rightarrow> Inl e
      | Inr (i, c) \<Rightarrow> Inr (c, (ipIndex + i) mod max 1 (length ips)))"

text \<open>The request body: the message with id 0.\<close>

definition doh_body :: "bytes \<Rightarrow> bytes option" where
  "doh_body wire = (if length wire < 2 then None else Some (overwrite 0 [0, 0] wire))"

text \<open>The \<open>data\<close> events of a DoH answer, then its \<open>end\<close>.\<close>

fun doh_data :: "bytes list \<Rightarrow> bytes \<Rightarrow> string + bytes" where
  "doh_data [] acc = Inr acc"
| "doh_data (c # cs) acc =
     (if MAX_RESPONSE < length acc + length c then Inl ''too_large'' else doh_data cs (acc @ c))"

definition doh_answer :: "nat \<Rightarrow> bytes list \<Rightarrow> string + bytes" where
  "doh_answer status chunks =
     (case doh_data chunks [] of
        Inl e \<Rightarrow> Inl e
      | Inr out \<Rightarrow>
          if status \<noteq> 200 then Inl ''http_status''
          else if length out < 12 then Inl ''short''
          else Inr out)"

section \<open>Classic DNS\<close>

text \<open>The datagrams \<open>udpQuery\<close> accepts: from the asked address and port, with its id.\<close>

definition udp_accepts :: "string \<Rightarrow> nat \<Rightarrow> nat \<Rightarrow> string \<times> nat \<Rightarrow> bytes \<Rightarrow> bool" where
  "udp_accepts ip port qid rinfo msg =
     (fst rinfo = ip \<and> snd rinfo = port \<and> 12 \<le> length msg \<and> readU16 msg 0 = Some qid)"

definition udp_result :: "string \<Rightarrow> nat \<Rightarrow> nat \<Rightarrow> ((string \<times> nat) \<times> bytes) list \<Rightarrow> string + bytes" where
  "udp_result ip port qid dgrams =
     (case List.find (\<lambda>d. udp_accepts ip port qid (fst d) (snd d)) dgrams of
        None \<Rightarrow> Inl ''timeout'' | Some d \<Rightarrow> Inr (snd d))"

datatype tcp_state = Waiting bytes | Rejected string | Resolved bytes

text \<open>The \<open>data\<close> handler of \<open>tcpQuery\<close>.\<close>

definition tcp_data :: "nat \<Rightarrow> bytes \<Rightarrow> bytes \<Rightarrow> tcp_state" where
  "tcp_data qid buf0 c =
     (let buf = buf0 @ c
      in if MAX_RESPONSE + 2 < length buf then Rejected ''too_large''
         else case readU16 buf 0 of
                None \<Rightarrow> Waiting buf
              | Some n \<Rightarrow>
                  if 2 + n \<le> length buf
                  then let msg = subarray buf 2 (2 + n)
                    in if length msg < 12 \<or> readU16 msg 0 \<noteq> Some qid then Rejected ''mismatch'' else Resolved msg
                  else Waiting buf)"

fun tcp_run :: "nat \<Rightarrow> bytes list \<Rightarrow> tcp_state \<Rightarrow> tcp_state" where
  "tcp_run qid [] s = s"
| "tcp_run qid (c # cs) s =
     (case s of Waiting buf \<Rightarrow> tcp_run qid cs (tcp_data qid buf c) | _ \<Rightarrow> s)"

text \<open>\<open>routerQuery\<close>: UDP, and TCP when the answer was truncated.\<close>

definition routerQuery :: "string + bytes \<Rightarrow> string + bytes \<Rightarrow> string + bytes" where
  "routerQuery udp tcp =
     (case udp of
        Inl e \<Rightarrow> Inl e
      | Inr r \<Rightarrow> (case readU16 r 2 of
                    None \<Rightarrow> Inl ''error''
                  | Some flags \<Rightarrow> if flags AND 0x0200 \<noteq> 0 then tcp else Inr r))"

section \<open>The upstream with its circuit breaker\<close>

datatype via = Via_doh | Via_router | Via_cache

record upstream =
  us_fallbackRouter :: bool
  us_lastOkAt :: "int option"
  us_lastError :: "(int \<times> string) option"
  us_lastFallbackAt :: "int option"
  us_dohFailures :: nat
  us_fallbacks :: nat
  us_dohDownUntil :: int
  us_streak :: nat

definition newUpstream :: "bool \<Rightarrow> upstream" where
  "newUpstream fallbackRouter =
     \<lparr>us_fallbackRouter = fallbackRouter, us_lastOkAt = None, us_lastError = None, us_lastFallbackAt = None,
      us_dohFailures = 0, us_fallbacks = 0, us_dohDownUntil = 0, us_streak = 0\<rparr>"

text \<open>What the network answers during one request, and the clock when asked, after DoH, after the router.\<close>

record world =
  w_t0 :: int
  w_t1 :: int
  w_t2 :: int
  w_doh :: "bytes \<Rightarrow> string + bytes"
  w_routerIp :: "string option"
  w_routerQuery :: "string \<Rightarrow> bytes \<Rightarrow> string + bytes"

definition router_fallback ::
  "world \<Rightarrow> bytes \<Rightarrow> string option \<Rightarrow> string \<Rightarrow> upstream \<Rightarrow> (string + (bytes \<times> via)) \<times> upstream" where
  "router_fallback w wire fromIp err u =
     (case w_routerIp w of
        None \<Rightarrow> (Inl err, u)
      | Some rip \<Rightarrow>
          if \<not> us_fallbackRouter u \<or> Some rip = fromIp then (Inl err, u)
          else case w_routerQuery w rip wire of
                 Inl e \<Rightarrow> (Inl e, u)
               | Inr r \<Rightarrow> (Inr (r, Via_router),
                           u\<lparr>us_fallbacks := us_fallbacks u + 1, us_lastFallbackAt := Some (w_t2 w)\<rparr>))"

definition upstream_query ::
  "world \<Rightarrow> bytes \<Rightarrow> string option \<Rightarrow> upstream \<Rightarrow> (string + (bytes \<times> via)) \<times> upstream" where
  "upstream_query w wire fromIp u =
     (if w_t0 w < us_dohDownUntil u then router_fallback w wire fromIp ''doh_down'' u
      else case w_doh w wire of
             Inr r \<Rightarrow> (Inr (r, Via_doh), u\<lparr>us_lastOkAt := Some (w_t1 w), us_streak := 0\<rparr>)
           | Inl e \<Rightarrow>
               let u1 = u\<lparr>us_dohFailures := us_dohFailures u + 1, us_lastError := Some (w_t1 w, e)\<rparr>;
                   n = us_streak u + 1;
                   u2 = (if DOWN_AFTER \<le> n then u1\<lparr>us_dohDownUntil := w_t1 w + DOWN_MS, us_streak := 0\<rparr>
                         else u1\<lparr>us_streak := n\<rparr>)
               in router_fallback w wire fromIp e u2)"

definition upstream_local :: "world \<Rightarrow> bytes \<Rightarrow> string option \<Rightarrow> string + (bytes \<times> via)" where
  "upstream_local w wire fromIp =
     (case w_routerIp w of
        None \<Rightarrow> Inl ''no_router''
      | Some rip \<Rightarrow>
          if Some rip = fromIp then Inl ''no_router''
          else case w_routerQuery w rip wire of Inl e \<Rightarrow> Inl e | Inr r \<Rightarrow> Inr (r, Via_router))"

section \<open>Properties\<close>

lemma try_connect_Inr:
  "try_connect refuse cs i err = Inr (k, c) \<Longrightarrow>
   i \<le> k \<and> k < i + length cs \<and> c = cs ! (k - i) \<and> refuse c = None \<and> (\<forall>j < k - i. refuse (cs ! j) \<noteq> None)"
proof (induction cs arbitrary: i err)
  case (Cons a cs)
  show ?case
  proof (cases "refuse a")
    case (Some e)
    with Cons.IH [of "i + 1" e] Cons.prems
    have h: "i + 1 \<le> k" "k < i + 1 + length cs" "c = cs ! (k - (i + 1))" "refuse c = None"
      "\<forall>j < k - (i + 1). refuse (cs ! j) \<noteq> None" by auto
    have "k - i = Suc (k - (i + 1))" using h(1) by simp
    moreover have "refuse ((a # cs) ! j) \<noteq> None" if "j < Suc (k - (i + 1))" for j
      using that h(5) Some by (cases j) auto
    ultimately show ?thesis using h by auto
  qed (use Cons.prems in auto)
qed simp

lemma try_connect_Inl: "try_connect refuse cs i err = Inl e \<Longrightarrow> \<forall>c \<in> set cs. refuse c \<noteq> None"
  by (induction cs arbitrary: i err) (auto split: option.splits)

text \<open>Rotating the address list keeps it.\<close>

lemma doh_candidates_set: "ips \<noteq> [] \<Longrightarrow> set (doh_candidates ips i) = Some ` set ips"
proof
  assume ne: "ips \<noteq> []"
  then show "set (doh_candidates ips i) \<subseteq> Some ` set ips" by (auto simp: doh_candidates_def)
  show "Some ` set ips \<subseteq> set (doh_candidates ips i)"
  proof
    fix x assume "x \<in> Some ` set ips"
    then obtain k where k: "k < length ips" "x = Some (ips ! k)" by (auto simp: in_set_conv_nth)
    let ?n = "length ips"
    define j where "j = (k + (?n - i mod ?n)) mod ?n"
    have "(i + j) mod ?n = (i mod ?n + (k + (?n - i mod ?n))) mod ?n"
      by (simp add: j_def mod_add_left_eq mod_add_right_eq)
    also have "i mod ?n + (k + (?n - i mod ?n)) = k + ?n"
    proof -
      have "i mod ?n < ?n" using ne by simp
      then show ?thesis by linarith
    qed
    also have "(k + ?n) mod ?n = k" using k by simp
    finally have "x = Some (ips ! ((i + j) mod ?n))" using k by simp
    moreover have "j < ?n" using ne by (simp add: j_def)
    ultimately show "x \<in> set (doh_candidates ips i)" using ne by (auto simp: doh_candidates_def)
  qed
qed

lemma tcp_data_partial:
  assumes "u16 (length msg) = Some l" "l @ msg = buf @ c @ rest" "rest \<noteq> []"
  shows "tcp_data qid buf c = Waiting (buf @ c)"
proof -
  have len: "length msg < 65536" "length l = 2"
    using assms(1) by (auto simp: u16_def split: if_splits)
  have le: "length (buf @ c) < 2 + length msg"
    using arg_cong [OF assms(2), of length] assms(3) len by (cases rest) auto
  have "readU16 (buf @ c) 0 = None \<or> readU16 (buf @ c) 0 = Some (length msg)"
  proof (cases "2 \<le> length (buf @ c)")
    case True
    have "readU16 ((buf @ c) @ rest) 0 = Some (length msg)"
      using readU16_u16 [OF assms(1), of msg] assms(2) by simp
    with True show ?thesis using readU16_append [of 0 "buf @ c" rest] by simp
  qed (simp add: readU16_def)
  with le len show ?thesis by (auto simp: tcp_data_def Let_def MAX_RESPONSE_def)
qed

lemma tcp_data_complete:
  assumes "u16 (length msg) = Some l" "l @ msg = buf @ c" "12 \<le> length msg" "readU16 msg 0 = Some qid"
  shows "tcp_data qid buf c = Resolved msg"
proof -
  have len: "length msg < 65536" "length l = 2"
    using assms(1) by (auto simp: u16_def split: if_splits)
  have "readU16 (buf @ c) 0 = Some (length msg)"
    using readU16_u16 [OF assms(1), of msg] assms(2) by simp
  moreover have "subarray (buf @ c) 2 (2 + length msg) = msg"
    using len by (simp add: subarray_def flip: assms(2))
  moreover have "length (buf @ c) = 2 + length msg" using len by (simp flip: assms(2))
  ultimately show ?thesis using assms(3,4) len by (simp add: tcp_data_def Let_def MAX_RESPONSE_def)
qed

lemma tcp_run_frame:
  "u16 (length msg) = Some l \<Longrightarrow> 12 \<le> length msg \<Longrightarrow> readU16 msg 0 = Some qid \<Longrightarrow>
   l @ msg = buf @ concat cs \<Longrightarrow> concat cs \<noteq> [] \<Longrightarrow> tcp_run qid cs (Waiting buf) = Resolved msg"
proof (induction cs arbitrary: buf)
  case (Cons c cs)
  show ?case
  proof (cases "concat cs = []")
    case True
    then have r: "tcp_data qid buf c = Resolved msg" using tcp_data_complete [OF Cons.prems(1), of buf c] Cons.prems by simp
    have "tcp_run qid cs (Resolved msg) = Resolved msg" by (cases cs) simp_all
    with r show ?thesis by simp
  next
    case False
    then have "tcp_data qid buf c = Waiting (buf @ c)"
      using tcp_data_partial [OF Cons.prems(1), of buf c "concat cs"] Cons.prems(4) by simp
    with Cons.IH [of "buf @ c"] Cons.prems False show ?thesis by simp
  qed
qed simp

text \<open>
  C6. The forwarder never asks the router a question that came from the router, nor when the
  fallback is switched off: what the router would answer then has no influence on the outcome.
\<close>

theorem no_forwarding_loop:
  "(fromIp = w_routerIp w \<or> \<not> us_fallbackRouter u \<longrightarrow>
      upstream_query (w\<lparr>w_routerQuery := q\<rparr>) wire fromIp u = upstream_query w wire fromIp u) \<and>
   (fromIp = w_routerIp w \<longrightarrow> upstream_local w wire fromIp = Inl ''no_router'')"
  by (auto simp: upstream_query_def upstream_local_def router_fallback_def Let_def split: option.splits sum.splits)

theorem no_forwarding_loop_witness:
  "let w = \<lparr>w_t0 = 5, w_t1 = 6, w_t2 = 7, w_doh = (\<lambda>_. Inl ''timeout''), w_routerIp = Some ''10.0.0.1'',
            w_routerQuery = (\<lambda>_ m. Inr m)\<rparr>
   in upstream_local w [1, 2] (Some ''10.0.0.1'') = Inl ''no_router''"
proof -
  let ?w = "\<lparr>w_t0 = 5, w_t1 = 6, w_t2 = 7, w_doh = (\<lambda>_. Inl ''timeout''), w_routerIp = Some ''10.0.0.1'',
            w_routerQuery = (\<lambda>_ m. Inr m)\<rparr>"
  from no_forwarding_loop [of "Some ''10.0.0.1''" ?w "newUpstream True" undefined "[1, 2]"] show ?thesis
    by (simp add: Let_def)
qed

text \<open>
  A sequence of requests, each with what the world does to it; how many of the latest ones
  failed in a row at the DoH service.
\<close>

type_synonym doh_request = "world \<times> bytes \<times> string option"

definition doh_fails :: "doh_request \<Rightarrow> bool" where
  "doh_fails q = (case q of (w, wire, ip) \<Rightarrow> isl (w_doh w wire))"

definition failures_in_a_row :: "doh_request list \<Rightarrow> nat" where
  "failures_in_a_row qs = length (takeWhile doh_fails (rev qs))"

definition upstream_run :: "doh_request list \<Rightarrow> upstream \<Rightarrow> upstream" where
  "upstream_run qs u = fold (\<lambda>(w, wire, ip) u. snd (upstream_query w wire ip u)) qs u"

lemma failures_in_a_row_simps [simp]:
  "failures_in_a_row [] = 0"
  "failures_in_a_row (qs @ [q]) = (if doh_fails q then failures_in_a_row qs + 1 else 0)"
  by (simp_all add: failures_in_a_row_def)

lemma upstream_run_simps [simp]:
  "upstream_run [] u = u"
  "upstream_run (qs @ [(w, wire, ip)]) u = snd (upstream_query w wire ip (upstream_run qs u))"
  by (simp_all add: upstream_run_def)

lemma router_fallback_breaker:
  "us_streak (snd (router_fallback w wire ip e v)) = us_streak v"
  "us_dohDownUntil (snd (router_fallback w wire ip e v)) = us_dohDownUntil v"
  by (auto simp: router_fallback_def split: option.splits sum.splits)

text \<open>One request from any state: the breaker is closed, or it is open.\<close>

lemma closed_breaker_fail:
  assumes "us_dohDownUntil v \<le> w_t0 w" "w_doh w wire = Inl e"
  shows "us_streak (snd (upstream_query w wire ip v)) = (if 3 \<le> us_streak v + 1 then 0 else us_streak v + 1)"
    and "us_dohDownUntil (snd (upstream_query w wire ip v)) =
       (if 3 \<le> us_streak v + 1 then w_t1 w + 60000 else us_dohDownUntil v)"
  using assms by (auto simp: upstream_query_def Let_def router_fallback_breaker DOWN_AFTER_def DOWN_MS_def)

lemma closed_breaker_ok:
  assumes "us_dohDownUntil v \<le> w_t0 w" "w_doh w wire = Inr r"
  shows "fst (upstream_query w wire ip v) = Inr (r, Via_doh)"
    and "us_streak (snd (upstream_query w wire ip v)) = 0"
    and "us_dohDownUntil (snd (upstream_query w wire ip v)) = us_dohDownUntil v"
  using assms by (simp_all add: upstream_query_def Let_def)

lemma open_breaker:
  assumes "w_t0 w < us_dohDownUntil v"
  shows "upstream_query (w\<lparr>w_doh := d\<rparr>) wire ip v = upstream_query w wire ip v"
    and "us_dohDownUntil (snd (upstream_query w wire ip v)) = us_dohDownUntil v"
  using assms by (auto simp: upstream_query_def router_fallback_def split: option.splits sum.splits)

lemma breaker_counts:
  assumes "us_streak u = 0" and "\<forall>(w, wire, ip) \<in> set qs. us_dohDownUntil u \<le> w_t0 w"
    and "\<forall>i \<le> length qs. failures_in_a_row (take i qs) < 3"
  shows "us_dohDownUntil (upstream_run qs u) = us_dohDownUntil u \<and>
     us_streak (upstream_run qs u) = failures_in_a_row qs"
  using assms(2,3)
proof (induction qs rule: rev_induct)
  case (snoc q qs)
  obtain w wire ip where q: "q = (w, wire, ip)" by (cases q)
  have few: "failures_in_a_row (qs @ [q]) < 3" using snoc.prems(2) [rule_format, of "Suc (length qs)"] by simp
  have "\<forall>i \<le> length qs. failures_in_a_row (take i qs) < 3"
    using snoc.prems(2) by (metis append_Nil2 diff_is_0_eq le_Suc_eq length_append_singleton take0 take_append)
  with snoc have IH: "us_dohDownUntil (upstream_run qs u) = us_dohDownUntil u"
    "us_streak (upstream_run qs u) = failures_in_a_row qs" by auto
  have t: "us_dohDownUntil (upstream_run qs u) \<le> w_t0 w" using IH(1) snoc.prems(1) q by simp
  show ?case
  proof (cases "w_doh w wire")
    case (Inl e)
    with few q have "failures_in_a_row qs + 1 < 3" by (simp add: doh_fails_def)
    with closed_breaker_fail [OF t Inl, of ip] IH Inl q show ?thesis by (simp add: doh_fails_def)
  next
    case (Inr r)
    with closed_breaker_ok [OF t Inr, of ip] IH q show ?thesis by (simp add: doh_fails_def)
  qed
qed (simp add: assms(1))

text \<open>
  C7. The circuit breaker: over any sequence of requests to which the breaker is closed and in
  which no three fail in a row, it stays closed and the count is the number of latest failures
  in a row, so that a success resets it (two failures, a success and a failure do not trip it).
  The request with which three in a row have failed opens it: for a minute the DoH service is
  not asked (its answers have no influence) and the breaker stays as it is; from then on the
  service is asked again. From any state whatever, a success is answered over DoH and sets the
  count to zero.
\<close>

theorem circuit_breaker:
  assumes "us_streak u = 0"
    and "\<forall>(w, wire, ip) \<in> set (qs @ [(w1, wire1, ip1)]). us_dohDownUntil u \<le> w_t0 w"
    and "\<forall>i \<le> length qs. failures_in_a_row (take i qs) < 3"
    and "u' = upstream_run (qs @ [(w1, wire1, ip1)]) u"
  shows "us_dohDownUntil (upstream_run qs u) = us_dohDownUntil u \<and>
    us_streak (upstream_run qs u) = failures_in_a_row qs \<and>
    (failures_in_a_row (qs @ [(w1, wire1, ip1)]) = 3 \<longrightarrow>
       us_dohDownUntil u' = w_t1 w1 + 60000 \<and> us_streak u' = 0 \<and>
       (w_t0 w < w_t1 w1 + 60000 \<longrightarrow>
          upstream_query (w\<lparr>w_doh := d\<rparr>) wire ip u' = upstream_query w wire ip u' \<and>
          us_dohDownUntil (snd (upstream_query w wire ip u')) = us_dohDownUntil u') \<and>
       (w_t1 w1 + 60000 \<le> w_t0 w \<longrightarrow> w_doh w wire = Inr r \<longrightarrow>
          fst (upstream_query w wire ip u') = Inr (r, Via_doh))) \<and>
    (us_dohDownUntil v \<le> w_t0 w \<longrightarrow> w_doh w wire = Inr r \<longrightarrow>
       fst (upstream_query w wire ip v) = Inr (r, Via_doh) \<and>
       us_streak (snd (upstream_query w wire ip v)) = 0 \<and>
       us_dohDownUntil (snd (upstream_query w wire ip v)) = us_dohDownUntil v)"
proof -
  have before: "us_dohDownUntil (upstream_run qs u) = us_dohDownUntil u"
    "us_streak (upstream_run qs u) = failures_in_a_row qs"
    using breaker_counts [OF assms(1) _ assms(3)] assms(2) by auto
  have trip: "us_dohDownUntil u' = w_t1 w1 + 60000 \<and> us_streak u' = 0"
    if "failures_in_a_row (qs @ [(w1, wire1, ip1)]) = 3"
  proof -
    from that obtain e where e: "w_doh w1 wire1 = Inl e" and "failures_in_a_row qs = 2"
      by (auto simp: doh_fails_def isl_def split: if_splits)
    then show ?thesis
      using closed_breaker_fail [OF _ e, of "upstream_run qs u" ip1] before assms(2) by (simp add: assms(4))
  qed
  with before open_breaker(1) [of w u' d wire ip] open_breaker(2) [of w u' wire ip]
    closed_breaker_ok [of u' w wire r ip] closed_breaker_ok [of v w wire r ip]
  show ?thesis by auto
qed

theorem circuit_breaker_witness:
  "let bad = \<lparr>w_t0 = 5, w_t1 = 6, w_t2 = 7, w_doh = (\<lambda>_. Inl ''timeout''), w_routerIp = None,
            w_routerQuery = (\<lambda>_ m. Inr m)\<rparr>;
       good = bad\<lparr>w_doh := \<lambda>_. Inr [1]\<rparr>; q = (\<lambda>w. (w, [], None))
   in us_dohDownUntil (upstream_run (map q [bad, bad, good, bad]) (newUpstream True)) = 0 \<and>
      us_dohDownUntil (upstream_run (map q [bad, bad, good, bad, bad, bad]) (newUpstream True)) = 60006"
proof -
  let ?bad = "\<lparr>w_t0 = 5, w_t1 = 6, w_t2 = 7, w_doh = (\<lambda>_. Inl ''timeout''), w_routerIp = None,
            w_routerQuery = (\<lambda>_ m. Inr m)\<rparr> :: world"
  let ?good = "?bad\<lparr>w_doh := \<lambda>_. Inr [1]\<rparr>" and ?q = "\<lambda>w :: world. (w, [] :: bytes, None :: string option)"
  let ?u = "newUpstream True"
  have few: "\<forall>i \<le> length qs. failures_in_a_row (take i qs) < 3"
    if "qs = map ?q [?bad, ?bad, ?good, ?bad] \<or> qs = map ?q [?bad, ?bad, ?good, ?bad, ?bad]" for qs
    using that by (auto simp: failures_in_a_row_def doh_fails_def le_Suc_eq numeral_eq_Suc)
  have zero: "us_streak ?u = 0" "us_dohDownUntil ?u = 0" by (simp_all add: newUpstream_def)
  have four: "us_dohDownUntil (upstream_run (map ?q [?bad, ?bad, ?good, ?bad]) ?u) = 0"
    using circuit_breaker [OF zero(1) _ few refl, of "map ?q [?bad, ?bad, ?good, ?bad]" ?bad "[]" None] zero(2) by simp
  have six: "us_dohDownUntil (upstream_run (map ?q [?bad, ?bad, ?good, ?bad, ?bad] @ [?q ?bad]) ?u) = 60006"
    using circuit_breaker [OF zero(1) _ few refl, of "map ?q [?bad, ?bad, ?good, ?bad, ?bad]" ?bad "[]" None] zero(2)
    by (simp add: failures_in_a_row_def doh_fails_def)
  from four six show ?thesis by (simp add: Let_def)
qed

text \<open>
  A DNS answer over TCP is read correctly however the network cuts it: when the peer sends the
  two-byte length and a message of at least 12 bytes with the right id, the query resolves with
  exactly that message.
\<close>

theorem tcp_query_reads_frame:
  assumes "u16 (length msg) = Some l" "12 \<le> length msg" "readU16 msg 0 = Some qid" "concat chunks = l @ msg"
  shows "tcp_run qid chunks (Waiting []) = Resolved msg"
  using tcp_run_frame [OF assms(1-3), of "[]" chunks] assms by (cases l) (auto simp: u16_def split: if_splits)

text \<open>
  A new DoH connection tries every fixed address of the provider once, beginning with the last
  good one: it fails only when all refuse, and otherwise remembers the first that accepted.
\<close>

theorem doh_rotation:
  assumes "ips \<noteq> []" "ipIndex < length ips"
  shows "case doh_connect refuse ips ipIndex of
      Inl _ \<Rightarrow> (\<forall>ip \<in> set ips. refuse (Some ip) \<noteq> None)
    | Inr (c, i) \<Rightarrow> i < length ips \<and> c = Some (ips ! i) \<and> refuse c = None \<and>
        (refuse (Some (ips ! ipIndex)) = None \<longrightarrow> i = ipIndex)"
proof (cases "try_connect refuse (doh_candidates ips ipIndex) 0 ''connect''")
  case (Inl e)
  then show ?thesis
    using try_connect_Inl [OF Inl] doh_candidates_set [OF assms(1)] by (simp add: doh_connect_def)
next
  case (Inr kc)
  obtain k c where kc: "kc = (k, c)" by force
  have len: "length (doh_candidates ips ipIndex) = length ips"
    using assms(1) by (simp add: doh_candidates_def)
  have h: "k < length ips" "c = doh_candidates ips ipIndex ! k" "refuse c = None"
    "\<forall>j < k. refuse (doh_candidates ips ipIndex ! j) \<noteq> None"
    using try_connect_Inr [OF Inr [unfolded kc]] by (auto simp: len)
  have c: "doh_candidates ips ipIndex ! j = Some (ips ! ((ipIndex + j) mod length ips))" if "j < length ips" for j
    using assms(1) that by (simp add: doh_candidates_def)
  have "k = 0" if "refuse (Some (ips ! ipIndex)) = None"
    using h(4) c [of 0] assms that by (cases k) auto
  with Inr kc h c [OF h(1)] assms show ?thesis by (auto simp: doh_connect_def max_def Suc_le_eq)
qed

end
