(* ===== verification/Response_Cache.thy ===== *)
theory Response_Cache
  imports Dns_Wire
begin

text \<open>
  The response cache of the DNS filter (\<open>src/src/dns/responseCache.js\<close>): upstream answers
  with an expiry time, least recently used first in the insertion order of the \<open>Map\<close>,
  bounded by number and bytes. The clock \<open>now()\<close> (milliseconds) is an argument.
\<close>

definition MAX_TTL_S :: nat where
  "MAX_TTL_S = 86400"

definition MAX_NEG_TTL_S :: nat where
  "MAX_NEG_TTL_S = 3600"

definition DEFAULT_NEG_TTL_S :: nat where
  "DEFAULT_NEG_TTL_S = 60"

record cache_entry =
  ce_wire :: bytes
  ce_ttlOffsets :: "nat list"
  ce_storedAt :: int
  ce_expires :: int

record response_cache =
  rc_maxEntries :: nat
  rc_maxBytes :: nat
  rc_map :: "(string, cache_entry) jsmap"
  rc_bytes :: int

definition newCache :: "nat \<Rightarrow> nat \<Rightarrow> response_cache" where
  "newCache maxEntries maxBytes =
     \<lparr>rc_maxEntries = maxEntries, rc_maxBytes = maxBytes, rc_map = [], rc_bytes = 0\<rparr>"

definition cache_delete :: "string \<Rightarrow> cache_entry \<Rightarrow> response_cache \<Rightarrow> response_cache" where
  "cache_delete key e c =
     c\<lparr>rc_map := mdelete key (rc_map c), rc_bytes := rc_bytes c - int (length (ce_wire e))\<rparr>"

text \<open>A hit: the entry and its age in whole seconds (\<open>Math.floor\<close>).\<close>

definition cache_get :: "int \<Rightarrow> string \<Rightarrow> response_cache \<Rightarrow> (cache_entry \<times> int) option \<times> response_cache" where
  "cache_get now key c =
     (case map_of (rc_map c) key of
        None \<Rightarrow> (None, c)
      | Some e \<Rightarrow>
          if ce_expires e \<le> now then (None, cache_delete key e c)
          else (Some (e, (now - ce_storedAt e) div 1000),
                c\<lparr>rc_map := mset_at key e (mdelete key (rc_map c))\<rparr>))"

definition ttlFor :: "response \<Rightarrow> nat" where
  "ttlFor meta =
     (if r_tc meta then 0
      else if r_rcode meta = 0 \<and> 0 < r_an meta
      then min MAX_TTL_S (case r_minTtl meta of None \<Rightarrow> 0 | Some t \<Rightarrow> t)
      else if r_rcode meta = 3 \<or> (r_rcode meta = 0 \<and> r_an meta = 0)
      then min MAX_NEG_TTL_S (case r_negTtl meta of None \<Rightarrow> DEFAULT_NEG_TTL_S | Some t \<Rightarrow> t)
      else 0)"

text \<open>
  The eviction loop of \<open>set\<close>, oldest entry first. Taking the first entry of an empty map
  would throw (\<open>None\<close>).
\<close>

fun evict :: "nat \<Rightarrow> nat \<Rightarrow> (string, cache_entry) jsmap \<Rightarrow> int
    \<Rightarrow> ((string, cache_entry) jsmap \<times> int) option" where
  "evict maxEntries maxBytes m bytes =
     (if maxEntries < length m \<or> int maxBytes < bytes
      then case m of
             [] \<Rightarrow> None
           | (k, e) # m' \<Rightarrow> evict maxEntries maxBytes m' (bytes - int (length (ce_wire e)))
      else Some (m, bytes))"

declare evict.simps [simp del]

definition cache_set :: "int \<Rightarrow> string \<Rightarrow> bytes \<Rightarrow> response \<Rightarrow> response_cache \<Rightarrow> (bool \<times> response_cache) option" where
  "cache_set now key wire meta c =
     (let ttl = ttlFor meta
      in if ttl = 0 \<or> rc_maxBytes c < 16 * length wire then Some (False, c)
         else let c1 = (case map_of (rc_map c) key of None \<Rightarrow> c | Some old \<Rightarrow> cache_delete key old c);
                  e = \<lparr>ce_wire = wire, ce_ttlOffsets = r_ttlOffsets meta, ce_storedAt = now,
                       ce_expires = now + int ttl * 1000\<rparr>;
                  m = mset_at key e (rc_map c1)
           in evict (rc_maxEntries c1) (rc_maxBytes c1) m (rc_bytes c1 + int (length wire)) \<bind>
              (\<lambda>(m', bytes). Some (True, c1\<lparr>rc_map := m', rc_bytes := bytes\<rparr>)))"

definition cache_clear :: "response_cache \<Rightarrow> response_cache" where
  "cache_clear c = c\<lparr>rc_map := [], rc_bytes := 0\<rparr>"

section \<open>The invariant\<close>

definition wires :: "(string, cache_entry) jsmap \<Rightarrow> int" where
  "wires m = sum_list (map (\<lambda>ke. int (length (ce_wire (snd ke)))) m)"

definition cache_ok :: "response_cache \<Rightarrow> bool" where
  "cache_ok c = (wf_map (rc_map c) \<and> rc_bytes c = wires (rc_map c)
     \<and> length (rc_map c) \<le> rc_maxEntries c \<and> rc_bytes c \<le> int (rc_maxBytes c))"

lemma wires_simps [simp]:
  "wires [] = 0" "wires (x # m) = int (length (ce_wire (snd x))) + wires m" "wires (m @ n) = wires m + wires n"
  by (simp_all add: wires_def)

lemma wires_ge_0: "0 \<le> wires m"
  by (induction m) simp_all

lemma wf_map_Cons: "wf_map ((k, e) # m) \<longleftrightarrow> k \<notin> fst ` set m \<and> wf_map m"
  by (simp add: wf_map_def)

lemma wires_mdelete:
  "wf_map m \<Longrightarrow> map_of m k = Some e \<Longrightarrow> wires (mdelete k m) = wires m - int (length (ce_wire e))"
proof (induction m)
  case (Cons x m)
  obtain k' e' where x: "x = (k', e')" by force
  show ?case
  proof (cases "k' = k")
    case True
    with Cons.prems x have "k \<notin> fst ` set m" "e' = e" by (auto simp: wf_map_Cons)
    with True x show ?thesis using mdelete_absent [of k m] by (simp add: mdelete_def)
  next
    case False
    with Cons x show ?thesis by (simp add: mdelete_def wf_map_Cons)
  qed
qed simp

lemma length_mdelete:
  "wf_map m \<Longrightarrow> map_of m k = Some e \<Longrightarrow> length (mdelete k m) + 1 = length m"
proof (induction m)
  case (Cons x m)
  then show ?case
    using mdelete_absent [of "fst x" m] by (cases x) (auto simp: mdelete_def wf_map_Cons split: if_splits)
qed simp

lemma cache_delete_ok: "cache_ok c \<Longrightarrow> map_of (rc_map c) k = Some e \<Longrightarrow> cache_ok (cache_delete k e c)"
  using length_mdelete [of "rc_map c" k e]
  by (auto simp: cache_ok_def cache_delete_def wires_mdelete)

lemma mset_at_mdelete: "mset_at k e (mdelete k m) = mdelete k m @ [(k, e)]"
  by (rule mset_at_absent) simp

lemma cache_get_ok: "cache_ok c \<Longrightarrow> cache_ok (snd (cache_get now key c))"
proof (cases "map_of (rc_map c) key")
  case (Some e)
  assume ok: "cache_ok c"
  have "wf_map (mdelete key (rc_map c) @ [(key, e)])"
    using ok wf_map_mset_at [OF wf_map_mdelete] by (metis mset_at_mdelete cache_ok_def)
  with Some ok cache_delete_ok [OF ok Some] length_mdelete [of "rc_map c" key e] show ?thesis
    by (auto simp: cache_get_def cache_ok_def wires_mdelete mset_at_mdelete)
qed (simp add: cache_get_def)

text \<open>Eviction ends within the bounds and keeps the most recent entries.\<close>

lemma evict_total:
  "bytes = wires m \<Longrightarrow> \<exists>m' old. evict n b m bytes = Some (m', wires m') \<and> m = old @ m' \<and>
     length m' \<le> n \<and> wires m' \<le> int b \<and>
     (\<forall>x old'. old = old' @ [x] \<longrightarrow> n < length (x # m') \<or> int b < wires (x # m'))"
proof (induction m arbitrary: bytes)
  case Nil
  then show ?case by (subst evict.simps) simp
next
  case (Cons x m)
  show ?case
  proof (cases "n < length (x # m) \<or> int b < bytes")
    case False
    with Cons.prems show ?thesis
      by (subst evict.simps) (auto intro: exI [of _ "x # m"])
  next
    case True
    obtain k e where x: "x = (k, e)" by force
    from Cons.IH [of "wires m"] obtain m' old where r: "evict n b m (wires m) = Some (m', wires m')"
      "m = old @ m'" "length m' \<le> n" "wires m' \<le> int b"
      "\<forall>x old'. old = old' @ [x] \<longrightarrow> n < length (x # m') \<or> int b < wires (x # m')"
      by blast
    have "evict n b (x # m) bytes = Some (m', wires m')"
      using True Cons.prems x r(1) by (subst evict.simps) simp
    moreover have "\<forall>y old'. x # old = old' @ [y] \<longrightarrow> n < length (y # m') \<or> int b < wires (y # m')"
    proof (intro allI impI)
      fix y old' assume "x # old = old' @ [y]"
      then show "n < length (y # m') \<or> int b < wires (y # m')"
        using True Cons.prems r(2,5) by (cases old') auto
    qed
    ultimately show ?thesis using r by (metis append_Cons)
  qed
qed

lemma evict_ok:
  assumes "evict n b m (wires m) = Some (m', bytes)"
  shows "bytes = wires m'" "length m' \<le> n" "wires m' \<le> int b" "\<exists>old. m = old @ m'"
  using evict_total [OF refl, of n b m] assms by auto

lemma wf_map_suffix: "wf_map (old @ m) \<Longrightarrow> wf_map m"
  by (simp add: wf_map_def)

lemma cache_set_total:
  assumes "cache_ok c"
  shows "\<exists>r c'. cache_set now key wire meta c = Some (r, c') \<and> cache_ok c' \<and>
           rc_maxEntries c' = rc_maxEntries c \<and> rc_maxBytes c' = rc_maxBytes c"
proof (cases "ttlFor meta = 0 \<or> rc_maxBytes c < 16 * length wire")
  case True
  with assms show ?thesis by (auto simp: cache_set_def)
next
  case False
  define c1 where "c1 = (case map_of (rc_map c) key of None \<Rightarrow> c | Some old \<Rightarrow> cache_delete key old c)"
  define e where "e = \<lparr>ce_wire = wire, ce_ttlOffsets = r_ttlOffsets meta, ce_storedAt = now,
      ce_expires = now + int (ttlFor meta) * 1000\<rparr>"
  have ok1: "cache_ok c1" using assms by (auto simp: c1_def cache_delete_ok split: option.splits)
  have max1: "rc_maxEntries c1 = rc_maxEntries c" "rc_maxBytes c1 = rc_maxBytes c"
    by (auto simp: c1_def cache_delete_def split: option.splits)
  have fresh: "key \<notin> fst ` set (rc_map c1)"
    by (auto simp: c1_def cache_delete_def mdelete_def map_of_eq_None_iff split: option.splits)
  have m: "mset_at key e (rc_map c1) = rc_map c1 @ [(key, e)]" using mset_at_absent [OF fresh] .
  have w: "rc_bytes c1 + int (length wire) = wires (rc_map c1 @ [(key, e)])"
    using ok1 by (simp add: cache_ok_def e_def)
  obtain m' where ev: "evict (rc_maxEntries c1) (rc_maxBytes c1) (rc_map c1 @ [(key, e)])
      (wires (rc_map c1 @ [(key, e)])) = Some (m', wires m')"
    using evict_total [OF refl, of "rc_maxEntries c1" "rc_maxBytes c1" "rc_map c1 @ [(key, e)]"] by blast
  have "wf_map m'"
    using evict_ok(4) [OF ev] wf_map_mset_at [of "rc_map c1" key e] ok1 m
    by (metis cache_ok_def wf_map_suffix)
  then have "cache_ok (c1\<lparr>rc_map := m', rc_bytes := wires m'\<rparr>)"
    using evict_ok [OF ev] by (simp add: cache_ok_def)
  moreover have "cache_set now key wire meta c = Some (True, c1\<lparr>rc_map := m', rc_bytes := wires m'\<rparr>)"
    using False ev m w by (simp add: cache_set_def Let_def flip: c1_def e_def)
  ultimately show ?thesis using max1 by auto
qed


section \<open>The cache as a machine\<close>

datatype cache_op = Get int string | Put int string bytes response | Clear

fun cache_step :: "cache_op \<Rightarrow> response_cache \<Rightarrow> response_cache option" where
  "cache_step (Get now key) c = Some (snd (cache_get now key c))"
| "cache_step (Put now key wire meta) c = map_option snd (cache_set now key wire meta c)"
| "cache_step Clear c = Some (cache_clear c)"

definition cache_within :: "nat \<Rightarrow> nat \<Rightarrow> response_cache \<Rightarrow> bool" where
  "cache_within n b c = (cache_ok c \<and> rc_maxEntries c = n \<and> rc_maxBytes c = b)"

lemma cache_get_max:
  "rc_maxEntries (snd (cache_get now key c)) = rc_maxEntries c"
  "rc_maxBytes (snd (cache_get now key c)) = rc_maxBytes c"
  by (auto simp: cache_get_def cache_delete_def split: option.splits)

interpretation cache_machine: total_machine "cache_within n b" cache_step for n b
proof unfold_locales
  fix c r
  assume "cache_within n b c"
  then show "\<exists>c'. cache_step r c = Some c' \<and> cache_within n b c'"
  proof (cases r)
    case (Put now key wire meta)
    with \<open>cache_within n b c\<close> cache_set_total [of c now key wire meta] show ?thesis
      by (fastforce simp: cache_within_def)
  next
    case Clear
    with \<open>cache_within n b c\<close> show ?thesis by (simp add: cache_within_def cache_ok_def cache_clear_def)
  qed (simp add: cache_within_def cache_get_ok cache_get_max)
qed

lemma cache_set_last:
  assumes "cache_ok c" "0 < rc_maxEntries c" "cache_set now key wire meta c = Some (True, c')"
  shows "map_of (rc_map c') key =
    Some \<lparr>ce_wire = wire, ce_ttlOffsets = r_ttlOffsets meta, ce_storedAt = now,
          ce_expires = now + int (ttlFor meta) * 1000\<rparr>"
proof -
  define c1 where "c1 = (case map_of (rc_map c) key of None \<Rightarrow> c | Some old \<Rightarrow> cache_delete key old c)"
  define e where "e = \<lparr>ce_wire = wire, ce_ttlOffsets = r_ttlOffsets meta, ce_storedAt = now,
      ce_expires = now + int (ttlFor meta) * 1000\<rparr>"
  have g: "ttlFor meta \<noteq> 0" "16 * length wire \<le> rc_maxBytes c"
    using assms(3) by (auto simp: cache_set_def Let_def split: if_splits)
  have ok1: "cache_ok c1" using assms(1) by (auto simp: c1_def cache_delete_ok split: option.splits)
  have max1: "rc_maxEntries c1 = rc_maxEntries c" "rc_maxBytes c1 = rc_maxBytes c"
    by (auto simp: c1_def cache_delete_def split: option.splits)
  have fresh: "key \<notin> fst ` set (rc_map c1)"
    by (auto simp: c1_def cache_delete_def mdelete_def map_of_eq_None_iff split: option.splits)
  let ?m = "rc_map c1 @ [(key, e)]"
  have w: "rc_bytes c1 + int (length wire) = wires ?m"
    using ok1 by (simp add: cache_ok_def e_def)
  obtain m' old where ev: "evict (rc_maxEntries c1) (rc_maxBytes c1) ?m (wires ?m) = Some (m', wires m')"
    "?m = old @ m'"
    "\<forall>x old'. old = old' @ [x] \<longrightarrow> rc_maxEntries c1 < length (x # m') \<or> int (rc_maxBytes c1) < wires (x # m')"
    using evict_total [OF refl, of "rc_maxEntries c1" "rc_maxBytes c1" ?m] by blast
  have c': "rc_map c' = m'"
    using assms(3) g ev(1) w mset_at_absent [OF fresh, of e]
    by (auto simp: cache_set_def Let_def simp flip: c1_def e_def)
  have "m' \<noteq> []"
  proof
    assume "m' = []"
    then have "old = rc_map c1 @ [(key, e)]" using ev(2) by simp
    with ev(3) \<open>m' = []\<close> have "rc_maxEntries c1 < 1 \<or> int (rc_maxBytes c1) < int (length wire)"
      by (auto simp: e_def)
    with assms(2) max1 g(2) show False by auto
  qed
  then obtain m0 where m0: "m' = m0 @ [(key, e)]"
    using ev(2) by (metis append_butlast_last_id last_appendR last_snoc)
  then have "rc_map c1 = old @ m0" using ev(2) by simp
  then have "map_of m0 key = None" using fresh by (auto simp: map_of_eq_None_iff)
  with c' m0 show ?thesis by (simp add: e_def map_add_def)
qed

text \<open>
  C8. Whatever sequence of lookups, insertions (of any size) and clears hits the cache, no
  operation ever throws and afterwards the cache is within its limits on entries and bytes, and
  its byte counter is exactly the size of the stored answers.
\<close>

theorem cache_stays_bounded:
  "\<exists>c. run cache_step ops (newCache n b) = Some c \<and> wf_map (rc_map c) \<and>
     length (rc_map c) \<le> n \<and> rc_bytes c \<le> int b \<and>
     rc_bytes c = sum_list (map (\<lambda>ke. int (length (ce_wire (snd ke)))) (rc_map c))"
proof -
  have "cache_within n b (newCache n b)"
    by (simp add: cache_within_def cache_ok_def newCache_def)
  from cache_machine.run_total [OF this, of ops] show ?thesis
    by (auto simp: cache_within_def cache_ok_def wires_def)
qed

lemma age_bounds: "0 \<le> (d :: int) \<Longrightarrow> d < t * 1000 \<Longrightarrow> 0 \<le> d div 1000 \<and> d div 1000 < t"
  by auto

text \<open>
  A stored answer is found again until it expires, unchanged, with an age below its
  lifetime; from its expiry on it is never returned and is removed.
\<close>

theorem cache_get_after_set:
  assumes "cache_ok c" "0 < rc_maxEntries c" "cache_set now key wire meta c = Some (True, c')"
    and "now \<le> later"
  shows "(later < now + int (ttlFor meta) * 1000 \<longrightarrow>
      (\<exists>e age c2. cache_get later key c' = (Some (e, age), c2) \<and> ce_wire e = wire \<and>
         ce_ttlOffsets e = r_ttlOffsets meta \<and> 0 \<le> age \<and> age < int (ttlFor meta) \<and>
         map_of (rc_map c2) = map_of (rc_map c'))) \<and>
    (now + int (ttlFor meta) * 1000 \<le> later \<longrightarrow>
      fst (cache_get later key c') = None \<and> map_of (rc_map (snd (cache_get later key c'))) key = None)"
  using cache_set_last [OF assms(1-3)] assms(4) age_bounds [of "later - now" "int (ttlFor meta)"]
  by (auto simp: cache_get_def cache_delete_def)

theorem cache_get_after_set_witness:
  "\<exists>c'. cache_set 1000 ''k'' [1, 2]
      \<lparr>r_id = 0, r_rcode = 0, r_tc = False, r_qname = None, r_ttlOffsets = [], r_minTtl = Some 5,
       r_negTtl = None, r_answers = [], r_an = 1\<rparr> (newCache 4 64) = Some (True, c') \<and>
     (\<exists>e age c2. cache_get 3500 ''k'' c' = (Some (e, age), c2) \<and> ce_wire e = [1, 2] \<and> age < 5)"
proof -
  let ?meta = "\<lparr>r_id = 0, r_rcode = 0, r_tc = False, r_qname = None, r_ttlOffsets = [], r_minTtl = Some 5,
       r_negTtl = None, r_answers = [], r_an = 1\<rparr>"
  have ok: "cache_ok (newCache 4 64)" "0 < rc_maxEntries (newCache 4 64)"
    by (simp_all add: cache_ok_def newCache_def)
  have t: "ttlFor ?meta = 5" by code_simp
  have "map_option fst (cache_set 1000 ''k'' [1, 2] ?meta (newCache 4 64)) = Some True" by code_simp
  then obtain c' where c': "cache_set 1000 ''k'' [1, 2] ?meta (newCache 4 64) = Some (True, c')"
    by auto
  from cache_get_after_set [OF ok c', of 3500] t c' show ?thesis by auto
qed

end
