(* ===== verification/Dns_Stats.thy ===== *)
theory Dns_Stats
  imports Js_Values "HOL-Library.Multiset" "HOL-Library.List_Lexorder" "HOL-Library.Char_ord"
begin

text \<open>
  The statistics behind the five-minute report of the DNS filter (\<open>src/src/dns/stats.js\<close>):
  counters of the running period, the most blocked names, counters per profile, the clients
  seen; a period whose report fails is merged back. The clock is an argument; the
  locale-dependent order of names (\<open>localeCompare\<close>) is the parameter \<open>collate\<close>.
\<close>

definition MAX_TOP_KEYS :: nat where
  "MAX_TOP_KEYS = 4096"

definition MAX_CLIENTS :: nat where
  "MAX_CLIENTS = 1024"

definition TOP_N :: nat where
  "TOP_N = 20"

record top_entry =
  te_domain :: string
  te_count :: nat
  te_profileId :: "string option"

record counts =
  ct_queries :: nat
  ct_blocked :: nat

record period =
  pe_from :: int
  pe_queries :: nat
  pe_blocked :: nat
  pe_cached :: nat
  pe_msSum :: rat
  pe_top :: "(string, top_entry) jsmap"
  pe_byProfile :: "(string, counts) jsmap"
  pe_clients :: "string list"

definition emptyPeriod :: "int \<Rightarrow> period" where
  "emptyPeriod from = \<lparr>pe_from = from, pe_queries = 0, pe_blocked = 0, pe_cached = 0, pe_msSum = 0,
     pe_top = [], pe_byProfile = [], pe_clients = []\<rparr>"

record totals =
  to_queries :: nat
  to_blocked :: nat
  to_cached :: nat
  to_since :: int

record dns_stats =
  ds_cur :: period
  ds_total :: totals

definition newStats :: "int \<Rightarrow> dns_stats" where
  "newStats now =
     \<lparr>ds_cur = emptyPeriod now, ds_total = \<lparr>to_queries = 0, to_blocked = 0, to_cached = 0, to_since = now\<rparr>\<rparr>"

record sample =
  sm_profileId :: "string option"
  sm_mac :: "string option"
  sm_blocked :: bool
  sm_cached :: bool
  sm_ms :: rat
  sm_domain :: "string option"

text \<open>\<open>b[1].count - a[1].count\<close> is a stable descending sort.\<close>

definition pruneTop :: "(string, top_entry) jsmap \<Rightarrow> (string, top_entry) jsmap" where
  "pruneTop tops = take (MAX_TOP_KEYS * 3 div 4) (sort_key (\<lambda>ke. - int (te_count (snd ke))) tops)"

definition profile_key :: "string option \<Rightarrow> string" where
  "profile_key p = (case p of None \<Rightarrow> [] | Some s \<Rightarrow> s)"

definition count_top :: "string \<Rightarrow> string option \<Rightarrow> (string, top_entry) jsmap \<Rightarrow> (string, top_entry) jsmap" where
  "count_top domain profileId tops =
     (let k = domain @ CHR 0x0A # profile_key profileId
      in case map_of tops k of
           Some e \<Rightarrow> mset_at k (e\<lparr>te_count := te_count e + 1\<rparr>) tops
         | None \<Rightarrow>
             let tops' = mset_at k \<lparr>te_domain = domain, te_count = 1, te_profileId = profileId\<rparr> tops
             in if MAX_TOP_KEYS < length tops' then pruneTop tops' else tops')"

definition count_profile :: "string \<Rightarrow> bool \<Rightarrow> (string, counts) jsmap \<Rightarrow> (string, counts) jsmap" where
  "count_profile k blocked m =
     (let bp = (case map_of m k of None \<Rightarrow> \<lparr>ct_queries = 0, ct_blocked = 0\<rparr> | Some b \<Rightarrow> b)
      in mset_at k \<lparr>ct_queries = ct_queries bp + 1,
                    ct_blocked = (if blocked then ct_blocked bp + 1 else ct_blocked bp)\<rparr> m)"

definition add_client :: "string \<Rightarrow> string list \<Rightarrow> string list" where
  "add_client mac cs = (if length cs < MAX_CLIENTS \<and> mac \<notin> set cs then cs @ [mac] else cs)"

definition record_period :: "sample \<Rightarrow> period \<Rightarrow> period" where
  "record_period s p =
     p\<lparr>pe_queries := pe_queries p + 1,
       pe_msSum := pe_msSum p + sm_ms s,
       pe_cached := (if sm_cached s then pe_cached p + 1 else pe_cached p),
       pe_blocked := (if sm_blocked s then pe_blocked p + 1 else pe_blocked p),
       pe_byProfile := count_profile (profile_key (sm_profileId s)) (sm_blocked s) (pe_byProfile p),
       pe_top := (case sm_domain s of
                    Some d \<Rightarrow> if sm_blocked s \<and> d \<noteq> [] then count_top d (sm_profileId s) (pe_top p) else pe_top p
                  | None \<Rightarrow> pe_top p),
       pe_clients := (case sm_mac s of
                        Some m \<Rightarrow> if m \<noteq> [] then add_client m (pe_clients p) else pe_clients p
                      | None \<Rightarrow> pe_clients p)\<rparr>"

definition record_sample :: "sample \<Rightarrow> dns_stats \<Rightarrow> dns_stats" where
  "record_sample s st =
     st\<lparr>ds_cur := record_period s (ds_cur st),
        ds_total := (ds_total st)
          \<lparr>to_queries := to_queries (ds_total st) + 1,
           to_cached := (if sm_cached s then to_cached (ds_total st) + 1 else to_cached (ds_total st)),
           to_blocked := (if sm_blocked s then to_blocked (ds_total st) + 1 else to_blocked (ds_total st))\<rparr>\<rparr>"

record report_body =
  rb_from :: int
  rb_to :: int
  rb_queries :: nat
  rb_blocked :: nat
  rb_cached :: nat
  rb_avgMs :: "rat option"
  rb_topBlocked :: "top_entry list"
  rb_byProfile :: "(string, counts) jsmap"
  rb_clientsSeen :: "string list"

text \<open>The comparator orders by count, then by name: two stable sorts.\<close>

definition topBlocked :: "(string \<Rightarrow> nat) \<Rightarrow> (string, top_entry) jsmap \<Rightarrow> top_entry list" where
  "topBlocked collate tops =
     take TOP_N (sort_key (\<lambda>e. - int (te_count e)) (sort_key (\<lambda>e. collate (te_domain e)) (map snd tops)))"

definition round10 :: "rat \<Rightarrow> rat" where
  "round10 x = of_int \<lfloor>x * 10 + 1 / 2\<rfloor> / 10"

definition report_of :: "(string \<Rightarrow> nat) \<Rightarrow> int \<Rightarrow> period \<Rightarrow> report_body" where
  "report_of collate to p =
     \<lparr>rb_from = pe_from p, rb_to = to, rb_queries = pe_queries p, rb_blocked = pe_blocked p,
      rb_cached = pe_cached p,
      rb_avgMs = (if pe_queries p = 0 then None else Some (round10 (pe_msSum p / of_nat (pe_queries p)))),
      rb_topBlocked = topBlocked collate (pe_top p),
      rb_byProfile = filter (\<lambda>kv. fst kv \<noteq> []) (pe_byProfile p),
      rb_clientsSeen = sort (pe_clients p)\<rparr>"

definition takePeriod :: "(string \<Rightarrow> nat) \<Rightarrow> int \<Rightarrow> dns_stats \<Rightarrow> (report_body \<times> period) \<times> dns_stats" where
  "takePeriod collate now st = ((report_of collate now (ds_cur st), ds_cur st), st\<lparr>ds_cur := emptyPeriod now\<rparr>)"

definition merge_top :: "(string, top_entry) jsmap \<Rightarrow> string \<times> top_entry \<Rightarrow> (string, top_entry) jsmap" where
  "merge_top tops kv =
     (case map_of tops (fst kv) of
        Some e \<Rightarrow> mset_at (fst kv) (e\<lparr>te_count := te_count e + te_count (snd kv)\<rparr>) tops
      | None \<Rightarrow> mset_at (fst kv) (snd kv) tops)"

definition merge_profile :: "(string, counts) jsmap \<Rightarrow> string \<times> counts \<Rightarrow> (string, counts) jsmap" where
  "merge_profile m kv =
     (case map_of m (fst kv) of
        Some e \<Rightarrow> mset_at (fst kv) \<lparr>ct_queries = ct_queries e + ct_queries (snd kv),
                                    ct_blocked = ct_blocked e + ct_blocked (snd kv)\<rparr> m
      | None \<Rightarrow> mset_at (fst kv) (snd kv) m)"

definition giveBack :: "period \<Rightarrow> dns_stats \<Rightarrow> dns_stats" where
  "giveBack old st =
     (let c = ds_cur st;
          tops = foldl merge_top (pe_top c) (pe_top old)
      in st\<lparr>ds_cur := c\<lparr>pe_from := min (pe_from c) (pe_from old),
            pe_queries := pe_queries c + pe_queries old,
            pe_blocked := pe_blocked c + pe_blocked old,
            pe_cached := pe_cached c + pe_cached old,
            pe_msSum := pe_msSum c + pe_msSum old,
            pe_top := (if MAX_TOP_KEYS < length tops then pruneTop tops else tops),
            pe_byProfile := foldl merge_profile (pe_byProfile c) (pe_byProfile old),
            pe_clients := foldl (\<lambda>cs m. add_client m cs) (pe_clients c) (pe_clients old)\<rparr>\<rparr>)"

section \<open>The invariant of a period\<close>

definition top_sum :: "(string, top_entry) jsmap \<Rightarrow> nat" where
  "top_sum m = sum_list (map (\<lambda>kv. te_count (snd kv)) m)"

definition prof_sum :: "(counts \<Rightarrow> nat) \<Rightarrow> (string, counts) jsmap \<Rightarrow> nat" where
  "prof_sum f m = sum_list (map (\<lambda>kv. f (snd kv)) m)"

definition period_ok :: "period \<Rightarrow> bool" where
  "period_ok p =
     (wf_map (pe_byProfile p) \<and> prof_sum ct_queries (pe_byProfile p) = pe_queries p \<and>
      prof_sum ct_blocked (pe_byProfile p) = pe_blocked p \<and> pe_blocked p \<le> pe_queries p \<and>
      pe_cached p \<le> pe_queries p \<and> wf_map (pe_top p) \<and> length (pe_top p) \<le> MAX_TOP_KEYS \<and>
      top_sum (pe_top p) \<le> pe_blocked p \<and> distinct (pe_clients p) \<and> length (pe_clients p) \<le> MAX_CLIENTS)"

text \<open>Replacing one value of a map changes a sum over it by the difference.\<close>

lemma sum_mset_at:
  fixes f :: "'v \<Rightarrow> nat"
  shows "wf_map m \<Longrightarrow> sum_list (map (\<lambda>kv. f (snd kv)) (mset_at k v m)) +
      (case map_of m k of None \<Rightarrow> 0 | Some w \<Rightarrow> f w) = sum_list (map (\<lambda>kv. f (snd kv)) m) + f v"
  by (induction k v m rule: mset_at.induct) (auto simp: wf_map_def split: option.splits)

lemma sum_take_sort_le:
  fixes f :: "'a \<Rightarrow> nat"
  shows "sum_list (map f (take n (sort_key g xs))) \<le> sum_list (map f xs)"
proof -
  have "sum_list (map f (take n ys)) \<le> sum_list (map f ys)" for ys
    by (metis append_take_drop_id le_add1 map_append sum_list_append)
  moreover have "sum_list (map f (sort_key g xs)) = sum_list (map f xs)"
    unfolding sum_mset_sum_list [symmetric] mset_map mset_sort ..
  ultimately show ?thesis by metis
qed

lemma pruneTop_ok:
  assumes "wf_map m"
  shows "wf_map (pruneTop m)" "length (pruneTop m) \<le> MAX_TOP_KEYS" "top_sum (pruneTop m) \<le> top_sum m"
proof -
  have "distinct (map fst (sort_key g m))" for g :: "string \<times> top_entry \<Rightarrow> int"
    using assms unfolding wf_map_def by (metis distinct_map_filter distinct_map distinct_sort set_sort)
  then show "wf_map (pruneTop m)"
    by (simp add: pruneTop_def wf_map_def take_map [symmetric])
qed (simp_all add: pruneTop_def MAX_TOP_KEYS_def top_sum_def sum_take_sort_le)

lemma count_top_ok:
  assumes "wf_map m" "length m \<le> MAX_TOP_KEYS"
  shows "wf_map (count_top d p m) \<and> length (count_top d p m) \<le> MAX_TOP_KEYS \<and>
    top_sum (count_top d p m) \<le> top_sum m + 1"
proof -
  define k where "k = d @ CHR 0x0A # profile_key p"
  show ?thesis
  proof (cases "map_of m k")
    case (Some e)
    then have "k \<in> fst ` set m" by (metis map_of_eq_None_iff option.distinct(1))
    with Some assms sum_mset_at [OF assms(1), of te_count k "e\<lparr>te_count := te_count e + 1\<rparr>"] show ?thesis
      by (simp add: count_top_def k_def [symmetric] Let_def length_mset_at_present top_sum_def)
  next
    case None
    let ?m = "mset_at k \<lparr>te_domain = d, te_count = 1, te_profileId = p\<rparr> m"
    have w: "wf_map ?m" "top_sum ?m = top_sum m + 1"
      using assms(1) sum_mset_at [OF assms(1), of te_count k] None by (auto simp: top_sum_def)
    show ?thesis
      using None w pruneTop_ok [OF w(1)] by (simp add: count_top_def k_def [symmetric] Let_def)
  qed
qed

lemma sum_mset_at_new:
  fixes f :: "'v \<Rightarrow> nat"
  assumes "wf_map m" "map_of m k = None"
  shows "sum_list (map (\<lambda>kv. f (snd kv)) (mset_at k v m)) = sum_list (map (\<lambda>kv. f (snd kv)) m) + f v"
  using sum_mset_at [OF assms(1), of f k v] assms(2) by simp

lemma sum_mset_at_add:
  fixes f :: "'v \<Rightarrow> nat"
  assumes "wf_map m" "map_of m k = Some w" "f v = f w + d"
  shows "sum_list (map (\<lambda>kv. f (snd kv)) (mset_at k v m)) = sum_list (map (\<lambda>kv. f (snd kv)) m) + d"
  using sum_mset_at [OF assms(1), of f k v] assms(2,3) by simp

lemma count_profile_ok:
  assumes "wf_map m"
  shows "wf_map (count_profile k b m)" "prof_sum ct_queries (count_profile k b m) = prof_sum ct_queries m + 1"
    "prof_sum ct_blocked (count_profile k b m) = prof_sum ct_blocked m + (if b then 1 else 0)"
proof -
  define bp where "bp = (case map_of m k of None \<Rightarrow> \<lparr>ct_queries = 0, ct_blocked = 0\<rparr> | Some b \<Rightarrow> b)"
  define v where "v = \<lparr>ct_queries = ct_queries bp + 1, ct_blocked = (if b then ct_blocked bp + 1 else ct_blocked bp)\<rparr>"
  have e: "count_profile k b m = mset_at k v m" by (simp add: count_profile_def v_def bp_def Let_def)
  show "wf_map (count_profile k b m)" using assms by (simp add: e)
  show "prof_sum ct_queries (count_profile k b m) = prof_sum ct_queries m + 1"
    using sum_mset_at [OF assms, of ct_queries k v] by (cases "map_of m k") (simp_all add: e prof_sum_def v_def bp_def)
  show "prof_sum ct_blocked (count_profile k b m) = prof_sum ct_blocked m + (if b then 1 else 0)"
    unfolding e using sum_mset_at [OF assms, of ct_blocked k v]
    by (cases "map_of m k"; cases b) (simp_all add: prof_sum_def v_def bp_def)
qed

lemma add_client_ok:
  "distinct cs \<Longrightarrow> length cs \<le> MAX_CLIENTS \<Longrightarrow>
   distinct (add_client m cs) \<and> length (add_client m cs) \<le> MAX_CLIENTS"
  by (auto simp: add_client_def)

lemma record_period_ok:
  assumes "period_ok p"
  shows "period_ok (record_period s p)"
proof -
  have p: "wf_map (pe_byProfile p)" "prof_sum ct_queries (pe_byProfile p) = pe_queries p"
    "prof_sum ct_blocked (pe_byProfile p) = pe_blocked p" "pe_blocked p \<le> pe_queries p"
    "pe_cached p \<le> pe_queries p" "wf_map (pe_top p)" "length (pe_top p) \<le> MAX_TOP_KEYS"
    "top_sum (pe_top p) \<le> pe_blocked p" "distinct (pe_clients p)" "length (pe_clients p) \<le> MAX_CLIENTS"
    using assms by (auto simp: period_ok_def)
  let ?q = "record_period s p"
  note bp = count_profile_ok [OF p(1)]
  have t: "wf_map (pe_top ?q) \<and> length (pe_top ?q) \<le> MAX_TOP_KEYS \<and> top_sum (pe_top ?q) \<le> pe_blocked ?q"
  proof (cases "sm_domain s")
    case (Some d)
    show ?thesis using count_top_ok [OF p(6,7), of d "sm_profileId s"] p(6-8) by (auto simp: record_period_def Some)
  qed (use p(6-8) in \<open>simp add: record_period_def\<close>)
  have c: "distinct (pe_clients ?q) \<and> length (pe_clients ?q) \<le> MAX_CLIENTS"
    using add_client_ok [OF p(9,10)] p(9,10) by (cases "sm_mac s") (auto simp: record_period_def)
  have n: "pe_blocked ?q \<le> pe_queries ?q" "pe_cached ?q \<le> pe_queries ?q"
    using p(4,5) by (auto simp: record_period_def)
  have b: "wf_map (pe_byProfile ?q)" "prof_sum ct_queries (pe_byProfile ?q) = pe_queries ?q"
    "prof_sum ct_blocked (pe_byProfile ?q) = pe_blocked ?q"
    using bp p(2,3) by (auto simp: record_period_def)
  show ?thesis using t c n b by (simp add: period_ok_def)
qed

lemma merge_profile_ok:
  "wf_map m \<Longrightarrow> wf_map (foldl merge_profile m kvs) \<and>
   prof_sum ct_queries (foldl merge_profile m kvs) = prof_sum ct_queries m + prof_sum ct_queries kvs \<and>
   prof_sum ct_blocked (foldl merge_profile m kvs) = prof_sum ct_blocked m + prof_sum ct_blocked kvs"
proof (induction kvs arbitrary: m)
  case (Cons kv kvs)
  have "wf_map (merge_profile m kv) \<and>
     prof_sum ct_queries (merge_profile m kv) = prof_sum ct_queries m + ct_queries (snd kv) \<and>
     prof_sum ct_blocked (merge_profile m kv) = prof_sum ct_blocked m + ct_blocked (snd kv)"
    using Cons.prems
    by (cases "map_of m (fst kv)") (simp_all add: merge_profile_def prof_sum_def sum_mset_at_new sum_mset_at_add)
  with Cons.IH [of "merge_profile m kv"] show ?case by (simp add: prof_sum_def)
qed (simp add: prof_sum_def)

lemma merge_top_ok:
  "wf_map m \<Longrightarrow> wf_map (foldl merge_top m kvs) \<and> top_sum (foldl merge_top m kvs) = top_sum m + top_sum kvs"
proof (induction kvs arbitrary: m)
  case (Cons kv kvs)
  have "wf_map (merge_top m kv) \<and> top_sum (merge_top m kv) = top_sum m + te_count (snd kv)"
    using Cons.prems
    by (cases "map_of m (fst kv)") (simp_all add: merge_top_def top_sum_def sum_mset_at_new sum_mset_at_add)
  with Cons.IH [of "merge_top m kv"] show ?case by (simp add: top_sum_def)
qed (simp add: top_sum_def)

lemma add_clients_ok:
  "distinct cs \<Longrightarrow> length cs \<le> MAX_CLIENTS \<Longrightarrow>
   distinct (foldl (\<lambda>cs m. add_client m cs) cs ms) \<and> length (foldl (\<lambda>cs m. add_client m cs) cs ms) \<le> MAX_CLIENTS"
  by (induction ms arbitrary: cs) (auto simp: add_client_ok)

lemma giveBack_ok:
  assumes "period_ok (ds_cur st)" "period_ok old"
  shows "period_ok (ds_cur (giveBack old st))"
proof -
  let ?c = "ds_cur st"
  let ?tops = "foldl merge_top (pe_top ?c) (pe_top old)"
  have c: "wf_map (pe_byProfile ?c)" "wf_map (pe_top ?c)" "distinct (pe_clients ?c)" "length (pe_clients ?c) \<le> MAX_CLIENTS"
    using assms by (auto simp: period_ok_def)
  note m = merge_profile_ok [OF c(1), of "pe_byProfile old"]
  note t = merge_top_ok [OF c(2), of "pe_top old"]
  have "top_sum ?tops \<le> pe_blocked ?c + pe_blocked old"
    using t assms by (auto simp: period_ok_def)
  with pruneTop_ok [of ?tops] t have
    "wf_map (if MAX_TOP_KEYS < length ?tops then pruneTop ?tops else ?tops)"
    "length (if MAX_TOP_KEYS < length ?tops then pruneTop ?tops else ?tops) \<le> MAX_TOP_KEYS"
    "top_sum (if MAX_TOP_KEYS < length ?tops then pruneTop ?tops else ?tops) \<le> pe_blocked ?c + pe_blocked old"
    by auto
  with m add_clients_ok [OF c(3,4), of "pe_clients old"] assms show ?thesis
    by (simp add: giveBack_def Let_def period_ok_def)
qed

section \<open>Nothing is lost\<close>

text \<open>
  The reporter at work: samples arrive at any time; \<open>report()\<close> takes the period, sends it and,
  when the server does not accept it, gives it back. The ledger keeps what was delivered and
  what is under way.
\<close>

datatype stats_event = Sample sample | Send int | Delivered | Failed

record ledger =
  lg_stats :: dns_stats
  lg_sending :: "period option"
  lg_delivered :: "report_body list"

fun stats_step :: "(string \<Rightarrow> nat) \<Rightarrow> stats_event \<Rightarrow> ledger \<Rightarrow> ledger option" where
  "stats_step collate (Sample s) l = Some (l\<lparr>lg_stats := record_sample s (lg_stats l)\<rparr>)"
| "stats_step collate (Send now) l =
     (case lg_sending l of
        Some _ \<Rightarrow> Some l
      | None \<Rightarrow> let ((body, p), st) = takePeriod collate now (lg_stats l)
                in Some (l\<lparr>lg_stats := st, lg_sending := Some p, lg_delivered := body # lg_delivered l\<rparr>))"
| "stats_step collate Delivered l = Some (l\<lparr>lg_sending := None\<rparr>)"
| "stats_step collate Failed l =
     (case lg_sending l of
        None \<Rightarrow> Some l
      | Some p \<Rightarrow> Some (l\<lparr>lg_stats := giveBack p (lg_stats l), lg_sending := None,
                          lg_delivered := tl (lg_delivered l)\<rparr>))"

text \<open>
  \<open>lg_delivered\<close> includes the report under way at its head; the totals since start are the sum
  of all delivered reports and the running period.
\<close>

definition ledger_ok :: "ledger \<Rightarrow> bool" where
  "ledger_ok l =
     (period_ok (ds_cur (lg_stats l)) \<and>
      (case lg_sending l of None \<Rightarrow> True
       | Some p \<Rightarrow> period_ok p \<and> lg_delivered l \<noteq> [] \<and> rb_queries (hd (lg_delivered l)) = pe_queries p \<and>
           rb_blocked (hd (lg_delivered l)) = pe_blocked p \<and> rb_cached (hd (lg_delivered l)) = pe_cached p) \<and>
      to_queries (ds_total (lg_stats l)) = pe_queries (ds_cur (lg_stats l)) + sum_list (map rb_queries (lg_delivered l)) \<and>
      to_blocked (ds_total (lg_stats l)) = pe_blocked (ds_cur (lg_stats l)) + sum_list (map rb_blocked (lg_delivered l)) \<and>
      to_cached (ds_total (lg_stats l)) = pe_cached (ds_cur (lg_stats l)) + sum_list (map rb_cached (lg_delivered l)))"

lemma emptyPeriod_ok [simp]: "period_ok (emptyPeriod t)"
  by (simp add: period_ok_def emptyPeriod_def prof_sum_def top_sum_def)

lemma ledger_step: "ledger_ok l \<Longrightarrow> \<exists>l'. stats_step collate e l = Some l' \<and> ledger_ok l'"
proof (cases e)
  case (Sample s)
  assume "ledger_ok l"
  with Sample record_period_ok [of "ds_cur (lg_stats l)" s] show ?thesis
    by (auto simp: ledger_ok_def record_sample_def record_period_def split: option.splits)
next
  case (Send now)
  assume "ledger_ok l"
  with Send show ?thesis
    by (cases "lg_sending l")
      (auto simp: ledger_ok_def takePeriod_def report_of_def emptyPeriod_def period_ok_def prof_sum_def top_sum_def)
next
  case Failed
  assume ok: "ledger_ok l"
  show ?thesis
  proof (cases "lg_sending l")
    case (Some p)
    with ok obtain b bs where "lg_delivered l = b # bs" by (cases "lg_delivered l") (auto simp: ledger_ok_def)
    with Failed ok Some giveBack_ok [of "lg_stats l" p] show ?thesis
      by (auto simp: ledger_ok_def giveBack_def Let_def)
  qed (use Failed ok in auto)
qed (auto simp: ledger_ok_def)

interpretation stats_machine: total_machine ledger_ok "stats_step collate" for collate
  using ledger_step by unfold_locales

text \<open>
  C10. No query is lost or counted twice in the reports: after any interleaving of samples,
  reports, deliveries and failures, the totals since start are the sum of all delivered reports
  (and the one under way) plus the running period, for queries, blocked and cached alike; and
  the running period is consistent: the per-profile counters add up, and the lists of names and
  clients are within their limits.
\<close>

theorem reports_conserve_counts:
  "\<exists>l. run (stats_step collate) events
       \<lparr>lg_stats = newStats now, lg_sending = None, lg_delivered = []\<rparr> = Some l \<and>
     to_queries (ds_total (lg_stats l)) = pe_queries (ds_cur (lg_stats l)) + sum_list (map rb_queries (lg_delivered l)) \<and>
     to_blocked (ds_total (lg_stats l)) = pe_blocked (ds_cur (lg_stats l)) + sum_list (map rb_blocked (lg_delivered l)) \<and>
     to_cached (ds_total (lg_stats l)) = pe_cached (ds_cur (lg_stats l)) + sum_list (map rb_cached (lg_delivered l)) \<and>
     period_ok (ds_cur (lg_stats l))"
proof -
  have "ledger_ok \<lparr>lg_stats = newStats now, lg_sending = None, lg_delivered = []\<rparr>"
    by (simp add: ledger_ok_def newStats_def emptyPeriod_def period_ok_def prof_sum_def top_sum_def)
  from stats_machine.run_total [OF this, of collate events] show ?thesis
    by (auto simp: ledger_ok_def)
qed

end
