(* ===== verification/Dns_Resolver.thy ===== *)
theory Dns_Resolver
  imports Dns_Policy Dns_Upstream Response_Cache Dns_Stats
begin

text \<open>
  The path of one query through the filter (\<open>src/src/dns/resolver.js\<close>): parse, find the
  client, decide, answer blocked names, redirect safe searches, forward the rest through the
  cache. One request runs to its end before the next one starts; the sharing of concurrent
  identical upstream requests (\<open>inflight\<close>) is therefore not visible here. The reply is
  \<open>None\<close> when the handler throws, \<open>Some None\<close> when the message is dropped.
\<close>

section \<open>State and environment\<close>

definition MAX_CHAIN :: nat where
  "MAX_CHAIN = 8"

definition SAFE_CNAME_TTL :: nat where
  "SAFE_CNAME_TTL = 300"

definition BLOCK_TTL :: nat where
  "BLOCK_TTL = 60"

definition MAX_LOG :: nat where
  "MAX_LOG = 2000"

definition TYPE_NAMES :: "(nat \<times> string) list" where
  "TYPE_NAMES = [(1, ''A''), (2, ''NS''), (5, ''CNAME''), (6, ''SOA''), (12, ''PTR''), (15, ''MX''),
     (16, ''TXT''), (28, ''AAAA''), (41, ''OPT''), (65, ''HTTPS''), (255, ''ANY'')]"

definition typeName :: "nat \<Rightarrow> string" where
  "typeName t = (case map_of TYPE_NAMES t of Some n \<Rightarrow> n | None \<Rightarrow> ''TYPE'' @ dec_string t)"

record log_entry =
  le_at :: int
  le_mac :: "string option"
  le_ip :: "string option"
  le_name :: string
  le_type :: string
  le_block :: bool
  le_reason :: reason
  le_profileId :: "string option"
  le_list :: "string option"
  le_category :: "string option"
  le_cached :: bool
  le_via :: "via option"
  le_ms :: rat

record resolver =
  rs_cache :: response_cache
  rs_log :: "log_entry list"
  rs_stats :: dns_stats
  rs_upstream :: upstream

text \<open>
  The surroundings of one request: the policy and switches in force, the neighbour table, the
  clock, the time the request took, and the network.
\<close>

record renv =
  re_policy :: policy
  re_localTime :: "rat \<Rightarrow> local_time"
  re_nxdomain :: bool
  re_logEnabled :: bool
  re_macFor :: "string \<Rightarrow> string option"
  re_now :: int
  re_ms :: rat
  re_world :: world
  re_dec :: "bytes \<Rightarrow> string"

definition isLoopback :: "string \<Rightarrow> bool" where
  "isLoopback ip = (ip = ''127.0.0.1'' \<or> ip = ''::1'' \<or> prefix ''127.'' ip)"

definition clearLog :: "resolver \<Rightarrow> resolver" where
  "clearLog rs = rs\<lparr>rs_log := []\<rparr>"

definition add_log :: "bool \<Rightarrow> log_entry \<Rightarrow> resolver \<Rightarrow> resolver" where
  "add_log enabled e rs =
     (if \<not> enabled then rs
      else let l = rs_log rs @ [e] in rs\<lparr>rs_log := drop (length l - MAX_LOG) l\<rparr>)"

section \<open>Answers\<close>

definition blockedAnswers :: "query \<Rightarrow> string \<Rightarrow> answer list" where
  "blockedAnswers q name =
     (if q_qtype q = Some TYPE_A
      then [\<lparr>a_name = name, a_type = TYPE_A, a_ttl = BLOCK_TTL, a_rdata = replicate 4 0\<rparr>] else []) @
     (if q_qtype q = Some TYPE_AAAA
      then [\<lparr>a_name = name, a_type = TYPE_AAAA, a_ttl = BLOCK_TTL, a_rdata = replicate 16 0\<rparr>] else [])"

definition blockedReply :: "bool \<Rightarrow> query \<Rightarrow> string \<Rightarrow> decision \<Rightarrow> bytes option" where
  "blockedReply nxdomain q name d =
     (if dc_nxdomain d \<or> nxdomain
      then buildResponse q RCODE_NXDOMAIN [] False (Some EDE_BLOCKED)
      else buildResponse q RCODE_NOERROR (blockedAnswers q name) False (Some EDE_BLOCKED))"

section \<open>Forwarding\<close>

record forwarded =
  fw_wire :: bytes
  fw_ttlOffsets :: "nat list"
  fw_ageSec :: int
  fw_cached :: bool
  fw_via :: via

definition flag :: "bool \<Rightarrow> char" where
  "flag b = (if b then CHR ''1'' else CHR ''0'')"

definition cacheKey :: "bool \<Rightarrow> nat \<Rightarrow> nat \<Rightarrow> string \<Rightarrow> bool option \<Rightarrow> bool \<Rightarrow> string" where
  "cacheKey loc qtype qclass name ed cd =
     (if loc then CHR ''L'' else CHR ''U'') # CHR ''|'' # dec_string qtype @ CHR ''|'' # dec_string qclass @
     CHR ''|'' # name @ [CHR ''|'', flag (ed \<noteq> None), flag (ed = Some True), flag cd]"

definition forward ::
  "renv \<Rightarrow> string \<Rightarrow> nat \<Rightarrow> nat \<Rightarrow> bool option \<Rightarrow> bool \<Rightarrow> bool \<Rightarrow> string option \<Rightarrow> resolver
   \<Rightarrow> forwarded option \<times> resolver" where
  "forward env name qtype qclass ed cd loc ip rs =
     (let key = cacheKey loc qtype qclass name ed cd
      in case cache_get (re_now env) key (rs_cache rs) of
           (Some (e, age), c) \<Rightarrow>
             (Some \<lparr>fw_wire = ce_wire e, fw_ttlOffsets = ce_ttlOffsets e, fw_ageSec = age, fw_cached = True,
                    fw_via = Via_cache\<rparr>, rs\<lparr>rs_cache := c\<rparr>)
         | (None, c) \<Rightarrow>
             let rs1 = rs\<lparr>rs_cache := c\<rparr>; w = re_world env
             in case buildQuery 0 name qtype qclass ed cd of
                  None \<Rightarrow> (None, rs1)
                | Some query \<Rightarrow>
                    (case (if loc then (upstream_local w query ip, rs_upstream rs1)
                           else upstream_query w query ip (rs_upstream rs1)) of
                       (Inl _, u) \<Rightarrow> (None, rs1\<lparr>rs_upstream := u\<rparr>)
                     | (Inr (wire, via), u) \<Rightarrow>
                         let rs2 = rs1\<lparr>rs_upstream := u\<rparr>
                         in case parseResponse (re_dec env) wire of
                              None \<Rightarrow> (None, rs2)
                            | Some meta \<Rightarrow>
                                (case cache_set (w_t2 w) key wire meta (rs_cache rs2) of
                                   None \<Rightarrow> (None, rs2)
                                 | Some (_, c2) \<Rightarrow>
                                     (Some \<lparr>fw_wire = wire, fw_ttlOffsets = r_ttlOffsets meta, fw_ageSec = 0,
                                            fw_cached = False, fw_via = via\<rparr>, rs2\<lparr>rs_cache := c2\<rparr>))))"

section \<open>Safe search\<close>

definition aged :: "nat \<Rightarrow> int \<Rightarrow> nat" where
  "aged ttl age = nat (max 0 (int ttl - age))"

definition cname_of :: "resp_answer list \<Rightarrow> string \<Rightarrow> resp_answer option" where
  "cname_of as cur =
     List.find (\<lambda>a. a_name a = cur \<and> a_type a = TYPE_CNAME \<and> a_target a \<noteq> None \<and> a_target a \<noteq> Some []) as"

text \<open>The chain of aliases from \<open>cur\<close>, at most \<open>n\<close> links: the answers and the final name.\<close>

fun cname_chain :: "nat \<Rightarrow> resp_answer list \<Rightarrow> int \<Rightarrow> string \<Rightarrow> (answer list \<times> string) option" where
  "cname_chain 0 as age cur = Some ([], cur)"
| "cname_chain (Suc n) as age cur =
     (case cname_of as cur of
        None \<Rightarrow> Some ([], cur)
      | Some c \<Rightarrow> do {
          rd \<leftarrow> encodeName (the (a_target c));
          (rest, last) \<leftarrow> cname_chain n as age (the (a_target c));
          Some (\<lparr>a_name = cur, a_type = TYPE_CNAME, a_ttl = aged (a_ttl c) age, a_rdata = rd\<rparr> # rest, last)
        })"

definition safeAnswers :: "response \<Rightarrow> int \<Rightarrow> string \<Rightarrow> string \<Rightarrow> nat \<Rightarrow> answer list option" where
  "safeAnswers meta age qname target qtype = do {
     rd \<leftarrow> encodeName target;
     (chain, cur) \<leftarrow> cname_chain MAX_CHAIN (r_answers meta) age target;
     Some (\<lparr>a_name = qname, a_type = TYPE_CNAME, a_ttl = SAFE_CNAME_TTL, a_rdata = rd\<rparr> # chain @
           map (\<lambda>a. \<lparr>a_name = cur, a_type = a_type a, a_ttl = aged (a_ttl a) age, a_rdata = a_rdata a\<rparr>)
             (filter (\<lambda>a. a_name a = cur \<and> a_type a = qtype) (r_answers meta)))
   }"

text \<open>The reply, whether it came from the cache, and by which way.\<close>

definition safeSearchReply ::
  "renv \<Rightarrow> query \<Rightarrow> string \<Rightarrow> nat \<Rightarrow> string \<Rightarrow> string option \<Rightarrow> resolver
   \<Rightarrow> (bytes \<times> bool \<times> via) option \<times> resolver" where
  "safeSearchReply env q name qtype target ip rs =
     (case forward env target qtype CLASS_IN (map_option doBit (q_edns q)) (q_cd q) False ip rs of
        (None, rs') \<Rightarrow> (None, rs')
      | (Some r, rs') \<Rightarrow>
          ((case parseResponse (re_dec env) (fw_wire r) of
              None \<Rightarrow> buildResponse q RCODE_SERVFAIL [] False None
            | Some meta \<Rightarrow>
                if r_rcode meta \<noteq> RCODE_NOERROR then buildResponse q (r_rcode meta) [] False None
                else safeAnswers meta (fw_ageSec r) name target qtype \<bind>
                     (\<lambda>as. buildResponse q RCODE_NOERROR as False None)) \<bind>
           (\<lambda>out. Some (out, fw_cached r, fw_via r)), rs'))"

section \<open>The handler\<close>

definition forwardReply ::
  "renv \<Rightarrow> query \<Rightarrow> string \<Rightarrow> nat \<Rightarrow> bool \<Rightarrow> string option \<Rightarrow> resolver
   \<Rightarrow> (bytes \<times> bool \<times> via) option \<times> resolver" where
  "forwardReply env q name qtype loc ip rs =
     (case forward env name qtype CLASS_IN (map_option doBit (q_edns q)) (q_cd q) loc ip rs of
        (None, rs') \<Rightarrow> (None, rs')
      | (Some r, rs') \<Rightarrow>
          (adaptResponse (fw_wire r) (q_id q) (q_question q) (fw_ttlOffsets r) (fw_ageSec r) \<bind>
           (\<lambda>out. Some (out, fw_cached r, fw_via r)), rs'))"

text \<open>The body of the \<open>try\<close> block; \<open>None\<close> leads to its \<open>catch\<close>.\<close>

definition resolve ::
  "renv \<Rightarrow> query \<Rightarrow> string \<Rightarrow> nat \<Rightarrow> decision \<Rightarrow> string option \<Rightarrow> resolver
   \<Rightarrow> (bytes \<times> bool \<times> via option) option \<times> resolver" where
  "resolve env q name qtype d ip rs =
     (if dc_block d
      then (map_option (\<lambda>out. (out, False, None)) (blockedReply (re_nxdomain env) q name d), rs)
      else case dc_safeSearch d of
             Some target \<Rightarrow>
               if qtype = TYPE_A \<or> qtype = TYPE_AAAA
               then (case safeSearchReply env q name qtype target ip rs of
                       (r, rs') \<Rightarrow> (map_option (\<lambda>(out, c, v). (out, c, Some v)) r, rs'))
               else (map_option (\<lambda>out. (out, False, None)) (buildResponse q RCODE_NOERROR [] False None), rs)
           | None \<Rightarrow>
               (case forwardReply env q name qtype (dc_local d) ip rs of
                  (r, rs') \<Rightarrow> (map_option (\<lambda>(out, c, v). (out, c, Some v)) r, rs')))"

definition maxUdp :: "query \<Rightarrow> bool \<Rightarrow> nat option" where
  "maxUdp q udp =
     (if \<not> udp then None
      else Some (case q_edns q of Some e \<Rightarrow> min (udpSize e) 4096 | None \<Rightarrow> 512))"

definition fitUdp :: "(bytes \<Rightarrow> string) \<Rightarrow> query \<Rightarrow> bool \<Rightarrow> bytes \<Rightarrow> bytes option" where
  "fitUdp dec q udp out =
     (case maxUdp q udp of
        None \<Rightarrow> Some out
      | Some mx \<Rightarrow>
          if mx < length out
          then buildResponse q (case parseResponse dec out of Some meta \<Rightarrow> r_rcode meta | None \<Rightarrow> RCODE_NOERROR)
                 [] True None
          else Some out)"

definition answer_query ::
  "renv \<Rightarrow> query \<Rightarrow> string \<Rightarrow> nat \<Rightarrow> string option \<Rightarrow> bool \<Rightarrow> resolver \<Rightarrow> bytes option option \<times> resolver" where
  "answer_query env q name qtype ip udp rs =
     (let mac = (case ip of None \<Rightarrow> None | Some a \<Rightarrow> if isLoopback a then None else re_macFor env a);
          d = decide (re_localTime env) (re_policy env) name mac (of_int (re_now env));
          (r, rs1) = resolve env q name qtype d ip rs
      in case (case r of Some (out, cached, via) \<Rightarrow> Some (out, cached, via)
               | None \<Rightarrow> map_option (\<lambda>out. (out, False, None)) (buildResponse q RCODE_SERVFAIL [] False None)) of
           None \<Rightarrow> (None, rs1)
         | Some (out, cached, via) \<Rightarrow>
             (case fitUdp (re_dec env) q udp out of
                None \<Rightarrow> (None, rs1)
              | Some out' \<Rightarrow>
                  let st = record_sample \<lparr>sm_profileId = dc_profileId d, sm_mac = mac, sm_blocked = dc_block d,
                             sm_cached = cached, sm_ms = re_ms env,
                             sm_domain = (if dc_block d then Some name else None)\<rparr> (rs_stats rs1);
                      e = \<lparr>le_at = re_now env, le_mac = mac, le_ip = ip, le_name = name, le_type = typeName qtype,
                           le_block = dc_block d, le_reason = dc_reason d, le_profileId = dc_profileId d,
                           le_list = dc_list d, le_category = dc_category d, le_cached = cached, le_via = via,
                           le_ms = round10 (re_ms env)\<rparr>
                  in (Some (Some out'), add_log (re_logEnabled env) e (rs1\<lparr>rs_stats := st\<rparr>))))"

definition handle ::
  "renv \<Rightarrow> bytes \<Rightarrow> string option \<Rightarrow> bool \<Rightarrow> resolver \<Rightarrow> bytes option option \<times> resolver" where
  "handle env msg ip udp rs =
     (case parseQuery msg of
        None \<Rightarrow> (Some None, rs)
      | Some q \<Rightarrow>
          if q_opcode q \<noteq> 0 then (map_option Some (buildResponse q RCODE_NOTIMP [] False None), rs)
          else if q_question q = None then (map_option Some (buildResponse q RCODE_FORMERR [] False None), rs)
          else case (q_name q, q_qtype q) of
                 (Some name, Some qtype) \<Rightarrow>
                   if q_qclass q \<noteq> Some CLASS_IN \<or> \<not> q_nameOk q
                   then (map_option Some (buildResponse q RCODE_REFUSED [] False None), rs)
                   else answer_query env q name qtype ip udp rs
               | _ \<Rightarrow> (map_option Some (buildResponse q RCODE_REFUSED [] False None), rs))"


section \<open>Bounds of a parsed query\<close>

lemma readQuestionName_loop_end:
  "readQuestionName_loop buf pos tot acc = Some (ls, e) \<Longrightarrow> tot \<le> 255 \<Longrightarrow> pos < e \<and> e + tot \<le> pos + 256"
proof (induction buf pos tot acc rule: readQuestionName_loop.induct)
  case (1 buf pos tot acc)
  show ?case
  proof (cases "unat (buf ! pos) = 0")
    case True
    with "1.prems" show ?thesis
      by (auto simp: readQuestionName_loop.simps [of buf pos] Let_def split: if_splits)
  next
    case False
    with "1.prems"(1) have g: "pos < length buf" "unat (buf ! pos) \<le> 63" "pos + 1 + unat (buf ! pos) \<le> length buf"
      "tot + unat (buf ! pos) + 1 \<le> 255"
      and r: "readQuestionName_loop buf (pos + 1 + unat (buf ! pos)) (tot + unat (buf ! pos) + 1)
        (acc @ [subarray buf (pos + 1) (pos + 1 + unat (buf ! pos))]) = Some (ls, e)"
      by (auto simp: readQuestionName_loop.simps [of buf pos] Let_def split: if_splits)
    from "1.IH" [OF _ refl False _ _ _ r g(4)] g show ?thesis by auto
  qed
qed

lemma scanAdditional_size:
  "scanAdditional n buf pos e = Some (Some e') \<Longrightarrow> (\<forall>x. e = Some x \<longrightarrow> 512 \<le> udpSize x) \<Longrightarrow> 512 \<le> udpSize e'"
proof (induction n arbitrary: pos e)
  case (Suc n)
  show ?case
  proof (cases pos)
    case None
    with Suc.prems show ?thesis by simp
  next
    case (Some p)
    with Suc.prems(1) obtain ls nxt where nm: "readNameRaw buf p = Some (ls, nxt)"
      by (auto simp: bind_eq_Some_conv)
    show ?thesis
    proof (cases "length buf < nxt + 10")
      case True
      with Suc.prems Some nm show ?thesis by simp
    next
      case False
      with Suc.prems(1) Some nm obtain e2 pos' where r: "scanAdditional n buf pos' e2 = Some (Some e')"
        and e2: "e2 = e \<or> (\<exists>sz d v. e2 = Some \<lparr>udpSize = max 512 sz, doBit = d, version = v\<rparr>)"
        by (fastforce simp: bind_eq_Some_conv split: if_splits)
      show ?thesis using Suc.IH [OF r] e2 Suc.prems(2) by auto
    qed
  qed
qed simp

lemma parseQuery_cases:
  assumes "parseQuery msg = Some q"
  shows "readU16 msg 0 = Some (q_id q) \<and>
    (q_question q = None \<and> q_edns q = None \<or>
     (\<exists>ls e ar pos. readQuestionName msg 12 = Some (ls, e) \<and> e + 4 \<le> length msg \<and>
        q_question q = Some (subarray msg 12 (e + 4)) \<and> scanAdditional ar msg pos None = Some (q_edns q)))"
  using assms unfolding parseQuery_def Let_def
  by (auto split: if_splits option.splits Option.bind_split_asm)

lemma parseQuery_bounds:
  assumes "parseQuery msg = Some q"
  shows "readU16 msg 0 = Some (q_id q)" "q_id q < 65536"
    "q_question q = Some qs \<Longrightarrow> length qs \<le> 260" "q_edns q = Some e \<Longrightarrow> 512 \<le> udpSize e"
proof -
  note c = parseQuery_cases [OF assms]
  then show r: "readU16 msg 0 = Some (q_id q)" by blast
  then show "q_id q < 65536" by (rule readU16_bound)
  show "length qs \<le> 260" if "q_question q = Some qs"
  proof -
    from c that obtain ls e where "readQuestionName msg 12 = Some (ls, e)" "qs = subarray msg 12 (e + 4)"
      "e + 4 \<le> length msg" by auto
    with readQuestionName_loop_end [of msg 12 0 "[]" ls e] have "e \<le> 268" "length qs = e + 4 - 12"
      by (simp_all add: readQuestionName_def)
    then show ?thesis by linarith
  qed
  show "512 \<le> udpSize e" if "q_edns q = Some e"
  proof -
    from c that obtain ar pos where "scanAdditional ar msg pos None = Some (Some e)" by auto
    from scanAdditional_size [OF this] show ?thesis by simp
  qed
qed

lemma buildResponse_id:
  assumes "buildResponse q rc as tc ede = Some out" "q_id q < 65536"
  shows "readU16 out 0 = Some (q_id q)"
proof -
  obtain i rest where "u16 (q_id q) = Some i" "out = i @ rest"
    using assms by (auto simp: buildResponse_def bind_eq_Some_conv take_bit_eq_mod)
  with readU16_u16 show ?thesis by blast
qed

lemma buildResponse_empty:
  assumes "q_id q < 65536" "\<And>qs. q_question q = Some qs \<Longrightarrow> length qs \<le> 260"
  shows "\<exists>out. buildResponse q rc [] tc None = Some out \<and> length out \<le> 289"
proof -
  have u: "\<exists>w. u16 n = Some w \<and> length w = 2" if "n < 65536" for n using that by (simp add: u16_def)
  obtain opt where opt: "(case q_edns q of None \<Rightarrow> Some [] | Some e \<Rightarrow> optRecord EDNS_UDP (doBit e) None) = Some opt"
    using optRecord_Some [of None] by (cases "q_edns q") auto
  have lo: "length opt \<le> 17"
    using opt optRecord_length [of _ None opt] by (auto split: option.splits)
  obtain i where i: "u16 (q_id q AND 0xffff) = Some i" "length i = 2"
    using u [of "q_id q"] assms(1) by (auto simp: take_bit_eq_mod)
  obtain f where f: "u16 (responseFlags q rc tc) = Some f" "length f = 2"
    using u [OF responseFlags_bound] by blast
  obtain z o1 where b: "u16 0 = Some z" "length z = 2" "u16 1 = Some o1" "length o1 = 2"
    using u [of 0] u [of 1] by auto
  show ?thesis
  proof (cases "q_question q")
    case None
    with i f b opt lo show ?thesis by (auto simp: buildResponse_def)
  next
    case (Some qs)
    with i f b opt lo assms(2) [OF Some] show ?thesis by (auto simp: buildResponse_def)
  qed
qed

section \<open>The resolver's invariant\<close>

definition entry_ok :: "(bytes \<Rightarrow> string) \<Rightarrow> cache_entry \<Rightarrow> bool" where
  "entry_ok dec e = (\<exists>meta. parseResponse dec (ce_wire e) = Some meta \<and> ce_ttlOffsets e = r_ttlOffsets meta)"

definition entries_ok :: "(bytes \<Rightarrow> string) \<Rightarrow> response_cache \<Rightarrow> bool" where
  "entries_ok dec c = (cache_ok c \<and> (\<forall>ke \<in> set (rc_map c). entry_ok dec (snd ke)))"

definition resolver_ok :: "(bytes \<Rightarrow> string) \<Rightarrow> resolver \<Rightarrow> bool" where
  "resolver_ok dec rs =
     (entries_ok dec (rs_cache rs) \<and> length (rs_log rs) \<le> MAX_LOG)"

lemma cache_get_entries: "set (rc_map (snd (cache_get now key c))) \<subseteq> set (rc_map c)"
proof (cases "map_of (rc_map c) key")
  case (Some e)
  have "(key, e) \<in> set (rc_map c)" using Some by (rule map_of_SomeD)
  with Some set_mset_at [of key e "mdelete key (rc_map c)"] show ?thesis
    by (auto simp: cache_get_def cache_delete_def mdelete_def)
qed (simp add: cache_get_def)

lemma cache_get_mem: "cache_get now key c = (Some (e, age), c') \<Longrightarrow> (key, e) \<in> set (rc_map c)"
  by (auto simp: cache_get_def dest: map_of_SomeD split: option.splits if_splits)

lemma evict_subset: "evict n b m bytes = Some (m', bytes') \<Longrightarrow> set m' \<subseteq> set m"
proof (induction m arbitrary: bytes)
  case Nil
  then show ?case by (auto simp: evict.simps [of n b "[]"] split: if_splits)
next
  case (Cons x m)
  obtain k e where "x = (k, e)" by force
  with Cons show ?case by (auto simp: evict.simps [of n b "(k, e) # m"] split: if_splits)
qed

lemma cache_set_entries:
  assumes "cache_set now key wire meta c = Some (r, c')"
  shows "set (rc_map c') \<subseteq> insert (key, \<lparr>ce_wire = wire, ce_ttlOffsets = r_ttlOffsets meta, ce_storedAt = now,
      ce_expires = now + int (ttlFor meta) * 1000\<rparr>) (set (rc_map c))"
proof (cases "ttlFor meta = 0 \<or> rc_maxBytes c < 16 * length wire")
  case True
  with assms show ?thesis by (auto simp: cache_set_def)
next
  case False
  define c1 where "c1 = (case map_of (rc_map c) key of None \<Rightarrow> c | Some old \<Rightarrow> cache_delete key old c)"
  have "set (rc_map c1) \<subseteq> set (rc_map c)"
    by (auto simp: c1_def cache_delete_def mdelete_def split: option.splits)
  with assms False set_mset_at evict_subset show ?thesis
    by (fastforce simp: cache_set_def Let_def bind_eq_Some_conv simp flip: c1_def)
qed

definition forwarded_ok :: "(bytes \<Rightarrow> string) \<Rightarrow> forwarded \<Rightarrow> bool" where
  "forwarded_ok dec r = (\<exists>meta. parseResponse dec (fw_wire r) = Some meta \<and> fw_ttlOffsets r = r_ttlOffsets meta)"

lemma forward_ok:
  assumes ok: "resolver_ok (re_dec env) rs"
    and f: "forward env name qtype qclass ed cd loc ip rs = (res, rs')"
  shows "resolver_ok (re_dec env) rs' \<and> (\<forall>r. res = Some r \<longrightarrow> forwarded_ok (re_dec env) r)"
proof -
  define key where "key = cacheKey loc qtype qclass name ed cd"
  obtain hit c where g: "cache_get (re_now env) key (rs_cache rs) = (hit, c)" by force
  have c: "entries_ok (re_dec env) c"
    using ok cache_get_ok [of "rs_cache rs" "re_now env" key] cache_get_entries [of "re_now env" key "rs_cache rs"] g
    by (auto simp: resolver_ok_def entries_ok_def)
  show ?thesis
  proof (cases hit)
    case (Some ea)
    obtain e age where ea: "ea = (e, age)" by force
    have "entry_ok (re_dec env) e"
      using cache_get_mem [of "re_now env" key "rs_cache rs" e age c] g Some ea ok by (force simp: resolver_ok_def entries_ok_def)
    with f g Some ea c ok show ?thesis
      by (auto simp: forward_def Let_def resolver_ok_def forwarded_ok_def entry_ok_def simp flip: key_def)
  next
    case None
    let ?w = "re_world env"
    have set_ok: "entries_ok (re_dec env) c2"
      if "cache_set (w_t2 ?w) key wire meta c = Some (b, c2)" "parseResponse (re_dec env) wire = Some meta"
      for wire meta b c2
      using cache_set_total [of c "w_t2 ?w" key wire meta] cache_set_entries [OF that(1)] that c
      by (fastforce simp: entry_ok_def entries_ok_def)
    show ?thesis
      using f g None c ok set_ok
      by (auto simp: forward_def Let_def resolver_ok_def forwarded_ok_def simp flip: key_def
          split: option.splits sum.splits prod.splits if_splits)
  qed
qed


section \<open>Every query gets a reply\<close>

text \<open>A reply in the making: it carries the query's id.\<close>

definition reply_ok :: "query \<Rightarrow> bytes \<Rightarrow> bool" where
  "reply_ok q out = (readU16 out 0 = Some (q_id q))"

lemma safeSearchReply_ok:
  assumes "resolver_ok (re_dec env) rs" "q_id q < 65536"
    and "safeSearchReply env q name qtype target ip rs = (res, rs')"
  shows "resolver_ok (re_dec env) rs' \<and> (\<forall>out c v. res = Some (out, c, v) \<longrightarrow> reply_ok q out)"
proof -
  obtain r rs1 where f: "forward env target qtype CLASS_IN (map_option doBit (q_edns q)) (q_cd q) False ip rs = (r, rs1)"
    by force
  from forward_ok [OF assms(1) f] assms f show ?thesis
    by (auto simp: safeSearchReply_def reply_ok_def bind_eq_Some_conv intro: buildResponse_id
        split: option.splits if_splits)
qed

lemma forwardReply_ok:
  assumes "resolver_ok (re_dec env) rs" "q_id q < 65536"
    and "forwardReply env q name qtype loc ip rs = (res, rs')"
  shows "resolver_ok (re_dec env) rs' \<and> (\<forall>out c v. res = Some (out, c, v) \<longrightarrow> reply_ok q out)"
proof -
  obtain r rs1 where f: "forward env name qtype CLASS_IN (map_option doBit (q_edns q)) (q_cd q) loc ip rs = (r, rs1)"
    by force
  note ok = forward_ok [OF assms(1) f]
  show ?thesis
  proof (cases r)
    case (Some fw)
    then obtain meta where m: "parseResponse (re_dec env) (fw_wire fw) = Some meta" "fw_ttlOffsets fw = r_ttlOffsets meta"
      using ok by (auto simp: forwarded_ok_def)
    from adaptResponse_parsed [OF m(1) assms(2), of "q_question q" "fw_ageSec fw"] m(2) Some ok assms f show ?thesis
      by (auto simp: forwardReply_def reply_ok_def)
  qed (use ok assms f in \<open>auto simp: forwardReply_def\<close>)
qed

lemma resolve_ok:
  assumes "resolver_ok (re_dec env) rs" "q_id q < 65536" "resolve env q name qtype d ip rs = (res, rs')"
  shows "resolver_ok (re_dec env) rs' \<and> (\<forall>out c v. res = Some (out, c, v) \<longrightarrow> reply_ok q out)"
proof (cases "dc_block d")
  case True
  with assms show ?thesis
    by (auto simp: resolve_def blockedReply_def reply_ok_def intro: buildResponse_id split: if_splits)
next
  case False
  show ?thesis
  proof (cases "dc_safeSearch d")
    case None
    obtain r rs1 where f: "forwardReply env q name qtype (dc_local d) ip rs = (r, rs1)" by force
    from forwardReply_ok [OF assms(1,2) f] None False assms(3) f show ?thesis by (auto simp: resolve_def)
  next
    case (Some target)
    obtain r rs1 where f: "safeSearchReply env q name qtype target ip rs = (r, rs1)" by force
    from safeSearchReply_ok [OF assms(1,2) f] Some False assms f show ?thesis
      by (auto simp: resolve_def reply_ok_def intro: buildResponse_id split: if_splits)
  qed
qed

lemma add_log_ok: "resolver_ok dec rs \<Longrightarrow> resolver_ok dec (add_log b e (rs\<lparr>rs_stats := st\<rparr>))"
  by (auto simp: resolver_ok_def add_log_def Let_def MAX_LOG_def)

text \<open>The largest reply the client accepts over UDP.\<close>

definition udp_limit :: "query \<Rightarrow> nat" where
  "udp_limit q = (case q_edns q of Some e \<Rightarrow> min (udpSize e) 4096 | None \<Rightarrow> 512)"

definition fits :: "query \<Rightarrow> bool \<Rightarrow> bytes \<Rightarrow> bool" where
  "fits q udp out = (udp \<longrightarrow> length out \<le> udp_limit q)"

lemma udp_limit_ge: "parseQuery msg = Some q \<Longrightarrow> 289 \<le> udp_limit q"
  using parseQuery_bounds(4) [of msg q] by (force simp: udp_limit_def split: option.splits)

lemma empty_reply:
  assumes "parseQuery msg = Some q"
  shows "\<exists>out. buildResponse q rc [] tc None = Some out \<and> reply_ok q out \<and> fits q udp out"
  using buildResponse_empty [OF parseQuery_bounds(2,3) [OF assms], of rc tc] udp_limit_ge [OF assms]
    buildResponse_id parseQuery_bounds(2) [OF assms]
  by (fastforce simp: reply_ok_def fits_def)

lemma fitUdp_ok:
  assumes "parseQuery msg = Some q" "reply_ok q out"
  shows "\<exists>out'. fitUdp dec q udp out = Some out' \<and> reply_ok q out' \<and> fits q udp out'"
proof (cases "udp \<and> udp_limit q < length out")
  case True
  then have "fitUdp dec q udp out =
      buildResponse q (case parseResponse dec out of Some meta \<Rightarrow> r_rcode meta | None \<Rightarrow> RCODE_NOERROR) [] True None"
    by (auto simp: fitUdp_def maxUdp_def udp_limit_def split: option.splits)
  with empty_reply [OF assms(1)] show ?thesis by metis
next
  case False
  with assms(2) show ?thesis
    by (auto simp: fitUdp_def maxUdp_def udp_limit_def fits_def split: option.splits)
qed

lemma answer_query_ok:
  assumes q: "parseQuery msg = Some q" and ok: "resolver_ok (re_dec env) rs"
  shows "\<exists>out rs'. answer_query env q name qtype ip udp rs = (Some (Some out), rs') \<and>
    reply_ok q out \<and> fits q udp out \<and> resolver_ok (re_dec env) rs'"
proof -
  define mac where "mac = (case ip of None \<Rightarrow> None | Some a \<Rightarrow> if isLoopback a then None else re_macFor env a)"
  define d where "d = decide (re_localTime env) (re_policy env) name mac (of_int (re_now env))"
  obtain r rs1 where res: "resolve env q name qtype d ip rs = (r, rs1)" by force
  note rok = resolve_ok [OF ok parseQuery_bounds(2) [OF q] res]
  obtain out c v where out: "(case r of Some (out, cached, via) \<Rightarrow> Some (out, cached, via)
      | None \<Rightarrow> map_option (\<lambda>out. (out, False, None)) (buildResponse q RCODE_SERVFAIL [] False None)) = Some (out, c, v)"
    and rep: "reply_ok q out"
  proof (cases r)
    case None
    obtain o1 where "buildResponse q RCODE_SERVFAIL [] False None = Some o1" "reply_ok q o1"
      using empty_reply [OF q] by blast
    with None that [of o1 False None] show ?thesis by simp
  next
    case (Some x)
    obtain o1 c v where "x = (o1, c, v)" by (cases x)
    with Some rok that [of o1 c v] show ?thesis by simp
  qed
  obtain out' where fit: "fitUdp (re_dec env) q udp out = Some out'" "reply_ok q out'" "fits q udp out'"
    using fitUdp_ok [OF q rep] by blast
  show ?thesis
    unfolding answer_query_def mac_def [symmetric] Let_def d_def [symmetric] res prod.case out option.case fit(1)
    using fit add_log_ok rok by auto
qed

lemma handle_ok:
  assumes q: "parseQuery msg = Some q" and ok: "resolver_ok (re_dec env) rs"
  shows "\<exists>out rs'. handle env msg ip udp rs = (Some (Some out), rs') \<and>
    reply_ok q out \<and> fits q udp out \<and> resolver_ok (re_dec env) rs'"
proof -
  show ?thesis
    unfolding handle_def q option.case
    by (cases "q_name q"; cases "q_qtype q") (simp_all add: empty_reply [OF q] ok answer_query_ok [OF q ok])
qed

text \<open>
  C1. Every query that can be parsed gets an answer, whatever the network does: the handler does
  not throw, the reply carries the query's id, over UDP it fits the size the client announced
  (512 bytes without EDNS), and the resolver's cache and log stay within their limits with every
  cached answer parseable.
\<close>

theorem every_query_is_answered:
  assumes "parseQuery msg = Some q" "resolver_ok (re_dec env) rs"
  shows "\<exists>out rs'. handle env msg ip udp rs = (Some (Some out), rs') \<and>
    readU16 out 0 = readU16 msg 0 \<and>
    (udp \<longrightarrow> length out \<le> (case q_edns q of Some e \<Rightarrow> min (udpSize e) 4096 | None \<Rightarrow> 512)) \<and>
    resolver_ok (re_dec env) rs'"
  using handle_ok [OF assms, of ip udp] parseQuery_bounds(1) [OF assms(1)]
  by (auto simp: reply_ok_def fits_def udp_limit_def)

text \<open>A sample configuration: no profiles, nothing reachable.\<close>

definition sample_env :: renv where
  "sample_env =
     \<lparr>re_policy = newPolicy id
        \<lparr>d_enabled = True, d_upstream = \<lparr>up_provider = ''quad9'', up_url = None, up_fallbackRouter = True\<rparr>,
         d_logQueries = False, d_alwaysAllow = [], d_lists = [], d_categories = [], d_profiles = [],
         d_defaultProfile = None, d_pauses = [], d_extensions = [], d_nxdomain = False\<rparr> [] [] [],
      re_localTime = (\<lambda>_. (1, 0, 0)), re_nxdomain = False, re_logEnabled = True,
      re_macFor = (\<lambda>_. None), re_now = 0, re_ms = 0,
      re_world = \<lparr>w_t0 = 0, w_t1 = 0, w_t2 = 0, w_doh = (\<lambda>_. Inl ''timeout''), w_routerIp = None,
                  w_routerQuery = (\<lambda>_ _. Inl ''timeout'')\<rparr>,
      re_dec = map byte_char\<rparr>"

definition fresh_resolver :: resolver where
  "fresh_resolver = \<lparr>rs_cache = newCache 10000 8388608, rs_log = [], rs_stats = newStats 0, rs_upstream = newUpstream True\<rparr>"

lemma fresh_resolver_ok: "resolver_ok dec fresh_resolver"
  by (simp add: resolver_ok_def entries_ok_def fresh_resolver_def cache_ok_def newCache_def)

theorem every_query_is_answered_witness:
  "\<exists>out rs'. handle sample_env [1, 2, 1, 0, 0, 1, 0, 0, 0, 0, 0, 0, 1, 97, 0, 0, 1, 0, 1] None True fresh_resolver
     = (Some (Some out), rs') \<and> readU16 out 0 = Some 258 \<and> length out \<le> 512"
proof -
  let ?m = "[1, 2, 1, 0, 0, 1, 0, 0, 0, 0, 0, 0, 1, 97, 0, 0, 1, 0, 1] :: bytes"
  have "map_option q_edns (parseQuery ?m) = Some None" by code_simp
  then obtain q where q: "parseQuery ?m = Some q" "q_edns q = None" by auto
  have r: "readU16 ?m 0 = Some 258" by code_simp
  from every_query_is_answered [OF q(1) fresh_resolver_ok, of sample_env None True] q(2) r
  show ?thesis by auto
qed

text \<open>
  C3. A blocked name never leaves the house: when the policy blocks the query, neither upstream
  nor router nor cache is touched and their answers have no influence on the reply.
\<close>

theorem blocked_is_not_forwarded:
  assumes "parseQuery msg = Some q" "q_opcode q = 0" "q_name q = Some name"
    and "mac = (case ip of None \<Rightarrow> None | Some a \<Rightarrow> if isLoopback a then None else re_macFor env a)"
    and "dc_block (decide (re_localTime env) (re_policy env) name mac (of_int (re_now env)))"
  shows "handle (env\<lparr>re_world := w\<rparr>) msg ip udp rs = handle env msg ip udp rs \<and>
    rs_cache (snd (handle env msg ip udp rs)) = rs_cache rs \<and>
    rs_upstream (snd (handle env msg ip udp rs)) = rs_upstream rs"
proof -
  let ?d = "decide (re_localTime env) (re_policy env) name mac (of_int (re_now env))"
  have r: "resolve env' q name qtype ?d ip rs =
      (map_option (\<lambda>out. (out, False, None)) (blockedReply (re_nxdomain env') q name ?d), rs)" for env' qtype
    using assms(5) by (simp add: resolve_def)
  have sel: "re_dec (env\<lparr>re_world := w\<rparr>) = re_dec env" "re_policy (env\<lparr>re_world := w\<rparr>) = re_policy env"
    "re_localTime (env\<lparr>re_world := w\<rparr>) = re_localTime env" "re_now (env\<lparr>re_world := w\<rparr>) = re_now env"
    "re_macFor (env\<lparr>re_world := w\<rparr>) = re_macFor env" "re_ms (env\<lparr>re_world := w\<rparr>) = re_ms env"
    "re_nxdomain (env\<lparr>re_world := w\<rparr>) = re_nxdomain env" "re_logEnabled (env\<lparr>re_world := w\<rparr>) = re_logEnabled env"
    by simp_all
  have a: "answer_query (env\<lparr>re_world := w\<rparr>) q name qtype ip udp rs = answer_query env q name qtype ip udp rs" for qtype
    unfolding answer_query_def Let_def sel assms(4) [symmetric] r prod.case ..
  have b: "rs_cache (snd (answer_query env q name qtype ip udp rs)) = rs_cache rs \<and>
      rs_upstream (snd (answer_query env q name qtype ip udp rs)) = rs_upstream rs" for qtype
    unfolding answer_query_def Let_def assms(4) [symmetric] r prod.case
    by (auto simp: add_log_def Let_def split: option.splits)
  show ?thesis
    unfolding handle_def assms(1) option.case assms(3) prod.case
    using a b assms(2) by (cases "q_qtype q") auto
qed

theorem blocked_is_not_forwarded_witness:
  "\<exists>q. parseQuery [1, 2, 1, 0, 0, 1, 0, 0, 0, 0, 0, 0, 19, 117, 115, 101, 45, 97, 112, 112, 108, 105, 99, 97, 116, 105, 111,
      110, 45, 100, 110, 115, 3, 110, 101, 116, 0, 0, 1, 0, 1] = Some q \<and> q_name q = Some CANARY \<and>
   rs_upstream (snd (handle sample_env [1, 2, 1, 0, 0, 1, 0, 0, 0, 0, 0, 0, 19, 117, 115, 101, 45, 97, 112, 112, 108, 105,
      99, 97, 116, 105, 111, 110, 45, 100, 110, 115, 3, 110, 101, 116, 0, 0, 1, 0, 1] None True fresh_resolver))
   = rs_upstream fresh_resolver"
proof -
  let ?m = "[1, 2, 1, 0, 0, 1, 0, 0, 0, 0, 0, 0, 19, 117, 115, 101, 45, 97, 112, 112, 108, 105, 99, 97, 116, 105, 111,
      110, 45, 100, 110, 115, 3, 110, 101, 116, 0, 0, 1, 0, 1] :: bytes"
  have "map_option (\<lambda>q. (q_opcode q, q_name q)) (parseQuery ?m) = Some (0, Some CANARY)" by code_simp
  then obtain q where q: "parseQuery ?m = Some q" "q_opcode q = 0" "q_name q = Some CANARY" by auto
  have "dc_block (decide (re_localTime sample_env) (re_policy sample_env) CANARY None (of_int (re_now sample_env)))"
    by (simp add: decide_block)
  with blocked_is_not_forwarded [OF q, where mac = None and ip = None and env = sample_env and udp = True and rs = fresh_resolver] q show ?thesis
    by auto
qed

end
