(* ===== verification/Lan_Interfaces.thy ===== *)
theory Lan_Interfaces
  imports Js_Values
begin

text \<open>
  The gateway's view of its LAN (\<open>src/src/discovery/lanInterfaces.js\<close>): which interfaces count,
  the subnets they span, the address of the gateway, and the membership test every access check
  rests on. Addresses are dotted strings as Node reports them; the 32-bit arithmetic of
  JavaScript's shifts and masks is arithmetic on \<open>32 word\<close>.
\<close>

section \<open>Interfaces and masks\<close>

definition WG_INTERFACE :: string where
  "WG_INTERFACE = ''gatecontrol0''"

definition isPhysicalLan :: "string \<Rightarrow> bool" where
  "isPhysicalLan name =
     (\<not> (name = ''lo'' \<or> prefix ''wg'' name \<or> prefix WG_INTERFACE name) \<and>
      \<not> (prefix ''docker'' name \<or> prefix ''br-'' name) \<and>
      \<not> (prefix ''veth'' name \<or> prefix ''tailscale'' name) \<and>
      \<not> (prefix ''zt'' name \<or> prefix ''nebula'' name))"

definition octets :: "string \<Rightarrow> nat list" where
  "octets ip = map dec_value (split_on CHR ''.'' ip)"

text \<open>\<open>(o.toString(2).match(/1/g) || []).length\<close>.\<close>

fun popcount :: "nat \<Rightarrow> nat" where
  "popcount n = (if n = 0 then 0 else n mod 2 + popcount (n div 2))"

declare popcount.simps [simp del]

definition netmaskToPrefix :: "string \<Rightarrow> nat" where
  "netmaskToPrefix netmask = sum_list (map popcount (octets netmask))"

definition ipToInt :: "string \<Rightarrow> 32 word" where
  "ipToInt ip = foldl (\<lambda>a n. push_bit 8 a + word_of_nat (n AND 255)) 0 (octets ip)"

definition networkAddress :: "string \<Rightarrow> string \<Rightarrow> string" where
  "networkAddress ip netmask =
     (let ms = octets netmask
      in join CHR ''.'' (map (\<lambda>(i, n). dec_string (n AND (if i < length ms then ms ! i else 0)))
           (zip [0..<length (octets ip)] (octets ip))))"

definition cidrMask :: "nat \<Rightarrow> 32 word" where
  "cidrMask p = (if 32 \<le> p then 0xffffffff else NOT (drop_bit p 0xffffffff))"

definition ipInCidr :: "string \<Rightarrow> string \<Rightarrow> nat \<Rightarrow> bool" where
  "ipInCidr ip network p =
     (if p = 0 then True else ipToInt ip AND cidrMask p = ipToInt network AND cidrMask p)"

definition isPrivateIpv4 :: "string \<Rightarrow> bool" where
  "isPrivateIpv4 ip =
     (let ps = split_on CHR ''.'' ip
      in if length ps \<noteq> 4 \<or> \<not> list_all (\<lambda>p. p = [] \<or> list_all is_digit p) ps \<or> list_ex (\<lambda>p. 255 < dec_value p) ps then False
         else let a = dec_value (ps ! 0); b = dec_value (ps ! 1)
           in a = 10 \<or> (a = 172 \<and> 16 \<le> b \<and> b \<le> 31) \<or> (a = 192 \<and> b = 168))"

section \<open>Subnets\<close>

record if_addr =
  ia_family :: string
  ia_internal :: bool
  ia_netmask :: string
  ia_address :: string

type_synonym interfaces = "(string \<times> if_addr list) list"

record subnet =
  sn_iface :: string
  sn_network :: string
  sn_prefix :: nat
  sn_cidr :: string

definition addr_usable :: "if_addr \<Rightarrow> bool" where
  "addr_usable a = (ia_family a = ''IPv4'' \<and> \<not> ia_internal a \<and> ia_netmask a \<noteq> [] \<and> ia_address a \<noteq> [])"

definition add_subnet :: "string \<Rightarrow> subnet list \<Rightarrow> if_addr \<Rightarrow> subnet list" where
  "add_subnet name entries a =
     (if \<not> addr_usable a then entries
      else let p = netmaskToPrefix (ia_netmask a)
        in if p = 0 \<or> 32 \<le> p then entries
           else let network = networkAddress (ia_address a) (ia_netmask a);
                    cidr = network @ ''/'' @ dec_string p
             in if cidr \<in> sn_cidr ` set entries then entries
                else entries @ [\<lparr>sn_iface = name, sn_network = network, sn_prefix = p, sn_cidr = cidr\<rparr>])"

definition subnet_entries :: "interfaces \<Rightarrow> subnet list" where
  "subnet_entries ifaces =
     foldl (\<lambda>es (name, addrs). if isPhysicalLan name then foldl (add_subnet name) es addrs else es) [] ifaces"

fun find_index :: "('a \<Rightarrow> bool) \<Rightarrow> 'a list \<Rightarrow> nat option" where
  "find_index P [] = None"
| "find_index P (x # xs) = (if P x then Some 0 else map_option Suc (find_index P xs))"

definition primaryIdx :: "string option \<Rightarrow> subnet list \<Rightarrow> nat" where
  "primaryIdx gw es =
     (case (case gw of None \<Rightarrow> None | Some ip \<Rightarrow> find_index (\<lambda>e. ipInCidr ip (sn_network e) (sn_prefix e)) es) of
        Some i \<Rightarrow> i | None \<Rightarrow> 0)"

text \<open>The result: interface, CIDR and whether it is the primary subnet.\<close>

definition lanSubnets :: "string option \<Rightarrow> interfaces \<Rightarrow> (string \<times> string \<times> bool) list" where
  "lanSubnets gw ifaces =
     (let es = subnet_entries ifaces
      in map (\<lambda>(i, e). (sn_iface e, sn_cidr e, i = primaryIdx gw es)) (zip [0..<length es] es))"

definition lan_candidates :: "interfaces \<Rightarrow> (string \<times> string \<times> nat) list" where
  "lan_candidates ifaces =
     concat (map (\<lambda>(name, addrs).
       if isPhysicalLan name
       then map (\<lambda>a. (ia_address a, networkAddress (ia_address a) (ia_netmask a), netmaskToPrefix (ia_netmask a)))
              (filter (\<lambda>a. addr_usable a \<and> isPrivateIpv4 (ia_address a)) addrs)
       else []) ifaces)"

definition primaryLanIp :: "string option \<Rightarrow> interfaces \<Rightarrow> string option" where
  "primaryLanIp gw ifaces =
     (case lan_candidates ifaces of
        [] \<Rightarrow> None
      | c # cs \<Rightarrow>
          (case (case gw of None \<Rightarrow> None
                 | Some ip \<Rightarrow> List.find (\<lambda>(a, n, p). ipInCidr ip n p) (c # cs)) of
             Some (a, _) \<Rightarrow> Some a
           | None \<Rightarrow> Some (fst c)))"

section \<open>Membership is a comparison of leading bits\<close>

lemma cidrMask_bits: "p \<le> 32 \<Longrightarrow> bit (cidrMask p) n \<longleftrightarrow> 32 - p \<le> n \<and> n < 32"
proof -
  assume p: "p \<le> 32"
  have full: "(0xffffffff :: 32 word) = mask 32" by (simp add: mask_eq_exp_minus_1)
  show ?thesis
  proof (cases "p = 32")
    case True
    then show ?thesis unfolding cidrMask_def full by (simp add: bit_mask_iff)
  next
    case False
    then show ?thesis
      using p unfolding cidrMask_def full
      by (auto simp: bit_not_iff bit_drop_bit_eq bit_mask_iff)
  qed
qed

lemma mask_eq_drop:
  fixes a b :: "32 word"
  assumes "p \<le> 32"
  shows "a AND cidrMask p = b AND cidrMask p \<longleftrightarrow> drop_bit (32 - p) a = drop_bit (32 - p) b"
proof
  assume l: "a AND cidrMask p = b AND cidrMask p"
  show "drop_bit (32 - p) a = drop_bit (32 - p) b"
  proof (rule bit_word_eqI)
    fix n assume "n < LENGTH(32)"
    have "bit (a AND cidrMask p) (32 - p + n) = bit (b AND cidrMask p) (32 - p + n)" using l by simp
    then show "bit (drop_bit (32 - p) a) n = bit (drop_bit (32 - p) b) n"
      using assms bit_imp_le_length [of a "32 - p + n"] bit_imp_le_length [of b "32 - p + n"]
      by (auto simp: bit_and_iff cidrMask_bits bit_drop_bit_eq)
  qed
next
  assume r: "drop_bit (32 - p) a = drop_bit (32 - p) b"
  have "bit a n = bit b n" if "32 - p \<le> n" for n
  proof -
    have "bit (drop_bit (32 - p) a) (n - (32 - p)) = bit (drop_bit (32 - p) b) (n - (32 - p))" using r by simp
    with that show ?thesis by (simp add: bit_drop_bit_eq)
  qed
  then show "a AND cidrMask p = b AND cidrMask p"
    using assms by (intro bit_word_eqI) (auto simp: bit_and_iff cidrMask_bits)
qed

text \<open>The numeric reading: the address lies in the block of \<open>2 ^ (32 - p)\<close> addresses of the network.\<close>

lemma mask_eq_div:
  assumes "p \<le> 32"
  shows "v AND cidrMask p = w AND cidrMask p \<longleftrightarrow> unat v div 2 ^ (32 - p) = unat w div 2 ^ (32 - p)"
proof -
  have "unat (drop_bit n u) = unat u div 2 ^ n" for n and u :: "32 word"
    by (subst unat_drop_bit_eq) (simp add: drop_bit_eq_div)
  then have "drop_bit n v = drop_bit n w \<longleftrightarrow> unat v div 2 ^ n = unat w div 2 ^ n" for n
    by (metis word_unat_eq_iff)
  then show ?thesis by (simp only: mask_eq_drop [OF assms])
qed

lemma ipInCidr_iff:
  assumes "p \<le> 32"
  shows "ipInCidr ip network p \<longleftrightarrow> unat (ipToInt ip) div 2 ^ (32 - p) = unat (ipToInt network) div 2 ^ (32 - p)"
proof (cases "p = 0")
  case True
  have "unat w < 4294967296" for w :: "32 word" using unsigned_less [of w] by simp
  with True show ?thesis by (simp add: ipInCidr_def)
next
  case False
  then show ?thesis by (simp only: ipInCidr_def mask_eq_div [OF assms] if_False)
qed

section \<open>The subnets found\<close>

definition subnet_ok :: "subnet \<Rightarrow> bool" where
  "subnet_ok e = (isPhysicalLan (sn_iface e) \<and> 0 < sn_prefix e \<and> sn_prefix e < 32 \<and>
     sn_cidr e = sn_network e @ ''/'' @ dec_string (sn_prefix e))"

lemma add_subnets_ok:
  "isPhysicalLan name \<Longrightarrow> distinct (map sn_cidr es) \<Longrightarrow> list_all subnet_ok es \<Longrightarrow>
   distinct (map sn_cidr (foldl (add_subnet name) es addrs)) \<and> list_all subnet_ok (foldl (add_subnet name) es addrs)"
  by (induction addrs arbitrary: es) (auto simp: add_subnet_def Let_def subnet_ok_def)

lemma subnet_entries_ok: "distinct (map sn_cidr (subnet_entries ifaces)) \<and> list_all subnet_ok (subnet_entries ifaces)"
proof -
  let ?f = "\<lambda>es (name, addrs). if isPhysicalLan name then foldl (add_subnet name) es addrs else es"
  have "distinct (map sn_cidr (foldl ?f es ifaces)) \<and> list_all subnet_ok (foldl ?f es ifaces)"
    if "distinct (map sn_cidr es)" "list_all subnet_ok es" for es
    using that by (induction ifaces arbitrary: es) (auto simp: add_subnets_ok split: prod.splits)
  then show ?thesis by (simp add: subnet_entries_def)
qed

lemma find_index_less: "find_index P xs = Some i \<Longrightarrow> i < length xs \<and> P (xs ! i)"
  by (induction xs arbitrary: i) (auto split: if_splits)

lemma primaryIdx_less: "es \<noteq> [] \<Longrightarrow> primaryIdx gw es < length es"
  using find_index_less [of _ es] by (auto simp: primaryIdx_def split: option.splits)

text \<open>Exactly one subnet is primary when there is any, and it holds the default gateway when one does.\<close>

lemma one_primary:
  assumes "lanSubnets gw ifaces \<noteq> []"
  shows "length (filter (\<lambda>(_, _, primary). primary) (lanSubnets gw ifaces)) = 1"
proof -
  let ?es = "subnet_entries ifaces"
  have "?es \<noteq> []" using assms by (auto simp: lanSubnets_def Let_def)
  then have lt: "primaryIdx gw ?es < length ?es" by (rule primaryIdx_less)
  have "filter (\<lambda>(_, _, primary). primary) (lanSubnets gw ifaces) =
      map (\<lambda>(i, e). (sn_iface e, sn_cidr e, i = primaryIdx gw ?es))
        (filter (\<lambda>(i, e). i = primaryIdx gw ?es) (zip [0..<length ?es] ?es))"
    unfolding lanSubnets_def Let_def filter_map by (simp add: case_prod_unfold comp_def)
  moreover have "length (filter (\<lambda>(i, e). i = k) (zip [m..<m + length es] es)) = (if m \<le> k \<and> k < m + length es then 1 else 0)"
    for k m and es :: "subnet list"
  proof (induction es arbitrary: m)
    case (Cons e es)
    have "[m..<m + length (e # es)] = m # [Suc m..<Suc m + length es]" by (subst upt_conv_Cons) simp_all
    with Cons.IH [of "Suc m"] show ?case by auto
  qed simp
  from this [of "primaryIdx gw ?es" 0 ?es] lt have "length (filter (\<lambda>(i, e). i = primaryIdx gw ?es) (zip [0..<length ?es] ?es)) = 1"
    by simp
  ultimately show ?thesis by simp
qed

lemma find_mem: "List.find P xs = Some x \<Longrightarrow> x \<in> set xs"
  by (auto simp: find_Some_iff)

lemma primaryLanIp_private: "primaryLanIp gw ifaces = Some ip \<Longrightarrow> isPrivateIpv4 ip"
proof -
  have "isPrivateIpv4 a" if "(a, n, p) \<in> set (lan_candidates ifaces)" for a n p
    using that by (auto simp: lan_candidates_def split: if_splits)
  moreover assume "primaryLanIp gw ifaces = Some ip"
  then have "\<exists>n p. (ip, n, p) \<in> set (lan_candidates ifaces)"
    by (auto simp: primaryLanIp_def split: list.splits option.splits if_splits dest!: find_mem) blast+
  ultimately show ?thesis by blast
qed

section \<open>Dotted addresses and their value\<close>

lemma dec_value_ge: "(acc :: nat) \<le> foldl (\<lambda>n c. n * 10 + (of_char c - 48)) acc s"
proof (induction s arbitrary: acc)
  case (Cons c s)
  have "acc \<le> acc * 10 + (of_char c - 48)" by simp
  also have "\<dots> \<le> foldl (\<lambda>n c. n * 10 + (of_char c - 48)) (acc * 10 + (of_char c - 48)) s" by (rule Cons.IH)
  finally show ?case by simp
qed simp

lemma dec_value_pos: "list_all is_digit s \<Longrightarrow> s \<noteq> [] \<Longrightarrow> hd s \<noteq> CHR ''0'' \<Longrightarrow> 0 < dec_value s"
proof -
  assume d: "list_all is_digit s" "s \<noteq> []" "hd s \<noteq> CHR ''0''"
  then obtain c t where s: "s = c # t" by (cases s) auto
  have "(of_char c :: nat) \<noteq> of_char CHR ''0''" using d(3) s by (metis list.sel(1) of_char_eq_iff)
  then have "0 < (of_char c :: nat) - 48" using d(1) s by (auto simp: is_digit_def Let_def)
  also have "\<dots> \<le> dec_value s" using dec_value_ge [of "of_char c - 48" t] by (simp add: s dec_value_def)
  finally show ?thesis .
qed

lemma dec_string_dec_value:
  "list_all is_digit s \<Longrightarrow> s \<noteq> [] \<Longrightarrow> (1 < length s \<longrightarrow> hd s \<noteq> CHR ''0'') \<Longrightarrow> dec_string (dec_value s) = s"
proof (induction s rule: rev_induct)
  case (snoc c t)
  have c: "48 \<le> (of_char c :: nat)" "(of_char c :: nat) \<le> 57" using snoc.prems(1) by (auto simp: is_digit_def Let_def)
  have v: "dec_value (t @ [c]) = dec_value t * 10 + (of_char c - 48)" by (simp add: dec_value_def)
  have chr: "char_of (48 + (of_char c - 48 :: nat)) = c" using c by simp
  show ?case
  proof (cases "t = []")
    case True
    have "(of_char c :: nat) - 48 < 10" using c by simp
    with True c v chr show ?thesis by (subst dec_string.simps) (simp add: dec_value_def)
  next
    case False
    then have h: "hd t \<noteq> CHR ''0''" using snoc.prems(3) by (cases t) auto
    have t: "list_all is_digit t" using snoc.prems(1) by simp
    have ih: "dec_string (dec_value t) = t" using snoc.IH [OF t False] h by blast
    have "\<not> dec_value (t @ [c]) < 10" using dec_value_pos [OF t False h] v by simp
    moreover have "dec_value (t @ [c]) div 10 = dec_value t" "dec_value (t @ [c]) mod 10 = of_char c - 48"
    proof -
      have "k < 10 \<Longrightarrow> (x * 10 + k) div 10 = x \<and> (x * 10 + k) mod 10 = k" for x k :: nat by simp
      from this [of "of_char c - 48" "dec_value t"] c
      show "dec_value (t @ [c]) div 10 = dec_value t" "dec_value (t @ [c]) mod 10 = of_char c - 48" unfolding v by auto
    qed
    ultimately show ?thesis using ih chr by (subst dec_string.simps) simp
  qed
qed simp

lemma octets_inject: "isIPv4 a \<Longrightarrow> isIPv4 b \<Longrightarrow> octets a = octets b \<Longrightarrow> a = b"
proof -
  assume a: "isIPv4 a" and b: "isIPv4 b" and e: "octets a = octets b"
  have "map dec_string (octets ip) = split_on CHR ''.'' ip" if "isIPv4 ip" for ip
  proof -
    have "dec_string (dec_value p) = p" if "is_octet p" for p
      using that by (intro dec_string_dec_value) (auto simp: is_octet_def re_class_def)
    with that show ?thesis by (auto simp: isIPv4_def octets_def Let_def list_all_iff intro!: map_idI)
  qed
  with a b e have "split_on CHR ''.'' a = split_on CHR ''.'' b" by metis
  then show "a = b" by (metis join_split_on)
qed

lemma isIPv4_octets:
  assumes "isIPv4 ip"
  obtains a b c d where "octets ip = [a, b, c, d]" "a < 256" "b < 256" "c < 256" "d < 256"
proof -
  let ?ps = "split_on CHR ''.'' ip"
  have "length ?ps = 4" "list_all is_octet ?ps" using assms by (auto simp: isIPv4_def Let_def)
  then obtain w x y z where "?ps = [w, x, y, z]" "is_octet w" "is_octet x" "is_octet y" "is_octet z"
    by (auto simp: numeral_eq_Suc length_Suc_conv)
  with that show thesis by (auto simp: octets_def is_octet_def)
qed

lemma unat_ipToInt:
  assumes "octets ip = [a, b, c, d]" "a < 256" "b < 256" "c < 256" "d < 256"
  shows "unat (ipToInt ip) = ((a * 256 + b) * 256 + c) * 256 + d"
proof -
  have and255: "n AND 255 = n" if "n < 256" for n :: nat
    using that take_bit_nat_eq_self [of n 8] take_bit_eq_mask [of 8 n] by (simp add: mask_eq_exp_minus_1)
  have "ipToInt ip = word_of_nat (((a * 256 + b) * 256 + c) * 256 + d)"
    using assms by (simp add: ipToInt_def and255 push_bit_eq_mult algebra_simps)
  then have "unat (ipToInt ip) = (((a * 256 + b) * 256 + c) * 256 + d) mod 4294967296" by (simp only: unat_of_nat) simp
  then show ?thesis by (simp only: mod_less [OF be32_bound [OF assms(2-5)]])
qed

lemma ipToInt_inject:
  assumes "isIPv4 x" "isIPv4 y" "ipToInt x = ipToInt y"
  shows "x = y"
proof -
  obtain a b c d where x: "octets x = [a, b, c, d]" "a < 256" "b < 256" "c < 256" "d < 256" using isIPv4_octets [OF assms(1)] .
  obtain e f g h where y: "octets y = [e, f, g, h]" "e < 256" "f < 256" "g < 256" "h < 256" using isIPv4_octets [OF assms(2)] .
  have "((a * 256 + b) * 256 + c) * 256 + d = ((e * 256 + f) * 256 + g) * 256 + h"
    using unat_ipToInt [OF x] unat_ipToInt [OF y] assms(3) by simp
  moreover have "q = q' \<and> r = r'" if "q * 256 + r = q' * 256 + r'" "r < 256" "r' < 256" for q r q' r' :: nat
  proof -
    have "(q * 256 + r) div 256 = q" "(q' * 256 + r') div 256 = q'" "(q * 256 + r) mod 256 = r" "(q' * 256 + r') mod 256 = r'"
      using that(2,3) by simp_all
    with that(1) show ?thesis by simp
  qed
  ultimately have "[a, b, c, d] = [e, f, g, h]" using x(2-) y(2-) by (metis (no_types))
  with x y octets_inject assms(1,2) show ?thesis by metis
qed

end
