(* ===== verification/Dns_Server.thy ===== *)
theory Dns_Server
  imports Lan_Interfaces
begin

text \<open>
  The listeners of the DNS filter (\<open>src/src/dns/server.js\<close>): the choice of LAN addresses, binding
  and unbinding them, the limit on UDP queries in flight, and a TCP connection with its length
  framing, pipelining limit and half-open end. Binding a socket is an operation of the system
  whose outcome is an argument. A connection is driven by events: a chunk of data, the client's
  end, the completion of a query, the idle timeout.
\<close>

section \<open>Listen addresses\<close>

definition is_hex :: "char \<Rightarrow> bool" where
  "is_hex c = is_hex_lower (lower_char c)"

text \<open>\<open>/^f[cd][0-9a-f]{2}:/i\<close> and \<open>/^fe[89ab][0-9a-f]:/i\<close>.\<close>

definition isUla :: "string \<Rightarrow> bool" where
  "isUla ip =
     (case toLower (take 5 ip) of
        [a, b, c, d, e] \<Rightarrow> a = CHR ''f'' \<and> b \<in> set ''cd'' \<and> is_hex c \<and> is_hex d \<and> e = CHR '':''
      | _ \<Rightarrow> False)"

definition isLinkLocal6 :: "string \<Rightarrow> bool" where
  "isLinkLocal6 ip =
     (case toLower (take 5 ip) of
        [a, b, c, d, e] \<Rightarrow> a = CHR ''f'' \<and> b = CHR ''e'' \<and> c \<in> set ''89ab'' \<and> is_hex d \<and> e = CHR '':''
      | _ \<Rightarrow> False)"

definition listen_address :: "bool \<Rightarrow> string \<Rightarrow> if_addr \<Rightarrow> string option" where
  "listen_address linkLocal name a =
     (if ia_internal a \<or> ia_address a = [] then None
      else if ia_family a = ''IPv4'' then (if isPrivateIpv4 (ia_address a) then Some (ia_address a) else None)
      else if isUla (ia_address a) then Some (ia_address a)
      else if linkLocal \<and> isLinkLocal6 (ia_address a) then Some (ia_address a @ ''%'' @ name)
      else None)"

text \<open>The loop's state is the set of addresses seen and the result.\<close>

definition add_listen :: "bool \<Rightarrow> string \<Rightarrow> string list \<times> (string \<times> nat) list \<Rightarrow> if_addr \<Rightarrow> string list \<times> (string \<times> nat) list" where
  "add_listen linkLocal name st a =
     (case listen_address linkLocal name a of
        None \<Rightarrow> st
      | Some address \<Rightarrow>
          if address \<in> set (fst st) then st
          else (fst st @ [address], snd st @ [(address, if CHR '':'' \<in> set address then 6 else 4)]))"

definition lanListenAddresses :: "interfaces \<Rightarrow> string list \<Rightarrow> bool \<Rightarrow> (string \<times> nat) list" where
  "lanListenAddresses ifaces exclude linkLocal =
     snd (foldl (\<lambda>st (name, addrs). if isPhysicalLan name then foldl (add_listen linkLocal name) st addrs else st)
            (filter (\<lambda>x. x \<noteq> []) exclude, []) ifaces)"

section \<open>Binding\<close>

text \<open>The outcome of binding: \<open>None\<close> when it succeeds, else the error's code (empty when it has none).\<close>

record listener =
  dl_bound :: "string list"
  dl_busy :: "string list"
  dl_failed :: "(string, string) jsmap"
  dl_udpInflight :: nat
  dl_dropped :: nat

definition newListener :: listener where
  "newListener = \<lparr>dl_bound = [], dl_busy = [], dl_failed = [], dl_udpInflight = 0, dl_dropped = 0\<rparr>"

definition bind_outcome :: "(string \<Rightarrow> nat \<Rightarrow> string option) \<Rightarrow> (string \<Rightarrow> string option) \<Rightarrow> string \<Rightarrow> nat \<Rightarrow> string option" where
  "bind_outcome udp tcp addr family = (case udp addr family of Some e \<Rightarrow> Some e | None \<Rightarrow> tcp addr)"

definition bind_one ::
  "(string \<Rightarrow> nat \<Rightarrow> string option) \<Rightarrow> (string \<Rightarrow> string option) \<Rightarrow> listener \<Rightarrow> string \<times> nat \<Rightarrow> listener" where
  "bind_one udp tcp l a =
     (if fst a \<in> set (dl_bound l) then l
      else case bind_outcome udp tcp (fst a) (snd a) of
             None \<Rightarrow> l\<lparr>dl_bound := dl_bound l @ [fst a]\<rparr>
           | Some code \<Rightarrow>
               if code = ''EADDRINUSE'' then l\<lparr>dl_busy := dl_busy l @ [fst a]\<rparr>
               else l\<lparr>dl_failed := mset_at (fst a) (if code = [] then ''error'' else code) (dl_failed l)\<rparr>)"

definition reconcile ::
  "(string \<Rightarrow> nat \<Rightarrow> string option) \<Rightarrow> (string \<Rightarrow> string option) \<Rightarrow> (string \<times> nat) list \<Rightarrow> listener \<Rightarrow> listener" where
  "reconcile udp tcp addresses l =
     (let want = foldl (\<lambda>m (a, f). mset_at a f m) [] addresses;
          l1 = l\<lparr>dl_bound := filter (\<lambda>a. a \<in> fst ` set want) (dl_bound l), dl_busy := [], dl_failed := []\<rparr>
      in foldl (bind_one udp tcp) l1 want)"

datatype listen_state = Running | Port_busy | Listen_error | No_address

definition listener_status :: "listener \<Rightarrow> listen_state" where
  "listener_status l =
     (if dl_busy l \<noteq> [] then Port_busy
      else if dl_bound l = [] then (if dl_failed l \<noteq> [] then Listen_error else No_address)
      else Running)"

definition close_listener :: "listener \<Rightarrow> listener" where
  "close_listener l = l\<lparr>dl_bound := [], dl_busy := [], dl_failed := []\<rparr>"

section \<open>UDP\<close>

definition MAX_UDP_INFLIGHT :: nat where
  "MAX_UDP_INFLIGHT = 512"

text \<open>Whether the query is handed to the handler; its completion, with or without an error.\<close>

definition onUdp :: "listener \<Rightarrow> bool \<times> listener" where
  "onUdp l =
     (if MAX_UDP_INFLIGHT \<le> dl_udpInflight l then (False, l\<lparr>dl_dropped := dl_dropped l + 1\<rparr>)
      else (True, l\<lparr>dl_udpInflight := dl_udpInflight l + 1\<rparr>))"

definition udp_done :: "listener \<Rightarrow> listener" where
  "udp_done l = l\<lparr>dl_udpInflight := dl_udpInflight l - 1\<rparr>"

section \<open>A TCP connection\<close>

definition MAX_TCP_PIPELINE :: nat where
  "MAX_TCP_PIPELINE = 32"

text \<open>
  \<open>tc_started\<close> and \<open>tc_written\<close> record what the connection does: the messages handed to the
  handler and the buffers written. \<open>tc_closed\<close> says that \<open>c.end()\<close> was called. A destroyed socket
  delivers no more data, so its buffer is dropped.
\<close>

record tcp_conn =
  tc_buf :: bytes
  tc_pending :: nat
  tc_ended :: bool
  tc_destroyed :: bool
  tc_closed :: bool
  tc_started :: "bytes list"
  tc_written :: "bytes list"

definition newConn :: tcp_conn where
  "newConn = \<lparr>tc_buf = [], tc_pending = 0, tc_ended = False, tc_destroyed = False, tc_closed = False,
     tc_started = [], tc_written = []\<rparr>"

definition maybeEnd :: "tcp_conn \<Rightarrow> tcp_conn" where
  "maybeEnd c = (if tc_ended c \<and> tc_pending c = 0 \<and> \<not> tc_destroyed c then c\<lparr>tc_closed := True\<rparr> else c)"

definition tcp_destroy :: "tcp_conn \<Rightarrow> tcp_conn" where
  "tcp_destroy c = c\<lparr>tc_destroyed := True, tc_buf := []\<rparr>"

partial_function (option) tcp_loop :: "tcp_conn \<Rightarrow> tcp_conn option" where
  "tcp_loop c =
     (if length (tc_buf c) < 2 then Some c
      else case readU16 (tc_buf c) 0 of
             None \<Rightarrow> None
           | Some len \<Rightarrow>
               if len < 12 then Some (tcp_destroy c)
               else if length (tc_buf c) < 2 + len then Some c
               else let c1 = c\<lparr>tc_buf := drop (2 + len) (tc_buf c), tc_pending := tc_pending c + 1\<rparr>
                 in if MAX_TCP_PIPELINE < tc_pending c1 then Some (tcp_destroy c1)
                    else tcp_loop (c1\<lparr>tc_started := tc_started c1 @ [subarray (tc_buf c) 2 (2 + len)]\<rparr>))"

definition onTcpData :: "bytes \<Rightarrow> tcp_conn \<Rightarrow> tcp_conn option" where
  "onTcpData chunk c =
     (if tc_destroyed c then Some c
      else case tcp_loop (c\<lparr>tc_buf := tc_buf c @ chunk\<rparr>) of
             None \<Rightarrow> None
           | Some c' \<Rightarrow> Some (if 65537 < length (tc_buf c') then tcp_destroy c' else c'))"

definition onEnd :: "tcp_conn \<Rightarrow> tcp_conn" where
  "onEnd c = maybeEnd (c\<lparr>tc_ended := True\<rparr>)"

text \<open>The handler's answer: nothing (or an error), or a message; a message too long for its length prefix throws and is dropped.\<close>

definition onDone :: "bytes option \<Rightarrow> tcp_conn \<Rightarrow> tcp_conn" where
  "onDone out c =
     (let c1 = (case out of
                  None \<Rightarrow> c
                | Some msg \<Rightarrow>
                    if tc_destroyed c then c
                    else case u16 (length msg) of
                           None \<Rightarrow> c
                         | Some l \<Rightarrow> c\<lparr>tc_written := tc_written c @ [l @ msg]\<rparr>)
      in maybeEnd (c1\<lparr>tc_pending := tc_pending c1 - 1\<rparr>))"

section \<open>Where the filter listens\<close>

text \<open>Only private addresses of physical interfaces, none of the excluded ones, each once.\<close>

definition listen_ok :: "interfaces \<Rightarrow> string list \<Rightarrow> bool \<Rightarrow> string \<Rightarrow> bool" where
  "listen_ok ifaces exclude linkLocal address =
     (address \<notin> set exclude \<and>
      (\<exists>(name, addrs) \<in> set ifaces. isPhysicalLan name \<and>
         (\<exists>a \<in> set addrs. \<not> ia_internal a \<and>
            (address = ia_address a \<and> (isPrivateIpv4 address \<or> isUla address) \<or>
             linkLocal \<and> address = ia_address a @ ''%'' @ name \<and> isLinkLocal6 (ia_address a)))))"

definition listen_inv :: "string list \<Rightarrow> (string \<Rightarrow> bool) \<Rightarrow> string list \<times> (string \<times> nat) list \<Rightarrow> bool" where
  "listen_inv ex P st =
     (set ex \<subseteq> set (fst st) \<and> fst ` set (snd st) \<subseteq> set (fst st) \<and> distinct (map fst (snd st)) \<and>
      (\<forall>a \<in> fst ` set (snd st). a \<notin> set ex \<and> P a))"

lemma listen_address_private:
  "listen_address linkLocal name a = Some address \<Longrightarrow>
   \<not> ia_internal a \<and> address \<noteq> [] \<and>
   (address = ia_address a \<and> (isPrivateIpv4 address \<or> isUla address) \<or>
    linkLocal \<and> address = ia_address a @ ''%'' @ name \<and> isLinkLocal6 (ia_address a))"
  by (auto simp: listen_address_def split: if_splits)

lemma add_listen_inv:
  assumes "listen_inv ex P st" "\<And>address. listen_address linkLocal name a = Some address \<Longrightarrow> P address"
  shows "listen_inv ex P (add_listen linkLocal name st a)"
  using assms by (auto simp: listen_inv_def add_listen_def split: option.splits)

lemma listen_loop_inv:
  defines "step \<equiv> \<lambda>linkLocal st (name, addrs). if isPhysicalLan name then foldl (add_listen linkLocal name) st addrs else st"
  assumes "P = (\<lambda>address. address \<in> set ex \<or> listen_ok ifaces ex linkLocal address)"
  shows "listen_inv ex P (foldl (step linkLocal) (ex, []) ifaces)"
proof (rule foldl_invariant [where Q = "listen_inv ex P"])
  show "listen_inv ex P (ex, [])" by (simp add: listen_inv_def)
next
  fix st i
  assume i: "i \<in> set ifaces" and st: "listen_inv ex P st"
  obtain name addrs where n: "i = (name, addrs)" by (cases i)
  have "listen_inv ex P (foldl (add_listen linkLocal name) st addrs)" if "isPhysicalLan name"
  proof (rule foldl_invariant [where Q = "listen_inv ex P", OF st])
    fix s a
    assume a: "a \<in> set addrs" and s: "listen_inv ex P s"
    show "listen_inv ex P (add_listen linkLocal name s a)"
    proof (rule add_listen_inv [OF s])
      fix address
      assume "listen_address linkLocal name a = Some address"
      from listen_address_private [OF this] i n a that show "P address" unfolding assms(2) listen_ok_def by blast
    qed
  qed
  with st n show "listen_inv ex P (step linkLocal st i)" by (simp add: step_def)
qed

lemma listen_addresses_private:
  "distinct (map fst (lanListenAddresses ifaces ex linkLocal)) \<and>
   (\<forall>address \<in> fst ` set (lanListenAddresses ifaces ex linkLocal). listen_ok ifaces (filter (\<lambda>x. x \<noteq> []) ex) linkLocal address)"
  using listen_loop_inv [OF refl, of "filter (\<lambda>x. x \<noteq> []) ex" ifaces linkLocal]
  unfolding lanListenAddresses_def listen_inv_def by blast

section \<open>Reconciling the sockets\<close>

definition listener_ok :: "listener \<Rightarrow> bool" where
  "listener_ok l =
     (distinct (dl_bound l) \<and> set (dl_bound l) \<inter> set (dl_busy l) = {} \<and>
      set (dl_bound l) \<inter> fst ` set (dl_failed l) = {} \<and> set (dl_busy l) \<inter> fst ` set (dl_failed l) = {})"

definition tried :: "listener \<Rightarrow> string set" where
  "tried l = set (dl_bound l) \<union> set (dl_busy l) \<union> fst ` set (dl_failed l)"

lemma bind_one_tried: "tried (bind_one udp tcp l a) = insert (fst a) (tried l)"
  by (auto simp: bind_one_def tried_def split: option.splits)

lemma bind_one_ok: "listener_ok l \<Longrightarrow> fst a \<notin> set (dl_busy l) \<union> fst ` set (dl_failed l) \<Longrightarrow> listener_ok (bind_one udp tcp l a)"
  by (auto simp: bind_one_def listener_ok_def split: option.splits)

lemma disjoint_insertI: "X \<subseteq> insert a Y \<Longrightarrow> a \<notin> W \<Longrightarrow> W \<inter> Y = {} \<Longrightarrow> W \<inter> X = {}"
  by blast

lemma bind_all:
  "listener_ok l \<Longrightarrow> distinct (map fst want) \<Longrightarrow>
   fst ` set want \<inter> (set (dl_busy l) \<union> fst ` set (dl_failed l)) = {} \<Longrightarrow>
   listener_ok (foldl (bind_one udp tcp) l want) \<and> tried (foldl (bind_one udp tcp) l want) = tried l \<union> fst ` set want"
proof (induction want arbitrary: l)
  case (Cons a want)
  have "set (dl_busy (bind_one udp tcp l a)) \<union> fst ` set (dl_failed (bind_one udp tcp l a))
      \<subseteq> insert (fst a) (set (dl_busy l) \<union> fst ` set (dl_failed l))"
    by (auto simp: bind_one_def split: option.splits)
  moreover have "fst a \<notin> fst ` set want" "fst ` set want \<inter> (set (dl_busy l) \<union> fst ` set (dl_failed l)) = {}"
    using Cons.prems by auto
  ultimately have "fst ` set want \<inter> (set (dl_busy (bind_one udp tcp l a)) \<union> fst ` set (dl_failed (bind_one udp tcp l a))) = {}"
    by (rule disjoint_insertI)
  moreover have "listener_ok (bind_one udp tcp l a)" using Cons.prems by (intro bind_one_ok) auto
  moreover have "distinct (map fst want)" using Cons.prems by simp
  ultimately show ?case using Cons.IH [of "bind_one udp tcp l a"] by (simp add: bind_one_tried insert_commute)
qed simp

lemma want_map:
  "wf_map m \<Longrightarrow> wf_map (foldl (\<lambda>m (a, f). mset_at a f m) m as) \<and>
   fst ` set (foldl (\<lambda>m (a, f). mset_at a f m) m as) = fst ` set m \<union> fst ` set as"
proof (induction as arbitrary: m)
  case (Cons a as)
  obtain k f where a: "a = (k, f)" by (cases a)
  show ?case using Cons.IH [of "mset_at k f m"] Cons.prems unfolding a by simp
qed simp

text \<open>
  After reconciling, every wanted address is in exactly one of the three sets and no other
  address is bound.
\<close>

lemma reconcile_ok:
  assumes "distinct (dl_bound l)"
  shows "listener_ok (reconcile udp tcp as l) \<and> tried (reconcile udp tcp as l) = fst ` set as"
proof -
  let ?want = "foldl (\<lambda>m (a, f). mset_at a f m) [] as"
  let ?l = "l\<lparr>dl_bound := filter (\<lambda>a. a \<in> fst ` set ?want) (dl_bound l), dl_busy := [], dl_failed := []\<rparr>"
  have w: "distinct (map fst ?want)" "fst ` set ?want = fst ` set as"
    using want_map [of "[]" as] by (auto simp: wf_map_def)
  have "listener_ok ?l" using assms by (simp add: listener_ok_def)
  from bind_all [OF this w(1), of udp tcp]
  have "listener_ok (reconcile udp tcp as l)" "tried (reconcile udp tcp as l) = tried ?l \<union> fst ` set ?want"
    by (simp_all add: reconcile_def Let_def)
  moreover have "tried ?l \<subseteq> fst ` set as" using w(2) by (auto simp: tried_def)
  ultimately show ?thesis using w(2) by auto
qed

section \<open>The framing loop\<close>

definition waiting :: "tcp_conn \<Rightarrow> bool" where
  "waiting c = (length (tc_buf c) < 2 \<or> (\<exists>len. readU16 (tc_buf c) 0 = Some len \<and> 12 \<le> len \<and> length (tc_buf c) < 2 + len))"

definition tcp_next :: "nat \<Rightarrow> tcp_conn \<Rightarrow> tcp_conn" where
  "tcp_next len c =
     c\<lparr>tc_buf := drop (2 + len) (tc_buf c), tc_pending := tc_pending c + 1,
       tc_started := tc_started c @ [subarray (tc_buf c) 2 (2 + len)]\<rparr>"

lemma tcp_loop_waiting: "waiting c \<Longrightarrow> tcp_loop c = Some c"
  by (subst tcp_loop.simps) (auto simp: waiting_def)

lemma tcp_loop_small: "readU16 (tc_buf c) 0 = Some len \<Longrightarrow> len < 12 \<Longrightarrow> tcp_loop c = Some (tcp_destroy c)"
  using readU16_None_iff [of "tc_buf c" 0] by (subst tcp_loop.simps) auto

lemma tcp_loop_many:
  "readU16 (tc_buf c) 0 = Some len \<Longrightarrow> 12 \<le> len \<Longrightarrow> 2 + len \<le> length (tc_buf c) \<Longrightarrow> MAX_TCP_PIPELINE \<le> tc_pending c \<Longrightarrow>
   tcp_loop c = Some (tcp_destroy (c\<lparr>tc_pending := tc_pending c + 1\<rparr>))"
  by (subst tcp_loop.simps) (simp add: Let_def tcp_destroy_def)

lemma tcp_loop_next:
  "readU16 (tc_buf c) 0 = Some len \<Longrightarrow> 12 \<le> len \<Longrightarrow> 2 + len \<le> length (tc_buf c) \<Longrightarrow> tc_pending c < MAX_TCP_PIPELINE \<Longrightarrow>
   tcp_loop c = tcp_loop (tcp_next len c)"
  by (subst tcp_loop.simps) (simp add: Let_def tcp_next_def)

lemma tcp_cases:
  obtains (wait) "waiting c"
  | (small) len where "readU16 (tc_buf c) 0 = Some len" "len < 12"
  | (many) len where "readU16 (tc_buf c) 0 = Some len" "12 \<le> len" "2 + len \<le> length (tc_buf c)" "MAX_TCP_PIPELINE \<le> tc_pending c"
  | (step) len where "readU16 (tc_buf c) 0 = Some len" "12 \<le> len" "2 + len \<le> length (tc_buf c)" "tc_pending c < MAX_TCP_PIPELINE"
  using readU16_None_iff [of "tc_buf c" 0]
  by (cases "readU16 (tc_buf c) 0") (auto simp: waiting_def, meson not_le)

text \<open>Every round shortens the buffer: the loop ends, on every buffer.\<close>

lemma tcp_loop_total:
  "\<exists>c'. tcp_loop c = Some c' \<and> (\<not> tc_destroyed c \<longrightarrow> tc_destroyed c' \<and> tc_buf c' = [] \<or> waiting c') \<and>
     (tc_pending c \<le> MAX_TCP_PIPELINE \<longrightarrow> tc_destroyed c' \<or> tc_pending c' \<le> MAX_TCP_PIPELINE) \<and>
     (\<not> tc_destroyed c' \<longrightarrow> length (tc_started c') + tc_pending c = length (tc_started c) + tc_pending c') \<and>
     tc_closed c' = tc_closed c \<and> tc_ended c' = tc_ended c \<and> tc_written c' = tc_written c"
proof (induction "length (tc_buf c)" arbitrary: c rule: less_induct)
  case less
  show ?case
  proof (cases c rule: tcp_cases)
    case wait
    then show ?thesis by (simp add: tcp_loop_waiting)
  next
    case (small len)
    then show ?thesis by (simp add: tcp_loop_small tcp_destroy_def)
  next
    case (many len)
    then show ?thesis by (simp add: tcp_loop_many tcp_destroy_def)
  next
    case (step len)
    have "length (tc_buf (tcp_next len c)) < length (tc_buf c)" using step by (simp add: tcp_next_def)
    from less [OF this] step show ?thesis by (fastforce simp: tcp_loop_next tcp_next_def)
  qed
qed

lemma tcp_loop_append:
  assumes "\<not> tc_destroyed c"
  shows "tcp_loop (c\<lparr>tc_buf := tc_buf c @ ys\<rparr>) =
    tcp_loop c \<bind> (\<lambda>c'. if tc_destroyed c' then Some c' else tcp_loop (c'\<lparr>tc_buf := tc_buf c' @ ys\<rparr>))"
  using assms
proof (induction "length (tc_buf c)" arbitrary: c rule: less_induct)
  case less
  let ?c = "c\<lparr>tc_buf := tc_buf c @ ys\<rparr>"
  have r: "readU16 (tc_buf ?c) 0 = Some len" if "readU16 (tc_buf c) 0 = Some len" for len
    using that readU16_None_iff [of "tc_buf c" 0] by (auto simp: readU16_def nth_append split: if_splits)
  show ?case
  proof (cases c rule: tcp_cases)
    case wait
    with less.prems show ?thesis by (simp add: tcp_loop_waiting)
  next
    case (small len)
    with r [OF small(1)] show ?thesis by (simp add: tcp_loop_small tcp_destroy_def)
  next
    case (many len)
    with r [OF many(1)] show ?thesis by (simp add: tcp_loop_many tcp_destroy_def)
  next
    case (step len)
    have n: "tcp_next len ?c = (tcp_next len c)\<lparr>tc_buf := tc_buf (tcp_next len c) @ ys\<rparr>"
      using step by (simp add: tcp_next_def subarray_def)
    have "tcp_loop ?c = tcp_loop (tcp_next len ?c)" using step r [OF step(1)] by (intro tcp_loop_next) auto
    moreover have "length (tc_buf (tcp_next len c)) < length (tc_buf c)" "\<not> tc_destroyed (tcp_next len c)"
      using step less.prems by (simp_all add: tcp_next_def)
    ultimately show ?thesis using less.hyps n tcp_loop_next [OF step] by simp
  qed
qed

lemma waiting_short: "waiting c \<Longrightarrow> length (tc_buf c) < 65537"
  using readU16_bound [of "tc_buf c" 0] by (fastforce simp: waiting_def)

text \<open>The guard after the loop never fires: what is left fits one message.\<close>

lemma onTcpData_loop:
  assumes "\<not> tc_destroyed c"
  shows "onTcpData chunk c = tcp_loop (c\<lparr>tc_buf := tc_buf c @ chunk\<rparr>)"
proof -
  obtain c' where "tcp_loop (c\<lparr>tc_buf := tc_buf c @ chunk\<rparr>) = Some c'" "tc_buf c' = [] \<or> waiting c'"
    using tcp_loop_total [of "c\<lparr>tc_buf := tc_buf c @ chunk\<rparr>"] assms by auto
  with assms waiting_short [of c'] show ?thesis by (auto simp: onTcpData_def)
qed

definition conn_idle :: "tcp_conn \<Rightarrow> bool" where
  "conn_idle c = (tc_destroyed c \<or> waiting c)"

interpretation tcp_reader: incremental_reader conn_idle onTcpData
proof
  fix c :: tcp_conn and c' xs ys
  assume c: "conn_idle c"
  show "onTcpData [] c = Some c"
    using c by (cases "tc_destroyed c") (auto simp: onTcpData_loop tcp_loop_waiting conn_idle_def, simp add: onTcpData_def)
  show "conn_idle c'" if "onTcpData xs c = Some c'"
    using that c tcp_loop_total [of "c\<lparr>tc_buf := tc_buf c @ xs\<rparr>"]
    by (cases "tc_destroyed c") (auto simp: onTcpData_loop conn_idle_def, auto simp: onTcpData_def)
  show "onTcpData (xs @ ys) c = onTcpData xs c \<bind> onTcpData ys"
  proof (cases "tc_destroyed c")
    case True
    then show ?thesis by (simp add: onTcpData_def)
  next
    case False
    have "tcp_loop (c\<lparr>tc_buf := tc_buf c @ xs @ ys\<rparr>) =
        tcp_loop (c\<lparr>tc_buf := tc_buf c @ xs\<rparr>) \<bind> (\<lambda>c'. if tc_destroyed c' then Some c' else tcp_loop (c'\<lparr>tc_buf := tc_buf c' @ ys\<rparr>))"
      using tcp_loop_append [of "c\<lparr>tc_buf := tc_buf c @ xs\<rparr>" ys] False by simp
    also have "(\<lambda>c'. if tc_destroyed c' then Some c' else tcp_loop (c'\<lparr>tc_buf := tc_buf c' @ ys\<rparr>)) = onTcpData ys"
    proof
      show "(if tc_destroyed c' then Some c' else tcp_loop (c'\<lparr>tc_buf := tc_buf c' @ ys\<rparr>)) = onTcpData ys c'" for c'
        by (cases "tc_destroyed c'") (simp_all add: onTcpData_loop, simp add: onTcpData_def)
    qed
    finally show ?thesis using False by (simp add: onTcpData_loop)
  qed
qed

section \<open>A connection's life\<close>

text \<open>
  The events of a connection. A completion needs a query in flight, and after the client's end
  no data arrive.
\<close>

datatype tcp_event = Data bytes | End | Done "bytes option" | Idle

fun tcp_step :: "tcp_event \<Rightarrow> tcp_conn \<Rightarrow> tcp_conn option" where
  "tcp_step (Data chunk) c = (if tc_ended c then Some c else onTcpData chunk c)"
| "tcp_step End c = Some (onEnd c)"
| "tcp_step (Done out) c = Some (if tc_pending c = 0 then c else onDone out c)"
| "tcp_step Idle c = Some (tcp_destroy c)"

definition conn_ok :: "tcp_conn \<Rightarrow> bool" where
  "conn_ok c =
     (length (tc_buf c) < 65537 \<and>
      (tc_destroyed c \<or>
       waiting c \<and> tc_pending c \<le> MAX_TCP_PIPELINE \<and>
       length (tc_written c) + tc_pending c \<le> length (tc_started c) \<and>
       tc_closed c = (tc_ended c \<and> tc_pending c = 0)))"

lemma onTcpData_ok:
  assumes "conn_ok c" "\<not> tc_ended c"
  shows "\<exists>c'. onTcpData chunk c = Some c' \<and> conn_ok c'"
proof (cases "tc_destroyed c")
  case True
  with assms show ?thesis by (simp add: onTcpData_def)
next
  case False
  obtain c' where "tcp_loop (c\<lparr>tc_buf := tc_buf c @ chunk\<rparr>) = Some c'"
      "tc_destroyed c' \<and> tc_buf c' = [] \<or> waiting c'" "tc_destroyed c' \<or> tc_pending c' \<le> MAX_TCP_PIPELINE"
      "tc_destroyed c' \<or> length (tc_started c') + tc_pending c = length (tc_started c) + tc_pending c'"
      "tc_closed c' = tc_closed c" "tc_ended c' = tc_ended c" "tc_written c' = tc_written c"
    using tcp_loop_total [of "c\<lparr>tc_buf := tc_buf c @ chunk\<rparr>"] assms False by (auto simp: conn_ok_def)
  with assms False waiting_short [of c'] show ?thesis by (auto simp: onTcpData_loop conn_ok_def)
qed

lemma onDone_ok: "conn_ok c \<Longrightarrow> tc_pending c \<noteq> 0 \<Longrightarrow> conn_ok (onDone out c)"
  by (auto simp: conn_ok_def onDone_def maybeEnd_def Let_def waiting_def split: option.splits)

interpretation tcp_machine: total_machine conn_ok tcp_step
proof
  fix c :: tcp_conn and r
  assume c: "conn_ok c"
  show "\<exists>c'. tcp_step r c = Some c' \<and> conn_ok c'"
  proof (cases r)
    case (Data chunk)
    with c onTcpData_ok [of c chunk] show ?thesis by auto
  next
    case End
    with c show ?thesis by (auto simp: conn_ok_def onEnd_def maybeEnd_def waiting_def)
  next
    case (Done out)
    with c onDone_ok [of c out] show ?thesis by simp
  next
    case Idle
    with c show ?thesis by (simp add: conn_ok_def tcp_destroy_def)
  qed
qed

text \<open>
  C32. Whatever a client sends and whenever its queries complete, every event of a TCP connection
  is handled to its end: the framing loop terminates on every buffer, at most 65,536 bytes stay
  buffered, at most 32 queries are in flight, no more replies are written than queries completed,
  and the connection is closed exactly when the client has ended and no query is outstanding.
\<close>

theorem tcp_connection_terminates:
  "\<exists>c. run tcp_step evs newConn = Some c \<and> length (tc_buf c) \<le> 65536 \<and>
     (tc_destroyed c \<or>
      tc_pending c \<le> 32 \<and> length (tc_written c) + tc_pending c \<le> length (tc_started c) \<and>
      tc_closed c = (tc_ended c \<and> tc_pending c = 0))"
proof -
  have "conn_ok newConn" by (simp add: conn_ok_def newConn_def waiting_def)
  from tcp_machine.run_total [OF this, of evs] show ?thesis by (auto simp: conn_ok_def MAX_TCP_PIPELINE_def)
qed

section \<open>Framing\<close>

definition frame :: "bytes \<Rightarrow> bytes" where
  "frame m = byte_of (length m div 256) # byte_of (length m) # m"

definition is_query :: "bytes \<Rightarrow> bool" where
  "is_query m = (12 \<le> length m \<and> length m \<le> 65535)"

lemma frame_length: "is_query m \<Longrightarrow> readU16 (frame m @ rest) 0 = Some (length m)"
proof -
  assume "is_query m"
  then have "length m div 256 < 256" by (simp add: is_query_def div_less_iff_less_mult)
  then show ?thesis using div_mult_mod_eq [of "length m" 256] by (simp add: frame_def readU16_def)
qed

lemma loop_frame:
  assumes "is_query m" "tc_pending c < MAX_TCP_PIPELINE" "tc_buf c = frame m @ rest"
  shows "tcp_loop c = tcp_loop (c\<lparr>tc_buf := rest, tc_pending := tc_pending c + 1, tc_started := tc_started c @ [m]\<rparr>)"
proof -
  have "tcp_next (length m) c = c\<lparr>tc_buf := rest, tc_pending := tc_pending c + 1, tc_started := tc_started c @ [m]\<rparr>"
    using assms(3) by (simp add: tcp_next_def frame_def subarray_def)
  moreover have "tcp_loop c = tcp_loop (tcp_next (length m) c)"
    using assms frame_length [OF assms(1), of rest] by (intro tcp_loop_next) (auto simp: frame_def is_query_def)
  ultimately show ?thesis by simp
qed

lemma loop_frames:
  "list_all is_query ms \<Longrightarrow> tc_pending c + length ms \<le> MAX_TCP_PIPELINE \<Longrightarrow> tc_buf c = concat (map frame ms) @ rest \<Longrightarrow>
   waiting (c\<lparr>tc_buf := rest\<rparr>) \<Longrightarrow>
   tcp_loop c = Some (c\<lparr>tc_buf := rest, tc_pending := tc_pending c + length ms, tc_started := tc_started c @ ms\<rparr>)"
proof (induction ms arbitrary: c)
  case Nil
  then have "c\<lparr>tc_buf := rest\<rparr> = c" by simp
  with Nil tcp_loop_waiting [of c] show ?case by simp
next
  case (Cons m ms)
  let ?c = "c\<lparr>tc_buf := concat (map frame ms) @ rest, tc_pending := tc_pending c + 1, tc_started := tc_started c @ [m]\<rparr>"
  have "tcp_loop c = tcp_loop ?c" using Cons.prems by (intro loop_frame) auto
  moreover have "waiting (?c\<lparr>tc_buf := rest\<rparr>)" using Cons.prems(4) by (simp add: waiting_def)
  with Cons.IH [of ?c] Cons.prems
  have "tcp_loop ?c = Some (?c\<lparr>tc_buf := rest, tc_pending := tc_pending ?c + length ms, tc_started := tc_started ?c @ ms\<rparr>)"
    by simp
  ultimately show ?case by simp
qed

lemma frame_prefix_waits:
  assumes "is_query m" "strict_prefix rest (frame m)"
  shows "waiting (c\<lparr>tc_buf := rest\<rparr>)"
proof (cases "length rest < 2")
  case False
  obtain more where f: "frame m = rest @ more" "more \<noteq> []" using assms(2) by (auto simp: strict_prefix_def prefix_def)
  have "readU16 rest 0 = readU16 (frame m @ []) 0" using False f readU16_append [of 0 rest more] by simp
  then have "readU16 rest 0 = Some (length m)" using frame_length [OF assms(1), of "[]"] by simp
  moreover have "length rest < length (frame m)" using f by simp
  ultimately show ?thesis using assms(1) by (simp add: waiting_def frame_def is_query_def)
qed (simp add: waiting_def)

text \<open>
  However a client's TCP stream is cut into chunks, the listener hands its queries to the
  resolver exactly as they were framed and in their order, and keeps the incomplete last one.
\<close>

theorem tcp_listener_frames:
  assumes "list_all is_query ms" "length ms \<le> 32" "is_query m" "strict_prefix rest (frame m)"
    and "concat chunks = concat (map frame ms) @ rest"
  shows "feed_all onTcpData chunks newConn =
    Some (newConn\<lparr>tc_buf := rest, tc_pending := length ms, tc_started := ms\<rparr>)"
proof -
  have i: "conn_idle newConn" by (simp add: conn_idle_def newConn_def waiting_def)
  have "waiting (newConn\<lparr>tc_buf := concat chunks\<rparr>\<lparr>tc_buf := rest\<rparr>)" using frame_prefix_waits [OF assms(3,4)] by simp
  then have "tcp_loop (newConn\<lparr>tc_buf := concat chunks\<rparr>) =
      Some (newConn\<lparr>tc_buf := rest, tc_pending := length ms, tc_started := ms\<rparr>)"
    using loop_frames [of ms "newConn\<lparr>tc_buf := concat chunks\<rparr>" rest] assms by (simp add: newConn_def MAX_TCP_PIPELINE_def)
  with tcp_reader.feed_all_concat [OF i] show ?thesis by (simp add: onTcpData_loop newConn_def)
qed

theorem tcp_listener_frames_witness:
  "feed_all onTcpData [frame (replicate 12 7), take 5 (frame (replicate 12 9))] newConn =
    Some (newConn\<lparr>tc_buf := take 5 (frame (replicate 12 9)), tc_pending := 1, tc_started := [replicate 12 7]\<rparr>)"
proof -
  have "strict_prefix (take 5 (frame (replicate 12 9))) (frame (replicate 12 9))" by code_simp
  moreover have "list_all is_query [replicate 12 7]" "is_query (replicate 12 9)" by (simp_all add: is_query_def)
  ultimately show ?thesis
    using tcp_listener_frames [of "[replicate 12 7]" "replicate 12 9" "take 5 (frame (replicate 12 9))"
        "[frame (replicate 12 7), take 5 (frame (replicate 12 9))]"] by simp
qed

end
