(* ===== verification/Edge_Topics.thy ===== *)
theory Edge_Topics
  imports Js_Values
begin

text \<open>
  MQTT topics and filters (\<open>src/src/edge/topics.js\<close>): the checks of filters and topics, the
  match of a topic against a filter, and the question the edge host asks before it grants a
  subscription: does the approved filter cover the requested one? The loops over the levels are
  recursions on the two level lists; the comparison of the lengths after the loop is the case
  in which the filter's levels are used up.
\<close>

section \<open>Checks\<close>

definition MAX_LEN :: nat where
  "MAX_LEN = 256"

fun levels_ok :: "string list \<Rightarrow> bool" where
  "levels_ok [] = True"
| "levels_ok (l # ls) =
     (if l = ''#'' then ls = []
      else (l = ''+'' \<or> CHR ''#'' \<notin> set l \<and> CHR ''+'' \<notin> set l) \<and> levels_ok ls)"

text \<open>The control characters \<open>\0\<close>, \<open>\r\<close> and \<open>\n\<close>.\<close>

definition is_ctl :: "char \<Rightarrow> bool" where
  "is_ctl c = (let n = of_char c :: nat in n = 0 \<or> n = 13 \<or> n = 10)"

definition validFilter :: "json \<Rightarrow> bool" where
  "validFilter v = (case v of
      JStr f \<Rightarrow> f \<noteq> [] \<and> length f \<le> MAX_LEN \<and> \<not> list_ex is_ctl f \<and> levels_ok (split_on CHR ''/'' f)
    | _ \<Rightarrow> False)"

definition validTopic :: "json \<Rightarrow> bool" where
  "validTopic v = (case v of
      JStr t \<Rightarrow> 0 < length t \<and> length t \<le> MAX_LEN \<and>
        \<not> list_ex (\<lambda>c. is_ctl c \<or> c = CHR ''#'' \<or> c = CHR ''+'') t
    | _ \<Rightarrow> False)"

definition validPluginFilter :: "json \<Rightarrow> bool" where
  "validPluginFilter v = (case v of
      JStr f \<Rightarrow> validFilter v \<and> \<not> prefix ''#'' f \<and> \<not> prefix ''+'' f \<and> \<not> prefix ''$'' f
    | _ \<Rightarrow> False)"

section \<open>Matching and covering\<close>

fun match_levels :: "string list \<Rightarrow> string list \<Rightarrow> bool" where
  "match_levels [] t = (t = [])"
| "match_levels (f # fs) t =
     (if f = ''#'' then True
      else case t of
             [] \<Rightarrow> False
           | x # ts \<Rightarrow> if f \<noteq> ''+'' \<and> f \<noteq> x then False else match_levels fs ts)"

definition matches :: "string \<Rightarrow> string \<Rightarrow> bool" where
  "matches flt topic =
     (let f = split_on CHR ''/'' flt; t = split_on CHR ''/'' topic
      in if prefix ''$'' topic \<and> (hd f = ''#'' \<or> hd f = ''+'') then False else match_levels f t)"

fun cover_levels :: "string list \<Rightarrow> string list \<Rightarrow> bool" where
  "cover_levels [] n = (n = [])"
| "cover_levels (o' # os) n =
     (if o' = ''#'' then True
      else case n of
             [] \<Rightarrow> False
           | x # ns \<Rightarrow>
               if x = ''#'' then False
               else if o' = ''+'' then cover_levels os ns
               else if x = ''+'' \<or> x \<noteq> o' then False
               else cover_levels os ns)"

definition covers :: "string \<Rightarrow> string \<Rightarrow> bool" where
  "covers outer inner = cover_levels (split_on CHR ''/'' outer) (split_on CHR ''/'' inner)"

section \<open>Covering is inclusion\<close>

lemma cover_levels_sound: "cover_levels os ns \<Longrightarrow> match_levels ns ts \<Longrightarrow> match_levels os ts"
proof (induction os ns arbitrary: ts rule: cover_levels.induct)
  case (2 o' os n)
  then show ?case by (auto split: list.splits if_splits)
qed auto

text \<open>A topic of the filter: wildcards are filled with \<open>z\<close>.\<close>

fun sample_topic :: "string list \<Rightarrow> string list" where
  "sample_topic [] = []"
| "sample_topic (x # xs) = (if x = ''#'' then [''z''] else (if x = ''+'' then ''z'' else x) # sample_topic xs)"

lemma sample_topic_matches: "match_levels ns (sample_topic ns)"
  by (induction ns) auto

lemma sample_topic_plain: "\<forall>l \<in> set ns. CHR ''/'' \<notin> set l \<Longrightarrow> \<forall>l \<in> set (sample_topic ns). CHR ''/'' \<notin> set l"
  by (induction ns) auto

text \<open>A filter that is not covered has a topic outside, and one with as many levels as it has literal levels in front.\<close>

lemma cover_levels_complete:
  "\<not> cover_levels os ns \<Longrightarrow> \<forall>l \<in> set ns. CHR ''/'' \<notin> set l \<Longrightarrow>
   \<exists>ts. match_levels ns ts \<and> \<not> match_levels os ts \<and> (\<forall>l \<in> set ts. CHR ''/'' \<notin> set l)"
proof (induction os ns rule: cover_levels.induct)
  case (1 n)
  then obtain x xs where "n = x # xs" by (cases n) auto
  then show ?case
    using sample_topic_matches [of n] sample_topic_plain [OF 1(2)] by (intro exI [of _ "sample_topic n"]) auto
next
  case (2 o' os n)
  have o': "o' \<noteq> ''#''" using 2(3) by auto
  show ?case
  proof (cases n)
    case Nil
    with o' show ?thesis by (intro exI [of _ "[]"]) auto
  next
    case (Cons x ns)
    have plain: "\<forall>l \<in> set (sample_topic ns). CHR ''/'' \<notin> set l"
      using sample_topic_plain [of ns] 2(4) Cons by simp
    consider "x = ''#''" | "x \<noteq> ''#''" "o' = ''+'' \<or> x = o' \<and> x \<noteq> ''+''" "\<not> cover_levels os ns"
      | "x \<noteq> ''#''" "o' \<noteq> ''+''" "x = ''+'' \<or> x \<noteq> o'"
      using 2(3) Cons o' by (auto split: if_splits)
    then show ?thesis
    proof cases
      case 1
      with o' Cons show ?thesis by (intro exI [of _ "[]"]) auto
    next
      case a: 2
      have "\<exists>ts. match_levels ns ts \<and> \<not> match_levels os ts \<and> (\<forall>l \<in> set ts. CHR ''/'' \<notin> set l)"
        using a 2(1) [OF o' Cons a(1) _ a(3)] 2(2) [OF o' Cons a(1) _ _ a(3)] 2(4) Cons by (cases "o' = ''+''") auto
      then obtain ts where ts: "match_levels ns ts" "\<not> match_levels os ts" "\<forall>l \<in> set ts. CHR ''/'' \<notin> set l" by blast
      define y where "y = (if x = ''+'' then ''z'' else x)"
      have "CHR ''/'' \<notin> set y" using 2(4) Cons by (auto simp: y_def)
      with ts a o' Cons show ?thesis by (intro exI [of _ "y # ts"]) (auto simp: y_def)
    next
      case a: 3
      define y where "y = (if x = ''+'' then (if o' = ''z'' then ''y'' else ''z'') else x)"
      have "y \<noteq> o'" "CHR ''/'' \<notin> set y" using a 2(4) Cons by (auto simp: y_def)
      with a o' Cons plain sample_topic_matches [of ns] show ?thesis
        by (intro exI [of _ "y # sample_topic ns"]) (auto simp: y_def)
    qed
  qed
qed

lemma hd_split_on: "hd (split_on c (x # xs)) = (if x = c then [] else x # hd (split_on c xs))"
  by (auto split: list.splits)

lemma plugin_filter_hd:
  assumes "validPluginFilter (JStr f)"
  shows "hd (split_on CHR ''/'' f) \<noteq> ''#''" "hd (split_on CHR ''/'' f) \<noteq> ''+''"
proof -
  obtain x xs where f: "f = x # xs" using assms by (cases f) (auto simp: validPluginFilter_def validFilter_def)
  have "x \<noteq> CHR ''#''" "x \<noteq> CHR ''+''" using assms unfolding f by (auto simp: validPluginFilter_def)
  then show "hd (split_on CHR ''/'' f) \<noteq> ''#''" "hd (split_on CHR ''/'' f) \<noteq> ''+''"
    unfolding f hd_split_on by auto
qed

lemma covers_sound:
  assumes "validPluginFilter (JStr outer)" "covers outer inner" "matches inner t"
  shows "matches outer t"
  using assms cover_levels_sound plugin_filter_hd [OF assms(1)]
  by (auto simp: matches_def covers_def Let_def split: if_splits)

lemma covers_plugin_filter:
  assumes "validPluginFilter (JStr outer)" "covers outer inner" "validFilter (JStr inner)"
  shows "hd (split_on CHR ''/'' inner) = hd (split_on CHR ''/'' outer)"
proof -
  obtain a as where a: "split_on CHR ''/'' outer = a # as" by (cases "split_on CHR ''/'' outer") auto
  obtain b bs where b: "split_on CHR ''/'' inner = b # bs" by (cases "split_on CHR ''/'' inner") auto
  show ?thesis
    using assms(2) plugin_filter_hd [OF assms(1)] by (auto simp: covers_def a b split: if_splits)
qed

text \<open>
  C25. For filters a plugin may be granted, \<open>covers\<close> decides inclusion exactly: the approved
  filter covers the requested one precisely when every topic that matches the requested filter
  matches the approved one.
\<close>

theorem covers_is_inclusion:
  assumes "validPluginFilter (JStr outer)" "validPluginFilter (JStr inner)"
  shows "covers outer inner \<longleftrightarrow> (\<forall>t. matches inner t \<longrightarrow> matches outer t)"
proof
  assume "covers outer inner"
  then show "\<forall>t. matches inner t \<longrightarrow> matches outer t" using covers_sound [OF assms(1)] by blast
next
  assume all: "\<forall>t. matches inner t \<longrightarrow> matches outer t"
  show "covers outer inner"
  proof (rule ccontr)
    let ?n = "split_on CHR ''/'' inner"
    assume "\<not> covers outer inner"
    then obtain ts where ts: "match_levels ?n ts" "\<not> match_levels (split_on CHR ''/'' outer) ts"
        "\<forall>l \<in> set ts. CHR ''/'' \<notin> set l"
      using cover_levels_complete [of "split_on CHR ''/'' outer" ?n] split_on_no_sep [of _ "CHR ''/''" inner]
      by (auto simp: covers_def)
    have "ts \<noteq> []" using ts(1) plugin_filter_hd [OF assms(2)] by (cases ?n) (auto split: if_splits)
    then have "split_on CHR ''/'' (join CHR ''/'' ts) = ts" using ts(3) by (simp add: split_on_join)
    with ts spec [OF all, of "join CHR ''/'' ts"] plugin_filter_hd [OF assms(1)] plugin_filter_hd [OF assms(2)] show False
      by (auto simp: matches_def Let_def)
  qed
qed

theorem covers_is_inclusion_witness:
  "covers ''home/+/#'' ''home/lamp/state'' \<and> \<not> covers ''home/+/#'' ''home/#'' \<and>
   (\<exists>t. matches ''home/#'' t \<and> \<not> matches ''home/+/#'' t)"
proof -
  have "validPluginFilter (JStr ''home/+/#'')" "validPluginFilter (JStr ''home/#'')"
    "covers ''home/+/#'' ''home/lamp/state''" "\<not> covers ''home/+/#'' ''home/#''"
    by code_simp+
  with covers_is_inclusion [of "''home/+/#''" "''home/#''"] show ?thesis by simp
qed

end
