(* ===== verification/Edge_Package.thy ===== *)
theory Edge_Package
  imports Js_Values "HOL-Library.Multiset" "HOL-Library.List_Lexorder" "HOL-Library.Char_ord"
begin

text \<open>
  The package format of edge plugins (\<open>src/src/edge/gcplugin.js\<close>): the path check, the writer
  and the reader. The gateway reads packages it downloaded, so the reader must accept nothing
  that could be unpacked outside its directory. \<open>gzip\<close> and \<open>gunzip\<close> and the UTF-8 decoder
  are arguments; \<open>gunzip\<close> answers \<open>Inl True\<close> for output above the limit and \<open>Inl False\<close> for
  damaged input.
\<close>

section \<open>Limits and errors\<close>

definition LIM_packageBytes :: nat where
  "LIM_packageBytes = 20 * 1024 * 1024"

definition LIM_unpackedBytes :: nat where
  "LIM_unpackedBytes = 50 * 1024 * 1024"

definition LIM_fileCount :: nat where
  "LIM_fileCount = 1000"

definition LIM_pathLength :: nat where
  "LIM_pathLength = 200"

definition LIM_pathDepth :: nat where
  "LIM_pathDepth = 12"

datatype package_error = Bad_path | Not_a_package | Too_large | Corrupt | Duplicate | Too_many_files

definition MAGIC :: bytes where
  "MAGIC = [0x47, 0x43, 0x50, 0x4c, 0x55, 0x47, 0x49, 0x4e, 0x00, 0x01]"

section \<open>Paths\<close>

definition is_seg_first :: "char \<Rightarrow> bool" where
  "is_seg_first c = (is_alnum c \<or> c = CHR ''_'' \<or> c = CHR ''-'')"

definition is_seg_char :: "char \<Rightarrow> bool" where
  "is_seg_char c = (is_alnum c \<or> c = CHR ''.'' \<or> c = CHR ''_'' \<or> c = CHR ''-'')"

definition SEGMENT_RE :: "string \<Rightarrow> bool" where
  "SEGMENT_RE s = re_first is_seg_first is_seg_char 99 s"

text \<open>\<open>checkPath\<close> on a string: does it return?\<close>

definition checkPath :: "string \<Rightarrow> bool" where
  "checkPath p =
     (p \<noteq> [] \<and> length p \<le> LIM_pathLength \<and>
      \<not> prefix ''/'' p \<and> CHR 0x5C \<notin> set p \<and> CHR 0x00 \<notin> set p \<and>
      (let segs = split_on CHR ''/'' p
       in length segs \<le> LIM_pathDepth \<and> list_all (\<lambda>s. s \<noteq> ''.'' \<and> s \<noteq> ''..'' \<and> SEGMENT_RE s) segs))"

section \<open>Writing\<close>

fun encode_files :: "(string \<times> bytes) list \<Rightarrow> bytes option" where
  "encode_files [] = Some []"
| "encode_files ((p, d) # fs) = do {
     h \<leftarrow> u16 (length p);
     s \<leftarrow> u32 (length d);
     rest \<leftarrow> encode_files fs;
     Some (h @ map char_byte p @ s @ d @ rest)
   }"

text \<open>Before \<open>gzipSync\<close>; a bad path or an oversized field throws.\<close>

definition encode_raw :: "(string \<times> bytes) list \<Rightarrow> bytes option" where
  "encode_raw fs =
     (if list_all (\<lambda>pd. checkPath (fst pd)) fs
      then map_option (\<lambda>body. MAGIC @ body @ [0, 0]) (encode_files (sort_key fst fs)) else None)"

definition encode :: "(bytes \<Rightarrow> bytes) \<Rightarrow> (string \<times> bytes) list \<Rightarrow> bytes option" where
  "encode gzip fs = map_option gzip (encode_raw fs)"

section \<open>Reading\<close>

record unpacked =
  un_files :: "(string, bytes) jsmap"
  un_seen :: "string list"
  un_total :: nat
  un_off :: nat

function decode_loop :: "(bytes \<Rightarrow> string) \<Rightarrow> bytes \<Rightarrow> unpacked \<Rightarrow> package_error + unpacked" where
  "decode_loop dec raw u =
     (let off = un_off u
      in if length raw < off + 2 then Inl Corrupt
         else let nameLen = the (readU16 raw off); off1 = off + 2
           in if nameLen = 0 then Inr (u\<lparr>un_off := off1\<rparr>)
              else if LIM_pathLength < nameLen \<or> length raw < off1 + nameLen + 4 then Inl Corrupt
              else let name = dec (subarray raw off1 (off1 + nameLen)); off2 = off1 + nameLen
                in if \<not> checkPath name then Inl Bad_path
                   else let sz = the (readU32 raw off2); off3 = off2 + 4
                     in if length raw < off3 + sz then Inl Corrupt
                        else if LIM_unpackedBytes < un_total u + sz then Inl Too_large
                        else if toLower name \<in> set (un_seen u) then Inl Duplicate
                        else let files = mset_at name (subarray raw off3 (off3 + sz)) (un_files u)
                          in if LIM_fileCount < length files then Inl Too_many_files
                             else decode_loop dec raw
                                    \<lparr>un_files = files, un_seen = un_seen u @ [toLower name],
                                     un_total = un_total u + sz, un_off = off3 + sz\<rparr>)"
  by pat_completeness auto
termination
  by (relation "measure (\<lambda>(dec, raw, u). length raw - un_off u)") auto

declare decode_loop.simps [simp del]

text \<open>The check for a file that is also a folder of another file.\<close>

definition path_collides :: "string list \<Rightarrow> string \<Rightarrow> bool" where
  "path_collides seen name =
     (let segs = split_on CHR ''/'' name
      in list_ex (\<lambda>i. toLower (join CHR ''/'' (take i segs)) \<in> set seen) [1..<length segs])"

definition decode_raw :: "(bytes \<Rightarrow> string) \<Rightarrow> bytes \<Rightarrow> package_error + (string, bytes) jsmap" where
  "decode_raw dec raw =
     (if length raw < length MAGIC + 2 \<or> take (length MAGIC) raw \<noteq> MAGIC then Inl Not_a_package
      else case decode_loop dec raw \<lparr>un_files = [], un_seen = [], un_total = 0, un_off = length MAGIC\<rparr> of
             Inl e \<Rightarrow> Inl e
           | Inr u \<Rightarrow>
               if un_off u \<noteq> length raw then Inl Corrupt
               else if list_ex (path_collides (un_seen u)) (mkeys (un_files u)) then Inl Bad_path
               else Inr (un_files u))"

definition decode ::
  "(bytes \<Rightarrow> nat \<Rightarrow> bool + bytes) \<Rightarrow> (bytes \<Rightarrow> string) \<Rightarrow> bytes \<Rightarrow> package_error + (string, bytes) jsmap" where
  "decode gunzip dec buf =
     (if length buf < 20 then Inl Not_a_package
      else if LIM_packageBytes < length buf then Inl Too_large
      else if buf ! 0 \<noteq> 0x1f \<or> buf ! 1 \<noteq> 0x8b then Inl Not_a_package
      else case gunzip buf (LIM_unpackedBytes + 64 * 1024 + LIM_fileCount * (LIM_pathLength + 6)) of
             Inl tooLarge \<Rightarrow> Inl (if tooLarge then Too_large else Corrupt)
           | Inr raw \<Rightarrow> decode_raw dec raw)"

section \<open>What the reader accepts\<close>

text \<open>A relative path that stays below its directory.\<close>

definition safe_path :: "string \<Rightarrow> bool" where
  "safe_path p =
     (CHR 0x5C \<notin> set p \<and> (\<forall>s \<in> set (split_on CHR ''/'' p). s \<noteq> [] \<and> s \<noteq> ''.'' \<and> s \<noteq> ''..'') \<and>
      list_all is_ascii p)"

definition unpacked_ok :: "unpacked \<Rightarrow> bool" where
  "unpacked_ok u =
     (wf_map (un_files u) \<and> un_seen u = map toLower (mkeys (un_files u)) \<and> distinct (un_seen u) \<and>
      list_all checkPath (mkeys (un_files u)) \<and>
      un_total u = sum_list (map (\<lambda>pd. length (snd pd)) (un_files u)) \<and> un_total u \<le> LIM_unpackedBytes \<and>
      length (un_files u) \<le> LIM_fileCount)"

lemma seg_char_ascii: "is_seg_char c \<Longrightarrow> is_ascii c" "is_seg_first c \<Longrightarrow> is_ascii c"
  by (auto simp: is_seg_char_def is_seg_first_def is_alnum_def is_alpha_def is_lower_def is_upper_def is_digit_def
      is_ascii_def Let_def)

lemma SEGMENT_ascii: "SEGMENT_RE s \<Longrightarrow> s \<noteq> [] \<and> list_all is_ascii s"
  by (cases s) (auto simp: SEGMENT_RE_def re_first_def list_all_iff seg_char_ascii)

lemma checkPath_ascii: "checkPath p \<Longrightarrow> list_all is_ascii p"
proof -
  assume "checkPath p"
  then have "list_all (\<lambda>s. list_all is_ascii s) (split_on CHR ''/'' p)"
    using SEGMENT_ascii by (auto simp: checkPath_def Let_def list_all_iff)
  moreover have "is_ascii CHR ''/''" by (simp add: is_ascii_def)
  ultimately have "list_all is_ascii (join CHR ''/'' (split_on CHR ''/'' p))"
    using set_join [of "CHR ''/''" "split_on CHR ''/'' p"] unfolding list_all_iff by blast
  then show ?thesis by simp
qed

lemma checkPath_safe: "checkPath p \<Longrightarrow> safe_path p \<and> length p \<le> 200"
  using checkPath_ascii [of p] SEGMENT_ascii
  by (auto simp: checkPath_def safe_path_def Let_def list_all_iff LIM_pathLength_def)

lemma unpacked_add:
  assumes "unpacked_ok u" "checkPath name" "toLower name \<notin> set (un_seen u)"
    "un_total u + length d \<le> LIM_unpackedBytes" "length (mset_at name d (un_files u)) \<le> LIM_fileCount"
  shows "unpacked_ok \<lparr>un_files = mset_at name d (un_files u), un_seen = un_seen u @ [toLower name],
           un_total = un_total u + length d, un_off = off\<rparr>"
proof -
  have "name \<notin> fst ` set (un_files u)" using assms(1,3) by (auto simp: unpacked_ok_def)
  then have "mset_at name d (un_files u) = un_files u @ [(name, d)]" by (rule mset_at_absent)
  moreover have "wf_map (mset_at name d (un_files u))" using assms(1) by (simp add: unpacked_ok_def)
  ultimately show ?thesis using assms by (auto simp: unpacked_ok_def)
qed

lemma decode_loop_ok: "unpacked_ok u \<Longrightarrow> decode_loop dec raw u = Inr u' \<Longrightarrow> unpacked_ok u'"
proof (induction dec raw u rule: decode_loop.induct)
  case (1 dec raw u)
  show ?case
  proof (cases "the (readU16 raw (un_off u)) = 0")
    case True
    with 1(2,3) show ?thesis
      by (subst (asm) decode_loop.simps) (auto simp: Let_def unpacked_ok_def split: if_splits)
  next
    case nz: False
    define n off2 where "n = the (readU16 raw (un_off u))" and "off2 = un_off u + 2 + n"
    define name sz where "name = dec (subarray raw (un_off u + 2) off2)" and "sz = the (readU32 raw off2)"
    define d where "d = subarray raw (off2 + 4) (off2 + 4 + sz)"
    have g: "\<not> length raw < un_off u + 2" "\<not> (LIM_pathLength < n \<or> length raw < off2 + 4)" "checkPath name"
        "\<not> length raw < off2 + 4 + sz" "\<not> LIM_unpackedBytes < un_total u + sz" "toLower name \<notin> set (un_seen u)"
        "\<not> LIM_fileCount < length (mset_at name d (un_files u))"
      and r: "decode_loop dec raw \<lparr>un_files = mset_at name d (un_files u), un_seen = un_seen u @ [toLower name],
                un_total = un_total u + sz, un_off = off2 + 4 + sz\<rparr> = Inr u'"
      using 1(3) nz by (subst (asm) decode_loop.simps;
          auto simp: Let_def n_def off2_def name_def sz_def d_def split: if_splits)+
    have "length d = sz" using g by (simp add: d_def)
    with unpacked_add [OF 1(2) g(3,6), of d "off2 + 4 + sz"] g
    have "unpacked_ok \<lparr>un_files = mset_at name d (un_files u), un_seen = un_seen u @ [toLower name],
                un_total = un_total u + sz, un_off = off2 + 4 + sz\<rparr>" by simp
    then show ?thesis
      using 1(1) g r nz unfolding n_def off2_def name_def sz_def d_def by (auto simp: Let_def)
  qed
qed

lemma lower_slash: "lower_char c = CHR ''/'' \<longleftrightarrow> c = CHR ''/''"
proof
  assume "lower_char c = CHR ''/''"
  then have "of_char (lower_char c) = (of_char CHR ''/'' :: nat)" by simp
  then have "lower_code (of_char c) = 47" by simp
  then have "(of_char c :: nat) = of_char CHR ''/''" by (simp add: lower_code_def split: if_splits)
  then show "c = CHR ''/''" by (simp only: of_char_eq_iff)
next
  assume "c = CHR ''/''"
  moreover have "lower_char CHR ''/'' = CHR ''/''" by code_simp
  ultimately show "lower_char c = CHR ''/''" by simp
qed

lemma toLower_split:
  assumes "toLower q = toLower p @ CHR ''/'' # r"
  obtains q1 q2 where "q = q1 @ CHR ''/'' # q2" "toLower q1 = toLower p"
proof -
  have "toLower p @ CHR ''/'' # r = map lower_char q" using assms by (simp add: toLower_def)
  then obtain q1 c q2 where "q = q1 @ c # q2" "map lower_char q1 = toLower p" "lower_char c = CHR ''/''"
    by (auto simp: map_eq_append_conv [symmetric] append_eq_map_conv Cons_eq_map_conv)
  with that show ?thesis by (simp add: lower_slash toLower_def)
qed

lemma no_collision:
  assumes "\<not> path_collides seen q" "toLower p \<in> set seen"
  shows "\<not> prefix (toLower p @ ''/'') (toLower q)"
proof
  assume "prefix (toLower p @ ''/'') (toLower q)"
  then obtain r where "toLower q = toLower p @ CHR ''/'' # r" by (auto simp: prefix_def)
  then obtain q1 q2 where q: "q = q1 @ CHR ''/'' # q2" "toLower q1 = toLower p" by (rule toLower_split)
  let ?i = "length (split_on CHR ''/'' q1)"
  have "?i \<in> set [1..<length (split_on CHR ''/'' q)]"
    using q(1) by (auto simp: split_on_append_sep Suc_le_eq)
  moreover have "toLower (join CHR ''/'' (take ?i (split_on CHR ''/'' q))) \<in> set seen"
    using q assms(2) by (simp add: split_on_append_sep)
  ultimately show False using assms(1) by (auto simp: path_collides_def Let_def list_ex_iff)
qed

lemma decode_raw_ok:
  assumes "decode_raw dec raw = Inr files"
  shows "\<exists>u. unpacked_ok u \<and> un_files u = files \<and> \<not> list_ex (path_collides (un_seen u)) (mkeys files)"
proof -
  obtain u where "decode_loop dec raw \<lparr>un_files = [], un_seen = [], un_total = 0, un_off = length MAGIC\<rparr> = Inr u"
      "un_files u = files" "\<not> list_ex (path_collides (un_seen u)) (mkeys files)"
    using assms by (auto simp: decode_raw_def split: if_splits sum.splits)
  moreover have "unpacked_ok \<lparr>un_files = [], un_seen = [], un_total = 0, un_off = length MAGIC\<rparr>"
    by (simp add: unpacked_ok_def)
  ultimately show ?thesis using decode_loop_ok by blast
qed

text \<open>
  C22. Whatever bytes arrive, a package the reader accepts can be unpacked safely: every path is
  relative and has no empty, dot or dot-dot segment, no two paths differ only in case, no file is
  also a folder of another file, and file count and total size are within the limits.
\<close>

theorem accepted_package_is_safe:
  assumes "decode gunzip dec buf = Inr files"
  shows "wf_map files \<and> length files \<le> 1000 \<and> sum_list (map (\<lambda>pd. length (snd pd)) files) \<le> 50 * 1024 * 1024 \<and>
    distinct (map toLower (mkeys files)) \<and>
    (\<forall>p \<in> set (mkeys files). safe_path p \<and> length p \<le> 200 \<and>
       (\<forall>q \<in> set (mkeys files). \<not> prefix (toLower p @ ''/'') (toLower q)))"
proof -
  obtain raw where "decode_raw dec raw = Inr files"
    using assms by (auto simp: decode_def split: if_splits sum.splits)
  then obtain u where u: "unpacked_ok u" "un_files u = files" "\<not> list_ex (path_collides (un_seen u)) (mkeys files)"
    using decode_raw_ok by blast
  have "safe_path p \<and> length p \<le> 200 \<and> (\<forall>q \<in> set (mkeys files). \<not> prefix (toLower p @ ''/'') (toLower q))"
    if p: "p \<in> set (mkeys files)" for p
  proof -
    have "toLower p \<in> set (un_seen u)" "checkPath p"
      using u(1,2) p by (auto simp: unpacked_ok_def list_all_iff)
    then show ?thesis using u(3) no_collision checkPath_safe by (auto simp: list_ex_iff)
  qed
  with u(1,2) show ?thesis
    by (auto simp: unpacked_ok_def LIM_fileCount_def LIM_unpackedBytes_def)
qed

text \<open>A stand-in for gzip with the header bytes of the format, for concrete examples.\<close>

definition plain_gzip :: "bytes \<Rightarrow> bytes" where
  "plain_gzip raw = 0x1f # 0x8b # replicate 18 0 @ raw"

definition plain_gunzip :: "bytes \<Rightarrow> nat \<Rightarrow> bool + bytes" where
  "plain_gunzip buf mx = (if mx < length buf - 20 then Inl True else Inr (drop 20 buf))"

theorem accepted_package_is_safe_witness:
  "case decode plain_gunzip (map byte_char) (plain_gzip (MAGIC @ [0, 3, 97, 47, 98, 0, 0, 0, 1, 7, 0, 0])) of
     Inl _ \<Rightarrow> False
   | Inr files \<Rightarrow> files = [(''a/b'', [7])] \<and> safe_path ''a/b''"
proof -
  have d: "decode plain_gunzip (map byte_char) (plain_gzip (MAGIC @ [0, 3, 97, 47, 98, 0, 0, 0, 1, 7, 0, 0]))
      = Inr [(''a/b'', [7])]" by code_simp
  from accepted_package_is_safe [OF d] d show ?thesis by simp
qed

section \<open>Reading back what was written\<close>

definition gzip_ok :: "(bytes \<Rightarrow> bytes) \<Rightarrow> (bytes \<Rightarrow> nat \<Rightarrow> bool + bytes) \<Rightarrow> bool" where
  "gzip_ok gzip gunzip =
     (\<forall>raw. 20 \<le> length (gzip raw) \<and> gzip raw ! 0 = 0x1f \<and> gzip raw ! 1 = 0x8b \<and>
        (\<forall>mx. length raw \<le> mx \<longrightarrow> gunzip (gzip raw) mx = Inr raw))"

definition package_ok :: "(string \<times> bytes) list \<Rightarrow> bool" where
  "package_ok fs =
     (distinct (map (\<lambda>pd. toLower (fst pd)) fs) \<and> length fs \<le> LIM_fileCount \<and>
      sum_list (map (\<lambda>pd. length (snd pd)) fs) \<le> LIM_unpackedBytes \<and>
      \<not> list_ex (\<lambda>pd. path_collides (map (\<lambda>pd. toLower (fst pd)) fs) (fst pd)) fs)"

lemma encode_files_length:
  "encode_files fs = Some body \<Longrightarrow> list_all (\<lambda>pd. checkPath (fst pd)) fs \<Longrightarrow>
   length body \<le> sum_list (map (\<lambda>pd. length (snd pd)) fs) + length fs * (LIM_pathLength + 6)"
proof (induction fs arbitrary: body rule: encode_files.induct)
  case (2 p d fs)
  from 2(2) obtain h s rest where e: "u16 (length p) = Some h" "u32 (length d) = Some s" "encode_files fs = Some rest"
      "body = h @ map char_byte p @ s @ d @ rest"
    by (auto split: Option.bind_split_asm)
  have "length p \<le> LIM_pathLength" using 2(3) by (simp add: checkPath_def)
  with e 2(1) [OF e(1,2)] 2(3) show ?case by (fastforce simp: u16_length u32_length)
qed simp

lemma decode_entry:
  assumes "ascii_decoder dec" "checkPath p" "u16 (length p) = Some h" "u32 (length d) = Some s"
    and "un_off u = length pre" "toLower p \<notin> set (un_seen u)" "un_seen u = map toLower (mkeys (un_files u))"
    and "un_total u + length d \<le> LIM_unpackedBytes" "length (un_files u) < LIM_fileCount"
  shows "decode_loop dec (pre @ (h @ map char_byte p @ s @ d) @ rest) u =
    decode_loop dec (pre @ (h @ map char_byte p @ s @ d) @ rest)
      \<lparr>un_files = un_files u @ [(p, d)], un_seen = un_seen u @ [toLower p], un_total = un_total u + length d,
       un_off = length (pre @ h @ map char_byte p @ s @ d)\<rparr>"
proof -
  define raw where "raw = pre @ (h @ map char_byte p @ s @ d) @ rest"
  have len: "length h = 2" "length s = 4" using assms(3,4) by (simp_all add: wire_simps)
  have p: "p \<noteq> []" "length p \<le> LIM_pathLength" using assms(2) by (auto simp: checkPath_def)
  have r1: "readU16 raw (length pre) = Some (length p)"
    using readU16_u16 [OF assms(3)] by (simp add: raw_def readU16_skip)
  have "raw = (pre @ h @ map char_byte p) @ s @ d @ rest" by (simp add: raw_def)
  then have r2: "readU32 raw (length pre + 2 + length p) = Some (length d)"
    using readU32_u32 [OF assms(4)] len readU32_skip [of "pre @ h @ map char_byte p" "length pre + 2 + length p" "s @ d @ rest"]
    by simp
  have s1: "subarray raw (length pre + 2) (length pre + 2 + length p) = map char_byte p"
    using len by (simp add: subarray_def raw_def)
  have s2: "subarray raw (length pre + 2 + length p + 4) (length pre + 2 + length p + 4 + length d) = d"
    using len by (simp add: subarray_def raw_def)
  have n: "dec (map char_byte p) = p"
    using assms(1) checkPath_ascii [OF assms(2)] by (simp add: ascii_decoder_def list_all_iff)
  have m: "mset_at p d (un_files u) = un_files u @ [(p, d)]"
    using assms(6,7) by (intro mset_at_absent) auto
  have l: "length raw = length pre + 2 + length p + 4 + length d + length rest"
    and o: "length (pre @ h @ map char_byte p @ s @ d) = length pre + 2 + length p + 4 + length d"
    using len by (simp_all add: raw_def)
  show ?thesis
    unfolding raw_def [symmetric] o
    by (subst decode_loop.simps, unfold Let_def assms(5) r1 option.sel r2 s1 s2 n m)
      (use p assms(2,6,8,9) l in simp)
qed

lemma decode_files:
  assumes "ascii_decoder dec" "encode_files fs = Some body" "list_all (\<lambda>pd. checkPath (fst pd)) fs"
    and "un_off u = length pre" "un_seen u = map toLower (mkeys (un_files u))"
    and "distinct (un_seen u @ map (\<lambda>pd. toLower (fst pd)) fs)"
    and "un_total u + sum_list (map (\<lambda>pd. length (snd pd)) fs) \<le> LIM_unpackedBytes"
    and "length (un_files u) + length fs \<le> LIM_fileCount"
  shows "\<exists>u'. decode_loop dec (pre @ body @ [0, 0]) u = Inr u' \<and> un_files u' = un_files u @ fs \<and>
    un_seen u' = map toLower (mkeys (un_files u @ fs)) \<and> un_off u' = length (pre @ body @ [0, 0])"
  using assms(2-)
proof (induction fs arbitrary: body pre u)
  case Nil
  have "readU16 (pre @ [0, 0]) (length pre) = Some 0" by (simp add: readU16_def nth_append)
  with Nil show ?case by (subst decode_loop.simps) (simp add: Let_def)
next
  case (Cons pd fs)
  obtain p d where pd: "pd = (p, d)" by force
  from Cons.prems(1) obtain h s rest where e: "u16 (length p) = Some h" "u32 (length d) = Some s"
      "encode_files fs = Some rest" "body = h @ map char_byte p @ s @ d @ rest"
    by (auto simp: pd split: Option.bind_split_asm)
  let ?pre = "pre @ h @ map char_byte p @ s @ d"
  let ?u = "\<lparr>un_files = un_files u @ [(p, d)], un_seen = un_seen u @ [toLower p], un_total = un_total u + length d,
       un_off = length ?pre\<rparr>"
  have "decode_loop dec (pre @ body @ [0, 0]) u = decode_loop dec (pre @ (h @ map char_byte p @ s @ d) @ rest @ [0, 0]) u"
    using e(4) by simp
  also have "\<dots> = decode_loop dec (pre @ (h @ map char_byte p @ s @ d) @ rest @ [0, 0]) ?u"
    using Cons.prems e pd by (intro decode_entry [OF assms(1)]) auto
  finally have step: "decode_loop dec (pre @ body @ [0, 0]) u = decode_loop dec (?pre @ rest @ [0, 0]) ?u" by simp
  have "\<exists>u'. decode_loop dec (?pre @ rest @ [0, 0]) ?u = Inr u' \<and> un_files u' = un_files ?u @ fs \<and>
    un_seen u' = map toLower (mkeys (un_files ?u @ fs)) \<and> un_off u' = length (?pre @ rest @ [0, 0])"
    using Cons.prems pd by (intro Cons.IH [OF e(3)]) auto
  then show ?case using step e(4) by (auto simp: pd)
qed

text \<open>
  A package written from files that respect the limits is read back to exactly these files,
  in the order of their paths.
\<close>

theorem package_roundtrip:
  assumes "gzip_ok gzip gunzip" "ascii_decoder dec" "encode gzip fs = Some buf"
    and "package_ok fs" "length buf \<le> 20 * 1024 * 1024"
  shows "decode gunzip dec buf = Inr (sort_key fst fs)"
proof -
  let ?fs = "sort_key fst fs"
  obtain body where c: "list_all (\<lambda>pd. checkPath (fst pd)) fs" and e: "encode_files ?fs = Some body"
      and buf: "buf = gzip (MAGIC @ body @ [0, 0])"
    using assms(3) by (auto simp: encode_def encode_raw_def split: if_splits)
  let ?raw = "MAGIC @ body @ [0, 0]"
  let ?u = "\<lparr>un_files = [], un_seen = [], un_total = 0, un_off = length MAGIC\<rparr>"
  have c': "list_all (\<lambda>pd. checkPath (fst pd)) ?fs" using c by (simp add: list_all_iff)
  have sums: "sum_list (map (\<lambda>pd. length (snd pd)) ?fs) = sum_list (map (\<lambda>pd. length (snd pd)) fs)"
    using sum_mset_sum_list [of "map (\<lambda>pd. length (snd pd)) ?fs"] sum_mset_sum_list [of "map (\<lambda>pd. length (snd pd)) fs"]
    by simp
  have dist: "distinct (map (\<lambda>pd. toLower (fst pd)) ?fs)"
    using assms(4) mset_eq_imp_distinct_iff [of "map (\<lambda>pd. toLower (fst pd)) ?fs" "map (\<lambda>pd. toLower (fst pd)) fs"]
    by (simp add: package_ok_def)
  have set_eq: "set (map toLower (mkeys ?fs)) = set (map (\<lambda>pd. toLower (fst pd)) fs)"
    by (simp add: image_image)
  have "\<exists>u'. decode_loop dec ?raw ?u = Inr u' \<and> un_files u' = un_files ?u @ ?fs \<and>
    un_seen u' = map toLower (mkeys (un_files ?u @ ?fs)) \<and> un_off u' = length ?raw"
    using assms(4) sums dist by (intro decode_files [OF assms(2) e c']) (auto simp: package_ok_def)
  then obtain u' where u': "decode_loop dec ?raw ?u = Inr u'" "un_files u' = ?fs" "un_seen u' = map toLower (mkeys ?fs)"
      "un_off u' = length ?raw" by auto
  have "path_collides (un_seen u') p = path_collides (map (\<lambda>pd. toLower (fst pd)) fs) p" for p
    unfolding path_collides_def u'(3) set_eq ..
  then have "\<not> list_ex (path_collides (un_seen u')) (mkeys ?fs)"
    using assms(4) by (auto simp: package_ok_def list_ex_iff)
  with u' have "decode_raw dec ?raw = Inr ?fs" by (simp add: decode_raw_def)
  moreover have "length ?raw \<le> LIM_unpackedBytes + 64 * 1024 + LIM_fileCount * (LIM_pathLength + 6)"
  proof -
    have "length fs * (LIM_pathLength + 6) \<le> LIM_fileCount * (LIM_pathLength + 6)"
      using assms(4) by (simp only: package_ok_def mult_le_mono1)
    moreover have "sum_list (map (\<lambda>pd. length (snd pd)) fs) \<le> LIM_unpackedBytes" "length ?raw = length body + 12"
      using assms(4) by (simp_all add: package_ok_def MAGIC_def)
    moreover have "length body \<le> sum_list (map (\<lambda>pd. length (snd pd)) fs) + length fs * (LIM_pathLength + 6)"
      using encode_files_length [OF e c'] sums by simp
    ultimately show ?thesis by linarith
  qed
  ultimately show ?thesis
    using assms(1,5) buf by (simp add: decode_def gzip_ok_def LIM_packageBytes_def not_less)
qed

theorem package_roundtrip_witness:
  "decode plain_gunzip (map byte_char) (the (encode plain_gzip [(''edge/x.js'', [1, 2]), (''a.md'', [])]))
   = Inr [(''a.md'', []), (''edge/x.js'', [1, 2])]"
proof -
  let ?fs = "[(''edge/x.js'', [1, 2 :: byte]), (''a.md'', [])]"
  have g: "gzip_ok plain_gzip plain_gunzip"
    by (simp add: gzip_ok_def plain_gzip_def plain_gunzip_def)
  obtain buf where b: "encode plain_gzip ?fs = Some buf" "length buf \<le> 20 * 1024 * 1024"
  proof -
    have "case encode plain_gzip ?fs of None \<Rightarrow> False | Some buf \<Rightarrow> length buf \<le> 20 * 1024 * 1024" by code_simp
    with that show thesis by (auto split: option.splits)
  qed
  have "package_ok ?fs" "sort_key fst ?fs = [(''a.md'', []), (''edge/x.js'', [1, 2])]" by code_simp+
  with package_roundtrip [OF g ascii_decoder_latin1 b(1)] b show ?thesis by simp
qed

end
