(* ===== verification/Edge_Manifest.thy ===== *)
theory Edge_Manifest
  imports Edge_Topics Edge_Package "HOL-Library.Product_Lexorder"
begin

text \<open>
  What an edge plugin may do (\<open>src/src/edge/manifest.js\<close>): the check of the capabilities a
  package asks for and the server approves, their intersection, the comparison of versions and
  the check of the package's manifest. A throw of \<open>validateCaps\<close> (always \<open>bad_caps\<close>) is
  \<open>None\<close>; \<open>validateEdgeManifest\<close> throws several codes and returns a sum. The texts of the
  messages are not modelled.
\<close>

section \<open>Capabilities\<close>

record udp_caps =
  uc_ports :: "int list"
  uc_multicast :: "string list"

record caps =
  cap_udp :: "udp_caps option"
  cap_mdns :: "string list option"
  cap_tcp :: "bool option"
  cap_http :: "bool option"
  cap_mqtt :: "string list option"
  cap_serial :: "string list option"

definition noCaps :: caps where
  "noCaps = \<lparr>cap_udp = None, cap_mdns = None, cap_tcp = None, cap_http = None, cap_mqtt = None, cap_serial = None\<rparr>"

definition SERIAL_NAMES :: "string list" where
  "SERIAL_NAMES = [''zigbee'']"

definition CAP_KEYS :: "string list" where
  "CAP_KEYS = [''udp'', ''mdns'', ''tcp'', ''http'', ''mqtt'', ''serial'']"

definition MDNS_GROUP :: string where
  "MDNS_GROUP = ''224.0.0.251''"

definition is_lower_alnum :: "char \<Rightarrow> bool" where
  "is_lower_alnum c = (is_lower c \<or> is_digit c)"

text \<open>\<open>MDNS_SERVICE_RE\<close>; its classes contain no dot, so the two labels are the parts of the split.\<close>

definition service_label :: "string \<Rightarrow> bool" where
  "service_label l =
     (re_class (\<lambda>c. is_lower_alnum c \<or> c = CHR ''-'') 1 63 l \<and> is_lower_alnum (hd l) \<and> is_lower_alnum (last l))"

definition MDNS_SERVICE_RE :: "string \<Rightarrow> bool" where
  "MDNS_SERVICE_RE s =
     (case split_on CHR ''.'' s of
        [a, b] \<Rightarrow> (case a of [] \<Rightarrow> False | c # l \<Rightarrow> c = CHR ''_'' \<and> service_label l) \<and> (b = ''_tcp'' \<or> b = ''_udp'')
      | _ \<Rightarrow> False)"

definition ipv4 :: "string \<Rightarrow> nat list option" where
  "ipv4 s =
     (let ps = split_on CHR ''.'' s
      in if length ps = 4 \<and> list_all (re_class is_digit 1 3) ps \<and> list_all (\<lambda>p. dec_value p \<le> 255) ps
         then Some (map dec_value ps) else None)"

definition multicastAllowed :: "string \<Rightarrow> bool" where
  "multicastAllowed g =
     (case ipv4 g of
        None \<Rightarrow> False
      | Some ds \<Rightarrow>
          if ds ! 0 < 224 \<or> 239 < ds ! 0 then False
          else if ds ! 0 = 224 \<and> ds ! 1 = 0 \<and> ds ! 2 = 0 then g = MDNS_GROUP
          else True)"

text \<open>\<open>Array.isArray(v) && v.length <= max\<close> and every element passes \<open>f\<close>.\<close>

definition checkedList :: "(json \<Rightarrow> 'a option) \<Rightarrow> nat \<Rightarrow> json \<Rightarrow> 'a list option" where
  "checkedList f mx v = (case v of JArr vs \<Rightarrow> if mx < length vs then None else those (map f vs) | _ \<Rightarrow> None)"

definition stringIf :: "(string \<Rightarrow> bool) \<Rightarrow> json \<Rightarrow> string option" where
  "stringIf P v = (case v of JStr s \<Rightarrow> if P s then Some s else None | _ \<Rightarrow> None)"

definition udpPort :: "json \<Rightarrow> int option" where
  "udpPort v =
     (case intOf v of
        None \<Rightarrow> None
      | Some p \<Rightarrow> if p < 1024 \<or> 65535 < p then None else if p = 5353 then None else Some p)"

definition orEmpty :: "json \<Rightarrow> json" where
  "orEmpty v = (if v = JUndef then JArr [] else v)"

definition udpCaps :: "json \<Rightarrow> udp_caps option" where
  "udpCaps v =
     (if \<not> isObj v then None
      else do {
        ports \<leftarrow> checkedList udpPort 16 (orEmpty (field (members v) ''ports''));
        groups \<leftarrow> checkedList (stringIf multicastAllowed) 16 (orEmpty (field (members v) ''multicast''));
        Some \<lparr>uc_ports = uniq ports, uc_multicast = uniq groups\<rparr>
      })"

definition mdnsCaps :: "json \<Rightarrow> string list option" where
  "mdnsCaps v =
     (if \<not> isObj v then None
      else map_option uniq (checkedList (stringIf MDNS_SERVICE_RE) 16 (field (members v) ''services'')))"

definition lanCaps :: "json \<Rightarrow> bool option" where
  "lanCaps v =
     (if \<not> isObj v then None
      else case field (members v) ''lan'' of
             JBool b \<Rightarrow> if list_ex (\<lambda>k. k \<noteq> ''lan'') (mkeys (members v)) then None else Some b
           | _ \<Rightarrow> None)"

definition httpCaps :: "json \<Rightarrow> bool option" where
  "httpCaps v = (if isObj v \<and> field (members v) ''selfSigned'' \<noteq> JUndef then None else lanCaps v)"

definition mqttCaps :: "json \<Rightarrow> string list option" where
  "mqttCaps v =
     (if \<not> isObj v then None
      else map_option uniq (checkedList (stringIf (\<lambda>t. validPluginFilter (JStr t))) 16 (field (members v) ''topics'')))"

definition serialCaps :: "json \<Rightarrow> string list option" where
  "serialCaps v = map_option uniq (checkedList (stringIf (\<lambda>s. s \<in> set SERIAL_NAMES)) 4 v)"

text \<open>\<open>if (caps.k !== undefined) ...\<close>.\<close>

definition ifGiven :: "(json \<Rightarrow> 'a option) \<Rightarrow> json \<Rightarrow> 'a option option" where
  "ifGiven f v = (if v = JUndef then Some None else map_option Some (f v))"

definition validateCaps :: "json \<Rightarrow> caps option" where
  "validateCaps v =
     (if v = JUndef \<or> v = JNull then Some noCaps
      else if \<not> isObj v then None
      else let ms = members v
        in if list_ex (\<lambda>k. k \<notin> set CAP_KEYS) (mkeys ms) then None
           else do {
             udp \<leftarrow> ifGiven udpCaps (field ms ''udp'');
             mdns \<leftarrow> ifGiven mdnsCaps (field ms ''mdns'');
             tcp \<leftarrow> ifGiven lanCaps (field ms ''tcp'');
             http \<leftarrow> ifGiven httpCaps (field ms ''http'');
             mqtt \<leftarrow> ifGiven mqttCaps (field ms ''mqtt'');
             serial \<leftarrow> ifGiven serialCaps (field ms ''serial'');
             Some \<lparr>cap_udp = udp, cap_mdns = mdns, cap_tcp = tcp, cap_http = http, cap_mqtt = mqtt, cap_serial = serial\<rparr>
           })"

definition both :: "('a \<Rightarrow> 'a \<Rightarrow> 'a) \<Rightarrow> 'a option \<Rightarrow> 'a option \<Rightarrow> 'a option" where
  "both f x y = (case (x, y) of (Some a, Some b) \<Rightarrow> Some (f a b) | _ \<Rightarrow> None)"

definition common :: "'a list \<Rightarrow> 'a list \<Rightarrow> 'a list" where
  "common xs ys = filter (\<lambda>x. x \<in> set ys) xs"

definition intersectCaps :: "caps \<Rightarrow> caps \<Rightarrow> caps" where
  "intersectCaps m a =
     \<lparr>cap_udp = both (\<lambda>x y. \<lparr>uc_ports = common (uc_ports x) (uc_ports y),
                             uc_multicast = common (uc_multicast x) (uc_multicast y)\<rparr>) (cap_udp m) (cap_udp a),
      cap_mdns = both common (cap_mdns m) (cap_mdns a),
      cap_tcp = both (\<and>) (cap_tcp m) (cap_tcp a),
      cap_http = both (\<and>) (cap_http m) (cap_http a),
      cap_mqtt = both common (cap_mqtt m) (cap_mqtt a),
      cap_serial = both common (cap_serial m) (cap_serial a)\<rparr>"

section \<open>Versions\<close>

record semver =
  sv_major :: nat
  sv_minor :: nat
  sv_patch :: nat
  sv_pre :: "string option"

text \<open>\<open>(\d+)\.\<close> at the front of the text.\<close>

definition numDot :: "string \<Rightarrow> (nat \<times> string) option" where
  "numDot s =
     (case dropWhile is_digit s of
        c # r \<Rightarrow> if c = CHR ''.'' \<and> takeWhile is_digit s \<noteq> [] then Some (dec_value (takeWhile is_digit s), r) else None
      | [] \<Rightarrow> None)"

definition is_pre_char :: "char \<Rightarrow> bool" where
  "is_pre_char c = (is_alnum c \<or> c = CHR ''.'' \<or> c = CHR ''-'')"

text \<open>\<open>(?:-([0-9A-Za-z.-]+))?\<close>, then \<open>(?:\+[0-9A-Za-z.-]+)?$\<close>.\<close>

definition preRelease :: "string \<Rightarrow> (string option \<times> string) option" where
  "preRelease s =
     (case s of
        c # r \<Rightarrow>
          if c = CHR ''-'' then if takeWhile is_pre_char r = [] then None
                             else Some (Some (takeWhile is_pre_char r), dropWhile is_pre_char r)
          else Some (None, s)
      | [] \<Rightarrow> Some (None, s))"

definition buildSuffix :: "string \<Rightarrow> bool" where
  "buildSuffix s = (case s of [] \<Rightarrow> True | c # r \<Rightarrow> c = CHR ''+'' \<and> r \<noteq> [] \<and> list_all is_pre_char r)"

definition parseSemver :: "string \<Rightarrow> semver option" where
  "parseSemver s = do {
     (major, r) \<leftarrow> numDot s;
     (minor, r) \<leftarrow> numDot r;
     let patch = takeWhile is_digit r;
     if patch = [] then None
     else do {
       (pre, rest) \<leftarrow> preRelease (dropWhile is_digit r);
       if buildSuffix rest
       then Some \<lparr>sv_major = major, sv_minor = minor, sv_patch = dec_value patch, sv_pre = pre\<rparr> else None
     }
   }"

definition compareVersions :: "string \<Rightarrow> string \<Rightarrow> int option" where
  "compareVersions a b =
     (case (parseSemver a, parseSemver b) of
        (Some x, Some y) \<Rightarrow> Some (
          if sv_major x \<noteq> sv_major y then (if sv_major x < sv_major y then -1 else 1)
          else if sv_minor x \<noteq> sv_minor y then (if sv_minor x < sv_minor y then -1 else 1)
          else if sv_patch x \<noteq> sv_patch y then (if sv_patch x < sv_patch y then -1 else 1)
          else if sv_pre x = sv_pre y then 0
          else case sv_pre x of
                 None \<Rightarrow> 1
               | Some p \<Rightarrow> (case sv_pre y of None \<Rightarrow> -1 | Some q \<Rightarrow> if p < q then -1 else 1))
      | _ \<Rightarrow> None)"

section \<open>The manifest\<close>

datatype manifest_error = Bad_manifest | No_edge | Gateway_too_old | Bad_caps

definition LIM_memoryMbMin :: int where
  "LIM_memoryMbMin = 16"

definition LIM_memoryMbMax :: int where
  "LIM_memoryMbMax = 256"

definition LIM_memoryMbDefault :: int where
  "LIM_memoryMbDefault = 48"

text \<open>\<open>path.posix.dirname\<close> of a checked path.\<close>

definition dirname :: "string \<Rightarrow> string" where
  "dirname p = (let segs = split_on CHR ''/'' p in if length segs \<le> 1 then ''.'' else join CHR ''/'' (butlast segs))"

text \<open>\<open>String(v || '')\<close>.\<close>

fun jsString :: "platform \<Rightarrow> json \<Rightarrow> string" where
  "jsString pf JUndef = ''undefined''"
| "jsString pf JNull = ''null''"
| "jsString pf (JBool b) = (if b then ''true'' else ''false'')"
| "jsString pf (JNum r) = pf_numStr pf r"
| "jsString pf (JStr s) = s"
| "jsString pf (JArr vs) = join CHR '','' (map (\<lambda>v. if v = JUndef \<or> v = JNull then [] else jsString pf v) vs)"
| "jsString pf (JObj _) = ''[object Object]''"

definition stringOrEmpty :: "platform \<Rightarrow> json \<Rightarrow> string" where
  "stringOrEmpty pf v =
     (if v = JUndef \<or> v = JNull \<or> v = JBool False \<or> v = JNum 0 then [] else jsString pf v)"

record edge_manifest =
  em_id :: json
  em_version :: json
  em_entry :: string
  em_entryDir :: string
  em_minGateway :: json
  em_memoryMb :: int
  em_capabilities :: caps

definition manifestEntry :: "json \<Rightarrow> string option" where
  "manifestEntry v =
     (case v of
        JStr p \<Rightarrow> if checkPath p \<and> (suffix ''.js'' p \<or> suffix ''.cjs'' p) \<and> dirname p \<noteq> ''.'' then Some p else None
      | _ \<Rightarrow> None)"

definition manifestMemory :: "json \<Rightarrow> int option" where
  "manifestMemory v =
     (if v = JUndef then Some LIM_memoryMbDefault
      else case intOf v of
             None \<Rightarrow> None
           | Some n \<Rightarrow> if n < LIM_memoryMbMin \<or> LIM_memoryMbMax < n then None else Some n)"

definition tooOld :: "platform \<Rightarrow> string \<Rightarrow> json \<Rightarrow> bool" where
  "tooOld pf gatewayVersion minGateway =
     (gatewayVersion \<noteq> [] \<and> parseSemver gatewayVersion \<noteq> None \<and>
      (case compareVersions gatewayVersion (stringOrEmpty pf minGateway) of None \<Rightarrow> False | Some c \<Rightarrow> c < 0))"

definition validateEdgeManifest :: "platform \<Rightarrow> string \<Rightarrow> json \<Rightarrow> manifest_error + edge_manifest" where
  "validateEdgeManifest pf gatewayVersion m =
     (if \<not> isObj m then Inl Bad_manifest
      else let e = field (members m) ''edge''
        in if \<not> isObj e then Inl No_edge
           else let ms = members e
             in case manifestEntry (field ms ''entry'') of
                  None \<Rightarrow> Inl Bad_manifest
                | Some entry \<Rightarrow>
                    (case manifestMemory (field ms ''memoryMb'') of
                       None \<Rightarrow> Inl Bad_manifest
                     | Some memoryMb \<Rightarrow>
                         let g = field ms ''minGateway''
                         in if g \<noteq> JUndef \<and> parseSemver (stringOrEmpty pf g) = None then Inl Bad_manifest
                            else if g \<noteq> JUndef \<and> tooOld pf gatewayVersion g then Inl Gateway_too_old
                            else case validateCaps (field ms ''capabilities'') of
                                   None \<Rightarrow> Inl Bad_caps
                                 | Some c \<Rightarrow>
                                     Inr \<lparr>em_id = field (members m) ''id'', em_version = field (members m) ''version'',
                                          em_entry = entry, em_entryDir = dirname entry,
                                          em_minGateway = (if g = JUndef then JNull else g),
                                          em_memoryMb = memoryMb, em_capabilities = c\<rparr>))"

section \<open>Rights\<close>

datatype right = Udp_port int | Udp_group string | Mdns_service string | Tcp_lan | Http_lan | Mqtt_topic string
  | Serial_device string

definition list_of :: "'a list option \<Rightarrow> 'a list" where
  "list_of x = (case x of None \<Rightarrow> [] | Some l \<Rightarrow> l)"

definition rights :: "caps \<Rightarrow> right set" where
  "rights c =
     Udp_port ` set (list_of (map_option uc_ports (cap_udp c))) \<union>
     Udp_group ` set (list_of (map_option uc_multicast (cap_udp c))) \<union>
     Mdns_service ` set (list_of (cap_mdns c)) \<union>
     {r. r = Tcp_lan \<and> cap_tcp c = Some True} \<union> {r. r = Http_lan \<and> cap_http c = Some True} \<union>
     Mqtt_topic ` set (list_of (cap_mqtt c)) \<union> Serial_device ` set (list_of (cap_serial c))"

text \<open>What a plugin may be given at all.\<close>

fun grantable :: "right \<Rightarrow> bool" where
  "grantable (Udp_port p) = (1024 \<le> p \<and> p \<le> 65535 \<and> p \<noteq> 5353)"
| "grantable (Udp_group g) = multicastAllowed g"
| "grantable (Mdns_service s) = MDNS_SERVICE_RE s"
| "grantable (Mqtt_topic t) = validPluginFilter (JStr t)"
| "grantable (Serial_device d) = (d = ''zigbee'')"
| "grantable _ = True"

lemma list_of_simps [simp]: "list_of None = []" "list_of (Some l) = l"
  by (simp_all add: list_of_def)

lemma those_Some: "those (map f xs) = Some ys \<Longrightarrow> length ys = length xs \<and> (\<forall>y \<in> set ys. \<exists>x \<in> set xs. f x = Some y)"
proof (induction xs arbitrary: ys)
  case (Cons x xs)
  then show ?case by (auto split: option.splits) fastforce+
qed simp

lemma checkedList_ok:
  assumes "checkedList f mx v = Some ys"
  shows "length ys \<le> mx \<and> (\<forall>y \<in> set ys. \<exists>x. f x = Some y)"
proof -
  obtain vs where "length vs \<le> mx" "those (map f vs) = Some ys"
    using assms by (auto simp: checkedList_def not_less split: json.splits if_splits)
  with those_Some [of f vs ys] show ?thesis by auto
qed

lemma stringIf_ok: "stringIf P v = Some s \<Longrightarrow> P s"
  by (auto simp: stringIf_def split: json.splits if_splits)

lemma udpPort_ok: "udpPort v = Some p \<Longrightarrow> grantable (Udp_port p)"
  by (auto simp: udpPort_def split: option.splits if_splits)

lemma udpCaps_ok:
  assumes "udpCaps v = Some u"
  shows "(\<forall>p \<in> set (uc_ports u). grantable (Udp_port p)) \<and> (\<forall>g \<in> set (uc_multicast u). multicastAllowed g)"
proof -
  obtain ports groups where c: "checkedList udpPort 16 (orEmpty (field (members v) ''ports'')) = Some ports"
      "checkedList (stringIf multicastAllowed) 16 (orEmpty (field (members v) ''multicast'')) = Some groups"
      "uc_ports u = uniq ports" "uc_multicast u = uniq groups"
    using assms by (auto simp: udpCaps_def split: if_splits Option.bind_split_asm)
  with checkedList_ok [OF c(1)] checkedList_ok [OF c(2)] show ?thesis
    using udpPort_ok stringIf_ok by (metis set_uniq)
qed

lemma strings_ok: "map_option uniq (checkedList (stringIf P) mx v) = Some ys \<Longrightarrow> y \<in> set ys \<Longrightarrow> P y"
  using checkedList_ok [of "stringIf P" mx v] stringIf_ok [of P] by fastforce

lemma ifGiven_Some: "ifGiven f v = Some x \<Longrightarrow> x = None \<or> (\<exists>c. x = Some c \<and> f v = Some c)"
  by (auto simp: ifGiven_def split: if_splits)

lemma named_caps_ok:
  "ifGiven mdnsCaps v = Some x \<Longrightarrow> s \<in> set (list_of x) \<Longrightarrow> MDNS_SERVICE_RE s"
  "ifGiven mqttCaps v = Some x \<Longrightarrow> s \<in> set (list_of x) \<Longrightarrow> validPluginFilter (JStr s)"
  "ifGiven serialCaps v = Some x \<Longrightarrow> s \<in> set (list_of x) \<Longrightarrow> s \<in> set SERIAL_NAMES"
proof -
  have "P s" if "ifGiven f v = Some x" "s \<in> set (list_of x)"
    and "\<And>c. f v = Some c \<Longrightarrow> map_option uniq (checkedList (stringIf P) mx (g v)) = Some c"
    for f v P x s mx g
    using ifGiven_Some [OF that(1)] that(2) strings_ok [OF that(3)] by auto
  note named = this
  show "ifGiven mdnsCaps v = Some x \<Longrightarrow> s \<in> set (list_of x) \<Longrightarrow> MDNS_SERVICE_RE s"
    by (erule named [where mx = 16 and g = "\<lambda>v. field (members v) ''services''"])
      (auto simp: mdnsCaps_def split: if_splits)
  show "ifGiven mqttCaps v = Some x \<Longrightarrow> s \<in> set (list_of x) \<Longrightarrow> validPluginFilter (JStr s)"
    by (erule named [where mx = 16 and g = "\<lambda>v. field (members v) ''topics''"])
      (auto simp: mqttCaps_def split: if_splits)
  show "ifGiven serialCaps v = Some x \<Longrightarrow> s \<in> set (list_of x) \<Longrightarrow> s \<in> set SERIAL_NAMES"
    by (erule named [where mx = 4 and g = "\<lambda>v. v"]) (auto simp: serialCaps_def)
qed

lemma udp_rights_ok:
  "ifGiven udpCaps v = Some x \<Longrightarrow> p \<in> set (list_of (map_option uc_ports x)) \<Longrightarrow> grantable (Udp_port p)"
  "ifGiven udpCaps v = Some x \<Longrightarrow> g \<in> set (list_of (map_option uc_multicast x)) \<Longrightarrow> multicastAllowed g"
  using udpCaps_ok [of v] by (auto dest!: ifGiven_Some)

lemma validateCaps_parts:
  assumes "validateCaps v = Some c" "v \<noteq> JUndef" "v \<noteq> JNull"
  shows "ifGiven udpCaps (field (members v) ''udp'') = Some (cap_udp c)"
    "ifGiven mdnsCaps (field (members v) ''mdns'') = Some (cap_mdns c)"
    "ifGiven mqttCaps (field (members v) ''mqtt'') = Some (cap_mqtt c)"
    "ifGiven serialCaps (field (members v) ''serial'') = Some (cap_serial c)"
  using assms by (auto simp: validateCaps_def Let_def split: if_splits Option.bind_split_asm)

lemma validateCaps_grantable:
  assumes "validateCaps v = Some c" "r \<in> rights c"
  shows "grantable r"
proof (cases "v = JUndef \<or> v = JNull")
  case True
  with assms show ?thesis by (auto simp: validateCaps_def noCaps_def rights_def)
next
  case False
  then have v: "v \<noteq> JUndef" "v \<noteq> JNull" by auto
  note parts = validateCaps_parts [OF assms(1) v]
  show ?thesis
    using assms(2) udp_rights_ok [OF parts(1)] named_caps_ok(1) [OF parts(2)] named_caps_ok(2) [OF parts(3)]
      named_caps_ok(3) [OF parts(4)]
    unfolding rights_def by (auto simp: SERIAL_NAMES_def)
qed

lemma both_simps:
  "set (list_of (both common x y)) = set (list_of x) \<inter> set (list_of y)"
  "both (\<and>) p q = Some True \<longleftrightarrow> p = Some True \<and> q = Some True"
  by (cases x; cases y; auto simp: both_def common_def) (auto simp: both_def split: option.splits)

lemma both_udp:
  "map_option uc_ports (cap_udp (intersectCaps m a)) = both common (map_option uc_ports (cap_udp m)) (map_option uc_ports (cap_udp a))"
  "map_option uc_multicast (cap_udp (intersectCaps m a)) =
     both common (map_option uc_multicast (cap_udp m)) (map_option uc_multicast (cap_udp a))"
  by (cases "cap_udp m"; cases "cap_udp a"; simp add: intersectCaps_def both_def)+

lemma rights_intersect: "rights (intersectCaps m a) = rights m \<inter> rights a"
  unfolding rights_def both_udp by (auto simp: intersectCaps_def both_simps)

text \<open>
  C26. The capabilities an edge plugin works with, the intersection of what it claims and what the
  server approved, give exactly the rights contained in both, and every right that passes the
  check is one a plugin may be given: no port below 1024, not the mDNS port, no link-local
  multicast control group, no reserved MQTT topic, no unknown device.
\<close>

theorem effective_capabilities:
  assumes "validateCaps claimed = Some m" "validateCaps approved = Some a"
  shows "rights (intersectCaps m a) = rights m \<inter> rights a \<and> (\<forall>r \<in> rights (intersectCaps m a). grantable r)"
  using rights_intersect validateCaps_grantable [OF assms(1)] by blast

theorem effective_capabilities_witness:
  "\<exists>m a. validateCaps (JObj [(''udp'', JObj [(''ports'', JArr [JNum 5540, JNum 6000])]), (''tcp'', JObj [(''lan'', JBool True)])]) = Some m \<and>
     validateCaps (JObj [(''udp'', JObj [(''ports'', JArr [JNum 6000])])]) = Some a \<and>
     rights (intersectCaps m a) = {Udp_port 6000}"
proof -
  let ?m = "JObj [(''udp'', JObj [(''ports'', JArr [JNum 5540, JNum 6000])]), (''tcp'', JObj [(''lan'', JBool True)])]"
  let ?a = "JObj [(''udp'', JObj [(''ports'', JArr [JNum 6000])])]"
  have m: "validateCaps ?m = Some (noCaps\<lparr>cap_udp := Some \<lparr>uc_ports = [5540, 6000], uc_multicast = []\<rparr>, cap_tcp := Some True\<rparr>)"
    and a: "validateCaps ?a = Some (noCaps\<lparr>cap_udp := Some \<lparr>uc_ports = [6000], uc_multicast = []\<rparr>\<rparr>)"
    by code_simp+
  from effective_capabilities [OF m a] have
    "rights (intersectCaps (noCaps\<lparr>cap_udp := Some \<lparr>uc_ports = [5540, 6000], uc_multicast = []\<rparr>, cap_tcp := Some True\<rparr>)
      (noCaps\<lparr>cap_udp := Some \<lparr>uc_ports = [6000], uc_multicast = []\<rparr>\<rparr>)) = {Udp_port 6000}"
    by (auto simp: rights_def noCaps_def)
  with m a show ?thesis by blast
qed

section \<open>The order of versions\<close>

text \<open>A pre-release comes before its release.\<close>

definition version_key :: "semver \<Rightarrow> nat \<times> nat \<times> nat \<times> nat \<times> string" where
  "version_key v =
     (sv_major v, sv_minor v, sv_patch v, case sv_pre v of None \<Rightarrow> (1, []) | Some p \<Rightarrow> (0, p))"

lemma compareVersions_key:
  assumes "parseSemver a = Some x" "parseSemver b = Some y"
  shows "compareVersions a b =
    Some (if version_key x < version_key y then -1 else if version_key x = version_key y then 0 else 1)"
  using assms
  by (cases "sv_pre x"; cases "sv_pre y")
    (auto simp: compareVersions_def version_key_def less_prod_def)

text \<open>
  A manifest that passes the check describes a part the gateway can run: the entry file is
  inside a folder of its own and both paths are safe, memory is within the limits, its
  capabilities are grantable, and the gateway's version is not below the one it asks for, in the
  order in which a pre-release precedes its release.
\<close>

theorem edge_manifest_ok:
  assumes "validateEdgeManifest pf gv m = Inr e"
  shows "safe_path (em_entry e) \<and> safe_path (em_entryDir e) \<and> prefix (em_entryDir e @ ''/'') (em_entry e) \<and>
    16 \<le> em_memoryMb e \<and> em_memoryMb e \<le> 256 \<and> (\<forall>r \<in> rights (em_capabilities e). grantable r) \<and>
    (\<forall>x y. em_minGateway e \<noteq> JNull \<longrightarrow> parseSemver gv = Some x \<longrightarrow>
       parseSemver (stringOrEmpty pf (em_minGateway e)) = Some y \<longrightarrow> version_key y \<le> version_key x)"
proof -
  obtain c where c: "validateCaps c = Some (em_capabilities e)"
    and mem: "16 \<le> em_memoryMb e" "em_memoryMb e \<le> 256"
    and entry: "checkPath (em_entry e)" "em_entryDir e = dirname (em_entry e)" "dirname (em_entry e) \<noteq> ''.''"
    and old: "em_minGateway e \<noteq> JNull \<Longrightarrow> \<not> tooOld pf gv (em_minGateway e)"
    using assms
    by (auto simp: validateEdgeManifest_def Let_def manifestEntry_def manifestMemory_def LIM_memoryMbDefault_def
        LIM_memoryMbMin_def LIM_memoryMbMax_def split: if_splits option.splits json.splits)
  let ?segs = "split_on CHR ''/'' (em_entry e)"
  have two: "1 < length ?segs" using entry(3) by (auto simp: dirname_def Let_def split: if_splits)
  then obtain ds f where df: "?segs = ds @ [f]" "ds \<noteq> []"
    by (cases ?segs rule: rev_cases) auto
  have dir: "em_entryDir e = join CHR ''/'' ds" using entry(2) two df by (simp add: dirname_def Let_def)
  have plain: "\<forall>s \<in> set ?segs. CHR ''/'' \<notin> set s" using split_on_no_sep by metis
  have "em_entry e = join CHR ''/'' (ds @ [f])" using df(1) by (metis join_split_on)
  also have "\<dots> = join CHR ''/'' ds @ CHR ''/'' # f"
    using df(2) by (induction ds rule: induct_list012) auto
  finally have full: "em_entry e = em_entryDir e @ CHR ''/'' # f" by (simp add: dir)
  have "split_on CHR ''/'' (em_entryDir e) = ds"
    unfolding dir using df plain by (intro split_on_join) auto
  moreover have safe: "safe_path (em_entry e)" using checkPath_safe [OF entry(1)] by simp
  ultimately have "safe_path (em_entryDir e)" using full df by (auto simp: safe_path_def)
  moreover have "version_key y \<le> version_key x"
    if "em_minGateway e \<noteq> JNull" "parseSemver gv = Some x" "parseSemver (stringOrEmpty pf (em_minGateway e)) = Some y" for x y
  proof -
    have "gv \<noteq> []" using that(2) by (auto simp: parseSemver_def numDot_def)
    with old [OF that(1)] that compareVersions_key [OF that(2,3)] show ?thesis
      by (auto simp: tooOld_def split: if_splits)
  qed
  ultimately show ?thesis
    using safe full mem validateCaps_grantable [OF c] by (auto simp: prefix_def)
qed

end
