(* ===== verification/Edge_Protocol.thy ===== *)
theory Edge_Protocol
  imports Edge_Manifest
begin

text \<open>
  The messages of the server to the edge host (\<open>src/src/edge/protocol.js\<close>): the desired state,
  which is checked as a whole before anything of it is applied, and calls. A \<open>ProtocolError\<close> is
  \<open>None\<close>. The message of a capability error is represented by its code.
\<close>

section \<open>Data\<close>

record acl_entry =
  ac_access :: string
  ac_topic :: string

record mqtt_account =
  ma_user :: string
  ma_hash :: string
  ma_acl :: "acl_entry list"

record mqtt_cfg =
  mc_enabled :: bool
  mc_tls :: bool
  mc_accounts :: "mqtt_account list"
  mc_pluginTopics :: "(string, string list) jsmap"

record plugin_state =
  ps_id :: string
  ps_version :: string
  ps_sha256 :: string
  ps_caps :: caps
  ps_capsError :: "string option"
  ps_memoryMb :: "int option"
  ps_enabled :: bool

record edge_state =
  es_edgeEnabled :: bool
  es_allowUnsigned :: bool
  es_plugins :: "plugin_state list"
  es_mqtt :: mqtt_cfg

record edge_call =
  ec_id :: string
  ec_plugin :: string
  ec_method :: string
  ec_params :: json
  ec_timeoutMs :: rat

section \<open>Patterns\<close>

definition ID_RE :: "string \<Rightarrow> bool" where
  "ID_RE s = list_all (\<lambda>p. p \<noteq> [] \<and> list_all is_lower_alnum p) (split_on CHR ''-'' s)"

definition VERSION_RE :: "string \<Rightarrow> bool" where
  "VERSION_RE s =
     (case do { (a, r) \<leftarrow> numDot s; (b, r) \<leftarrow> numDot r; Some r } of
        None \<Rightarrow> False
      | Some r \<Rightarrow>
          takeWhile is_digit r \<noteq> [] \<and>
          (case dropWhile is_digit r of
             [] \<Rightarrow> True
           | c # t \<Rightarrow> (c = CHR ''-'' \<or> c = CHR ''+'') \<and> re_class is_pre_char 1 40 t))"

definition validId :: "json \<Rightarrow> bool" where
  "validId v = (case v of JStr s \<Rightarrow> 2 \<le> length s \<and> length s \<le> 64 \<and> ID_RE s | _ \<Rightarrow> False)"

definition USER_RE :: "string \<Rightarrow> bool" where
  "USER_RE s = re_class (\<lambda>c. is_alnum c \<or> c = CHR ''_'' \<or> c = CHR ''.'' \<or> c = CHR ''@'' \<or> c = CHR ''-'') 1 64 s"

definition is_b64 :: "char \<Rightarrow> bool" where
  "is_b64 c = (is_alnum c \<or> c = CHR ''+'' \<or> c = CHR ''/'')"

text \<open>\<open>[A-Za-z0-9+/]+={0,2}\<close>.\<close>

definition b64_part :: "string \<Rightarrow> bool" where
  "b64_part s =
     (takeWhile is_b64 s \<noteq> [] \<and> length (dropWhile is_b64 s) \<le> 2 \<and> list_all (\<lambda>c. c = CHR ''='') (dropWhile is_b64 s))"

text \<open>The classes of \<open>HASH_RE\<close> contain no dollar sign, so its fields are the parts of the split.\<close>

definition HASH_RE :: "string \<Rightarrow> bool" where
  "HASH_RE s =
     (case split_on CHR ''$'' s of
        [e, k, a, b] \<Rightarrow> e = [] \<and> k = ''6'' \<and> b64_part a \<and> b64_part b
      | [e, k, i, a, b] \<Rightarrow> e = [] \<and> k = ''7'' \<and> re_class is_digit 1 7 i \<and> b64_part a \<and> b64_part b
      | _ \<Rightarrow> False)"

definition ACCESS :: "string list" where
  "ACCESS = [''read'', ''write'', ''readwrite'']"

definition RESERVED_USERS :: "string list" where
  "RESERVED_USERS = [''gc-edge'']"

definition METHOD_RE :: "string \<Rightarrow> bool" where
  "METHOD_RE s = re_class (\<lambda>c. is_alnum c \<or> c = CHR ''.'' \<or> c = CHR ''_'' \<or> c = CHR '':'' \<or> c = CHR ''-'') 1 64 s"

definition SHA_RE :: "string \<Rightarrow> bool" where
  "SHA_RE s = re_class is_hex_lower 64 64 (toLower s)"

section \<open>The MQTT part of the state\<close>

definition aclEntry :: "json \<Rightarrow> acl_entry option" where
  "aclEntry r =
     (if \<not> isObj r then None
      else case (field (members r) ''access'', field (members r) ''topic'') of
             (JStr a, JStr t) \<Rightarrow>
               if a \<in> set ACCESS \<and> validFilter (JStr t) \<and> \<not> prefix ''$'' t
               then Some \<lparr>ac_access = a, ac_topic = t\<rparr> else None
           | _ \<Rightarrow> None)"

definition account :: "string list \<Rightarrow> json \<Rightarrow> mqtt_account option" where
  "account seen a =
     (if \<not> isObj a then None
      else case (field (members a) ''user'', field (members a) ''hash'') of
             (JStr u, JStr h) \<Rightarrow>
               if \<not> USER_RE u \<or> u \<in> set RESERVED_USERS \<or> u \<in> set seen \<or> 512 < length h \<or> \<not> HASH_RE h then None
               else map_option (\<lambda>acl. \<lparr>ma_user = u, ma_hash = h, ma_acl = acl\<rparr>)
                      (checkedList aclEntry 64 (orEmpty (field (members a) ''acl'')))
           | _ \<Rightarrow> None)"

fun accounts_loop :: "json list \<Rightarrow> string list \<Rightarrow> mqtt_account list option" where
  "accounts_loop [] seen = Some []"
| "accounts_loop (a # as) seen = do {
     acc \<leftarrow> account seen a;
     rest \<leftarrow> accounts_loop as (ma_user acc # seen);
     Some (acc # rest)
   }"

fun topics_loop :: "(string \<times> json) list \<Rightarrow> (string, string list) jsmap \<Rightarrow> (string, string list) jsmap option" where
  "topics_loop [] out = Some out"
| "topics_loop ((i, v) # ms) out =
     (if \<not> validId (JStr i) then None
      else case checkedList (stringIf (\<lambda>t. validPluginFilter (JStr t))) 16 v of
             None \<Rightarrow> None
           | Some ts \<Rightarrow> topics_loop ms (mset_at i (uniq ts) out))"

definition isTrue :: "json \<Rightarrow> bool" where
  "isTrue v = (v = JBool True)"

definition mqttOff :: mqtt_cfg where
  "mqttOff = \<lparr>mc_enabled = False, mc_tls = False, mc_accounts = [], mc_pluginTopics = []\<rparr>"

definition parseMqtt :: "json \<Rightarrow> mqtt_cfg option" where
  "parseMqtt v =
     (if v = JUndef \<or> v = JNull then Some mqttOff
      else if \<not> isObj v then None
      else let m = members v; al = orEmpty (field m ''accounts''); pt = field m ''pluginTopics''
        in if \<not> isArray al \<or> 256 < length (items al) then None
           else do {
             accs \<leftarrow> accounts_loop (items al) [];
             topics \<leftarrow> (if pt = JUndef then Some [] else if \<not> isObj pt then None else topics_loop (members pt) []);
             Some \<lparr>mc_enabled = isTrue (field m ''enabled''), mc_tls = isTrue (field m ''tls''),
                   mc_accounts = accs, mc_pluginTopics = topics\<rparr>
           })"

section \<open>State and calls\<close>

definition LIM_maxPlugins :: nat where
  "LIM_maxPlugins = 32"

definition LIM_callTimeoutMaxMs :: rat where
  "LIM_callTimeoutMaxMs = 30000"

definition pluginMemory :: "json \<Rightarrow> int option option" where
  "pluginMemory v =
     (if v = JUndef \<or> v = JNull then Some None
      else case intOf v of
             None \<Rightarrow> None
           | Some n \<Rightarrow> if n < LIM_memoryMbMin \<or> LIM_memoryMbMax < n then None else Some (Some n))"

definition pluginOf :: "string list \<Rightarrow> json \<Rightarrow> plugin_state option" where
  "pluginOf seen p =
     (let ms = members p
      in if \<not> isObj p \<or> \<not> validId (field ms ''id'') then None
         else case (field ms ''id'', field ms ''version'', field ms ''sha256'') of
                (JStr i, JStr v, JStr h) \<Rightarrow>
                  if i \<in> set seen \<or> 64 < length v \<or> \<not> VERSION_RE v \<or> \<not> SHA_RE h then None
                  else do {
                    memoryMb \<leftarrow> pluginMemory (field ms ''memoryMb'');
                    let checked = validateCaps (field ms ''caps'');
                    Some \<lparr>ps_id = i, ps_version = v, ps_sha256 = toLower h,
                          ps_caps = (case checked of Some c \<Rightarrow> c | None \<Rightarrow> noCaps),
                          ps_capsError = (if checked = None then Some ''bad_caps'' else None),
                          ps_memoryMb = memoryMb, ps_enabled = (field ms ''enabled'' \<noteq> JBool False)\<rparr>
                  }
              | _ \<Rightarrow> None)"

fun plugins_loop :: "json list \<Rightarrow> string list \<Rightarrow> plugin_state list option" where
  "plugins_loop [] seen = Some []"
| "plugins_loop (p # ps) seen = do {
     q \<leftarrow> pluginOf seen p;
     rest \<leftarrow> plugins_loop ps (ps_id q # seen);
     Some (q # rest)
   }"

definition parseState :: "json \<Rightarrow> edge_state option" where
  "parseState msg =
     (let ms = members msg; pl = orEmpty (field ms ''plugins'')
      in if \<not> isObj msg \<or> field ms ''t'' \<noteq> JStr ''state'' then None
         else if \<not> isArray pl \<or> LIM_maxPlugins < length (items pl) then None
         else do {
           plugins \<leftarrow> plugins_loop (items pl) [];
           mqtt \<leftarrow> parseMqtt (field ms ''mqtt'');
           Some \<lparr>es_edgeEnabled = isTrue (field ms ''edgeEnabled''), es_allowUnsigned = isTrue (field ms ''allowUnsigned''),
                 es_plugins = plugins, es_mqtt = mqtt\<rparr>
         })"

definition parseCall :: "json \<Rightarrow> edge_call option" where
  "parseCall msg =
     (let ms = members msg
      in case (field ms ''id'', field ms ''plugin'', field ms ''method'') of
           (JStr i, JStr p, JStr m) \<Rightarrow>
             if length i < 1 \<or> 64 < length i \<or> \<not> validId (JStr p) \<or> \<not> METHOD_RE m then None
             else Some \<lparr>ec_id = i, ec_plugin = p, ec_method = m,
                        ec_params = (if field ms ''params'' = JUndef then JNull else field ms ''params''),
                        ec_timeoutMs = (case field ms ''timeoutMs'' of
                            JNum t \<Rightarrow> max 1 (min LIM_callTimeoutMaxMs t) | _ \<Rightarrow> LIM_callTimeoutMaxMs)\<rparr>
         | _ \<Rightarrow> None)"

section \<open>What passes\<close>

definition account_ok :: "mqtt_account \<Rightarrow> bool" where
  "account_ok a =
     (USER_RE (ma_user a) \<and> ma_user a \<noteq> ''gc-edge'' \<and> HASH_RE (ma_hash a) \<and> length (ma_acl a) \<le> 64 \<and>
      (\<forall>e \<in> set (ma_acl a). ac_access e \<in> set ACCESS \<and> validFilter (JStr (ac_topic e)) \<and> \<not> prefix ''$'' (ac_topic e)))"

definition topics_ok :: "(string, string list) jsmap \<Rightarrow> bool" where
  "topics_ok m =
     (wf_map m \<and> (\<forall>(i, ts) \<in> set m. ID_RE i \<and> length ts \<le> 16 \<and> distinct ts \<and>
        (\<forall>t \<in> set ts. validPluginFilter (JStr t))))"

definition mqtt_cfg_ok :: "mqtt_cfg \<Rightarrow> bool" where
  "mqtt_cfg_ok c =
     (length (mc_accounts c) \<le> 256 \<and> distinct (map ma_user (mc_accounts c)) \<and> (\<forall>a \<in> set (mc_accounts c). account_ok a) \<and>
      topics_ok (mc_pluginTopics c))"

definition plugin_ok :: "plugin_state \<Rightarrow> bool" where
  "plugin_ok p =
     (ID_RE (ps_id p) \<and> length (ps_id p) \<le> 64 \<and> VERSION_RE (ps_version p) \<and> re_class is_hex_lower 64 64 (ps_sha256 p) \<and>
      (\<forall>r \<in> rights (ps_caps p). grantable r) \<and> (ps_capsError p \<noteq> None \<longrightarrow> rights (ps_caps p) = {}) \<and>
      (\<forall>n. ps_memoryMb p = Some n \<longrightarrow> 16 \<le> n \<and> n \<le> 256))"

definition edge_state_ok :: "edge_state \<Rightarrow> bool" where
  "edge_state_ok s =
     (length (es_plugins s) \<le> 32 \<and> distinct (map ps_id (es_plugins s)) \<and> (\<forall>p \<in> set (es_plugins s). plugin_ok p) \<and>
      mqtt_cfg_ok (es_mqtt s))"

lemma account_parsed:
  assumes "account seen j = Some a"
  shows "account_ok a \<and> ma_user a \<notin> set seen"
proof -
  obtain u h acl where "checkedList aclEntry 64 (orEmpty (field (members j) ''acl'')) = Some acl"
      "a = \<lparr>ma_user = u, ma_hash = h, ma_acl = acl\<rparr>" "USER_RE u" "u \<notin> set RESERVED_USERS" "u \<notin> set seen" "HASH_RE h"
    using assms by (auto simp: account_def split: if_splits json.splits)
  moreover have "ac_access e \<in> set ACCESS \<and> validFilter (JStr (ac_topic e)) \<and> \<not> prefix ''$'' (ac_topic e)"
    if "aclEntry r = Some e" for r e
    using that by (auto simp: aclEntry_def split: if_splits json.splits)
  ultimately show ?thesis using checkedList_ok [of aclEntry 64 _ acl]
    by (fastforce simp: account_ok_def RESERVED_USERS_def)
qed

lemma accounts_parsed:
  "accounts_loop js seen = Some as \<Longrightarrow>
   length as = length js \<and> distinct (map ma_user as) \<and> set (map ma_user as) \<inter> set seen = {} \<and> (\<forall>a \<in> set as. account_ok a)"
proof (induction js seen arbitrary: as rule: accounts_loop.induct)
  case (2 j js seen)
  then obtain a rest where "account seen j = Some a" "accounts_loop js (ma_user a # seen) = Some rest" "as = a # rest"
    by (auto split: Option.bind_split_asm)
  with 2(1) [of a rest] account_parsed [of seen j a] show ?case by auto
qed simp

lemma topics_parsed: "topics_ok out \<Longrightarrow> topics_loop ms out = Some m \<Longrightarrow> topics_ok m"
proof (induction ms out rule: topics_loop.induct)
  case (2 i v ms out)
  from 2(3) obtain ts where ts: "ID_RE i" "checkedList (stringIf (\<lambda>t. validPluginFilter (JStr t))) 16 v = Some ts"
      "topics_loop ms (mset_at i (uniq ts) out) = Some m" "validId (JStr i)"
    by (auto simp: validId_def split: if_splits option.splits)
  have "set (mset_at i (uniq ts) out) \<subseteq> insert (i, uniq ts) (set out)"
    by (induction i "uniq ts" out rule: mset_at.induct) auto
  moreover have "length (uniq ts) \<le> 16" "\<forall>t \<in> set ts. validPluginFilter (JStr t)"
    using checkedList_ok [OF ts(2)] stringIf_ok length_uniq_le [of ts] by fastforce+
  ultimately have "topics_ok (mset_at i (uniq ts) out)"
    using 2(2) ts(1) by (fastforce simp: topics_ok_def)
  with 2(1) ts show ?case by auto
qed simp

lemma parseMqtt_ok: "parseMqtt v = Some c \<Longrightarrow> mqtt_cfg_ok c"
proof -
  have e: "topics_ok []" by (simp add: topics_ok_def)
  assume "parseMqtt v = Some c"
  then consider "c = mqttOff"
    | "accounts_loop (items (orEmpty (field (members v) ''accounts''))) [] = Some (mc_accounts c)"
      "length (items (orEmpty (field (members v) ''accounts''))) \<le> 256"
      "mc_pluginTopics c = [] \<or> topics_loop (members (field (members v) ''pluginTopics'')) [] = Some (mc_pluginTopics c)"
    by (auto simp: parseMqtt_def Let_def not_less split: if_splits Option.bind_split_asm)
  then show ?thesis
  proof cases
    case 1
    with e show ?thesis by (simp add: mqtt_cfg_ok_def mqttOff_def)
  next
    case 2
    with accounts_parsed [OF 2(1)] topics_parsed [OF e] e show ?thesis by (auto simp: mqtt_cfg_ok_def)
  qed
qed

lemma plugin_parsed:
  assumes "pluginOf seen j = Some p"
  shows "plugin_ok p \<and> ps_id p \<notin> set seen"
proof -
  let ?c = "validateCaps (field (members j) ''caps'')"
  have "validId (JStr (ps_id p))" "ps_id p \<notin> set seen" "VERSION_RE (ps_version p)" "re_class is_hex_lower 64 64 (ps_sha256 p)"
    and c: "ps_caps p = (case ?c of Some c \<Rightarrow> c | None \<Rightarrow> noCaps)" "ps_capsError p = (if ?c = None then Some ''bad_caps'' else None)"
    and m: "pluginMemory (field (members j) ''memoryMb'') = Some (ps_memoryMb p)"
    using assms by (auto simp: pluginOf_def Let_def SHA_RE_def split: if_splits json.splits Option.bind_split_asm)
  moreover have "rights noCaps = {}" by (simp add: rights_def noCaps_def)
  then have "\<forall>r \<in> rights (ps_caps p). grantable r" "ps_capsError p \<noteq> None \<longrightarrow> rights (ps_caps p) = {}"
    using validateCaps_grantable c by (auto split: option.splits)
  moreover have "16 \<le> n \<and> n \<le> 256" if "ps_memoryMb p = Some n" for n
    using m that by (auto simp: pluginMemory_def LIM_memoryMbMin_def LIM_memoryMbMax_def split: if_splits option.splits)
  ultimately show ?thesis by (auto simp: plugin_ok_def validId_def)
qed

lemma plugins_parsed:
  "plugins_loop js seen = Some ps \<Longrightarrow>
   length ps = length js \<and> distinct (map ps_id ps) \<and> set (map ps_id ps) \<inter> set seen = {} \<and> (\<forall>p \<in> set ps. plugin_ok p)"
proof (induction js seen arbitrary: ps rule: plugins_loop.induct)
  case (2 j js seen)
  then obtain p rest where "pluginOf seen j = Some p" "plugins_loop js (ps_id p # seen) = Some rest" "ps = p # rest"
    by (auto split: Option.bind_split_asm)
  with 2(1) [of p rest] plugin_parsed [of seen j p] show ?case by auto
qed simp

text \<open>
  A desired state that passes the check is well-formed in every part before anything of it is
  applied: at most 32 plugins with distinct ids, grantable capabilities and memory within the
  limits, none at all when their check failed; distinct MQTT accounts that never carry the
  internal user or a reserved topic; plugin topics that are proper plugin filters.
\<close>

theorem desired_state_ok:
  assumes "parseState msg = Some s"
  shows "edge_state_ok s"
proof -
  obtain js where "plugins_loop js [] = Some (es_plugins s)" "length js \<le> 32"
      and m: "parseMqtt (field (members msg) ''mqtt'') = Some (es_mqtt s)"
    using assms by (auto simp: parseState_def Let_def LIM_maxPlugins_def not_less split: if_splits Option.bind_split_asm)
  with plugins_parsed [of js "[]"] parseMqtt_ok [OF m] show ?thesis by (auto simp: edge_state_ok_def)
qed

end
