(* ===== verification/Edge_Mqtt.thy ===== *)
theory Edge_Mqtt
  imports Edge_Protocol
begin

text \<open>
  The MQTT manager of the gateway (\<open>src/src/edge/mqtt/manager.js\<close>): it applies the desired
  state, keeps one connection to the local broker, counts the filters its plugins subscribed to
  and hands each message to the plugins whose filter matches. Every handler is a function on the
  manager's state that also returns the commands sent to the broker.

  Arguments stand for what the environment answers: whether the broker's volume is there, the TLS
  state the file writer reports, whether the broker grants a subscription, the decoded payload.
  The broker's files, the mDNS announcement, logging and the regular expressions over the
  broker's log are not modelled; the lines of the log arrive already classified.
\<close>

section \<open>State\<close>

record mqtt_sub =
  su_plugin :: string
  su_id :: nat
  su_filter :: string
  su_caps :: caps

record mqtt_manager =
  mm_cfg :: mqtt_cfg
  mm_client :: "bool option"
  mm_retry :: bool
  mm_subs :: "(string, mqtt_sub) jsmap"
  mm_filterRefs :: "(string, nat) jsmap"
  mm_nextId :: nat
  mm_clients :: nat
  mm_accounts :: "(string, bool) jsmap"
  mm_clientUsers :: "(string, string) jsmap"
  mm_tls :: string

text \<open>\<open>mm_client\<close>: no client, a client that is connecting, a connected client.\<close>

definition newManager :: mqtt_manager where
  "newManager =
     \<lparr>mm_cfg = mqttOff, mm_client = None, mm_retry = False, mm_subs = [], mm_filterRefs = [], mm_nextId = 0,
      mm_clients = 0, mm_accounts = [], mm_clientUsers = [], mm_tls = ''off''\<rparr>"

datatype mqtt_cmd = Subscribe string | Unsubscribe string | Publish string bytes bool bool

datatype mqtt_error = Not_enabled | Denied | Busy | Payload_too_large | Not_available | Unknown_api | Type_error

definition LIM_subscriptionsPerPlugin :: nat where
  "LIM_subscriptionsPerPlugin = 64"

definition LIM_mqttPayloadBytes :: nat where
  "LIM_mqttPayloadBytes = 256 * 1024"

section \<open>Permissions\<close>

text \<open>
  \<open>this.cfg.pluginTopics[plugin] || []\<close>: a computed lookup, which finds the members of
  \<open>Object.prototype\<close> too; calling \<open>some\<close> on one of them throws.
\<close>

definition grantedTopics :: "mqtt_cfg \<Rightarrow> string \<Rightarrow> string list option" where
  "grantedTopics cfg plugin =
     (case map_of (mc_pluginTopics cfg) plugin of
        Some g \<Rightarrow> Some g
      | None \<Rightarrow> if plugin \<in> set object_prototype then None else Some [])"

definition allowedFor :: "mqtt_cfg \<Rightarrow> string \<Rightarrow> caps \<Rightarrow> string list option" where
  "allowedFor cfg plugin c =
     (let own = list_of (cap_mqtt c)
      in if own = [] then Some []
         else map_option (\<lambda>granted. filter (\<lambda>f. list_ex (\<lambda>g. covers g f) granted) own) (grantedTopics cfg plugin))"

section \<open>Subscriptions\<close>

definition subKey :: "string \<Rightarrow> string \<Rightarrow> string" where
  "subKey plugin i = plugin @ ''#'' @ i"

definition connected :: "mqtt_manager \<Rightarrow> bool" where
  "connected m = (mm_client m = Some True)"

definition removeSub :: "string \<Rightarrow> mqtt_manager \<Rightarrow> mqtt_manager \<times> mqtt_cmd list" where
  "removeSub key m =
     (case map_of (mm_subs m) key of
        None \<Rightarrow> (m, [])
      | Some s \<Rightarrow>
          let m1 = m\<lparr>mm_subs := mdelete key (mm_subs m)\<rparr>;
              n = (case map_of (mm_filterRefs m) (su_filter s) of None \<Rightarrow> 0 | Some k \<Rightarrow> k - 1)
          in if n \<le> 0
             then (m1\<lparr>mm_filterRefs := mdelete (su_filter s) (mm_filterRefs m)\<rparr>,
                   if connected m then [Unsubscribe (su_filter s)] else [])
             else (m1\<lparr>mm_filterRefs := mset_at (su_filter s) n (mm_filterRefs m)\<rparr>, []))"

fun removeSubs :: "string list \<Rightarrow> mqtt_manager \<Rightarrow> mqtt_manager \<times> mqtt_cmd list" where
  "removeSubs [] m = (m, [])"
| "removeSubs (k # ks) m =
     (case removeSub k m of (m1, c1) \<Rightarrow> (case removeSubs ks m1 of (m2, c2) \<Rightarrow> (m2, c1 @ c2)))"

definition dropPlugin :: "string \<Rightarrow> mqtt_manager \<Rightarrow> mqtt_manager \<times> mqtt_cmd list" where
  "dropPlugin plugin m = removeSubs (mkeys (filter (\<lambda>ks. su_plugin (snd ks) = plugin) (mm_subs m))) m"

text \<open>
  The loop of \<open>refresh\<close> over the subscriptions: the result also says whether a check threw, which
  ends the loop. Subscriptions already removed are not visited again.
\<close>

fun recheck :: "mqtt_cfg \<Rightarrow> (string, mqtt_sub) jsmap \<Rightarrow> mqtt_manager \<Rightarrow> mqtt_manager \<times> mqtt_cmd list \<times> bool" where
  "recheck cfg [] m = (m, [], False)"
| "recheck cfg ((k, s) # rest) m =
     (case allowedFor cfg (su_plugin s) (su_caps s) of
        None \<Rightarrow> (m, [], True)
      | Some as \<Rightarrow>
          if list_ex (\<lambda>a. covers a (su_filter s)) as then recheck cfg rest m
          else case removeSub k m of
                 (m1, c1) \<Rightarrow> (case recheck cfg rest m1 of (m2, c2, t) \<Rightarrow> (m2, c1 @ c2, t)))"

definition refresh :: "bool \<Rightarrow> string \<Rightarrow> mqtt_manager \<Rightarrow> mqtt_manager \<times> mqtt_cmd list \<times> bool" where
  "refresh avail tls m =
     (if \<not> mc_enabled (mm_cfg m) \<or> \<not> avail then (m, [], False)
      else recheck (mm_cfg m) (mm_subs m) (m\<lparr>mm_tls := tls\<rparr>))"

section \<open>Connection\<close>

definition stopClient :: "mqtt_manager \<Rightarrow> mqtt_manager" where
  "stopClient m = m\<lparr>mm_retry := False, mm_client := None, mm_clients := 0\<rparr>"

definition ensureClient :: "mqtt_manager \<Rightarrow> mqtt_manager" where
  "ensureClient m = (if mm_client m \<noteq> None \<or> mm_retry m then m else m\<lparr>mm_client := Some False\<rparr>)"

definition scheduleRetry :: "mqtt_manager \<Rightarrow> mqtt_manager" where
  "scheduleRetry m = (if \<not> mc_enabled (mm_cfg m) \<or> mm_retry m then m else m\<lparr>mm_retry := True\<rparr>)"

definition onConnected :: "mqtt_manager \<Rightarrow> mqtt_manager \<times> mqtt_cmd list" where
  "onConnected m =
     (if mm_client m = None then (m, [])
      else (m\<lparr>mm_client := Some True\<rparr>,
            [Subscribe ''$SYS/broker/clients/connected'', Subscribe ''$SYS/broker/log/N''] @
            map Subscribe (mkeys (mm_filterRefs m))))"

definition onClose :: "mqtt_manager \<Rightarrow> mqtt_manager" where
  "onClose m = (if mm_client m = None then m else scheduleRetry (m\<lparr>mm_client := None\<rparr>))"

text \<open>A connection attempt fails; \<open>current\<close> says whether its client is still the manager's.\<close>

definition onConnectFailed :: "bool \<Rightarrow> mqtt_manager \<Rightarrow> mqtt_manager" where
  "onConnectFailed current m = scheduleRetry (if current then m\<lparr>mm_client := None\<rparr> else m)"

definition onRetry :: "mqtt_manager \<Rightarrow> mqtt_manager" where
  "onRetry m =
     (if \<not> mm_retry m then m
      else let m1 = m\<lparr>mm_retry := False\<rparr> in if mc_enabled (mm_cfg m1) then ensureClient m1 else m1)"

definition mqtt_apply :: "mqtt_cfg \<Rightarrow> bool \<Rightarrow> string \<Rightarrow> mqtt_manager \<Rightarrow> mqtt_manager \<times> mqtt_cmd list \<times> bool" where
  "mqtt_apply cfg avail tls m =
     (let m0 = m\<lparr>mm_cfg := cfg\<rparr>
      in if \<not> mc_enabled cfg \<or> \<not> avail then (stopClient m0, [], False)
         else case refresh avail tls m0 of
                (m1, c, threw) \<Rightarrow> (if threw then m1 else ensureClient m1, c, threw))"

definition mqtt_stop :: "mqtt_manager \<Rightarrow> mqtt_manager" where
  "mqtt_stop m = stopClient (m\<lparr>mm_cfg := (mm_cfg m)\<lparr>mc_enabled := False\<rparr>\<rparr>)"

definition account_connected :: "mqtt_manager \<Rightarrow> string \<Rightarrow> bool" where
  "account_connected m user = (map_of (mm_accounts m) user = Some True)"

definition mqtt_status :: "mqtt_manager \<Rightarrow> bool \<times> nat \<times> string \<times> (string \<times> bool) list" where
  "mqtt_status m =
     (connected m, mm_clients m - (if connected m then 1 else 0), mm_tls m,
      map (\<lambda>a. (ma_user a, account_connected m (ma_user a))) (mc_accounts (mm_cfg m)))"

section \<open>Messages\<close>

datatype log_line = Log_connect string string | Log_disconnect string | Log_other

fun onLog :: "log_line \<Rightarrow> mqtt_manager \<Rightarrow> mqtt_manager" where
  "onLog (Log_connect cid user) m =
     m\<lparr>mm_clientUsers := mset_at cid user (mm_clientUsers m), mm_accounts := mset_at user True (mm_accounts m)\<rparr>"
| "onLog (Log_disconnect cid) m =
     (let users = mdelete cid (mm_clientUsers m)
      in case map_of (mm_clientUsers m) cid of
           None \<Rightarrow> m\<lparr>mm_clientUsers := users\<rparr>
         | Some user \<Rightarrow>
             if user \<noteq> [] \<and> user \<notin> set (map snd users)
             then m\<lparr>mm_clientUsers := users, mm_accounts := mset_at user False (mm_accounts m)\<rparr>
             else m\<lparr>mm_clientUsers := users\<rparr>)"
| "onLog Log_other m = m"

text \<open>
  A message: \<open>num\<close> is \<open>Number(payload) || 0\<close> and \<open>line\<close> the classified log line, used for the
  two broker topics only. The deliveries are the subscriptions whose plugin gets the message.
\<close>

definition onMessage :: "string \<Rightarrow> nat \<Rightarrow> log_line \<Rightarrow> mqtt_manager \<Rightarrow> mqtt_sub list \<times> mqtt_manager" where
  "onMessage topic num line m =
     (if topic = ''$SYS/broker/clients/connected'' then ([], m\<lparr>mm_clients := num\<rparr>)
      else if topic = ''$SYS/broker/log/N'' then ([], onLog line m)
      else (filter (\<lambda>s. matches (su_filter s) topic) (map snd (mm_subs m)), m))"

section \<open>Calls of the plugins\<close>

datatype mqtt_api = Api_subscribe json | Api_unsubscribe string | Api_publish json bytes bool bool | Api_unknown

definition subscribe ::
  "string \<Rightarrow> caps \<Rightarrow> string \<Rightarrow> bool \<Rightarrow> mqtt_manager \<Rightarrow> (mqtt_error + nat) \<times> mqtt_manager \<times> mqtt_cmd list" where
  "subscribe plugin c f ack m =
     (if LIM_subscriptionsPerPlugin \<le> length (filter (\<lambda>ks. su_plugin (snd ks) = plugin) (mm_subs m)) then (Inl Busy, m, [])
      else let i = mm_nextId m + 1;
               n = (case map_of (mm_filterRefs m) f of None \<Rightarrow> 0 | Some k \<Rightarrow> k) + 1;
               m1 = m\<lparr>mm_nextId := i,
                      mm_subs := mset_at (subKey plugin (dec_string i))
                        \<lparr>su_plugin = plugin, su_id = i, su_filter = f, su_caps = c\<rparr> (mm_subs m),
                      mm_filterRefs := mset_at f n (mm_filterRefs m)\<rparr>
           in if n = 1 \<and> connected m then (if ack then Inr i else Inl Denied, m1, [Subscribe f]) else (Inr i, m1, []))"

definition pluginCall ::
  "string \<Rightarrow> caps \<Rightarrow> mqtt_api \<Rightarrow> bool \<Rightarrow> mqtt_manager \<Rightarrow> (mqtt_error + nat) \<times> mqtt_manager \<times> mqtt_cmd list" where
  "pluginCall plugin c api ack m =
     (if \<not> mc_enabled (mm_cfg m) then (Inl Not_enabled, m, [])
      else case allowedFor (mm_cfg m) plugin c of
             None \<Rightarrow> (Inl Type_error, m, [])
           | Some allowed \<Rightarrow>
               (case api of
                  Api_subscribe v \<Rightarrow>
                    (case v of
                       JStr f \<Rightarrow>
                         if validFilter v \<and> list_ex (\<lambda>a. covers a f) allowed then subscribe plugin c f ack m
                         else (Inl Denied, m, [])
                     | _ \<Rightarrow> (Inl Denied, m, []))
                | Api_unsubscribe i \<Rightarrow>
                    (case removeSub (subKey plugin i) m of (m1, cmds) \<Rightarrow> (Inr 0, m1, cmds))
                | Api_publish v payload qos retain \<Rightarrow>
                    (case v of
                       JStr t \<Rightarrow>
                         if \<not> (validTopic v \<and> list_ex (\<lambda>a. matches a t) allowed) then (Inl Denied, m, [])
                         else if LIM_mqttPayloadBytes < length payload then (Inl Payload_too_large, m, [])
                         else if \<not> connected m then (Inl Not_available, m, [])
                         else (Inr 0, m, [Publish t payload qos retain])
                     | _ \<Rightarrow> (Inl Denied, m, []))
                | Api_unknown \<Rightarrow> (Inl Unknown_api, m, [])))"

section \<open>The machine\<close>

datatype mqtt_event =
    Apply mqtt_cfg bool string
  | Tick bool string
  | Connected
  | Closed
  | Connect_failed bool
  | Retry
  | Stop
  | Call string caps mqtt_api bool
  | Drop string
  | Message string nat log_line

fun mqtt_step :: "mqtt_event \<Rightarrow> mqtt_manager \<Rightarrow> mqtt_manager \<times> mqtt_cmd list" where
  "mqtt_step (Apply cfg avail tls) m = (case mqtt_apply cfg avail tls m of (m', c, _) \<Rightarrow> (m', c))"
| "mqtt_step (Tick avail tls) m = (case refresh avail tls m of (m', c, _) \<Rightarrow> (m', c))"
| "mqtt_step Connected m = onConnected m"
| "mqtt_step Closed m = (onClose m, [])"
| "mqtt_step (Connect_failed current) m = (onConnectFailed current m, [])"
| "mqtt_step Retry m = (onRetry m, [])"
| "mqtt_step Stop m = (mqtt_stop m, [])"
| "mqtt_step (Call p c api ack) m = (case pluginCall p c api ack m of (_, m', cmds) \<Rightarrow> (m', cmds))"
| "mqtt_step (Drop p) m = dropPlugin p m"
| "mqtt_step (Message t n l) m = (snd (onMessage t n l m), [])"

text \<open>
  The events that occur: configurations that passed \<open>parseMqtt\<close>, calls of plugins with a valid
  id and checked capabilities, and a broker volume that is there when MQTT is wanted. A plugin
  whose id is an inherited member name makes \<open>allowedFor\<close> throw and is left out.
\<close>

fun event_ok :: "mqtt_event \<Rightarrow> bool" where
  "event_ok (Apply cfg avail _) = (mqtt_cfg_ok cfg \<and> (mc_enabled cfg \<longrightarrow> avail))"
| "event_ok (Call p c _ _) =
     (ID_RE p \<and> p \<notin> set object_prototype \<and> list_all (\<lambda>t. validPluginFilter (JStr t)) (list_of (cap_mqtt c)))"
| "event_ok _ = True"

inductive mqtt_reachable :: "mqtt_manager \<Rightarrow> bool" where
  init: "mqtt_reachable newManager"
| step: "mqtt_reachable m \<Longrightarrow> event_ok e \<Longrightarrow> mqtt_reachable (fst (mqtt_step e m))"

section \<open>Keys and counts\<close>

lemma subKey_inject:
  assumes "CHR ''#'' \<notin> set p" "CHR ''#'' \<notin> set q" "subKey p i = subKey q j"
  shows "p = q \<and> i = j"
proof -
  have "split_on CHR ''#'' (subKey p i) = p # split_on CHR ''#'' i" "split_on CHR ''#'' (subKey q j) = q # split_on CHR ''#'' j"
    using assms(1,2) by (simp_all add: subKey_def split_on_append)
  with assms(3) have "p = q" by simp
  with assms(3) show ?thesis by (simp add: subKey_def)
qed

lemma ID_RE_no_hash: "ID_RE p \<Longrightarrow> CHR ''#'' \<notin> set p"
proof
  assume i: "ID_RE p" and h: "CHR ''#'' \<in> set p"
  have "CHR ''#'' \<in> set (join CHR ''-'' (split_on CHR ''-'' p))" using h by simp
  then obtain q where "q \<in> set (split_on CHR ''-'' p)" "CHR ''#'' \<in> set q"
    using set_join [of "CHR ''-''" "split_on CHR ''-'' p"] by auto
  with i have "is_lower_alnum CHR ''#''" by (auto simp: ID_RE_def list_all_iff)
  then show False by code_simp
qed

definition filter_count :: "(string, mqtt_sub) jsmap \<Rightarrow> string \<Rightarrow> nat" where
  "filter_count subs f = length (filter (\<lambda>ks. su_filter (snd ks) = f) subs)"

lemma count_mdelete:
  "wf_map m \<Longrightarrow> map_of m k = Some s \<Longrightarrow>
   length (filter P m) = length (filter P (mdelete k m)) + (if P (k, s) then 1 else 0)"
proof (induction m)
  case (Cons e m)
  show ?case
  proof (cases "fst e = k")
    case True
    with Cons.prems have "k \<notin> fst ` set m" "e = (k, s)" by (auto simp: wf_map_def prod_eq_iff)
    then show ?thesis using mdelete_absent [of k m] by (simp add: mdelete_def)
  next
    case False
    with Cons.prems have "wf_map m" "map_of m k = Some s" by (auto simp: wf_map_def)
    with Cons.IH False show ?thesis by (simp add: mdelete_def)
  qed
qed simp

definition counted :: "mqtt_manager \<Rightarrow> bool" where
  "counted m =
     (wf_map (mm_subs m) \<and> wf_map (mm_filterRefs m) \<and>
      (\<forall>f. map_of (mm_filterRefs m) f =
         (if filter_count (mm_subs m) f = 0 then None else Some (filter_count (mm_subs m) f))))"

lemma removeSub_spec:
  assumes "counted m"
  shows "counted (fst (removeSub k m))" "mm_subs (fst (removeSub k m)) = mdelete k (mm_subs m)"
    "mm_cfg (fst (removeSub k m)) = mm_cfg m" "mm_nextId (fst (removeSub k m)) = mm_nextId m"
proof -
  have "counted (fst (removeSub k m)) \<and> mm_subs (fst (removeSub k m)) = mdelete k (mm_subs m)"
  proof (cases "map_of (mm_subs m) k")
    case None
    then have "k \<notin> fst ` set (mm_subs m)" by (simp add: map_of_eq_None_iff)
    with None assms show ?thesis by (simp add: removeSub_def mdelete_absent)
  next
    case (Some s)
    let ?c = "filter_count (mm_subs m)" and ?c' = "filter_count (mdelete k (mm_subs m))"
    have c: "?c f = ?c' f + (if su_filter s = f then 1 else 0)" for f
      using count_mdelete [OF _ Some, of "\<lambda>ks. su_filter (snd ks) = f"] assms
      by (simp add: counted_def filter_count_def)
    then have "map_of (mm_filterRefs m) (su_filter s) = Some (?c' (su_filter s) + 1)"
      using assms by (simp add: counted_def)
    with Some assms c show ?thesis by (auto simp: removeSub_def Let_def counted_def)
  qed
  then show "counted (fst (removeSub k m))" "mm_subs (fst (removeSub k m)) = mdelete k (mm_subs m)" by auto
  show "mm_cfg (fst (removeSub k m)) = mm_cfg m" "mm_nextId (fst (removeSub k m)) = mm_nextId m"
    by (auto simp: removeSub_def Let_def split: option.splits)
qed

lemma removeSubs_spec:
  "counted m \<Longrightarrow> counted (fst (removeSubs ks m)) \<and>
   mm_subs (fst (removeSubs ks m)) = filter (\<lambda>e. fst e \<notin> set ks) (mm_subs m) \<and>
   mm_cfg (fst (removeSubs ks m)) = mm_cfg m \<and> mm_nextId (fst (removeSubs ks m)) = mm_nextId m"
proof (induction ks arbitrary: m)
  case (Cons k ks)
  have "filter (\<lambda>e. fst e \<notin> set ks) (mdelete k (mm_subs m)) = filter (\<lambda>e. fst e \<notin> set (k # ks)) (mm_subs m)"
    by (simp add: mdelete_def conj_commute)
  with removeSub_spec [OF Cons.prems, of k] Cons.IH [of "fst (removeSub k m)"] show ?case
    by (auto simp: case_prod_beta)
qed simp

text \<open>The check that decides whether a subscription stays.\<close>

definition sub_allowed :: "mqtt_cfg \<Rightarrow> mqtt_sub \<Rightarrow> bool" where
  "sub_allowed cfg s =
     (case allowedFor cfg (su_plugin s) (su_caps s) of
        None \<Rightarrow> False | Some as \<Rightarrow> list_ex (\<lambda>a. covers a (su_filter s)) as)"

lemma allowedFor_total: "p \<notin> set object_prototype \<Longrightarrow> allowedFor cfg p c \<noteq> None"
  by (auto simp: allowedFor_def grantedTopics_def Let_def split: option.splits)

lemma recheck_spec:
  "counted m \<Longrightarrow> \<forall>ks \<in> set todo. su_plugin (snd ks) \<notin> set object_prototype \<Longrightarrow>
   counted (fst (recheck cfg todo m)) \<and>
   mm_subs (fst (recheck cfg todo m)) = filter (\<lambda>e. fst e \<notin> fst ` {ks \<in> set todo. \<not> sub_allowed cfg (snd ks)}) (mm_subs m) \<and>
   mm_cfg (fst (recheck cfg todo m)) = mm_cfg m \<and> mm_nextId (fst (recheck cfg todo m)) = mm_nextId m \<and>
   \<not> snd (snd (recheck cfg todo m))"
proof (induction cfg todo m rule: recheck.induct)
  case (2 cfg k s rest m)
  obtain as where as: "allowedFor cfg (su_plugin s) (su_caps s) = Some as"
    using 2(4) allowedFor_total [of "su_plugin s" cfg] by auto
  show ?case
  proof (cases "list_ex (\<lambda>a. covers a (su_filter s)) as")
    case True
    then have "{ks \<in> set ((k, s) # rest). \<not> sub_allowed cfg (snd ks)} = {ks \<in> set rest. \<not> sub_allowed cfg (snd ks)}"
      using as by (auto simp: sub_allowed_def)
    with 2(1) [OF as True 2(3)] 2(4) as True show ?thesis by simp
  next
    case False
    let ?m1 = "fst (removeSub k m)"
    have e: "{ks \<in> set ((k, s) # rest). \<not> sub_allowed cfg (snd ks)} = insert (k, s) {ks \<in> set rest. \<not> sub_allowed cfg (snd ks)}"
      using False as by (auto simp: sub_allowed_def)
    have f: "filter (\<lambda>e. fst e \<notin> fst ` A) (mdelete k m') = filter (\<lambda>e. fst e \<notin> fst ` insert (k, s) A) m'"
      for A :: "(string \<times> mqtt_sub) set" and m' :: "(string, mqtt_sub) jsmap"
      by (simp add: mdelete_def conj_commute)
    have ih: "counted (fst (recheck cfg rest ?m1)) \<and>
       mm_subs (fst (recheck cfg rest ?m1)) = filter (\<lambda>e. fst e \<notin> fst ` {ks \<in> set rest. \<not> sub_allowed cfg (snd ks)}) (mm_subs ?m1) \<and>
       mm_cfg (fst (recheck cfg rest ?m1)) = mm_cfg ?m1 \<and> mm_nextId (fst (recheck cfg rest ?m1)) = mm_nextId ?m1 \<and>
       \<not> snd (snd (recheck cfg rest ?m1))"
      using 2(2) [OF as False, of ?m1 "snd (removeSub k m)"] 2(3,4) removeSub_spec(1) by auto
    have r: "recheck cfg ((k, s) # rest) m =
        (fst (recheck cfg rest ?m1), snd (removeSub k m) @ fst (snd (recheck cfg rest ?m1)), snd (snd (recheck cfg rest ?m1)))"
      using as False by (simp add: case_prod_beta)
    show ?thesis
      unfolding r e f [symmetric] fst_conv snd_conv using ih removeSub_spec [OF 2(3), of k] by simp
  qed
qed simp

section \<open>The invariant\<close>

definition sub_wf :: "nat \<Rightarrow> string \<times> mqtt_sub \<Rightarrow> bool" where
  "sub_wf next ks =
     (let s = snd ks
      in fst ks = subKey (su_plugin s) (dec_string (su_id s)) \<and> su_id s \<le> next \<and> ID_RE (su_plugin s) \<and>
         su_plugin s \<notin> set object_prototype \<and> list_all (\<lambda>t. validPluginFilter (JStr t)) (list_of (cap_mqtt (su_caps s))))"

definition plugin_subs :: "mqtt_manager \<Rightarrow> string \<Rightarrow> (string, mqtt_sub) jsmap" where
  "plugin_subs m p = filter (\<lambda>ks. su_plugin (snd ks) = p) (mm_subs m)"

definition mqtt_inv :: "mqtt_manager \<Rightarrow> bool" where
  "mqtt_inv m =
     (counted m \<and> (\<forall>ks \<in> set (mm_subs m). sub_wf (mm_nextId m) ks) \<and> mqtt_cfg_ok (mm_cfg m) \<and>
      (mc_enabled (mm_cfg m) \<longrightarrow> (\<forall>ks \<in> set (mm_subs m). sub_allowed (mm_cfg m) (snd ks))) \<and>
      (\<forall>p. length (plugin_subs m p) \<le> 64))"

lemma length_filter_filter: "length (filter P (filter Q xs)) \<le> length (filter P xs)"
  by (induction xs) auto

lemma mqtt_inv_shrink:
  assumes "mqtt_inv m" "counted m'" "mm_subs m' = filter Q (mm_subs m)" "mm_nextId m' = mm_nextId m"
    and "mqtt_cfg_ok (mm_cfg m')"
    and "mc_enabled (mm_cfg m') \<Longrightarrow> \<forall>ks \<in> set (mm_subs m'). sub_allowed (mm_cfg m') (snd ks)"
  shows "mqtt_inv m'"
  using assms length_filter_filter [of _ Q "mm_subs m"]
  by (fastforce simp: mqtt_inv_def plugin_subs_def intro: order_trans)

lemma removeSub_inv: "mqtt_inv m \<Longrightarrow> mqtt_inv (fst (removeSub k m))"
  by (rule mqtt_inv_shrink [where Q = "\<lambda>e. fst e \<noteq> k" and m = m])
    (auto simp: mqtt_inv_def removeSub_spec mdelete_def)

lemma dropPlugin_inv: "mqtt_inv m \<Longrightarrow> mqtt_inv (fst (dropPlugin p m))"
  unfolding dropPlugin_def
  by (rule mqtt_inv_shrink [of m _ "\<lambda>e. fst e \<notin> set (mkeys (filter (\<lambda>ks. su_plugin (snd ks) = p) (mm_subs m)))"])
    (auto simp: mqtt_inv_def removeSubs_spec)

lemma sub_wf_proto: "sub_wf n ks \<Longrightarrow> su_plugin (snd ks) \<notin> set object_prototype"
  by (simp add: sub_wf_def Let_def)

lemma mqtt_inv_protos: "mqtt_inv m \<Longrightarrow> \<forall>ks \<in> set (mm_subs m). su_plugin (snd ks) \<notin> set object_prototype"
  using sub_wf_proto by (auto simp: mqtt_inv_def)

text \<open>After the re-check against a new configuration exactly the allowed subscriptions are left.\<close>

lemma recheck_inv:
  assumes "mqtt_inv m" "mqtt_cfg_ok cfg"
  shows "mqtt_inv (fst (recheck cfg (mm_subs m) (m\<lparr>mm_cfg := cfg, mm_tls := tls\<rparr>)))"
    "\<not> snd (snd (recheck cfg (mm_subs m) (m\<lparr>mm_cfg := cfg, mm_tls := tls\<rparr>)))"
proof -
  let ?m0 = "m\<lparr>mm_cfg := cfg, mm_tls := tls\<rparr>"
  let ?m1 = "fst (recheck cfg (mm_subs m) ?m0)"
  have "counted ?m0" using assms(1) by (simp add: mqtt_inv_def counted_def)
  note r = recheck_spec [OF this mqtt_inv_protos [OF assms(1)], of cfg]
  then show "\<not> snd (snd (recheck cfg (mm_subs m) ?m0))" by simp
  have subs: "mm_subs ?m1 = filter (\<lambda>e. fst e \<notin> fst ` {ks \<in> set (mm_subs m). \<not> sub_allowed cfg (snd ks)}) (mm_subs m)"
    using r by simp
  have c: "counted ?m1" "mm_nextId ?m1 = mm_nextId m" "mm_cfg ?m1 = cfg" using r by simp_all
  have "\<forall>ks \<in> set (mm_subs ?m1). sub_allowed cfg (snd ks)" unfolding subs by force
  then show "mqtt_inv ?m1"
    using mqtt_inv_shrink [OF assms(1) c(1) subs c(2)] assms(2) unfolding c(3) by blast
qed

lemma refresh_inv:
  assumes "mqtt_inv m"
  shows "mqtt_inv (fst (refresh avail tls m))"
proof -
  have e: "m\<lparr>mm_cfg := mm_cfg m, mm_tls := tls\<rparr> = m\<lparr>mm_tls := tls\<rparr>" by simp
  have "mqtt_cfg_ok (mm_cfg m)" using assms by (simp add: mqtt_inv_def)
  from recheck_inv(1) [OF assms this, of tls] assms show ?thesis unfolding e refresh_def by simp
qed

text \<open>The handlers of the connection and of the broker's messages leave the subscriptions alone.\<close>

lemma mqtt_inv_cong:
  "mm_subs m' = mm_subs m \<Longrightarrow> mm_filterRefs m' = mm_filterRefs m \<Longrightarrow> mm_nextId m' = mm_nextId m \<Longrightarrow> mm_cfg m' = mm_cfg m \<Longrightarrow>
   mqtt_inv m \<Longrightarrow> mqtt_inv m'"
  by (simp add: mqtt_inv_def counted_def plugin_subs_def)

lemma apply_inv:
  assumes "mqtt_inv m" "mqtt_cfg_ok cfg" "mc_enabled cfg \<longrightarrow> avail"
  shows "mqtt_inv (fst (mqtt_apply cfg avail tls m))"
proof (cases "mc_enabled cfg")
  case True
  have "mqtt_inv (ensureClient m1)" if "mqtt_inv m1" for m1
    by (rule mqtt_inv_cong [OF _ _ _ _ that]) (simp_all add: ensureClient_def)
  with True assms recheck_inv [OF assms(1,2), of tls] show ?thesis
    by (simp add: mqtt_apply_def Let_def refresh_def case_prod_beta)
next
  case False
  with assms show ?thesis
    by (simp add: mqtt_apply_def Let_def stopClient_def mqtt_inv_def counted_def plugin_subs_def)
qed

lemma subscribe_inv:
  assumes "mqtt_inv m" "event_ok (Call p c api ack)" "allowedFor (mm_cfg m) p c = Some allowed"
    and "list_ex (\<lambda>a. covers a f) allowed"
  shows "mqtt_inv (fst (snd (subscribe p c f ack m)))"
proof (cases "LIM_subscriptionsPerPlugin \<le> length (plugin_subs m p)")
  case True
  with assms(1) show ?thesis by (simp add: subscribe_def plugin_subs_def)
next
  case False
  let ?i = "mm_nextId m + 1" and ?s = "\<lparr>su_plugin = p, su_id = mm_nextId m + 1, su_filter = f, su_caps = c\<rparr>"
  let ?k = "subKey p (dec_string ?i)"
  let ?m' = "fst (snd (subscribe p c f ack m))"
  have p: "ID_RE p" "p \<notin> set object_prototype" "list_all (\<lambda>t. validPluginFilter (JStr t)) (list_of (cap_mqtt c))"
    using assms(2) by auto
  have "?k \<notin> fst ` set (mm_subs m)"
  proof
    assume "?k \<in> fst ` set (mm_subs m)"
    then obtain ks where ks: "ks \<in> set (mm_subs m)" "fst ks = ?k" by auto
    then have w: "sub_wf (mm_nextId m) ks" using assms(1) by (simp add: mqtt_inv_def)
    then have "?k = subKey (su_plugin (snd ks)) (dec_string (su_id (snd ks)))" "ID_RE (su_plugin (snd ks))"
      using ks(2) by (simp_all add: sub_wf_def Let_def)
    then have "dec_string ?i = dec_string (su_id (snd ks))"
      using subKey_inject ID_RE_no_hash p(1) by blast
    then have "?i = su_id (snd ks)" by (metis dec_value_dec_string)
    with w show False by (simp add: sub_wf_def Let_def)
  qed
  then have subs: "mset_at ?k ?s (mm_subs m) = mm_subs m @ [(?k, ?s)]" by (rule mset_at_absent)
  have m': "mm_subs ?m' = mm_subs m @ [(?k, ?s)]" "mm_cfg ?m' = mm_cfg m" "mm_nextId ?m' = ?i"
    "mm_filterRefs ?m' = mset_at f (filter_count (mm_subs m) f + 1) (mm_filterRefs m)"
    using False assms(1) subs
    by (simp_all add: subscribe_def plugin_subs_def Let_def mqtt_inv_def counted_def)
  have "wf_map (mset_at ?k ?s (mm_subs m))" using assms(1) by (intro wf_map_mset_at) (simp add: mqtt_inv_def counted_def)
  then have wf: "wf_map (mm_subs ?m')" unfolding subs m' .
  have "counted ?m'"
    using assms(1) wf unfolding counted_def m' by (auto simp: mqtt_inv_def counted_def filter_count_def)
  moreover have "sub_allowed (mm_cfg m) ?s" using assms(3,4) by (simp add: sub_allowed_def)
  moreover have "sub_wf ?i (?k, ?s)" using p by (simp add: sub_wf_def)
  moreover have "sub_wf ?i ks" if "ks \<in> set (mm_subs m)" for ks
    using assms(1) that by (fastforce simp: mqtt_inv_def sub_wf_def Let_def)
  moreover have "length (plugin_subs ?m' q) \<le> 64" for q
    using assms(1) False by (cases "q = p") (auto simp: plugin_subs_def m' mqtt_inv_def LIM_subscriptionsPerPlugin_def)
  ultimately show ?thesis using assms(1) by (auto simp: mqtt_inv_def m')
qed

lemma pluginCall_inv:
  assumes "mqtt_inv m" "event_ok (Call p c api ack)"
  shows "mqtt_inv (fst (snd (pluginCall p c api ack m)))"
  using assms(1) subscribe_inv [OF assms] removeSub_inv [OF assms(1)]
  by (auto simp: pluginCall_def case_prod_beta split: option.splits mqtt_api.splits json.splits)

lemma onLog_simps [simp]:
  "mm_subs (onLog l m) = mm_subs m" "mm_filterRefs (onLog l m) = mm_filterRefs m"
  "mm_nextId (onLog l m) = mm_nextId m" "mm_cfg (onLog l m) = mm_cfg m"
  by (cases l; simp add: Let_def split: option.splits)+

lemma mqtt_step_inv: "mqtt_inv m \<Longrightarrow> event_ok e \<Longrightarrow> mqtt_inv (fst (mqtt_step e m))"
proof (cases e)
  case (Apply cfg avail tls)
  then show "mqtt_inv m \<Longrightarrow> event_ok e \<Longrightarrow> mqtt_inv (fst (mqtt_step e m))"
    using apply_inv by (simp add: case_prod_beta)
next
  case (Tick avail tls)
  then show "mqtt_inv m \<Longrightarrow> event_ok e \<Longrightarrow> mqtt_inv (fst (mqtt_step e m))"
    using refresh_inv by (simp add: case_prod_beta)
next
  case (Call p c api ack)
  then show "mqtt_inv m \<Longrightarrow> event_ok e \<Longrightarrow> mqtt_inv (fst (mqtt_step e m))"
    using pluginCall_inv by (simp add: case_prod_beta del: event_ok.simps)
next
  case Stop
  then show "mqtt_inv m \<Longrightarrow> event_ok e \<Longrightarrow> mqtt_inv (fst (mqtt_step e m))"
    by (simp add: mqtt_stop_def stopClient_def mqtt_inv_def counted_def plugin_subs_def mqtt_cfg_ok_def)
qed (auto simp: dropPlugin_inv onConnected_def onClose_def onConnectFailed_def onRetry_def scheduleRetry_def ensureClient_def
      onMessage_def Let_def intro: mqtt_inv_cong)

lemma reachable_inv: "mqtt_reachable m \<Longrightarrow> mqtt_inv m"
proof (induction rule: mqtt_reachable.induct)
  case init
  show ?case
    by (simp add: mqtt_inv_def newManager_def counted_def filter_count_def plugin_subs_def mqttOff_def mqtt_cfg_ok_def topics_ok_def)
qed (rule mqtt_step_inv)

section \<open>Isolation of the plugins\<close>

definition may_use :: "mqtt_cfg \<Rightarrow> string \<Rightarrow> caps \<Rightarrow> string \<Rightarrow> bool" where
  "may_use cfg plugin c topic =
     (list_ex (\<lambda>a. matches a topic) (list_of (cap_mqtt c)) \<and>
      list_ex (\<lambda>g. matches g topic) (list_of (map_of (mc_pluginTopics cfg) plugin)))"

lemma granted_filters:
  assumes "mqtt_cfg_ok cfg" "g \<in> set (list_of (map_of (mc_pluginTopics cfg) p))"
  shows "validPluginFilter (JStr g)"
proof -
  obtain ts where "map_of (mc_pluginTopics cfg) p = Some ts" "g \<in> set ts"
    using assms(2) by (cases "map_of (mc_pluginTopics cfg) p") auto
  with map_of_SomeD [of "mc_pluginTopics cfg" p ts] assms(1) show ?thesis by (auto simp: mqtt_cfg_ok_def topics_ok_def)
qed

lemma allowed_may_use:
  assumes "mqtt_cfg_ok cfg" "list_all (\<lambda>t. validPluginFilter (JStr t)) (list_of (cap_mqtt c))"
    and "allowedFor cfg p c = Some as" "a \<in> set as" "matches a topic"
  shows "may_use cfg p c topic"
proof -
  have a: "a \<in> set (list_of (cap_mqtt c))" and "\<exists>g \<in> set (list_of (map_of (mc_pluginTopics cfg) p)). covers g a"
    using assms(3,4)
    by (auto simp: allowedFor_def grantedTopics_def Let_def list_ex_iff split: if_splits option.splits)
  then obtain g where g: "g \<in> set (list_of (map_of (mc_pluginTopics cfg) p))" "covers g a" by blast
  have "matches g topic" by (rule covers_sound [OF granted_filters [OF assms(1) g(1)] g(2) assms(5)])
  with a g assms(5) show ?thesis by (auto simp: may_use_def list_ex_iff)
qed

lemma sub_may_use:
  assumes "mqtt_cfg_ok cfg" "sub_wf n (k, s)" "sub_allowed cfg s" "matches (su_filter s) topic"
  shows "may_use cfg (su_plugin s) (su_caps s) topic"
proof -
  obtain as a where as: "allowedFor cfg (su_plugin s) (su_caps s) = Some as" "a \<in> set as" "covers a (su_filter s)"
    using assms(3) by (auto simp: sub_allowed_def list_ex_iff split: option.splits)
  have l: "list_all (\<lambda>t. validPluginFilter (JStr t)) (list_of (cap_mqtt (su_caps s)))"
    using assms(2) by (simp add: sub_wf_def)
  have "a \<in> set (list_of (cap_mqtt (su_caps s)))"
    using as by (auto simp: allowedFor_def Let_def split: if_splits)
  with l have "validPluginFilter (JStr a)" by (simp add: list_all_iff)
  with as assms(4) have "matches a topic" using covers_sound by blast
  with allowed_may_use [OF assms(1) l as(1,2)] show ?thesis by blast
qed

lemma foreign_key:
  assumes "sub_wf n ks" "ID_RE p" "su_plugin (snd ks) \<noteq> p"
  shows "fst ks \<noteq> subKey p i"
  using assms subKey_inject [OF ID_RE_no_hash ID_RE_no_hash, of "su_plugin (snd ks)" p] by (auto simp: sub_wf_def Let_def)

lemma subscribe_other: "q \<noteq> p \<Longrightarrow> \<forall>ks \<in> set (mm_subs m). sub_wf (mm_nextId m) ks \<Longrightarrow> ID_RE p \<Longrightarrow>
   plugin_subs (fst (snd (subscribe p c f ack m))) q = plugin_subs m q"
proof -
  assume q: "q \<noteq> p" and wf: "\<forall>ks \<in> set (mm_subs m). sub_wf (mm_nextId m) ks" and p: "ID_RE p"
  have "filter (\<lambda>ks. su_plugin (snd ks) = q) (mset_at (subKey p i) s subs) = filter (\<lambda>ks. su_plugin (snd ks) = q) subs"
    if "su_plugin s = p" "\<forall>ks \<in> set subs. sub_wf n ks" for i s subs n
    using that
  proof (induction "subKey p i" s subs rule: mset_at.induct)
    case (2 v k' v' m)
    then show ?case using q foreign_key [OF _ p, of n "(k', v')" i] by auto
  qed (use q in auto)
  then show ?thesis using wf by (simp add: subscribe_def plugin_subs_def Let_def)
qed

lemma call_other:
  assumes "mqtt_inv m" "event_ok (Call p c api ack)" "q \<noteq> p"
  shows "plugin_subs (fst (snd (pluginCall p c api ack m))) q = plugin_subs m q"
proof -
  have wf: "\<forall>ks \<in> set (mm_subs m). sub_wf (mm_nextId m) ks" and cnt: "counted m" and p: "ID_RE p"
    using assms by (auto simp: mqtt_inv_def)
  have "plugin_subs (fst (removeSub (subKey p i) m)) q = plugin_subs m q" for i
  proof -
    have "filter (\<lambda>ks. su_plugin (snd ks) = q) (mdelete (subKey p i) (mm_subs m)) =
        filter (\<lambda>ks. su_plugin (snd ks) = q) (mm_subs m)"
      unfolding mdelete_def filter_filter using wf assms(3) foreign_key [OF _ p]
      by (intro filter_cong) auto
    then show ?thesis unfolding plugin_subs_def removeSub_spec(2) [OF cnt] .
  qed
  with subscribe_other [OF assms(3) wf p] show ?thesis
    by (auto simp: pluginCall_def case_prod_beta split: option.splits mqtt_api.splits json.splits)
qed

text \<open>
  C20. Plugins are isolated on the broker: while MQTT is enabled, a message reaches a plugin only
  on a topic that one of its own approved filters and one of the filters the server granted to it
  match; a plugin publishes only on such topics; and no call of one plugin changes another
  plugin's subscriptions.
\<close>

theorem mqtt_plugins_are_isolated:
  assumes "mqtt_reachable m" "mc_enabled (mm_cfg m)" "event_ok (Call p c api ack)"
  shows "(\<forall>s \<in> set (fst (onMessage topic num line m)). may_use (mm_cfg m) (su_plugin s) (su_caps s) topic) \<and>
    (\<forall>t pl qos ret. Publish t pl qos ret \<in> set (snd (snd (pluginCall p c api ack m))) \<longrightarrow> may_use (mm_cfg m) p c t) \<and>
    (\<forall>q. q \<noteq> p \<longrightarrow> plugin_subs (fst (snd (pluginCall p c api ack m))) q = plugin_subs m q)"
proof -
  have inv: "mqtt_inv m" by (rule reachable_inv [OF assms(1)])
  then have cfg: "mqtt_cfg_ok (mm_cfg m)" by (simp add: mqtt_inv_def)
  have "may_use (mm_cfg m) (su_plugin s) (su_caps s) topic" if msg: "s \<in> set (fst (onMessage topic num line m))" for s
  proof -
    obtain k where "(k, s) \<in> set (mm_subs m)" "matches (su_filter s) topic"
      using msg by (auto simp: onMessage_def split: if_splits)
    with inv assms(2) sub_may_use [OF cfg] show ?thesis by (fastforce simp: mqtt_inv_def)
  qed
  moreover have "may_use (mm_cfg m) p c t" if pub: "Publish t pl qos ret \<in> set (snd (snd (pluginCall p c api ack m)))" for t pl qos ret
  proof -
    have "Publish t pl qos ret \<notin> set (snd (removeSub k m))" "Publish t pl qos ret \<notin> set (snd (snd (subscribe p c f ack m)))" for k f
      by (auto simp: removeSub_def subscribe_def Let_def split: option.splits)
    with pub obtain as where "allowedFor (mm_cfg m) p c = Some as" "list_ex (\<lambda>a. matches a t) as"
      by (auto simp: pluginCall_def case_prod_beta split: option.splits if_splits mqtt_api.splits json.splits)
    then show ?thesis using allowed_may_use [OF cfg] assms(3) by (auto simp: list_ex_iff)
  qed
  ultimately show ?thesis using call_other [OF inv assms(3)] by blast
qed

definition sample_mqtt :: mqtt_cfg where
  "sample_mqtt = mqttOff\<lparr>mc_enabled := True, mc_pluginTopics := [(''lamps'', [''home/#''])]\<rparr>"

definition lamp_caps :: caps where
  "lamp_caps = noCaps\<lparr>cap_mqtt := Some [''home/lamp/+'']\<rparr>"

definition sample_run :: mqtt_manager where
  "sample_run =
     fst (mqtt_step (Call ''lamps'' lamp_caps (Api_subscribe (JStr ''home/lamp/state'')) True)
       (fst (mqtt_step (Apply sample_mqtt True ''off'') newManager)))"

lemma sample_run_reachable: "mqtt_reachable sample_run"
proof -
  have "event_ok (Apply sample_mqtt True ''off'')"
    "event_ok (Call ''lamps'' lamp_caps (Api_subscribe (JStr ''home/lamp/state'')) True)"
    by code_simp+
  then show ?thesis unfolding sample_run_def by (intro mqtt_reachable.intros)
qed

theorem mqtt_plugins_are_isolated_witness:
  "map su_plugin (fst (onMessage ''home/lamp/state'' 0 Log_other sample_run)) = [''lamps''] \<and>
   list_all (\<lambda>s. may_use sample_mqtt (su_plugin s) (su_caps s) ''home/lamp/state'')
     (fst (onMessage ''home/lamp/state'' 0 Log_other sample_run))"
proof -
  have "mc_enabled (mm_cfg sample_run)" "event_ok (Call ''lamps'' lamp_caps Api_unknown True)"
    and cfg: "mm_cfg sample_run = sample_mqtt"
    and d: "map su_plugin (fst (onMessage ''home/lamp/state'' 0 Log_other sample_run)) = [''lamps'']"
    by code_simp+
  with mqtt_plugins_are_isolated [OF sample_run_reachable, of "''lamps''" lamp_caps Api_unknown True "''home/lamp/state''" 0 Log_other]
  show ?thesis unfolding cfg list_all_iff by blast
qed

text \<open>
  C28. The manager's books are right in every reachable state: the reference count of a filter is
  the number of subscriptions that use it and a filter nobody uses has none, so the filters
  requested again after a reconnect are exactly the ones in use; no plugin holds more than 64
  subscriptions.
\<close>

theorem mqtt_filters_are_counted:
  assumes "mqtt_reachable m" "mm_client m \<noteq> None"
  shows "(\<forall>f. map_of (mm_filterRefs m) f =
       (let n = length (filter (\<lambda>ks. su_filter (snd ks) = f) (mm_subs m)) in if n = 0 then None else Some n)) \<and>
     (\<forall>f. Subscribe f \<in> set (snd (onConnected m)) \<longleftrightarrow>
       f \<in> {''$SYS/broker/clients/connected'', ''$SYS/broker/log/N''} \<union> (\<lambda>ks. su_filter (snd ks)) ` set (mm_subs m)) \<and>
     (\<forall>p. length (plugin_subs m p) \<le> 64)"
proof -
  have inv: "mqtt_inv m" by (rule reachable_inv [OF assms(1)])
  then have c: "map_of (mm_filterRefs m) f = (if filter_count (mm_subs m) f = 0 then None else Some (filter_count (mm_subs m) f))" for f
    by (simp add: mqtt_inv_def counted_def)
  have "f \<in> fst ` set (mm_filterRefs m) \<longleftrightarrow> f \<in> (\<lambda>ks. su_filter (snd ks)) ` set (mm_subs m)" for f
  proof -
    have "f \<in> fst ` set (mm_filterRefs m) \<longleftrightarrow> map_of (mm_filterRefs m) f \<noteq> None" by (metis map_of_eq_None_iff)
    also have "\<dots> \<longleftrightarrow> filter_count (mm_subs m) f \<noteq> 0" by (simp add: c)
    also have "\<dots> \<longleftrightarrow> f \<in> (\<lambda>ks. su_filter (snd ks)) ` set (mm_subs m)"
      by (auto simp: filter_count_def filter_empty_conv)
    finally show ?thesis .
  qed
  then have "Subscribe f \<in> set (snd (onConnected m)) \<longleftrightarrow>
       f \<in> {''$SYS/broker/clients/connected'', ''$SYS/broker/log/N''} \<union> (\<lambda>ks. su_filter (snd ks)) ` set (mm_subs m)" for f
    using assms(2) by (auto simp: onConnected_def)
  with c inv show ?thesis by (simp add: Let_def filter_count_def mqtt_inv_def)
qed

theorem mqtt_filters_are_counted_witness:
  "map_of (mm_filterRefs sample_run) ''home/lamp/state'' = Some 1"
proof -
  have c: "mm_client sample_run \<noteq> None"
    and n: "length (filter (\<lambda>ks. su_filter (snd ks) = ''home/lamp/state'') (mm_subs sample_run)) = 1"
    by code_simp+
  from mqtt_filters_are_counted [OF sample_run_reachable c, THEN conjunct1, THEN spec, of "''home/lamp/state''"]
  show ?thesis unfolding n Let_def by simp
qed

end
