(* ===== verification/Mqtt_Client.thy ===== *)
theory Mqtt_Client
  imports Gateway_Prelude
begin

text \<open>
  The MQTT client of the gateway (\<open>src/src/edge/mqtt/client.js\<close>): the packets it writes, the
  parser that cuts the broker's byte stream into packets, and the handling of packets and
  requests on the client's state. Sockets, timers and promises are effects: what is written,
  which request is resolved, which message is emitted. The UTF-8 decoder is an argument.
\<close>

section \<open>Packets\<close>

definition MAX_PACKET :: nat where
  "MAX_PACKET = 512 * 1024"

datatype packet_type = CONNECT | CONNACK | PUBLISH | PUBACK | SUBSCRIBE | SUBACK | UNSUBSCRIBE | UNSUBACK
  | PINGREQ | PINGRESP | DISCONNECT

fun type_code :: "packet_type \<Rightarrow> nat" where
  "type_code CONNECT = 1"
| "type_code CONNACK = 2"
| "type_code PUBLISH = 3"
| "type_code PUBACK = 4"
| "type_code SUBSCRIBE = 8"
| "type_code SUBACK = 9"
| "type_code UNSUBSCRIBE = 10"
| "type_code UNSUBACK = 11"
| "type_code PINGREQ = 12"
| "type_code PINGRESP = 13"
| "type_code DISCONNECT = 14"

fun encodeLength :: "nat \<Rightarrow> bytes" where
  "encodeLength n =
     (if 0 < n div 128 then byte_of ((n mod 128) OR 0x80) # encodeLength (n div 128) else [byte_of (n mod 128)])"

declare encodeLength.simps [simp del]

text \<open>\<open>Buffer.from(s, 'utf8')\<close> on code units up to 255.\<close>

definition utf8_char :: "char \<Rightarrow> bytes" where
  "utf8_char c = (let n = of_char c :: nat in if n < 128 then [byte_of n] else [byte_of (0xc0 + n div 64), byte_of (0x80 + n mod 64)])"

definition utf8 :: "string \<Rightarrow> bytes" where
  "utf8 s = concat (map utf8_char s)"

definition str :: "string \<Rightarrow> bytes option" where
  "str s = map_option (\<lambda>h. h @ utf8 s) (u16 (length (utf8 s)))"

definition packet :: "nat \<Rightarrow> nat \<Rightarrow> bytes \<Rightarrow> bytes" where
  "packet type flags body = byte_of (push_bit 4 type OR flags) # encodeLength (length body) @ body"

definition connectPacket :: "string \<Rightarrow> string \<Rightarrow> string \<Rightarrow> nat \<Rightarrow> bytes option" where
  "connectPacket clientId username password keepalive = do {
     let flags = (2 OR (if username \<noteq> [] then 0x80 else 0)) OR (if password \<noteq> [] then 0x40 else 0 :: nat);
     proto \<leftarrow> str ''MQTT'';
     ka \<leftarrow> u16 keepalive;
     c \<leftarrow> str clientId;
     u \<leftarrow> (if username \<noteq> [] then str username else Some []);
     p \<leftarrow> (if password \<noteq> [] then str password else Some []);
     Some (packet (type_code CONNECT) 0 (proto @ [4, byte_of flags] @ ka @ c @ u @ p))
   }"

definition publishPacket :: "string \<Rightarrow> bytes \<Rightarrow> nat \<Rightarrow> bool \<Rightarrow> nat \<Rightarrow> bytes option" where
  "publishPacket topic payload qos retain pid = do {
     let flags = push_bit 1 qos OR (if retain then 1 else 0);
     t \<leftarrow> str topic;
     i \<leftarrow> (if qos \<noteq> 0 then u16 pid else Some []);
     Some (packet (type_code PUBLISH) flags (t @ i @ payload))
   }"

definition subscribePacket :: "string \<Rightarrow> nat \<Rightarrow> nat \<Rightarrow> bytes option" where
  "subscribePacket flt qos pid = do {
     i \<leftarrow> u16 pid;
     f \<leftarrow> str flt;
     Some (packet (type_code SUBSCRIBE) 2 (i @ f @ [byte_of (min 1 qos)]))
   }"

definition unsubscribePacket :: "string \<Rightarrow> nat \<Rightarrow> bytes option" where
  "unsubscribePacket flt pid = do {
     i \<leftarrow> u16 pid;
     f \<leftarrow> str flt;
     Some (packet (type_code UNSUBSCRIBE) 2 (i @ f))
   }"

section \<open>The parser\<close>

record mqtt_packet =
  mp_type :: nat
  mp_flags :: nat
  mp_body :: bytes

text \<open>The loop that reads the remaining length: the index it stopped at, the length so far, whether it is complete.\<close>

function read_length :: "bytes \<Rightarrow> nat \<Rightarrow> nat \<Rightarrow> nat \<Rightarrow> nat \<times> nat \<times> bool" where
  "read_length buf i len mul =
     (if i < 5 \<and> i < length buf
      then let b = unat (buf ! i); len' = len + (b AND 0x7f) * mul
        in if b AND 0x80 = 0 then (i, len', True) else read_length buf (i + 1) len' (mul * 128)
      else (i, len, False))"
  by pat_completeness auto
termination
  by (relation "measure (\<lambda>(buf, i, _). 5 - i)") auto

declare read_length.simps [simp del]

function parse_loop :: "bytes \<Rightarrow> mqtt_packet list \<Rightarrow> (bytes \<times> mqtt_packet list) option" where
  "parse_loop buf out =
     (if length buf < 2 then Some (buf, out)
      else case read_length buf 1 0 1 of
             (i, len, done) \<Rightarrow>
               if \<not> done then if 5 \<le> i then None else Some (buf, out)
               else if MAX_PACKET < len then None
               else if length buf < i + 1 + len then Some (buf, out)
               else parse_loop (drop (i + 1 + len) buf)
                      (out @ [\<lparr>mp_type = drop_bit 4 (unat (buf ! 0)), mp_flags = unat (buf ! 0) AND 0x0f,
                               mp_body = subarray buf (i + 1) (i + 1 + len)\<rparr>]))"
  by pat_completeness auto
termination
  by (relation "measure (\<lambda>(buf, _). length buf)") auto

declare parse_loop.simps [simp del]

text \<open>\<open>Parser.push\<close>, with the packets of all pushes collected.\<close>

definition parser_push :: "bytes \<Rightarrow> bytes \<times> mqtt_packet list \<Rightarrow> (bytes \<times> mqtt_packet list) option" where
  "parser_push chunk s = parse_loop (fst s @ chunk) (snd s)"

section \<open>The client\<close>

record mqtt_client =
  cl_sock :: bool
  cl_connected :: bool
  cl_nextId :: nat
  cl_pending :: "nat list"

datatype client_effect =
    Write bytes
  | Emit_message string bytes nat bool
  | Resolve nat "bytes option"
  | Emit_connect
  | Refused

definition newClient :: mqtt_client where
  "newClient = \<lparr>cl_sock = False, cl_connected = False, cl_nextId = 0, cl_pending = []\<rparr>"

definition next_id :: "mqtt_client \<Rightarrow> nat" where
  "next_id c = cl_nextId c mod 65535 + 1"

text \<open>A malformed packet makes a read throw (\<open>None\<close>).\<close>

definition onPublish :: "(bytes \<Rightarrow> string) \<Rightarrow> mqtt_packet \<Rightarrow> client_effect list option" where
  "onPublish dec p = do {
     let qos = drop_bit 1 (mp_flags p) AND 3;
     tl \<leftarrow> readU16 (mp_body p) 0;
     let topic = dec (subarray (mp_body p) 2 (2 + tl));
     if 0 < qos
     then do {
       pid \<leftarrow> readU16 (mp_body p) (2 + tl);
       ack \<leftarrow> u16 pid;
       Some ((if qos = 1 then [Write (packet (type_code PUBACK) 0 ack)] else []) @
             [Emit_message topic (drop (2 + tl + 2) (mp_body p)) qos (mp_flags p AND 1 = 1)])
     }
     else Some [Emit_message topic (drop (2 + tl) (mp_body p)) qos (mp_flags p AND 1 = 1)]
   }"

definition onAck :: "mqtt_packet \<Rightarrow> mqtt_client \<Rightarrow> (client_effect list \<times> mqtt_client) option" where
  "onAck p c = do {
     pid \<leftarrow> readU16 (mp_body p) 0;
     if pid \<in> set (cl_pending c)
     then Some ([Resolve pid (if mp_type p = type_code SUBACK then Some (drop 2 (mp_body p)) else None)],
                c\<lparr>cl_pending := filter (\<lambda>x. x \<noteq> pid) (cl_pending c)\<rparr>)
     else Some ([], c)
   }"

definition onPacket ::
  "(bytes \<Rightarrow> string) \<Rightarrow> mqtt_packet \<Rightarrow> mqtt_client \<Rightarrow> (client_effect list \<times> mqtt_client) option" where
  "onPacket dec p c =
     (if mp_type p = type_code PUBLISH then map_option (\<lambda>es. (es, c)) (onPublish dec p)
      else if mp_type p \<in> type_code ` {PUBACK, SUBACK, UNSUBACK} then onAck p c
      else Some ([], c))"

text \<open>The handler of \<open>data\<close>: a refusing \<open>CONNACK\<close> destroys the connection and ends the loop.\<close>

definition connack_ok :: "mqtt_packet \<Rightarrow> bool" where
  "connack_ok p = (2 \<le> length (mp_body p) \<and> mp_body p ! 1 = 0)"

fun onData :: "(bytes \<Rightarrow> string) \<Rightarrow> mqtt_packet list \<Rightarrow> mqtt_client \<Rightarrow> (client_effect list \<times> mqtt_client) option" where
  "onData dec [] c = Some ([], c)"
| "onData dec (p # ps) c =
     (if mp_type p = type_code CONNACK
      then if \<not> connack_ok p then Some ([Refused], c)
           else map_option (\<lambda>(es, c2). (Emit_connect # es, c2)) (onData dec ps (c\<lparr>cl_connected := True\<rparr>))
      else do {
        (es, c1) \<leftarrow> onPacket dec p c;
        (es2, c2) \<leftarrow> onData dec ps c1;
        Some (es @ es2, c2)
      })"

definition request :: "(nat \<Rightarrow> bytes option) \<Rightarrow> mqtt_client \<Rightarrow> (client_effect list \<times> mqtt_client) option" where
  "request buildPacket c =
     (if \<not> cl_connected c \<or> \<not> cl_sock c then None
      else let pid = next_id c
        in map_option (\<lambda>b. ([Write b], c\<lparr>cl_nextId := pid, 
               cl_pending := (if pid \<in> set (cl_pending c) then cl_pending c else cl_pending c @ [pid])\<rparr>))
             (buildPacket pid))"

definition mqtt_publish ::
  "string \<Rightarrow> bytes \<Rightarrow> bool \<Rightarrow> bool \<Rightarrow> mqtt_client \<Rightarrow> (client_effect list \<times> mqtt_client) option" where
  "mqtt_publish topic payload qos1 retain c =
     (if qos1 then request (\<lambda>pid. publishPacket topic payload 1 retain pid) c
      else if \<not> cl_connected c \<or> \<not> cl_sock c then None
      else map_option (\<lambda>b. ([Write b], c)) (publishPacket topic payload 0 retain 0))"

text \<open>The answer to a subscription: \<open>None\<close> throws \<open>denied\<close>; an empty answer yields \<open>undefined\<close>.\<close>

definition granted :: "bytes option \<Rightarrow> nat option option" where
  "granted g = (case g of
      None \<Rightarrow> None
    | Some [] \<Rightarrow> Some None
    | Some (b # _) \<Rightarrow> if b = 0x80 then None else Some (Some (unat b)))"

definition on_close :: "mqtt_client \<Rightarrow> mqtt_client" where
  "on_close c = c\<lparr>cl_connected := False, cl_sock := False, cl_pending := []\<rparr>"

section \<open>Lengths read back\<close>

lemma and_7f: "(n :: nat) AND 0x7f = n mod 128"
  using take_bit_eq_mask [of 7 n] by (simp add: mask_eq_exp_minus_1 take_bit_eq_mod)

lemma and_80: "(n :: nat) < 256 \<Longrightarrow> (n AND 0x80 = 0) = (n < 128)"
proof -
  assume "n < 256"
  then have "n div 128 < 2" by (simp add: less_mult_imp_div_less)
  then have "even (n div 128) \<longleftrightarrow> n div 128 = 0" by (auto simp: less_2_cases_iff)
  moreover have "n div 128 = 0 \<longleftrightarrow> n < 128" by (simp add: div_eq_0_iff)
  ultimately show ?thesis using and_exp_eq_0_iff_not_bit [of n 7] by (simp add: bit_iff_odd)
qed

lemma or_80: "(n :: nat) < 128 \<Longrightarrow> n OR 0x80 = n + 128"
  by (rule disjunctive_add_eq_or [symmetric]) (simp add: and_80)

lemma encodeLength_length: "encodeLength n \<noteq> []" "n < 128 ^ k \<Longrightarrow> 0 < k \<Longrightarrow> length (encodeLength n) \<le> k"
proof -
  show "encodeLength n \<noteq> []" by (subst encodeLength.simps) simp
  show "n < 128 ^ k \<Longrightarrow> 0 < k \<Longrightarrow> length (encodeLength n) \<le> k"
  proof (induction k arbitrary: n)
    case (Suc k)
    show ?case
    proof (cases "0 < n div 128")
      case True
      then have "0 < k" using Suc.prems(1) by (cases k) auto
      moreover have "n div 128 < 128 ^ k" using Suc.prems(1) by (simp add: less_mult_imp_div_less mult.commute)
      ultimately show ?thesis using Suc.IH [of "n div 128"] True by (subst encodeLength.simps) simp
    next
      case False
      then show ?thesis by (subst encodeLength.simps) simp
    qed
  qed simp
qed

lemma read_encoded:
  "length pre + length (encodeLength n) \<le> 5 \<Longrightarrow>
   read_length (pre @ encodeLength n @ rest) (length pre) len mul =
     (length pre + length (encodeLength n) - 1, len + n * mul, True)"
proof (induction n arbitrary: pre len mul rule: encodeLength.induct)
  case (1 n)
  have lt: "n mod 128 < 128" by simp
  show ?case
  proof (cases "0 < n div 128")
    case True
    let ?b = "byte_of ((n mod 128) OR 0x80)"
    have e: "encodeLength n = ?b # encodeLength (n div 128)" using True by (subst encodeLength.simps) simp
    have b: "unat ?b = n mod 128 + 128" using or_80 [OF lt] by simp
    have "unat ?b AND 0x7f = n mod 128" "unat ?b AND 0x80 \<noteq> 0"
      using and_80 [of "unat ?b"] unfolding and_7f b by simp_all
    moreover have "read_length ((pre @ [?b]) @ encodeLength (n div 128) @ rest) (length (pre @ [?b])) (len + n mod 128 * mul) (mul * 128)
        = (length (pre @ [?b]) + length (encodeLength (n div 128)) - 1, len + n mod 128 * mul + n div 128 * (mul * 128), True)"
      using 1 True e by (intro 1(1)) auto
    moreover have "len + n mod 128 * mul + n div 128 * (mul * 128) = len + n * mul"
    proof -
      have "n mod 128 * mul + n div 128 * (mul * 128) = (n div 128 * 128 + n mod 128) * mul"
        by (simp only: distrib_right distrib_left mult.assoc mult.commute mult.left_commute add.commute)
      then show ?thesis by (simp only: div_mult_mod_eq add.assoc)
    qed
    ultimately show ?thesis
      using 1(2) e by (subst read_length.simps) (simp add: nth_append Let_def)
  next
    case False
    then have n: "n < 128" "encodeLength n = [byte_of n]" by (auto simp: encodeLength.simps [of n])
    then have "unat (byte_of n) AND 0x7f = n" "unat (byte_of n) AND 0x80 = 0"
      using and_80 [of n] by (simp_all add: and_7f)
    with n 1(2) show ?thesis by (subst read_length.simps) (simp add: nth_append Let_def)
  qed
qed

section \<open>The parser and the cuts of the stream\<close>

lemma read_length_prefix:
  "read_length a i len mul = (j, l, d) \<Longrightarrow> d \<or> 5 \<le> j \<Longrightarrow> read_length (a @ ys) i len mul = (j, l, d)"
proof (induction a i len mul rule: read_length.induct)
  case (1 buf i len mul)
  show ?case
  proof (cases "i < 5 \<and> i < length buf")
    case True
    then show ?thesis
      using 1 by (subst read_length.simps, subst (asm) (2) read_length.simps) (auto simp: nth_append Let_def split: if_splits)
  next
    case False
    with 1(2,3) have "5 \<le> i" by (subst (asm) read_length.simps) (auto split: if_splits)
    with False 1(2,3) show ?thesis by (subst read_length.simps, subst (asm) read_length.simps) auto
  qed
qed

lemma read_length_bound: "read_length a i len mul = (j, l, True) \<Longrightarrow> i \<le> j \<and> j < length a"
proof (induction a i len mul rule: read_length.induct)
  case (1 buf i len mul)
  then show ?case by (subst (asm) (2) read_length.simps) (fastforce simp: Let_def split: if_splits)
qed

lemma parse_loop_append: "parse_loop (a @ ys) out = parse_loop a out \<bind> (\<lambda>(b, p). parse_loop (b @ ys) p)"
proof (induction a out rule: parse_loop.induct)
  case (1 buf out)
  obtain i len d where r: "read_length buf 1 0 1 = (i, len, d)" by (cases "read_length buf 1 0 1") auto
  consider "length buf < 2 \<or> \<not> d \<and> i < 5 \<or> d \<and> len \<le> MAX_PACKET \<and> length buf < i + 1 + len"
    | "2 \<le> length buf" "\<not> d" "5 \<le> i" | "2 \<le> length buf" "d" "MAX_PACKET < len"
    | "2 \<le> length buf" "d" "len \<le> MAX_PACKET" "i + 1 + len \<le> length buf"
    by linarith
  then show ?case
  proof cases
    case 1
    then have "parse_loop buf out = Some (buf, out)" by (subst parse_loop.simps, unfold r prod.case) auto
    then show ?thesis by simp
  next
    case 2
    then have "read_length (buf @ ys) 1 0 1 = (i, len, d)" using read_length_prefix [OF r] by simp
    with 2 show ?thesis by (subst (1 2) parse_loop.simps) (unfold r prod.case, simp)
  next
    case 3
    then have "read_length (buf @ ys) 1 0 1 = (i, len, d)" using read_length_prefix [OF r] by simp
    with 3 show ?thesis by (subst (1 2) parse_loop.simps) (unfold r prod.case, simp)
  next
    case 4
    then have r': "read_length (buf @ ys) 1 0 1 = (i, len, d)" using read_length_prefix [OF r] by simp
    let ?p = "\<lparr>mp_type = drop_bit 4 (unat (buf ! 0)), mp_flags = unat (buf ! 0) AND 0x0f,
                mp_body = subarray buf (i + 1) (i + 1 + len)\<rparr>"
    have "parse_loop buf out = parse_loop (drop (i + 1 + len) buf) (out @ [?p])"
      using 4 by (subst parse_loop.simps, unfold r prod.case) simp
    moreover have "parse_loop (buf @ ys) out = parse_loop (drop (i + 1 + len) buf @ ys) (out @ [?p])"
      using 4 by (subst parse_loop.simps, unfold r' prod.case) (auto simp: nth_append subarray_def)
    moreover have "parse_loop (drop (i + 1 + len) buf @ ys) (out @ [?p]) =
        parse_loop (drop (i + 1 + len) buf) (out @ [?p]) \<bind> (\<lambda>(b, p). parse_loop (b @ ys) p)"
      using "1.IH" [OF _ r [symmetric] refl] 4 by simp
    ultimately show ?thesis by simp
  qed
qed

text \<open>Between two pushes the parser holds an unfinished packet.\<close>

definition parser_ok :: "bytes \<times> mqtt_packet list \<Rightarrow> bool" where
  "parser_ok s = (parse_loop (fst s) (snd s) = Some s)"

lemma parse_loop_stuck: "parse_loop a out = Some (b, p) \<Longrightarrow> parse_loop b p = Some (b, p)"
proof (induction a out rule: parse_loop.induct)
  case (1 buf out)
  obtain i len d where r: "read_length buf 1 0 1 = (i, len, d)" by (cases "read_length buf 1 0 1") auto
  show ?case
  proof (cases "2 \<le> length buf \<and> d \<and> len \<le> MAX_PACKET \<and> i + 1 + len \<le> length buf")
    case True
    then show ?thesis
      using "1.IH" [OF _ r [symmetric] refl] "1.prems" by (subst (asm) (2) parse_loop.simps, unfold r prod.case) simp
  next
    case False
    then have "(b, p) = (buf, out)"
      using "1.prems" by (subst (asm) parse_loop.simps, unfold r prod.case) (auto split: if_splits)
    with "1.prems" show ?thesis by simp
  qed
qed

interpretation mqtt_parser: incremental_reader parser_ok parser_push
proof
  fix s :: "bytes \<times> mqtt_packet list" and xs ys s'
  assume ok: "parser_ok s"
  then show "parser_push [] s = Some s" by (simp add: parser_push_def parser_ok_def)
  show "parser_push xs s = Some s' \<Longrightarrow> parser_ok s'"
    using parse_loop_stuck by (cases s') (auto simp: parser_push_def parser_ok_def)
  show "parser_push (xs @ ys) s = parser_push xs s \<bind> parser_push ys"
    using parse_loop_append [of "fst s @ xs" ys "snd s"]
    by (simp add: parser_push_def case_prod_beta fun_eq_iff cong: Option.bind_cong)
qed

section \<open>Reading back what was written\<close>

definition wf_packet :: "mqtt_packet \<Rightarrow> bool" where
  "wf_packet p = (mp_type p < 16 \<and> mp_flags p < 16 \<and> length (mp_body p) \<le> MAX_PACKET)"

definition wire :: "mqtt_packet \<Rightarrow> bytes" where
  "wire p = packet (mp_type p) (mp_flags p) (mp_body p)"

lemma type_flags:
  assumes "t < 16" "f < (16 :: nat)"
  shows "drop_bit 4 (unat (byte_of (push_bit 4 t OR f))) = t" "unat (byte_of (push_bit 4 t OR f)) AND 0x0f = f"
proof -
  have "push_bit 4 t AND f = push_bit 4 t AND take_bit 4 f" using assms(2) by (simp add: take_bit_nat_eq_self)
  also have "\<dots> = 0" by (rule bit_eqI) (simp add: bit_simps)
  finally have "push_bit 4 t OR f = push_bit 4 t + f" by (rule disjunctive_add_eq_or [symmetric])
  then have "push_bit 4 t OR f = t * 16 + f" by (simp add: push_bit_eq_mult)
  moreover have "t * 16 + f < 256" using assms by linarith
  ultimately have u: "unat (byte_of (push_bit 4 t OR f)) = t * 16 + f" by simp
  show "drop_bit 4 (unat (byte_of (push_bit 4 t OR f))) = t"
    unfolding u using assms by (simp add: drop_bit_eq_div)
  show "unat (byte_of (push_bit 4 t OR f)) AND 0x0f = f"
    unfolding u using assms take_bit_eq_mask [of 4 "t * 16 + f"] by (simp add: mask_eq_exp_minus_1 take_bit_eq_mod)
qed

lemma parse_wire:
  assumes "wf_packet p"
  shows "parse_loop (wire p @ rest) out = parse_loop rest (out @ [p])"
proof -
  let ?n = "length (mp_body p)" and ?h = "byte_of (push_bit 4 (mp_type p) OR mp_flags p)"
  let ?e = "encodeLength ?n"
  have "length ?e \<le> 3" using assms by (intro encodeLength_length(2)) (auto simp: wf_packet_def MAX_PACKET_def)
  then have r: "read_length (wire p @ rest) 1 0 1 = (length ?e, ?n, True)"
    using read_encoded [of "[?h]" ?n "mp_body p @ rest" 0 1] encodeLength_length(1) [of ?n] by (simp add: wire_def packet_def)
  have h: "(wire p @ rest) ! 0 = ?h" by (simp add: wire_def packet_def)
  have l: "length (wire p @ rest) = length ?e + 1 + ?n + length rest" by (simp add: wire_def packet_def)
  have d: "drop (length ?e + 1 + ?n) (wire p @ rest) = rest" "subarray (wire p @ rest) (length ?e + 1) (length ?e + 1 + ?n) = mp_body p"
    by (simp_all add: wire_def packet_def subarray_def)
  have t: "drop_bit 4 (unat ?h) = mp_type p" "unat ?h AND 0x0f = mp_flags p"
    using type_flags assms by (simp_all add: wf_packet_def)
  have rec: "\<lparr>mp_type = mp_type p, mp_flags = mp_flags p, mp_body = mp_body p\<rparr> = p" by simp
  have "0 < length ?e" using encodeLength_length(1) [of ?n] by simp
  then show ?thesis
    by (subst parse_loop.simps, unfold r h d t prod.case rec) (use l assms in \<open>simp add: wf_packet_def\<close>)
qed

lemma parse_wires: "list_all wf_packet ps \<Longrightarrow> parse_loop (concat (map wire ps)) out = Some ([], out @ ps)"
proof (induction ps arbitrary: out)
  case Nil
  show ?case by (subst parse_loop.simps) simp
next
  case (Cons p ps)
  then show ?case by (simp add: parse_wire)
qed

text \<open>
  C27. However the connection cuts the broker's stream, the client's parser yields exactly the
  packets that were written, in order, with type, flags and body, and keeps nothing.
\<close>

theorem mqtt_stream_roundtrip:
  assumes "list_all wf_packet ps" "concat chunks = concat (map wire ps)"
  shows "feed_all parser_push chunks ([], []) = Some ([], ps)"
proof -
  have "parser_ok ([], [])" by (simp add: parser_ok_def parse_loop.simps)
  then have "feed_all parser_push chunks ([], []) = parser_push (concat (map wire ps)) ([], [])"
    using mqtt_parser.feed_all_concat assms(2) by metis
  then show ?thesis using parse_wires [OF assms(1), of "[]"] by (simp add: parser_push_def)
qed

theorem mqtt_stream_roundtrip_witness:
  "feed_all parser_push [[0x30, 0x04], [0x00, 0x01, 0x61, 0x37, 0xd0], [0x00]] ([], []) =
     Some ([], [\<lparr>mp_type = 3, mp_flags = 0, mp_body = [0, 1, 0x61, 0x37]\<rparr>, \<lparr>mp_type = 13, mp_flags = 0, mp_body = []\<rparr>])"
proof -
  let ?ps = "[\<lparr>mp_type = 3, mp_flags = 0, mp_body = [0, 1, 0x61, 0x37]\<rparr>, \<lparr>mp_type = 13, mp_flags = 0, mp_body = []\<rparr>]"
  have "list_all wf_packet ?ps" "concat [[0x30, 0x04], [0x00, 0x01, 0x61, 0x37, 0xd0], [0x00]] = concat (map wire ?ps)"
    by code_simp+
  then show ?thesis by (rule mqtt_stream_roundtrip)
qed

end
