(* ===== verification/Edge_Fence.thy ===== *)
theory Edge_Fence
  imports Lan_Interfaces
begin

text \<open>
  The network boundary of the edge container: the firewall rules the gateway installs for the
  edge user (\<open>src/src/edge/fenceRules.js\<close>, for nftables and for iptables) and the check of each
  target address (\<open>src/src/edge/lanGuard.js\<close>).

  A rule is data with a rendering to the line of each backend; the scripts handed to \<open>nft\<close> and
  \<open>iptables-restore\<close> are these renderings. What a rule matches is given on packets: interface,
  destination address and TCP ports. The tests \<open>net.isIPv6\<close> and the value of an IPv6 text are
  arguments.
\<close>

section \<open>Rules\<close>

definition BROKER_PORT :: nat where
  "BROKER_PORT = 1883"

record fence_input =
  fi_uid :: int
  fi_lanCidrs :: "string list"
  fi_serverAddrs :: "string list"
  fi_serverPort :: int
  fi_tunnelIp :: string

text \<open>\<open>tunnelIp\<close> is the empty string when there is none (any falsy value).\<close>

definition CIDR4 :: "string \<Rightarrow> bool" where
  "CIDR4 s =
     (case split_on CHR ''/'' s of
        [ip, p] \<Rightarrow> re_class is_digit 1 2 p \<and>
          (let ps = split_on CHR ''.'' ip in length ps = 4 \<and> list_all (re_class is_digit 1 3) ps)
      | _ \<Rightarrow> False)"

text \<open>\<open>assertInputs\<close>: does it return?\<close>

definition assertInputs :: "(string \<Rightarrow> bool) \<Rightarrow> fence_input \<Rightarrow> bool" where
  "assertInputs is6 i =
     (1 \<le> fi_uid i \<and> list_all CIDR4 (fi_lanCidrs i) \<and> list_all (\<lambda>a. isIPv4 a \<or> is6 a) (fi_serverAddrs i) \<and>
      1 \<le> fi_serverPort i \<and> fi_serverPort i \<le> 65535 \<and> (fi_tunnelIp i = [] \<or> isIPv4 (fi_tunnelIp i)))"

datatype fence_match =
    Broker_dport
  | Broker_sport
  | Server4 "string list"
  | Server6 "string list"
  | Tunnel string
  | Wg_iface
  | Multicast
  | Lan "string list"
  | Anything

datatype verdict = Accept | Drop

type_synonym fence_rule = "fence_match \<times> verdict"

definition v4 :: "string list \<Rightarrow> string list" where
  "v4 xs = filter isIPv4 xs"

definition v6 :: "(string \<Rightarrow> bool) \<Rightarrow> string list \<Rightarrow> string list" where
  "v6 is6 xs = filter is6 xs"

definition nft_rules :: "(string \<Rightarrow> bool) \<Rightarrow> fence_input \<Rightarrow> fence_rule list" where
  "nft_rules is6 i =
     [(Broker_dport, Accept), (Broker_sport, Accept)] @
     (if v4 (fi_serverAddrs i) \<noteq> [] then [(Server4 (v4 (fi_serverAddrs i)), Accept)] else []) @
     (if v6 is6 (fi_serverAddrs i) \<noteq> [] then [(Server6 (v6 is6 (fi_serverAddrs i)), Accept)] else []) @
     (if fi_tunnelIp i \<noteq> [] then [(Tunnel (fi_tunnelIp i), Drop)] else []) @
     [(Wg_iface, Drop), (Multicast, Accept)] @
     (if fi_lanCidrs i \<noteq> [] then [(Lan (fi_lanCidrs i), Accept)] else []) @
     [(Anything, Drop)]"

definition ipt_rules :: "(string \<Rightarrow> bool) \<Rightarrow> bool \<Rightarrow> fence_input \<Rightarrow> fence_rule list" where
  "ipt_rules is6 family4 i =
     [(Broker_dport, Accept), (Broker_sport, Accept)] @
     (if family4
      then map (\<lambda>a. (Server4 [a], Accept)) (v4 (fi_serverAddrs i)) @
           (if fi_tunnelIp i \<noteq> [] then [(Tunnel (fi_tunnelIp i), Drop)] else []) @
           [(Wg_iface, Drop), (Multicast, Accept)] @ map (\<lambda>c. (Lan [c], Accept)) (fi_lanCidrs i)
      else map (\<lambda>a. (Server6 [a], Accept)) (v6 is6 (fi_serverAddrs i))) @
     [(Anything, Drop)]"

section \<open>Rendering\<close>

definition NL :: char where
  "NL = CHR 0x0A"

definition int_string :: "int \<Rightarrow> string" where
  "int_string n = (if n < 0 then ''-'' @ dec_string (nat (- n)) else dec_string (nat n))"

fun join_with :: "string \<Rightarrow> string list \<Rightarrow> string" where
  "join_with sep [] = []"
| "join_with sep [s] = s"
| "join_with sep (s # t # ss) = s @ sep @ join_with sep (t # ss)"

definition quoted :: "string \<Rightarrow> string" where
  "quoted s = CHR 0x22 # s @ [CHR 0x22]"

fun nft_line :: "int \<Rightarrow> fence_rule \<Rightarrow> string" where
  "nft_line port (Broker_dport, _) = ''    oifname '' @ quoted ''lo'' @ '' tcp dport '' @ dec_string BROKER_PORT @ '' accept''"
| "nft_line port (Broker_sport, _) = ''    oifname '' @ quoted ''lo'' @ '' tcp sport '' @ dec_string BROKER_PORT @ '' accept''"
| "nft_line port (Server4 as, _) = ''    ip daddr { '' @ join_with '', '' as @ '' } tcp dport '' @ int_string port @ '' accept''"
| "nft_line port (Server6 as, _) = ''    ip6 daddr { '' @ join_with '', '' as @ '' } tcp dport '' @ int_string port @ '' accept''"
| "nft_line port (Tunnel ip, _) = ''    ip daddr '' @ ip @ '' drop''"
| "nft_line port (Wg_iface, _) = ''    oifname '' @ quoted WG_INTERFACE @ '' drop''"
| "nft_line port (Multicast, _) = ''    ip daddr 224.0.0.0/4 accept''"
| "nft_line port (Lan cs, _) = ''    ip daddr { '' @ join_with '', '' cs @ '' } accept''"
| "nft_line port (Anything, _) = ''    counter drop''"

definition buildNftRuleset :: "(string \<Rightarrow> bool) \<Rightarrow> fence_input \<Rightarrow> string option" where
  "buildNftRuleset is6 i =
     (if \<not> assertInputs is6 i then None
      else Some (join NL
        ([''table inet gc_edge'', ''delete table inet gc_edge'', ''table inet gc_edge {'', ''  chain output {'',
          ''    type filter hook output priority 0; policy accept;'',
          ''    meta skuid '' @ int_string (fi_uid i) @ '' jump edge'', ''  }'', ''  chain edge {''] @
         map (nft_line (fi_serverPort i)) (nft_rules is6 i) @ [''  }'', ''}'', []])))"

fun ipt_line :: "int \<Rightarrow> fence_rule \<Rightarrow> string" where
  "ipt_line port (Broker_dport, _) = ''-A GC_EDGE -o lo -p tcp --dport '' @ dec_string BROKER_PORT @ '' -j ACCEPT''"
| "ipt_line port (Broker_sport, _) = ''-A GC_EDGE -o lo -p tcp --sport '' @ dec_string BROKER_PORT @ '' -j ACCEPT''"
| "ipt_line port (Server4 as, _) = ''-A GC_EDGE -d '' @ join_with '','' as @ ''/32 -p tcp --dport '' @ int_string port @ '' -j ACCEPT''"
| "ipt_line port (Server6 as, _) = ''-A GC_EDGE -d '' @ join_with '','' as @ ''/128 -p tcp --dport '' @ int_string port @ '' -j ACCEPT''"
| "ipt_line port (Tunnel ip, _) = ''-A GC_EDGE -d '' @ ip @ ''/32 -j DROP''"
| "ipt_line port (Wg_iface, _) = ''-A GC_EDGE -o '' @ WG_INTERFACE @ '' -j DROP''"
| "ipt_line port (Multicast, _) = ''-A GC_EDGE -d 224.0.0.0/4 -j ACCEPT''"
| "ipt_line port (Lan cs, _) = ''-A GC_EDGE -d '' @ join_with '','' cs @ '' -j ACCEPT''"
| "ipt_line port (Anything, _) = ''-A GC_EDGE -j DROP''"

definition buildIptablesRestore :: "(string \<Rightarrow> bool) \<Rightarrow> bool \<Rightarrow> fence_input \<Rightarrow> string option" where
  "buildIptablesRestore is6 family4 i =
     (if \<not> assertInputs is6 i then None
      else Some (join NL
        ([''*filter'', '':GC_EDGE - [0:0]''] @ map (ipt_line (fi_serverPort i)) (ipt_rules is6 family4 i) @ [''COMMIT'', []])))"

definition jumpArgs :: "string \<Rightarrow> int \<Rightarrow> string list" where
  "jumpArgs verb uid =
     [verb, ''OUTPUT''] @ (if verb = ''-I'' then [''1''] else []) @
     [''-m'', ''owner'', ''--uid-owner'', int_string uid, ''-j'', ''GC_EDGE'']"

section \<open>What the rules do to a packet\<close>

datatype dest = V4 "32 word" | V6 "128 word"

record packet4 =
  pk_oif :: string
  pk_dst :: dest
  pk_tcp :: "(nat \<times> nat) option"

text \<open>\<open>pk_tcp\<close>: source and destination port of a TCP packet. A CIDR text names a block of addresses.\<close>

definition in_block :: "32 word \<Rightarrow> string \<Rightarrow> bool" where
  "in_block w cidr =
     (case split_on CHR ''/'' cidr of
        n # p # _ \<Rightarrow> dec_value p = 0 \<or> w AND cidrMask (dec_value p) = ipToInt n AND cidrMask (dec_value p)
      | _ \<Rightarrow> False)"

definition to_port :: "packet4 \<Rightarrow> int \<Rightarrow> bool" where
  "to_port p port = (case pk_tcp p of None \<Rightarrow> False | Some (_, d) \<Rightarrow> int d = port)"

fun rule_matches :: "(string \<Rightarrow> 128 word) \<Rightarrow> int \<Rightarrow> fence_match \<Rightarrow> packet4 \<Rightarrow> bool" where
  "rule_matches ip6 port Broker_dport p = (pk_oif p = ''lo'' \<and> to_port p (int BROKER_PORT))"
| "rule_matches ip6 port Broker_sport p =
     (pk_oif p = ''lo'' \<and> (case pk_tcp p of None \<Rightarrow> False | Some (s, _) \<Rightarrow> s = BROKER_PORT))"
| "rule_matches ip6 port (Server4 as) p =
     ((case pk_dst p of V4 w \<Rightarrow> w \<in> ipToInt ` set as | V6 _ \<Rightarrow> False) \<and> to_port p port)"
| "rule_matches ip6 port (Server6 as) p =
     ((case pk_dst p of V6 w \<Rightarrow> w \<in> ip6 ` set as | V4 _ \<Rightarrow> False) \<and> to_port p port)"
| "rule_matches ip6 port (Tunnel ip) p = (case pk_dst p of V4 w \<Rightarrow> w = ipToInt ip | V6 _ \<Rightarrow> False)"
| "rule_matches ip6 port Wg_iface p = (pk_oif p = WG_INTERFACE)"
| "rule_matches ip6 port Multicast p = (case pk_dst p of V4 w \<Rightarrow> in_block w ''224.0.0.0/4'' | V6 _ \<Rightarrow> False)"
| "rule_matches ip6 port (Lan cs) p = (case pk_dst p of V4 w \<Rightarrow> list_ex (in_block w) cs | V6 _ \<Rightarrow> False)"
| "rule_matches ip6 port Anything p = True"

fun first_match :: "(string \<Rightarrow> 128 word) \<Rightarrow> int \<Rightarrow> fence_rule list \<Rightarrow> packet4 \<Rightarrow> verdict" where
  "first_match ip6 port [] p = Accept"
| "first_match ip6 port ((m, v) # rs) p = (if rule_matches ip6 port m p then v else first_match ip6 port rs p)"

text \<open>iptables and ip6tables each see the packets of their family.\<close>

definition ipt_verdict :: "(string \<Rightarrow> bool) \<Rightarrow> (string \<Rightarrow> 128 word) \<Rightarrow> fence_input \<Rightarrow> packet4 \<Rightarrow> verdict" where
  "ipt_verdict is6 ip6 i p =
     first_match ip6 (fi_serverPort i) (ipt_rules is6 (case pk_dst p of V4 _ \<Rightarrow> True | V6 _ \<Rightarrow> False) i) p"

definition nft_verdict :: "(string \<Rightarrow> bool) \<Rightarrow> (string \<Rightarrow> 128 word) \<Rightarrow> fence_input \<Rightarrow> packet4 \<Rightarrow> verdict" where
  "nft_verdict is6 ip6 i p = first_match ip6 (fi_serverPort i) (nft_rules is6 i) p"

text \<open>What the edge container may reach.\<close>

definition fence_allows :: "(string \<Rightarrow> bool) \<Rightarrow> (string \<Rightarrow> 128 word) \<Rightarrow> fence_input \<Rightarrow> packet4 \<Rightarrow> bool" where
  "fence_allows is6 ip6 i p =
     ((pk_oif p = ''lo'' \<and> (\<exists>s d. pk_tcp p = Some (s, d) \<and> (s = 1883 \<or> d = 1883))) \<or>
      (to_port p (fi_serverPort i) \<and>
       (case pk_dst p of
          V4 w \<Rightarrow> \<exists>a \<in> set (fi_serverAddrs i). isIPv4 a \<and> w = ipToInt a
        | V6 w \<Rightarrow> \<exists>a \<in> set (fi_serverAddrs i). is6 a \<and> w = ip6 a)) \<or>
      (case pk_dst p of
         V4 w \<Rightarrow> (fi_tunnelIp i = [] \<or> w \<noteq> ipToInt (fi_tunnelIp i)) \<and> pk_oif p \<noteq> WG_INTERFACE \<and>
           (in_block w ''224.0.0.0/4'' \<or> list_ex (in_block w) (fi_lanCidrs i))
       | V6 _ \<Rightarrow> False))"

lemma first_match_append:
  "first_match ip6 port (rs @ ss) p =
     (if list_ex (\<lambda>r. rule_matches ip6 port (fst r) p) rs then first_match ip6 port rs p else first_match ip6 port ss p)"
  by (induction rs) auto

lemma first_match_accepts:
  "list_all (\<lambda>r. snd r = Accept) rs \<Longrightarrow> first_match ip6 port rs p = Accept"
  by (induction rs) auto

lemma server4_rules:
  "list_ex (\<lambda>r. rule_matches ip6 port (fst r) p) (map (\<lambda>a. (Server4 [a], Accept)) as) = rule_matches ip6 port (Server4 as) p"
  by (induction as) (auto split: dest.splits)

lemma server6_rules:
  "list_ex (\<lambda>r. rule_matches ip6 port (fst r) p) (map (\<lambda>a. (Server6 [a], Accept)) as) = rule_matches ip6 port (Server6 as) p"
  by (induction as) (auto split: dest.splits)

lemma lan_rules:
  "list_ex (\<lambda>r. rule_matches ip6 port (fst r) p) (map (\<lambda>c. (Lan [c], Accept)) cs) = rule_matches ip6 port (Lan cs) p"
  by (induction cs) (auto split: dest.splits)

lemma accept_rules: "first_match ip6 port (map (\<lambda>x. (f x, Accept)) xs) p = Accept"
  by (rule first_match_accepts) (simp add: list_all_iff)

lemma nft_exact: "nft_verdict is6 ip6 i p = Accept \<longleftrightarrow> fence_allows is6 ip6 i p"
  by (cases "pk_dst p"; cases "pk_tcp p")
    (auto simp: nft_verdict_def nft_rules_def fence_allows_def first_match_append v4_def v6_def BROKER_PORT_def to_port_def
      filter_empty_conv WG_INTERFACE_def list_ex_iff split: if_splits)

lemma ipt_exact: "ipt_verdict is6 ip6 i p = Accept \<longleftrightarrow> fence_allows is6 ip6 i p"
  by (cases "pk_dst p"; cases "pk_tcp p")
    (auto simp: ipt_verdict_def ipt_rules_def fence_allows_def first_match_append server4_rules server6_rules lan_rules accept_rules
      v4_def v6_def BROKER_PORT_def to_port_def WG_INTERFACE_def list_ex_iff split: if_splits)

text \<open>
  C29. Both backends enforce the same boundary, and exactly this one: the edge container reaches
  the local broker, the server on its port, and multicast and LAN addresses over IPv4 that are
  neither the tunnel address nor behind the tunnel interface; every other packet is dropped.
\<close>

theorem fence_backends_agree:
  "(nft_verdict is6 ip6 i p = Accept \<longleftrightarrow> fence_allows is6 ip6 i p) \<and>
   ipt_verdict is6 ip6 i p = nft_verdict is6 ip6 i p"
  using nft_exact [of is6 ip6 i p] ipt_exact [of is6 ip6 i p]
  by (cases "nft_verdict is6 ip6 i p"; cases "ipt_verdict is6 ip6 i p") auto

section \<open>Applying the rules\<close>

datatype backend = Nft | Iptables

record fence_state =
  fs_active :: bool
  fs_backend :: "backend option"
  fs_error :: "string list"

record fence_manager =
  fm_mode :: "backend option"
  fm_backend :: "backend option"
  fm_lastApplied :: "string option"
  fm_state :: fence_state

text \<open>
  The answers of the commands: the check of the chain, applying the script and seeing the rules
  afterwards (nftables), and the two families of iptables; an \<open>Inl\<close> is the error text.
\<close>

record fence_world =
  fw_chainPresent :: bool
  fw_nft :: "string \<Rightarrow> string + unit"
  fw_ipt4 :: "string \<Rightarrow> string + unit"
  fw_ipt6 :: "string \<Rightarrow> string + unit"
  fw_hasIpv6 :: bool

definition applyNft :: "(string \<Rightarrow> bool) \<Rightarrow> fence_world \<Rightarrow> fence_input \<Rightarrow> fence_manager \<Rightarrow> string + fence_manager" where
  "applyNft is6 w i m =
     (case buildNftRuleset is6 i of
        None \<Rightarrow> Inl ''fence: invalid input''
      | Some script \<Rightarrow>
          if fm_backend m = Some Nft \<and> fm_lastApplied m = Some script \<and> fw_chainPresent w then Inr m
          else case fw_nft w script of Inl e \<Rightarrow> Inl e | Inr _ \<Rightarrow> Inr (m\<lparr>fm_lastApplied := Some script\<rparr>))"

definition applyFamily :: "(string \<Rightarrow> bool) \<Rightarrow> bool \<Rightarrow> (string \<Rightarrow> string + unit) \<Rightarrow> fence_input \<Rightarrow> string + unit" where
  "applyFamily is6 family4 restore i =
     (case buildIptablesRestore is6 family4 i of None \<Rightarrow> Inl ''fence: invalid input'' | Some script \<Rightarrow> restore script)"

definition applyIptables :: "(string \<Rightarrow> bool) \<Rightarrow> fence_world \<Rightarrow> fence_input \<Rightarrow> string + unit" where
  "applyIptables is6 w i =
     (case applyFamily is6 True (fw_ipt4 w) i of
        Inl e \<Rightarrow> Inl e
      | Inr _ \<Rightarrow>
          (case applyFamily is6 False (fw_ipt6 w) i of
             Inl e \<Rightarrow> if fw_hasIpv6 w then Inl e else Inr ()
           | Inr _ \<Rightarrow> Inr ()))"

definition backend_order :: "fence_manager \<Rightarrow> backend list" where
  "backend_order m =
     (case fm_mode m of
        Some b \<Rightarrow> [b]
      | None \<Rightarrow> if fm_backend m = Some Iptables then [Iptables, Nft] else [Nft, Iptables])"

fun try_backends ::
  "(string \<Rightarrow> bool) \<Rightarrow> fence_world \<Rightarrow> fence_input \<Rightarrow> backend list \<Rightarrow> string list \<Rightarrow> fence_manager
    \<Rightarrow> (string list + backend) \<times> fence_manager" where
  "try_backends is6 w i [] errors m = (Inl errors, m)"
| "try_backends is6 w i (Nft # bs) errors m =
     (case applyNft is6 w i m of
        Inl e \<Rightarrow> try_backends is6 w i bs (errors @ [e]) m
      | Inr m' \<Rightarrow> (Inr Nft, m'))"
| "try_backends is6 w i (Iptables # bs) errors m =
     (case applyIptables is6 w i of
        Inl e \<Rightarrow> try_backends is6 w i bs (errors @ [e]) m
      | Inr _ \<Rightarrow> (Inr Iptables, m))"

definition fence_apply :: "(string \<Rightarrow> bool) \<Rightarrow> fence_world \<Rightarrow> fence_input \<Rightarrow> fence_manager \<Rightarrow> fence_manager" where
  "fence_apply is6 w i m =
     (case try_backends is6 w (i\<lparr>fi_lanCidrs := uniq (fi_lanCidrs i)\<rparr>) (backend_order m) [] m of
        (Inr b, m') \<Rightarrow> m'\<lparr>fm_backend := Some b, fm_state := \<lparr>fs_active = True, fs_backend = Some b, fs_error = []\<rparr>\<rparr>
      | (Inl es, m') \<Rightarrow> m'\<lparr>fm_state := \<lparr>fs_active = False, fs_backend = None, fs_error = es\<rparr>\<rparr>)"

text \<open>The boundary fails closed: it counts as active only when the rules of a backend were accepted.\<close>

lemma try_backends_ok:
  "try_backends is6 w i bs errors m = (Inr b, m') \<Longrightarrow>
   b \<in> set bs \<and> (case b of Nft \<Rightarrow> \<exists>m0. applyNft is6 w i m0 = Inr m' | Iptables \<Rightarrow> applyIptables is6 w i = Inr ())"
  by (induction is6 w i bs errors m rule: try_backends.induct) (auto split: sum.splits)

lemma fence_fails_closed:
  assumes "fs_active (fm_state (fence_apply is6 w i m))"
  shows "assertInputs is6 (i\<lparr>fi_lanCidrs := uniq (fi_lanCidrs i)\<rparr>)"
proof -
  let ?i = "i\<lparr>fi_lanCidrs := uniq (fi_lanCidrs i)\<rparr>"
  obtain b m' where "try_backends is6 w ?i (backend_order m) [] m = (Inr b, m')"
    using assms by (auto simp: fence_apply_def split: prod.splits sum.splits)
  from try_backends_ok [OF this] show ?thesis
    by (cases b) (auto simp: applyNft_def applyIptables_def applyFamily_def buildNftRuleset_def buildIptablesRestore_def
        split: if_splits option.splits sum.splits)
qed

section \<open>Targets of the edge parts\<close>

definition isPrivateNet :: "string \<Rightarrow> bool" where
  "isPrivateNet cidr =
     (let os = octets (hd (split_on CHR ''/'' cidr)); a = os ! 0; b = os ! 1
      in a = 10 \<or> (a = 172 \<and> 16 \<le> b \<and> b \<le> 31) \<or> (a = 192 \<and> b = 168))"

definition privateLanCidrs :: "string option \<Rightarrow> interfaces \<Rightarrow> string list" where
  "privateLanCidrs gw ifaces = filter isPrivateNet (map (\<lambda>(_, cidr, _). cidr) (lanSubnets gw ifaces))"

definition CACHE_MS :: int where
  "CACHE_MS = 10000"

record lan_guard =
  lg_cache :: "string list option"
  lg_cachedAt :: int

text \<open>\<open>subnets\<close>: the cached list, read again after ten seconds.\<close>

definition guard_subnets :: "int \<Rightarrow> string list \<Rightarrow> lan_guard \<Rightarrow> string list \<times> lan_guard" where
  "guard_subnets now fresh g =
     (case lg_cache g of
        Some cs \<Rightarrow> if CACHE_MS < now - lg_cachedAt g then (fresh, \<lparr>lg_cache = Some fresh, lg_cachedAt = now\<rparr>) else (cs, g)
      | None \<Rightarrow> (fresh, \<lparr>lg_cache = Some fresh, lg_cachedAt = now\<rparr>))"

definition cidr_parts :: "string \<Rightarrow> string \<times> nat" where
  "cidr_parts c = (case split_on CHR ''/'' c of n # p # _ \<Rightarrow> (n, dec_value p) | n # _ \<Rightarrow> (n, 0) | [] \<Rightarrow> ([], 0))"

definition isMulticast :: "string \<Rightarrow> bool" where
  "isMulticast ip = (let a = hd (octets ip) in 224 \<le> a \<and> a \<le> 239)"

definition guard_check ::
  "string list \<Rightarrow> string \<Rightarrow> string list \<Rightarrow> string list \<Rightarrow> json \<Rightarrow> string option" where
  "guard_check subnets tunnelIp serverAddrs multicast v =
     (case v of
        JStr host \<Rightarrow>
          if \<not> isIPv4 host then None
          else if isMulticast host then (if host \<in> set multicast then Some host else None)
          else if tunnelIp \<noteq> [] \<and> host = tunnelIp then None
          else if host \<in> set serverAddrs then None
          else (case List.find (\<lambda>c. ipInCidr host (fst (cidr_parts c)) (snd (cidr_parts c))) subnets of
                  None \<Rightarrow> None
                | Some c \<Rightarrow>
                    if octets host = take (length (octets host)) (octets (fst (cidr_parts c))) \<and> snd (cidr_parts c) < 31
                    then None else Some host)
      | _ \<Rightarrow> None)"

definition checkPort :: "json \<Rightarrow> int option" where
  "checkPort v = (case intOf v of None \<Rightarrow> None | Some p \<Rightarrow> if p < 1 \<or> 65535 < p then None else Some p)"

lemma CIDR4_block:
  assumes "CIDR4 c"
  shows "ipInCidr h (fst (cidr_parts c)) (snd (cidr_parts c)) = in_block (ipToInt h) c"
proof -
  obtain n q where "split_on CHR ''/'' c = [n, q]"
    using assms by (auto simp: CIDR4_def split: list.splits)
  then show ?thesis by (simp add: cidr_parts_def in_block_def ipInCidr_def)
qed

lemma multicast_block: "isIPv4 h \<Longrightarrow> isMulticast h \<Longrightarrow> in_block (ipToInt h) ''224.0.0.0/4''"
proof -
  assume ip: "isIPv4 h" and m: "isMulticast h"
  obtain a b c d where o: "octets h = [a, b, c, d]" "a < 256" "b < 256" "c < 256" "d < 256" using isIPv4_octets [OF ip] .
  have a: "224 \<le> a" "a \<le> 239" using m o(1) by (auto simp: isMulticast_def)
  have "unat (ipToInt h) = a * 16777216 + (b * 65536 + c * 256 + d)" using unat_ipToInt [OF o] by simp
  then have "unat (ipToInt h) div 268435456 = 14" using a o by simp
  moreover have "unat (ipToInt ''224.0.0.0'') div 268435456 = 14" by code_simp
  moreover have "ipInCidr h ''224.0.0.0'' 4 = (unat (ipToInt h) div 268435456 = unat (ipToInt ''224.0.0.0'') div 268435456)"
    using ipInCidr_iff [of 4 h "''224.0.0.0''"] by simp
  moreover have "split_on CHR ''/'' ''224.0.0.0/4'' = [''224.0.0.0'', ''4'']" "dec_value ''4'' = 4" by code_simp+
  ultimately show ?thesis by (simp add: in_block_def ipInCidr_def)
qed

lemma guard_check_cases:
  assumes "guard_check subnets tunnelIp servers groups (JStr host) = Some h"
  shows "h = host \<and> isIPv4 h \<and>
    (if isMulticast h then h \<in> set groups
     else h \<notin> set servers \<and> (tunnelIp = [] \<or> h \<noteq> tunnelIp) \<and>
       (\<exists>c \<in> set subnets. ipInCidr h (fst (cidr_parts c)) (snd (cidr_parts c)) \<and>
          (snd (cidr_parts c) < 31 \<longrightarrow> octets h \<noteq> take (length (octets h)) (octets (fst (cidr_parts c))))))"
  using assms find_mem by (auto simp: guard_check_def find_Some_iff split: if_splits option.splits)

text \<open>
  C30. The two layers of the boundary fit together: a target the guard admits for an edge part is
  either an approved multicast group or an address in a LAN subnet that is neither the server
  nor the tunnel address, and both firewall backends let packets to it pass on every interface
  except the tunnel.
\<close>

theorem guarded_targets_pass_the_fence:
  assumes "guard_check (fi_lanCidrs i) (fi_tunnelIp i) servers groups (JStr host) = Some h"
    and "assertInputs is6 i" "\<not> isMulticast (fi_tunnelIp i)"
    and "pk_dst p = V4 (ipToInt h)" "pk_oif p \<noteq> WG_INTERFACE"
  shows "h = host \<and>
    (if isMulticast h then h \<in> set groups
     else h \<notin> set servers \<and> h \<noteq> fi_tunnelIp i \<and> list_ex (in_block (ipToInt h)) (fi_lanCidrs i)) \<and>
    nft_verdict is6 ip6 i p = Accept \<and> ipt_verdict is6 ip6 i p = Accept"
proof -
  note g = guard_check_cases [OF assms(1)]
  have blocks: "ipInCidr h (fst (cidr_parts c)) (snd (cidr_parts c)) = in_block (ipToInt h) c" if "c \<in> set (fi_lanCidrs i)" for c
    using that assms(2) CIDR4_block by (auto simp: assertInputs_def list_all_iff)
  have "h \<noteq> []" using g by (auto simp: isIPv4_def Let_def)
  then have nt: "h \<noteq> fi_tunnelIp i" using g assms(3) by (auto split: if_splits)
  then have tunnel: "fi_tunnelIp i = [] \<or> ipToInt h \<noteq> ipToInt (fi_tunnelIp i)"
    using g assms(2) ipToInt_inject by (auto simp: assertInputs_def)
  have lan: "isMulticast h \<or> list_ex (in_block (ipToInt h)) (fi_lanCidrs i)"
    using g blocks by (auto simp: list_ex_iff split: if_splits)
  then have "in_block (ipToInt h) ''224.0.0.0/4'' \<or> list_ex (in_block (ipToInt h)) (fi_lanCidrs i)"
    using g multicast_block by blast
  then have "fence_allows is6 ip6 i p" using tunnel assms(4,5) by (simp add: fence_allows_def)
  with g nt lan show ?thesis by (auto simp: nft_exact ipt_exact)
qed

theorem guarded_targets_pass_the_fence_witness:
  "nft_verdict (\<lambda>_. False) (\<lambda>_. 0) \<lparr>fi_uid = 61001, fi_lanCidrs = [''192.168.1.0/24''], fi_serverAddrs = [''203.0.113.7''],
      fi_serverPort = 443, fi_tunnelIp = ''10.8.0.2''\<rparr>
    \<lparr>pk_oif = ''eth0'', pk_dst = V4 (ipToInt ''192.168.1.20''), pk_tcp = None\<rparr> = Accept"
proof -
  let ?i = "\<lparr>fi_uid = 61001, fi_lanCidrs = [''192.168.1.0/24''], fi_serverAddrs = [''203.0.113.7''],
      fi_serverPort = 443, fi_tunnelIp = ''10.8.0.2''\<rparr>"
  have "guard_check (fi_lanCidrs ?i) (fi_tunnelIp ?i) [''203.0.113.7''] [] (JStr ''192.168.1.20'') = Some ''192.168.1.20''"
    "assertInputs (\<lambda>_. False) ?i" "\<not> isMulticast (fi_tunnelIp ?i)" "''eth0'' \<noteq> WG_INTERFACE"
    by code_simp+
  with guarded_targets_pass_the_fence [of ?i "[''203.0.113.7'']" "[]" "''192.168.1.20''" "''192.168.1.20''" "\<lambda>_. False"
      "\<lparr>pk_oif = ''eth0'', pk_dst = V4 (ipToInt ''192.168.1.20''), pk_tcp = None\<rparr>" "\<lambda>_. 0"]
  show ?thesis by simp
qed

end
