(* ===== verification/Edge_Limits.thy ===== *)
theory Edge_Limits
  imports Gateway_Prelude
begin

text \<open>
  What keeps a plugin from flooding the gateway: the rate window and the shortening of log lines
  (\<open>src/src/edge/limits.js\<close>) and the buffer of events that waits for the server's
  acknowledgements (\<open>src/src/edge/eventBuffer.js\<close>). Times are milliseconds given by the caller; no
  assumption is made that they increase.
\<close>

section \<open>Rate window\<close>

record rate_window =
  rw_max :: nat
  rw_windowMs :: int
  rw_start :: int
  rw_n :: nat
  rw_dropped :: nat

definition newWindow :: "nat \<Rightarrow> int \<Rightarrow> rate_window" where
  "newWindow mx windowMs = \<lparr>rw_max = mx, rw_windowMs = windowMs, rw_start = 0, rw_n = 0, rw_dropped = 0\<rparr>"

definition rate_take :: "int \<Rightarrow> rate_window \<Rightarrow> bool \<times> rate_window" where
  "rate_take t w =
     (let w1 = (if rw_windowMs w \<le> t - rw_start w then w\<lparr>rw_start := t, rw_n := 0\<rparr> else w)
      in if rw_max w1 \<le> rw_n w1 then (False, w1\<lparr>rw_dropped := rw_dropped w1 + 1\<rparr>)
         else (True, w1\<lparr>rw_n := rw_n w1 + 1\<rparr>))"

definition drainDropped :: "rate_window \<Rightarrow> nat \<times> rate_window" where
  "drainDropped w = (rw_dropped w, w\<lparr>rw_dropped := 0\<rparr>)"

text \<open>The answers to a sequence of requests.\<close>

fun rate_run :: "int list \<Rightarrow> rate_window \<Rightarrow> bool list" where
  "rate_run [] w = []"
| "rate_run (t # ts) w = (case rate_take t w of (b, w') \<Rightarrow> b # rate_run ts w')"

text \<open>Requests inside one window get at most what is left of it.\<close>

lemma rate_run_window:
  "rw_n w \<le> rw_max w \<Longrightarrow> \<forall>t \<in> set ts. t - rw_start w < rw_windowMs w \<Longrightarrow>
   length (filter (\<lambda>b. b) (rate_run ts w)) \<le> rw_max w - rw_n w"
proof (induction ts arbitrary: w)
  case (Cons t ts)
  have t: "\<not> rw_windowMs w \<le> t - rw_start w" using Cons.prems(2) by (auto simp: not_le)
  show ?case
  proof (cases "rw_max w \<le> rw_n w")
    case True
    with t Cons.IH [of "w\<lparr>rw_dropped := rw_dropped w + 1\<rparr>"] Cons.prems show ?thesis by (simp add: rate_take_def)
  next
    case False
    with t Cons.IH [of "w\<lparr>rw_n := rw_n w + 1\<rparr>"] Cons.prems show ?thesis by (simp add: rate_take_def)
  qed
qed simp

section \<open>Shortening text\<close>

text \<open>
  \<open>truncateUtf8\<close> on the bytes of the text: the loop that walks back over continuation bytes, at
  most four, gives the number of bytes skipped.
\<close>

definition is_cont :: "byte \<Rightarrow> bool" where
  "is_cont b = (b AND 0xc0 = 0x80)"

fun skip_back :: "bytes \<Rightarrow> nat \<Rightarrow> nat \<Rightarrow> nat" where
  "skip_back buf fuel n =
     (if fuel = 0 \<or> length buf \<le> n \<or> \<not> is_cont (buf ! (length buf - 1 - n)) then n
      else skip_back buf (fuel - 1) (n + 1))"

declare skip_back.simps [simp del]

definition need :: "byte \<Rightarrow> nat" where
  "need lead = (if 0xf0 \<le> unat lead then 4 else if 0xe0 \<le> unat lead then 3 else if 0xc0 \<le> unat lead then 2 else 1)"

definition truncateUtf8 :: "bytes \<Rightarrow> nat \<Rightarrow> bytes" where
  "truncateUtf8 str mx =
     (if length str \<le> mx then str
      else let buf = take mx str; n = skip_back buf 4 0
        in if length buf \<le> n then buf
           else let i = length buf - 1 - n
             in if need (buf ! i) \<noteq> n + 1 then take i buf else buf)"

text \<open>A well-formed character: a lead byte that announces its length, then continuation bytes.\<close>

definition utf8_seq :: "bytes \<Rightarrow> bool" where
  "utf8_seq c =
     (case c of [] \<Rightarrow> False | l # cs \<Rightarrow> \<not> is_cont l \<and> need l = length c \<and> length c \<le> 4 \<and> list_all is_cont cs)"

lemma skip_back_conts:
  "list_all is_cont cs \<Longrightarrow> \<not> is_cont l \<Longrightarrow> length cs \<le> fuel + n \<Longrightarrow> n \<le> length cs \<Longrightarrow>
   skip_back (pre @ l # cs) fuel n = length cs"
proof (induction fuel arbitrary: n)
  case 0
  then show ?case by (subst skip_back.simps) simp
next
  case (Suc fuel)
  show ?case
  proof (cases "n = length cs")
    case True
    with Suc.prems(2) show ?thesis by (subst skip_back.simps) (simp add: nth_append)
  next
    case False
    with Suc.prems(4) have n: "n < length cs" by simp
    have "length (pre @ l # cs) - 1 - n = length pre + Suc (length cs - 1 - n)" using n by simp
    then have "(pre @ l # cs) ! (length (pre @ l # cs) - 1 - n) = cs ! (length cs - 1 - n)"
      by (simp only: nth_append_length_plus nth_Cons_Suc)
    moreover have "is_cont (cs ! (length cs - 1 - n))" using Suc.prems(1) n by (simp add: list_all_length)
    moreover have "skip_back (pre @ l # cs) fuel (n + 1) = length cs" using Suc.IH [of "n + 1"] Suc.prems n by simp
    ultimately show ?thesis using n by (subst skip_back.simps) simp
  qed
qed

lemma fit_index:
  assumes "mx < length (concat chars)"
  shows "\<exists>k < length chars. length (concat (take k chars)) \<le> mx \<and> mx < length (concat (take (Suc k) chars))"
  using assms
proof (induction chars arbitrary: mx)
  case (Cons c cs)
  show ?case
  proof (cases "mx < length c")
    case True
    then show ?thesis by (intro exI [of _ 0]) simp
  next
    case False
    with Cons.prems have "mx - length c < length (concat cs)" by simp
    then obtain k where "k < length cs"
        "length (concat (take k cs)) \<le> mx - length c" "mx - length c < length (concat (take (Suc k) cs))"
      using Cons.IH by blast
    with False show ?thesis by (intro exI [of _ "Suc k"]) auto
  qed
qed simp

lemma truncate_at:
  assumes seq: "list_all utf8_seq chars" and k: "k < length chars"
    and lo: "length (concat (take k chars)) \<le> mx" and hi: "mx < length (concat (take (Suc k) chars))"
  shows "truncateUtf8 (concat chars) mx = concat (take k chars)"
proof -
  let ?pre = "concat (take k chars)" and ?c = "chars ! k"
  define part where "part = take (mx - length ?pre) ?c"
  have split: "concat chars = ?pre @ ?c @ concat (drop (Suc k) chars)"
    by (metis append_take_drop_id Cons_nth_drop_Suc concat.simps(2) concat_append k)
  have c: "utf8_seq ?c" using seq k by (simp add: list_all_length)
  then obtain l cs where lc: "?c = l # cs" "\<not> is_cont l" "need l = length ?c" "list_all is_cont cs" "length ?c \<le> 4"
    by (auto simp: utf8_seq_def split: list.splits)
  have "length (concat (take (Suc k) chars)) = length ?pre + length ?c" using k by (simp add: take_Suc_conv_app_nth)
  then have mx: "mx < length ?pre + length ?c" using hi by simp
  have buf: "take mx (concat chars) = ?pre @ part" using lo mx by (simp add: split part_def)
  have long: "\<not> length (concat chars) \<le> mx" using mx by (simp add: split)
  show ?thesis
  proof (cases part)
    case (Cons x xs)
    have xs: "x = l" "xs = take (mx - length ?pre - 1) cs" using Cons lc(1) by (auto simp: part_def take_Cons' split: if_splits)
    have "list_all is_cont xs" using lc(4) xs by (auto simp: list_all_iff dest: in_set_takeD)
    moreover have "length ?pre < mx" using Cons by (cases "mx - length ?pre") (auto simp: part_def)
    then have le: "length xs < length cs" using mx lc(1) by (simp add: xs)
    ultimately have "skip_back (?pre @ l # xs) 4 0 = length xs" using lc le by (intro skip_back_conts) auto
    with buf long Cons xs lc le show ?thesis by (simp add: truncateUtf8_def Let_def nth_append)
  next
    case Nil
    show ?thesis
    proof (cases k)
      case 0
      with buf Nil have "take mx (concat chars) = []" by simp
      moreover have "skip_back [] 4 0 = 0" by (simp add: skip_back.simps)
      ultimately have "truncateUtf8 (concat chars) mx = []" using long by (simp only: truncateUtf8_def Let_def) simp
      then show ?thesis using 0 by simp
    next
      case (Suc j)
      have "utf8_seq (chars ! j)" using seq k Suc by (simp add: list_all_length)
      then obtain m ds where m: "chars ! j = m # ds" "\<not> is_cont m" "need m = Suc (length ds)" "list_all is_cont ds" "length ds \<le> 3"
        by (auto simp: utf8_seq_def split: list.splits)
      have pre: "?pre = concat (take j chars) @ m # ds" using k m Suc by (simp add: take_Suc_conv_app_nth)
      have "skip_back (concat (take j chars) @ m # ds) 4 0 = length ds" using m by (intro skip_back_conts) auto
      with buf Nil long m show ?thesis by (simp add: pre truncateUtf8_def Let_def nth_append)
    qed
  qed
qed

lemma truncate_whole:
  assumes "list_all utf8_seq chars"
  shows "\<exists>k. truncateUtf8 (concat chars) mx = concat (take k chars) \<and> length (concat (take k chars)) \<le> mx \<and>
    (k < length chars \<longrightarrow> mx < length (concat (take (Suc k) chars)))"
proof (cases "length (concat chars) \<le> mx")
  case True
  then show ?thesis by (intro exI [of _ "length chars"]) (simp add: truncateUtf8_def)
next
  case False
  then obtain k where "k < length chars" "length (concat (take k chars)) \<le> mx" "mx < length (concat (take (Suc k) chars))"
    using fit_index [of mx chars] by auto
  with truncate_at [OF assms] show ?thesis by blast
qed

section \<open>Event buffer\<close>

text \<open>The message of an event (its tag \<open>t: 'event'\<close> is the type).\<close>

record 'd event_msg =
  em_plugin :: string
  em_name :: string
  em_data :: 'd
  em_at :: string
  em_seq :: int

record 'd event =
  ev_seq :: int
  ev_msg :: "'d event_msg"
  ev_ts :: int

record 'd event_buffer =
  eb_max :: nat
  eb_maxAgeMs :: int
  eb_lastSeq :: int
  eb_items :: "'d event list"
  eb_lost :: nat

definition newBuffer :: "nat \<Rightarrow> int \<Rightarrow> 'd event_buffer" where
  "newBuffer mx age = \<lparr>eb_max = mx, eb_maxAgeMs = age, eb_lastSeq = 0, eb_items = [], eb_lost = 0\<rparr>"

definition nextSeq :: "int \<Rightarrow> 'd event_buffer \<Rightarrow> int" where
  "nextSeq now b = max (eb_lastSeq b + 1) now"

text \<open>The two loops of \<open>prune\<close>: too old, then too many.\<close>

definition drop_old :: "int \<Rightarrow> 'd event list \<Rightarrow> 'd event list" where
  "drop_old cutoff items = dropWhile (\<lambda>e. ev_ts e < cutoff) items"

definition prune :: "int \<Rightarrow> 'd event_buffer \<Rightarrow> 'd event_buffer" where
  "prune now b =
     (let items1 = drop_old (now - eb_maxAgeMs b) (eb_items b);
          items2 = drop (length items1 - eb_max b) items1
      in b\<lparr>eb_items := items2, eb_lost := eb_lost b + (length (eb_items b) - length items2)\<rparr>)"

definition push ::
  "int \<Rightarrow> int \<Rightarrow> int \<Rightarrow> string \<Rightarrow> string \<Rightarrow> 'd \<Rightarrow> string \<Rightarrow> 'd event_buffer \<Rightarrow> 'd event_msg \<times> 'd event_buffer" where
  "push t1 t2 t3 plugin name data at b =
     (let seq = nextSeq t1 b;
          msg = \<lparr>em_plugin = plugin, em_name = name, em_data = data, em_at = at, em_seq = seq\<rparr>
      in (msg, prune t3 (b\<lparr>eb_lastSeq := seq, eb_items := eb_items b @ [\<lparr>ev_seq = seq, ev_msg = msg, ev_ts = t2\<rparr>]\<rparr>)))"

text \<open>\<open>None\<close> stands for a number that is not finite.\<close>

definition ack :: "int option \<Rightarrow> 'd event_buffer \<Rightarrow> nat \<times> 'd event_buffer" where
  "ack sq b =
     (case sq of
        None \<Rightarrow> (0, b)
      | Some s \<Rightarrow>
          let rest = dropWhile (\<lambda>e. ev_seq e \<le> s) (eb_items b)
          in (length (eb_items b) - length rest, b\<lparr>eb_items := rest\<rparr>))"

definition pending :: "int \<Rightarrow> 'd event_buffer \<Rightarrow> 'd event_msg list \<times> 'd event_buffer" where
  "pending now b = (let b' = prune now b in (map ev_msg (eb_items b'), b'))"

section \<open>Nothing is lost silently\<close>

datatype 'd buffer_op = Push int int int string string 'd string | Ack "int option" | Pending int

record 'd buffer_ledger =
  bl_buffer :: "'d event_buffer"
  bl_pushed :: nat
  bl_acked :: nat

fun buffer_step :: "'d buffer_op \<Rightarrow> 'd buffer_ledger \<Rightarrow> 'd buffer_ledger option" where
  "buffer_step (Push t1 t2 t3 p n d at) l =
     Some (l\<lparr>bl_buffer := snd (push t1 t2 t3 p n d at (bl_buffer l)), bl_pushed := bl_pushed l + 1\<rparr>)"
| "buffer_step (Ack s) l =
     Some (l\<lparr>bl_buffer := snd (ack s (bl_buffer l)), bl_acked := bl_acked l + fst (ack s (bl_buffer l))\<rparr>)"
| "buffer_step (Pending now) l = Some (l\<lparr>bl_buffer := snd (pending now (bl_buffer l))\<rparr>)"

definition buffer_ok :: "'d event_buffer \<Rightarrow> bool" where
  "buffer_ok b =
     (sorted_wrt (<) (map ev_seq (eb_items b)) \<and> (\<forall>e \<in> set (eb_items b). ev_seq e \<le> eb_lastSeq b) \<and>
      length (eb_items b) \<le> eb_max b)"

definition buffer_ledger_ok :: "nat \<Rightarrow> 'd buffer_ledger \<Rightarrow> bool" where
  "buffer_ledger_ok mx l =
     (buffer_ok (bl_buffer l) \<and> eb_max (bl_buffer l) = mx \<and>
      bl_pushed l = length (eb_items (bl_buffer l)) + eb_lost (bl_buffer l) + bl_acked l)"

lemma suffix_dropped: "suffix ys xs \<Longrightarrow> sorted_wrt (<) (map f xs) \<Longrightarrow> sorted_wrt (<) (map f ys)"
  by (auto simp: suffix_def sorted_wrt_append)

lemma prune_suffix: "suffix (eb_items (prune now b)) (eb_items b)"
  by (auto simp: prune_def drop_old_def Let_def intro: suffix_order.trans suffix_drop suffix_dropWhile)

lemma prune_props [simp]:
  "eb_max (prune now b) = eb_max b" "eb_lastSeq (prune now b) = eb_lastSeq b"
  "length (eb_items (prune now b)) \<le> eb_max b"
  "length (eb_items (prune now b)) + eb_lost (prune now b) = length (eb_items b) + eb_lost b"
proof -
  show "length (eb_items (prune now b)) + eb_lost (prune now b) = length (eb_items b) + eb_lost b"
    using suffix_length_le [OF prune_suffix [of now b]] by (simp add: prune_def Let_def)
qed (simp_all add: prune_def Let_def)

lemma prune_ok:
  "sorted_wrt (<) (map ev_seq (eb_items b)) \<Longrightarrow> \<forall>e \<in> set (eb_items b). ev_seq e \<le> eb_lastSeq b \<Longrightarrow> buffer_ok (prune now b)"
  using suffix_dropped [OF prune_suffix] set_mono_suffix [OF prune_suffix [of now b]] by (auto simp: buffer_ok_def)

lemma push_ok:
  assumes "buffer_ok b"
  shows "buffer_ok (snd (push t1 t2 t3 p n d at b))"
proof -
  have "ev_seq e < nextSeq t1 b" if "e \<in> set (eb_items b)" for e
    using assms that by (fastforce simp: buffer_ok_def nextSeq_def)
  with assms show ?thesis unfolding push_def Let_def snd_conv
    by (intro prune_ok) (auto simp: sorted_wrt_append buffer_ok_def less_imp_le)
qed

lemma ack_ok: "buffer_ok b \<Longrightarrow> buffer_ok (snd (ack s b))"
  using suffix_dropped [OF suffix_dropWhile, of ev_seq "eb_items b"]
    length_dropWhile_le [of _ "eb_items b"]
  by (auto simp: ack_def Let_def buffer_ok_def dest: set_dropWhileD intro: order_trans split: option.splits)

interpretation event_machine: total_machine "buffer_ledger_ok mx" buffer_step for mx
proof
  fix l :: "'a buffer_ledger" and r
  assume l: "buffer_ledger_ok mx l"
  let ?b = "bl_buffer l"
  have b: "buffer_ok ?b" using l by (simp add: buffer_ledger_ok_def)
  show "\<exists>l'. buffer_step r l = Some l' \<and> buffer_ledger_ok mx l'"
  proof (cases r)
    case (Push t1 t2 t3 p n d at)
    have "eb_max (snd (push t1 t2 t3 p n d at ?b)) = eb_max ?b"
      "length (eb_items (snd (push t1 t2 t3 p n d at ?b))) + eb_lost (snd (push t1 t2 t3 p n d at ?b)) = length (eb_items ?b) + 1 + eb_lost ?b"
      by (simp_all add: push_def Let_def)
    with Push l push_ok [OF b] show ?thesis by (simp add: buffer_ledger_ok_def)
  next
    case (Ack s)
    have "length (eb_items (snd (ack s ?b))) + fst (ack s ?b) = length (eb_items ?b)"
      "eb_max (snd (ack s ?b)) = eb_max ?b" "eb_lost (snd (ack s ?b)) = eb_lost ?b"
      using length_dropWhile_le [of _ "eb_items ?b"] by (auto simp: ack_def Let_def split: option.splits)
    with Ack l ack_ok [OF b] show ?thesis by (simp add: buffer_ledger_ok_def)
  next
    case (Pending now)
    have "buffer_ok (prune now ?b)" using b by (intro prune_ok) (auto simp: buffer_ok_def)
    moreover have "length (eb_items (prune now ?b)) + eb_lost (prune now ?b) = length (eb_items ?b) + eb_lost ?b" by simp
    ultimately show ?thesis using Pending l by (simp add: pending_def Let_def buffer_ledger_ok_def)
  qed
qed

lemma ack_rest:
  assumes "sorted_wrt (<) (map ev_seq xs)"
  shows "set (dropWhile (\<lambda>e. ev_seq e \<le> s) xs) = {e \<in> set xs. s < ev_seq e}"
  using assms
proof (induction xs)
  case (Cons a xs)
  show ?case
  proof (cases "ev_seq a \<le> s")
    case True
    with Cons show ?thesis by auto
  next
    case False
    with Cons.prems show ?thesis by fastforce
  qed
qed simp

text \<open>
  C31. Whatever clock and acknowledgements do, the event buffer keeps its books: sequence numbers
  of the waiting events increase strictly, their number stays within the limit, every event ever
  pushed is waiting, acknowledged or counted as lost, and an acknowledgement removes exactly the
  events up to its number.
\<close>

theorem event_buffer_accounts:
  "\<exists>l. run buffer_step ops \<lparr>bl_buffer = newBuffer mx age, bl_pushed = 0, bl_acked = 0\<rparr> = Some l \<and>
     sorted_wrt (<) (map ev_seq (eb_items (bl_buffer l))) \<and> length (eb_items (bl_buffer l)) \<le> mx \<and>
     bl_pushed l = length (eb_items (bl_buffer l)) + eb_lost (bl_buffer l) + bl_acked l \<and>
     (\<forall>s. set (eb_items (snd (ack (Some s) (bl_buffer l)))) = {e \<in> set (eb_items (bl_buffer l)). s < ev_seq e})"
proof -
  have "buffer_ledger_ok mx \<lparr>bl_buffer = newBuffer mx age, bl_pushed = 0, bl_acked = 0\<rparr>"
    by (simp add: buffer_ledger_ok_def buffer_ok_def newBuffer_def)
  from event_machine.run_total [OF this, of ops] show ?thesis
    by (auto simp: buffer_ledger_ok_def buffer_ok_def ack_def Let_def ack_rest)
qed

end
