(* ===== verification/Blob_Store.thy ===== *)
theory Blob_Store
  imports Js_Values "HOL-Library.Multiset" "HOL-Library.Product_Lexorder"
begin

text \<open>
  The store of the LAN cache (\<open>src/src/cache/store.js\<close>): the index of the blobs with its byte
  count, the deltas for the next report, and making room by rank and least recent use. Files are
  on disk; the outcome of each file operation is an argument. Times are rationals, as file times
  are fractions of milliseconds.
\<close>

section \<open>Items\<close>

definition MAX_ITEMS :: nat where
  "MAX_ITEMS = 50000"

definition BLOB_RE :: "string \<Rightarrow> bool" where
  "BLOB_RE s = re_class is_hex_lower 64 64 s"

record blob =
  bl_size :: nat
  bl_kind :: "string option"
  bl_storedAt :: rat
  bl_lastUsedAt :: rat

text \<open>The sets \<open>added\<close> and \<open>removed\<close> are lists without duplicates, in insertion order.\<close>

record blob_store =
  bs_items :: "(string, blob) jsmap"
  bs_usedBytes :: int
  bs_added :: "string list"
  bs_removed :: "string list"
  bs_dirty :: bool
  bs_opened :: bool

definition newStore :: blob_store where
  "newStore = \<lparr>bs_items = [], bs_usedBytes = 0, bs_added = [], bs_removed = [], bs_dirty = False, bs_opened = False\<rparr>"

definition set_add :: "'a \<Rightarrow> 'a list \<Rightarrow> 'a list" where
  "set_add x xs = (if x \<in> set xs then xs else xs @ [x])"

definition set_delete :: "'a \<Rightarrow> 'a list \<Rightarrow> 'a list" where
  "set_delete x xs = filter (\<lambda>y. y \<noteq> x) xs"

definition has :: "string \<Rightarrow> blob_store \<Rightarrow> bool" where
  "has sha s = (sha \<in> fst ` set (bs_items s))"

definition size_at :: "string \<Rightarrow> blob_store \<Rightarrow> nat" where
  "size_at sha s = (case map_of (bs_items s) sha of None \<Rightarrow> 0 | Some b \<Rightarrow> bl_size b)"

definition blob_set :: "string \<Rightarrow> blob \<Rightarrow> blob_store \<Rightarrow> blob_store" where
  "blob_set sha v s =
     s\<lparr>bs_items := mset_at sha v (bs_items s), bs_usedBytes := bs_usedBytes s - int (size_at sha s) + int (bl_size v),
       bs_dirty := True\<rparr>"

definition blob_unset :: "string \<Rightarrow> blob_store \<Rightarrow> blob_store" where
  "blob_unset sha s =
     (if \<not> has sha s then s
      else s\<lparr>bs_items := mdelete sha (bs_items s), bs_usedBytes := bs_usedBytes s - int (size_at sha s), bs_dirty := True\<rparr>)"

definition touch :: "rat \<Rightarrow> string \<Rightarrow> blob_store \<Rightarrow> blob_store" where
  "touch now sha s =
     (case map_of (bs_items s) sha of
        None \<Rightarrow> s
      | Some b \<Rightarrow> s\<lparr>bs_items := mset_at sha (b\<lparr>bl_lastUsedAt := now\<rparr>) (bs_items s), bs_dirty := True\<rparr>)"

text \<open>\<open>None\<close> when the rename throws.\<close>

definition commit :: "bool \<Rightarrow> rat \<Rightarrow> string \<Rightarrow> nat \<Rightarrow> string \<Rightarrow> blob_store \<Rightarrow> blob_store option" where
  "commit renamed now sha sz kind s =
     (if \<not> renamed then None
      else let s1 = blob_set sha \<lparr>bl_size = sz, bl_kind = Some kind, bl_storedAt = now, bl_lastUsedAt = 0\<rparr> s
        in Some (s1\<lparr>bs_added := set_add sha (bs_added s1), bs_removed := set_delete sha (bs_removed s1)\<rparr>))"

text \<open>The flag says whether deleting the file succeeded; the index has changed either way.\<close>

definition remove :: "(string \<Rightarrow> bool) \<Rightarrow> string \<Rightarrow> blob_store \<Rightarrow> bool \<times> blob_store" where
  "remove rm sha s =
     (if \<not> has sha s then (True, s)
      else let s1 = blob_unset sha s
        in (rm sha, s1\<lparr>bs_removed := set_add sha (bs_removed s1), bs_added := set_delete sha (bs_added s1)\<rparr>))"

fun remove_all :: "(string \<Rightarrow> bool) \<Rightarrow> string list \<Rightarrow> blob_store \<Rightarrow> bool \<times> blob_store" where
  "remove_all rm [] s = (True, s)"
| "remove_all rm (v # vs) s = (case remove rm v s of (ok, s1) \<Rightarrow> if ok then remove_all rm vs s1 else (False, s1))"

section \<open>Making room\<close>

definition last_use :: "blob \<Rightarrow> rat" where
  "last_use b = (if bl_lastUsedAt b \<noteq> 0 then bl_lastUsedAt b else bl_storedAt b)"

type_synonym cand = "string \<times> rat \<times> rat"

definition candidates :: "(string \<Rightarrow> blob \<Rightarrow> rat option) \<Rightarrow> (string, blob) jsmap \<Rightarrow> cand list" where
  "candidates rank m =
     List.map_filter (\<lambda>(sha, b). case rank sha b of None \<Rightarrow> None | Some r \<Rightarrow> Some (sha, r, last_use b)) m"

text \<open>The loop over the sorted candidates: the victims and the bytes free once they are gone.\<close>

fun pick_victims :: "blob_store \<Rightarrow> int \<Rightarrow> int \<Rightarrow> cand list \<Rightarrow> string list \<times> int" where
  "pick_victims s bytes free [] = ([], free)"
| "pick_victims s bytes free (c # cs) =
     (if bytes \<le> free then ([], free)
      else case pick_victims s bytes (free + int (size_at (fst c) s)) cs of (vs, f) \<Rightarrow> (fst c # vs, f))"

datatype room = Room bool | Room_error

definition makeRoom ::
  "(string \<Rightarrow> bool) \<Rightarrow> int \<Rightarrow> int \<Rightarrow> (string \<Rightarrow> blob \<Rightarrow> rat option) \<Rightarrow> blob_store \<Rightarrow> room \<times> blob_store" where
  "makeRoom rm bytes limit rank s =
     (if bs_usedBytes s + bytes \<le> limit then (Room True, s)
      else let cands = sort_key snd (candidates rank (bs_items s));
               (victims, free) = pick_victims s bytes (limit - bs_usedBytes s) cands
        in if free < bytes then (Room False, s)
           else case remove_all rm victims s of (ok, s1) \<Rightarrow> (if ok then Room True else Room_error, s1))"

section \<open>Clearing and the index file\<close>

text \<open>\<open>persist\<close> writes the index when there is something to write; a failed write stays dirty.\<close>

definition persist :: "bool \<Rightarrow> blob_store \<Rightarrow> blob_store" where
  "persist written s = (if \<not> bs_dirty s \<or> \<not> bs_opened s then s else s\<lparr>bs_dirty := \<not> written\<rparr>)"

definition clear_store :: "(string \<Rightarrow> bool) \<Rightarrow> bool \<Rightarrow> blob_store \<Rightarrow> bool \<times> blob_store" where
  "clear_store rm written s =
     (case remove_all rm (map fst (bs_items s)) s of (ok, s1) \<Rightarrow> if ok then (True, persist written s1) else (False, s1))"

text \<open>
  A directory entry as \<open>open\<close> sees it; \<open>de_hash\<close> is the outcome of hashing the file (\<open>None\<close> when
  reading it throws). The state of the loop is the store and the files without a matching entry.
\<close>

record dir_entry =
  de_name :: string
  de_stat :: bool
  de_isFile :: bool
  de_size :: nat
  de_mtimeMs :: rat
  de_hash :: "string option"

definition num_or :: "(json \<Rightarrow> rat option) \<Rightarrow> json \<Rightarrow> rat \<Rightarrow> rat" where
  "num_or toNumber v d = (case toNumber v of None \<Rightarrow> d | Some r \<Rightarrow> if r = 0 then d else r)"

definition index_item :: "(json \<Rightarrow> rat option) \<Rightarrow> json \<Rightarrow> dir_entry \<Rightarrow> blob option" where
  "index_item toNumber e d =
     (if field (members e) ''size'' \<noteq> JNum (of_nat (de_size d)) then None
      else Some \<lparr>bl_size = de_size d,
        bl_kind = map_option (take 16) (strOf (field (members e) ''kind'')),
        bl_storedAt = num_or toNumber (field (members e) ''storedAt'') (de_mtimeMs d),
        bl_lastUsedAt = num_or toNumber (field (members e) ''lastUsedAt'') 0\<rparr>)"

definition scan_entry ::
  "(json \<Rightarrow> rat option) \<Rightarrow> (string \<times> json) list \<Rightarrow> blob_store \<times> dir_entry list \<Rightarrow> dir_entry \<Rightarrow> blob_store \<times> dir_entry list" where
  "scan_entry toNumber idx st d =
     (if \<not> BLOB_RE (de_name d) \<or> \<not> de_stat d \<or> \<not> de_isFile d then st
      else case index_item toNumber (field idx (de_name d)) d of
             Some b \<Rightarrow>
               if length (bs_items (fst st)) < MAX_ITEMS then (blob_set (de_name d) b (fst st), snd st)
               else (fst st, snd st @ [d])
           | None \<Rightarrow> (fst st, snd st @ [d]))"

definition adopt_unknown :: "blob_store \<Rightarrow> dir_entry \<Rightarrow> blob_store" where
  "adopt_unknown s d =
     (if length (bs_items s) < MAX_ITEMS \<and> de_hash d = Some (de_name d)
      then blob_set (de_name d) \<lparr>bl_size = de_size d, bl_kind = None, bl_storedAt = de_mtimeMs d, bl_lastUsedAt = 0\<rparr> s
      else s)"

definition open_store ::
  "(json \<Rightarrow> rat option) \<Rightarrow> bool \<Rightarrow> (string \<times> json) list \<Rightarrow> dir_entry list \<Rightarrow> blob_store \<Rightarrow> blob_store" where
  "open_store toNumber written idx entries s =
     (let (s1, unknown) = foldl (scan_entry toNumber idx) (s\<lparr>bs_items := [], bs_usedBytes := 0\<rparr>, []) entries;
          s2 = foldl adopt_unknown s1 unknown
      in persist written (s2\<lparr>bs_opened := True\<rparr>))"

section \<open>Invariant\<close>

definition total_size :: "(string, blob) jsmap \<Rightarrow> int" where
  "total_size m = (\<Sum>(k, b) \<leftarrow> m. int (bl_size b))"

definition store_ok :: "blob_store \<Rightarrow> bool" where
  "store_ok s =
     (wf_map (bs_items s) \<and> bs_usedBytes s = total_size (bs_items s) \<and> distinct (bs_added s) \<and> distinct (bs_removed s) \<and>
      set (bs_added s) \<subseteq> fst ` set (bs_items s) \<and> set (bs_removed s) \<inter> fst ` set (bs_items s) = {})"

abbreviation keys :: "blob_store \<Rightarrow> string set" where
  "keys s \<equiv> fst ` set (bs_items s)"

definition sizes :: "blob_store \<Rightarrow> string list \<Rightarrow> int" where
  "sizes s vs = (\<Sum>v \<leftarrow> vs. int (size_at v s))"

lemma sizes_simps [simp]: "sizes s [] = 0" "sizes s (v # vs) = int (size_at v s) + sizes s vs"
  "sizes s (vs @ ws) = sizes s vs + sizes s ws"
  by (simp_all add: sizes_def)

lemma sizes_nonneg [simp]: "0 \<le> sizes s vs"
  by (induction vs) simp_all

lemma sizes_mset: "mset xs = mset ys \<Longrightarrow> sizes s xs = sizes s ys"
  unfolding sizes_def by (metis mset_map sum_mset_sum_list)

lemma total_size_Cons [simp]: "total_size [] = 0" "total_size ((k, b) # m) = int (bl_size b) + total_size m"
  by (simp_all add: total_size_def)

lemma absent_None: "k \<notin> fst ` set m \<Longrightarrow> map_of m k = None"
  by (simp add: map_of_eq_None_iff)

lemma total_size_mset_at:
  "wf_map m \<Longrightarrow> total_size (mset_at k v m) =
     total_size m - (case map_of m k of None \<Rightarrow> 0 | Some b \<Rightarrow> int (bl_size b)) + int (bl_size v)"
proof (induction m)
  case (Cons e m)
  obtain k' b where e: "e = (k', b)" by (cases e)
  show ?case using Cons by (auto simp: e wf_map_def absent_None split: option.splits)
qed simp

lemma total_size_mdelete:
  "wf_map m \<Longrightarrow> total_size (mdelete k m) = total_size m - (case map_of m k of None \<Rightarrow> 0 | Some b \<Rightarrow> int (bl_size b))"
proof (induction m)
  case (Cons e m)
  obtain k' b where e: "e = (k', b)" by (cases e)
  have "mdelete k m = m" if "k' = k" using Cons.prems that by (intro mdelete_absent) (auto simp: e wf_map_def)
  with Cons show ?case by (auto simp: e wf_map_def mdelete_def split: option.splits)
qed (simp add: mdelete_def)

lemma size_at_int: "int (size_at k s) = (case map_of (bs_items s) k of None \<Rightarrow> 0 | Some b \<Rightarrow> int (bl_size b))"
  by (simp add: size_at_def split: option.splits)

lemma set_list_ops [simp]:
  "set (set_add x xs) = insert x (set xs)" "set (set_delete x xs) = set xs - {x}"
  "distinct xs \<Longrightarrow> distinct (set_add x xs)" "distinct xs \<Longrightarrow> distinct (set_delete x xs)"
  by (auto simp: set_add_def set_delete_def)

lemma touch_ok: "store_ok s \<Longrightarrow> store_ok (touch now k s)"
proof -
  assume s: "store_ok s"
  have "insert k (keys s) = keys s" if "map_of (bs_items s) k = Some b" for b
    using map_of_SomeD [OF that] by force
  with s show ?thesis by (simp add: touch_def store_ok_def total_size_mset_at split: option.splits)
qed

lemma commit_ok: "store_ok s \<Longrightarrow> commit rn now k sz kind s = Some s' \<Longrightarrow> store_ok s'"
proof -
  assume s: "store_ok s" and c: "commit rn now k sz kind s = Some s'"
  have "(set (bs_removed s) - {k}) \<inter> insert k (keys s) = {}" "insert k (set (bs_added s)) \<subseteq> insert k (keys s)"
    using s unfolding store_ok_def by blast+
  with s c show ?thesis
    by (clarsimp simp: commit_def blob_set_def Let_def store_ok_def total_size_mset_at size_at_int split: if_splits)
qed

lemma commit_used:
  "\<not> has k s \<Longrightarrow> commit rn now k sz kind s = Some s' \<Longrightarrow> bs_usedBytes s' = bs_usedBytes s + int sz \<and> keys s' = insert k (keys s)"
  by (clarsimp simp: commit_def blob_set_def Let_def size_at_def has_def absent_None split: if_splits)

lemma remove_ok: "store_ok s \<Longrightarrow> store_ok (snd (remove rm k s))"
  by (auto simp: remove_def blob_unset_def Let_def store_ok_def total_size_mdelete size_at_int)

lemma remove_keys: "keys (snd (remove rm k s)) = keys s - {k}"
  by (auto simp: remove_def blob_unset_def has_def Let_def)

lemma remove_used: "k \<in> keys s \<Longrightarrow> bs_usedBytes (snd (remove rm k s)) = bs_usedBytes s - int (size_at k s)"
  by (simp add: remove_def blob_unset_def has_def Let_def)

lemma remove_size_at: "j \<noteq> k \<Longrightarrow> size_at j (snd (remove rm k s)) = size_at j s"
  by (simp add: remove_def blob_unset_def size_at_def Let_def)

lemma remove_all_ok: "store_ok s \<Longrightarrow> store_ok (snd (remove_all rm vs s))"
proof (induction vs arbitrary: s)
  case (Cons v vs)
  with remove_ok [of s rm v] show ?case by (auto split: prod.splits)
qed simp

lemma remove_all_keys: "fst (remove_all rm vs s) \<Longrightarrow> keys (snd (remove_all rm vs s)) = keys s - set vs"
proof (induction vs arbitrary: s)
  case (Cons v vs)
  obtain r s1 where r: "remove rm v s = (r, s1)" by (cases "remove rm v s")
  then have "keys s1 = keys s - {v}" using remove_keys [of rm v s] by simp
  with Cons.IH [of s1] Cons.prems r show ?case by (auto split: if_splits)
qed simp

lemma remove_all_mono: "keys (snd (remove_all rm vs s)) \<subseteq> keys s"
proof (induction vs arbitrary: s)
  case (Cons v vs)
  obtain r s1 where r: "remove rm v s = (r, s1)" by (cases "remove rm v s")
  then have "keys s1 = keys s - {v}" using remove_keys [of rm v s] by simp
  with Cons.IH [of s1] r show ?case by auto
qed simp

lemma remove_all_lost: "keys s - keys (snd (remove_all rm vs s)) \<subseteq> set vs"
proof (induction vs arbitrary: s)
  case (Cons v vs)
  obtain r s1 where r: "remove rm v s = (r, s1)" by (cases "remove rm v s")
  then have "keys s1 = keys s - {v}" using remove_keys [of rm v s] by simp
  with Cons.IH [of s1] r show ?case by auto
qed simp

lemma remove_all_used:
  "fst (remove_all rm vs s) \<Longrightarrow> distinct vs \<Longrightarrow> set vs \<subseteq> keys s \<Longrightarrow> bs_usedBytes (snd (remove_all rm vs s)) = bs_usedBytes s - sizes s vs"
proof (induction vs arbitrary: s)
  case (Cons v vs)
  obtain r s1 where r: "remove rm v s = (r, s1)" by (cases "remove rm v s")
  have "size_at x s1 = size_at x s" if "x \<in> set vs" for x
    using Cons.prems(2) that remove_size_at [of x v rm s] r by auto
  then have "sizes s1 vs = sizes s vs" by (auto simp: sizes_def intro!: arg_cong [where f = sum_list] map_cong)
  moreover have "keys s1 = keys s - {v}" "bs_usedBytes s1 = bs_usedBytes s - int (size_at v s)"
    using r remove_keys [of rm v s] remove_used [of v s rm] Cons.prems by auto
  moreover have "set vs \<subseteq> keys s - {v}" using Cons.prems by auto
  ultimately show ?case using Cons.IH [of s1] Cons.prems r by (simp split: if_splits)
qed simp

lemma open_store_ok: "store_ok (open_store toNumber written idx entries newStore)"
proof -
  let ?Q = "\<lambda>s. store_ok s \<and> bs_added s = [] \<and> bs_removed s = []"
  have set: "?Q (blob_set k v s)" if "?Q s" for k v s
    using that by (auto simp: blob_set_def store_ok_def total_size_mset_at size_at_int)
  have scan: "?Q (fst (foldl (scan_entry toNumber idx) st entries))" if "?Q (fst st)" for st
    using that by (induction entries arbitrary: st) (auto simp: scan_entry_def set split: option.splits)
  have adopt: "?Q (foldl adopt_unknown s us)" if "?Q s" for s us
    using that by (induction us arbitrary: s) (auto simp: adopt_unknown_def set)
  have "?Q (fst (foldl (scan_entry toNumber idx) (newStore\<lparr>bs_items := [], bs_usedBytes := 0\<rparr>, []) entries))"
    by (rule scan) (simp add: newStore_def store_ok_def)
  from adopt [OF this] show ?thesis
    by (auto simp: open_store_def persist_def Let_def store_ok_def split: prod.splits)
qed

lemma remove_all_used_le: "store_ok s \<Longrightarrow> bs_usedBytes (snd (remove_all rm vs s)) \<le> bs_usedBytes s"
proof (induction vs arbitrary: s)
  case (Cons v vs)
  obtain r s1 where r: "remove rm v s = (r, s1)" by (cases "remove rm v s")
  have "store_ok s1" using remove_ok [OF Cons.prems, of rm v] r by simp
  moreover have "bs_usedBytes s1 \<le> bs_usedBytes s"
    using r remove_used [of v s rm] by (cases "v \<in> keys s") (auto simp: remove_def has_def split: if_splits)
  ultimately show ?case using Cons.IH [of s1] r by (cases r) auto
qed simp

section \<open>What making room guarantees\<close>

lemma pick_victims_prefix:
  "\<exists>n \<le> length cs. pick_victims s bytes free cs = (map fst (take n cs), free + sizes s (map fst (take n cs))) \<and>
     (n = length cs \<or> bytes \<le> free + sizes s (map fst (take n cs))) \<and>
     (\<forall>m < n. free + sizes s (map fst (take m cs)) < bytes)"
proof (induction cs arbitrary: free)
  case (Cons c cs)
  show ?case
  proof (cases "bytes \<le> free")
    case True
    then show ?thesis by (intro exI [of _ 0]) simp
  next
    case False
    obtain n where n: "n \<le> length cs"
      "pick_victims s bytes (free + int (size_at (fst c) s)) cs =
         (map fst (take n cs), free + int (size_at (fst c) s) + sizes s (map fst (take n cs)))"
      "n = length cs \<or> bytes \<le> free + int (size_at (fst c) s) + sizes s (map fst (take n cs))"
      "\<forall>m < n. free + int (size_at (fst c) s) + sizes s (map fst (take m cs)) < bytes"
      using Cons.IH by blast
    have "free + sizes s (map fst (take m (c # cs))) < bytes" if "m < Suc n" for m
      using that n(4) False by (cases m) (auto simp: algebra_simps)
    with n False show ?thesis by (intro exI [of _ "Suc n"]) (auto simp: algebra_simps)
  qed
qed simp

lemma candidates_simps [simp]:
  "candidates rank [] = []"
  "candidates rank ((k, b) # m) =
     (case rank k b of None \<Rightarrow> candidates rank m | Some r \<Rightarrow> (k, r, last_use b) # candidates rank m)"
  by (simp_all add: candidates_def List.map_filter_simps split: option.splits)

lemma candidates_sub: "fst ` set (candidates rank m) \<subseteq> fst ` set m"
  by (induction m) (auto split: option.splits, force+)

lemma candidates_keys: "wf_map m \<Longrightarrow> distinct (map fst (candidates rank m))"
proof (induction m)
  case (Cons e m)
  obtain k b where e: "e = (k, b)" by (cases e)
  have "k \<notin> fst ` set (candidates rank m)" using candidates_sub [of rank m] Cons.prems by (auto simp: e wf_map_def)
  with Cons show ?case by (cases "rank k b") (simp_all add: e wf_map_def)
qed simp

lemma candidates_iff:
  "wf_map m \<Longrightarrow> (k, r, u) \<in> set (candidates rank m) \<longleftrightarrow> (\<exists>b. map_of m k = Some b \<and> rank k b = Some r \<and> u = last_use b)"
  by (force simp: candidates_def set_map_filter wf_map_def split: option.splits)

text \<open>The candidate's place in the order of eviction.\<close>

definition victim_key :: "(string \<Rightarrow> blob \<Rightarrow> rat option) \<Rightarrow> blob_store \<Rightarrow> string \<Rightarrow> (rat \<times> rat) option" where
  "victim_key rank s k =
     (case map_of (bs_items s) k of
        None \<Rightarrow> None
      | Some b \<Rightarrow> (case rank k b of None \<Rightarrow> None | Some r \<Rightarrow> Some (r, last_use b)))"

lemma victims_first:
  assumes "wf_map (bs_items s)" and cs: "cs = sort_key snd (candidates rank (bs_items s))" and "n \<le> length cs"
    and v: "v \<in> set (map fst (take n cs))"
  shows "\<exists>q. victim_key rank s v = Some q \<and>
    (\<forall>k q'. k \<notin> set (map fst (take n cs)) \<longrightarrow> victim_key rank s k = Some q' \<longrightarrow> q \<le> q')"
proof -
  have mem: "(k, q) \<in> set cs \<longleftrightarrow> victim_key rank s k = Some q" for k q
    using candidates_iff [OF assms(1)] by (cases q) (auto simp: cs victim_key_def split: option.splits)
  obtain i q where i: "i < n" "cs ! i = (v, q)" using v assms(3) by (auto simp: in_set_conv_nth)
  then have "(v, q) \<in> set cs" using assms(3) nth_mem [of i cs] by auto
  moreover have "q \<le> q'" if k: "k \<notin> set (map fst (take n cs))" "victim_key rank s k = Some q'" for k q'
  proof -
    have "(k, q') \<in> set cs" using k(2) mem by simp
    then obtain j where j: "j < length cs" "cs ! j = (k, q')" by (auto simp: in_set_conv_nth)
    have "n \<le> j"
    proof (rule ccontr)
      assume "\<not> n \<le> j"
      then have "cs ! j \<in> set (take n cs)" using j(1) by (auto simp: in_set_conv_nth)
      with j(2) k(1) show False by force
    qed
    moreover have "sorted (map snd cs)" by (simp add: cs)
    ultimately have "map snd cs ! i \<le> map snd cs ! j" using i(1) j(1) by (intro sorted_nth_mono) auto
    with i j assms(3) show ?thesis by simp
  qed
  ultimately show ?thesis using mem by blast
qed

text \<open>
  The bytes of everything that may be evicted.
\<close>

definition evictable :: "(string \<Rightarrow> blob \<Rightarrow> rat option) \<Rightarrow> blob_store \<Rightarrow> int" where
  "evictable rank s = sizes s (filter (\<lambda>k. victim_key rank s k \<noteq> None) (map fst (bs_items s)))"

lemma mset_candidates:
  assumes "wf_map (bs_items s)"
  shows "map fst (candidates rank (bs_items s)) = filter (\<lambda>k. victim_key rank s k \<noteq> None) (map fst (bs_items s))"
proof -
  have "map fst (candidates rank m) = filter (\<lambda>k. victim_key rank s k \<noteq> None) (map fst m)"
    if "\<forall>(k, b) \<in> set m. map_of (bs_items s) k = Some b" for m
    using that
  proof (induction m)
    case (Cons e m)
    obtain k b where e: "e = (k, b)" by (cases e)
    then have "victim_key rank s k = map_option (\<lambda>r. (r, last_use b)) (rank k b)"
      using Cons.prems by (simp add: victim_key_def split: option.splits)
    with Cons e show ?case by (cases "rank k b") simp_all
  qed simp
  moreover have "\<forall>(k, b) \<in> set (bs_items s). map_of (bs_items s) k = Some b" using assms by (auto simp: wf_map_def)
  ultimately show ?thesis by blast
qed

text \<open>The victims of a call: a shortest prefix of the sorted candidates that frees enough, or all of them.\<close>

definition victims :: "blob_store \<Rightarrow> int \<Rightarrow> int \<Rightarrow> (string \<Rightarrow> blob \<Rightarrow> rat option) \<Rightarrow> string list" where
  "victims s bytes limit rank =
     fst (pick_victims s bytes (limit - bs_usedBytes s) (sort_key snd (candidates rank (bs_items s))))"

lemma victims_ok:
  assumes "wf_map (bs_items s)"
  shows "distinct (victims s bytes limit rank) \<and> set (victims s bytes limit rank) \<subseteq> keys s \<and>
    (\<forall>v \<in> set (victims s bytes limit rank). \<exists>q. victim_key rank s v = Some q \<and>
       (\<forall>k q'. k \<notin> set (victims s bytes limit rank) \<longrightarrow> victim_key rank s k = Some q' \<longrightarrow> q \<le> q'))"
proof -
  define cs where "cs = sort_key snd (candidates rank (bs_items s))"
  obtain n where n: "n \<le> length cs" "fst (pick_victims s bytes (limit - bs_usedBytes s) cs) = map fst (take n cs)"
    using pick_victims_prefix [of cs s bytes "limit - bs_usedBytes s"] by fastforce
  have v: "victims s bytes limit rank = map fst (take n cs)" using n(2) by (simp add: victims_def cs_def)
  have "mset (map fst cs) = mset (map fst (candidates rank (bs_items s)))" by (simp only: cs_def mset_map mset_sort)
  then have "distinct (map fst cs)" using candidates_keys [OF assms] mset_eq_imp_distinct_iff by blast
  moreover have "set (map fst (take n cs)) \<subseteq> keys s"
    using candidates_iff [OF assms] by (auto simp: cs_def dest!: in_set_takeD) (metis fst_conv image_eqI map_of_SomeD)
  ultimately show ?thesis unfolding v using victims_first [OF assms cs_def n(1)] by (auto simp: distinct_take take_map [symmetric])
qed

lemma victims_enough:
  assumes "wf_map (bs_items s)"
    and vs_def: "vs = victims s bytes limit rank"
  shows "snd (pick_victims s bytes (limit - bs_usedBytes s) (sort_key snd (candidates rank (bs_items s)))) =
      limit - bs_usedBytes s + sizes s vs \<and>
    (limit - bs_usedBytes s + sizes s vs < bytes \<longrightarrow> sizes s vs = evictable rank s) \<and>
    (vs = [] \<or> (\<exists>v \<in> set vs. limit - bs_usedBytes s + sizes s vs < bytes + int (size_at v s)))"
proof -
  define cs where "cs = sort_key snd (candidates rank (bs_items s))"
  obtain n where n: "n \<le> length cs"
    "pick_victims s bytes (limit - bs_usedBytes s) cs = (map fst (take n cs), limit - bs_usedBytes s + sizes s (map fst (take n cs)))"
    "n = length cs \<or> bytes \<le> limit - bs_usedBytes s + sizes s (map fst (take n cs))"
    "\<forall>m < n. limit - bs_usedBytes s + sizes s (map fst (take m cs)) < bytes"
    using pick_victims_prefix [of cs s bytes "limit - bs_usedBytes s"] by blast
  have vs: "vs = map fst (take n cs)" using n(2) by (simp add: vs_def victims_def cs_def)
  have "mset (map fst cs) = mset (filter (\<lambda>k. victim_key rank s k \<noteq> None) (map fst (bs_items s)))"
    unfolding mset_candidates [OF assms(1), symmetric] by (simp only: cs_def mset_map mset_sort)
  then have "sizes s (map fst cs) = evictable rank s" unfolding evictable_def by (rule sizes_mset)
  moreover have "vs = [] \<or> (\<exists>v \<in> set vs. limit - bs_usedBytes s + sizes s vs < bytes + int (size_at v s))"
  proof (cases "n = 0")
    case that: False
    have t: "take n cs = take (n - 1) cs @ [cs ! (n - 1)]" using that n(1) take_Suc_conv_app_nth [of "n - 1" cs] by simp
    have "limit - bs_usedBytes s + sizes s (map fst (take (n - 1) cs)) < bytes" using n(4) that by simp
    then show ?thesis unfolding vs t by simp
  qed (simp add: vs)
  ultimately show ?thesis using n vs by (auto simp: cs_def [symmetric])
qed

lemma makeRoom_victims:
  "limit < bs_usedBytes s + bytes \<Longrightarrow> wf_map (bs_items s) \<Longrightarrow>
   makeRoom rm bytes limit rank s =
     (if limit - bs_usedBytes s + sizes s (victims s bytes limit rank) < bytes then (Room False, s)
      else (if fst (remove_all rm (victims s bytes limit rank) s) then Room True else Room_error,
            snd (remove_all rm (victims s bytes limit rank) s)))"
  using victims_enough [OF _ refl, of s bytes limit rank] by (auto simp: makeRoom_def victims_def Let_def split: prod.splits)

lemma makeRoom_removed:
  assumes "store_ok s" "limit < bs_usedBytes s + bytes" "makeRoom rm bytes limit rank s = (Room True, s')"
    and vs_def: "vs = victims s bytes limit rank"
  shows "store_ok s' \<and> keys s' = keys s - set vs \<and> bs_usedBytes s' = bs_usedBytes s - sizes s vs \<and> bs_usedBytes s' + bytes \<le> limit"
proof -
  have wf: "wf_map (bs_items s)" using assms(1) by (simp add: store_ok_def)
  have r: "fst (remove_all rm vs s)" "s' = snd (remove_all rm vs s)" "bytes \<le> limit - bs_usedBytes s + sizes s vs"
    using assms(3) makeRoom_victims [OF assms(2) wf, of rm rank] by (auto simp: vs_def split: if_splits)
  have v: "distinct vs" "set vs \<subseteq> keys s" using victims_ok [OF wf] by (auto simp: vs_def)
  from remove_all_used [OF r(1) v] remove_all_keys [OF r(1)] remove_all_ok [OF assms(1)] r show ?thesis by simp
qed

lemma makeRoom_fits: "store_ok s \<Longrightarrow> makeRoom rm bytes limit rank s = (Room True, s') \<Longrightarrow> bs_usedBytes s' + bytes \<le> limit"
  using makeRoom_removed [OF _ _ _ refl, of s limit bytes rm rank s']
  by (cases "bs_usedBytes s + bytes \<le> limit") (auto simp: makeRoom_def)

text \<open>What every outcome keeps, also one whose file operations fail half way.\<close>

lemma makeRoom_keeps:
  assumes "store_ok s" "makeRoom rm bytes limit rank s = (res, s')"
  shows "store_ok s' \<and> bs_usedBytes s' \<le> bs_usedBytes s \<and> keys s' \<subseteq> keys s \<and>
    (\<forall>v \<in> keys s - keys s'. victim_key rank s v \<noteq> None)"
proof -
  let ?vs = "victims s bytes limit rank"
  have wf: "wf_map (bs_items s)" using assms(1) by (simp add: store_ok_def)
  have "s' = s \<or> s' = snd (remove_all rm ?vs s)"
  proof (cases "bs_usedBytes s + bytes \<le> limit")
    case False
    then show ?thesis using assms(2) makeRoom_victims [OF _ wf, of limit bytes rm rank] by (auto split: if_splits)
  qed (use assms(2) in \<open>simp add: makeRoom_def\<close>)
  moreover have "victim_key rank s v \<noteq> None" if "v \<in> set ?vs" for v using victims_ok [OF wf] that by blast
  ultimately show ?thesis
    using assms(1) remove_all_ok [OF assms(1)] remove_all_used_le [OF assms(1)] remove_all_mono [of rm ?vs s] remove_all_lost [of s rm ?vs]
    by blast
qed

text \<open>
  C33. Making room evicts exactly as much as needed, in the right order: when it succeeds the blob
  fits under the limit, only unprotected blobs are gone, everything evicted ranks no later than
  everything kept (least recently used first within a rank), and one eviction less would not
  have been enough; when it fails nothing changes, and evicting every unprotected blob would not
  have been enough either. The byte count stays exact.
\<close>

theorem make_room_exact:
  assumes "store_ok s" "makeRoom rm bytes limit rank s = (res, s')" "res \<noteq> Room_error"
  shows "store_ok s' \<and> keys s' \<subseteq> keys s \<and>
    (if res = Room True
     then bs_usedBytes s' + bytes \<le> limit \<and>
       (\<forall>v \<in> keys s - keys s'. \<exists>q. victim_key rank s v = Some q \<and>
          (\<forall>k \<in> keys s'. \<forall>q'. victim_key rank s k = Some q' \<longrightarrow> q \<le> q')) \<and>
       (keys s' = keys s \<or> (\<exists>v \<in> keys s - keys s'. limit < bs_usedBytes s' + int (size_at v s) + bytes))
     else s' = s \<and> limit < bs_usedBytes s - evictable rank s + bytes)"
proof (cases "bs_usedBytes s + bytes \<le> limit")
  case True
  with assms show ?thesis by (auto simp: makeRoom_def)
next
  case False
  let ?vs = "victims s bytes limit rank"
  have wf: "wf_map (bs_items s)" and lim: "limit < bs_usedBytes s + bytes" using assms(1) False by (auto simp: store_ok_def)
  show ?thesis
  proof (cases "res = Room True")
    case True
    note r = makeRoom_removed [OF assms(1) lim assms(2) [unfolded True] refl]
    have sub: "set ?vs \<subseteq> keys s" and first: "\<And>v. v \<in> set ?vs \<Longrightarrow> \<exists>q. victim_key rank s v = Some q \<and>
        (\<forall>k q'. k \<notin> set ?vs \<longrightarrow> victim_key rank s k = Some q' \<longrightarrow> q \<le> q')"
      using victims_ok [OF wf, of bytes limit rank] by simp_all
    have gone: "keys s - keys s' = set ?vs" using r sub by (simp add: double_diff)
    have "\<exists>q. victim_key rank s v = Some q \<and> (\<forall>k \<in> keys s'. \<forall>q'. victim_key rank s k = Some q' \<longrightarrow> q \<le> q')"
      if "v \<in> keys s - keys s'" for v
      using first [of v] that r unfolding gone by (metis DiffD2)
    moreover have "keys s' = keys s \<or> (\<exists>v \<in> keys s - keys s'. limit < bs_usedBytes s' + int (size_at v s) + bytes)"
    proof (cases "?vs = []")
      case False
      then obtain v where "v \<in> set ?vs" "limit - bs_usedBytes s + sizes s ?vs < bytes + int (size_at v s)"
        using victims_enough [OF wf refl, of bytes limit rank] by blast
      moreover from this(2) have "limit < bs_usedBytes s' + int (size_at v s) + bytes" using r by linarith
      ultimately show ?thesis using gone by blast
    qed (use r in simp)
    ultimately show ?thesis using r True by auto
  next
    case False
    then have "limit - bs_usedBytes s + sizes s ?vs < bytes" "s' = s"
      using assms(2,3) makeRoom_victims [OF lim wf, of rm rank] by (auto split: if_splits)
    then show ?thesis using victims_enough [OF wf refl, of bytes limit rank] assms(1) False by auto
  qed
qed

text \<open>Two blobs, the second used more recently; room for one more byte than the limit leaves.\<close>

definition sample_store :: blob_store where
  "sample_store = newStore\<lparr>bs_items :=
     [(''b'', \<lparr>bl_size = 5, bl_kind = None, bl_storedAt = 2, bl_lastUsedAt = 0\<rparr>),
      (''a'', \<lparr>bl_size = 4, bl_kind = None, bl_storedAt = 1, bl_lastUsedAt = 0\<rparr>)], bs_usedBytes := 9\<rparr>"

theorem make_room_exact_witness:
  "store_ok sample_store \<and> fst (makeRoom (\<lambda>_. True) 2 10 (\<lambda>k b. Some 0) sample_store) = Room True \<and>
   keys (snd (makeRoom (\<lambda>_. True) 2 10 (\<lambda>k b. Some 0) sample_store)) = {''b''} \<and>
   bs_usedBytes (snd (makeRoom (\<lambda>_. True) 2 10 (\<lambda>k b. Some 0) sample_store)) + 2 \<le> 10"
proof -
  let ?r = "makeRoom (\<lambda>_. True) 2 10 (\<lambda>k b. Some 0) sample_store"
  have ok: "store_ok sample_store" by code_simp
  have res: "fst ?r = Room True" and k: "keys (snd ?r) = {''b''}" by code_simp+
  have "?r = (Room True, snd ?r)" using res by (cases ?r) simp
  from make_room_exact [OF ok this] have "bs_usedBytes (snd ?r) + 2 \<le> 10" by simp
  with ok res k show ?thesis by blast
qed

end
