(* ===== verification/Cache_Server.thy ===== *)
theory Cache_Server
  imports Blob_Store Dns_Server
begin

text \<open>
  What the LAN cache lets in and out: its configuration (\<open>src/src/cache/config.js\<close>), the signed
  release of a blob (\<open>src/src/cache/signature.js\<close>) and the HTTPS endpoint in the LAN
  (\<open>src/src/cache/lanServer.js\<close>). HMAC-SHA256 is an argument, a function from secret and text to
  the hex digest. A request is given as Node and its URL parser deliver it.
\<close>

section \<open>Configuration\<close>

text \<open>An absolute path is the list of its segments; \<open>path.resolve\<close> drops empty ones and dots.\<close>

fun resolve_step :: "string list \<Rightarrow> string \<Rightarrow> string list" where
  "resolve_step acc seg =
     (if seg = [] \<or> seg = ''.'' then acc else if seg = ''..'' then butlast acc else acc @ [seg])"

definition resolve_path :: "string list \<Rightarrow> string \<Rightarrow> string list" where
  "resolve_path rt p =
     foldl resolve_step (if prefix ''/'' p then [] else rt) (split_on CHR ''/'' p)"

definition cacheRoot :: "string option \<Rightarrow> string list" where
  "cacheRoot env = (case env of Some r \<Rightarrow> if prefix ''/'' r then resolve_path [] r else [''cache''] | None \<Rightarrow> [''cache''])"

text \<open>
  \<open>path.relative(root, abs)\<close> starts with two dots when \<open>abs\<close> is not below \<open>root\<close>, and also when
  the first segment below it does.
\<close>

definition safePath :: "json \<Rightarrow> string list \<Rightarrow> string list option" where
  "safePath p rt =
     (case p of
        JUndef \<Rightarrow> Some rt
      | JNull \<Rightarrow> Some rt
      | JStr s \<Rightarrow>
          if s = [] then Some rt
          else if 512 < length s \<or> CHR 0x00 \<in> set s then None
          else let full = resolve_path rt s
            in if full = rt then Some rt
               else if \<not> prefix rt full then None
               else if prefix ''..'' (full ! length rt) then None
               else Some full
      | _ \<Rightarrow> None)"

record cache_kinds =
  ck_drive :: bool
  ck_photos :: bool
  ck_updates :: bool
  ck_vault :: bool

datatype cache_problem = Path_not_allowed | No_secret

record cache_config =
  cc_enabled :: bool
  cc_requested :: bool
  cc_problem :: "cache_problem option"
  cc_path :: "string list"
  cc_root :: "string list"
  cc_maxBytes :: int
  cc_kinds :: cache_kinds
  cc_secret :: "string option"
  cc_port :: int

definition MIN_BYTES :: int where
  "MIN_BYTES = 256 * 1024 * 1024"

definition MAX_BYTES :: int where
  "MAX_BYTES = 64 * 1024 ^ 4"

definition DEFAULT_BYTES :: int where
  "DEFAULT_BYTES = 20 * 1024 ^ 3"

definition DEFAULT_PORT :: int where
  "DEFAULT_PORT = 8443"

definition MAX_SAFE :: int where
  "MAX_SAFE = 9007199254740991"

definition safeInt :: "json \<Rightarrow> int option" where
  "safeInt v = (case intOf v of None \<Rightarrow> None | Some n \<Rightarrow> if \<bar>n\<bar> \<le> MAX_SAFE then Some n else None)"

definition normalizeCache :: "json \<Rightarrow> string list \<Rightarrow> cache_config" where
  "normalizeCache raw rt =
     (let c = members raw; k = members (field c ''kinds'');
          p = safePath (field c ''path'') rt;
          maxBytes = (case safeInt (field c ''maxBytes'') of Some n \<Rightarrow> min MAX_BYTES (max MIN_BYTES n) | None \<Rightarrow> DEFAULT_BYTES);
          secret = (case strOf (field c ''secret'') of Some s \<Rightarrow> if 32 \<le> length s \<and> length s \<le> 512 then Some s else None | None \<Rightarrow> None);
          port = (case intOf (field c ''port'') of Some n \<Rightarrow> if 1024 \<le> n \<and> n \<le> 65535 then n else DEFAULT_PORT | None \<Rightarrow> DEFAULT_PORT);
          requested = (field c ''enabled'' = JBool True);
          problem = (if requested \<and> p = None then Some Path_not_allowed else if requested \<and> secret = None then Some No_secret else None)
      in \<lparr>cc_enabled = requested \<and> problem = None, cc_requested = requested, cc_problem = problem,
          cc_path = (case p of Some q \<Rightarrow> q | None \<Rightarrow> rt), cc_root = rt, cc_maxBytes = maxBytes,
          cc_kinds = \<lparr>ck_drive = boolOr (field k ''drive'') True, ck_photos = boolOr (field k ''photos'') True,
            ck_updates = boolOr (field k ''updates'') True, ck_vault = boolOr (field k ''vault'') False\<rparr>,
          cc_secret = secret, cc_port = port\<rparr>)"

section \<open>Signatures\<close>

definition EXP_RE :: "string \<Rightarrow> bool" where
  "EXP_RE s = re_class is_digit 1 12 s"

definition SIG_RE :: "string \<Rightarrow> bool" where
  "SIG_RE s = re_class is_hex 64 64 s"

definition MAX_AHEAD_S :: int where
  "MAX_AHEAD_S = 600"

definition SKEW_S :: int where
  "SKEW_S = 60"

type_synonym hmac = "string \<Rightarrow> string \<Rightarrow> string"

definition sign :: "hmac \<Rightarrow> string \<Rightarrow> string \<Rightarrow> string \<Rightarrow> string" where
  "sign hmac secret sha ex = hmac secret (sha @ [CHR 0x0A] @ ex)"

text \<open>\<open>Buffer.from(s, 'hex')\<close>: the bytes up to the first pair that is not hexadecimal.\<close>

definition hex_digit :: "char \<Rightarrow> nat" where
  "hex_digit c = (if is_digit c then of_char c - 48 else of_char (lower_char c) - 87)"

fun hex_decode :: "string \<Rightarrow> bytes" where
  "hex_decode (a # b # s) = (if is_hex a \<and> is_hex b then byte_of (16 * hex_digit a + hex_digit b) # hex_decode s else [])"
| "hex_decode _ = []"

datatype verdict = Ok | Bad_request | Expired | Too_far | Bad_signature

definition verify :: "hmac \<Rightarrow> string option \<Rightarrow> string \<Rightarrow> string option \<Rightarrow> string option \<Rightarrow> int \<Rightarrow> verdict" where
  "verify hmac secret sha expo sig nowMs =
     (case (secret, expo, sig) of
        (Some sec, Some ex, Some sg) \<Rightarrow>
          if sec = [] \<or> \<not> BLOB_RE sha then Bad_request
          else if \<not> EXP_RE ex \<or> \<not> SIG_RE sg then Bad_request
          else let e = int (dec_value ex); now = nowMs div 1000
            in if e < now then Expired
               else if now + MAX_AHEAD_S + SKEW_S < e then Too_far
               else if hex_decode (toLower sg) \<noteq> hex_decode (sign hmac sec sha ex) then Bad_signature
               else Ok
      | _ \<Rightarrow> Bad_request)"

section \<open>Ranges\<close>

datatype range = No_range | Invalid | Range int int

definition range_bounds :: "string \<Rightarrow> string \<Rightarrow> int \<Rightarrow> (int \<times> int) option" where
  "range_bounds a b sz =
     (if a = [] then
        (if dec_value b = 0 then None else Some (max 0 (sz - int (dec_value b)), sz - 1))
      else Some (int (dec_value a), if b = [] then sz - 1 else min (int (dec_value b)) (sz - 1)))"

definition parseRange :: "string option \<Rightarrow> int \<Rightarrow> range" where
  "parseRange header sz =
     (case header of
        None \<Rightarrow> No_range
      | Some h \<Rightarrow>
          let t = trim h
          in if \<not> prefix ''bytes='' t then Invalid
             else case split_on CHR ''-'' (drop 6 t) of
                    [a, b] \<Rightarrow>
                      if \<not> list_all is_digit a \<or> \<not> list_all is_digit b \<or> (a = [] \<and> b = []) then Invalid
                      else (case range_bounds a b sz of
                              None \<Rightarrow> Invalid
                            | Some (st, en) \<Rightarrow>
                                if MAX_SAFE < st \<or> MAX_SAFE < \<bar>en\<bar> \<or> en < st \<or> sz \<le> st then Invalid else Range st en)
                  | _ \<Rightarrow> Invalid)"

section \<open>The endpoint\<close>

record blob_request =
  rq_method :: string
  rq_path :: "string option"
  rq_exp :: "string option"
  rq_sig :: "string option"
  rq_range :: "string option"

record cache_counters =
  ct_hits :: nat
  ct_misses :: nat
  ct_bytesServed :: nat
  ct_bytesFetched :: nat
  ct_denied :: nat

definition zeroCounters :: cache_counters where
  "zeroCounters = \<lparr>ct_hits = 0, ct_misses = 0, ct_bytesServed = 0, ct_bytesFetched = 0, ct_denied = 0\<rparr>"

text \<open>A refusal with status and error, or the headers of a blob and whether its bytes follow.\<close>

datatype blob_reply = Refused nat string | Served nat string int int int bool

fun verdict_name :: "verdict \<Rightarrow> string" where
  "verdict_name Expired = ''expired''"
| "verdict_name Too_far = ''too_far''"
| "verdict_name _ = ''bad_signature''"

text \<open>\<open>/^\\/blob\\/([0-9a-f]{64})$/\<close>.\<close>

definition blob_path :: "string \<Rightarrow> string option" where
  "blob_path p = (if prefix ''/blob/'' p \<and> BLOB_RE (drop 6 p) then Some (drop 6 p) else None)"

text \<open>
  The files: whether a blob can be opened and its size (\<open>None\<close> when reading it throws). The
  bytes of the body are counted as they are read (\<open>bytes_read\<close>).
\<close>

definition handle_blob ::
  "hmac \<Rightarrow> string option \<Rightarrow> int \<Rightarrow> (string \<Rightarrow> nat option option) \<Rightarrow> blob_request \<Rightarrow> blob_store \<Rightarrow> cache_counters \<Rightarrow>
   blob_reply \<times> blob_store \<times> cache_counters" where
  "handle_blob hmac secret now file req s ct =
     (if rq_method req \<noteq> ''GET'' \<and> rq_method req \<noteq> ''HEAD'' then (Refused 405 ''method_not_allowed'', s, ct)
      else case rq_path req of
        None \<Rightarrow> (Refused 400 ''bad_request'', s, ct)
      | Some p \<Rightarrow>
          (case blob_path p of
             None \<Rightarrow> (Refused 404 ''not_found'', s, ct)
           | Some sha \<Rightarrow>
               let v = verify hmac secret sha (rq_exp req) (rq_sig req) now
               in if v \<noteq> Ok then (Refused 403 (verdict_name v), s, ct\<lparr>ct_denied := ct_denied ct + 1\<rparr>)
                  else if \<not> has sha s then (Refused 404 ''not_cached'', s, ct\<lparr>ct_misses := ct_misses ct + 1\<rparr>)
                  else (case file sha of
                          None \<Rightarrow> (Refused 404 ''not_cached'', s, ct\<lparr>ct_misses := ct_misses ct + 1\<rparr>)
                        | Some None \<Rightarrow> (Refused 500 ''io'', s, ct)
                        | Some (Some n) \<Rightarrow>
                            let sz = int n; rg = parseRange (rq_range req) sz
                            in if rg = Invalid then (Refused 416 ''range_not_satisfiable'', s, ct)
                               else let st = (case rg of Range a b \<Rightarrow> a | _ \<Rightarrow> 0);
                                        en = (case rg of Range a b \<Rightarrow> b | _ \<Rightarrow> sz - 1)
                                 in (Served (if rg = No_range then 200 else 206) sha st en (if n = 0 then 0 else en - st + 1)
                                       (\<not> (rq_method req = ''HEAD'' \<or> n = 0)),
                                     touch (of_int now) sha s, ct\<lparr>ct_hits := ct_hits ct + 1\<rparr>))))"

definition bytes_read :: "nat \<Rightarrow> cache_counters \<Rightarrow> cache_counters" where
  "bytes_read n ct = ct\<lparr>ct_bytesServed := ct_bytesServed ct + n\<rparr>"

text \<open>\<open>LanBlobServer\<close> binds one socket per address; otherwise it reconciles as the DNS listener does.\<close>

definition lan_reconcile :: "(string \<Rightarrow> string option) \<Rightarrow> (string \<times> nat) list \<Rightarrow> listener \<Rightarrow> listener" where
  "lan_reconcile listen addresses l =
     (let want = foldl (\<lambda>m (a, f). mset_at a f m) [] addresses;
          l1 = l\<lparr>dl_bound := filter (\<lambda>a. a \<in> fst ` set want) (dl_bound l), dl_busy := [], dl_failed := []\<rparr>
      in foldl (bind_one (\<lambda>_ _. None) listen) l1 want)"

section \<open>The store stays below its root\<close>

definition clean_seg :: "string \<Rightarrow> bool" where
  "clean_seg seg = (seg \<noteq> [] \<and> seg \<noteq> ''.'' \<and> seg \<noteq> ''..'')"

lemma resolve_step_clean: "list_all clean_seg acc \<Longrightarrow> list_all clean_seg (resolve_step acc seg)"
  by (cases "seg = ''..''") (auto simp: list_all_iff clean_seg_def dest: in_set_butlastD)

lemma resolve_path_clean: "list_all clean_seg rt \<Longrightarrow> list_all clean_seg (resolve_path rt p)"
  unfolding resolve_path_def
  by (rule foldl_invariant [where Q = "list_all clean_seg"]) (auto intro: resolve_step_clean simp del: resolve_step.simps)

lemma cacheRoot_clean: "list_all clean_seg (cacheRoot env)"
proof -
  have "list_all clean_seg (resolve_path [] r)" for r by (rule resolve_path_clean) simp
  moreover have "list_all clean_seg [''cache'']" by (simp add: clean_seg_def)
  ultimately show ?thesis unfolding cacheRoot_def by (simp split: option.splits)
qed

lemma safePath_below:
  assumes "list_all clean_seg rt" "safePath p rt = Some q"
  shows "prefix rt q \<and> list_all clean_seg q"
  using assms resolve_path_clean [OF assms(1)] by (auto simp: safePath_def Let_def split: json.splits if_splits)

lemma normalizeCache_ok:
  assumes "list_all clean_seg rt"
  shows "let c = normalizeCache raw rt
    in prefix rt (cc_path c) \<and> list_all clean_seg (cc_path c) \<and> MIN_BYTES \<le> cc_maxBytes c \<and> cc_maxBytes c \<le> MAX_BYTES \<and>
       1024 \<le> cc_port c \<and> cc_port c \<le> 65535 \<and> (cc_enabled c \<longleftrightarrow> cc_requested c \<and> cc_problem c = None) \<and>
       (cc_enabled c \<longrightarrow> (\<exists>sec. cc_secret c = Some sec \<and> 32 \<le> length sec \<and> length sec \<le> 512))"
proof -
  have b: "MIN_BYTES \<le> DEFAULT_BYTES" "DEFAULT_BYTES \<le> MAX_BYTES" "MIN_BYTES \<le> MAX_BYTES"
    by (simp_all add: MIN_BYTES_def DEFAULT_BYTES_def MAX_BYTES_def)
  show ?thesis unfolding normalizeCache_def Let_def
    using safePath_below [OF assms] b assms
    by (auto simp: DEFAULT_PORT_def split: option.splits if_splits)
qed

section \<open>Only signed requests are served\<close>

lemma is_hex_lower_range: "is_hex_lower c \<Longrightarrow> (of_char c :: nat) \<in> {48..57} \<union> {97..102}"
  by (auto simp: is_hex_lower_def is_digit_def Let_def)

lemma is_hex_lower_hex: "is_hex_lower c \<Longrightarrow> is_hex c"
  using is_hex_not_sep by (simp add: is_hex_def)

lemma hex_digit_lower:
  assumes "is_hex_lower c"
  shows "hex_digit c < 16 \<and> of_char c = (if hex_digit c < 10 then 48 + hex_digit c else 87 + hex_digit c)"
  using is_hex_lower_range [OF assms] is_hex_not_sep [OF assms] by (auto simp: hex_digit_def is_digit_def)

lemma hex_digit_inj: "is_hex_lower a \<Longrightarrow> is_hex_lower b \<Longrightarrow> hex_digit a = hex_digit b \<Longrightarrow> a = b"
proof -
  assume "is_hex_lower a" "is_hex_lower b" "hex_digit a = hex_digit b"
  then have "(of_char a :: nat) = of_char b" using hex_digit_lower [of a] hex_digit_lower [of b] by metis
  then show ?thesis by simp
qed

lemma hex_byte_inj:
  assumes "x < 16" "y < 16" "x' < 16" "y' < 16" "byte_of (16 * x + y) = byte_of (16 * x' + y')"
  shows "x = x' \<and> y = y'"
proof -
  have "16 * x + y < 256" "16 * x' + y' < 256" using assms by auto
  then have "16 * x + y = 16 * x' + y'" using arg_cong [OF assms(5), of unat] by simp
  then have "(16 * x + y) div 16 = (16 * x' + y') div 16" "(16 * x + y) mod 16 = (16 * x' + y') mod 16" by simp_all
  with assms(1-4) show ?thesis by simp
qed

lemma hex_decode_inj:
  "list_all is_hex_lower a \<Longrightarrow> list_all is_hex_lower b \<Longrightarrow> length a = length b \<Longrightarrow> even (length a) \<Longrightarrow>
   hex_decode a = hex_decode b \<Longrightarrow> a = b"
proof (induction a arbitrary: b rule: hex_decode.induct)
  case (1 x y a)
  then obtain x' y' b' where b: "b = x' # y' # b'" by (cases b; cases "tl b") auto
  have h: "is_hex_lower x" "is_hex_lower y" "is_hex_lower x'" "is_hex_lower y'" using "1.prems" b by auto
  with "1.prems"(5) b have e: "byte_of (16 * hex_digit x + hex_digit y) = byte_of (16 * hex_digit x' + hex_digit y')"
    and t: "hex_decode a = hex_decode b'" by (simp_all add: is_hex_lower_hex)
  have "hex_digit x = hex_digit x' \<and> hex_digit y = hex_digit y'"
    using hex_byte_inj [OF _ _ _ _ e] h hex_digit_lower by blast
  then have "x = x'" "y = y'" using h hex_digit_inj by blast+
  moreover have "a = b'" using "1.IH" [of b'] "1.prems" b t h by (simp add: is_hex_lower_hex)
  ultimately show ?case using b by simp
qed auto

lemma verify_Ok:
  assumes "verify hmac secret sha expo sig now = Ok" and hex: "\<And>k m. re_class is_hex_lower 64 64 (hmac k m)"
  obtains sec ex sg where "secret = Some sec" "expo = Some ex" "sig = Some sg" "BLOB_RE sha"
    "toLower sg = sign hmac sec sha ex" "now div 1000 \<le> int (dec_value ex)" "int (dec_value ex) \<le> now div 1000 + 660"
proof -
  obtain sec ex sg where v: "secret = Some sec" "expo = Some ex" "sig = Some sg" "BLOB_RE sha" "SIG_RE sg"
    "hex_decode (toLower sg) = hex_decode (sign hmac sec sha ex)"
    "now div 1000 \<le> int (dec_value ex)" "int (dec_value ex) \<le> now div 1000 + 660"
    using assms(1) by (auto simp: verify_def Let_def MAX_AHEAD_S_def SKEW_S_def split: option.splits if_splits)
  have "list_all is_hex_lower (toLower sg)" "length sg = 64"
    using v(5) by (auto simp: SIG_RE_def re_class_def toLower_def is_hex_def list_all_iff)
  moreover have "list_all is_hex_lower (sign hmac sec sha ex)" "length (sign hmac sec sha ex) = 64"
    using hex [of sec "sha @ [CHR 0x0A] @ ex"] by (auto simp: sign_def re_class_def)
  ultimately have "toLower sg = sign hmac sec sha ex" using v(6) by (intro hex_decode_inj) auto
  with v that show thesis by blast
qed

lemma parseRange_bounds:
  assumes "parseRange h (int n) = Range st en"
  shows "0 \<le> st \<and> st \<le> en \<and> en < int n"
proof -
  obtain a b where "range_bounds a b (int n) = Some (st, en)" "st \<le> en" "st < int n"
    using assms by (auto simp: parseRange_def Let_def split: option.splits list.splits if_splits)
  then show ?thesis by (auto simp: range_bounds_def split: if_splits)
qed

text \<open>
  C34. A blob leaves the gateway only for a request that the server released: by \<open>GET\<close> or \<open>HEAD\<close> on
  the blob's own path, signed over its hash and expiry with the shared secret, not expired and at
  most eleven minutes ahead, for a blob in the store. What is sent is a part of the file, its
  announced length is exact, and apart from the blob's time of last use and the hit counter the
  request changes nothing; a refused request changes at most one counter and never the store.
\<close>

theorem only_signed_blobs_are_served:
  assumes "handle_blob hmac secret now file req s ct = (reply, s', ct')"
    and "\<And>k m. re_class is_hex_lower 64 64 (hmac k m)"
  shows "(case reply of
      Refused status err \<Rightarrow> s' = s \<and> ct_hits ct' = ct_hits ct \<and> ct_denied ct' + ct_misses ct' \<le> ct_denied ct + ct_misses ct + 1
    | Served status sha st en len body \<Rightarrow>
        rq_method req \<in> {''GET'', ''HEAD''} \<and> rq_path req = Some (''/blob/'' @ sha) \<and> has sha s \<and>
        (\<exists>sec ex sg. secret = Some sec \<and> rq_exp req = Some ex \<and> rq_sig req = Some sg \<and>
           toLower sg = hmac sec (sha @ [CHR 0x0A] @ ex) \<and>
           now div 1000 \<le> int (dec_value ex) \<and> int (dec_value ex) \<le> now div 1000 + 660) \<and>
        (\<exists>n. file sha = Some (Some n) \<and>
           (if n = 0 then len = 0 \<and> \<not> body else 0 \<le> st \<and> st \<le> en \<and> en < int n \<and> len = en - st + 1)) \<and>
        s' = touch (of_int now) sha s \<and> ct' = ct\<lparr>ct_hits := ct_hits ct + 1\<rparr>)"
proof (cases reply)
  case (Refused status err)
  with assms(1) show ?thesis
    by (auto simp: handle_blob_def Let_def split: option.splits if_splits)
next
  case (Served status sha st en len body)
  have v: "verify hmac secret sha (rq_exp req) (rq_sig req) now = Ok"
    and p: "rq_method req \<in> {''GET'', ''HEAD''}" "rq_path req = Some (''/blob/'' @ sha)" "has sha s"
    and s: "s' = touch (of_int now) sha s" "ct' = ct\<lparr>ct_hits := ct_hits ct + 1\<rparr>"
    using assms(1) Served
    by (auto simp: handle_blob_def blob_path_def Let_def prefix_def split: option.splits if_splits)
  obtain n where n: "file sha = Some (Some n)" and r: "parseRange (rq_range req) (int n) \<noteq> Invalid"
    "st = (case parseRange (rq_range req) (int n) of Range a b \<Rightarrow> a | _ \<Rightarrow> 0)"
    "en = (case parseRange (rq_range req) (int n) of Range a b \<Rightarrow> b | _ \<Rightarrow> int n - 1)"
    "len = (if n = 0 then 0 else en - st + 1)" "body = (\<not> (rq_method req = ''HEAD'' \<or> n = 0))"
    using assms(1) Served by (auto simp: handle_blob_def Let_def split: option.splits if_splits)
  have "0 \<le> st \<and> st \<le> en \<and> en < int n" if "n \<noteq> 0"
    using r that parseRange_bounds [of "rq_range req" n] by (cases "parseRange (rq_range req) (int n)") auto
  moreover obtain sec ex sg where "secret = Some sec" "rq_exp req = Some ex" "rq_sig req = Some sg"
      "toLower sg = hmac sec (sha @ [CHR 0x0A] @ ex)" "now div 1000 \<le> int (dec_value ex)" "int (dec_value ex) \<le> now div 1000 + 660"
    using verify_Ok [OF v assms(2)] unfolding sign_def by metis
  ultimately show ?thesis using Served p s n r(4,5) by auto
qed

text \<open>A store with one blob and a request for two of its bytes, signed by a constant digest.\<close>

definition sample_sha :: string where
  "sample_sha = replicate 64 CHR ''0''"

definition sample_cache :: blob_store where
  "sample_cache = newStore\<lparr>bs_items := [(sample_sha, \<lparr>bl_size = 5, bl_kind = None, bl_storedAt = 2, bl_lastUsedAt = 0\<rparr>)], bs_usedBytes := 5\<rparr>"

definition sample_request :: blob_request where
  "sample_request = \<lparr>rq_method = ''GET'', rq_path = Some (''/blob/'' @ sample_sha), rq_exp = Some ''60'',
     rq_sig = Some (replicate 64 CHR ''A''), rq_range = Some ''bytes=1-2''\<rparr>"

theorem only_signed_blobs_are_served_witness:
  "fst (handle_blob (\<lambda>k m. replicate 64 CHR ''a'') (Some ''secret'') 5000 (\<lambda>_. Some (Some 5)) sample_request sample_cache zeroCounters) =
     Served 206 sample_sha 1 2 2 True \<and>
   snd (snd (handle_blob (\<lambda>k m. replicate 64 CHR ''a'') (Some ''secret'') 5000 (\<lambda>_. Some (Some 5)) sample_request sample_cache zeroCounters)) =
     zeroCounters\<lparr>ct_hits := 1\<rparr>"
proof -
  let ?r = "handle_blob (\<lambda>k m. replicate 64 CHR ''a'') (Some ''secret'') 5000 (\<lambda>_. Some (Some 5)) sample_request sample_cache zeroCounters"
  have f: "fst ?r = Served 206 sample_sha 1 2 2 True" by code_simp
  have hex: "re_class is_hex_lower 64 64 (replicate 64 CHR ''a'')" by code_simp
  obtain s' ct' where r: "?r = (Served 206 sample_sha 1 2 2 True, s', ct')" using f by (cases ?r) auto
  from only_signed_blobs_are_served [OF r hex] have "ct' = zeroCounters\<lparr>ct_hits := 1\<rparr>" by (simp add: zeroCounters_def)
  with r show ?thesis by simp
qed

end
