(* ===== verification/Home_Cache.thy ===== *)
theory Home_Cache
  imports Cache_Server
begin

text \<open>
  The LAN cache's manager: the server's list of wanted blobs (\<open>src/src/cache/fetcher.js\<close>), fetching
  what is missing within the limit, and the reports that keep the server's inventory
  (\<open>src/src/cache/cache.js\<close>). Downloads, file operations and posts are given by their outcomes.
\<close>

section \<open>The wanted blobs\<close>

definition MAX_WANT_ITEMS :: nat where
  "MAX_WANT_ITEMS = 20000"

definition MAX_BLOB :: int where
  "MAX_BLOB = 64 * 1024 ^ 3"

definition KIND_RE :: "string \<Rightarrow> bool" where
  "KIND_RE s = re_first is_lower (\<lambda>c. is_lower c \<or> is_digit c \<or> c = CHR ''_'' \<or> c = CHR ''-'') 15 s"

record want_item =
  wi_sha :: string
  wi_size :: nat
  wi_kind :: string
  wi_priority :: rat

definition want_of :: "json \<Rightarrow> want_item option" where
  "want_of x =
     (let m = members x; sha = (case strOf (field m ''sha256'') of Some t \<Rightarrow> toLower t | None \<Rightarrow> [])
      in if \<not> BLOB_RE sha then None
         else case (safeInt (field m ''size''), strOf (field m ''kind'')) of
                (Some n, Some k) \<Rightarrow>
                  if n \<le> 0 \<or> MAX_BLOB < n \<or> \<not> KIND_RE k then None
                  else Some \<lparr>wi_sha = sha, wi_size = nat n, wi_kind = k,
                    wi_priority = (case field m ''priority'' of JNum r \<Rightarrow> r | _ \<Rightarrow> 0)\<rparr>
              | _ \<Rightarrow> None)"

definition want_step :: "want_item list \<Rightarrow> json \<Rightarrow> want_item list" where
  "want_step out x =
     (case want_of x of
        None \<Rightarrow> out
      | Some w \<Rightarrow> if wi_sha w \<in> wi_sha ` set out then out else out @ [w])"

definition parseWant :: "json \<Rightarrow> want_item list option" where
  "parseWant data =
     (let arr = (case data of
                   JArr vs \<Rightarrow> Some vs
                 | _ \<Rightarrow> (case field (members data) ''items'' of
                          JArr vs \<Rightarrow> Some vs
                        | _ \<Rightarrow> (case field (members data) ''want'' of JArr vs \<Rightarrow> Some vs | _ \<Rightarrow> None)))
      in map_option (\<lambda>vs. foldl want_step [] (take MAX_WANT_ITEMS vs)) arr)"

section \<open>Fetching what is missing\<close>

definition RESERVE_BYTES :: int where
  "RESERVE_BYTES = 512 * 1024 * 1024"

definition effectiveMax :: "int \<Rightarrow> int option \<Rightarrow> int \<Rightarrow> int" where
  "effectiveMax maxBytes free used =
     (case free of None \<Rightarrow> maxBytes | Some f \<Rightarrow> max 0 (min maxBytes (used + f - RESERVE_BYTES)))"

definition kind_wanted :: "cache_kinds \<Rightarrow> string \<Rightarrow> bool" where
  "kind_wanted ks k =
     (k = ''drive'' \<and> ck_drive ks \<or> k = ''photos'' \<and> ck_photos ks \<or> k = ''updates'' \<and> ck_updates ks \<or> k = ''vault'' \<and> ck_vault ks)"

definition sync_want :: "cache_kinds \<Rightarrow> want_item list \<Rightarrow> want_item list" where
  "sync_want ks ws = sort_key (\<lambda>w. - wi_priority w) (filter (\<lambda>w. kind_wanted ks (wi_kind w)) ws)"

definition prio_of :: "want_item list \<Rightarrow> string \<Rightarrow> rat option" where
  "prio_of want = map_of (map (\<lambda>w. (wi_sha w, wi_priority w)) want)"

text \<open>Blobs that are no longer wanted go first, then those of lower priority; the others are protected.\<close>

definition evict_rank :: "want_item list \<Rightarrow> want_item \<Rightarrow> string \<Rightarrow> blob \<Rightarrow> rat option" where
  "evict_rank want w sha b =
     (case prio_of want sha of
        None \<Rightarrow> Some (- 1000000000000000)
      | Some p \<Rightarrow> if p < wi_priority w then Some p else None)"

datatype fetch_error = Aborted | Fetch_failed string

text \<open>
  The outcomes for one wanted blob: whether the store was replaced or the cache switched off,
  the configured limit at that time, the free disk space, deleting files, the download, the
  rename and the time.
\<close>

record fetch_world =
  fw_stop :: bool
  fw_maxBytes :: int
  fw_free :: "int option"
  fw_rm :: "string \<Rightarrow> bool"
  fw_blob :: "fetch_error + nat"
  fw_renamed :: bool
  fw_now :: rat

record sync_state =
  sy_store :: blob_store
  sy_bytesFetched :: nat
  sy_fetchedAny :: bool
  sy_failures :: "string list"

text \<open>
  The body of the loop over the wanted blobs, for one of them: it goes on with the next one or
  ends the loop, with \<open>False\<close> when an exception leaves it.
\<close>

datatype turn = Next sync_state | Leave bool sync_state

definition fetch_failed :: "string \<Rightarrow> sync_state \<Rightarrow> turn" where
  "fetch_failed code st =
     (let st1 = st\<lparr>sy_failures := sy_failures st @ [code]\<rparr>
      in if 3 \<le> length (sy_failures st1) then Leave True st1 else Next st1)"

definition sync_item :: "want_item list \<Rightarrow> fetch_world \<Rightarrow> want_item \<Rightarrow> sync_state \<Rightarrow> turn" where
  "sync_item want fw w st =
     (let s = sy_store st
      in if fw_stop fw then Leave True st
         else if has (wi_sha w) s then Next st
         else let limit = effectiveMax (fw_maxBytes fw) (fw_free fw) (bs_usedBytes s)
           in if limit < int (wi_size w) then Next st
              else (case makeRoom (fw_rm fw) (int (wi_size w)) limit (evict_rank want w) s of
                      (Room_error, s1) \<Rightarrow> Leave False (st\<lparr>sy_store := s1\<rparr>)
                    | (Room False, s1) \<Rightarrow> Next (st\<lparr>sy_store := s1\<rparr>)
                    | (Room True, s1) \<Rightarrow>
                        (case fw_blob fw of
                           Inl Aborted \<Rightarrow> Leave True (st\<lparr>sy_store := s1\<rparr>)
                         | Inl (Fetch_failed code) \<Rightarrow> fetch_failed code (st\<lparr>sy_store := s1\<rparr>)
                         | Inr n \<Rightarrow>
                             let st1 = st\<lparr>sy_store := s1, sy_bytesFetched := sy_bytesFetched st + n\<rparr>
                             in (case commit (fw_renamed fw) (fw_now fw) (wi_sha w) (wi_size w) (wi_kind w) s1 of
                                   None \<Rightarrow> fetch_failed ''error'' st1
                                 | Some s2 \<Rightarrow> Next (st1\<lparr>sy_store := s2, sy_fetchedAny := True\<rparr>)))))"

fun sync_loop ::
  "want_item list \<Rightarrow> (string \<Rightarrow> fetch_world) \<Rightarrow> want_item list \<Rightarrow> sync_state \<Rightarrow> bool \<times> sync_state" where
  "sync_loop want world [] st = (True, st)"
| "sync_loop want world (w # ws) st =
     (case sync_item want (world (wi_sha w)) w st of
        Leave ok st' \<Rightarrow> (ok, st')
      | Next st' \<Rightarrow> sync_loop want world ws st')"

section \<open>Reports\<close>

definition MAX_HAVE :: nat where
  "MAX_HAVE = 5000"

definition FULL_EVERY_MS :: int where
  "FULL_EVERY_MS = 6 * 3600000"

record home_cache =
  hc_store :: blob_store
  hc_counters :: cache_counters
  hc_periodFrom :: int
  hc_lastReportAt :: "int option"
  hc_lastFullAt :: int
  hc_needFull :: bool

record cache_report =
  cr_full :: bool
  cr_have :: "string list"
  cr_gone :: "string list"
  cr_usedBytes :: int
  cr_items :: nat
  cr_counters :: cache_counters
  cr_from :: int
  cr_to :: int

text \<open>What a report takes at its beginning, and the state it leaves: counters reset, period restarted.\<close>

record report_snapshot =
  rs_full :: bool
  rs_added :: "string list"
  rs_removed :: "string list"
  rs_counters :: cache_counters
  rs_from :: int
  rs_to :: int

definition report_begin :: "int \<Rightarrow> home_cache \<Rightarrow> report_snapshot \<times> home_cache" where
  "report_begin now h =
     (let full = (hc_needFull h \<or> FULL_EVERY_MS \<le> now - hc_lastFullAt h); s = hc_store h
      in (\<lparr>rs_full = full, rs_added = (if full then map fst (bs_items s) else bs_added s),
           rs_removed = (if full then [] else bs_removed s), rs_counters = hc_counters h,
           rs_from = hc_periodFrom h, rs_to = now\<rparr>,
          h\<lparr>hc_counters := zeroCounters, hc_periodFrom := now\<rparr>))"

definition slice :: "nat \<Rightarrow> 'a list \<Rightarrow> 'a list" where
  "slice i xs = take MAX_HAVE (drop (i * MAX_HAVE) xs)"

definition chunk_count :: "report_snapshot \<Rightarrow> nat" where
  "chunk_count r =
     max 1 (max ((length (rs_added r) + MAX_HAVE - 1) div MAX_HAVE) ((length (rs_removed r) + MAX_HAVE - 1) div MAX_HAVE))"

definition cache_body :: "report_snapshot \<Rightarrow> blob_store \<Rightarrow> nat \<Rightarrow> cache_report" where
  "cache_body r s i =
     \<lparr>cr_full = (rs_full r \<and> i = 0), cr_have = slice i (rs_added r), cr_gone = slice i (rs_removed r),
      cr_usedBytes = bs_usedBytes s, cr_items = length (bs_items s),
      cr_counters = (if i = 0 then rs_counters r else zeroCounters), cr_from = rs_from r, cr_to = rs_to r\<rparr>"

definition add_counters :: "cache_counters \<Rightarrow> cache_counters \<Rightarrow> cache_counters" where
  "add_counters a b =
     \<lparr>ct_hits = ct_hits a + ct_hits b, ct_misses = ct_misses a + ct_misses b, ct_bytesServed = ct_bytesServed a + ct_bytesServed b,
      ct_bytesFetched = ct_bytesFetched a + ct_bytesFetched b, ct_denied = ct_denied a + ct_denied b\<rparr>"

definition report_end :: "report_snapshot \<Rightarrow> bool \<Rightarrow> bool \<Rightarrow> bool \<Rightarrow> home_cache \<Rightarrow> home_cache" where
  "report_end r firstOk ok written h =
     (let h1 = (if firstOk then h else h\<lparr>hc_counters := add_counters (hc_counters h) (rs_counters r), hc_periodFrom := rs_from r\<rparr>);
          s = hc_store h1;
          h2 = (if ok then
                  (if rs_full r
                   then h1\<lparr>hc_needFull := False, hc_lastFullAt := rs_to r, hc_store := s\<lparr>bs_added := [], bs_removed := []\<rparr>,
                        hc_lastReportAt := Some (rs_to r)\<rparr>
                   else h1\<lparr>hc_store := s\<lparr>bs_added := foldl (\<lambda>xs x. set_delete x xs) (bs_added s) (rs_added r),
                          bs_removed := foldl (\<lambda>xs x. set_delete x xs) (bs_removed s) (rs_removed r)\<rparr>,
                        hc_lastReportAt := Some (rs_to r)\<rparr>)
                else h1\<lparr>hc_needFull := True\<rparr>)
      in h2\<lparr>hc_store := persist written (hc_store h2)\<rparr>)"

text \<open>
  A report under way: what it took at its beginning, the chunk that is being posted, and the body
  sent. It starts by posting the first chunk; with each answer it posts the next one or ends.
\<close>

record flight =
  fl_r :: report_snapshot
  fl_i :: nat
  fl_body :: cache_report

definition report_start :: "int \<Rightarrow> home_cache \<Rightarrow> flight \<times> home_cache" where
  "report_start now h =
     (case report_begin now h of
        (r, h1) \<Rightarrow> (\<lparr>fl_r = r, fl_i = 0, fl_body = cache_body r (hc_store h1) 0\<rparr>, h1))"

definition report_answered :: "bool \<Rightarrow> bool \<Rightarrow> flight \<Rightarrow> home_cache \<Rightarrow> flight option \<times> home_cache" where
  "report_answered ok written f h =
     (let i = fl_i f + 1
      in if ok \<and> i < chunk_count (fl_r f)
         then (Some (f\<lparr>fl_i := i, fl_body := cache_body (fl_r f) (hc_store h) i\<rparr>), h)
         else (None, report_end (fl_r f) (ok \<or> fl_i f \<noteq> 0) ok written h))"

text \<open>The manager's own operations; \<open>clear\<close> is refused when the cache is off.\<close>

definition cache_clear_all :: "(string \<Rightarrow> bool) \<Rightarrow> bool \<Rightarrow> home_cache \<Rightarrow> home_cache" where
  "cache_clear_all rm written h =
     (case clear_store rm written (hc_store h) of
        (ok, s) \<Rightarrow> if ok then h\<lparr>hc_store := s, hc_needFull := True\<rparr> else h\<lparr>hc_store := s\<rparr>)"

section \<open>The list of wanted blobs is sound\<close>

lemma parseWant_ok:
  assumes "parseWant data = Some ws"
  shows "distinct (map wi_sha ws) \<and> (\<forall>w \<in> set ws. BLOB_RE (wi_sha w) \<and> 0 < wi_size w \<and> int (wi_size w) \<le> MAX_BLOB)"
proof -
  let ?Q = "\<lambda>ws. distinct (map wi_sha ws) \<and> (\<forall>w \<in> set ws. BLOB_RE (wi_sha w) \<and> 0 < wi_size w \<and> int (wi_size w) \<le> MAX_BLOB)"
  have step: "?Q (want_step out x)" if "?Q out" for out x
  proof (cases "want_of x")
    case (Some w)
    then have "BLOB_RE (wi_sha w) \<and> 0 < wi_size w \<and> int (wi_size w) \<le> MAX_BLOB"
      by (auto simp: want_of_def Let_def split: option.splits if_splits)
    with that Some show ?thesis by (auto simp: want_step_def)
  qed (simp add: that want_step_def)
  have "?Q (foldl want_step [] vs)" for vs
    by (rule foldl_invariant [where Q = ?Q]) (simp, rule step)
  with assms show ?thesis by (auto simp: parseWant_def Let_def)
qed

section \<open>Fetching keeps to the limit and the priorities\<close>

lemma prio_of_mem: "distinct (map wi_sha want) \<Longrightarrow> w \<in> set want \<Longrightarrow> prio_of want (wi_sha w) = Some (wi_priority w)"
  by (auto simp: prio_of_def intro!: map_of_is_SomeI simp: o_def)

lemma protected:
  "victim_key (evict_rank want w) s v \<noteq> None \<Longrightarrow> prio_of want v = Some p \<Longrightarrow> p < wi_priority w"
  by (auto simp: victim_key_def evict_rank_def split: option.splits if_splits)

lemma effectiveMax_le: "0 \<le> maxBytes \<Longrightarrow> effectiveMax maxBytes free used \<le> maxBytes"
  by (auto simp: effectiveMax_def split: option.splits)

text \<open>
  What one turn of the loop, for the item \<open>w\<close>, does to the store: it stays sound, grows at most up
  to the limit, gains at most this blob, and loses a blob only when \<open>w\<close> was missing, a wanted one
  only when its priority is lower than that of \<open>w\<close>.
\<close>

definition turn_ok :: "int \<Rightarrow> want_item list \<Rightarrow> want_item \<Rightarrow> blob_store \<Rightarrow> blob_store \<Rightarrow> bool" where
  "turn_ok mx want w s s' =
     (store_ok s' \<and> bs_usedBytes s' \<le> max (bs_usedBytes s) mx \<and> keys s' \<subseteq> insert (wi_sha w) (keys s) \<and>
      (\<forall>v \<in> keys s - keys s'. \<not> has (wi_sha w) s \<and> (\<forall>p. prio_of want v = Some p \<longrightarrow> p < wi_priority w)))"

lemma turn_ok_refl: "store_ok s \<Longrightarrow> turn_ok mx want w s s"
  by (auto simp: turn_ok_def)

lemma turn_ok_room:
  assumes "store_ok s" "\<not> has (wi_sha w) s" "makeRoom rm bytes limit (evict_rank want w) s = (res, s')"
  shows "turn_ok mx want w s s'"
proof -
  note k = makeRoom_keeps [OF assms(1,3)]
  have "p < wi_priority w" if "v \<in> keys s - keys s'" "prio_of want v = Some p" for v p
    using protected [of want w s v p] k that by blast
  with k assms(2) show ?thesis unfolding turn_ok_def by auto
qed

lemma turn_ok_commit:
  assumes "store_ok s" "\<not> has (wi_sha w) s"
    and "makeRoom rm (int (wi_size w)) limit (evict_rank want w) s = (Room True, s1)"
    and "commit rn now (wi_sha w) (wi_size w) kind s1 = Some s2" "limit \<le> mx"
  shows "turn_ok mx want w s s2"
proof -
  have r: "turn_ok mx want w s s1" by (rule turn_ok_room [OF assms(1-3)])
  have k: "store_ok s1" "keys s1 \<subseteq> keys s" using makeRoom_keeps [OF assms(1,3)] by auto
  have fits: "bs_usedBytes s1 + int (wi_size w) \<le> limit" by (rule makeRoom_fits [OF assms(1,3)])
  have "\<not> has (wi_sha w) s1" using assms(2) k(2) by (auto simp: has_def)
  from commit_used [OF this assms(4)] commit_ok [OF k(1) assms(4)] fits assms(5) r k(2) show ?thesis
    unfolding turn_ok_def by auto
qed

primrec turn_state :: "turn \<Rightarrow> sync_state" where
  "turn_state (Next st) = st"
| "turn_state (Leave ok st) = st"

lemma fetch_failed_store [simp]: "sy_store (turn_state (fetch_failed code st)) = sy_store st"
  by (simp add: fetch_failed_def Let_def)

lemma sync_turn:
  assumes "store_ok (sy_store st)" "0 \<le> fw_maxBytes fw"
  shows "turn_ok (fw_maxBytes fw) want w (sy_store st) (sy_store (turn_state (sync_item want fw w st)))"
proof -
  let ?s = "sy_store st"
  let ?limit = "effectiveMax (fw_maxBytes fw) (fw_free fw) (bs_usedBytes ?s)"
  have lim: "?limit \<le> fw_maxBytes fw" by (rule effectiveMax_le [OF assms(2)])
  show ?thesis
  proof (cases "fw_stop fw \<or> has (wi_sha w) ?s \<or> ?limit < int (wi_size w)")
    case True
    with assms(1) show ?thesis by (auto simp: sync_item_def Let_def turn_ok_refl)
  next
    case False
    then have miss: "\<not> has (wi_sha w) ?s" by simp
    obtain res s1 where r: "makeRoom (fw_rm fw) (int (wi_size w)) ?limit (evict_rank want w) ?s = (res, s1)"
      by (cases "makeRoom (fw_rm fw) (int (wi_size w)) ?limit (evict_rank want w) ?s")
    have s1: "turn_ok (fw_maxBytes fw) want w ?s s1" by (rule turn_ok_room [OF assms(1) miss r])
    have stored: "turn_ok (fw_maxBytes fw) want w ?s s2"
      if "res = Room True" "commit (fw_renamed fw) (fw_now fw) (wi_sha w) (wi_size w) (wi_kind w) s1 = Some s2" for s2
      using turn_ok_commit [OF assms(1) miss _ that(2) lim] r that(1) by blast
    show ?thesis
      using False r s1 stored
      by (auto simp: sync_item_def Let_def split: room.splits bool.splits sum.splits fetch_error.splits option.splits)
  qed
qed

text \<open>The run over one item more: the loop had ended before, or it takes one turn more.\<close>

lemma sync_loop_snoc:
  "snd (sync_loop want world (ws @ [w]) st) = snd (sync_loop want world ws st) \<or>
   snd (sync_loop want world (ws @ [w]) st) =
     turn_state (sync_item want (world (wi_sha w)) w (snd (sync_loop want world ws st)))"
  by (induction ws arbitrary: st) (auto split: turn.split)

text \<open>The store after the first \<open>n\<close> items of the list.\<close>

definition store_after :: "want_item list \<Rightarrow> (string \<Rightarrow> fetch_world) \<Rightarrow> sync_state \<Rightarrow> nat \<Rightarrow> blob_store" where
  "store_after want world st n = sy_store (snd (sync_loop want world (take n want) st))"

lemma store_after_turns:
  assumes "store_ok (sy_store st)" "\<forall>w \<in> set want. 0 \<le> fw_maxBytes (world (wi_sha w))"
  shows "n \<le> length want \<Longrightarrow> store_ok (store_after want world st n) \<and>
    (\<forall>k < n. turn_ok (fw_maxBytes (world (wi_sha (want ! k)))) want (want ! k)
       (store_after want world st k) (store_after want world st (Suc k)))"
proof (induction n)
  case 0
  then show ?case using assms(1) by (simp add: store_after_def)
next
  case (Suc n)
  let ?w = "want ! n"
  have t: "take (Suc n) want = take n want @ [?w]" using Suc.prems by (simp add: take_Suc_conv_app_nth)
  have ok: "store_ok (sy_store (snd (sync_loop want world (take n want) st)))" using Suc by (simp add: store_after_def)
  have "0 \<le> fw_maxBytes (world (wi_sha ?w))" using assms(2) Suc.prems by simp
  from sync_turn [OF ok this, of want ?w] turn_ok_refl [OF ok] sync_loop_snoc [of want world "take n want" ?w st]
  have "turn_ok (fw_maxBytes (world (wi_sha ?w))) want ?w (store_after want world st n) (store_after want world st (Suc n))"
    unfolding store_after_def t by metis
  with Suc show ?case by (auto simp: less_Suc_eq turn_ok_def)
qed

text \<open>
  C35. Fetching the wanted blobs, turn by turn over the list, whatever downloads, file operations
  and changes of the configured limit do: the turn of an item lets the store grow at most to the
  limit in force, and takes a blob out only when the item's own blob is missing, a wanted blob
  only when its priority is strictly lower than the priority of this item; the index and its byte
  count stay exact. So a whole run never takes the store over a bound on the limits when it was
  within it.
\<close>

theorem sync_respects_limit_and_priorities:
  assumes "parseWant data = Some ws" "store_ok (sy_store st)" "want = sync_want ks ws"
    and "\<forall>w \<in> set want. 0 \<le> fw_maxBytes (world (wi_sha w))"
    and "sync_loop want world want st = (ok, st')"
  shows "(\<forall>n < length want. let w = want ! n; s = store_after want world st n; s' = store_after want world st (Suc n)
       in store_ok s' \<and> bs_usedBytes s' \<le> max (bs_usedBytes s) (fw_maxBytes (world (wi_sha w))) \<and>
          keys s' \<subseteq> insert (wi_sha w) (keys s) \<and>
          (\<forall>v \<in> keys s - keys s'. \<not> has (wi_sha w) s) \<and>
          (\<forall>x \<in> set want. has (wi_sha x) s \<longrightarrow> \<not> has (wi_sha x) s' \<longrightarrow> wi_priority x < wi_priority w)) \<and>
    sy_store st = store_after want world st 0 \<and> sy_store st' = store_after want world st (length want) \<and>
    (\<forall>mx. bs_usedBytes (sy_store st) \<le> mx \<longrightarrow> (\<forall>w \<in> set want. fw_maxBytes (world (wi_sha w)) \<le> mx) \<longrightarrow>
       bs_usedBytes (sy_store st') \<le> mx)"
proof -
  have "mset (map wi_sha want) = mset (map wi_sha (filter (\<lambda>w. kind_wanted ks (wi_kind w)) ws))"
    by (simp only: sync_want_def mset_map mset_sort assms(3))
  moreover have "distinct (map wi_sha (filter (\<lambda>w. kind_wanted ks (wi_kind w)) ws))"
    using parseWant_ok [OF assms(1)] by (simp add: distinct_map_filter)
  ultimately have d: "distinct (map wi_sha want)" using mset_eq_imp_distinct_iff by blast
  let ?s = "store_after want world st"
  have turns: "turn_ok (fw_maxBytes (world (wi_sha (want ! n)))) want (want ! n) (?s n) (?s (Suc n))" if "n < length want" for n
    using store_after_turns [OF assms(2,4), of "length want"] that by simp
  have ends: "sy_store st = ?s 0" "sy_store st' = ?s (length want)" using assms(5) by (simp_all add: store_after_def)
  have bound: "bs_usedBytes (?s n) \<le> mx"
    if "bs_usedBytes (sy_store st) \<le> mx" "\<forall>w \<in> set want. fw_maxBytes (world (wi_sha w)) \<le> mx" "n \<le> length want" for mx n
    using that(3)
  proof (induction n)
    case (Suc n)
    then have "bs_usedBytes (?s (Suc n)) \<le> max (bs_usedBytes (?s n)) (fw_maxBytes (world (wi_sha (want ! n))))"
      using turns [of n] by (simp add: turn_ok_def)
    moreover have "fw_maxBytes (world (wi_sha (want ! n))) \<le> mx" using that(2) Suc.prems by simp
    ultimately show ?case using Suc by (auto simp: max_def split: if_splits)
  qed (use that(1) ends in simp)
  have prio: "wi_priority x < wi_priority (want ! n)"
    if "n < length want" "x \<in> set want" "has (wi_sha x) (?s n)" "\<not> has (wi_sha x) (?s (Suc n))" for n x
    using turns [OF that(1)] that(2-4) prio_of_mem [OF d that(2)] unfolding turn_ok_def has_def by blast
  have turn: "let w = want ! n; s = ?s n; s' = ?s (Suc n)
       in store_ok s' \<and> bs_usedBytes s' \<le> max (bs_usedBytes s) (fw_maxBytes (world (wi_sha w))) \<and>
          keys s' \<subseteq> insert (wi_sha w) (keys s) \<and> (\<forall>v \<in> keys s - keys s'. \<not> has (wi_sha w) s) \<and>
          (\<forall>x \<in> set want. has (wi_sha x) s \<longrightarrow> \<not> has (wi_sha x) s' \<longrightarrow> wi_priority x < wi_priority w)"
    if n: "n < length want" for n
    using turns [OF n] prio [OF n] unfolding Let_def turn_ok_def by (intro conjI ballI impI) (elim conjE, assumption | blast)+
  show ?thesis
  proof (intro conjI allI impI)
    show "bs_usedBytes (sy_store st') \<le> mx"
      if "bs_usedBytes (sy_store st) \<le> mx" "\<forall>w \<in> set want. fw_maxBytes (world (wi_sha w)) \<le> mx" for mx
      using bound [OF that, of "length want"] ends(2) by simp
  qed (rule turn ends, assumption?)+
qed

definition sample_want :: json where
  "sample_want = JArr [JObj [(''sha256'', JStr (replicate 64 CHR ''1'')), (''size'', JNum 6), (''kind'', JStr ''drive''), (''priority'', JNum 9)],
     JObj [(''sha256'', JStr sample_sha), (''size'', JNum 5), (''kind'', JStr ''drive''), (''priority'', JNum 1)]]"

definition sample_world :: fetch_world where
  "sample_world = \<lparr>fw_stop = False, fw_maxBytes = 10, fw_free = None, fw_rm = (\<lambda>_. True), fw_blob = Inr 6, fw_renamed = True, fw_now = 3\<rparr>"

definition sample_sync :: sync_state where
  "sample_sync = \<lparr>sy_store = sample_cache, sy_bytesFetched = 0, sy_fetchedAny = False, sy_failures = []\<rparr>"

definition all_kinds :: cache_kinds where
  "all_kinds = \<lparr>ck_drive = True, ck_photos = True, ck_updates = True, ck_vault = True\<rparr>"

theorem sync_respects_limit_and_priorities_witness:
  "\<exists>ws ok st'. parseWant sample_want = Some ws \<and> length ws = 2 \<and>
     sync_loop (sync_want all_kinds ws) (\<lambda>_. sample_world) (sync_want all_kinds ws) sample_sync = (ok, st') \<and>
     has (replicate 64 CHR ''1'') (sy_store st') \<and> bs_usedBytes (sy_store st') \<le> 10"
proof -
  let ?ws = "the (parseWant sample_want)"
  let ?r = "sync_loop (sync_want all_kinds ?ws) (\<lambda>_. sample_world) (sync_want all_kinds ?ws) sample_sync"
  have p: "parseWant sample_want \<noteq> None" and l: "length ?ws = 2" and h: "has (replicate 64 CHR ''1'') (sy_store (snd ?r))"
    and o: "store_ok (sy_store sample_sync)" and u: "bs_usedBytes (sy_store sample_sync) \<le> 10"
    by code_simp+
  from p have w: "parseWant sample_want = Some ?ws" by simp
  have r: "?r = (fst ?r, snd ?r)" by simp
  have m: "fw_maxBytes sample_world = 10" by (simp add: sample_world_def)
  have "\<forall>w \<in> set (sync_want all_kinds ?ws). 0 \<le> fw_maxBytes sample_world" by (simp add: m)
  from sync_respects_limit_and_priorities [OF w o refl this r]
  have "\<forall>mx. bs_usedBytes (sy_store sample_sync) \<le> mx \<longrightarrow>
      (\<forall>w \<in> set (sync_want all_kinds ?ws). fw_maxBytes sample_world \<le> mx) \<longrightarrow> bs_usedBytes (sy_store (snd ?r)) \<le> mx"
    by (elim conjE)
  from this [rule_format, OF u] m have "bs_usedBytes (sy_store (snd ?r)) \<le> 10" by simp
  with w l r h show ?thesis by blast
qed

section \<open>The server's inventory\<close>

text \<open>
  The server's endpoint is a parameter: \<open>srv\<close> is what it does with a report and \<open>view\<close> the blobs
  it then holds to be in the cache. What the gateway relies on: a full report replaces the
  inventory, any other adds and removes.
\<close>

definition inventory_endpoint :: "(cache_report \<Rightarrow> 'k \<Rightarrow> 'k) \<Rightarrow> ('k \<Rightarrow> string set) \<Rightarrow> bool" where
  "inventory_endpoint srv view =
     (\<forall>b k. set (cr_have b) \<inter> set (cr_gone b) = {} \<longrightarrow>
        view (srv b k) = ((if cr_full b then {} else view k) \<union> set (cr_have b)) - set (cr_gone b))"

text \<open>
  The events: blobs are stored, removed, used and cleared; a report begins; a post is answered,
  and when the answer is an error the server may have applied the report (\<open>applied\<close>) or not.
\<close>

datatype cache_op =
    C_commit bool rat string nat string
  | C_remove "string \<Rightarrow> bool" string
  | C_touch rat string
  | C_clear "string \<Rightarrow> bool" bool
  | C_report int
  | C_answer bool bool bool

type_synonym 'k inventory = "home_cache \<times> flight option \<times> 'k"

fun inventory_step :: "(cache_report \<Rightarrow> 'k \<Rightarrow> 'k) \<Rightarrow> cache_op \<Rightarrow> 'k inventory \<Rightarrow> 'k inventory" where
  "inventory_step srv (C_commit rn now sha sz kind) (h, fl, k) =
     (case commit rn now sha sz kind (hc_store h) of None \<Rightarrow> h | Some s \<Rightarrow> h\<lparr>hc_store := s\<rparr>, fl, k)"
| "inventory_step srv (C_remove rm sha) (h, fl, k) = (h\<lparr>hc_store := snd (remove rm sha (hc_store h))\<rparr>, fl, k)"
| "inventory_step srv (C_touch now sha) (h, fl, k) = (h\<lparr>hc_store := touch now sha (hc_store h)\<rparr>, fl, k)"
| "inventory_step srv (C_clear rm written) (h, fl, k) = (cache_clear_all rm written h, fl, k)"
| "inventory_step srv (C_report now) (h, fl, k) = (case report_start now h of (f, h') \<Rightarrow> (h', Some f, k))"
| "inventory_step srv (C_answer ok applied written) (h, Some f, k) =
     (case report_answered ok written f h of
        (fl, h') \<Rightarrow> (h', fl, if ok \<or> applied then srv (fl_body f) k else k))"
| "inventory_step srv (C_answer ok applied written) (h, None, k) = (h, None, k)"

text \<open>
  The runs considered: one report at a time, and no blob stored or removed while a full report is
  under way; a report of changes may be interleaved with anything.
\<close>

fun op_enabled :: "cache_op \<Rightarrow> 'k inventory \<Rightarrow> bool" where
  "op_enabled (C_touch now sha) st = True"
| "op_enabled (C_report now) (h, fl, k) = (fl = None)"
| "op_enabled (C_answer ok applied written) (h, fl, k) = (fl \<noteq> None)"
| "op_enabled op (h, fl, k) = (case fl of None \<Rightarrow> True | Some f \<Rightarrow> \<not> rs_full (fl_r f))"

inductive cache_reach :: "(cache_report \<Rightarrow> 'k \<Rightarrow> 'k) \<Rightarrow> 'k inventory \<Rightarrow> 'k inventory \<Rightarrow> bool" for srv st0 where
  Start: "cache_reach srv st0 st0"
| Step: "cache_reach srv st0 st \<Longrightarrow> op_enabled op st \<Longrightarrow> cache_reach srv st0 (inventory_step srv op st)"

text \<open>What the server does not know is recorded in the deltas.\<close>

definition synced :: "string set \<Rightarrow> blob_store \<Rightarrow> bool" where
  "synced known s = (\<forall>x. x \<notin> set (bs_added s) \<longrightarrow> x \<notin> set (bs_removed s) \<longrightarrow> (x \<in> known \<longleftrightarrow> x \<in> keys s))"

text \<open>What an operation changes is recorded in the deltas, and no record is lost.\<close>

definition recorded :: "blob_store \<Rightarrow> blob_store \<Rightarrow> bool" where
  "recorded s s' = (\<forall>x. x \<notin> set (bs_added s') \<longrightarrow> x \<notin> set (bs_removed s') \<longrightarrow>
     x \<notin> set (bs_added s) \<and> x \<notin> set (bs_removed s) \<and> (x \<in> keys s' \<longleftrightarrow> x \<in> keys s))"

lemma recorded_refl: "recorded s s"
  by (simp add: recorded_def)

lemma recorded_trans: "recorded s s1 \<Longrightarrow> recorded s1 s2 \<Longrightarrow> recorded s s2"
  unfolding recorded_def by blast

lemma recorded_synced: "recorded s s' \<Longrightarrow> synced known s \<Longrightarrow> synced known s'"
  unfolding recorded_def synced_def by blast

lemma recorded_commit: "commit rn now k sz kind s = Some s' \<Longrightarrow> recorded s s'"
  unfolding recorded_def by (clarsimp simp: commit_def blob_set_def Let_def split: if_splits)

lemma recorded_remove: "recorded s (snd (remove rm k s))"
  using remove_keys [of rm k s] unfolding recorded_def by (auto simp: remove_def blob_unset_def Let_def split: if_splits)

lemma recorded_remove_all: "recorded s (snd (remove_all rm vs s))"
proof (induction vs arbitrary: s)
  case (Cons v vs)
  obtain r s1 where r: "remove rm v s = (r, s1)" by (cases "remove rm v s")
  with recorded_remove [of s rm v] Cons.IH [of s1] recorded_trans show ?case by auto
qed (simp add: recorded_refl)

lemma touch_keeps: "keys (touch now k s) = keys s" "bs_added (touch now k s) = bs_added s" "bs_removed (touch now k s) = bs_removed s"
proof -
  show "keys (touch now k s) = keys s"
  proof (cases "map_of (bs_items s) k")
    case (Some b)
    then have "k \<in> keys s" by (metis map_of_SomeD fst_conv image_eqI)
    with Some show ?thesis by (simp add: touch_def insert_absorb)
  qed (simp add: touch_def)
qed (simp_all add: touch_def split: option.splits)

lemma persist_keeps [simp]:
  "bs_items (persist w s) = bs_items s" "bs_added (persist w s) = bs_added s" "bs_removed (persist w s) = bs_removed s"
  "bs_usedBytes (persist w s) = bs_usedBytes s" "store_ok (persist w s) = store_ok s"
  by (simp_all add: persist_def store_ok_def)

lemma recorded_clear: "recorded s (snd (clear_store rm written s))"
proof -
  obtain ok s1 where r: "remove_all rm (map fst (bs_items s)) s = (ok, s1)" by (cases "remove_all rm (map fst (bs_items s)) s")
  with recorded_remove_all [of s rm "map fst (bs_items s)"] have "recorded s s1" by simp
  then show ?thesis by (simp add: clear_store_def r recorded_def)
qed

lemma clear_store_ok: "store_ok s \<Longrightarrow> store_ok (snd (clear_store rm written s))"
  using remove_all_ok [of s rm "map fst (bs_items s)"]
  by (cases "remove_all rm (map fst (bs_items s)) s") (simp add: clear_store_def)

section \<open>Chunks\<close>

lemma drop_slice: "set (drop (i * MAX_HAVE) xs) = set (slice i xs) \<union> set (drop (Suc i * MAX_HAVE) xs)"
proof -
  have "drop (Suc i * MAX_HAVE) xs = drop MAX_HAVE (drop (i * MAX_HAVE) xs)" by (simp add: add.commute)
  then show ?thesis unfolding slice_def by (metis append_take_drop_id set_append)
qed

lemma ceil_enough: "0 < m \<Longrightarrow> a \<le> (a + m - 1) div m * (m :: nat)"
  using dividend_less_times_div [of m "a + m - 1"] by (simp add: mult.commute)

lemma chunks_enough:
  assumes "chunk_count r \<le> i"
  shows "drop (i * MAX_HAVE) (rs_added r) = []" "drop (i * MAX_HAVE) (rs_removed r) = []"
proof -
  have M: "0 < MAX_HAVE" by (simp add: MAX_HAVE_def)
  have "length (rs_added r) \<le> chunk_count r * MAX_HAVE" "length (rs_removed r) \<le> chunk_count r * MAX_HAVE"
    using ceil_enough [OF M, of "length (rs_added r)"] ceil_enough [OF M, of "length (rs_removed r)"]
    by (auto simp: chunk_count_def intro: order_trans [OF _ mult_le_mono1])
  then show "drop (i * MAX_HAVE) (rs_added r) = []" "drop (i * MAX_HAVE) (rs_removed r) = []"
    using mult_le_mono1 [OF assms, of MAX_HAVE] by (intro drop_all; linarith)+
qed

lemma set_delete_all: "set (foldl (\<lambda>xs x. set_delete x xs) xs ys) = set xs - set ys"
  by (induction ys arbitrary: xs) auto

lemma distinct_delete_all: "distinct xs \<Longrightarrow> distinct (foldl (\<lambda>xs x. set_delete x xs) xs ys)"
  by (induction ys arbitrary: xs) auto

section \<open>The invariant of the reports\<close>

text \<open>What the server will know when the posts that are left have arrived.\<close>

definition expected :: "('k \<Rightarrow> string set) \<Rightarrow> flight \<Rightarrow> 'k \<Rightarrow> string set" where
  "expected view f k =
     ((if rs_full (fl_r f) \<and> fl_i f = 0 then {} else view k) \<union> set (drop (fl_i f * MAX_HAVE) (rs_added (fl_r f))))
       - set (drop (fl_i f * MAX_HAVE) (rs_removed (fl_r f)))"

definition body_ok :: "flight \<Rightarrow> bool" where
  "body_ok f =
     (let r = fl_r f; i = fl_i f; b = fl_body f
      in i < chunk_count r \<and> set (rs_added r) \<inter> set (rs_removed r) = {} \<and>
         cr_full b = (rs_full r \<and> i = 0) \<and> cr_have b = slice i (rs_added r) \<and> cr_gone b = slice i (rs_removed r))"

definition flight_ok :: "home_cache \<Rightarrow> flight \<Rightarrow> string set \<Rightarrow> bool" where
  "flight_ok h f E =
     (let r = fl_r f; s = hc_store h
      in if rs_full r then rs_removed r = [] \<and> E = keys s
         else hc_needFull h \<or>
           (set (rs_added r) \<subseteq> E \<and> set (rs_removed r) \<inter> E = {} \<and>
            (\<forall>x. x \<notin> set (bs_added s) \<longrightarrow> x \<notin> set (bs_removed s) \<longrightarrow>
               x \<notin> set (rs_added r) \<and> x \<notin> set (rs_removed r) \<and> (x \<in> E \<longleftrightarrow> x \<in> keys s))))"

definition inventory_ok :: "('k \<Rightarrow> string set) \<Rightarrow> 'k inventory \<Rightarrow> bool" where
  "inventory_ok view st =
     (case st of (h, fl, k) \<Rightarrow> store_ok (hc_store h) \<and>
        (case fl of
           None \<Rightarrow> hc_needFull h \<or> synced (view k) (hc_store h)
         | Some f \<Rightarrow> body_ok f \<and> flight_ok h f (expected view f k)))"

lemma store_ok_deltas:
  assumes "store_ok s"
  shows "set (bs_added s) \<subseteq> keys s" "set (bs_removed s) \<inter> keys s = {}" "set (bs_added s) \<inter> set (bs_removed s) = {}"
  using assms unfolding store_ok_def by blast+

text \<open>Changes of the store during a report of changes are recorded.\<close>

lemma flight_ok_recorded:
  assumes "flight_ok h f E" "\<not> rs_full (fl_r f)" "recorded (hc_store h) (hc_store h')" "hc_needFull h \<longrightarrow> hc_needFull h'"
  shows "flight_ok h' f E"
  using assms unfolding flight_ok_def recorded_def Let_def by auto

lemma inventory_ok_recorded:
  assumes "inventory_ok view (h, fl, k)" "recorded (hc_store h) (hc_store h')" "hc_needFull h \<longrightarrow> hc_needFull h'"
    and "store_ok (hc_store h')" "case fl of None \<Rightarrow> True | Some f \<Rightarrow> \<not> rs_full (fl_r f) \<or> keys (hc_store h') = keys (hc_store h)"
  shows "inventory_ok view (h', fl, k)"
proof (cases fl)
  case None
  with assms recorded_synced [OF assms(2)] show ?thesis by (auto simp: inventory_ok_def)
next
  case (Some f)
  then have f: "body_ok f" "flight_ok h f (expected view f k)" using assms(1) by (simp_all add: inventory_ok_def)
  have "flight_ok h' f (expected view f k)"
  proof (cases "rs_full (fl_r f)")
    case True
    with f(2) assms(5) Some show ?thesis by (simp add: flight_ok_def Let_def)
  qed (rule flight_ok_recorded [OF f(2) _ assms(2,3)])
  with Some f(1) assms(4) show ?thesis by (simp add: inventory_ok_def)
qed

text \<open>The beginning of a report.\<close>

lemma report_start_ok:
  assumes "inventory_ok view (h, None, k)" "report_start now h = (f, h')"
  shows "inventory_ok view (h', Some f, k)" and "hc_store h' = hc_store h" and "expected view f k = keys (hc_store h)"
proof -
  let ?s = "hc_store h" and ?r = "fl_r f"
  have s: "store_ok ?s" "hc_needFull h \<or> synced (view k) ?s" using assms(1) by (simp_all add: inventory_ok_def)
  note d = store_ok_deltas [OF s(1)]
  have f: "fl_i f = 0" "fl_body f = cache_body ?r ?s 0" "h' = h\<lparr>hc_counters := zeroCounters, hc_periodFrom := now\<rparr>"
    and r: "rs_added ?r = (if rs_full ?r then map fst (bs_items ?s) else bs_added ?s)"
      "rs_removed ?r = (if rs_full ?r then [] else bs_removed ?s)" "hc_needFull h \<longrightarrow> rs_full ?r"
    using assms(2) by (auto simp: report_start_def report_begin_def Let_def)
  show "hc_store h' = ?s" by (simp add: f)
  show e: "expected view f k = keys ?s"
  proof (cases "rs_full ?r")
    case False
    then have "synced (view k) ?s" using s(2) r(3) by blast
    then have "(view k \<union> set (bs_added ?s)) - set (bs_removed ?s) = keys ?s" using d unfolding synced_def by blast
    then show ?thesis using False r f by (simp add: expected_def)
  qed (simp add: expected_def f r)
  have "body_ok f" using d(3) by (auto simp: body_ok_def f r cache_body_def chunk_count_def Let_def)
  moreover have "flight_ok h' f (expected view f k)"
    unfolding e using d by (auto simp: flight_ok_def f r Let_def)
  ultimately show "inventory_ok view (h', Some f, k)" using s(1) by (simp add: inventory_ok_def f)
qed

text \<open>A post that has arrived does not change what is expected.\<close>

lemma expected_posted:
  assumes "inventory_endpoint srv view" "body_ok f"
  shows "((view (srv (fl_body f) k) \<union> set (drop (Suc (fl_i f) * MAX_HAVE) (rs_added (fl_r f))))
      - set (drop (Suc (fl_i f) * MAX_HAVE) (rs_removed (fl_r f)))) = expected view f k"
proof -
  let ?r = "fl_r f" and ?i = "fl_i f"
  have sub: "set (slice ?i xs) \<subseteq> set xs" "set (drop n xs) \<subseteq> set xs" for n and xs :: "string list"
    unfolding slice_def by (auto dest: in_set_takeD in_set_dropD)
  have b: "set (rs_added ?r) \<inter> set (rs_removed ?r) = {}" "cr_full (fl_body f) = (rs_full ?r \<and> ?i = 0)"
    "cr_have (fl_body f) = slice ?i (rs_added ?r)" "cr_gone (fl_body f) = slice ?i (rs_removed ?r)"
    using assms(2) by (simp_all add: body_ok_def Let_def)
  have "set (cr_have (fl_body f)) \<inter> set (cr_gone (fl_body f)) = {}" using b(1) sub(1) unfolding b(3,4) by blast
  with assms(1) have v: "view (srv (fl_body f) k) =
      ((if rs_full ?r \<and> ?i = 0 then {} else view k) \<union> set (slice ?i (rs_added ?r))) - set (slice ?i (rs_removed ?r))"
    unfolding inventory_endpoint_def b(2-4) [symmetric] by blast
  have "set (drop (Suc ?i * MAX_HAVE) (rs_added ?r)) \<inter> set (slice ?i (rs_removed ?r)) = {}"
    using b(1) sub by blast
  then show ?thesis unfolding expected_def v drop_slice [of ?i] by blast
qed

lemma report_end_ok:
  assumes "store_ok (hc_store h)" "flight_ok h f E" "body_ok f"
  shows "store_ok (hc_store (report_end (fl_r f) first True written h))"
    and "hc_needFull (report_end (fl_r f) first True written h) \<or> synced E (hc_store (report_end (fl_r f) first True written h))"
    and "keys (hc_store (report_end (fl_r f) first ok written h)) = keys (hc_store h)"
proof -
  let ?s = "hc_store h" and ?r = "fl_r f" and ?h = "report_end (fl_r f) first True written h"
  note d = store_ok_deltas [OF assms(1)]
  have nf: "hc_needFull ?h = (if rs_full ?r then False else hc_needFull h)"
    and a: "set (bs_added (hc_store ?h)) = (if rs_full ?r then {} else set (bs_added ?s) - set (rs_added ?r))"
    and b: "set (bs_removed (hc_store ?h)) = (if rs_full ?r then {} else set (bs_removed ?s) - set (rs_removed ?r))"
    and k: "keys (hc_store ?h) = keys ?s"
    by (simp_all add: report_end_def Let_def set_delete_all)
  show "keys (hc_store (report_end ?r first ok written h)) = keys ?s" by (simp add: report_end_def Let_def)
  show "store_ok (hc_store ?h)"
    using assms(1) by (auto simp: report_end_def Let_def store_ok_def distinct_delete_all set_delete_all)
  show "hc_needFull ?h \<or> synced E (hc_store ?h)"
  proof (cases "rs_full ?r \<or> hc_needFull h")
    case True
    with assms(2) show ?thesis by (auto simp: nf flight_ok_def synced_def a b k Let_def)
  next
    case False
    with assms(2) have E: "set (rs_added ?r) \<subseteq> E" "set (rs_removed ?r) \<inter> E = {}"
      "\<And>x. x \<notin> set (bs_added ?s) \<Longrightarrow> x \<notin> set (bs_removed ?s) \<Longrightarrow> (x \<in> E \<longleftrightarrow> x \<in> keys ?s)"
      by (auto simp: flight_ok_def Let_def)
    have "(x \<in> E) = (x \<in> keys ?s)"
      if "x \<notin> set (bs_added ?s) - set (rs_added ?r)" "x \<notin> set (bs_removed ?s) - set (rs_removed ?r)" for x
      using that d E(1,2) E(3) [of x] by blast
    with False show ?thesis unfolding synced_def a b k by simp
  qed
qed

lemma report_answered_ok:
  assumes "inventory_endpoint srv view" "inventory_ok view (h, Some f, k)"
    and "report_answered ok written f h = (fl, h')" "k' = (if ok \<or> applied then srv (fl_body f) k else k)"
  shows "inventory_ok view (h', fl, k')"
    and "keys (hc_store h') = keys (hc_store h)"
    and "ok \<Longrightarrow> (case fl of None \<Rightarrow> view k' | Some f' \<Rightarrow> expected view f' k') = expected view f k"
proof -
  have f: "store_ok (hc_store h)" "body_ok f" "flight_ok h f (expected view f k)"
    using assms(2) by (simp_all add: inventory_ok_def)
  note posted = expected_posted [OF assms(1) f(2), of k] and e = report_end_ok [OF f(1,3,2)]
  let ?i = "Suc (fl_i f)" and ?r = "fl_r f"
  let ?f = "f\<lparr>fl_i := ?i, fl_body := cache_body ?r (hc_store h) ?i\<rparr>"
  consider (more) "ok" "?i < chunk_count ?r" "fl = Some ?f" "h' = h"
    | (last) "ok" "chunk_count ?r \<le> ?i" "fl = None" "h' = report_end ?r True True written h"
    | (fail) "\<not> ok" "fl = None" "h' = report_end ?r (fl_i f \<noteq> 0) False written h"
  proof (cases "ok \<and> ?i < chunk_count ?r")
    case True
    then have "report_answered ok written f h = (Some ?f, h)" by (simp add: report_answered_def)
    then have "fl = Some ?f" "h' = h" using assms(3) by simp_all
    with True more show thesis by blast
  next
    case False
    then have e: "fl = None" "h' = report_end ?r (ok \<or> fl_i f \<noteq> 0) ok written h"
      using assms(3) by (auto simp: report_answered_def Let_def split: if_splits)
    show thesis
    proof (cases ok)
      case True
      with False e last show thesis by simp
    next
      case False
      with e fail show thesis by simp
    qed
  qed
  then have "inventory_ok view (h', fl, k') \<and> keys (hc_store h') = keys (hc_store h) \<and>
    (ok \<longrightarrow> (case fl of None \<Rightarrow> view k' | Some f' \<Rightarrow> expected view f' k') = expected view f k)"
  proof cases
    case more
    have x: "expected view ?f k' = expected view f k" using posted more(1) by (simp add: expected_def assms(4))
    have "body_ok ?f" using f(2) more(2) by (simp add: body_ok_def cache_body_def Let_def)
    moreover have "flight_ok h ?f (expected view f k)" using f(3) by (simp add: flight_ok_def Let_def)
    ultimately show ?thesis using more f(1) x by (simp add: inventory_ok_def)
  next
    case last
    have "view k' = expected view f k"
      using posted chunks_enough [OF last(2)] last(1) by (simp add: assms(4))
    with last e show ?thesis by (simp add: inventory_ok_def)
  next
    case fail
    have "hc_needFull h'" "store_ok (hc_store h')" "keys (hc_store h') = keys (hc_store h)"
      using f(1) by (simp_all add: fail(3) report_end_def Let_def)
    with fail show ?thesis by (simp add: inventory_ok_def)
  qed
  then show "inventory_ok view (h', fl, k')" "keys (hc_store h') = keys (hc_store h)"
    "ok \<Longrightarrow> (case fl of None \<Rightarrow> view k' | Some f' \<Rightarrow> expected view f' k') = expected view f k" by blast+
qed

lemma inventory_step_ok:
  assumes "inventory_endpoint srv view" "inventory_ok view st" "op_enabled op st"
  shows "inventory_ok view (inventory_step srv op st)"
proof -
  obtain h fl k where st: "st = (h, fl, k)" by (cases st)
  have i: "inventory_ok view (h, fl, k)" and s: "store_ok (hc_store h)" using assms(2) by (simp_all add: st inventory_ok_def)
  show ?thesis
  proof (cases op)
    case (C_commit rn now sha sz kind)
    with assms(3) have en: "case fl of None \<Rightarrow> True | Some f \<Rightarrow> \<not> rs_full (fl_r f)" by (simp add: st)
    show ?thesis
    proof (cases "commit rn now sha sz kind (hc_store h)")
      case (Some s')
      with en recorded_commit [OF Some] commit_ok [OF s Some] have "inventory_ok view (h\<lparr>hc_store := s'\<rparr>, fl, k)"
        by (intro inventory_ok_recorded [OF i]) (auto split: option.splits)
      with Some C_commit show ?thesis by (simp add: st)
    qed (use i C_commit st in simp)
  next
    case (C_remove rm sha)
    with assms(3) have en: "case fl of None \<Rightarrow> True | Some f \<Rightarrow> \<not> rs_full (fl_r f)" by (simp add: st)
    with recorded_remove remove_ok [OF s] have "inventory_ok view (h\<lparr>hc_store := snd (remove rm sha (hc_store h))\<rparr>, fl, k)"
      by (intro inventory_ok_recorded [OF i]) (auto split: option.splits)
    with C_remove show ?thesis by (simp add: st)
  next
    case (C_touch now sha)
    have "inventory_ok view (h\<lparr>hc_store := touch now sha (hc_store h)\<rparr>, fl, k)"
      using touch_keeps [of now sha "hc_store h"] touch_ok [OF s]
      by (intro inventory_ok_recorded [OF i]) (simp_all add: recorded_def split: option.split)
    with C_touch show ?thesis by (simp add: st)
  next
    case (C_clear rm written)
    with assms(3) have en: "case fl of None \<Rightarrow> True | Some f \<Rightarrow> \<not> rs_full (fl_r f)" by (simp add: st)
    let ?h = "cache_clear_all rm written h"
    have "hc_store ?h = snd (clear_store rm written (hc_store h))" "hc_needFull h \<longrightarrow> hc_needFull ?h"
      by (simp_all add: cache_clear_all_def split: prod.split)
    with en recorded_clear clear_store_ok [OF s] have "inventory_ok view (?h, fl, k)"
      by (intro inventory_ok_recorded [OF i]) (auto split: option.splits)
    with C_clear show ?thesis by (simp add: st)
  next
    case (C_report now)
    with assms(3) have "fl = None" by (simp add: st)
    with report_start_ok(1) [of view h k now] i C_report show ?thesis by (simp add: st split: prod.split)
  next
    case (C_answer ok applied written)
    with assms(3) obtain f where fl: "fl = Some f" by (auto simp: st)
    obtain fl' h' where a: "report_answered ok written f h = (fl', h')" by (cases "report_answered ok written f h")
    from report_answered_ok(1) [OF assms(1) i [unfolded fl] a refl, of applied] C_answer show ?thesis
      by (simp only: st fl inventory_step.simps a prod.case)
  qed
qed

lemma cache_reach_ok: "cache_reach srv st0 st \<Longrightarrow> inventory_endpoint srv view \<Longrightarrow> inventory_ok view st0 \<Longrightarrow> inventory_ok view st"
  by (induction rule: cache_reach.induct) (simp_all add: inventory_step_ok)

text \<open>The answers that are left, one after the other and with nothing between them.\<close>

lemma answers_deliver:
  assumes "inventory_endpoint srv view"
  shows "inventory_ok view (h, Some f, k) \<Longrightarrow> chunk_count (fl_r f) = fl_i f + Suc n \<Longrightarrow>
    \<exists>h' k'. fold (inventory_step srv) (replicate (Suc n) (C_answer True applied written)) (h, Some f, k) = (h', None, k') \<and>
      inventory_ok view (h', None, k') \<and> view k' = expected view f k \<and> keys (hc_store h') = keys (hc_store h)"
proof (induction n arbitrary: h f k)
  case 0
  obtain h' where a: "report_answered True written f h = (None, h')"
    using 0(2) by (simp add: report_answered_def)
  show ?case
    using report_answered_ok(1) [OF assms 0(1) a refl, of applied] report_answered_ok(2) [OF assms 0(1) a refl]
      report_answered_ok(3) [OF assms 0(1) a refl TrueI, of applied] a by simp
next
  case (Suc n)
  obtain f' where a: "report_answered True written f h = (Some f', h)" and f': "fl_i f' = Suc (fl_i f)" "fl_r f' = fl_r f"
    using Suc.prems(2) by (simp add: report_answered_def)
  note s = report_answered_ok(1) [OF assms Suc.prems(1) a refl, of applied]
    report_answered_ok(3) [OF assms Suc.prems(1) a refl TrueI, of applied]
  have "chunk_count (fl_r f') = fl_i f' + Suc n" using Suc.prems(2) f' by simp
  from Suc.IH [OF s(1) this] s(2) a show ?case by simp
qed

text \<open>The manager after start-up or a move: the store as opened, a full report due.\<close>

definition newHomeCache :: "blob_store \<Rightarrow> int \<Rightarrow> home_cache" where
  "newHomeCache s now =
     \<lparr>hc_store = s, hc_counters = zeroCounters, hc_periodFrom = now, hc_lastReportAt = None, hc_lastFullAt = 0, hc_needFull = True\<rparr>"

text \<open>
  C36. The server's inventory of a gateway's cache converges. Reports run one at a time, their posts
  are answered one by one, and between the posts of a report of changes blobs may be stored, served,
  removed and cleared; while a full report is under way none is stored or removed. Then in every
  state between two reports a full report is due or everything the server does not know is in the
  recorded changes, whichever posts failed and whether or not the server had applied them; and the
  next report whose posts all succeed with nothing happening between them leaves the server with
  exactly the blobs in the store. The server's endpoint is arbitrary but for replacing its inventory
  by a full report and adding and removing with any other.
\<close>

theorem cache_inventory_converges:
  assumes "inventory_endpoint srv view"
    and "cache_reach srv (newHomeCache (open_store toNumber w0 idx entries newStore) t0, None, k0) (h, None, k)"
    and "n = chunk_count (fst (report_begin now h))"
  shows "(hc_needFull h \<or> synced (view k) (hc_store h)) \<and>
    (\<exists>h' k'. fold (inventory_step srv) (C_report now # replicate n (C_answer True applied written)) (h, None, k) = (h', None, k') \<and>
       view k' = keys (hc_store h') \<and> keys (hc_store h') = keys (hc_store h))"
proof -
  have "inventory_ok view (newHomeCache (open_store toNumber w0 idx entries newStore) t0, None, k0)"
    by (simp add: inventory_ok_def newHomeCache_def open_store_ok)
  from cache_reach_ok [OF assms(2,1) this] have i: "inventory_ok view (h, None, k)" .
  obtain f h1 where f: "report_start now h = (f, h1)" by (cases "report_start now h")
  note s = report_start_ok [OF i f]
  have "fl_i f = 0" "fl_r f = fst (report_begin now h)" using f by (auto simp: report_start_def split: prod.splits)
  moreover have "n \<noteq> 0" by (simp add: assms(3) chunk_count_def)
  then obtain m where m: "n = Suc m" using not0_implies_Suc by blast
  ultimately have "chunk_count (fl_r f) = fl_i f + Suc m" using assms(3) by simp
  from answers_deliver [OF assms(1) s(1) this, of applied written] s(2,3) i m f
  show ?thesis by (auto simp: inventory_ok_def)
qed

text \<open>An endpoint that keeps the set of blobs.\<close>

definition sample_endpoint :: "cache_report \<Rightarrow> string set \<Rightarrow> string set" where
  "sample_endpoint b known = ((if cr_full b then {} else known) \<union> set (cr_have b)) - set (cr_gone b)"

theorem cache_inventory_converges_witness:
  "let h0 = newHomeCache (open_store (\<lambda>_. None) True [] [] newStore) 0;
       st = inventory_step sample_endpoint (C_commit True 3 sample_sha 5 ''drive'') (h0, None, {}); h = fst st
   in \<exists>h' k'. fold (inventory_step sample_endpoint)
         (C_report 7 # replicate (chunk_count (fst (report_begin 7 h))) (C_answer True False True)) st = (h', None, k') \<and>
       k' = keys (hc_store h') \<and> keys (hc_store h') = {sample_sha}"
proof -
  let ?h0 = "newHomeCache (open_store (\<lambda>_. None) True [] [] newStore) 0"
  let ?st = "inventory_step sample_endpoint (C_commit True 3 sample_sha 5 ''drive'') (?h0, None, {})"
  have e: "inventory_endpoint sample_endpoint id" by (simp add: inventory_endpoint_def sample_endpoint_def)
  have st: "?st = (fst ?st, None, {})" by simp
  have "cache_reach sample_endpoint (?h0, None, {}) ?st" by (intro cache_reach.intros) simp
  then have r: "cache_reach sample_endpoint (?h0, None, {}) (fst ?st, None, {})" using st by metis
  have k: "keys (hc_store (fst ?st)) = {sample_sha}" by code_simp
  from cache_inventory_converges [OF e r refl, of 7 False True] st k show ?thesis unfolding Let_def by (metis id_apply)
qed

text \<open>
  Storing a blob while a full report is under way loses it from the deltas: the end of the report
  clears them, so the server learns of the blob only with the next full report.
\<close>

lemma full_report_race:
  assumes "inventory_endpoint srv view" "report_start now h = (f, h1)" "rs_full (fl_r f)" "chunk_count (fl_r f) = 1"
    and "\<not> has sha (hc_store h)" "commit True t sha sz kind (hc_store h1) = Some s"
    and "inventory_step srv (C_answer True applied written) (h1\<lparr>hc_store := s\<rparr>, Some f, k) = (h2, fl, k2)"
  shows "fl = None \<and> has sha (hc_store h2) \<and> sha \<notin> view k2 \<and> bs_added (hc_store h2) = [] \<and> \<not> hc_needFull h2"
proof -
  have h1: "hc_store h1 = hc_store h"
    and r: "fl_i f = 0" "rs_added (fl_r f) = map fst (bs_items (hc_store h))" "rs_removed (fl_r f) = []"
      "fl_body f = cache_body (fl_r f) (hc_store h) 0"
    using assms(2,3) by (auto simp: report_start_def report_begin_def Let_def)
  have b: "body_ok f" using assms(4) by (simp add: body_ok_def r cache_body_def Let_def)
  have "view (srv (fl_body f) k) = keys (hc_store h)"
    using expected_posted [OF assms(1) b, of k] chunks_enough [of "fl_r f" 1] assms(3,4) by (simp add: r expected_def)
  moreover have "has sha s" using commit_used [OF assms(5), of True t sz kind s] assms(6) h1 by (simp add: has_def)
  ultimately show ?thesis
    using assms(3,4,5,7) r(1) by (auto simp: report_answered_def report_end_def Let_def has_def)
qed

end
