(* ===== verification/Proxy_Listeners.thy ===== *)
theory Proxy_Listeners
  imports Lan_Interfaces "HOL-Library.Char_ord" "HOL-Library.List_Lexorder"
begin

text \<open>
  The two port proxies: TCP routes into the LAN (\<open>src/src/proxy/tcp.js\<close>) and the source-locked
  egress doors into the tunnel (\<open>src/src/proxy/egress.js\<close>). Binding a port is an operation of the
  system: its outcome is a function of the sockets that are open, the address and the port.
  Closing a listener waits for its connections; \<open>drained\<close> says for which routes they have ended,
  and a call that waits for one that has not is the value \<open>None\<close>. The state keeps the open
  sockets, those of a listener that is being replaced included.
\<close>

type_synonym socket = "string \<times> nat"

type_synonym bind_fn = "socket list \<Rightarrow> string \<Rightarrow> nat \<Rightarrow> string + nat"

section \<open>TCP routes\<close>

record l4_route =
  lr_id :: int
  lr_listen_port :: nat
  lr_host :: string
  lr_port :: nat
  lr_force :: bool

record tcp_listener =
  tl_port :: nat
  tl_host :: string
  tl_tport :: nat
  tl_requested :: nat

record tcp_manager =
  tm_bindIp :: string
  tm_listeners :: "(int, tcp_listener) jsmap"
  tm_open :: "socket list"

definition listener_of :: "l4_route \<Rightarrow> nat \<Rightarrow> tcp_listener" where
  "listener_of r port = \<lparr>tl_port = port, tl_host = lr_host r, tl_tport = lr_port r, tl_requested = lr_listen_port r\<rparr>"

text \<open>Starting and replacing a listener bind the new socket first; only the overlap timer closes the old one.\<close>

definition tcp_startListener :: "bind_fn \<Rightarrow> l4_route \<Rightarrow> tcp_manager \<Rightarrow> (string + tcp_manager)" where
  "tcp_startListener bnd r m =
     (case bnd (tm_open m) (tm_bindIp m) (lr_listen_port r) of
        Inl e \<Rightarrow> Inl e
      | Inr port \<Rightarrow> Inr (m\<lparr>tm_listeners := mset_at (lr_id r) (listener_of r port) (tm_listeners m),
          tm_open := tm_open m @ [(tm_bindIp m, port)]\<rparr>))"

definition tcp_transitionListener :: "bind_fn \<Rightarrow> l4_route \<Rightarrow> tcp_manager \<Rightarrow> (string + tcp_manager)" where
  "tcp_transitionListener bnd r m =
     (case bnd (tm_open m) (tm_bindIp m) (lr_listen_port r) of
        Inl e \<Rightarrow> Inl e
      | Inr port \<Rightarrow> Inr (m\<lparr>tm_listeners := mset_at (lr_id r) (listener_of r port) (tm_listeners m),
          tm_open := tm_open m @ [(tm_bindIp m, port)]\<rparr>))"

definition tcp_overlap_expired :: "nat \<Rightarrow> tcp_manager \<Rightarrow> tcp_manager" where
  "tcp_overlap_expired oldPort m = m\<lparr>tm_open := remove1 (tm_bindIp m, oldPort) (tm_open m)\<rparr>"

definition tcp_stopListener :: "(int \<Rightarrow> bool) \<Rightarrow> int \<Rightarrow> tcp_listener \<Rightarrow> tcp_manager \<Rightarrow> tcp_manager option" where
  "tcp_stopListener drained i l m =
     (if drained i
      then Some (m\<lparr>tm_listeners := mdelete i (tm_listeners m), tm_open := remove1 (tm_bindIp m, tl_port l) (tm_open m)\<rparr>)
      else None)"

fun tcp_stop_loop :: "(int \<Rightarrow> bool) \<Rightarrow> int set \<Rightarrow> (int, tcp_listener) jsmap \<Rightarrow> tcp_manager \<Rightarrow> tcp_manager option" where
  "tcp_stop_loop drained newIds [] m = Some m"
| "tcp_stop_loop drained newIds ((i, l) # ls) m =
     (if i \<in> newIds then tcp_stop_loop drained newIds ls m
      else tcp_stopListener drained i l m \<bind> tcp_stop_loop drained newIds ls)"

definition tcp_changed :: "tcp_listener \<Rightarrow> l4_route \<Rightarrow> bool" where
  "tcp_changed l r = (tl_tport l \<noteq> lr_port r \<or> tl_host l \<noteq> lr_host r \<or> tl_requested l \<noteq> lr_listen_port r \<or> lr_force r)"

text \<open>One route: an error is logged and leaves the manager as it was.\<close>

definition tcp_apply_route :: "bind_fn \<Rightarrow> tcp_manager \<Rightarrow> l4_route \<Rightarrow> tcp_manager" where
  "tcp_apply_route bnd m r =
     (case map_of (tm_listeners m) (lr_id r) of
        None \<Rightarrow> (case tcp_startListener bnd r m of Inl e \<Rightarrow> m | Inr m' \<Rightarrow> m')
      | Some l \<Rightarrow>
          if tcp_changed l r then (case tcp_transitionListener bnd r m of Inl e \<Rightarrow> m | Inr m' \<Rightarrow> m')
          else m)"

definition tcp_setRoutes :: "(int \<Rightarrow> bool) \<Rightarrow> bind_fn \<Rightarrow> l4_route list \<Rightarrow> tcp_manager \<Rightarrow> tcp_manager option" where
  "tcp_setRoutes drained bnd routes m =
     map_option (\<lambda>m'. foldl (tcp_apply_route bnd) m' routes) (tcp_stop_loop drained (lr_id ` set routes) (tm_listeners m) m)"

definition tcp_listListenerPorts :: "tcp_manager \<Rightarrow> nat list" where
  "tcp_listListenerPorts m = filter (\<lambda>p. p \<noteq> 0) (map (tl_port \<circ> snd) (tm_listeners m))"

section \<open>The source lock\<close>

definition normalizeIp :: "string \<Rightarrow> string" where
  "normalizeIp addr = (if prefix ''::ffff:'' addr then drop 7 addr else addr)"

definition ipv4ToInt :: "string \<Rightarrow> 32 word option" where
  "ipv4ToInt ip =
     (let ps = split_on CHR ''.'' ip
      in if length ps \<noteq> 4 \<or> \<not> list_all (re_class is_digit 1 3) ps then None
         else if list_ex (\<lambda>p. 255 < dec_value p) ps then None
         else Some (push_bit 24 (word_of_nat (dec_value (ps ! 0))) OR push_bit 16 (word_of_nat (dec_value (ps ! 1)))
                OR push_bit 8 (word_of_nat (dec_value (ps ! 2))) OR word_of_nat (dec_value (ps ! 3))))"

text \<open>\<open>parseInt(s, 10)\<close>: white space, a sign, then digits up to the first other character.\<close>

definition parseInt :: "string \<Rightarrow> int option" where
  "parseInt s =
     (let t = dropWhile is_ws s;
          neg = prefix ''-'' t;
          u = (if neg \<or> prefix ''+'' t then drop 1 t else t);
          ds = takeWhile is_digit u
      in if ds = [] then None else Some (if neg then - int (dec_value ds) else int (dec_value ds)))"

definition allow_mask :: "nat \<Rightarrow> 32 word" where
  "allow_mask p = (if p = 0 then 0 else push_bit (32 - p) 0xffffffff)"

text \<open>An entry of the list: its base address and prefix length, unless it is to be skipped.\<close>

definition allow_entry :: "string \<Rightarrow> (32 word \<times> nat) option" where
  "allow_entry cidr =
     (let ps = split_on CHR ''/'' cidr;
          p = (if length ps = 1 then Some 32 else parseInt (ps ! 1))
      in case (ipv4ToInt (ps ! 0), p) of
           (Some b, Some n) \<Rightarrow> if 0 \<le> n \<and> n \<le> 32 then Some (b, nat n) else None
         | _ \<Rightarrow> None)"

text \<open>
  The field of a route as the server sent it: no such member, a value that is no list, or a list.
  Without a list nobody is admitted.
\<close>

datatype allow_field = Absent | No_list | Allow "string list"

definition ipInAllowlist :: "string \<Rightarrow> allow_field \<Rightarrow> bool" where
  "ipInAllowlist remoteAddr allowed =
     (case allowed of
        Allow cidrs \<Rightarrow>
          (case ipv4ToInt (normalizeIp remoteAddr) of
             None \<Rightarrow> False
           | Some ip \<Rightarrow>
               list_ex (\<lambda>c. case allow_entry c of None \<Rightarrow> False | Some (b, p) \<Rightarrow> ip AND allow_mask p = b AND allow_mask p) cidrs)
      | _ \<Rightarrow> False)"

section \<open>Egress doors\<close>

record egress_route =
  er_id :: int
  er_bind_ip :: string
  er_listen_port :: nat
  er_target_host :: string
  er_target_port :: nat
  er_allowed :: allow_field

record egress_status =
  es_bound :: bool
  es_bind_error :: "string option"
  es_bind_ip :: string
  es_port :: nat

text \<open>A listener holds the route its connections are checked against.\<close>

record egress_listener =
  el_port :: nat
  el_route :: egress_route

record egress_manager =
  em_listeners :: "(int, egress_listener) jsmap"
  em_status :: "(int, egress_status) jsmap"
  em_drops :: "(int, nat) jsmap"
  em_open :: "socket list"

definition bindChanged :: "egress_route \<Rightarrow> egress_route \<Rightarrow> bool" where
  "bindChanged a b = (er_bind_ip a \<noteq> er_bind_ip b \<or> er_listen_port a \<noteq> er_listen_port b)"

fun allow_list :: "allow_field \<Rightarrow> string list" where
  "allow_list (Allow xs) = xs"
| "allow_list _ = []"

text \<open>The JSON texts of two sorted lists of strings are equal when the lists are.\<close>

definition softChanged :: "egress_route \<Rightarrow> egress_route \<Rightarrow> bool" where
  "softChanged a b =
     (er_target_host a \<noteq> er_target_host b \<or> er_target_port a \<noteq> er_target_port b \<or>
      sort (allow_list (er_allowed a)) \<noteq> sort (allow_list (er_allowed b)))"

text \<open>\<open>Object.assign(old, new)\<close>: the members that \<open>new\<close> has.\<close>

definition assign_route :: "egress_route \<Rightarrow> egress_route \<Rightarrow> egress_route" where
  "assign_route old new = (if er_allowed new = Absent then new\<lparr>er_allowed := er_allowed old\<rparr> else new)"

definition bound_status :: "egress_route \<Rightarrow> nat \<Rightarrow> egress_status" where
  "bound_status r port = \<lparr>es_bound = True, es_bind_error = None, es_bind_ip = er_bind_ip r, es_port = port\<rparr>"

text \<open>
  Starting a listener; replacing one does the same and leaves closing the old socket to the
  overlap timer.
\<close>

definition egress_startListener :: "bind_fn \<Rightarrow> egress_route \<Rightarrow> egress_manager \<Rightarrow> (string + egress_manager)" where
  "egress_startListener bnd r m =
     (case bnd (em_open m) (er_bind_ip r) (er_listen_port r) of
        Inl e \<Rightarrow> Inl e
      | Inr port \<Rightarrow> Inr (m\<lparr>em_listeners := mset_at (er_id r) \<lparr>el_port = port, el_route = r\<rparr> (em_listeners m),
          em_status := mset_at (er_id r) (bound_status r port) (em_status m), em_open := em_open m @ [(er_bind_ip r, port)]\<rparr>))"

definition egress_transitionListener :: "bind_fn \<Rightarrow> egress_route \<Rightarrow> egress_manager \<Rightarrow> (string + egress_manager)" where
  "egress_transitionListener bnd r m =
     (case bnd (em_open m) (er_bind_ip r) (er_listen_port r) of
        Inl e \<Rightarrow> Inl e
      | Inr port \<Rightarrow> Inr (m\<lparr>em_listeners := mset_at (er_id r) \<lparr>el_port = port, el_route = r\<rparr> (em_listeners m),
          em_status := mset_at (er_id r) (bound_status r port) (em_status m), em_open := em_open m @ [(er_bind_ip r, port)]\<rparr>))"

definition egress_overlap_expired :: "egress_listener \<Rightarrow> egress_manager \<Rightarrow> egress_manager" where
  "egress_overlap_expired old m = m\<lparr>em_open := remove1 (er_bind_ip (el_route old), el_port old) (em_open m)\<rparr>"

definition egress_stopListener :: "(int \<Rightarrow> bool) \<Rightarrow> int \<Rightarrow> egress_listener \<Rightarrow> egress_manager \<Rightarrow> egress_manager option" where
  "egress_stopListener drained i l m =
     (if drained i
      then Some (m\<lparr>em_listeners := mdelete i (em_listeners m), em_open := remove1 (er_bind_ip (el_route l), el_port l) (em_open m)\<rparr>)
      else None)"

definition forget_route :: "int \<Rightarrow> egress_manager \<Rightarrow> egress_manager" where
  "forget_route i m = m\<lparr>em_status := mdelete i (em_status m), em_drops := mdelete i (em_drops m)\<rparr>"

fun egress_stop_loop :: "(int \<Rightarrow> bool) \<Rightarrow> int set \<Rightarrow> (int, egress_listener) jsmap \<Rightarrow> egress_manager \<Rightarrow> egress_manager option" where
  "egress_stop_loop drained newIds [] m = Some m"
| "egress_stop_loop drained newIds ((i, l) # ls) m =
     (if i \<in> newIds then egress_stop_loop drained newIds ls m
      else egress_stopListener drained i l m \<bind> (\<lambda>m1. egress_stop_loop drained newIds ls (forget_route i m1)))"

definition prune_status :: "int set \<Rightarrow> egress_manager \<Rightarrow> egress_manager" where
  "prune_status newIds m = foldl (\<lambda>m i. if i \<in> newIds then m else forget_route i m) m (map fst (em_status m))"

definition failed_status :: "egress_route \<Rightarrow> string \<Rightarrow> egress_manager \<Rightarrow> egress_manager" where
  "failed_status r e m =
     m\<lparr>em_status := mset_at (er_id r)
        \<lparr>es_bound = False, es_bind_error = Some e, es_bind_ip = er_bind_ip r, es_port = er_listen_port r\<rparr> (em_status m)\<rparr>"

definition egress_apply_route :: "bind_fn \<Rightarrow> egress_manager \<Rightarrow> egress_route \<Rightarrow> egress_manager" where
  "egress_apply_route bnd m r =
     (case map_of (em_listeners m) (er_id r) of
        None \<Rightarrow> (case egress_startListener bnd r m of Inl e \<Rightarrow> failed_status r e m | Inr m' \<Rightarrow> m')
      | Some l \<Rightarrow>
          if bindChanged (el_route l) r
          then (case egress_transitionListener bnd r m of Inl e \<Rightarrow> failed_status r e m | Inr m' \<Rightarrow> m')
          else if softChanged (el_route l) r
          then m\<lparr>em_listeners := mset_at (er_id r) (l\<lparr>el_route := assign_route (el_route l) r\<rparr>) (em_listeners m)\<rparr>
          else m)"

definition egress_setRoutes :: "(int \<Rightarrow> bool) \<Rightarrow> bind_fn \<Rightarrow> egress_route list \<Rightarrow> egress_manager \<Rightarrow> egress_manager option" where
  "egress_setRoutes drained bnd routes m =
     (let newIds = er_id ` set routes
      in map_option (\<lambda>m1. foldl (egress_apply_route bnd) (prune_status newIds m1) routes)
           (egress_stop_loop drained newIds (em_listeners m) m))"

text \<open>A connection to the door: forwarded to the target of its route, or counted and cut.\<close>

definition egress_handleConnection :: "string \<Rightarrow> egress_route \<Rightarrow> egress_manager \<Rightarrow> (string \<times> nat) option \<times> egress_manager" where
  "egress_handleConnection src r m =
     (if \<not> ipInAllowlist src (er_allowed r)
      then (None, m\<lparr>em_drops := mset_at (er_id r) ((case map_of (em_drops m) (er_id r) of None \<Rightarrow> 0 | Some n \<Rightarrow> n) + 1) (em_drops m)\<rparr>)
      else (Some (er_target_host r, er_target_port r), m))"

definition egress_getStatus :: "egress_manager \<Rightarrow> (int \<times> egress_status \<times> nat) list" where
  "egress_getStatus m =
     map (\<lambda>(i, st). (i, st, case map_of (em_drops m) i of None \<Rightarrow> 0 | Some n \<Rightarrow> n)) (em_status m)"

section \<open>The source lock admits exactly the listed blocks\<close>

lemma allow_mask_cidr: "p \<le> 32 \<Longrightarrow> allow_mask p = cidrMask p"
proof (rule bit_eqI)
  fix n
  assume p: "p \<le> 32" and "possible_bit TYPE(32 word) n"
  then have n: "n < 32" by simp
  have full: "(0xffffffff :: 32 word) = mask 32" by (simp add: mask_eq_exp_minus_1)
  show "bit (allow_mask p) n = bit (cidrMask p) n"
    using p n unfolding cidrMask_bits [OF p] allow_mask_def full by (auto simp: bit_push_bit_iff bit_mask_iff)
qed

lemma allow_entry_prefix: "allow_entry c = Some (b, p) \<Longrightarrow> p \<le> 32"
  by (auto simp: allow_entry_def Let_def split: option.splits if_splits)

definition in_allowed_block :: "string \<Rightarrow> allow_field \<Rightarrow> bool" where
  "in_allowed_block src allowed =
     (\<exists>cidrs c b p ip. allowed = Allow cidrs \<and> c \<in> set cidrs \<and> allow_entry c = Some (b, p) \<and>
        ipv4ToInt (normalizeIp src) = Some ip \<and> unat ip div 2 ^ (32 - p) = unat b div 2 ^ (32 - p))"

lemma ipInAllowlist_iff: "ipInAllowlist src allowed \<longleftrightarrow> in_allowed_block src allowed"
proof -
  have "ip AND allow_mask p = b AND allow_mask p \<longleftrightarrow> unat ip div 2 ^ (32 - p) = unat b div 2 ^ (32 - p)"
    if "allow_entry c = Some (b, p)" for c b p ip
    using allow_entry_prefix [OF that] by (simp add: allow_mask_cidr mask_eq_div)
  then show ?thesis unfolding ipInAllowlist_def in_allowed_block_def
    by (fastforce simp: list_ex_iff split: allow_field.splits option.splits)
qed

text \<open>
  C38. An egress door forwards a connection exactly when the route has a list of sources and the
  client's IPv4 address lies in one of its blocks, and then to the route's own target; every
  other connection is cut and counted. A missing, empty or malformed list admits nobody.
\<close>

theorem egress_source_lock:
  "egress_handleConnection src r m =
     (if in_allowed_block src (er_allowed r) then (Some (er_target_host r, er_target_port r), m)
      else (None, m\<lparr>em_drops := mset_at (er_id r) ((case map_of (em_drops m) (er_id r) of None \<Rightarrow> 0 | Some n \<Rightarrow> n) + 1) (em_drops m)\<rparr>)) \<and>
   \<not> in_allowed_block src Absent \<and> \<not> in_allowed_block src No_list \<and> \<not> in_allowed_block src (Allow [])"
  by (simp add: egress_handleConnection_def ipInAllowlist_iff) (simp add: in_allowed_block_def)

text \<open>
  An update in place copies the members the new route has: a route whose list of sources has
  been dropped keeps admitting the old ones.
\<close>

lemma dropped_list_keeps_door_open:
  assumes "map_of (em_listeners m) (er_id r) = Some l" "\<not> bindChanged (el_route l) r"
    and "er_allowed r = Absent" "er_allowed (el_route l) = Allow xs"
  shows "\<exists>l'. map_of (em_listeners (egress_apply_route bnd m r)) (er_id r) = Some l' \<and> er_allowed (el_route l') = Allow xs"
  using assms by (auto simp: egress_apply_route_def assign_route_def)

section \<open>Routes are applied independently\<close>

lemma tcp_stop_loop_ok:
  assumes "\<And>i. drained i"
  shows "\<exists>m'. tcp_stop_loop drained ids ls m = Some m' \<and> tm_bindIp m' = tm_bindIp m \<and>
    (\<forall>i. map_of (tm_listeners m') i = (if i \<in> fst ` set ls \<and> i \<notin> ids then None else map_of (tm_listeners m) i))"
proof (induction ls arbitrary: m)
  case (Cons e ls)
  obtain i l where e: "e = (i, l)" by (cases e)
  show ?case
  proof (cases "i \<in> ids")
    case True
    with Cons.IH [of m] e show ?thesis by auto
  next
    case False
    define m1 where "m1 = m\<lparr>tm_listeners := mdelete i (tm_listeners m), tm_open := remove1 (tm_bindIp m, tl_port l) (tm_open m)\<rparr>"
    have "tcp_stop_loop drained ids (e # ls) m = tcp_stop_loop drained ids ls m1"
      using False assms e by (simp add: tcp_stopListener_def m1_def)
    moreover obtain m' where "tcp_stop_loop drained ids ls m1 = Some m'" "tm_bindIp m' = tm_bindIp m1"
      "\<forall>i. map_of (tm_listeners m') i = (if i \<in> fst ` set ls \<and> i \<notin> ids then None else map_of (tm_listeners m1) i)"
      using Cons.IH [of m1] by blast
    ultimately show ?thesis using False e by (auto simp: m1_def)
  qed
qed simp

text \<open>A listener that serves a route, and one that a failed bind has left as it was.\<close>

definition serves :: "tcp_listener option \<Rightarrow> l4_route \<Rightarrow> bool" where
  "serves l r = (\<exists>port. l = Some (listener_of r port))"

lemma tcp_apply_route_cases:
  "tm_bindIp (tcp_apply_route bnd m r) = tm_bindIp m \<and>
   (\<forall>i. i \<noteq> lr_id r \<longrightarrow> map_of (tm_listeners (tcp_apply_route bnd m r)) i = map_of (tm_listeners m) i) \<and>
   (serves (map_of (tm_listeners (tcp_apply_route bnd m r)) (lr_id r)) r \<or>
    map_of (tm_listeners (tcp_apply_route bnd m r)) (lr_id r) = map_of (tm_listeners m) (lr_id r) \<and>
    (\<exists>e. bnd (tm_open m) (tm_bindIp m) (lr_listen_port r) = Inl e))"
proof (cases "\<exists>l. map_of (tm_listeners m) (lr_id r) = Some l \<and> \<not> tcp_changed l r")
  case True
  then obtain l where l: "map_of (tm_listeners m) (lr_id r) = Some l" "\<not> tcp_changed l r" by blast
  then have "l = listener_of r (tl_port l)" by (cases l) (simp add: tcp_changed_def listener_of_def)
  with l have "serves (map_of (tm_listeners m) (lr_id r)) r" unfolding serves_def by metis
  with l show ?thesis by (simp add: tcp_apply_route_def)
next
  case False
  then have t: "tcp_apply_route bnd m r = (case tcp_startListener bnd r m of Inl e \<Rightarrow> m | Inr m' \<Rightarrow> m')"
    by (auto simp: tcp_apply_route_def tcp_startListener_def tcp_transitionListener_def split: option.splits)
  show ?thesis
    by (cases "bnd (tm_open m) (tm_bindIp m) (lr_listen_port r)") (auto simp: t tcp_startListener_def serves_def)
qed

lemma tcp_apply_routes:
  "distinct (map lr_id rs) \<Longrightarrow>
   tm_bindIp (foldl (tcp_apply_route bnd) m rs) = tm_bindIp m \<and>
   (\<forall>i. i \<notin> lr_id ` set rs \<longrightarrow> map_of (tm_listeners (foldl (tcp_apply_route bnd) m rs)) i = map_of (tm_listeners m) i) \<and>
   (\<forall>r \<in> set rs. serves (map_of (tm_listeners (foldl (tcp_apply_route bnd) m rs)) (lr_id r)) r \<or>
      map_of (tm_listeners (foldl (tcp_apply_route bnd) m rs)) (lr_id r) = map_of (tm_listeners m) (lr_id r) \<and>
      (\<exists>socks e. bnd socks (tm_bindIp m) (lr_listen_port r) = Inl e))"
proof (induction rs arbitrary: m)
  case (Cons r rs)
  let ?m = "tcp_apply_route bnd m r"
  note c = tcp_apply_route_cases [of bnd m r]
  note ih = Cons.IH [of ?m]
  have d: "distinct (map lr_id rs)" "lr_id r \<notin> lr_id ` set rs" using Cons.prems by auto
  have others: "map_of (tm_listeners ?m) (lr_id q) = map_of (tm_listeners m) (lr_id q)" if "q \<in> set rs" for q
    using c d(2) that by (metis image_eqI)
  show ?case using ih [OF d(1)] c d(2) others by (auto; metis)
qed simp

text \<open>
  Applying TCP routes isolates them from each other: when the removed listeners have no
  connections left, the call returns, listeners exist only for configured routes, and each route
  is either served exactly as configured, or binding its port failed and its listener is what it
  was before, whatever happened to the other routes.
\<close>

theorem tcp_routes_are_isolated:
  assumes "\<And>i. drained i" "distinct (map lr_id routes)"
  shows "\<exists>m'. tcp_setRoutes drained bnd routes m = Some m' \<and> fst ` set (tm_listeners m') \<subseteq> lr_id ` set routes \<and>
    (\<forall>r \<in> set routes. serves (map_of (tm_listeners m') (lr_id r)) r \<or>
       map_of (tm_listeners m') (lr_id r) = map_of (tm_listeners m) (lr_id r) \<and>
       (\<exists>socks e. bnd socks (tm_bindIp m) (lr_listen_port r) = Inl e))"
proof -
  let ?ids = "lr_id ` set routes"
  obtain m1 where m1: "tcp_stop_loop drained ?ids (tm_listeners m) m = Some m1" "tm_bindIp m1 = tm_bindIp m"
    and l1: "\<And>i. map_of (tm_listeners m1) i = (if i \<in> fst ` set (tm_listeners m) \<and> i \<notin> ?ids then None else map_of (tm_listeners m) i)"
    using tcp_stop_loop_ok [of drained ?ids "tm_listeners m" m] assms(1) by metis
  let ?m = "foldl (tcp_apply_route bnd) m1 routes"
  note a = tcp_apply_routes [OF assms(2), of bnd m1]
  have "map_of (tm_listeners ?m) i = None" if "i \<notin> ?ids" for i
    using a that l1 [of i] by (auto simp: map_of_eq_None_iff)
  then have "fst ` set (tm_listeners ?m) \<subseteq> ?ids" by (auto simp: map_of_eq_None_iff)
  moreover have "map_of (tm_listeners m1) (lr_id r) = map_of (tm_listeners m) (lr_id r)" if "r \<in> set routes" for r
    using l1 that by auto
  ultimately show ?thesis using a m1 by (auto simp: tcp_setRoutes_def)
qed

text \<open>A port is refused when it is in use or privileged; one listener exists already.\<close>

definition sample_bind :: bind_fn where
  "sample_bind socks ip port = (if (ip, port) \<in> set socks then Inl ''EADDRINUSE'' else if port < 1024 then Inl ''EACCES'' else Inr port)"

definition sample_manager :: tcp_manager where
  "sample_manager = \<lparr>tm_bindIp = ''10.8.0.2'', tm_listeners = [(1, \<lparr>tl_port = 2222, tl_host = ''nas'', tl_tport = 22, tl_requested = 2222\<rparr>)],
     tm_open = [(''10.8.0.2'', 2222)]\<rparr>"

definition sample_route :: "int \<Rightarrow> nat \<Rightarrow> string \<Rightarrow> l4_route" where
  "sample_route i port host = \<lparr>lr_id = i, lr_listen_port = port, lr_host = host, lr_port = 22, lr_force = False\<rparr>"

theorem tcp_routes_are_isolated_witness:
  "\<exists>m'. tcp_setRoutes (\<lambda>_. True) sample_bind [sample_route 2 80 ''web'', sample_route 3 8022 ''pi''] sample_manager = Some m' \<and>
     map fst (tm_listeners m') = [3] \<and> fst ` set (tm_listeners m') \<subseteq> {2, 3}"
proof -
  let ?rs = "[sample_route 2 80 ''web'', sample_route 3 8022 ''pi'']"
  have "distinct (map lr_id ?rs)" by (simp add: sample_route_def)
  from tcp_routes_are_isolated [OF TrueI this, of sample_bind sample_manager]
  obtain m' where m': "tcp_setRoutes (\<lambda>_. True) sample_bind ?rs sample_manager = Some m'" "fst ` set (tm_listeners m') \<subseteq> lr_id ` set ?rs"
    by blast
  have "map fst (tm_listeners (the (tcp_setRoutes (\<lambda>_. True) sample_bind ?rs sample_manager))) = [3]" by code_simp
  with m' show ?thesis by (simp add: sample_route_def)
qed

text \<open>
  A TCP route whose target changes while its listening port stays is never updated: the new
  listener is bound before the old one is closed, so wherever a port in use cannot be bound again
  the change fails, in whatever list of routes it comes; the route keeps its old listener, whose
  socket stays open, so that every later attempt fails the same way. No removed listener holds
  the same port, which the operating system ensures.
\<close>

lemma tcp_stop_loop_keeps:
  assumes "tcp_stop_loop drained ids ls m = Some m'" "i \<in> ids"
    and "\<forall>(j, k) \<in> set ls. j \<notin> ids \<longrightarrow> tl_port k \<noteq> port"
  shows "tm_bindIp m' = tm_bindIp m \<and> map_of (tm_listeners m') i = map_of (tm_listeners m) i \<and>
    ((tm_bindIp m, port) \<in> set (tm_open m) \<longrightarrow> (tm_bindIp m, port) \<in> set (tm_open m'))"
  using assms
proof (induction ls arbitrary: m)
  case (Cons jl ls)
  obtain j k where jl: "jl = (j, k)" by force
  show ?case
  proof (cases "j \<in> ids")
    case False
    with Cons.prems jl obtain m1 where
      m1: "m1 = m\<lparr>tm_listeners := mdelete j (tm_listeners m), tm_open := remove1 (tm_bindIp m, tl_port k) (tm_open m)\<rparr>"
      and rest: "tcp_stop_loop drained ids ls m1 = Some m'" and "i \<noteq> j" "tl_port k \<noteq> port"
      by (auto simp: tcp_stopListener_def split: if_splits)
    with Cons.IH [OF rest] Cons.prems(2,3) show ?thesis by (simp add: in_set_remove1)
  qed (use Cons jl in auto)
qed simp

lemma tcp_retarget_never_applies:
  assumes "\<And>socks ip port. (ip, port) \<in> set socks \<Longrightarrow> \<exists>e. bnd socks ip port = Inl e"
    and "map_of (tm_listeners m) (lr_id r) = Some l" "tl_port l = lr_listen_port r"
    and "(tm_bindIp m, tl_port l) \<in> set (tm_open m)" "r \<in> set routes" "distinct (map lr_id routes)"
    and "\<forall>(j, k) \<in> set (tm_listeners m). j \<notin> lr_id ` set routes \<longrightarrow> tl_port k \<noteq> tl_port l"
    and "tcp_setRoutes drained bnd routes m = Some m'"
  shows "map_of (tm_listeners m') (lr_id r) = Some l \<and> (tm_bindIp m', tl_port l) \<in> set (tm_open m')"
proof -
  let ?keeps = "\<lambda>m. map_of (tm_listeners m) (lr_id r) = Some l \<and> (tm_bindIp m, tl_port l) \<in> set (tm_open m)"
  have step: "?keeps (tcp_apply_route bnd m q)" if keeps: "?keeps m" and q: "q \<in> set routes" for m q
  proof (cases "lr_id q = lr_id r")
    case True
    with q assms(5,6) have "q = r" by (auto simp: distinct_map dest: inj_onD)
    moreover obtain e where "bnd (tm_open m) (tm_bindIp m) (lr_listen_port r) = Inl e" using assms(1,3) keeps by metis
    ultimately show ?thesis using keeps by (simp add: tcp_apply_route_def tcp_transitionListener_def)
  next
    case False
    then show ?thesis using keeps
      by (auto simp: tcp_apply_route_def tcp_startListener_def tcp_transitionListener_def split: option.splits sum.splits)
  qed
  have fold: "?keeps (foldl (tcp_apply_route bnd) m qs)" if "?keeps m" "set qs \<subseteq> set routes" for m qs
    using that by (induction qs arbitrary: m) (auto simp: step)
  obtain m1 where m1: "tcp_stop_loop drained (lr_id ` set routes) (tm_listeners m) m = Some m1"
    and m': "m' = foldl (tcp_apply_route bnd) m1 routes"
    using assms(8) by (auto simp: tcp_setRoutes_def)
  have "?keeps m1" using tcp_stop_loop_keeps [OF m1, of "lr_id r" "tl_port l"] assms(2,4,5,7) by auto
  with fold m' show ?thesis by simp
qed

lemma tcp_retarget_example:
  "map_option tm_listeners (tcp_setRoutes (\<lambda>_. True) sample_bind [sample_route 2 8022 ''pi'', sample_route 1 2222 ''new-nas'']
      sample_manager) = Some [(1, \<lparr>tl_port = 2222, tl_host = ''nas'', tl_tport = 22, tl_requested = 2222\<rparr>),
       (2, \<lparr>tl_port = 8022, tl_host = ''pi'', tl_tport = 22, tl_requested = 8022\<rparr>)]"
  by code_simp

text \<open>
  Removing a route waits for its connections: while one is open the call does not return, and no
  other route of the new configuration is applied.
\<close>

lemma open_connection_blocks_all_routes:
  assumes "tm_listeners m = [(i, l)]" "i \<notin> lr_id ` set routes" "\<not> drained i"
  shows "tcp_setRoutes drained bnd routes m = None"
  using assms by (simp add: tcp_setRoutes_def tcp_stopListener_def)

end
