(* ===== verification/Http_Proxy.thy ===== *)
theory Http_Proxy
  imports Js_Values
begin

text \<open>
  The HTTP proxy's routing decisions: the configuration store with its diff
  (\<open>src/src/sync/configStore.js\<close>), the poller's back-off (\<open>src/src/sync/poller.js\<close>), the routing
  table (\<open>src/src/proxy/router.js\<close>), certificate pinning (\<open>src/src/proxy/tlsPin.js\<close>) and what the
  proxy does with a request (\<open>src/src/proxy/http.js\<close>). Connections are given by the events of
  their TLS socket.
\<close>

section \<open>Configuration store\<close>

record cs_l4 =
  cl_id :: int
  cl_listen_port :: nat
  cl_host :: string
  cl_port :: nat
  cl_wol_enabled :: bool
  cl_wol_mac :: "string option"

record http_route =
  hr_id :: int
  hr_domain :: string
  hr_host :: string
  hr_port :: nat
  hr_https :: bool
  hr_wol_enabled :: bool
  hr_wol_mac :: "string option"
  hr_fingerprint :: json

record gateway_config =
  gc_peer_id :: int
  gc_routes :: "http_route list"
  gc_l4_routes :: "cs_l4 list"
  gc_egress_routes :: "json list"

record config_store =
  cs_peerId :: "int option"
  cs_httpRoutes :: "http_route list"
  cs_l4Routes :: "cs_l4 list"
  cs_egressRoutes :: "json list"
  cs_hash :: "string option"

record l4_diff =
  ld_added :: "cs_l4 list"
  ld_removed :: "cs_l4 list"
  ld_changed :: "(cs_l4 \<times> nat) list"
  ld_unchanged :: bool

definition newConfigStore :: config_store where
  "newConfigStore = \<lparr>cs_peerId = None, cs_httpRoutes = [], cs_l4Routes = [], cs_egressRoutes = [], cs_hash = None\<rparr>"

definition l4_map :: "cs_l4 list \<Rightarrow> (int, cs_l4) jsmap" where
  "l4_map rs = foldl (\<lambda>m r. mset_at (cl_id r) r m) [] rs"

definition l4_differs :: "cs_l4 \<Rightarrow> cs_l4 \<Rightarrow> bool" where
  "l4_differs a b = (cl_listen_port a \<noteq> cl_listen_port b \<or> cl_host a \<noteq> cl_host b \<or> cl_port a \<noteq> cl_port b)"

definition l4_diff_of :: "cs_l4 list \<Rightarrow> cs_l4 list \<Rightarrow> l4_diff" where
  "l4_diff_of old new =
     (let oldL4 = l4_map old; newL4 = l4_map new
      in \<lparr>ld_added = map snd (filter (\<lambda>(i, nr). map_of oldL4 i = None) newL4),
          ld_removed = map snd (filter (\<lambda>(i, r). map_of newL4 i = None) oldL4),
          ld_changed = List.map_filter (\<lambda>(i, nr). case map_of oldL4 i of
             None \<Rightarrow> None | Some r \<Rightarrow> if l4_differs r nr then Some (nr, cl_listen_port r) else None) newL4,
          ld_unchanged = False\<rparr>)"

text \<open>The diff and the new store; \<open>change\<close> is emitted unless the diff says unchanged.\<close>

definition replaceConfig :: "gateway_config \<Rightarrow> string \<Rightarrow> config_store \<Rightarrow> l4_diff \<times> config_store" where
  "replaceConfig cfg newHash s =
     (if cs_hash s = Some newHash then (\<lparr>ld_added = [], ld_removed = [], ld_changed = [], ld_unchanged = True\<rparr>, s)
      else (l4_diff_of (cs_l4Routes s) (gc_l4_routes cfg),
            \<lparr>cs_peerId = Some (gc_peer_id cfg), cs_httpRoutes = gc_routes cfg, cs_l4Routes = gc_l4_routes cfg,
              cs_egressRoutes = gc_egress_routes cfg, cs_hash = Some newHash\<rparr>))"

definition findHttpRouteByDomain :: "string \<Rightarrow> config_store \<Rightarrow> http_route option" where
  "findHttpRouteByDomain domain s = List.find (\<lambda>r. hr_domain r = domain) (cs_httpRoutes s)"

definition upper_char :: "char \<Rightarrow> char" where
  "upper_char c = (if is_lower c then char_of (of_char c - 32 :: nat) else c)"

definition wol_match :: "string \<Rightarrow> bool \<Rightarrow> string option \<Rightarrow> bool" where
  "wol_match mac on m = (on \<and> (case m of None \<Rightarrow> False | Some x \<Rightarrow> x \<noteq> [] \<and> map upper_char x = map upper_char mac))"

definition isMacInWolWhitelist :: "string \<Rightarrow> config_store \<Rightarrow> bool" where
  "isMacInWolWhitelist mac s =
     (list_ex (\<lambda>r. wol_match mac (hr_wol_enabled r) (hr_wol_mac r)) (cs_httpRoutes s) \<or>
      list_ex (\<lambda>r. wol_match mac (cl_wol_enabled r) (cl_wol_mac r)) (cs_l4Routes s))"

section \<open>Polling\<close>

definition computeBackoff :: "nat \<Rightarrow> nat \<Rightarrow> nat \<Rightarrow> nat" where
  "computeBackoff fails baseMs maxMs = min (baseMs * 2 ^ fails) maxMs"

record poller =
  po_intervalMs :: nat
  po_baseMs :: nat
  po_maxMs :: nat
  po_fails :: nat
  po_running :: bool
  po_timer :: "nat option"

text \<open>A poll begins unless one is running, and its end schedules the next one.\<close>

definition poll_begin :: "poller \<Rightarrow> poller option" where
  "poll_begin p = (if po_running p then None else Some (p\<lparr>po_running := True\<rparr>))"

definition poll_end :: "bool \<Rightarrow> poller \<Rightarrow> poller" where
  "poll_end ok p =
     (if ok then p\<lparr>po_fails := 0, po_timer := Some (po_intervalMs p), po_running := False\<rparr>
      else p\<lparr>po_fails := po_fails p + 1, po_timer := Some (computeBackoff (po_fails p + 1) (po_baseMs p) (po_maxMs p)), po_running := False\<rparr>)"

section \<open>Fingerprints\<close>

definition finger_sep :: "char \<Rightarrow> bool" where
  "finger_sep c = (is_ws c \<or> c = CHR '':'' \<or> c = CHR ''-'')"

definition normalizeFingerprint :: "json \<Rightarrow> string option" where
  "normalizeFingerprint raw =
     (case raw of
        JStr t \<Rightarrow>
          let u = toLower (trim t);
              v = (if prefix ''sha256:'' u then drop 7 u else u);
              hex = filter (\<lambda>c. \<not> finger_sep c) v
          in if re_class is_hex_lower 64 64 hex then Some hex else None
      | _ \<Rightarrow> None)"

section \<open>Routing table\<close>

record route_target =
  rt_host :: string
  rt_port :: nat
  rt_https :: bool
  rt_wolMac :: "string option"
  rt_routeId :: int
  rt_pin :: "string option"
  rt_pinInvalid :: bool

definition pin_configured :: "json \<Rightarrow> bool" where
  "pin_configured raw = (raw \<noteq> JUndef \<and> raw \<noteq> JNull \<and> raw \<noteq> JStr [])"

definition target_of :: "http_route \<Rightarrow> route_target" where
  "target_of r =
     (let configured = pin_configured (hr_fingerprint r);
          fp = (if configured then normalizeFingerprint (hr_fingerprint r) else None)
      in \<lparr>rt_host = hr_host r, rt_port = hr_port r, rt_https = hr_https r,
          rt_wolMac = (if hr_wol_enabled r then (case hr_wol_mac r of Some [] \<Rightarrow> None | m \<Rightarrow> m) else None),
          rt_routeId = hr_id r, rt_pin = fp, rt_pinInvalid = (hr_https r \<and> configured \<and> fp = None)\<rparr>)"

type_synonym routing_table = "(string, route_target) jsmap"

definition router_setRoutes :: "http_route list \<Rightarrow> routing_table" where
  "router_setRoutes routes = foldl (\<lambda>m r. mset_at (hr_domain r) (target_of r) m) [] routes"

definition router_resolve :: "routing_table \<Rightarrow> string \<Rightarrow> route_target option" where
  "router_resolve m domain = map_of m domain"

section \<open>Pinned agents\<close>

record pinned_agent =
  pa_host :: string
  pa_port :: nat
  pa_fingerprint :: "string option"

definition MAX_CACHED_AGENTS :: nat where
  "MAX_CACHED_AGENTS = 256"

definition agent_key :: "string \<Rightarrow> nat \<Rightarrow> string \<Rightarrow> string" where
  "agent_key host port fp = host @ ''|'' @ dec_string port @ ''|'' @ fp"

definition getPinnedAgent ::
  "string \<Rightarrow> nat \<Rightarrow> string \<Rightarrow> (string, pinned_agent) jsmap \<Rightarrow> pinned_agent \<times> (string, pinned_agent) jsmap" where
  "getPinnedAgent host port fp cache =
     (let key = agent_key host port fp
      in case map_of cache key of
           Some a \<Rightarrow> (a, cache)
         | None \<Rightarrow>
             let cache1 = (if MAX_CACHED_AGENTS \<le> length cache then [] else cache);
                 a = \<lparr>pa_host = host, pa_port = port, pa_fingerprint = Some fp\<rparr>
             in (a, mset_at key a cache1))"

text \<open>\<open>_verifyPeer\<close>: whether the leaf certificate's fingerprint is the pin.\<close>

definition verifyPeer :: "pinned_agent \<Rightarrow> json \<Rightarrow> bool" where
  "verifyPeer a peer =
     (let seen = normalizeFingerprint peer
      in seen \<noteq> None \<and> pa_fingerprint a \<noteq> None \<and> seen = pa_fingerprint a)"

text \<open>The events of the socket while the agent waits; the first one settles the connection.\<close>

datatype conn_event = Secure_connect json | Socket_error | Handshake_timeout

datatype conn_outcome = Waiting | Handed | Failed

definition settle :: "bool \<Rightarrow> conn_outcome \<Rightarrow> conn_outcome" where
  "settle err out = (if out \<noteq> Waiting then out else if err then Failed else Handed)"

fun conn_step :: "pinned_agent \<Rightarrow> conn_outcome \<Rightarrow> conn_event \<Rightarrow> conn_outcome" where
  "conn_step a out (Secure_connect peer) = settle (\<not> verifyPeer a peer) out"
| "conn_step a out Socket_error = settle True out"
| "conn_step a out Handshake_timeout = settle True out"

definition createConnection :: "pinned_agent \<Rightarrow> conn_event list \<Rightarrow> conn_outcome" where
  "createConnection a evs = foldl (conn_step a) Waiting evs"

section \<open>Requests\<close>

text \<open>The first header that is present and not empty names the domain.\<close>

definition target_domain :: "string option \<Rightarrow> string option \<Rightarrow> string" where
  "target_domain gatewayDomain host =
     (case gatewayDomain of
        Some d \<Rightarrow> if d \<noteq> [] then d else (case host of Some h \<Rightarrow> h | None \<Rightarrow> [])
      | None \<Rightarrow> (case host of Some h \<Rightarrow> h | None \<Rightarrow> []))"

datatype proxy_decision =
    No_route
  | Pin_unusable
  | Forward string "pinned_agent option"

definition proxyOptionsFor ::
  "route_target \<Rightarrow> (string, pinned_agent) jsmap \<Rightarrow> proxy_decision \<times> (string, pinned_agent) jsmap" where
  "proxyOptionsFor t cache =
     (let url = (if rt_https t then ''https'' else ''http'') @ ''://'' @ rt_host t @ '':'' @ dec_string (rt_port t)
      in case rt_pin t of
           Some fp \<Rightarrow>
             if rt_https t
             then (case getPinnedAgent (rt_host t) (rt_port t) fp cache of (a, cache') \<Rightarrow> (Forward url (Some a), cache'))
             else (Forward url None, cache)
         | None \<Rightarrow> (Forward url None, cache))"

definition proxy_request ::
  "routing_table \<Rightarrow> string option \<Rightarrow> string option \<Rightarrow> (string, pinned_agent) jsmap \<Rightarrow> proxy_decision \<times> (string, pinned_agent) jsmap" where
  "proxy_request table gatewayDomain host cache =
     (case router_resolve table (target_domain gatewayDomain host) of
        None \<Rightarrow> (No_route, cache)
      | Some t \<Rightarrow> if rt_pinInvalid t then (Pin_unusable, cache) else proxyOptionsFor t cache)"

text \<open>The answer to a failed request: whether to wake the target, and the status.\<close>

datatype proxy_error = Refused_conn | Pin_mismatch | Other_error

definition error_status :: "proxy_error \<Rightarrow> nat" where
  "error_status e = (if e = Refused_conn \<or> e = Pin_mismatch then 502 else 504)"

definition wake_target :: "routing_table \<Rightarrow> string \<Rightarrow> proxy_error \<Rightarrow> string option" where
  "wake_target table domain e =
     (if e = Refused_conn then (case router_resolve table domain of None \<Rightarrow> None | Some t \<Rightarrow> rt_wolMac t) else None)"

section \<open>The diff is exact\<close>

lemma l4_map_of:
  "distinct (map cl_id rs) \<Longrightarrow> l4_map rs = map (\<lambda>r. (cl_id r, r)) rs"
proof (induction rs rule: rev_induct)
  case (snoc r rs)
  then have "cl_id r \<notin> fst ` set (map (\<lambda>r. (cl_id r, r)) rs)" by auto
  with snoc show ?case by (simp add: l4_map_def mset_at_absent)
qed (simp add: l4_map_def)

lemma l4_lookup: "distinct (map cl_id rs) \<Longrightarrow> map_of (l4_map rs) i = List.find (\<lambda>r. cl_id r = i) rs"
  by (simp add: l4_map_of) (induction rs; auto)

text \<open>
  Added, removed and changed are exactly the routes whose id is new, gone, or kept with another
  port or target; a kept route that is not listed has the same port and target as before.
\<close>

lemma l4_diff_exact:
  assumes "distinct (map cl_id old)" "distinct (map cl_id new)"
  shows "set (ld_added (l4_diff_of old new)) = {r \<in> set new. cl_id r \<notin> cl_id ` set old}"
    "set (ld_removed (l4_diff_of old new)) = {r \<in> set old. cl_id r \<notin> cl_id ` set new}"
    "set (ld_changed (l4_diff_of old new)) =
       {(r, p). r \<in> set new \<and> (\<exists>q \<in> set old. cl_id q = cl_id r \<and> l4_differs q r \<and> p = cl_listen_port q)}"
proof -
  have m: "map_of (map (\<lambda>r. (cl_id r, r)) rs) i = None \<longleftrightarrow> i \<notin> cl_id ` set rs" for rs and i :: int
    by (simp add: map_of_eq_None_iff image_image)
  have s: "map_of (map (\<lambda>r. (cl_id r, r)) old) i = Some q \<longleftrightarrow> q \<in> set old \<and> cl_id q = i" for i q
    using assms(1) by (auto simp: map_of_eq_Some_iff o_def)
  show "set (ld_added (l4_diff_of old new)) = {r \<in> set new. cl_id r \<notin> cl_id ` set old}"
    "set (ld_removed (l4_diff_of old new)) = {r \<in> set old. cl_id r \<notin> cl_id ` set new}"
    by (simp_all add: l4_diff_of_def l4_map_of assms Let_def filter_map o_def m)
  show "set (ld_changed (l4_diff_of old new)) =
       {(r, p). r \<in> set new \<and> (\<exists>q \<in> set old. cl_id q = cl_id r \<and> l4_differs q r \<and> p = cl_listen_port q)}"
  proof -
    have "(case map_of (map (\<lambda>r. (cl_id r, r)) old) (cl_id nr) of None \<Rightarrow> None
        | Some r \<Rightarrow> if l4_differs r nr then Some (nr, cl_listen_port r) else None) = Some (r, p) \<longleftrightarrow>
      r = nr \<and> (\<exists>q \<in> set old. cl_id q = cl_id r \<and> l4_differs q r \<and> p = cl_listen_port q)" for nr r p
    proof (cases "map_of (map (\<lambda>r. (cl_id r, r)) old) (cl_id nr)")
      case None
      then have "cl_id nr \<notin> cl_id ` set old" using m by blast
      with None show ?thesis by (auto simp: image_iff)
    next
      case (Some o1)
      then have u: "q \<in> set old \<and> cl_id q = cl_id nr \<longleftrightarrow> q = o1" for q using s by (metis option.inject)
      have ex: "(\<exists>q \<in> set old. cl_id q = cl_id nr \<and> l4_differs q nr \<and> p = cl_listen_port q) \<longleftrightarrow> l4_differs o1 nr \<and> p = cl_listen_port o1"
      proof
        assume "\<exists>q \<in> set old. cl_id q = cl_id nr \<and> l4_differs q nr \<and> p = cl_listen_port q"
        then obtain q where "q \<in> set old \<and> cl_id q = cl_id nr" "l4_differs q nr" "p = cl_listen_port q" by blast
        with u [of q] show "l4_differs o1 nr \<and> p = cl_listen_port o1" by simp
      next
        assume "l4_differs o1 nr \<and> p = cl_listen_port o1"
        with u [of o1] show "\<exists>q \<in> set old. cl_id q = cl_id nr \<and> l4_differs q nr \<and> p = cl_listen_port q" by blast
      qed
      show ?thesis
      proof (cases "r = nr")
        case True
        show ?thesis unfolding True Some using ex by auto
      qed (simp add: Some)
    qed
    then show ?thesis by (auto simp: l4_diff_of_def l4_map_of assms Let_def set_map_filter)
  qed
qed

lemma poll_backoff_bounded: "po_timer (poll_end ok p) = Some t \<Longrightarrow> t \<le> max (po_intervalMs p) (po_maxMs p)"
  by (auto simp: poll_end_def computeBackoff_def split: if_splits)

section \<open>A pinned backend is the only one that is reached\<close>

lemma router_lookup:
  "map_of (foldl (\<lambda>m r. mset_at (hr_domain r) (target_of r) m) m routes) d =
     (case List.find (\<lambda>r. hr_domain r = d) (rev routes) of None \<Rightarrow> map_of m d | Some r \<Rightarrow> Some (target_of r))"
  by (induction routes rule: rev_induct) (auto split: option.splits)

lemma bar_no_digit: "CHR ''|'' \<notin> set (dec_string n)"
  using dec_string_digits [of n] by (auto simp: list_all_iff is_digit_def Let_def)

lemma last_bar:
  assumes "a @ CHR ''|'' # b = c @ CHR ''|'' # d" "CHR ''|'' \<notin> set b" "CHR ''|'' \<notin> set d"
  shows "a = c \<and> b = d"
proof -
  have "rev b @ CHR ''|'' # rev a = rev d @ CHR ''|'' # rev c" using arg_cong [OF assms(1), of rev] by simp
  moreover have "takeWhile (\<lambda>x. x \<noteq> CHR ''|'') (rev b @ CHR ''|'' # rev a) = rev b"
    "takeWhile (\<lambda>x. x \<noteq> CHR ''|'') (rev d @ CHR ''|'' # rev c) = rev d"
    using assms(2,3) by (auto simp: takeWhile_append)
  ultimately show ?thesis by simp
qed

lemma agent_key_inject:
  assumes "agent_key h p f = agent_key h' p' f'" "CHR ''|'' \<notin> set f" "CHR ''|'' \<notin> set f'"
  shows "h = h' \<and> p = p' \<and> f = f'"
proof -
  have "(h @ ''|'' @ dec_string p) @ CHR ''|'' # f = (h' @ ''|'' @ dec_string p') @ CHR ''|'' # f'" using assms(1) by (simp add: agent_key_def)
  from last_bar [OF this assms(2,3)] have f: "h @ CHR ''|'' # dec_string p = h' @ CHR ''|'' # dec_string p'" "f = f'" by auto
  from last_bar [OF f(1) bar_no_digit bar_no_digit] have "h = h'" "dec_string p = dec_string p'" by auto
  with f(2) show ?thesis using arg_cong [of _ _ dec_value] dec_value_dec_string by metis
qed

text \<open>The cache of agents: each under its own key, at most 256 of them.\<close>

definition agents_ok :: "(string, pinned_agent) jsmap \<Rightarrow> bool" where
  "agents_ok cache =
     (length cache \<le> MAX_CACHED_AGENTS \<and>
      (\<forall>(k, a) \<in> set cache. \<exists>fp. pa_fingerprint a = Some fp \<and> CHR ''|'' \<notin> set fp \<and> k = agent_key (pa_host a) (pa_port a) fp))"

lemma getPinnedAgent_ok:
  assumes "agents_ok cache" "CHR ''|'' \<notin> set fp" "getPinnedAgent host port fp cache = (a, cache')"
  shows "a = \<lparr>pa_host = host, pa_port = port, pa_fingerprint = Some fp\<rparr> \<and> agents_ok cache'"
proof (cases "map_of cache (agent_key host port fp)")
  case (Some b)
  then obtain fp' where "pa_fingerprint b = Some fp'" "CHR ''|'' \<notin> set fp'"
      "agent_key host port fp = agent_key (pa_host b) (pa_port b) fp'"
    using assms(1) map_of_SomeD [OF Some] by (auto simp: agents_ok_def)
  with agent_key_inject [of host port fp "pa_host b" "pa_port b" fp'] assms Some show ?thesis
    by (simp add: getPinnedAgent_def Let_def)
next
  case None
  let ?k = "agent_key host port fp" and ?a = "\<lparr>pa_host = host, pa_port = port, pa_fingerprint = Some fp\<rparr>"
  have absent: "?k \<notin> fst ` set cache" using None by (simp add: map_of_eq_None_iff)
  have "agents_ok (mset_at ?k ?a (if MAX_CACHED_AGENTS \<le> length cache then [] else cache))"
    using assms(1,2) absent by (auto simp: agents_ok_def mset_at_absent MAX_CACHED_AGENTS_def)
  with None assms(3) show ?thesis by (auto simp: getPinnedAgent_def Let_def)
qed

lemma normalizeFingerprint_hex: "normalizeFingerprint raw = Some fp \<Longrightarrow> CHR ''|'' \<notin> set fp"
  by (auto simp: normalizeFingerprint_def Let_def re_class_def list_all_iff is_hex_lower_def is_digit_def split: json.splits if_splits)

lemma settled_stays: "out \<noteq> Waiting \<Longrightarrow> foldl (conn_step a) out evs = out"
proof (induction evs)
  case (Cons e evs)
  then show ?case by (cases e) (simp_all add: settle_def)
qed simp

lemma createConnection_Handed:
  assumes "createConnection a evs = Handed"
  shows "\<exists>peer rest. evs = Secure_connect peer # rest \<and> verifyPeer a peer"
proof (cases evs)
  case (Cons e rest)
  then show ?thesis
    using assms settled_stays [of Failed a rest] by (cases e) (auto simp: createConnection_def settle_def split: if_splits)
qed (use assms in \<open>simp add: createConnection_def\<close>)

text \<open>The address of a route's backend.\<close>

definition backend_url :: "http_route \<Rightarrow> string" where
  "backend_url r = (if hr_https r then ''https'' else ''http'') @ ''://'' @ hr_host r @ '':'' @ dec_string (hr_port r)"

text \<open>
  C37. Certificate pinning, for every route. When the backend of a domain's route is HTTPS and the
  route has a pin, a request for the domain is forwarded to the route's host and port only
  through an agent with exactly this pin, and its connection is handed over only after the
  backend has presented a certificate with the pinned fingerprint; a pin that cannot be read
  refuses the request instead of dropping the check. On a plain-http route there is no
  certificate and the pin, readable or not, is inert; there and on an HTTPS route without a
  pin the request is forwarded to the route's host and port without a pinned agent.
\<close>

theorem pinned_backend_only:
  assumes "List.find (\<lambda>r. hr_domain r = target_domain gd host) (rev routes) = Some r"
    and "agents_ok cache"
    and "proxy_request (router_setRoutes routes) gd host cache = (decision, cache')"
  shows "agents_ok cache' \<and>
    (if hr_https r \<and> pin_configured (hr_fingerprint r)
     then (case normalizeFingerprint (hr_fingerprint r) of
       None \<Rightarrow> decision = Pin_unusable
     | Some pin \<Rightarrow> \<exists>a. decision = Forward (backend_url r) (Some a) \<and> pa_host a = hr_host r \<and> pa_port a = hr_port r \<and>
         (\<forall>evs. createConnection a evs = Handed \<longrightarrow>
            (\<exists>peer rest. evs = Secure_connect peer # rest \<and> normalizeFingerprint peer = Some pin)))
     else decision = Forward (backend_url r) None \<and> cache' = cache)"
proof -
  have t: "router_resolve (router_setRoutes routes) (target_domain gd host) = Some (target_of r)"
    using router_lookup [of "[]" routes "target_domain gd host"] assms(1) by (simp add: router_resolve_def router_setRoutes_def)
  show ?thesis
  proof (cases "hr_https r \<and> pin_configured (hr_fingerprint r)")
    case False
    with t assms(2,3) show ?thesis
      by (auto simp: proxy_request_def proxyOptionsFor_def target_of_def backend_url_def Let_def split: option.splits if_splits)
  next
    case pinned: True
    show ?thesis
    proof (cases "normalizeFingerprint (hr_fingerprint r)")
      case None
      with t pinned assms show ?thesis by (auto simp: proxy_request_def target_of_def Let_def)
    next
      case (Some pin)
      obtain a c where a: "getPinnedAgent (hr_host r) (hr_port r) pin cache = (a, c)" by (cases "getPinnedAgent (hr_host r) (hr_port r) pin cache")
      from getPinnedAgent_ok [OF assms(2) normalizeFingerprint_hex [OF Some] a]
      have ag: "a = \<lparr>pa_host = hr_host r, pa_port = hr_port r, pa_fingerprint = Some pin\<rparr>" "agents_ok c" by auto
      have "decision = Forward (backend_url r) (Some a)" "cache' = c"
        using assms(3) pinned t Some a by (auto simp: proxy_request_def proxyOptionsFor_def target_of_def backend_url_def Let_def)
      moreover have "\<exists>peer rest. evs = Secure_connect peer # rest \<and> normalizeFingerprint peer = Some pin" if "createConnection a evs = Handed" for evs
        using createConnection_Handed [OF that] ag(1) by (auto simp: verifyPeer_def Let_def)
      ultimately show ?thesis using Some ag pinned by auto
    qed
  qed
qed

definition sample_http_route :: http_route where
  "sample_http_route = \<lparr>hr_id = 7, hr_domain = ''nas.home'', hr_host = ''10.0.0.5'', hr_port = 5001, hr_https = True,
     hr_wol_enabled = False, hr_wol_mac = None, hr_fingerprint = JStr (''SHA256:'' @ replicate 64 CHR ''A'')\<rparr>"

theorem pinned_backend_only_witness:
  "\<exists>url a. fst (proxy_request (router_setRoutes [sample_http_route]) (Some ''nas.home'') None []) = Forward url (Some a) \<and>
     createConnection a [Secure_connect (JStr (replicate 64 CHR ''a''))] = Handed \<and>
     createConnection a [Secure_connect (JStr (replicate 64 CHR ''b''))] = Failed \<and> pa_host a = ''10.0.0.5''"
proof -
  let ?p = "proxy_request (router_setRoutes [sample_http_route]) (Some ''nas.home'') None []"
  have f: "List.find (\<lambda>r. hr_domain r = target_domain (Some ''nas.home'') None) (rev [sample_http_route]) = Some sample_http_route"
    and h: "hr_https sample_http_route" "pin_configured (hr_fingerprint sample_http_route)"
    and n: "normalizeFingerprint (hr_fingerprint sample_http_route) = Some (replicate 64 CHR ''a'')"
    and d: "fst ?p = Forward ''https://10.0.0.5:5001''
      (Some \<lparr>pa_host = ''10.0.0.5'', pa_port = 5001, pa_fingerprint = Some (replicate 64 CHR ''a'')\<rparr>)"
    and ok: "createConnection \<lparr>pa_host = ''10.0.0.5'', pa_port = 5001, pa_fingerprint = Some (replicate 64 CHR ''a'')\<rparr>
      [Secure_connect (JStr (replicate 64 CHR ''a''))] = Handed"
    and bad: "createConnection \<lparr>pa_host = ''10.0.0.5'', pa_port = 5001, pa_fingerprint = Some (replicate 64 CHR ''a'')\<rparr>
      [Secure_connect (JStr (replicate 64 CHR ''b''))] = Failed"
    by code_simp+
  have "agents_ok []" by (simp add: agents_ok_def)
  from pinned_backend_only [OF f this, of "fst ?p" "snd ?p"] h n d ok bad show ?thesis by auto
qed

end
