(* ===== verification/Home_Monitor.thy ===== *)
theory Home_Monitor
  imports Js_Values
begin

text \<open>
  What the gateway concludes from its measurements: five-minute values and outages of the Internet
  connection (\<open>src/src/inetq/aggregate.js\<close>, with \<open>mean\<close> of \<open>src/src/inetq/probe.js\<close>) and the presence
  of devices in the LAN with its queue of reports (\<open>src/src/presence/presence.js\<close>). The network
  itself (pings, neighbour table, probes, sweeps, posts) is given by its answers.
\<close>

section \<open>Five-minute values\<close>

text \<open>\<open>Math.round(x * 10) / 10\<close>, rounding halves up.\<close>

definition round1 :: "rat \<Rightarrow> rat" where
  "round1 x = of_int \<lfloor>x * 10 + 1 / 2\<rfloor> / 10"

definition mean :: "rat list \<Rightarrow> rat option" where
  "mean xs = (if xs = [] then None else Some (round1 (sum_list xs / of_nat (length xs))))"

record measurement =
  ms_at :: int
  ms_rttRouter :: "rat option"
  ms_rttInet :: "rat option"
  ms_rttServer :: "rat option"
  ms_sent :: nat
  ms_received :: nat

record bucket =
  bk_t :: int
  bk_router :: "rat list"
  bk_inet :: "rat list"
  bk_server :: "rat list"
  bk_sent :: nat
  bk_received :: nat
  bk_n :: nat

record interval =
  iv_t :: int
  iv_rttRouter :: "rat option"
  iv_rttInet :: "rat option"
  iv_lossPct :: "rat option"
  iv_rttServer :: "rat option"
  iv_n :: nat

definition BUCKET_MS :: int where
  "BUCKET_MS = 5 * 60000"

definition finish_bucket :: "bucket \<Rightarrow> interval" where
  "finish_bucket b =
     \<lparr>iv_t = bk_t b, iv_rttRouter = mean (bk_router b), iv_rttInet = mean (bk_inet b),
      iv_lossPct = (if 0 < bk_sent b
        then Some (of_int \<lfloor>(of_int (int (bk_sent b) - int (bk_received b)) / of_nat (bk_sent b)) * 1000 + 1 / (2 :: rat)\<rfloor> / 10) else None),
      iv_rttServer = mean (bk_server b), iv_n = bk_n b\<rparr>"

definition push_some :: "'a option \<Rightarrow> 'a list \<Rightarrow> 'a list" where
  "push_some v xs = (case v of None \<Rightarrow> xs | Some x \<Rightarrow> xs @ [x])"

definition add_measurement :: "int \<Rightarrow> measurement \<Rightarrow> bucket option \<Rightarrow> interval option \<times> bucket" where
  "add_measurement bucketMs m cur =
     (let t = ms_at m div bucketMs * bucketMs;
          closed = (case cur of Some b \<Rightarrow> if bk_t b \<noteq> t then Some (finish_bucket b) else None | None \<Rightarrow> None);
          b = (case cur of
                 Some b \<Rightarrow> if bk_t b \<noteq> t then \<lparr>bk_t = t, bk_router = [], bk_inet = [], bk_server = [], bk_sent = 0, bk_received = 0, bk_n = 0\<rparr> else b
               | None \<Rightarrow> \<lparr>bk_t = t, bk_router = [], bk_inet = [], bk_server = [], bk_sent = 0, bk_received = 0, bk_n = 0\<rparr>)
      in (closed, \<lparr>bk_t = bk_t b, bk_router = push_some (ms_rttRouter m) (bk_router b), bk_inet = push_some (ms_rttInet m) (bk_inet b),
            bk_server = push_some (ms_rttServer m) (bk_server b), bk_sent = bk_sent b + ms_sent m,
            bk_received = bk_received b + ms_received m, bk_n = bk_n b + 1\<rparr>))"

definition flush_bucket :: "int \<Rightarrow> int \<Rightarrow> bucket option \<Rightarrow> interval option \<times> bucket option" where
  "flush_bucket bucketMs now cur =
     (case cur of
        Some b \<Rightarrow> if bk_t b + bucketMs \<le> now then (Some (finish_bucket b), None) else (None, cur)
      | None \<Rightarrow> (None, None))"

section \<open>Outages\<close>

datatype cause = Router | Isp

record suspect =
  su_at :: int
  su_routerDown :: bool

record open_outage =
  oo_start :: int
  oo_cause :: cause
  oo_lastDownAt :: int

record detector =
  od_confirmMs :: int
  od_gapMs :: int
  od_suspect :: "suspect option"
  od_open :: "open_outage option"

record outage =
  ou_start :: int
  ou_end :: "int option"
  ou_cause :: cause

text \<open>A measurement as the detector sees it; without a router its answer is unknown.\<close>

record sighting =
  sg_at :: int
  sg_inetOk :: bool
  sg_routerOk :: "bool option"

text \<open>A saved outage: \<open>None\<close> stands for a start that is not finite and for a time that is no number.\<close>

record saved_outage =
  sv_start :: "int option"
  sv_cause :: string
  sv_lastDownAt :: "int option"

definition restore_open :: "saved_outage option \<Rightarrow> open_outage option" where
  "restore_open saved =
     (case saved of
        None \<Rightarrow> None
      | Some v \<Rightarrow>
          (case sv_start v of
             None \<Rightarrow> None
           | Some t \<Rightarrow> Some \<lparr>oo_start = t, oo_cause = (if sv_cause v = ''router'' then Router else Isp),
               oo_lastDownAt = (case sv_lastDownAt v of None \<Rightarrow> t | Some l \<Rightarrow> if l = 0 then t else l)\<rparr>))"

definition newDetector :: "int \<Rightarrow> int \<Rightarrow> saved_outage option \<Rightarrow> detector" where
  "newDetector confirmMs gapMs saved =
     \<lparr>od_confirmMs = confirmMs, od_gapMs = gapMs, od_suspect = None, od_open = restore_open saved\<rparr>"

definition active :: "detector \<Rightarrow> bool" where
  "active d = (od_suspect d \<noteq> None \<or> od_open d \<noteq> None)"

definition observe :: "sighting \<Rightarrow> detector \<Rightarrow> outage option \<times> detector" where
  "observe m d =
     (if sg_inetOk m then
        (let d1 = d\<lparr>od_suspect := None\<rparr>
         in case od_open d1 of
              None \<Rightarrow> (None, d1)
            | Some o1 \<Rightarrow>
                (Some \<lparr>ou_start = oo_start o1,
                   ou_end = Some (if od_gapMs d < sg_at m - oo_lastDownAt o1 then oo_lastDownAt o1 else sg_at m),
                   ou_cause = oo_cause o1\<rparr>, d1\<lparr>od_open := None\<rparr>))
      else
        (let routerDown = (sg_routerOk m = Some False)
         in case od_open d of
              Some o1 \<Rightarrow>
                (let o2 = o1\<lparr>oo_lastDownAt := sg_at m\<rparr>
                 in if routerDown \<and> oo_cause o2 \<noteq> Router
                    then (Some \<lparr>ou_start = oo_start o2, ou_end = None, ou_cause = Router\<rparr>, d\<lparr>od_open := Some (o2\<lparr>oo_cause := Router\<rparr>)\<rparr>)
                    else (None, d\<lparr>od_open := Some o2\<rparr>))
            | None \<Rightarrow>
                (case od_suspect d of
                   None \<Rightarrow> (None, d\<lparr>od_suspect := Some \<lparr>su_at = sg_at m, su_routerDown = routerDown\<rparr>\<rparr>)
                 | Some s \<Rightarrow>
                     (let s1 = (if routerDown then s\<lparr>su_routerDown := True\<rparr> else s)
                      in if od_confirmMs d \<le> sg_at m - su_at s1
                         then (let o1 = \<lparr>oo_start = su_at s1, oo_cause = (if su_routerDown s1 then Router else Isp), oo_lastDownAt = sg_at m\<rparr>
                               in (Some \<lparr>ou_start = oo_start o1, ou_end = None, ou_cause = oo_cause o1\<rparr>,
                                   d\<lparr>od_open := Some o1, od_suspect := None\<rparr>))
                         else (None, d\<lparr>od_suspect := Some s1\<rparr>)))))"

definition observe_all :: "sighting list \<Rightarrow> detector \<Rightarrow> detector" where
  "observe_all ms d = foldl (\<lambda>d m. snd (observe m d)) d ms"

section \<open>Presence\<close>

definition MAX_QUEUE :: nat where
  "MAX_QUEUE = 256"

record presence_state =
  ps_online :: "bool option"
  ps_lastSeen :: "int option"
  ps_since :: int

record presence_event =
  pe_mac :: string
  pe_online :: bool
  pe_at :: int
  pe_lastSeen :: "int option"

record presence =
  pr_enabled :: bool
  pr_macs :: "string list"
  pr_awayAfterSec :: int
  pr_state :: "(string, presence_state) jsmap"
  pr_ipCache :: "(string, string) jsmap"
  pr_queue :: "presence_event list"

definition newPresence :: presence where
  "newPresence = \<lparr>pr_enabled = False, pr_macs = [], pr_awayAfterSec = 600, pr_state = [], pr_ipCache = [], pr_queue = []\<rparr>"

definition presence_apply :: "int \<Rightarrow> bool \<Rightarrow> string list \<Rightarrow> int \<Rightarrow> presence \<Rightarrow> presence" where
  "presence_apply now enabled macs awayAfterSec p =
     (let ms = (if enabled then macs else []);
          kept = filter (\<lambda>(m, _). m \<in> set ms) (pr_state p);
          st = foldl (\<lambda>s m. if m \<in> fst ` set s then s else s @ [(m, \<lparr>ps_online = None, ps_lastSeen = None, ps_since = now\<rparr>)]) kept (uniq ms)
      in \<lparr>pr_enabled = enabled, pr_macs = ms, pr_awayAfterSec = awayAfterSec, pr_state = st,
          pr_ipCache = filter (\<lambda>(m, _). m \<in> set ms \<or> m \<notin> fst ` set (pr_state p)) (pr_ipCache p),
          pr_queue = (if enabled then pr_queue p else [])\<rparr>)"

text \<open>One device of \<open>transitions\<close>: its new state and the event, if any.\<close>

definition transition :: "bool \<Rightarrow> int \<Rightarrow> int \<Rightarrow> string \<Rightarrow> presence_state \<Rightarrow> presence_state \<times> presence_event option" where
  "transition seen awayMs now mac st =
     (if seen then
        (let st1 = st\<lparr>ps_lastSeen := Some now\<rparr>
         in if ps_online st1 \<noteq> Some True
            then (st1\<lparr>ps_online := Some True\<rparr>, Some \<lparr>pe_mac = mac, pe_online = True, pe_at = now, pe_lastSeen = Some now\<rparr>)
            else (st1, None))
      else if ps_online st \<noteq> Some False \<and> awayMs \<le> now - (case ps_lastSeen st of Some t \<Rightarrow> t | None \<Rightarrow> ps_since st)
      then (st\<lparr>ps_online := Some False\<rparr>, Some \<lparr>pe_mac = mac, pe_online = False, pe_at = now, pe_lastSeen = ps_lastSeen st\<rparr>)
      else (st, None))"

definition transitions :: "string set \<Rightarrow> int \<Rightarrow> presence \<Rightarrow> presence_event list \<times> presence" where
  "transitions seen now p =
     (let rs = map (\<lambda>(mac, st). (mac, transition (mac \<in> seen) (pr_awayAfterSec p * 1000) now mac st)) (pr_state p)
      in (List.map_filter (\<lambda>(mac, st, ev). ev) rs, p\<lparr>pr_state := map (\<lambda>(mac, st, ev). (mac, st)) rs\<rparr>))"

text \<open>\<open>_flush\<close>: the flag says whether it returned or threw; nothing is posted from an empty queue.\<close>

definition presence_flush :: "bool \<Rightarrow> presence \<Rightarrow> bool \<times> presence" where
  "presence_flush posted p =
     (if pr_queue p = [] then (True, p)
      else if posted then (True, p\<lparr>pr_queue := drop (min MAX_QUEUE (length (pr_queue p))) (pr_queue p)\<rparr>)
      else (False, p))"

text \<open>\<open>tick\<close>: the devices seen (\<open>None\<close> when detecting them threw), then the queue and the report.\<close>

definition presence_tick :: "string set option \<Rightarrow> int \<Rightarrow> bool \<Rightarrow> presence \<Rightarrow> presence_event list \<times> presence" where
  "presence_tick seen now posted p =
     (if \<not> pr_enabled p then ([], p)
      else case seen of
             None \<Rightarrow> ([], p)
           | Some s \<Rightarrow>
               (let (events, p1) = transitions (if pr_state p = [] then {} else s) now p;
                    q = pr_queue p1 @ events;
                    p2 = (if events = [] then p1 else p1\<lparr>pr_queue := drop (length q - MAX_QUEUE) q\<rparr>)
                in (events, snd (presence_flush posted p2))))"

definition presence_home :: "presence \<Rightarrow> nat" where
  "presence_home p = length (filter (\<lambda>(_, st). ps_online st = Some True) (pr_state p))"

section \<open>What counts as an outage\<close>

definition router_failed :: "sighting list \<Rightarrow> bool" where
  "router_failed ds = list_ex (\<lambda>m. sg_routerOk m = Some False) ds"

text \<open>The detector after a run of unanswered measurements that follows a quiet state.\<close>

definition after_run :: "sighting list \<Rightarrow> detector \<Rightarrow> detector" where
  "after_run ds d =
     (if od_confirmMs d \<le> sg_at (last ds) - sg_at (hd ds)
      then d\<lparr>od_open := Some \<lparr>oo_start = sg_at (hd ds), oo_cause = (if router_failed ds then Router else Isp), oo_lastDownAt = sg_at (last ds)\<rparr>\<rparr>
      else d\<lparr>od_suspect := Some \<lparr>su_at = sg_at (hd ds), su_routerDown = router_failed ds\<rparr>\<rparr>)"

lemma observe_snoc: "observe_all (ds @ [m]) d = snd (observe m (observe_all ds d))"
  by (simp add: observe_all_def)

lemma observe_run:
  assumes "\<not> active d" "0 < od_confirmMs d"
  shows "ds \<noteq> [] \<Longrightarrow> list_all (\<lambda>m. \<not> sg_inetOk m) ds \<Longrightarrow> sorted (map sg_at ds) \<Longrightarrow> observe_all ds d = after_run ds d"
proof (induction ds rule: rev_induct)
  case (snoc m ds)
  have quiet: "od_suspect d = None" "od_open d = None" using assms(1) by (auto simp: active_def)
  have down: "\<not> sg_inetOk m" using snoc.prems by simp
  show ?case
  proof (cases "ds = []")
    case True
    then show ?thesis using assms(2) quiet down by (simp add: observe_all_def observe_def after_run_def router_failed_def)
  next
    case False
    have ih: "observe_all ds d = after_run ds d" using snoc False by (simp add: sorted_append)
    have hd: "hd (ds @ [m]) = hd ds" and later: "sg_at (last ds) \<le> sg_at m"
      using False snoc.prems(3) by (auto simp: sorted_append)
    have rf: "router_failed (ds @ [m]) \<longleftrightarrow> router_failed ds \<or> sg_routerOk m = Some False" by (simp add: router_failed_def)
    show ?thesis
    proof (cases "od_confirmMs d \<le> sg_at (last ds) - sg_at (hd ds)")
      case True
      then have "od_confirmMs d \<le> sg_at m - sg_at (hd ds)" using later by linarith
      with True quiet down False show ?thesis unfolding observe_snoc ih
        by (cases "sg_routerOk m = Some False"; cases "router_failed ds") (simp_all add: after_run_def observe_def rf hd)
    next
      case short: False
      show ?thesis unfolding observe_snoc ih
        using short quiet down False
        by (cases "sg_routerOk m = Some False"; cases "od_confirmMs d \<le> sg_at m - sg_at (hd ds)")
           (simp_all add: after_run_def observe_def rf hd Let_def)
    qed
  qed
qed simp

text \<open>
  C40. An outage is what the measurements say: after an uninterrupted run of unanswered
  measurements the detector holds an outage exactly when the run spans the confirmation time, and
  the outage starts with the first of them and is blamed on the router exactly when it failed
  too in the run. When the Internet answers again a confirmed outage is reported with its end,
  the time of the answer, or of the last failure when the gateway was blind for longer than the
  gap; a shorter run is reported not at all; and the detector is as before the run.
\<close>

theorem outage_is_a_confirmed_run:
  assumes "\<not> active d" "0 < od_confirmMs d" "ds \<noteq> []" "list_all (\<lambda>m. \<not> sg_inetOk m) ds" "sorted (map sg_at ds)" "sg_inetOk u"
  shows "(od_open (observe_all ds d) \<noteq> None \<longleftrightarrow> od_confirmMs d \<le> sg_at (last ds) - sg_at (hd ds)) \<and>
    observe u (observe_all ds d) =
      (if od_confirmMs d \<le> sg_at (last ds) - sg_at (hd ds)
       then Some \<lparr>ou_start = sg_at (hd ds),
              ou_end = Some (if od_gapMs d < sg_at u - sg_at (last ds) then sg_at (last ds) else sg_at u),
              ou_cause = (if router_failed ds then Router else Isp)\<rparr>
       else None, d)"
proof -
  have quiet: "d\<lparr>od_suspect := None\<rparr> = d" "d\<lparr>od_open := None\<rparr> = d" "od_open d = None" "od_suspect d = None"
    using assms(1) by (auto simp: active_def)
  then have "d\<lparr>od_suspect := None, od_open := None\<rparr> = d" by simp
  with quiet assms(6) show ?thesis unfolding observe_run [OF assms(1-5)] by (simp add: after_run_def observe_def)
qed

theorem outage_is_a_confirmed_run_witness:
  "observe \<lparr>sg_at = 100, sg_inetOk = True, sg_routerOk = Some True\<rparr>
     (observe_all [\<lparr>sg_at = 10, sg_inetOk = False, sg_routerOk = Some True\<rparr>, \<lparr>sg_at = 80, sg_inetOk = False, sg_routerOk = Some False\<rparr>]
       (newDetector 60 600 None)) =
   (Some \<lparr>ou_start = 10, ou_end = Some 100, ou_cause = Router\<rparr>, newDetector 60 600 None)"
proof -
  let ?d = "newDetector 60 600 None"
  let ?ds = "[\<lparr>sg_at = 10, sg_inetOk = False, sg_routerOk = Some True\<rparr>, \<lparr>sg_at = 80, sg_inetOk = False, sg_routerOk = Some False\<rparr>] :: sighting list"
  have "\<not> active ?d" "0 < od_confirmMs ?d" "od_confirmMs ?d = 60" "od_gapMs ?d = 600"
    by (simp_all add: active_def newDetector_def restore_open_def)
  moreover have "?ds \<noteq> []" "list_all (\<lambda>m. \<not> sg_inetOk m) ?ds" "sorted (map sg_at ?ds)" by simp_all
  ultimately show ?thesis
    using outage_is_a_confirmed_run [of ?d ?ds "\<lparr>sg_at = 100, sg_inetOk = True, sg_routerOk = Some True\<rparr>"]
    by (simp add: router_failed_def)
qed

section \<open>Presence changes\<close>

text \<open>
  An event is reported exactly when the state changes: online with a sign of life, offline only
  after the time away has passed since the last one.
\<close>

lemma transition_event:
  assumes "transition seen awayMs now mac st = (st', ev)"
  shows "(ev = None \<longleftrightarrow> ps_online st' = ps_online st) \<and>
    (ps_online st' = Some True \<and> ps_online st \<noteq> Some True \<longrightarrow> seen) \<and>
    (ps_online st' = Some False \<and> ps_online st \<noteq> Some False \<longrightarrow>
       \<not> seen \<and> awayMs \<le> now - (case ps_lastSeen st of Some t \<Rightarrow> t | None \<Rightarrow> ps_since st))"
  using assms by (auto simp: transition_def Let_def split: if_splits)

lemma transition_agrees: "transition seen awayMs now mac st = (st', Some ev) \<Longrightarrow> pe_mac ev = mac \<and> ps_online st' = Some (pe_online ev) \<and> pe_at ev = now"
  by (auto simp: transition_def Let_def split: if_splits)

lemma transitions_keys: "map fst (pr_state (snd (transitions seen now p))) = map fst (pr_state p)"
  by (simp add: transitions_def Let_def o_def case_prod_beta)

lemma presence_apply_macs:
  "distinct (map fst (pr_state p)) \<Longrightarrow>
   distinct (map fst (pr_state (presence_apply now en macs away p))) \<and>
   fst ` set (pr_state (presence_apply now en macs away p)) = (if en then set macs else {})"
proof -
  assume d: "distinct (map fst (pr_state p))"
  let ?new = "\<lparr>ps_online = None, ps_lastSeen = None, ps_since = now\<rparr>"
  let ?f = "\<lambda>s m. if m \<in> fst ` set s then s else s @ [(m, ?new)]"
  have f: "distinct (map fst (foldl ?f s ms)) \<and> fst ` set (foldl ?f s ms) = fst ` set s \<union> set ms" if "distinct (map fst s)" for s ms
    using that
  proof (induction ms arbitrary: s)
    case (Cons m ms)
    from Cons.IH [of "?f s m"] Cons.prems show ?case by (cases "m \<in> fst ` set s") (simp_all add: insert_absorb)
  qed simp
  let ?ms = "if en then macs else []"
  let ?kept = "filter (\<lambda>(m, _). m \<in> set ?ms) (pr_state p)"
  have k: "distinct (map fst ?kept)" "fst ` set ?kept \<subseteq> set ?ms" using d by (auto simp: distinct_map_filter)
  have "pr_state (presence_apply now en macs away p) = foldl ?f ?kept (uniq ?ms)" by (simp add: presence_apply_def Let_def)
  with f [OF k(1), of "uniq ?ms"] k(2) show ?thesis by (auto simp: Un_absorb1)
qed

lemma tick_queue_bounded: "length (pr_queue p) \<le> MAX_QUEUE \<Longrightarrow> length (pr_queue (snd (presence_tick seen now posted p))) \<le> MAX_QUEUE"
  by (auto simp: presence_tick_def presence_flush_def transitions_def Let_def split: option.splits if_splits)

end
