(* ===== verification/Ups_Nut.thy ===== *)
theory Ups_Nut
  imports Lan_Interfaces
begin

text \<open>
  The UPS monitor (\<open>src/src/ups/nut.js\<close>): the words of a NUT line, the line-oriented session, the
  query and the monitor around it. Connecting and name resolution are given by their outcomes;
  turning bytes into characters is an argument, and so is \<open>Number\<close>.
\<close>

section \<open>Lines and words\<close>

definition MAX_NUT_BYTES :: nat where
  "MAX_NUT_BYTES = 64 * 1024"

definition MAX_LINES :: nat where
  "MAX_LINES = 1000"

definition NAME_RE :: "string \<Rightarrow> bool" where
  "NAME_RE s = re_class (\<lambda>c. is_alnum c \<or> c = CHR ''_'' \<or> c = CHR ''.'' \<or> c = CHR ''-'') 1 64 s"

text \<open>A quoted word from behind its opening quote: the word and what follows the closing one.\<close>

fun quoted_word :: "string \<Rightarrow> string \<times> string" where
  "quoted_word [] = ([], [])"
| "quoted_word (c # s) =
     (if c = CHR 0x22 then ([], s)
      else if c = CHR 0x5C then
        (case s of
           [] \<Rightarrow> ([c], [])
         | d # s' \<Rightarrow> (case quoted_word s' of (w, r) \<Rightarrow> (d # w, r)))
      else (case quoted_word s of (w, r) \<Rightarrow> (c # w, r)))"

lemma quoted_word_shorter: "length (snd (quoted_word s)) \<le> length s"
proof (induction s rule: length_induct)
  case (1 t)
  show ?case
  proof (cases t)
    case (Cons c s)
    have ih: "length (snd (quoted_word u)) \<le> length u" if "length u < length t" for u using 1 that by blast
    show ?thesis
    proof (cases "c = CHR 0x5C")
      case True
      then show ?thesis using Cons ih [of "tl s"] by (cases s) (auto split: prod.splits)
    next
      case False
      then show ?thesis using Cons ih [of s] by (auto split: prod.splits)
    qed
  qed simp
qed

function splitNutLine :: "string \<Rightarrow> string list" where
  "splitNutLine [] = []"
| "splitNutLine (c # s) =
     (if c = CHR '' '' then splitNutLine s
      else if c = CHR 0x22 then (case quoted_word s of (w, r) \<Rightarrow> w # splitNutLine r)
      else takeWhile (\<lambda>x. x \<noteq> CHR '' '') (c # s) # splitNutLine (dropWhile (\<lambda>x. x \<noteq> CHR '' '') (c # s)))"
  by pat_completeness auto
termination
proof (relation "measure length")
  fix c :: char and s w r
  assume "(w, r) = quoted_word s"
  then show "(r, c # s) \<in> measure length" using quoted_word_shorter [of s] by (cases "quoted_word s") auto
next
  fix c :: char and s
  assume "c \<noteq> CHR '' ''"
  then show "(dropWhile (\<lambda>x. x \<noteq> CHR '' '') (c # s), c # s) \<in> measure length"
    using length_dropWhile_le [of "\<lambda>x. x \<noteq> CHR '' ''" s] by simp
qed simp_all

datatype nut_error = Nut_error string | Nut_protocol | Nut_connect | Nut_not_private | Nut_no_ups | Nut_timeout

definition word_at :: "string list \<Rightarrow> nat \<Rightarrow> string option" where
  "word_at ws i = (if i < length ws then Some (ws ! i) else None)"

definition is_mark :: "string \<Rightarrow> string \<Rightarrow> string list \<Rightarrow> bool" where
  "is_mark tag what w = (word_at w 0 = Some tag \<and> word_at w 1 = Some ''LIST'' \<and> word_at w 2 = Some what)"

text \<open>The loop of \<open>parseList\<close> with its flag and rows.\<close>

fun list_rows :: "string \<Rightarrow> bool \<Rightarrow> string list list \<Rightarrow> string list \<Rightarrow> nut_error + string list list" where
  "list_rows what inside rows [] = Inl Nut_protocol"
| "list_rows what inside rows (l # ls) =
     (let w = splitNutLine l
      in if word_at w 0 = Some ''ERR''
         then Inl (Nut_error (take 32 (case word_at w 1 of Some e \<Rightarrow> if e = [] then ''UNKNOWN'' else e | None \<Rightarrow> ''UNKNOWN'')))
         else if is_mark ''BEGIN'' what w then list_rows what True rows ls
         else if is_mark ''END'' what w then Inr rows
         else list_rows what inside (if inside then rows @ [w] else rows) ls)"

definition parseList :: "string list \<Rightarrow> string \<Rightarrow> nut_error + string list list" where
  "parseList lines what = list_rows what False [] lines"

section \<open>A session\<close>

text \<open>\<open>ns_waiter\<close> is the end mark of the request under way, \<open>ns_answers\<close> the answers delivered.\<close>

record nut_session =
  ns_buf :: string
  ns_total :: nat
  ns_waiter :: "string option"
  ns_lines :: "string list"
  ns_answers :: "string list list"

definition newSession :: nut_session where
  "newSession = \<lparr>ns_buf = [], ns_total = 0, ns_waiter = None, ns_lines = [], ns_answers = []\<rparr>"

definition nut_request :: "string \<Rightarrow> nut_session \<Rightarrow> nut_session" where
  "nut_request endMark s = s\<lparr>ns_waiter := Some endMark\<rparr>"

definition strip_cr :: "string \<Rightarrow> string" where
  "strip_cr l = (if l \<noteq> [] \<and> last l = CHR 0x0D then butlast l else l)"

text \<open>One complete line; \<open>None\<close> is the failure of the session.\<close>

definition nut_line :: "string \<Rightarrow> nut_session \<Rightarrow> nut_session option" where
  "nut_line raw s =
     (case ns_waiter s of
        None \<Rightarrow> Some s
      | Some endMark \<Rightarrow>
          let line = strip_cr raw; ls = ns_lines s @ [line]
          in if MAX_LINES < length ls then None
             else if prefix ''ERR '' line \<or> prefix endMark line
             then Some (s\<lparr>ns_waiter := None, ns_lines := [], ns_answers := ns_answers s @ [ls]\<rparr>)
             else Some (s\<lparr>ns_lines := ls\<rparr>))"

fun nut_lines :: "string list \<Rightarrow> nut_session \<Rightarrow> nut_session option" where
  "nut_lines [] s = Some s"
| "nut_lines (l # ls) s = nut_line l s \<bind> nut_lines ls"

text \<open>A chunk: the complete lines of the buffer are handled, the rest is kept.\<close>

definition nut_data :: "(bytes \<Rightarrow> string) \<Rightarrow> bytes \<Rightarrow> nut_session \<Rightarrow> nut_session option" where
  "nut_data dec chunk s =
     (let n = ns_total s + length chunk
      in if MAX_NUT_BYTES < n then None
         else let parts = split_on CHR 0x0A (ns_buf s @ dec chunk)
           in nut_lines (butlast parts) (s\<lparr>ns_total := n, ns_buf := last parts\<rparr>))"

section \<open>Query and monitor\<close>

definition resolvePrivate :: "(string \<Rightarrow> string option) \<Rightarrow> string \<Rightarrow> nut_error + string" where
  "resolvePrivate lookup host =
     (case (if isIPv4 host then Some host else lookup host) of
        None \<Rightarrow> Inl Nut_connect
      | Some ip \<Rightarrow> if isPrivateIpv4 ip then Inr ip else Inl Nut_not_private)"

record ups_result =
  ur_name :: string
  ur_status :: "string option"
  ur_charge :: "rat option"
  ur_runtimeSec :: "rat option"
  ur_model :: "string option"
  ur_mfr :: "string option"

definition nut_num :: "(string \<Rightarrow> rat option) \<Rightarrow> string option \<Rightarrow> rat option" where
  "nut_num toNumber v = (case v of None \<Rightarrow> None | Some t \<Rightarrow> if t = [] then None else toNumber t)"

definition str64 :: "string option \<Rightarrow> string option" where
  "str64 v = (case v of None \<Rightarrow> None | Some t \<Rightarrow> if t = [] then None else Some (take 64 t))"

definition str_or :: "string option \<Rightarrow> string option \<Rightarrow> string option" where
  "str_or a b = (case a of None \<Rightarrow> b | Some t \<Rightarrow> if t = [] then b else a)"

definition find_ups :: "string list list \<Rightarrow> string option" where
  "find_ups rows =
     (case List.find (\<lambda>w. word_at w 0 = Some ''UPS'' \<and> NAME_RE (case word_at w 1 of Some n \<Rightarrow> n | None \<Rightarrow> [])) rows of
        None \<Rightarrow> None
      | Some w \<Rightarrow> word_at w 1)"

definition ups_vars :: "string \<Rightarrow> string list list \<Rightarrow> (string, string) jsmap" where
  "ups_vars ups rows =
     foldl (\<lambda>m w. if word_at w 0 = Some ''VAR'' \<and> word_at w 1 = Some ups \<and> 4 \<le> length w then mset_at (w ! 2) (w ! 3) m else m) [] rows"

text \<open>The session answers a request with its lines or fails.\<close>

definition queryUps ::
  "(string \<Rightarrow> rat option) \<Rightarrow> (string \<Rightarrow> string option) \<Rightarrow> (string \<Rightarrow> string \<Rightarrow> nut_error + string list) \<Rightarrow> string \<Rightarrow> string option \<Rightarrow> nut_error + ups_result" where
  "queryUps toNumber lookup session host name =
     (case resolvePrivate lookup host of
        Inl e \<Rightarrow> Inl e
      | Inr ip \<Rightarrow>
          (case (case name of
                   Some (c # u) \<Rightarrow> Inr (c # u)
                 | _ \<Rightarrow>
                     (case session ip ''LIST UPS'' of
                        Inl e \<Rightarrow> Inl e
                      | Inr ls \<Rightarrow> (case parseList ls ''UPS'' of
                          Inl e \<Rightarrow> Inl e
                        | Inr rows \<Rightarrow> (case find_ups rows of None \<Rightarrow> Inl Nut_no_ups | Some u \<Rightarrow> Inr u)))) of
             Inl e \<Rightarrow> Inl e
           | Inr ups \<Rightarrow>
               if \<not> NAME_RE ups then Inl Nut_no_ups
               else (case session ip (''LIST VAR '' @ ups) of
                       Inl e \<Rightarrow> Inl e
                     | Inr ls \<Rightarrow> (case parseList ls ''VAR'' of
                         Inl e \<Rightarrow> Inl e
                       | Inr rows \<Rightarrow>
                           let vars = map_of (ups_vars ups rows)
                           in Inr \<lparr>ur_name = ups, ur_status = str64 (vars ''ups.status''), ur_charge = nut_num toNumber (vars ''battery.charge''),
                                ur_runtimeSec = nut_num toNumber (vars ''battery.runtime''),
                                ur_model = str64 (str_or (vars ''device.model'') (vars ''ups.model'')),
                                ur_mfr = str64 (str_or (vars ''device.mfr'') (vars ''ups.mfr''))\<rparr>))))"

record ups_monitor =
  um_enabled :: bool
  um_host :: string
  um_port :: nat
  um_name :: "string option"
  um_result :: "(string + ups_result \<times> int) option"

text \<open>The result kept for telemetry: an error code, or the values with their time.\<close>

definition ups_apply :: "bool \<Rightarrow> string \<Rightarrow> nat \<Rightarrow> string option \<Rightarrow> ups_monitor \<Rightarrow> ups_monitor" where
  "ups_apply enabled host port name m =
     \<lparr>um_enabled = enabled, um_host = host, um_port = port, um_name = name,
      um_result = (if \<not> enabled \<or> \<not> um_enabled m \<or> um_host m \<noteq> host \<or> um_port m \<noteq> port \<or> um_name m \<noteq> name then None else um_result m)\<rparr>"

fun nut_code :: "nut_error \<Rightarrow> string" where
  "nut_code (Nut_error e) = ''nut_error:'' @ e"
| "nut_code Nut_protocol = ''protocol''"
| "nut_code Nut_connect = ''connect''"
| "nut_code Nut_not_private = ''not_private''"
| "nut_code Nut_no_ups = ''no_ups''"
| "nut_code Nut_timeout = ''timeout''"

definition ups_tick :: "nut_error + ups_result \<Rightarrow> int \<Rightarrow> ups_monitor \<Rightarrow> ups_monitor" where
  "ups_tick outcome now m =
     (if \<not> um_enabled m then m
      else m\<lparr>um_result := Some (case outcome of Inl e \<Rightarrow> Inl (nut_code e) | Inr r \<Rightarrow> Inr (r, now))\<rparr>)"

definition ups_telemetry :: "ups_monitor \<Rightarrow> (string + ups_result \<times> int) option" where
  "ups_telemetry m = (if um_enabled m then um_result m else None)"

section \<open>Words survive quoting\<close>

fun nut_escape :: "string \<Rightarrow> string" where
  "nut_escape [] = []"
| "nut_escape (c # s) = (if c = CHR 0x22 \<or> c = CHR 0x5C then CHR 0x5C # c # nut_escape s else c # nut_escape s)"

definition nut_quote :: "string \<Rightarrow> string" where
  "nut_quote w = CHR 0x22 # nut_escape w @ [CHR 0x22]"

lemma quoted_word_escape: "quoted_word (nut_escape w @ CHR 0x22 # rest) = (w, rest)"
  by (induction w) auto

lemma split_quoted: "splitNutLine (nut_quote w @ rest) = w # splitNutLine rest"
  by (simp add: nut_quote_def quoted_word_escape)

text \<open>A line of quoted words, whatever they contain, is read back as these words.\<close>

lemma splitNutLine_quoted: "splitNutLine (join CHR '' '' (map nut_quote ws)) = ws"
proof (induction ws)
  case (Cons w ws)
  show ?case
  proof (cases ws)
    case Nil
    then show ?thesis using split_quoted [of w "[]"] by simp
  next
    case (Cons v vs)
    then have "join CHR '' '' (map nut_quote (w # ws)) = nut_quote w @ CHR '' '' # join CHR '' '' (map nut_quote ws)"
      by (simp add: join_Cons)
    with Cons.IH split_quoted [of w "CHR '' '' # join CHR '' '' (map nut_quote ws)"] show ?thesis by simp
  qed
qed simp

section \<open>Only private servers are asked\<close>

lemma resolvePrivate_private: "resolvePrivate lookup host = Inr ip \<Longrightarrow> isPrivateIpv4 ip"
  by (auto simp: resolvePrivate_def split: option.splits if_splits)

lemma find_ups_name: "find_ups rows = Some u \<Longrightarrow> NAME_RE u"
  by (auto simp: find_ups_def find_Some_iff split: option.splits)

lemma queryUps_name: "queryUps toNumber lookup session host name = Inr r \<Longrightarrow> NAME_RE (ur_name r)"
  by (auto simp: queryUps_def Let_def split: sum.splits if_splits)

text \<open>A disabled monitor reports nothing, and a result never outlives a change of the target.\<close>

lemma ups_apply_fresh:
  "um_host m \<noteq> host \<or> um_port m \<noteq> port \<or> um_name m \<noteq> name \<Longrightarrow> um_result (ups_apply en host port name m) = None"
  "ups_telemetry (ups_apply False host port name m) = None"
  by (simp_all add: ups_apply_def ups_telemetry_def)

section \<open>The session reads lines, however they arrive\<close>

lemma nut_lines_append: "nut_lines (as @ bs) s = nut_lines as s \<bind> nut_lines bs"
  by (induction as arbitrary: s) (auto simp: Option.bind_assoc split: Option.bind_split)

lemma nut_line_frame:
  "nut_line l (s\<lparr>ns_total := n, ns_buf := b\<rparr>) = map_option (\<lambda>s'. s'\<lparr>ns_total := n, ns_buf := b\<rparr>) (nut_line l s)"
  by (simp add: nut_line_def Let_def split: option.splits)

lemma nut_lines_frame:
  "nut_lines ls (s\<lparr>ns_total := n, ns_buf := b\<rparr>) = map_option (\<lambda>s'. s'\<lparr>ns_total := n, ns_buf := b\<rparr>) (nut_lines ls s)"
proof (induction ls arbitrary: s)
  case (Cons l ls)
  show ?case
  proof (cases "nut_line l s")
    case (Some s1)
    with Cons.IH [of s1] show ?thesis by (simp add: nut_line_frame)
  qed (simp add: nut_line_frame)
qed simp

lemma nut_lines_keeps: "nut_lines ls s = Some s' \<Longrightarrow> ns_buf s' = ns_buf s \<and> ns_total s' = ns_total s"
proof (induction ls arbitrary: s)
  case (Cons l ls)
  then obtain s1 where s1: "nut_line l s = Some s1" "nut_lines ls s1 = Some s'" by (auto split: Option.bind_split_asm)
  then have "ns_buf s1 = ns_buf s" "ns_total s1 = ns_total s"
    by (auto simp: nut_line_def Let_def split: option.splits if_splits)
  with Cons.IH [OF s1(2)] show ?case by simp
qed simp

lemma split_on_continue: "split_on c (xs @ ys) = butlast (split_on c xs) @ split_on c (last (split_on c xs) @ ys)"
proof (induction xs)
  case (Cons x xs)
  obtain p ps where p: "split_on c xs = p # ps" by (cases "split_on c xs") auto
  show ?case
  proof (cases "x = c")
    case True
    with Cons p show ?thesis by simp
  next
    case False
    show ?thesis
    proof (cases ps)
      case Nil
      with Cons p False show ?thesis by (simp split: list.splits)
    next
      case (Cons q qs)
      with Cons.IH p False show ?thesis by (simp split: list.splits)
    qed
  qed
qed simp

definition session_ok :: "nut_session \<Rightarrow> bool" where
  "session_ok s = (CHR 0x0A \<notin> set (ns_buf s) \<and> ns_total s \<le> MAX_NUT_BYTES)"

text \<open>For a decoder that treats every byte by itself, as UTF-8 does with ASCII.\<close>

interpretation nut_reader: incremental_reader session_ok "nut_data (map byte_char)"
proof
  fix s s' :: nut_session and xs ys :: bytes
  assume s: "session_ok s"
  let ?ps = "split_on CHR 0x0A (ns_buf s @ map byte_char xs)"
  show "nut_data (map byte_char) [] s = Some s"
    using s by (simp add: nut_data_def session_ok_def split_on_noop)
  show "session_ok s'" if "nut_data (map byte_char) xs s = Some s'"
  proof -
    have "nut_lines (butlast ?ps) (s\<lparr>ns_total := ns_total s + length xs, ns_buf := last ?ps\<rparr>) = Some s'"
      "ns_total s + length xs \<le> MAX_NUT_BYTES"
      using that by (auto simp: nut_data_def Let_def split: if_splits)
    with nut_lines_keeps [OF this(1)] split_on_no_sep [of "last ?ps" "CHR 0x0A" "ns_buf s @ map byte_char xs"]
    show ?thesis by (simp add: session_ok_def)
  qed
  show "nut_data (map byte_char) (xs @ ys) s = nut_data (map byte_char) xs s \<bind> nut_data (map byte_char) ys"
  proof (cases "MAX_NUT_BYTES < ns_total s + length xs")
    case True
    then show ?thesis by (simp add: nut_data_def)
  next
    case False
    let ?s1 = "s\<lparr>ns_total := ns_total s + length xs, ns_buf := last ?ps\<rparr>"
    let ?qs = "split_on CHR 0x0A (last ?ps @ map byte_char ys)"
    have all: "split_on CHR 0x0A (ns_buf s @ map byte_char xs @ map byte_char ys) = butlast ?ps @ ?qs"
      using split_on_continue [of "CHR 0x0A" "ns_buf s @ map byte_char xs" "map byte_char ys"] by simp
    show ?thesis
    proof (cases "nut_lines (butlast ?ps) ?s1")
      case None
      then have "nut_lines (butlast ?ps) s = None" using nut_lines_frame [of "butlast ?ps" _ _ s] by simp
      with None False show ?thesis
        using nut_lines_frame [of "butlast ?ps" _ _ s]
        by (simp add: nut_data_def Let_def all butlast_append nut_lines_append)
    next
      case (Some s2)
      note k = nut_lines_keeps [OF Some]
      obtain s0 where s0: "nut_lines (butlast ?ps) s = Some s0" "s2 = s0\<lparr>ns_total := ns_total s + length xs, ns_buf := last ?ps\<rparr>"
        using Some nut_lines_frame [of "butlast ?ps" _ _ s] by auto
      have "nut_lines (butlast ?ps) (s\<lparr>ns_total := n, ns_buf := b\<rparr>) = Some (s2\<lparr>ns_total := n, ns_buf := b\<rparr>)" for n b
        using s0 nut_lines_frame [of "butlast ?ps" b n s] by simp
      with Some False k show ?thesis
        by (simp add: nut_data_def Let_def all butlast_append nut_lines_append add.assoc)
    qed
  qed
qed

end
