(* ===== verification/Ble_Parse.thy ===== *)
theory Ble_Parse
  imports Js_Values
begin

text \<open>
  Reading the advertisements of Bluetooth sensors (\<open>src/src/radio/bleparse.js\<close>). A value is kept as
  \<open>Scaled raw factor digits\<close>, the number \<open>(raw * factor).toFixed(digits)\<close>: the reading is exact up to
  the last step, which is arithmetic of doubles. A device's name is a list of UTF-16 code units,
  decoded from UTF-8 the way a \<open>Buffer\<close> does it.
\<close>

section \<open>Tables\<close>

text \<open>Object id, name, length in bytes, whether signed, factor.\<close>

definition OBJ :: "(nat \<times> string \<times> nat \<times> bool \<times> rat) list" where
  "OBJ =
     [(0x00, ''packet'', 1, False, 1), (0x01, ''battery'', 1, False, 1), (0x02, ''temperature'', 2, True, 1 / 100),
      (0x03, ''humidity'', 2, False, 1 / 100), (0x04, ''pressure'', 3, False, 1 / 100), (0x05, ''illuminance'', 3, False, 1 / 100),
      (0x06, ''mass'', 2, False, 1 / 100), (0x07, ''mass_lb'', 2, False, 1 / 100), (0x08, ''dewpoint'', 2, True, 1 / 100),
      (0x09, ''count'', 1, False, 1), (0x0a, ''energy'', 3, False, 1 / 1000), (0x0b, ''power'', 3, False, 1 / 100),
      (0x0c, ''voltage'', 2, False, 1 / 1000), (0x0d, ''pm25'', 2, False, 1), (0x0e, ''pm10'', 2, False, 1),
      (0x12, ''co2'', 2, False, 1), (0x13, ''tvoc'', 2, False, 1), (0x14, ''moisture'', 2, False, 1 / 100),
      (0x2e, ''humidity'', 1, False, 1), (0x2f, ''moisture'', 1, False, 1), (0x3a, ''button'', 1, False, 1),
      (0x3c, ''dimmer'', 2, False, 1), (0x3d, ''count'', 2, False, 1), (0x3e, ''count'', 4, False, 1),
      (0x3f, ''rotation'', 2, True, 1 / 10), (0x40, ''distance_mm'', 2, False, 1), (0x41, ''distance_m'', 2, False, 1 / 10),
      (0x42, ''duration'', 3, False, 1 / 1000), (0x43, ''current'', 2, False, 1 / 1000), (0x44, ''speed'', 2, False, 1 / 100),
      (0x45, ''temperature'', 2, True, 1 / 10), (0x46, ''uv'', 1, False, 1 / 10), (0x47, ''volume'', 2, False, 1 / 10),
      (0x48, ''volume_ml'', 2, False, 1), (0x49, ''flow'', 2, False, 1 / 1000), (0x4a, ''voltage'', 2, False, 1 / 10),
      (0x4b, ''gas'', 3, False, 1 / 1000), (0x4c, ''gas'', 4, False, 1 / 1000), (0x4d, ''energy'', 4, False, 1 / 1000),
      (0x4e, ''volume'', 4, False, 1 / 1000), (0x4f, ''water'', 4, False, 1 / 1000), (0x50, ''timestamp'', 4, False, 1),
      (0x51, ''acceleration'', 2, False, 1 / 1000), (0x52, ''gyroscope'', 2, False, 1 / 1000), (0x55, ''volume_storage'', 4, False, 1 / 1000),
      (0x56, ''conductivity'', 2, False, 1), (0x57, ''temperature'', 1, True, 1), (0x58, ''temperature'', 1, True, 35 / 100),
      (0x59, ''count'', 1, True, 1), (0x5a, ''count'', 2, True, 1), (0x5b, ''count'', 4, True, 1),
      (0x5c, ''power'', 4, True, 1 / 100), (0x5d, ''current'', 2, True, 1 / 1000), (0x5e, ''direction'', 2, False, 1 / 100),
      (0x5f, ''precipitation'', 2, False, 1), (0x60, ''channel'', 1, False, 1), (0x61, ''rotational_speed'', 2, False, 1),
      (0xf0, ''device_type'', 2, False, 1), (0xf1, ''firmware'', 4, False, 1), (0xf2, ''firmware'', 3, False, 1)]"

definition BINARY :: "(nat \<times> string) list" where
  "BINARY =
     [(0x0f, ''generic''), (0x10, ''power_on''), (0x11, ''opening''), (0x15, ''battery_low''), (0x16, ''charging''), (0x1a, ''door''),
      (0x1c, ''gas_detected''), (0x1d, ''heat''), (0x1e, ''light''), (0x1f, ''lock''), (0x20, ''moisture_wet''), (0x21, ''motion''),
      (0x22, ''moving''), (0x23, ''occupancy''), (0x26, ''presence''), (0x29, ''smoke''), (0x2a, ''sound''), (0x2b, ''tamper''),
      (0x2c, ''vibration''), (0x2d, ''window'')]"

definition KEEP :: "string list" where
  "KEEP =
     [''battery'', ''temperature'', ''humidity'', ''pressure'', ''illuminance'', ''dewpoint'', ''voltage'', ''pm25'', ''pm10'',
      ''co2'', ''tvoc'', ''moisture'', ''button'', ''uv'', ''power'', ''energy'', ''opening'', ''door'',
      ''window'', ''motion'', ''occupancy'', ''presence'', ''moisture_wet'', ''smoke'', ''battery_low'', ''vibration'', ''tamper'',
      ''light'']"

section \<open>Integers\<close>

definition readUInt :: "bytes \<Rightarrow> nat \<Rightarrow> nat \<Rightarrow> nat" where
  "readUInt buf off len = foldl (\<lambda>v i. v * 256 + unat (buf ! (off + i))) 0 (rev [0..<len])"

definition readInt :: "bytes \<Rightarrow> nat \<Rightarrow> nat \<Rightarrow> int" where
  "readInt buf off len =
     (let u = readUInt buf off len; mx = 2 ^ (8 * len)
      in if mx \<le> 2 * u then int u - int mx else int u)"

datatype ble_value = Flag bool | Scaled int rat nat

definition round_digits :: "rat \<Rightarrow> nat" where
  "round_digits f = (if 1 \<le> f then 0 else if 1 \<le> f * 10 then 1 else if 1 \<le> f * 100 then 2 else 3)"

definition scaled :: "int \<Rightarrow> rat \<Rightarrow> ble_value" where
  "scaled raw f = Scaled raw f (round_digits f)"

section \<open>Structures of an advertisement\<close>

function adStructures :: "bytes \<Rightarrow> (nat \<times> bytes) list" where
  "adStructures [] = []"
| "adStructures (l # buf) =
     (let len = unat l
      in if len = 0 \<or> length buf < len then []
         else (unat (hd buf), take (len - 1) (tl buf)) # adStructures (drop len buf))"
  by pat_completeness auto
termination by (relation "measure length") auto

section \<open>BTHome\<close>

type_synonym ble_values = "(string, ble_value) jsmap"

definition is_binary :: "nat \<Rightarrow> bool" where
  "is_binary i = (i = 0x0f \<or> i = 0x10 \<or> i = 0x11 \<or> 0x15 \<le> i \<and> i \<le> 0x2d)"

definition put_new :: "string \<Rightarrow> ble_value \<Rightarrow> ble_values \<Rightarrow> ble_values" where
  "put_new k v vs = (if map_of vs k = None then mset_at k v vs else vs)"

text \<open>The loop, on the bytes that are left.\<close>

function bthome_loop :: "bytes \<Rightarrow> ble_values \<Rightarrow> ble_values" where
  "bthome_loop [] vs = vs"
| "bthome_loop (b # ds) vs =
     (let i = unat b
      in if is_binary i then
           (case ds of
              [] \<Rightarrow> vs
            | v # ds' \<Rightarrow> bthome_loop ds' (case map_of BINARY i of
                                            Some k \<Rightarrow> mset_at k (Flag (v = 1)) vs
                                          | None \<Rightarrow> vs))
         else if i = 0x53 \<or> i = 0x54 then
           (case ds of [] \<Rightarrow> vs | n # ds' \<Rightarrow> bthome_loop (drop (unat n) ds') vs)
         else (case map_of OBJ i of
                 None \<Rightarrow> vs
               | Some (k, len, sg, factor) \<Rightarrow>
                   if length ds < len then vs
                   else bthome_loop (drop len ds)
                          (put_new k (scaled (if sg then readInt ds 0 len else int (readUInt ds 0 len)) factor) vs)))"
  by pat_completeness auto
termination by (relation "measure (length \<circ> fst)") auto

definition parseBthome :: "bytes \<Rightarrow> (bool \<times> ble_values) option" where
  "parseBthome data =
     (case data of
        [] \<Rightarrow> None
      | info # ds \<Rightarrow>
          if unat info div 32 \<noteq> 2 then None
          else if odd (unat info) then Some (True, [])
          else Some (False, bthome_loop ds []))"

section \<open>Thermometers with the environment UUID\<close>

definition hex_digit :: "nat \<Rightarrow> char" where
  "hex_digit n = ''0123456789abcdef'' ! n"

definition toHex :: "bytes \<Rightarrow> string" where
  "toHex bs = concat (map (\<lambda>b. [hex_digit (unat b div 16), hex_digit (unat b mod 16)]) bs)"

definition mac_hex :: "string \<Rightarrow> string" where
  "mac_hex mac = toLower (filter (\<lambda>c. c \<noteq> CHR '':'') mac)"

definition parseEnv :: "bytes \<Rightarrow> string \<Rightarrow> (string \<times> ble_values) option" where
  "parseEnv data mac =
     (if length data = 13 then
        if toHex (take 6 data) \<noteq> mac_hex mac then None
        else Some (''atc1441'',
          [(''temperature'', scaled (readInt (rev (take 2 (drop 6 data))) 0 2) (1 / 10)),
           (''humidity'', scaled (int (unat (data ! 8))) 1),
           (''battery'', scaled (int (unat (data ! 9))) 1),
           (''voltage'', scaled (int (readUInt (rev (take 2 (drop 10 data))) 0 2)) (1 / 1000))])
      else if length data = 15 then
        if toHex (rev (take 6 data)) \<noteq> mac_hex mac then None
        else Some (''pvvx'',
          [(''temperature'', scaled (readInt data 6 2) (1 / 100)),
           (''humidity'', scaled (int (readUInt data 8 2)) (1 / 100)),
           (''voltage'', scaled (int (readUInt data 10 2)) (1 / 1000)),
           (''battery'', scaled (int (unat (data ! 12))) 1)])
      else None)"

section \<open>Names\<close>

text \<open>
  UTF-8 with a replacement character for every maximal ill-formed part: a state is \<open>None\<close> between
  characters and otherwise the value so far, the bytes missing and the bounds of the next byte.
\<close>

definition utf8_lead :: "nat \<Rightarrow> nat + nat \<times> nat \<times> nat \<times> nat" where
  "utf8_lead b =
     (if b < 0x80 then Inl b
      else if 0xC2 \<le> b \<and> b \<le> 0xDF then Inr (b - 0xC0, 1, 0x80, 0xBF)
      else if b = 0xE0 then Inr (0, 2, 0xA0, 0xBF)
      else if b = 0xED then Inr (0xD, 2, 0x80, 0x9F)
      else if 0xE1 \<le> b \<and> b \<le> 0xEF then Inr (b - 0xE0, 2, 0x80, 0xBF)
      else if b = 0xF0 then Inr (0, 3, 0x90, 0xBF)
      else if 0xF1 \<le> b \<and> b \<le> 0xF3 then Inr (b - 0xF0, 3, 0x80, 0xBF)
      else if b = 0xF4 then Inr (4, 3, 0x80, 0x8F)
      else Inl 0xFFFD)"

fun utf8_decode :: "(nat \<times> nat \<times> nat \<times> nat) option \<Rightarrow> bytes \<Rightarrow> nat list" where
  "utf8_decode None [] = []"
| "utf8_decode (Some st) [] = [0xFFFD]"
| "utf8_decode None (b # bs) =
     (case utf8_lead (unat b) of Inl c \<Rightarrow> c # utf8_decode None bs | Inr st \<Rightarrow> utf8_decode (Some st) bs)"
| "utf8_decode (Some (c, need, lo, hi)) (b # bs) =
     (if lo \<le> unat b \<and> unat b \<le> hi then
        let c' = c * 64 + (unat b - 0x80)
        in if need = 1 then c' # utf8_decode None bs
           else utf8_decode (Some (c', need - 1, 0x80, 0xBF)) bs
      else 0xFFFD # (case utf8_lead (unat b) of
                       Inl c \<Rightarrow> c # utf8_decode None bs
                     | Inr st \<Rightarrow> utf8_decode (Some st) bs))"

definition code_units :: "nat \<Rightarrow> nat list" where
  "code_units c =
     (if c < 0x10000 then [c] else [0xD800 + (c - 0x10000) div 0x400, 0xDC00 + (c - 0x10000) mod 0x400])"

definition js_space :: "nat \<Rightarrow> bool" where
  "js_space u =
     (9 \<le> u \<and> u \<le> 13 \<or> u = 32 \<or> u = 0xA0 \<or> u = 0x1680 \<or> 0x2000 \<le> u \<and> u \<le> 0x200A \<or> u = 0x2028 \<or>
      u = 0x2029 \<or> u = 0x202F \<or> u = 0x205F \<or> u = 0x3000 \<or> u = 0xFEFF)"

definition trim_units :: "nat list \<Rightarrow> nat list" where
  "trim_units us = rev (dropWhile js_space (rev (dropWhile js_space us)))"

definition cleanName :: "bytes \<Rightarrow> nat list option" where
  "cleanName buf =
     (let shown = filter (\<lambda>c. 32 \<le> c \<and> c \<noteq> 127 \<and> c \<noteq> 0xFFFD) (utf8_decode None buf);
          s = take 32 (trim_units (concat (map code_units shown)))
      in if s = [] then None else Some s)"

section \<open>An advertisement\<close>

record ble_found =
  bf_format :: string
  bf_encrypted :: bool
  bf_values :: ble_values

record ble_advert = ble_found +
  ba_name :: "nat list option"

definition service_data :: "string \<Rightarrow> bytes \<Rightarrow> ble_found option" where
  "service_data mac data =
     (let uuid = readUInt data 0 2; rest = drop 2 data
      in if uuid = 0xfcd2 then
           map_option (\<lambda>(enc, vs). \<lparr>bf_format = ''bthome'', bf_encrypted = enc, bf_values = vs\<rparr>) (parseBthome rest)
         else if uuid = 0x181a then
           map_option (\<lambda>(f, vs). \<lparr>bf_format = f, bf_encrypted = False, bf_values = vs\<rparr>) (parseEnv rest mac)
         else if uuid = 0xfe95 \<and> 5 \<le> length rest then
           Some \<lparr>bf_format = ''mibeacon'', bf_encrypted = bit (readUInt rest 0 2) 3, bf_values = []\<rparr>
         else None)"

definition advert_step ::
    "string \<Rightarrow> nat list option \<times> ble_found option \<Rightarrow> nat \<times> bytes \<Rightarrow> nat list option \<times> ble_found option" where
  "advert_step mac st ad =
     (case (st, ad) of
        ((nm, found), (ty, data)) \<Rightarrow>
          let nm' = (if ty = 0x09 \<or> ty = 0x08
                     then (case cleanName data of Some n \<Rightarrow> Some n | None \<Rightarrow> nm) else nm)
          in if ty \<noteq> 0x16 \<or> length data < 2 \<or> found \<noteq> None then (nm', found)
             else (nm', service_data mac data))"

definition parseAdvert :: "string \<Rightarrow> bytes \<Rightarrow> ble_advert option" where
  "parseAdvert mac buf =
     (case foldl (advert_step mac) (None, None) (adStructures buf) of
        (nm, None) \<Rightarrow> None
      | (nm, Some f) \<Rightarrow>
          Some \<lparr>bf_format = bf_format f, bf_encrypted = bf_encrypted f,
                bf_values = filter (\<lambda>kv. fst kv \<in> set KEEP) (bf_values f), ba_name = nm\<rparr>)"

section \<open>Numbers\<close>

primrec le_bytes :: "nat \<Rightarrow> nat \<Rightarrow> bytes" where
  "le_bytes 0 v = []"
| "le_bytes (Suc n) v = byte_of v # le_bytes n (v div 256)"

lemma length_le_bytes [simp]: "length (le_bytes n v) = n"
  by (induction n arbitrary: v) auto

lemma readUInt_0 [simp]: "readUInt buf off 0 = 0"
  by (simp add: readUInt_def)

lemma readUInt_Suc: "readUInt (b # bs) 0 (Suc n) = unat b + 256 * readUInt bs 0 n"
  by (simp add: readUInt_def foldl_conv_foldr upt_conv_Cons map_Suc_upt [symmetric] foldr_map comp_def del: upt_Suc)

lemma readUInt_lt: "readUInt buf 0 n < 256 ^ n" if "n \<le> length buf"
  using that
proof (induction n arbitrary: buf)
  case (Suc n)
  then obtain b bs where b: "buf = b # bs" by (cases buf) auto
  with Suc have "readUInt bs 0 n < 256 ^ n" by simp
  moreover have "unat b < 256" by (rule unat_byte_less)
  ultimately show ?case unfolding b readUInt_Suc power_Suc by linarith
qed simp

lemma readUInt_le_bytes: "readUInt (le_bytes n v @ r) 0 n = v mod 256 ^ n"
proof (induction n arbitrary: v)
  case (Suc n)
  have "unat (byte_of v) = v mod 256" by (simp add: byte_of_def unat_of_nat)
  with Suc show ?case by (simp add: readUInt_Suc mod_mult2_eq)
qed simp

text \<open>What a signed or unsigned object of a length can hold, and the bytes of a value.\<close>

definition raw_fits :: "bool \<Rightarrow> nat \<Rightarrow> int \<Rightarrow> bool" where
  "raw_fits sg len v =
     (if sg then - (2 ^ (8 * len)) \<le> 2 * v \<and> 2 * v < 2 ^ (8 * len) else 0 \<le> v \<and> v < 2 ^ (8 * len))"

definition raw_bytes :: "nat \<Rightarrow> int \<Rightarrow> bytes" where
  "raw_bytes len v = le_bytes len (nat (v mod 2 ^ (8 * len)))"

lemma power_256: "(256 :: 'a :: comm_semiring_1) ^ n = 2 ^ (8 * n)"
  by (simp add: power_mult)

lemma readUInt_raw_bytes: "readUInt (raw_bytes len v @ r) 0 len = nat (v mod 2 ^ (8 * len))"
  by (simp add: raw_bytes_def readUInt_le_bytes power_256 nat_mod_distrib nat_power_eq flip: nat_mod_distrib)

lemma twice_nat_le: "((2::nat) ^ k \<le> 2 * nat v) = ((2::int) ^ k \<le> 2 * v)" if "0 \<le> v"
proof -
  have "((2::nat) ^ k \<le> 2 * nat v) = (int (2 ^ k) \<le> int (2 * nat v))" by (simp only: of_nat_le_iff)
  with that show ?thesis by simp
qed

lemma read_raw_bytes:
  assumes "raw_fits sg len v"
  shows "(if sg then readInt (raw_bytes len v @ r) 0 len else int (readUInt (raw_bytes len v @ r) 0 len)) = v"
proof -
  let ?m = "2 ^ (8 * len) :: int"
  have m: "0 < ?m" by simp
  show ?thesis
  proof (cases "0 \<le> v")
    case True
    with assms have "v mod ?m = v" by (simp add: raw_fits_def split: if_splits)
    with assms True show ?thesis
      by (auto simp: readInt_def Let_def readUInt_raw_bytes raw_fits_def twice_nat_le split: if_splits)
  next
    case False
    with assms have sg: "sg" and b: "- ?m \<le> 2 * v" by (auto simp: raw_fits_def split: if_splits)
    have "(v + ?m) mod ?m = v + ?m" using False b by (intro mod_pos_pos_trivial) auto
    then have md: "v mod ?m = v + ?m" by simp
    have "0 \<le> v + ?m" "?m \<le> 2 * (v + ?m)" using b False by auto
    with sg show ?thesis
      by (simp add: readInt_def Let_def readUInt_raw_bytes md twice_nat_le)
  qed
qed

section \<open>Objects of a BTHome advertisement\<close>

lemma obj_ids: "map_of OBJ i = Some (k, len, sg, f) \<Longrightarrow> i < 256 \<and> \<not> is_binary i \<and> i \<noteq> 0x53 \<and> i \<noteq> 0x54"
proof -
  assume "map_of OBJ i = Some (k, len, sg, f)"
  then have "i \<in> set (map fst OBJ)" by (metis map_of_SomeD fst_conv image_eqI set_map)
  moreover have "list_all (\<lambda>i. i < 256 \<and> \<not> is_binary i \<and> i \<noteq> 0x53 \<and> i \<noteq> 0x54) (map fst OBJ)" by code_simp
  ultimately show ?thesis unfolding list_all_iff by blast
qed

definition obj_ok :: "nat \<times> int \<Rightarrow> bool" where
  "obj_ok o1 =
     (case map_of OBJ (fst o1) of None \<Rightarrow> False | Some (k, len, sg, f) \<Rightarrow> raw_fits sg len (snd o1))"

definition obj_bytes :: "nat \<times> int \<Rightarrow> bytes" where
  "obj_bytes o1 =
     (case map_of OBJ (fst o1) of None \<Rightarrow> [] | Some (k, len, sg, f) \<Rightarrow> byte_of (fst o1) # raw_bytes len (snd o1))"

definition obj_put :: "ble_values \<Rightarrow> nat \<times> int \<Rightarrow> ble_values" where
  "obj_put vs o1 =
     (case map_of OBJ (fst o1) of None \<Rightarrow> vs | Some (k, len, sg, f) \<Rightarrow> put_new k (scaled (snd o1) f) vs)"

lemma bthome_loop_object:
  assumes "obj_ok o1"
  shows "bthome_loop (obj_bytes o1 @ rest) vs = bthome_loop rest (obj_put vs o1)"
proof -
  obtain i v where o1: "o1 = (i, v)" by force
  with assms obtain k len sg f where m: "map_of OBJ i = Some (k, len, sg, f)" and fits: "raw_fits sg len v"
    by (auto simp: obj_ok_def split: option.splits)
  note ids = obj_ids [OF m]
  then have i: "unat (byte_of i) = i" by (simp add: byte_of_def unat_of_nat)
  have l: "length (raw_bytes len v) = len" by (simp add: raw_bytes_def)
  show ?thesis
    using ids read_raw_bytes [OF fits, of rest]
    by (simp add: o1 obj_bytes_def obj_put_def m i l Let_def del: bthome_loop.simps(1) split del: if_split)
qed

lemma bthome_loop_objects:
  "list_all obj_ok os \<Longrightarrow> bthome_loop (concat (map obj_bytes os) @ rest) vs = bthome_loop rest (foldl obj_put vs os)"
  by (induction os arbitrary: vs) (auto simp: bthome_loop_object)

section \<open>Structures and the values reported\<close>

definition ad_bytes :: "nat \<times> bytes \<Rightarrow> bytes" where
  "ad_bytes ad = byte_of (length (snd ad) + 1) # byte_of (fst ad) # snd ad"

definition ad_ok :: "nat \<times> bytes \<Rightarrow> bool" where
  "ad_ok ad = (fst ad < 256 \<and> length (snd ad) < 255)"

lemma adStructures_bytes:
  "list_all ad_ok ads \<Longrightarrow> adStructures (concat (map ad_bytes ads) @ rest) = ads @ adStructures rest"
proof (induction ads)
  case (Cons ad ads)
  obtain ty d where ad: "ad = (ty, d)" by force
  with Cons.prems have "ty mod 256 = ty" "Suc (length d) mod 256 = Suc (length d)" by (auto simp: ad_ok_def)
  moreover have "adStructures (concat (map ad_bytes ads) @ rest) = ads @ adStructures rest"
    using Cons by simp
  ultimately show ?case by (simp add: ad ad_bytes_def [of "(ty, d)"] Let_def)
qed simp

text \<open>The structures read are the front of the buffer, byte for byte.\<close>

lemma ad_bytes_take:
  assumes "0 < unat l" "unat l \<le> length buf"
  shows "ad_bytes (unat (hd buf), take (unat l - 1) (tl buf)) = l # take (unat l) buf"
proof -
  obtain c cs where c: "buf = c # cs" using assms by (cases buf) auto
  with assms have "min (length cs) (unat l - 1) + 1 = unat l" by simp
  with c assms(1) show ?thesis by (simp add: ad_bytes_def byte_of_def take_Cons' min.commute del: of_nat_Suc)
qed

lemma adStructures_prefix: "prefix (concat (map ad_bytes (adStructures buf))) buf"
proof (induction buf rule: adStructures.induct)
  case (2 l buf)
  show ?case
  proof (cases "unat l = 0 \<or> length buf < unat l")
    case False
    with 2 have "prefix (concat (map ad_bytes (adStructures (drop (unat l) buf)))) (drop (unat l) buf)" by simp
    then have "prefix (take (unat l) buf @ concat (map ad_bytes (adStructures (drop (unat l) buf)))) (take (unat l) buf @ drop (unat l) buf)"
      by (simp only: same_prefix_prefix)
    with False ad_bytes_take [of l buf] show ?thesis by (simp add: Let_def)
  qed simp
qed simp

lemma wf_put: "wf_map vs \<Longrightarrow> wf_map (put_new k v vs)"
  by (simp add: put_new_def)

lemma bthome_loop_wf: "wf_map vs \<Longrightarrow> wf_map (bthome_loop ds vs)"
proof (induction "length ds" arbitrary: ds vs rule: less_induct)
  case less
  show ?case
  proof (cases ds)
    case (Cons b bs)
    have ih: "wf_map (bthome_loop es ws)" if "length es \<le> length bs" "wf_map ws" for es ws
      using less.hyps [of es ws] that Cons by simp
    consider "is_binary (unat b)" | "\<not> is_binary (unat b)" "unat b = 0x53 \<or> unat b = 0x54"
      | "\<not> is_binary (unat b)" "\<not> (unat b = 0x53 \<or> unat b = 0x54)" by blast
    then show ?thesis
    proof cases
      case 1
      with Cons less.prems show ?thesis by (cases bs) (auto simp: Let_def intro: ih split: option.splits)
    next
      case 2
      with Cons less.prems show ?thesis by (cases bs) (auto simp: Let_def intro: ih)
    next
      case 3
      with Cons less.prems show ?thesis
        by (cases "map_of OBJ (unat b)") (auto simp: Let_def intro!: ih wf_put)
    qed
  qed (use less.prems in simp)
qed

text \<open>Of a name the first object counts.\<close>

lemma put_new_lookup: "map_of (put_new k v vs) x = (case map_of vs x of Some w \<Rightarrow> Some w | None \<Rightarrow> if x = k then Some v else None)"
  by (auto simp: put_new_def split: option.splits)

definition obj_entry :: "nat \<times> int \<Rightarrow> (string \<times> ble_value) option" where
  "obj_entry o1 = map_option (\<lambda>(k, len, sg, f). (k, scaled (snd o1) f)) (map_of OBJ (fst o1))"

lemma obj_put_lookup:
  "map_of (foldl obj_put vs os) x =
     (case map_of vs x of Some w \<Rightarrow> Some w | None \<Rightarrow> map_of (List.map_filter obj_entry os) x)"
proof (induction os arbitrary: vs)
  case (Cons o1 os)
  then show ?case
    by (auto simp: obj_put_def obj_entry_def map_filter_simps put_new_lookup split: option.splits)
qed (simp add: map_filter_simps split: option.split)

definition bthome_ad :: "(nat \<times> int) list \<Rightarrow> nat \<times> bytes" where
  "bthome_ad os = (0x16, [0xd2, 0xfc, 0x40] @ concat (map obj_bytes os))"

lemma service_data_bthome:
  assumes "list_all obj_ok os"
  shows "service_data mac (snd (bthome_ad os)) =
           Some \<lparr>bf_format = ''bthome'', bf_encrypted = False, bf_values = foldl obj_put [] os\<rparr>"
proof -
  have "readUInt (0xd2 # 0xfc # r) 0 (Suc (Suc 0)) = 0xfcd2" for r unfolding readUInt_Suc by simp
  then have "readUInt (0xd2 # 0xfc # r) 0 2 = 0xfcd2" for r by (simp add: numeral_2_eq_2)
  with bthome_loop_objects [OF assms, of "[]" "[]"] show ?thesis
    by (simp add: bthome_ad_def service_data_def parseBthome_def Let_def)
qed

lemma advert_steps_found: "snd (foldl (advert_step mac) (nm, Some f) ads) = Some f"
proof (induction ads arbitrary: nm)
  case (Cons ad ads)
  obtain ty d where "ad = (ty, d)" by force
  with Cons show ?case by (simp add: advert_step_def Let_def)
qed simp

lemma advert_steps_other:
  "list_all (\<lambda>ad. fst ad \<noteq> 0x16) ads \<Longrightarrow> snd (foldl (advert_step mac) (nm, None) ads) = None"
proof (induction ads arbitrary: nm)
  case (Cons ad ads)
  obtain ty d where "ad = (ty, d)" by force
  with Cons show ?case by (simp add: advert_step_def Let_def)
qed simp

text \<open>
  C12. A sensor's advertisement is read as it was sent: when the first service data are a list of BTHome
  objects in range, a value that may go to the server is that of the first object of its name.
\<close>

theorem bthome_advert_read:
  assumes "list_all obj_ok os" "list_all ad_ok (pre @ bthome_ad os # post)" "list_all (\<lambda>ad. fst ad \<noteq> 0x16) pre"
  shows "\<exists>r. parseAdvert mac (concat (map ad_bytes (pre @ bthome_ad os # post))) = Some r \<and>
             bf_format r = ''bthome'' \<and> \<not> bf_encrypted r \<and>
             (\<forall>k. map_of (bf_values r) k = (if k \<in> set KEEP then map_of (List.map_filter obj_entry os) k else None))"
proof -
  let ?f = "\<lparr>bf_format = ''bthome'', bf_encrypted = False, bf_values = foldl obj_put [] os\<rparr>"
  have ads: "adStructures (concat (map ad_bytes (pre @ bthome_ad os # post))) = pre @ bthome_ad os # post"
    using adStructures_bytes [OF assms(2), of "[]"] by simp
  obtain nm where pre: "foldl (advert_step mac) (None, None) pre = (nm, None)"
    using advert_steps_other [OF assms(3), of mac None] by (metis prod.collapse)
  have "advert_step mac (nm, None) (bthome_ad os) = (nm, Some ?f)"
    using service_data_bthome [OF assms(1), of mac] by (simp add: advert_step_def bthome_ad_def Let_def)
  then have "snd (foldl (advert_step mac) (None, None) (pre @ bthome_ad os # post)) = Some ?f"
    by (simp add: pre advert_steps_found)
  then obtain nm' where "foldl (advert_step mac) (None, None) (pre @ bthome_ad os # post) = (nm', Some ?f)"
    by (metis prod.collapse)
  moreover have "map_of (filter (\<lambda>kv. fst kv \<in> set KEEP) vs) k = (if k \<in> set KEEP then map_of vs k else None)"
    for vs :: ble_values and k by (induction vs) auto
  ultimately show ?thesis
    unfolding parseAdvert_def ads by (simp add: obj_put_lookup del: foldl_append)
qed

theorem bthome_advert_read_witness:
  "let os = [(0x02, -1250), (0x01, 97), (0x45, 3)]; ads = [(0x01, [6]), bthome_ad os, (0x16, [0xd2, 0xfc, 0x41])]
   in list_all obj_ok os \<and> list_all ad_ok ads \<and>
      map_option (\<lambda>r. map_of (bf_values r) ''temperature'') (parseAdvert [] (concat (map ad_bytes ads))) =
        Some (Some (Scaled (-1250) (1 / 100) 2))"
proof -
  let ?os = "[(0x02, -1250), (0x01, 97), (0x45, 3)] :: (nat \<times> int) list"
  have ok: "list_all obj_ok ?os" "list_all ad_ok ([(0x01, [6])] @ bthome_ad ?os # [(0x16, [0xd2, 0xfc, 0x41])])"
    "list_all (\<lambda>ad. fst ad \<noteq> 0x16) [(0x01 :: nat, [6 :: byte])]"
    "map_of (List.map_filter obj_entry ?os) ''temperature'' = Some (Scaled (-1250) (1 / 100) 2)"
    "''temperature'' \<in> set KEEP"
    by code_simp+
  show ?thesis
    using bthome_advert_read [OF ok(1-3), of "[]"] ok by (auto simp: Let_def)
qed

text \<open>Whatever is received, only the names of \<open>KEEP\<close> are reported, each once.\<close>

lemma parseEnv_wf: "parseEnv data mac = Some (f, vs) \<Longrightarrow> wf_map vs"
  by (auto simp: parseEnv_def wf_map_def split: if_splits)

lemma parseBthome_wf: "parseBthome data = Some (e, vs) \<Longrightarrow> wf_map vs"
  by (auto simp: parseBthome_def bthome_loop_wf split: list.splits if_splits)

lemma service_data_wf: "service_data mac data = Some f \<Longrightarrow> wf_map (bf_values f)"
  by (auto simp: service_data_def Let_def dest: parseEnv_wf parseBthome_wf split: if_splits)

theorem advert_values_ok:
  assumes "parseAdvert mac buf = Some r"
  shows "wf_map (bf_values r) \<and> fst ` set (bf_values r) \<subseteq> set KEEP"
proof -
  let ?Q = "\<lambda>st. \<forall>f. snd st = Some f \<longrightarrow> wf_map (bf_values f)"
  have "?Q (foldl (advert_step mac) (None, None) (adStructures buf))"
    by (rule foldl_invariant [where Q = ?Q])
       (auto simp: advert_step_def Let_def dest: service_data_wf split: prod.splits if_splits)
  with assms show ?thesis
    by (auto simp: parseAdvert_def wf_map_def distinct_map_filter split: prod.splits option.splits)
qed

end
