(* ===== verification/Print_Ipp.thy ===== *)
theory Print_Ipp
  imports Js_Values
begin

text \<open>
  The IPP client (\<open>src/src/print/ipp.js\<close>): encoding of messages, the decoder with its collections,
  requests and the reading of their answers. The UTF-8 encoder and decoder of the platform are
  the arguments \<open>enc\<close> and \<open>dec\<close>; the transport is given by its answers.

  The decoder fills objects that it has already linked into its result. The model has an explicit
  store: a collection is the address of its object, so the code's order of linking and filling is
  kept. An attribute named \<open>__proto__\<close> would replace the prototype of the object that holds it; the
  model has no prototypes and ends there with the error \<open>Ipp_proto\<close>.
\<close>

section \<open>Constants\<close>

definition TAG_integer :: nat where "TAG_integer = 0x21"
definition TAG_boolean :: nat where "TAG_boolean = 0x22"
definition TAG_enum :: nat where "TAG_enum = 0x23"
definition TAG_name :: nat where "TAG_name = 0x42"
definition TAG_keyword :: nat where "TAG_keyword = 0x44"
definition TAG_uri :: nat where "TAG_uri = 0x45"
definition TAG_charset :: nat where "TAG_charset = 0x47"
definition TAG_naturalLanguage :: nat where "TAG_naturalLanguage = 0x48"
definition TAG_mimeMediaType :: nat where "TAG_mimeMediaType = 0x49"
definition TAG_begCollection :: nat where "TAG_begCollection = 0x34"
definition TAG_endCollection :: nat where "TAG_endCollection = 0x37"
definition TAG_memberAttrName :: nat where "TAG_memberAttrName = 0x4a"

definition GROUP_operation :: nat where "GROUP_operation = 1"
definition GROUP_job :: nat where "GROUP_job = 2"
definition GROUP_end :: nat where "GROUP_end = 3"
definition GROUP_printer :: nat where "GROUP_printer = 4"

lemmas ipp_constants =
  TAG_integer_def TAG_boolean_def TAG_enum_def TAG_name_def TAG_keyword_def TAG_uri_def TAG_charset_def
  TAG_naturalLanguage_def TAG_mimeMediaType_def TAG_begCollection_def TAG_endCollection_def TAG_memberAttrName_def
  GROUP_operation_def GROUP_job_def GROUP_end_def GROUP_printer_def

definition JOB_STATE :: "(int \<times> string) list" where
  "JOB_STATE = [(3, ''pending''), (4, ''held''), (5, ''processing''), (6, ''stopped''), (7, ''canceled''), (8, ''aborted''), (9, ''completed'')]"

definition PRINTER_STATE :: "(int \<times> string) list" where
  "PRINTER_STATE = [(3, ''idle''), (4, ''processing''), (5, ''stopped'')]"

section \<open>Encoding\<close>

text \<open>Values as the callers give them; \<open>num\<close> is the conversion of a text to a number.\<close>

datatype ipp_arg = Arg_int int | Arg_bool bool | Arg_str string

type_synonym ipp_attr = "nat \<times> string \<times> ipp_arg list"

definition i32 :: "int \<Rightarrow> bytes option" where
  "i32 v = (if - (2 ^ 31) \<le> v \<and> v < 2 ^ 31 then u32 (nat (v mod 2 ^ 32)) else None)"

text \<open>Tag, length and name, length and value; a length over 65535 throws.\<close>

definition tagged :: "nat \<Rightarrow> bytes \<Rightarrow> bytes \<Rightarrow> bytes option" where
  "tagged tag n v =
     do {
       nl \<leftarrow> u16 (length n);
       vl \<leftarrow> u16 (length v);
       Some (byte_of tag # nl @ n @ vl @ v)
     }"

fun arg_str :: "ipp_arg \<Rightarrow> string" where
  "arg_str (Arg_int i) = (if i < 0 then CHR ''-'' # dec_string (nat (- i)) else dec_string (nat i))"
| "arg_str (Arg_bool b) = (if b then ''true'' else ''false'')"
| "arg_str (Arg_str s) = s"

fun arg_num :: "(string \<Rightarrow> int) \<Rightarrow> ipp_arg \<Rightarrow> int" where
  "arg_num num_of (Arg_int i) = i"
| "arg_num num_of (Arg_bool b) = (if b then 1 else 0)"
| "arg_num num_of (Arg_str s) = num_of s"

fun arg_truthy :: "ipp_arg \<Rightarrow> bool" where
  "arg_truthy (Arg_int i) = (i \<noteq> 0)"
| "arg_truthy (Arg_bool b) = b"
| "arg_truthy (Arg_str s) = (s \<noteq> [])"

definition ipp_str :: "(string \<Rightarrow> bytes) \<Rightarrow> nat \<Rightarrow> string \<Rightarrow> ipp_arg \<Rightarrow> bytes option" where
  "ipp_str enc tag nm v = tagged tag (enc nm) (enc (arg_str v))"

definition ipp_int :: "(string \<Rightarrow> bytes) \<Rightarrow> (string \<Rightarrow> int) \<Rightarrow> nat \<Rightarrow> string \<Rightarrow> ipp_arg \<Rightarrow> bytes option" where
  "ipp_int enc num_of tag nm v = i32 (arg_num num_of v) \<bind> tagged tag (enc nm)"

definition ipp_bool :: "(string \<Rightarrow> bytes) \<Rightarrow> string \<Rightarrow> ipp_arg \<Rightarrow> bytes option" where
  "ipp_bool enc nm v = tagged TAG_boolean (enc nm) [if arg_truthy v then 1 else 0]"

definition encodeValue :: "(string \<Rightarrow> bytes) \<Rightarrow> (string \<Rightarrow> int) \<Rightarrow> nat \<Rightarrow> string \<Rightarrow> ipp_arg \<Rightarrow> bytes option" where
  "encodeValue enc num_of tag nm v =
     (if tag = TAG_integer \<or> tag = TAG_enum then ipp_int enc num_of tag nm v
      else if tag = TAG_boolean then ipp_bool enc nm v
      else ipp_str enc tag nm v)"

fun encodeValues :: "(string \<Rightarrow> bytes) \<Rightarrow> (string \<Rightarrow> int) \<Rightarrow> nat \<Rightarrow> string \<Rightarrow> ipp_arg list \<Rightarrow> bytes option" where
  "encodeValues enc num_of tag nm [] = Some []"
| "encodeValues enc num_of tag nm (v # vs) =
     do {
       a \<leftarrow> encodeValue enc num_of tag nm v;
       b \<leftarrow> encodeValues enc num_of tag [] vs;
       Some (a @ b)
     }"

definition encodeAttr :: "(string \<Rightarrow> bytes) \<Rightarrow> (string \<Rightarrow> int) \<Rightarrow> ipp_attr \<Rightarrow> bytes option" where
  "encodeAttr enc num_of a = (case a of (tag, nm, vs) \<Rightarrow> encodeValues enc num_of tag nm vs)"

fun encodeAttrs :: "(string \<Rightarrow> bytes) \<Rightarrow> (string \<Rightarrow> int) \<Rightarrow> ipp_attr list \<Rightarrow> bytes option" where
  "encodeAttrs enc num_of [] = Some []"
| "encodeAttrs enc num_of (a # as) =
     do {
       x \<leftarrow> encodeAttr enc num_of a;
       y \<leftarrow> encodeAttrs enc num_of as;
       Some (x @ y)
     }"

fun encodeGroups :: "(string \<Rightarrow> bytes) \<Rightarrow> (string \<Rightarrow> int) \<Rightarrow> (nat \<times> ipp_attr list) list \<Rightarrow> bytes option" where
  "encodeGroups enc num_of [] = Some []"
| "encodeGroups enc num_of ((gt, as) # gs) =
     (if as = [] then encodeGroups enc num_of gs
      else do {
        x \<leftarrow> encodeAttrs enc num_of as;
        y \<leftarrow> encodeGroups enc num_of gs;
        Some (byte_of gt # x @ y)
      })"

definition encodeMessage ::
    "(string \<Rightarrow> bytes) \<Rightarrow> (string \<Rightarrow> int) \<Rightarrow> nat \<Rightarrow> nat \<Rightarrow> (nat \<times> ipp_attr list) list \<Rightarrow> bytes option" where
  "encodeMessage enc num_of code requestId groups =
     do {
       c \<leftarrow> u16 code;
       r \<leftarrow> u32 (requestId mod 2 ^ 32);
       gs \<leftarrow> encodeGroups enc num_of groups;
       Some ([2, 0] @ c @ r @ gs @ [byte_of GROUP_end])
     }"

definition encodeRequest ::
    "(string \<Rightarrow> bytes) \<Rightarrow> (string \<Rightarrow> int) \<Rightarrow> nat \<Rightarrow> nat \<Rightarrow> ipp_attr list \<Rightarrow> ipp_attr list \<Rightarrow> bytes option" where
  "encodeRequest enc num_of code requestId operation job =
     encodeMessage enc num_of code requestId [(GROUP_operation, operation), (GROUP_job, job)]"

section \<open>Decoding\<close>

datatype ipp_value =
    V_null
  | V_int int
  | V_bool bool
  | V_range int int
  | V_resolution int int nat
  | V_text string
  | V_collection nat

type_synonym ipp_attrs = "(string, ipp_value list) jsmap"

datatype ipp_error = Bad_response string | Ipp_type_error | Ipp_proto | Ipp_code string | Ipp_status nat

definition readI32 :: "bytes \<Rightarrow> nat \<Rightarrow> int" where
  "readI32 buf off =
     (case readU32 buf off of
        None \<Rightarrow> 0
      | Some u \<Rightarrow> if u < 2 ^ 31 then int u else int u - 2 ^ 32)"

definition text_with_language :: "(bytes \<Rightarrow> string) \<Rightarrow> bytes \<Rightarrow> ipp_value" where
  "text_with_language dec buf =
     (case readU16 buf 0 of
        Some ll \<Rightarrow>
          if length buf < 4 then V_null
          else let tl = (case readU16 buf (2 + ll) of Some n \<Rightarrow> n | None \<Rightarrow> 0)
            in V_text (dec (subarray buf (4 + ll) (4 + ll + tl)))
      | None \<Rightarrow> V_null)"

definition readValue :: "(bytes \<Rightarrow> string) \<Rightarrow> nat \<Rightarrow> bytes \<Rightarrow> ipp_value" where
  "readValue dec tag buf =
     (if tag = TAG_integer \<or> tag = TAG_enum then (if length buf = 4 then V_int (readI32 buf 0) else V_null)
      else if tag = TAG_boolean then (if length buf = 1 then V_bool (buf ! 0 \<noteq> 0) else V_null)
      else if tag = 0x33 then (if length buf = 8 then V_range (readI32 buf 0) (readI32 buf 4) else V_null)
      else if tag = 0x32 then (if length buf = 9 then V_resolution (readI32 buf 0) (readI32 buf 4) (unat (buf ! 8)) else V_null)
      else if tag = 0x31 then V_null
      else if tag = 0x35 \<or> tag = 0x36 then text_with_language dec buf
      else if tag = 0x10 \<or> tag = 0x12 \<or> tag = 0x13 then V_null
      else V_text (dec buf))"

text \<open>
  \<open>is_groups\<close>: the groups so far, the last is the current one; \<open>is_stack\<close>: the open collections, the
  innermost first, with their member names; \<open>is_store\<close>: the objects of the collections.
\<close>

record ipp_state =
  is_groups :: "(nat \<times> ipp_attrs) list"
  is_last :: "string option"
  is_stack :: "(nat \<times> string option) list"
  is_store :: "ipp_attrs list"

definition truthy :: "string option \<Rightarrow> bool" where
  "truthy s = (s \<noteq> None \<and> s \<noteq> Some [])"

text \<open>\<open>(o[k] = o[k] || []).push(v)\<close>: an inherited member is truthy and has no \<open>push\<close>.\<close>

definition push_at :: "string \<Rightarrow> ipp_value \<Rightarrow> ipp_attrs \<Rightarrow> ipp_error + ipp_attrs" where
  "push_at k v m =
     (case map_of m k of
        Some vs \<Rightarrow> Inr (mset_at k (vs @ [v]) m)
      | None \<Rightarrow>
          if k \<in> set object_prototype then Inl Ipp_type_error
          else Inr (mset_at k [v] m))"

definition set_at :: "string \<Rightarrow> ipp_value \<Rightarrow> ipp_attrs \<Rightarrow> ipp_error + ipp_attrs" where
  "set_at k v m = (if k = ''__proto__'' then Inl Ipp_proto else Inr (mset_at k [v] m))"

definition with_group :: "(ipp_attrs \<Rightarrow> ipp_error + ipp_attrs) \<Rightarrow> ipp_state \<Rightarrow> ipp_error + ipp_state" where
  "with_group f st =
     (case f (snd (last (is_groups st))) of
        Inl e \<Rightarrow> Inl e
      | Inr m \<Rightarrow> Inr (st\<lparr>is_groups := butlast (is_groups st) @ [(fst (last (is_groups st)), m)]\<rparr>))"

definition with_object :: "nat \<Rightarrow> (ipp_attrs \<Rightarrow> ipp_error + ipp_attrs) \<Rightarrow> ipp_state \<Rightarrow> ipp_error + ipp_state" where
  "with_object a f st =
     (case f (is_store st ! a) of
        Inl e \<Rightarrow> Inl e
      | Inr m \<Rightarrow> Inr (st\<lparr>is_store := (is_store st)[a := m]\<rparr>))"

definition begin_collection :: "nat \<Rightarrow> string \<Rightarrow> ipp_state \<Rightarrow> ipp_error + ipp_state" where
  "begin_collection nl nm st =
     (let a = length (is_store st); st' = st\<lparr>is_store := is_store st @ [[]]\<rparr>;
          opened = map_sum (\<lambda>e. e) (\<lambda>s. s\<lparr>is_stack := (a, None) # is_stack s\<rparr>)
      in if 8 \<le> length (is_stack st) then Inl (Bad_response ''collections nested too deep'')
         else case is_stack st of
           (t, member) # _ \<Rightarrow>
             if nl \<noteq> 0 then Inl (Bad_response ''named value inside a collection'')
             else if \<not> truthy member then Inl (Bad_response ''collection without member name'')
             else opened (with_object t (push_at (the member) (V_collection a)) st')
         | [] \<Rightarrow>
             if nl \<noteq> 0 then opened (with_group (push_at nm (V_collection a)) (st'\<lparr>is_last := Some nm\<rparr>))
             else if truthy (is_last st) then opened (with_group (push_at (the (is_last st)) (V_collection a)) st')
             else opened (Inr st'))"

definition ipp_attribute :: "(bytes \<Rightarrow> string) \<Rightarrow> nat \<Rightarrow> bytes \<Rightarrow> bytes \<Rightarrow> ipp_state \<Rightarrow> ipp_error + ipp_state" where
  "ipp_attribute dec tag nmb raw st =
     (let nl = length nmb; nm = dec nmb
      in if is_groups st = [] then Inl (Bad_response ''attribute outside a group'')
         else if tag = TAG_begCollection then begin_collection nl nm st
         else if tag = TAG_endCollection then Inr (st\<lparr>is_stack := tl (is_stack st)\<rparr>)
         else case is_stack st of
           (t, member) # rest \<Rightarrow>
             if tag = TAG_memberAttrName then Inr (st\<lparr>is_stack := (t, Some (dec raw)) # rest\<rparr>)
             else if truthy member then with_object t (push_at (the member) (readValue dec tag raw)) st
             else Inr st
         | [] \<Rightarrow>
             if nl \<noteq> 0 then with_group (set_at nm (readValue dec tag raw)) (st\<lparr>is_last := Some nm\<rparr>)
             else if truthy (is_last st) then with_group (push_at (the (is_last st)) (readValue dec tag raw)) st
             else Inr st)"

text \<open>A length and that many bytes.\<close>

definition counted :: "bytes \<Rightarrow> (bytes \<times> bytes) option" where
  "counted bs =
     (case readU16 bs 0 of
        None \<Rightarrow> None
      | Some n \<Rightarrow> if length bs < 2 + n then None else Some (take n (drop 2 bs), drop (2 + n) bs))"

lemma counted_shorter: "counted bs = Some (x, r) \<Longrightarrow> length r < length bs"
  by (auto simp: counted_def readU16_def split: option.splits if_splits)

function ipp_loop :: "(bytes \<Rightarrow> string) \<Rightarrow> bytes \<Rightarrow> ipp_state \<Rightarrow> ipp_error + ipp_state \<times> bytes option" where
  "ipp_loop dec [] st = Inr (st, None)"
| "ipp_loop dec (t # bs) st =
     (let tag = unat t
      in if tag = GROUP_end then Inr (st, Some bs)
         else if tag < 0x10 then ipp_loop dec bs (st\<lparr>is_groups := is_groups st @ [(tag, [])], is_last := None\<rparr>)
         else case counted bs of
           None \<Rightarrow> Inl (Bad_response ''truncated IPP response'')
         | Some (nmb, bs') \<Rightarrow>
             (case counted bs' of
                None \<Rightarrow> Inl (Bad_response ''truncated IPP response'')
              | Some (raw, bs'') \<Rightarrow>
                  (case ipp_attribute dec tag nmb raw st of Inl e \<Rightarrow> Inl e | Inr st' \<Rightarrow> ipp_loop dec bs'' st')))"
  by pat_completeness auto
termination by (relation "measure (\<lambda>(_, bs, _). length bs)") (auto dest!: counted_shorter)

record ipp_response =
  ir_version :: "nat \<times> nat"
  ir_status :: nat
  ir_requestId :: nat
  ir_groups :: "(nat \<times> ipp_attrs) list"
  ir_store :: "ipp_attrs list"
  ir_data :: "bytes option"

definition decodeResponse :: "(bytes \<Rightarrow> string) \<Rightarrow> bytes \<Rightarrow> ipp_error + ipp_response" where
  "decodeResponse dec buf =
     (if length buf < 9 then Inl (Bad_response ''short IPP response'')
      else case ipp_loop dec (drop 8 buf) \<lparr>is_groups = [], is_last = None, is_stack = [], is_store = []\<rparr> of
        Inl e \<Rightarrow> Inl e
      | Inr (st, data) \<Rightarrow>
          Inr \<lparr>ir_version = (unat (buf ! 0), unat (buf ! 1)), ir_status = the (readU16 buf 2), ir_requestId = the (readU32 buf 4),
               ir_groups = is_groups st, ir_store = is_store st, ir_data = data\<rparr>)"

text \<open>\<open>Object.assign\<close> of the groups of a tag.\<close>

definition attrsOf :: "ipp_response \<Rightarrow> nat \<Rightarrow> ipp_attrs" where
  "attrsOf res tag =
     foldl (\<lambda>m g. if fst g = tag then foldl (\<lambda>m kv. mset_at (fst kv) (snd kv) m) m (snd g) else m) [] (ir_groups res)"

section \<open>Requests\<close>

record endpoint =
  ep_scheme :: string
  ep_host :: string
  ep_port :: nat
  ep_path :: string
  ep_pin :: "string option"

definition strip_slashes :: "string \<Rightarrow> string" where
  "strip_slashes s = dropWhile (\<lambda>c. c = CHR ''/'') s"

definition endpointUri :: "endpoint \<Rightarrow> string" where
  "endpointUri ep = ep_scheme ep @ ''://'' @ ep_host ep @ '':'' @ dec_string (ep_port ep) @ ''/'' @ strip_slashes (ep_path ep)"

datatype tls_choice = No_agent | Pinned string nat string

definition tlsFor :: "endpoint \<Rightarrow> string \<Rightarrow> ipp_error + tls_choice" where
  "tlsFor ep tlsScheme =
     (if ep_scheme ep \<noteq> tlsScheme then Inr No_agent
      else case ep_pin ep of
        Some p \<Rightarrow> if re_class is_hex_lower 64 64 p then Inr (Pinned (ep_host ep) (ep_port ep) p) else Inl (Ipp_code ''no_pin'')
      | None \<Rightarrow> Inl (Ipp_code ''no_pin''))"

definition MAX_IPP_RESPONSE :: nat where
  "MAX_IPP_RESPONSE = 1024 * 1024"

text \<open>The chunks of the answer to a request.\<close>

fun collect_body :: "nat \<Rightarrow> bytes \<Rightarrow> bytes list \<Rightarrow> ipp_error + bytes" where
  "collect_body n acc [] = Inr acc"
| "collect_body n acc (c # cs) =
     (if MAX_IPP_RESPONSE < n + length c then Inl (Ipp_code ''too_large'') else collect_body (n + length c) (acc @ c) cs)"

text \<open>What the network answers to a request: status and chunks, or an error code.\<close>

type_synonym ipp_network = "tls_choice \<Rightarrow> string \<Rightarrow> bytes \<Rightarrow> string + nat \<times> bytes list"

definition ipp_post :: "(bytes \<Rightarrow> string) \<Rightarrow> ipp_network \<Rightarrow> endpoint \<Rightarrow> bytes \<Rightarrow> ipp_error + ipp_response" where
  "ipp_post dec net ep head =
     (case tlsFor ep ''ipps'' of
        Inl e \<Rightarrow> Inl e
      | Inr tls \<Rightarrow>
          (case net tls (CHR ''/'' # strip_slashes (ep_path ep)) head of
             Inl code \<Rightarrow> Inl (Ipp_code code)
           | Inr (status, chs) \<Rightarrow>
               if status \<noteq> 200 then Inl (Ipp_code ''http_status'')
               else (case collect_body 0 [] chs of Inl e \<Rightarrow> Inl e | Inr body \<Rightarrow> decodeResponse dec body)))"

definition reqId :: "nat \<Rightarrow> nat" where
  "reqId nextId = nextId mod 0x7fffffff + 1"

definition baseOps :: "endpoint \<Rightarrow> ipp_attr list" where
  "baseOps ep =
     [(TAG_charset, ''attributes-charset'', [Arg_str ''utf-8'']),
      (TAG_naturalLanguage, ''attributes-natural-language'', [Arg_str ''en'']),
      (TAG_uri, ''printer-uri'', [Arg_str (endpointUri ep)])]"

definition user_attr :: "string \<Rightarrow> ipp_attr" where
  "user_attr u = (TAG_name, ''requesting-user-name'', [Arg_str u])"

definition PRINTER_ATTRS :: "string list" where
  "PRINTER_ATTRS =
     [''printer-state'', ''printer-state-reasons'', ''printer-is-accepting-jobs'', ''printer-make-and-model'', ''printer-name'',
      ''printer-info'', ''printer-location'', ''printer-uuid'', ''color-supported'', ''sides-supported'', ''print-color-mode-supported'',
      ''document-format-supported'', ''copies-supported'', ''marker-names'', ''marker-colors'', ''marker-levels'', ''marker-types'',
      ''marker-low-levels'', ''pwg-raster-document-resolution-supported'', ''pwg-raster-document-type-supported'',
      ''pwg-raster-document-sheet-back'', ''urf-supported'', ''media-default'', ''media-ready'']"

text \<open>Encode a request with the next id, post it: the new id counter and the answer.\<close>

definition ipp_request ::
    "(string \<Rightarrow> bytes) \<Rightarrow> (bytes \<Rightarrow> string) \<Rightarrow> (string \<Rightarrow> int) \<Rightarrow> ipp_network \<Rightarrow> endpoint \<Rightarrow> nat \<Rightarrow> ipp_attr list \<Rightarrow> ipp_attr list \<Rightarrow> nat
     \<Rightarrow> nat \<times> (ipp_error + ipp_response)" where
  "ipp_request enc dec num_of net ep code operation job nextId =
     (let i = reqId nextId
      in (i, case encodeRequest enc num_of code i operation job of
               None \<Rightarrow> Inl Ipp_type_error
             | Some head \<Rightarrow> ipp_post dec net ep head))"

definition accepted :: "ipp_error + ipp_response \<Rightarrow> ipp_error + ipp_response" where
  "accepted r = (case r of Inl e \<Rightarrow> Inl e | Inr res \<Rightarrow> if 0x0400 \<le> ir_status res then Inl (Ipp_status (ir_status res)) else Inr res)"

definition getPrinterAttributes where
  "getPrinterAttributes enc dec num_of net ep nextId =
     apsnd (\<lambda>r. map_sum (\<lambda>e. e) (\<lambda>res. attrsOf res GROUP_printer) (accepted r))
       (ipp_request enc dec num_of net ep 0x000b
          (baseOps ep @ [user_attr ''GateControl'', (TAG_keyword, ''requested-attributes'', map Arg_str PRINTER_ATTRS)]) [] nextId)"

record print_job =
  pj_name :: string
  pj_user :: string
  pj_format :: string
  pj_copies :: "int option"
  pj_duplex :: "bool option"
  pj_color :: "bool option"

definition job_attrs :: "print_job \<Rightarrow> ipp_attr list" where
  "job_attrs job =
     (case pj_copies job of Some n \<Rightarrow> if 1 < n then [(TAG_integer, ''copies'', [Arg_int n])] else [] | None \<Rightarrow> []) @
     (case pj_duplex job of
        Some d \<Rightarrow> [(TAG_keyword, ''sides'', [Arg_str (if d then ''two-sided-long-edge'' else ''one-sided'')])] | None \<Rightarrow> []) @
     (case pj_color job of
        Some c \<Rightarrow> [(TAG_keyword, ''print-color-mode'', [Arg_str (if c then ''color'' else ''monochrome'')])] | None \<Rightarrow> [])"

definition or_gatecontrol :: "string \<Rightarrow> string" where
  "or_gatecontrol s = (if s = [] then ''GateControl'' else s)"

fun int_value :: "ipp_value list option \<Rightarrow> int option" where
  "int_value (Some (V_int i # _)) = Some i"
| "int_value _ = None"

text \<open>
  \<open>STATE[v]\<close>: the value becomes a property name, so a text of digits is found too and the name of an
  inherited member gives that member (\<open>Inl\<close>).
\<close>

definition state_at :: "(int \<times> string) list \<Rightarrow> ipp_value list \<Rightarrow> (string + string) option" where
  "state_at table vs =
     (case vs of
        V_int i # _ \<Rightarrow> map_option Inr (map_of table i)
      | V_text s # _ \<Rightarrow>
          (case map_of (map (\<lambda>(i, n). (dec_string (nat i), n)) table) s of
             Some n \<Rightarrow> Some (Inr n)
           | None \<Rightarrow> if s \<in> set object_prototype then Some (Inl s) else None)
      | _ \<Rightarrow> None)"

definition values_of :: "ipp_attrs \<Rightarrow> string \<Rightarrow> ipp_value list" where
  "values_of a k = (case map_of a k of Some vs \<Rightarrow> vs | None \<Rightarrow> [])"

definition job_state :: "ipp_attrs \<Rightarrow> (string + string) option" where
  "job_state j = state_at JOB_STATE (values_of j ''job-state'')"

text \<open>The answer to a job: status, job id and state. The file follows the head in the same request.\<close>

definition printJob where
  "printJob enc dec num_of net ep job nextId =
     apsnd (map_sum (\<lambda>e. e) (\<lambda>res. let j = attrsOf res GROUP_job in (ir_status res, int_value (map_of j ''job-id''), job_state j)))
       (ipp_request enc dec num_of net ep 0x0002
          (baseOps ep @ [user_attr (take 60 (or_gatecontrol (pj_user job))),
             (TAG_name, ''job-name'', [Arg_str (take 120 (or_gatecontrol (pj_name job)))]),
             (TAG_mimeMediaType, ''document-format'', [Arg_str (pj_format job)])])
          (job_attrs job) nextId)"

fun text_value :: "ipp_value \<Rightarrow> string option" where
  "text_value (V_text s) = Some s"
| "text_value _ = None"

definition getJobAttributes where
  "getJobAttributes enc dec num_of net ep jobId nextId =
     apsnd (\<lambda>r. map_sum (\<lambda>e. e) (\<lambda>res. let j = attrsOf res GROUP_job
                in (job_state j, take 8 (List.map_filter text_value (values_of j ''job-state-reasons'')))) (accepted r))
       (ipp_request enc dec num_of net ep 0x0009
          (baseOps ep @ [(TAG_integer, ''job-id'', [Arg_int jobId]), user_attr ''GateControl'',
             (TAG_keyword, ''requested-attributes'', [Arg_str ''job-state'', Arg_str ''job-state-reasons''])]) [] nextId)"

definition cancelJob where
  "cancelJob enc dec num_of net ep jobId nextId =
     apsnd (map_sum (\<lambda>e. e) ir_status)
       (ipp_request enc dec num_of net ep 0x0008
          (baseOps ep @ [(TAG_integer, ''job-id'', [Arg_int jobId]), user_attr ''GateControl'']) [] nextId)"

section \<open>Round trip of messages\<close>

text \<open>What the proofs rely on of UTF-8: decoding undoes encoding.\<close>

definition utf8_codec :: "(string \<Rightarrow> bytes) \<Rightarrow> (bytes \<Rightarrow> string) \<Rightarrow> bool" where
  "utf8_codec enc dec = (enc [] = [] \<and> (\<forall>s. dec (enc s) = s))"

lemma utf8_codec_latin1: "utf8_codec (map char_byte) (map byte_char)"
  by (simp add: utf8_codec_def map_idI)

lemma enc_not_empty: "utf8_codec enc dec \<Longrightarrow> s \<noteq> [] \<Longrightarrow> enc s \<noteq> []"
  unfolding utf8_codec_def by metis

text \<open>Tags whose value the client writes and reads in the same format.\<close>

definition simple_tag :: "nat \<Rightarrow> bool" where
  "simple_tag tag =
     (0x10 \<le> tag \<and> tag < 256 \<and> tag \<notin> {0x10, 0x12, 0x13, 0x31, 0x32, 0x33, 0x34, 0x35, 0x36, 0x37})"

definition arg_value :: "(string \<Rightarrow> int) \<Rightarrow> nat \<Rightarrow> ipp_arg \<Rightarrow> ipp_value" where
  "arg_value num_of tag v =
     (if tag = TAG_integer \<or> tag = TAG_enum then V_int (arg_num num_of v)
      else if tag = TAG_boolean then V_bool (arg_truthy v)
      else V_text (arg_str v))"

lemma readI32_i32:
  assumes "i32 v = Some b"
  shows "readI32 b 0 = v" and "length b = 4"
proof -
  from assms have r: "- (2 ^ 31) \<le> v" "v < 2 ^ 31" and u: "u32 (nat (v mod 2 ^ 32)) = Some b"
    by (auto simp: i32_def split: if_splits)
  show "length b = 4" using u32_length [OF u] .
  have "readU32 b 0 = Some (nat (v mod 2 ^ 32))" using readU32_u32 [OF u, of "[]"] by simp
  moreover have "v mod 2 ^ 32 = (if 0 \<le> v then v else v + 2 ^ 32)"
  proof (cases "0 \<le> v")
    case False
    have "(v + 2 ^ 32) mod 2 ^ 32 = v + 2 ^ 32" using r False by (intro mod_pos_pos_trivial) auto
    with False show ?thesis by simp
  qed (use r in simp)
  ultimately show "readI32 b 0 = v" using r by (auto simp: readI32_def)
qed

lemma counted_u16: "u16 (length x) = Some l \<Longrightarrow> counted (l @ x @ r) = Some (x, r)"
  by (auto simp: counted_def readU16_u16 dest: u16_length)

lemma loop_tagged:
  assumes "tagged tag n v = Some b" "0x10 \<le> tag" "tag < 256"
  shows "ipp_loop dec (b @ r) st = (case ipp_attribute dec tag n v st of Inl e \<Rightarrow> Inl e | Inr st' \<Rightarrow> ipp_loop dec r st')"
proof -
  from assms(1) obtain nl vl where l: "u16 (length n) = Some nl" "u16 (length v) = Some vl" "b = byte_of tag # nl @ n @ vl @ v"
    by (auto simp: tagged_def bind_eq_Some_conv)
  have "tag mod 256 = tag" "tag \<noteq> GROUP_end" "\<not> tag < 0x10" using assms(2,3) by (auto simp: GROUP_end_def)
  with l show ?thesis by (simp add: counted_u16 Let_def)
qed

lemma encodeValue_read:
  assumes "encodeValue enc num_of tag nm v = Some b" "simple_tag tag" "utf8_codec enc dec"
  obtains raw where "tagged tag (enc nm) raw = Some b" "readValue dec tag raw = arg_value num_of tag v"
proof -
  consider "tag = TAG_integer \<or> tag = TAG_enum" | "tag = TAG_boolean" | "tag \<noteq> TAG_integer" "tag \<noteq> TAG_enum" "tag \<noteq> TAG_boolean" by blast
  then show thesis
  proof cases
    case 1
    with assms(1) obtain raw where i: "i32 (arg_num num_of v) = Some raw" "tagged tag (enc nm) raw = Some b"
      by (auto simp: encodeValue_def ipp_int_def bind_eq_Some_conv)
    with 1 readI32_i32 [OF i(1)] show thesis by (intro that [of raw]) (auto simp: readValue_def arg_value_def)
  next
    case 2
    with assms(1) show thesis
      by (intro that [of "[if arg_truthy v then 1 else 0]"])
         (auto simp: encodeValue_def ipp_bool_def readValue_def arg_value_def ipp_constants)
  next
    case 3
    with assms show thesis
      by (intro that [of "enc (arg_str v)"])
         (auto simp: encodeValue_def ipp_str_def readValue_def arg_value_def simple_tag_def utf8_codec_def)
  qed
qed

lemma mset_at_same: "map_of m k = Some v \<Longrightarrow> mset_at k v m = m"
  by (induction k v m rule: mset_at.induct) (auto split: if_splits)

lemma mset_at_again: "mset_at k w (mset_at k v m) = mset_at k w m"
  by (induction k v m rule: mset_at.induct) auto

lemma simple_not_collection: "simple_tag tag \<Longrightarrow> tag \<noteq> TAG_begCollection \<and> tag \<noteq> TAG_endCollection"
  by (auto simp: simple_tag_def ipp_constants)

lemma groups_same: "is_groups st = x \<Longrightarrow> st\<lparr>is_groups := x\<rparr> = st"
  by (cases st) simp

lemma last_groups: "st\<lparr>is_last := l, is_groups := x\<rparr> = st\<lparr>is_groups := x, is_last := l\<rparr>"
  by (cases st) simp

text \<open>The values behind the first one, and an attribute.\<close>

lemma loop_more_values:
  assumes "encodeValues enc num_of tag [] vs = Some b" "simple_tag tag" "utf8_codec enc dec"
    "is_stack st = []" "is_last st = Some nm" "nm \<noteq> []" "is_groups st = gs @ [(g, m)]" "map_of m nm = Some ws"
  shows "ipp_loop dec (b @ r) st =
           ipp_loop dec r (st\<lparr>is_groups := gs @ [(g, mset_at nm (ws @ map (arg_value num_of tag) vs) m)]\<rparr>)"
  using assms
proof (induction vs arbitrary: b st m ws)
  case Nil
  then show ?case by (simp add: mset_at_same groups_same)
next
  case (Cons v vs)
  from Cons.prems(1) obtain b1 b2 where b: "encodeValue enc num_of tag [] v = Some b1" "encodeValues enc num_of tag [] vs = Some b2" "b = b1 @ b2"
    by (auto simp: bind_eq_Some_conv)
  obtain raw where raw: "tagged tag (enc []) raw = Some b1" "readValue dec tag raw = arg_value num_of tag v"
    using encodeValue_read [OF b(1) Cons.prems(2,3)] .
  let ?m = "mset_at nm (ws @ [arg_value num_of tag v]) m"
  have "ipp_attribute dec tag (enc []) raw st = Inr (st\<lparr>is_groups := gs @ [(g, ?m)]\<rparr>)"
    using Cons.prems simple_not_collection [OF Cons.prems(2)] raw(2)
    by (simp add: ipp_attribute_def Let_def utf8_codec_def truthy_def with_group_def push_at_def)
  with loop_tagged [OF raw(1), of dec "b2 @ r" st] Cons.prems(2)
  have "ipp_loop dec (b @ r) st = ipp_loop dec (b2 @ r) (st\<lparr>is_groups := gs @ [(g, ?m)]\<rparr>)"
    by (simp add: b(3) simple_tag_def)
  with Cons.IH [OF b(2) Cons.prems(2,3), of "st\<lparr>is_groups := gs @ [(g, ?m)]\<rparr>" ?m "ws @ [arg_value num_of tag v]"] Cons.prems
  show ?case by (simp add: mset_at_again)
qed

definition attr_ok :: "ipp_attr \<Rightarrow> bool" where
  "attr_ok a = (case a of (tag, nm, vs) \<Rightarrow> simple_tag tag \<and> nm \<noteq> [] \<and> nm \<noteq> ''__proto__'')"

definition put_attr :: "(string \<Rightarrow> int) \<Rightarrow> ipp_attrs \<Rightarrow> ipp_attr \<Rightarrow> ipp_attrs" where
  "put_attr num_of m a = (case a of (tag, nm, vs) \<Rightarrow> if vs = [] then m else mset_at nm (map (arg_value num_of tag) vs) m)"

lemma loop_attr:
  assumes "encodeAttr enc num_of a = Some b" "attr_ok a" "utf8_codec enc dec" "is_stack st = []" "is_groups st = gs @ [(g, m)]"
  shows "\<exists>l. ipp_loop dec (b @ r) st = ipp_loop dec r (st\<lparr>is_groups := gs @ [(g, put_attr num_of m a)], is_last := l\<rparr>)"
proof -
  obtain tag nm vs where a: "a = (tag, nm, vs)" by (cases a) auto
  from assms(2) have ok: "simple_tag tag" "nm \<noteq> []" "nm \<noteq> ''__proto__''" by (auto simp: attr_ok_def a)
  show ?thesis
  proof (cases vs)
    case Nil
    with assms(1,5) have "b = []" "st\<lparr>is_groups := gs @ [(g, m)], is_last := is_last st\<rparr> = st" by (auto simp: encodeAttr_def a)
    with Nil show ?thesis by (intro exI [of _ "is_last st"]) (simp add: put_attr_def a)
  next
    case (Cons v ws)
    with assms(1) obtain b1 b2 where b: "encodeValue enc num_of tag nm v = Some b1" "encodeValues enc num_of tag [] ws = Some b2" "b = b1 @ b2"
      by (auto simp: encodeAttr_def a bind_eq_Some_conv)
    obtain raw where raw: "tagged tag (enc nm) raw = Some b1" "readValue dec tag raw = arg_value num_of tag v"
      using encodeValue_read [OF b(1) ok(1) assms(3)] .
    let ?m = "mset_at nm [arg_value num_of tag v] m"
    let ?st = "st\<lparr>is_groups := gs @ [(g, ?m)], is_last := Some nm\<rparr>"
    have d: "dec (enc nm) = nm" using assms(3) by (simp add: utf8_codec_def)
    have "ipp_attribute dec tag (enc nm) raw st = Inr ?st"
      using assms(4,5) simple_not_collection [OF ok(1)] raw(2) enc_not_empty [OF assms(3) ok(2)] ok d
      by (simp add: ipp_attribute_def Let_def with_group_def set_at_def)
    with loop_tagged [OF raw(1), of dec "b2 @ r" st] ok(1)
    have "ipp_loop dec (b @ r) st = ipp_loop dec (b2 @ r) ?st" by (simp add: b(3) simple_tag_def)
    also have "\<dots> = ipp_loop dec r (?st\<lparr>is_groups := gs @ [(g, mset_at nm ([arg_value num_of tag v] @ map (arg_value num_of tag) ws) ?m)]\<rparr>)"
      by (rule loop_more_values [OF b(2) ok(1) assms(3)]) (use assms(4) ok in simp_all)
    finally show ?thesis using Cons by (intro exI [of _ "Some nm"]) (simp add: put_attr_def a mset_at_again last_groups)
  qed
qed

lemma loop_attrs:
  assumes "encodeAttrs enc num_of as = Some b" "list_all attr_ok as" "utf8_codec enc dec" "is_stack st = []" "is_groups st = gs @ [(g, m)]"
  shows "\<exists>l. ipp_loop dec (b @ r) st = ipp_loop dec r (st\<lparr>is_groups := gs @ [(g, foldl (put_attr num_of) m as)], is_last := l\<rparr>)"
  using assms
proof (induction as arbitrary: b st m)
  case Nil
  then show ?case by (intro exI [of _ "is_last st"]) (simp add: groups_same)
next
  case (Cons a as)
  from Cons.prems(1) obtain b1 b2 where b: "encodeAttr enc num_of a = Some b1" "encodeAttrs enc num_of as = Some b2" "b = b1 @ b2"
    by (auto simp: bind_eq_Some_conv)
  obtain l where l: "ipp_loop dec (b1 @ b2 @ r) st =
      ipp_loop dec (b2 @ r) (st\<lparr>is_groups := gs @ [(g, put_attr num_of m a)], is_last := l\<rparr>)"
    using loop_attr [OF b(1) _ Cons.prems(3-5), of "b2 @ r"] Cons.prems(2) by auto
  from Cons.IH [OF b(2) _ Cons.prems(3), of "st\<lparr>is_groups := gs @ [(g, put_attr num_of m a)], is_last := l\<rparr>"] Cons.prems l
  show ?case by (simp add: b(3))
qed

definition group_ok :: "nat \<times> ipp_attr list \<Rightarrow> bool" where
  "group_ok g = (fst g < 0x10 \<and> fst g \<noteq> GROUP_end \<and> list_all attr_ok (snd g))"

definition read_group :: "(string \<Rightarrow> int) \<Rightarrow> nat \<times> ipp_attr list \<Rightarrow> nat \<times> ipp_attrs" where
  "read_group num_of g = (fst g, foldl (put_attr num_of) [] (snd g))"

lemma loop_groups:
  assumes "encodeGroups enc num_of gs = Some b" "list_all group_ok gs" "utf8_codec enc dec" "is_stack st = []"
  shows "\<exists>l. ipp_loop dec (b @ r) st =
           ipp_loop dec r (st\<lparr>is_groups := is_groups st @ map (read_group num_of) (filter (\<lambda>g. snd g \<noteq> []) gs), is_last := l\<rparr>)"
  using assms
proof (induction enc num_of gs arbitrary: b st rule: encodeGroups.induct)
  case (1 enc num_of)
  then show ?case by (intro exI [of _ "is_last st"]) simp
next
  case (2 enc num_of gt as gs)
  show ?case
  proof (cases "as = []")
    case True
    with 2 show ?thesis by simp
  next
    case False
    with 2(3) obtain x y where b: "encodeAttrs enc num_of as = Some x" "encodeGroups enc num_of gs = Some y" "b = byte_of gt # x @ y"
      by (auto simp: bind_eq_Some_conv)
    from 2(4) have g: "gt < 0x10" "gt \<noteq> GROUP_end" "list_all attr_ok as" "list_all group_ok gs"
      by (simp_all add: group_ok_def [of "(gt, as)"])
    let ?s1 = "st\<lparr>is_groups := is_groups st @ [(gt, [])], is_last := None\<rparr>"
    have "ipp_loop dec (b @ r) st = ipp_loop dec (x @ y @ r) ?s1" using g by (simp add: b(3) Let_def)
    moreover obtain l where "ipp_loop dec (x @ y @ r) ?s1 =
        ipp_loop dec (y @ r) (?s1\<lparr>is_groups := is_groups st @ [read_group num_of (gt, as)], is_last := l\<rparr>)"
      using loop_attrs [OF b(1) g(3) 2(5), of ?s1 "is_groups st" gt "[]" "y @ r"] 2(6) by (auto simp: read_group_def)
    moreover from 2(2) [OF False b(1,2) g(4) 2(5), of "?s1\<lparr>is_groups := is_groups st @ [read_group num_of (gt, as)], is_last := l\<rparr>"] 2(6)
    obtain l' where "ipp_loop dec (y @ r) (?s1\<lparr>is_groups := is_groups st @ [read_group num_of (gt, as)], is_last := l\<rparr>) =
        ipp_loop dec r (st\<lparr>is_groups := is_groups st @ map (read_group num_of) (filter (\<lambda>g. snd g \<noteq> []) ((gt, as) # gs)), is_last := l'\<rparr>)"
      using False by auto
    ultimately show ?thesis by auto
  qed
qed

text \<open>
  C14. A message the client encodes is decoded to what it says: status, request id and, for every group
  that is not empty, its attributes with their values in order; a name given twice has its last
  values. This holds for every message whose texts and numbers fit their fields.
\<close>

theorem ipp_message_roundtrip:
  assumes "encodeMessage enc num_of code rid groups = Some buf" "list_all group_ok groups" "utf8_codec enc dec"
  shows "decodeResponse dec buf =
           Inr \<lparr>ir_version = (2, 0), ir_status = code, ir_requestId = rid mod 2 ^ 32,
                ir_groups = map (read_group num_of) (filter (\<lambda>g. snd g \<noteq> []) groups), ir_store = [], ir_data = Some []\<rparr>"
proof -
  from assms(1) obtain c r gs where b: "u16 code = Some c" "u32 (rid mod 2 ^ 32) = Some r"
      "encodeGroups enc num_of groups = Some gs" "buf = [2, 0] @ c @ r @ gs @ [byte_of GROUP_end]"
    by (auto simp: encodeMessage_def bind_eq_Some_conv)
  note l = u16_length [OF b(1)] u32_length [OF b(2)]
  let ?s0 = "\<lparr>is_groups = [], is_last = None, is_stack = [], is_store = []\<rparr>"
  have d: "drop 8 buf = gs @ [byte_of GROUP_end]" and len: "\<not> length buf < 9" using l by (simp_all add: b(4))
  obtain x where "ipp_loop dec (gs @ [byte_of GROUP_end]) ?s0 =
      ipp_loop dec [byte_of GROUP_end] (?s0\<lparr>is_groups := map (read_group num_of) (filter (\<lambda>g. snd g \<noteq> []) groups), is_last := x\<rparr>)"
    using loop_groups [OF b(3) assms(2,3), of ?s0 "[byte_of GROUP_end]"] by auto
  moreover have "readU16 buf 2 = Some code" 
    using readU16_skip [of "[2, 0]" 2 "c @ r @ gs @ [byte_of GROUP_end]"] readU16_u16 [OF b(1)] by (simp add: b(4))
  moreover have "readU32 buf 4 = Some (rid mod 2 ^ 32)"
    using readU32_skip [of "[2, 0] @ c" 4 "r @ gs @ [byte_of GROUP_end]"] readU32_u32 [OF b(2)] l by (simp add: b(4))
  ultimately show ?thesis
    unfolding decodeResponse_def d using len by (simp add: b(4) GROUP_end_def Let_def)
qed

theorem ipp_message_roundtrip_witness:
  "map_sum (\<lambda>e. ()) (\<lambda>r. attrsOf r GROUP_job)
     (decodeResponse (map byte_char) (the (encodeRequest (map char_byte) (\<lambda>s. 0) 0x0002 7
        [(TAG_charset, ''attributes-charset'', [Arg_str ''utf-8''])]
        [(TAG_integer, ''copies'', [Arg_int 3]), (TAG_keyword, ''sides'', [Arg_str ''a'', Arg_str ''b''])]))) =
   Inr [(''copies'', [V_int 3]), (''sides'', [V_text ''a'', V_text ''b''])]"
proof -
  let ?ops = "[(TAG_charset, ''attributes-charset'', [Arg_str ''utf-8''])]"
  let ?job = "[(TAG_integer, ''copies'', [Arg_int 3]), (TAG_keyword, ''sides'', [Arg_str ''a'', Arg_str ''b''])]"
  let ?gs = "[(GROUP_operation, ?ops), (GROUP_job, ?job)]"
  obtain buf where buf: "encodeMessage (map char_byte) (\<lambda>s. 0) 0x0002 7 ?gs = Some buf"
  proof -
    have "encodeMessage (map char_byte) (\<lambda>s. 0) 0x0002 7 ?gs \<noteq> None" by code_simp
    then show thesis using that by blast
  qed
  have ok: "list_all group_ok ?gs" by code_simp
  have v: "foldl (put_attr (\<lambda>s. 0)) [] ?job = [(''copies'', [V_int 3]), (''sides'', [V_text ''a'', V_text ''b''])]" by code_simp
  show ?thesis
    using ipp_message_roundtrip [OF buf ok utf8_codec_latin1] buf v
    by (simp add: encodeRequest_def attrsOf_def read_group_def GROUP_operation_def GROUP_job_def)
qed

text \<open>Every request fits its fields when the texts do, so that encoding succeeds.\<close>

definition arg_fits :: "(string \<Rightarrow> bytes) \<Rightarrow> (string \<Rightarrow> int) \<Rightarrow> nat \<Rightarrow> ipp_arg \<Rightarrow> bool" where
  "arg_fits enc num_of tag v =
     (if tag = TAG_integer \<or> tag = TAG_enum then - (2 ^ 31) \<le> arg_num num_of v \<and> arg_num num_of v < 2 ^ 31
      else tag = TAG_boolean \<or> length (enc (arg_str v)) < 65536)"

lemma tagged_total: "length n < 65536 \<Longrightarrow> length v < 65536 \<Longrightarrow> \<exists>b. tagged tag n v = Some b"
  by (simp add: tagged_def u16_def)

lemma i32_total: "- (2 ^ 31) \<le> x \<Longrightarrow> x < 2 ^ 31 \<Longrightarrow> \<exists>b. i32 x = Some b \<and> length b = 4"
  by (simp add: i32_def u32_def nat_less_iff)

lemma encodeValue_total:
  assumes "length (enc nm) < 65536" "arg_fits enc num_of tag v"
  shows "\<exists>b. encodeValue enc num_of tag nm v = Some b"
proof (cases "tag = TAG_integer \<or> tag = TAG_enum")
  case True
  with assms(2) obtain b where "i32 (arg_num num_of v) = Some b" "length b = 4"
    using i32_total [of "arg_num num_of v"] by (auto simp: arg_fits_def)
  with True tagged_total [OF assms(1), of b tag] show ?thesis by (simp add: encodeValue_def ipp_int_def)
next
  case False
  with assms tagged_total [OF assms(1)] show ?thesis
    by (auto simp: encodeValue_def ipp_bool_def ipp_str_def arg_fits_def)
qed

lemma encodeValues_total:
  "length (enc nm) < 65536 \<Longrightarrow> enc [] = [] \<Longrightarrow> list_all (arg_fits enc num_of tag) vs \<Longrightarrow> \<exists>b. encodeValues enc num_of tag nm vs = Some b"
proof (induction vs arbitrary: nm)
  case (Cons v vs)
  then have "\<exists>b. encodeValues enc num_of tag [] vs = Some b" by simp
  with Cons.prems encodeValue_total [of enc nm num_of tag v] show ?case by auto
qed simp

text \<open>
  The decoder never leaves its store: whatever arrives, every open collection has an object, the
  nesting is at most 8, and an attribute has been assigned before values are appended to it.
\<close>

definition ipp_ok :: "ipp_state \<Rightarrow> bool" where
  "ipp_ok st =
     (length (is_stack st) \<le> 8 \<and> (\<forall>t \<in> set (is_stack st). fst t < length (is_store st)) \<and>
      (\<forall>k. truthy (is_last st) \<and> is_last st = Some k \<longrightarrow> is_groups st \<noteq> [] \<and> map_of (snd (last (is_groups st))) k \<noteq> None))"

lemma with_group_keeps:
  "with_group f st = Inr st' \<Longrightarrow>
     is_stack st' = is_stack st \<and> is_store st' = is_store st \<and> is_last st' = is_last st \<and> is_groups st' \<noteq> [] \<and>
     f (snd (last (is_groups st))) = Inr (snd (last (is_groups st')))"
  by (auto simp: with_group_def split: sum.splits)

lemma with_object_keeps:
  "with_object a f st = Inr st' \<Longrightarrow>
     is_stack st' = is_stack st \<and> length (is_store st') = length (is_store st) \<and> is_last st' = is_last st \<and> is_groups st' = is_groups st"
  by (auto simp: with_object_def split: sum.splits)

lemma push_at_keys: "push_at k v m = Inr m' \<Longrightarrow> map_of m' k \<noteq> None \<and> dom (map_of m) \<subseteq> dom (map_of m')"
  by (auto simp: push_at_def split: option.splits if_splits)

lemma set_at_keys: "set_at k v m = Inr m' \<Longrightarrow> map_of m' k \<noteq> None"
  by (auto simp: set_at_def split: if_splits)

lemma opened_ok:
  assumes "ipp_ok s" "length (is_stack s) < 8" "a < length (is_store s)"
  shows "ipp_ok (s\<lparr>is_stack := (a, None) # is_stack s\<rparr>)"
  using assms by (auto simp: ipp_ok_def)

lemma map_sum_Inr: "map_sum (\<lambda>e. e) f x = Inr y \<longleftrightarrow> (\<exists>z. x = Inr z \<and> y = f z)"
  by (cases x) auto

lemma with_object_ok: "ipp_ok st \<Longrightarrow> with_object a f st = Inr st' \<Longrightarrow> ipp_ok st'"
  by (drule with_object_keeps) (simp only: ipp_ok_def, blast)

lemma with_group_ok:
  assumes "with_group f st = Inr st'" "is_stack st = []" "\<And>m m'. f m = Inr m' \<Longrightarrow> map_of m' k \<noteq> None" "is_last st = Some k"
  shows "ipp_ok st'"
  using with_group_keeps [OF assms(1)] assms(2-4) by (auto simp: ipp_ok_def)

lemma begin_collection_ok:
  assumes "ipp_ok st" "is_groups st \<noteq> []" "begin_collection nl nm st = Inr st'"
  shows "ipp_ok st'"
proof -
  let ?a = "length (is_store st)" and ?s = "st\<lparr>is_store := is_store st @ [[]]\<rparr>"
  have d: "length (is_stack st) < 8" using assms(3) by (auto simp: begin_collection_def Let_def split: if_splits)
  have s: "ipp_ok ?s" using assms(1) by (auto simp: ipp_ok_def)
  have "\<exists>s1. st' = s1\<lparr>is_stack := (?a, None) # is_stack s1\<rparr> \<and> is_stack s1 = is_stack st \<and> ?a < length (is_store s1) \<and> ipp_ok s1"
  proof (cases "is_stack st")
    case (Cons t rest)
    with assms(3) obtain k s1 where "with_object (fst t) (push_at k (V_collection ?a)) ?s = Inr s1"
        "st' = s1\<lparr>is_stack := (?a, None) # is_stack s1\<rparr>"
      by (auto simp: begin_collection_def Let_def map_sum_Inr split: prod.splits if_splits)
    with with_object_keeps [OF this(1)] with_object_ok [OF s this(1)] show ?thesis by (intro exI [of _ s1]) simp
  next
    case Nil
    consider "nl = 0" "\<not> truthy (is_last st)"
      | k s0 where "is_last s0 = Some k" "is_stack s0 = []" "is_store s0 = is_store ?s"
          "\<exists>s1. with_group (push_at k (V_collection ?a)) s0 = Inr s1 \<and> st' = s1\<lparr>is_stack := (?a, None) # is_stack s1\<rparr>"
    proof (cases "nl = 0")
      case True
      show thesis
      proof (cases "truthy (is_last st)")
        case t: True
        then obtain k where "is_last st = Some k" by (auto simp: truthy_def)
        with t True Nil assms(3) that(2) [of ?s k] show thesis by (auto simp: begin_collection_def Let_def map_sum_Inr split: if_splits)
      qed (use True that in blast)
    next
      case False
      with Nil assms(3) that(2) [of "?s\<lparr>is_last := Some nm\<rparr>" nm] show thesis
        by (auto simp: begin_collection_def Let_def map_sum_Inr split: if_splits)
    qed
    then show ?thesis
    proof cases
      case 1
      with Nil assms(3) s d have "st' = ?s\<lparr>is_stack := (?a, None) # is_stack ?s\<rparr>"
        by (auto simp: begin_collection_def Let_def map_sum_Inr)
      with s show ?thesis by (intro exI [of _ ?s]) simp
    next
      case 2
      then obtain s1 where s1: "with_group (push_at k (V_collection ?a)) s0 = Inr s1" "st' = s1\<lparr>is_stack := (?a, None) # is_stack s1\<rparr>" by blast
      have "ipp_ok s1" using with_group_ok [OF s1(1) 2(2) _ 2(1)] push_at_keys by blast
      with with_group_keeps [OF s1(1)] 2 s1(2) Nil show ?thesis by (intro exI [of _ s1]) simp
    qed
  qed
  then show ?thesis using d opened_ok by metis
qed

lemma ipp_attribute_ok:
  assumes "ipp_ok st" "ipp_attribute dec tag nmb raw st = Inr st'"
  shows "ipp_ok st'"
proof -
  have g: "is_groups st \<noteq> []" using assms(2) by (auto simp: ipp_attribute_def Let_def split: if_splits)
  consider "tag = TAG_begCollection" | "tag = TAG_endCollection" | "tag \<noteq> TAG_begCollection" "tag \<noteq> TAG_endCollection" by blast
  then show ?thesis
  proof cases
    case 1
    with assms g begin_collection_ok [OF assms(1) g] show ?thesis by (auto simp: ipp_attribute_def Let_def)
  next
    case 2
    with assms g have "st' = st\<lparr>is_stack := tl (is_stack st)\<rparr>" by (auto simp: ipp_attribute_def Let_def ipp_constants)
    with assms(1) show ?thesis by (auto simp: ipp_ok_def dest: list.set_sel(2) [rotated]) (metis list.set_sel(2) tl_Nil fst_conv)
  next
    case 3
    show ?thesis
    proof (cases "is_stack st")
      case (Cons t rest)
      with 3 assms g show ?thesis
        by (auto simp: ipp_attribute_def Let_def ipp_ok_def [of "_\<lparr>is_stack := _\<rparr>"] intro: with_object_ok split: prod.splits if_splits)
           (auto simp: ipp_ok_def)
    next
      case Nil
      let ?v = "readValue dec tag raw"
      consider "nmb \<noteq> []" "with_group (set_at (dec nmb) ?v) (st\<lparr>is_last := Some (dec nmb)\<rparr>) = Inr st'"
        | k where "is_last st = Some k" "with_group (push_at k ?v) st = Inr st'" | "st' = st"
        using 3 Nil assms(2) g by (auto simp: ipp_attribute_def Let_def truthy_def split: if_splits)
      then show ?thesis
      proof cases
        case 1
        from with_group_ok [OF 1(2), of "dec nmb"] Nil set_at_keys show ?thesis by auto
      next
        case 2
        from with_group_ok [OF 2(2) Nil _ 2(1)] push_at_keys show ?thesis by blast
      qed (use assms(1) in simp)
    qed
  qed
qed

theorem ipp_loop_ok: "ipp_ok st \<Longrightarrow> ipp_loop dec bs st = Inr (st', d) \<Longrightarrow> ipp_ok st'"
proof (induction dec bs st rule: ipp_loop.induct)
  case (2 dec t bs st)
  have "ipp_ok (st\<lparr>is_groups := g, is_last := None\<rparr>)" for g using 2(3) by (auto simp: ipp_ok_def truthy_def)
  with 2 ipp_attribute_ok [OF 2(3)] show ?case
    by (auto simp: Let_def split: if_splits option.splits prod.splits sum.splits)
qed simp

end
