(* ===== verification/Print_Plan.thy ===== *)
theory Print_Plan
  imports Print_Ipp
begin

text \<open>
  What a printer can take and how a PDF file gets there: the configuration (\<open>src/src/print/config.js\<close>),
  the printer's description from its attributes (\<open>printerInfo\<close> in \<open>src/src/print/ipp.js\<close>), the format of
  a file from its first bytes and the choice of a raster format (\<open>src/src/print/convert.js\<close>).
  Numbers are rationals, so a millimetre is exactly 360/127 points.
\<close>

section \<open>Configuration\<close>

definition isRfc1918 :: "string \<Rightarrow> bool" where
  "isRfc1918 ip =
     (isIPv4 ip \<and>
      (case map dec_value (split_on CHR ''.'' ip) of
         a # b # _ \<Rightarrow> a = 10 \<or> a = 172 \<and> 16 \<le> b \<and> b \<le> 31 \<or> a = 192 \<and> b = 168
       | _ \<Rightarrow> False))"

definition cleanText :: "string \<Rightarrow> nat \<Rightarrow> string" where
  "cleanText s n = take n (trim (map (\<lambda>c. if (of_char c :: nat) < 32 \<or> (of_char c :: nat) = 127 then CHR '' '' else c) s))"

definition MAX_MANUAL :: nat where
  "MAX_MANUAL = 16"

record print_config =
  pc_enabled :: bool
  pc_manual :: "string list"
  pc_convert :: bool

definition normalizePrint :: "json \<Rightarrow> print_config" where
  "normalizePrint raw =
     (let p = members raw
      in \<lparr>pc_enabled = (field p ''enabled'' = JBool True),
          pc_manual = take MAX_MANUAL (uniq (filter isRfc1918 (map trim (List.map_filter strOf (items (field p ''manual'')))))),
          pc_convert = (field p ''convert'' \<noteq> JBool False)\<rparr>)"

section \<open>The format of a file\<close>

definition at_bytes :: "bytes \<Rightarrow> bytes \<Rightarrow> nat \<Rightarrow> bool" where
  "at_bytes buf pat off = (take (length pat) (drop off buf) = pat)"

definition at_str :: "bytes \<Rightarrow> string \<Rightarrow> nat \<Rightarrow> bool" where
  "at_str buf s off = at_bytes buf (map char_byte s) off"

definition has_pdf_mark :: "bytes \<Rightarrow> bool" where
  "has_pdf_mark buf = list_ex (\<lambda>i. at_str (take 1024 buf) ''%PDF-'' i) [0..<length (take 1024 buf)]"

definition HEIC :: "string list" where
  "HEIC = [''heic'', ''heix'', ''hevc'', ''hevx'', ''heim'', ''heis'', ''mif1'', ''msf1'']"

definition sniff :: "bytes \<Rightarrow> string option" where
  "sniff buf =
     (if length buf < 4 then None
      else if has_pdf_mark buf then Some ''application/pdf''
      else if at_bytes buf [0xff, 0xd8, 0xff] 0 then Some ''image/jpeg''
      else if at_bytes buf [0x89, 0x50, 0x4e, 0x47, 0x0d, 0x0a, 0x1a, 0x0a] 0 then Some ''image/png''
      else if at_str buf ''RaS2'' 0 then Some ''image/pwg-raster''
      else if at_bytes buf (map char_byte ''UNIRAST'' @ [0]) 0 then Some ''image/urf''
      else if at_str buf ''GIF87a'' 0 \<or> at_str buf ''GIF89a'' 0 then Some ''image/gif''
      else if at_str buf ''RIFF'' 0 \<and> at_str buf ''WEBP'' 8 then Some ''image/webp''
      else if at_bytes buf [0x49, 0x49, 0x2a, 0] 0 \<or> at_bytes buf [0x4d, 0x4d, 0, 0x2a] 0 then Some ''image/tiff''
      else if at_str buf ''ftyp'' 4 \<and> list_ex (\<lambda>b. map char_byte b = take 4 (drop 8 buf)) HEIC then Some ''image/heic''
      else if at_str buf ''%!PS'' 0 then Some ''application/postscript''
      else None)"

section \<open>Raster capabilities\<close>

definition SHEET_BACK :: "string list" where
  "SHEET_BACK = [''normal'', ''flipped'', ''rotated'', ''manual-tumble'']"

fun dpiOf :: "ipp_value \<Rightarrow> nat option" where
  "dpiOf (V_resolution x y units) =
     (if x \<le> 0 then None
      else let dpi = (if units = 4 then \<lfloor>of_int x * (254 / 100) + 1 / 2 :: rat\<rfloor> else x)
        in if y = x \<and> 72 \<le> dpi \<and> dpi \<le> 2400 then Some (nat dpi) else None)"
| "dpiOf _ = None"

record media =
  md_name :: string
  md_w :: rat
  md_h :: rat

definition PT_PER_MM :: rat where
  "PT_PER_MM = 72 / (254 / 10)"

definition A4 :: media where
  "A4 = \<lparr>md_name = ''iso_a4_210x297mm'', md_w = 210 * PT_PER_MM, md_h = 297 * PT_PER_MM\<rparr>"

text \<open>A number of 1 to 5 digits, with a point and 1 to 4 more or without.\<close>

definition dimension :: "string \<Rightarrow> rat option" where
  "dimension s =
     (case split_on CHR ''.'' s of
        [a] \<Rightarrow> if re_class is_digit 1 5 a then Some (of_nat (dec_value a)) else None
      | [a, b] \<Rightarrow> if re_class is_digit 1 5 a \<and> re_class is_digit 1 4 b
                  then Some (of_nat (dec_value a) + of_nat (dec_value b) / 10 ^ length b) else None
      | _ \<Rightarrow> None)"

text \<open>The part behind the last underscore; the expression can match nowhere else.\<close>

definition mediaOf :: "string \<Rightarrow> media option" where
  "mediaOf nm =
     (if 80 < length nm \<or> CHR ''_'' \<notin> set nm then None
      else let dims = last (split_on CHR ''_'' nm); unit = drop (length dims - 2) dims; ds = take (length dims - 2) dims
        in if unit \<noteq> ''mm'' \<and> unit \<noteq> ''in'' then None
           else case map dimension (split_on CHR ''x'' ds) of
             [Some a, Some b] \<Rightarrow>
               let k = (if unit = ''mm'' then PT_PER_MM else 72); w = a * k; h = b * k
               in if 144 \<le> w \<and> 144 \<le> h \<and> w \<le> 2600 \<and> h \<le> 3700 then Some \<lparr>md_name = take 63 nm, md_w = w, md_h = h\<rparr> else None
           | _ \<Rightarrow> None)"

record raster_caps =
  rc_res :: "nat list"
  rc_types :: "string list"
  rc_back :: string

text \<open>\<open>number\<close> is \<open>Number\<close> on a text, \<open>None\<close> for \<open>NaN\<close>.\<close>

definition urf_res :: "(string \<Rightarrow> rat option) \<Rightarrow> string \<Rightarrow> nat list" where
  "urf_res number k =
     List.map_filter (\<lambda>s. case number s of
                            None \<Rightarrow> None
                          | Some r \<Rightarrow> if of_int \<lfloor>r\<rfloor> = r \<and> 72 \<le> r \<and> r \<le> 2400 then Some (nat \<lfloor>r\<rfloor>) else None)
       (split_on CHR ''-'' (drop 2 k))"

text \<open>\<open>/^W8(-|$)/\<close>, \<open>/^RS\d/\<close> and \<open>/^DM[1-4]$/\<close>.\<close>

definition urf_word :: "string \<Rightarrow> string \<Rightarrow> bool" where
  "urf_word w k = (k = w \<or> prefix (w @ ''-'') k)"

definition urf_is_rs :: "string \<Rightarrow> bool" where
  "urf_is_rs k = (prefix ''RS'' k \<and> 2 < length k \<and> is_digit (k ! 2))"

definition urf_is_dm :: "string \<Rightarrow> bool" where
  "urf_is_dm k = (length k = 3 \<and> prefix ''DM'' k \<and> k ! 2 \<in> set ''1234'')"

definition urf_step :: "(string \<Rightarrow> rat option) \<Rightarrow> raster_caps \<Rightarrow> ipp_value \<Rightarrow> raster_caps" where
  "urf_step number out v =
     (case text_value v of
        None \<Rightarrow> out
      | Some k \<Rightarrow>
          if urf_word ''W8'' k then out\<lparr>rc_types := rc_types out @ [''sgray_8'']\<rparr>
          else if urf_word ''SRGB24'' k then out\<lparr>rc_types := rc_types out @ [''srgb_8'']\<rparr>
          else if urf_is_rs k then out\<lparr>rc_res := rc_res out @ urf_res number k\<rparr>
          else if urf_is_dm k then out\<lparr>rc_back := SHEET_BACK ! (dec_value [k ! 2] - 1)\<rparr>
          else out)"

definition urfOf :: "(string \<Rightarrow> rat option) \<Rightarrow> ipp_value list \<Rightarrow> raster_caps" where
  "urfOf number vs = foldl (urf_step number) \<lparr>rc_res = [], rc_types = [], rc_back = ''normal''\<rparr> vs"

text \<open>The values of an attribute that are not null, and its first value.\<close>

definition attr_list :: "ipp_attrs \<Rightarrow> string \<Rightarrow> ipp_value list" where
  "attr_list a k = filter (\<lambda>v. v \<noteq> V_null) (values_of a k)"

definition attr_first :: "ipp_attrs \<Rightarrow> string \<Rightarrow> ipp_value" where
  "attr_first a k = (case values_of a k of v # _ \<Rightarrow> v | [] \<Rightarrow> V_null)"

definition attr_texts :: "ipp_attrs \<Rightarrow> string \<Rightarrow> string list" where
  "attr_texts a k = List.map_filter text_value (values_of a k)"

record raster_info =
  ri_pwg :: "raster_caps option"
  ri_urf :: "raster_caps option"
  ri_media :: "string option"

definition RASTER_TYPES :: "string list" where
  "RASTER_TYPES = [''srgb_8'', ''sgray_8'', ''black_1'']"

definition rasterInfo :: "(string \<Rightarrow> rat option) \<Rightarrow> ipp_attrs \<Rightarrow> raster_info" where
  "rasterInfo number a =
     (let res = List.map_filter dpiOf (attr_list a ''pwg-raster-document-resolution-supported'');
          types = filter (\<lambda>t. t \<in> set RASTER_TYPES) (attr_texts a ''pwg-raster-document-type-supported'');
          back = (case find (\<lambda>s. s \<in> set SHEET_BACK) (attr_texts a ''pwg-raster-document-sheet-back'') of Some s \<Rightarrow> s | None \<Rightarrow> ''normal'');
          urf = urfOf number (attr_list a ''urf-supported'');
          named = (case find (\<lambda>s. mediaOf s \<noteq> None) (attr_texts a ''media-ready'') of
                     Some s \<Rightarrow> Some s
                   | None \<Rightarrow> (case attr_list a ''media-default'' of v # _ \<Rightarrow> text_value v | [] \<Rightarrow> None))
      in \<lparr>ri_pwg = (if res = [] then None else Some \<lparr>rc_res = take 8 (uniq res), rc_types = types, rc_back = back\<rparr>),
          ri_urf = (if rc_res urf = [] \<or> rc_types urf = [] then None
                    else Some \<lparr>rc_res = take 8 (uniq (rc_res urf)), rc_types = uniq (rc_types urf), rc_back = rc_back urf\<rparr>),
          ri_media = map_option md_name (named \<bind> mediaOf)\<rparr>)"

section \<open>The plan\<close>

definition PREFERRED_DPI :: nat where
  "PREFERRED_DPI = 300"

text \<open>\<open>res\<close> is not empty where this is called.\<close>

definition chooseDpi :: "nat list \<Rightarrow> nat" where
  "chooseDpi res =
     (if PREFERRED_DPI \<in> set res then PREFERRED_DPI
      else case sort (filter (\<lambda>r. PREFERRED_DPI < r) res) of r # _ \<Rightarrow> r | [] \<Rightarrow> foldl max 0 res)"

definition chooseType :: "string list \<Rightarrow> bool \<Rightarrow> string option" where
  "chooseType types color =
     (if color \<and> ''srgb_8'' \<in> set types then Some ''srgb_8''
      else if ''sgray_8'' \<in> set types then Some ''sgray_8''
      else if ''srgb_8'' \<in> set types then Some ''srgb_8''
      else if ''black_1'' \<in> set types then Some ''black_1''
      else None)"

record print_plan =
  pp_format :: string
  pp_dpi :: nat
  pp_type :: string
  pp_mono :: bool
  pp_back :: string
  pp_media :: media

definition raster_plan :: "string \<Rightarrow> string list \<Rightarrow> raster_caps option \<Rightarrow> string list \<Rightarrow> bool \<Rightarrow> media \<Rightarrow> print_plan option" where
  "raster_plan fmt formats caps fallback color md =
     (case caps of
        None \<Rightarrow> None
      | Some c \<Rightarrow>
          if fmt \<notin> set formats \<or> rc_res c = [] then None
          else map_option (\<lambda>ty. \<lparr>pp_format = fmt, pp_dpi = chooseDpi (rc_res c), pp_type = ty, pp_mono = (\<not> color),
                                 pp_back = (if rc_back c = [] then ''normal'' else rc_back c), pp_media = md\<rparr>)
                 (chooseType (if rc_types c = [] then fallback else rc_types c) color))"

definition print_plan_for :: "string list \<Rightarrow> raster_info \<Rightarrow> bool \<Rightarrow> print_plan option" where
  "print_plan_for formats r color =
     (let md = (case ri_media r \<bind> mediaOf of Some m \<Rightarrow> m | None \<Rightarrow> A4)
      in case raster_plan ''image/pwg-raster'' formats (ri_pwg r) [''sgray_8'', ''srgb_8''] color md of
           Some p \<Rightarrow> Some p
         | None \<Rightarrow>
             (case raster_plan ''image/urf'' formats (ri_urf r) [] color md of
                Some p \<Rightarrow> Some p
              | None \<Rightarrow>
                  if ''image/jpeg'' \<in> set formats
                  then Some \<lparr>pp_format = ''image/jpeg'', pp_dpi = PREFERRED_DPI, pp_type = (if color then ''srgb_8'' else ''sgray_8''),
                             pp_mono = (\<not> color), pp_back = ''normal'', pp_media = md\<rparr>
                  else None))"

definition targetOf :: "string list \<Rightarrow> raster_info \<Rightarrow> string option" where
  "targetOf formats r = map_option pp_format (print_plan_for formats r True)"

section \<open>The description of a printer\<close>

record marker =
  mk_name :: string
  mk_color :: "string option"
  mk_type :: "string option"
  mk_level :: "int option"
  mk_low :: bool

text \<open>\<open>pi_state\<close> is \<open>Inl\<close> when the attribute names an inherited member of the table.\<close>

record printer_info =
  pi_state :: "string + string"
  pi_accepting :: bool
  pi_reasons :: "string list"
  pi_color :: bool
  pi_duplex :: bool
  pi_formats :: "string list"
  pi_copiesMax :: int
  pi_markers :: "marker list"
  pi_raster :: raster_info
  pi_model :: "string option"
  pi_name :: "string option"
  pi_location :: "string option"
  pi_uuid :: "string option"

definition clip :: "nat \<Rightarrow> ipp_value \<Rightarrow> string option" where
  "clip n v = map_option (\<lambda>s. cleanText s n) (text_value v)"

definition value_at :: "ipp_value list \<Rightarrow> nat \<Rightarrow> ipp_value" where
  "value_at vs i = (if i < length vs then vs ! i else V_null)"

fun int_of :: "ipp_value \<Rightarrow> int option" where
  "int_of (V_int i) = Some i"
| "int_of _ = None"

definition upper_char :: "char \<Rightarrow> char" where
  "upper_char c = (if is_lower c then char_of (of_char c - 32 :: nat) else c)"

definition COLOR_RE :: "string \<Rightarrow> bool" where
  "COLOR_RE s = (7 \<le> length s \<and> hd s = CHR ''#'' \<and> list_all (\<lambda>c. is_hex_lower (lower_char c)) (take 6 (tl s)))"

definition marker_at :: "ipp_attrs \<Rightarrow> nat \<Rightarrow> ipp_value \<Rightarrow> marker" where
  "marker_at a i n =
     (let level = (case int_of (value_at (attr_list a ''marker-levels'') i) of
                     Some l \<Rightarrow> if 0 \<le> l \<and> l \<le> 100 then Some l else None
                   | None \<Rightarrow> None);
          low = (case (level, int_of (value_at (attr_list a ''marker-low-levels'') i)) of
                   (Some l, Some lo) \<Rightarrow> l \<le> lo
                 | _ \<Rightarrow> False);
          c = (case text_value (value_at (attr_list a ''marker-colors'') i) of
                 Some s \<Rightarrow> if COLOR_RE s then Some (map upper_char (take 7 s)) else None
               | None \<Rightarrow> None)
      in \<lparr>mk_name = (case clip 60 n of Some s \<Rightarrow> s | None \<Rightarrow> []), mk_color = c,
          mk_type = clip 40 (value_at (attr_list a ''marker-types'') i), mk_level = level, mk_low = low\<rparr>)"

definition or_text :: "string option \<Rightarrow> string option \<Rightarrow> string option" where
  "or_text x y = (if x = None \<or> x = Some [] then y else x)"

definition strip_urn :: "string \<Rightarrow> string" where
  "strip_urn s = (if toLower (take 9 s) = ''urn:uuid:'' then drop 9 s else s)"

definition printerInfo :: "(string \<Rightarrow> rat option) \<Rightarrow> ipp_attrs \<Rightarrow> printer_info" where
  "printerInfo number a =
     \<lparr>pi_state = (case state_at PRINTER_STATE (values_of a ''printer-state'') of Some s \<Rightarrow> s | None \<Rightarrow> Inr ''idle''),
      pi_accepting = (attr_first a ''printer-is-accepting-jobs'' \<noteq> V_bool False),
      pi_reasons = map (\<lambda>r. cleanText r 60) (take 8 (filter (\<lambda>r. r \<noteq> ''none'') (attr_texts a ''printer-state-reasons''))),
      pi_color = (attr_first a ''color-supported'' = V_bool True \<or> ''color'' \<in> set (attr_texts a ''print-color-mode-supported'')),
      pi_duplex = list_ex (prefix ''two-sided'') (attr_texts a ''sides-supported''),
      pi_formats = take 24 (uniq (map (\<lambda>f. take 60 (toLower f)) (attr_texts a ''document-format-supported''))),
      pi_copiesMax = (case attr_first a ''copies-supported'' of V_range lo up \<Rightarrow> max 1 (min 999 up) | _ \<Rightarrow> 1),
      pi_markers = map (\<lambda>(i, n). marker_at a i n) (enumerate 0 (take 12 (attr_list a ''marker-names''))),
      pi_raster = rasterInfo number a,
      pi_model = clip 120 (attr_first a ''printer-make-and-model''),
      pi_name = or_text (clip 120 (attr_first a ''printer-info'')) (clip 120 (attr_first a ''printer-name'')),
      pi_location = clip 120 (attr_first a ''printer-location''),
      pi_uuid = map_option (\<lambda>s. toLower (strip_urn s)) (text_value (attr_first a ''printer-uuid''))\<rparr>"

section \<open>What the checks guarantee\<close>

lemma normalizePrint_ok:
  "length (pc_manual (normalizePrint raw)) \<le> 16 \<and> distinct (pc_manual (normalizePrint raw)) \<and>
   list_all isRfc1918 (pc_manual (normalizePrint raw))"
  by (auto simp: normalizePrint_def Let_def MAX_MANUAL_def list_all_iff dest!: in_set_takeD)

lemma foldl_max: "foldl max (a :: nat) xs \<in> set (a # xs) \<and> (\<forall>x \<in> set (a # xs). x \<le> foldl max a xs)"
proof (induction xs arbitrary: a)
  case (Cons x xs)
  from Cons [of "max a x"] show ?case by (auto simp: max_def split: if_splits)
qed simp

text \<open>300 dpi, else the least above, else the greatest of all.\<close>

lemma chooseDpi_spec:
  assumes "res \<noteq> []"
  shows "chooseDpi res \<in> set res" and "\<And>r. r \<in> set res \<Longrightarrow> 300 \<le> r \<Longrightarrow> 300 \<le> chooseDpi res \<and> chooseDpi res \<le> r"
    and "\<And>r. r \<in> set res \<Longrightarrow> chooseDpi res < 300 \<Longrightarrow> r \<le> chooseDpi res"
proof -
  let ?up = "filter (\<lambda>r. 300 < r) res"
  have "chooseDpi res \<in> set res \<and> (\<forall>r \<in> set res. (300 \<le> r \<longrightarrow> 300 \<le> chooseDpi res \<and> chooseDpi res \<le> r) \<and>
          (chooseDpi res < 300 \<longrightarrow> r \<le> chooseDpi res))"
  proof (cases "300 \<in> set res")
    case True
    then show ?thesis by (simp add: chooseDpi_def PREFERRED_DPI_def)
  next
    case no: False
    show ?thesis
    proof (cases "sort ?up")
      case (Cons r rs)
      then have "set ?up = insert r (set rs)" "\<forall>x \<in> set rs. r \<le> x"
        using set_sort [of "\<lambda>x. x" ?up] sorted_sort [of ?up] by (simp_all del: set_sort sorted_sort set_filter)
      moreover have "chooseDpi res = r" using no Cons by (simp add: chooseDpi_def PREFERRED_DPI_def)
      ultimately have up: "{x \<in> set res. 300 < x} = insert r (set rs)" "\<forall>x \<in> insert r (set rs). r \<le> x" by simp_all
      have "r \<in> {x \<in> set res. 300 < x}" by (simp only: up insertI1)
      then have "r \<in> set res \<and> 300 < r" by simp
      moreover have "\<forall>x \<in> set res. 300 < x \<longrightarrow> r \<le> x" using up(2) unfolding up(1) [symmetric] by blast
      ultimately show ?thesis using no \<open>chooseDpi res = r\<close> by (metis le_neq_implies_less less_imp_le not_less)
    next
      case Nil
      then have up: "\<forall>x \<in> set res. x < 300" using no
        by (metis (mono_tags, lifting) filter_empty_conv linorder_neqE_nat set_sort set_empty)
      have "chooseDpi res = foldl max 0 res" using no Nil by (simp add: chooseDpi_def PREFERRED_DPI_def)
      with foldl_max [of 0 res] have "chooseDpi res \<in> insert 0 (set res)" "\<forall>x \<in> set res. x \<le> chooseDpi res" by simp_all
      moreover from this assms have "chooseDpi res \<in> set res" by (cases res) auto
      ultimately show ?thesis using up by auto
    qed
  qed
  then show "chooseDpi res \<in> set res" and "\<And>r. r \<in> set res \<Longrightarrow> 300 \<le> r \<Longrightarrow> 300 \<le> chooseDpi res \<and> chooseDpi res \<le> r"
    and "\<And>r. r \<in> set res \<Longrightarrow> chooseDpi res < 300 \<Longrightarrow> r \<le> chooseDpi res" by auto
qed

definition caps_ok :: "raster_caps \<Rightarrow> bool" where
  "caps_ok c =
     (rc_res c \<noteq> [] \<and> length (rc_res c) \<le> 8 \<and> distinct (rc_res c) \<and> list_all (\<lambda>r. 72 \<le> r \<and> r \<le> 2400) (rc_res c) \<and>
      set (rc_types c) \<subseteq> set RASTER_TYPES \<and> rc_back c \<in> set SHEET_BACK)"

definition media_ok :: "media \<Rightarrow> bool" where
  "media_ok m = (144 \<le> md_w m \<and> md_w m \<le> 2600 \<and> 144 \<le> md_h m \<and> md_h m \<le> 3700 \<and> length (md_name m) \<le> 63)"

lemma mediaOf_ok: "mediaOf nm = Some m \<Longrightarrow> media_ok m"
  by (auto simp: mediaOf_def media_ok_def Let_def split: if_splits list.splits option.splits)

lemma A4_ok: "media_ok A4"
  by code_simp

lemma dpiOf_ok: "dpiOf v = Some d \<Longrightarrow> 72 \<le> d \<and> d \<le> 2400"
  by (cases v rule: dpiOf.cases) (auto simp: Let_def le_nat_iff nat_le_iff le_floor_iff floor_le_iff split: if_splits)

lemma urf_res_ok: "d \<in> set (urf_res number k) \<Longrightarrow> 72 \<le> d \<and> d \<le> 2400"
  by (auto simp: urf_res_def set_map_filter le_nat_iff nat_le_iff split: option.splits if_splits)

lemma urfOf_ok:
  "(\<forall>d \<in> set (rc_res (urfOf number vs)). 72 \<le> d \<and> d \<le> 2400) \<and> set (rc_types (urfOf number vs)) \<subseteq> set RASTER_TYPES \<and>
   rc_back (urfOf number vs) \<in> set SHEET_BACK"
proof -
  let ?Q = "\<lambda>c :: raster_caps. (\<forall>d \<in> set (rc_res c). 72 \<le> d \<and> d \<le> 2400) \<and> set (rc_types c) \<subseteq> set RASTER_TYPES \<and> rc_back c \<in> set SHEET_BACK"
  have dm: "SHEET_BACK ! (dec_value [k ! 2] - 1) \<in> set SHEET_BACK" if "urf_is_dm k" for k
    using that by (auto simp: urf_is_dm_def SHEET_BACK_def dec_value_def)
  have ty: "''sgray_8'' \<in> set RASTER_TYPES" "''srgb_8'' \<in> set RASTER_TYPES" by (simp_all add: RASTER_TYPES_def)
  show ?thesis unfolding urfOf_def
  proof (rule foldl_invariant [where Q = ?Q])
    show "?Q \<lparr>rc_res = [], rc_types = [], rc_back = ''normal''\<rparr>" by (simp add: SHEET_BACK_def)
  next
    fix c :: raster_caps and v assume q: "?Q c"
    show "?Q (urf_step number c v)"
    proof (cases "text_value v")
      case (Some k)
      with q dm [of k] ty show ?thesis by (auto simp: urf_step_def dest: urf_res_ok)
    qed (use q in \<open>simp add: urf_step_def\<close>)
  qed
qed

lemma uniq_empty: "uniq xs = [] \<longleftrightarrow> xs = []"
  by (metis set_empty set_uniq)

lemma rasterInfo_ok:
  "(\<forall>c. ri_pwg (rasterInfo number a) = Some c \<longrightarrow> caps_ok c) \<and> (\<forall>c. ri_urf (rasterInfo number a) = Some c \<longrightarrow> caps_ok c)"
proof (intro conjI allI impI)
  let ?res = "List.map_filter dpiOf (attr_list a ''pwg-raster-document-resolution-supported'')"
  have bk: "(case find (\<lambda>s. s \<in> set SHEET_BACK) xs of Some s \<Rightarrow> s | None \<Rightarrow> ''normal'') \<in> set SHEET_BACK" for xs
    by (auto simp: find_Some_iff SHEET_BACK_def split: option.splits)
  have res: "list_all (\<lambda>r. 72 \<le> r \<and> r \<le> 2400) (take 8 (uniq ?res))"
    by (auto simp: list_all_iff set_map_filter dest!: in_set_takeD dpiOf_ok)
  fix c assume "ri_pwg (rasterInfo number a) = Some c"
  with res bk uniq_empty [of ?res] show "caps_ok c" by (auto simp: rasterInfo_def Let_def caps_ok_def split: if_splits)
next
  let ?u = "urfOf number (attr_list a ''urf-supported'')"
  fix c assume "ri_urf (rasterInfo number a) = Some c"
  moreover have "list_all (\<lambda>r. 72 \<le> r \<and> r \<le> 2400) (take 8 (uniq (rc_res ?u)))"
    using urfOf_ok [of number "attr_list a ''urf-supported''"] by (auto simp: list_all_iff dest!: in_set_takeD)
  ultimately show "caps_ok c" using urfOf_ok [of number "attr_list a ''urf-supported''"] uniq_empty [of "rc_res ?u"]
    by (auto simp: rasterInfo_def Let_def caps_ok_def split: if_splits)
qed

definition plan_ok :: "string list \<Rightarrow> print_plan \<Rightarrow> bool" where
  "plan_ok formats p =
     (pp_format p \<in> set formats \<and> 72 \<le> pp_dpi p \<and> pp_dpi p \<le> 2400 \<and> pp_type p \<in> set RASTER_TYPES \<and>
      pp_back p \<in> set SHEET_BACK \<and> media_ok (pp_media p))"

lemma chooseType_ok: "chooseType types color = Some t \<Longrightarrow> t \<in> set types \<and> t \<in> set RASTER_TYPES"
  by (auto simp: chooseType_def RASTER_TYPES_def split: if_splits)

lemma raster_plan_ok:
  assumes "raster_plan fmt formats caps fb color md = Some p" "\<And>c. caps = Some c \<Longrightarrow> caps_ok c" "media_ok md"
  shows "plan_ok formats p"
proof -
  obtain c ty where c: "caps = Some c" "fmt \<in> set formats" "rc_res c \<noteq> []"
      "chooseType (if rc_types c = [] then fb else rc_types c) color = Some ty"
      "p = \<lparr>pp_format = fmt, pp_dpi = chooseDpi (rc_res c), pp_type = ty, pp_mono = (\<not> color),
            pp_back = (if rc_back c = [] then ''normal'' else rc_back c), pp_media = md\<rparr>"
    using assms(1) by (auto simp: raster_plan_def split: option.splits if_splits)
  have "caps_ok c" using assms(2) c(1) by blast
  moreover have "''normal'' \<in> set SHEET_BACK" by (simp add: SHEET_BACK_def)
  ultimately show ?thesis
    using c chooseDpi_spec(1) [OF c(3)] chooseType_ok [OF c(4)] assms(3)
    by (auto simp: plan_ok_def caps_ok_def list_all_iff)
qed

text \<open>
  Whatever a printer says of itself, a plan for it is one the gateway can carry out: the format is
  one the printer names, resolution, raster type, position of the back side and paper are within
  the limits of the code. There is a plan whenever the printer takes JPEG.
\<close>

theorem plan_is_printable:
  "(print_plan_for formats (rasterInfo number a) color = Some p \<longrightarrow> plan_ok formats p) \<and>
   (''image/jpeg'' \<in> set formats \<longrightarrow> print_plan_for formats (rasterInfo number a) color \<noteq> None)"
proof -
  let ?r = "rasterInfo number a"
  let ?md = "case ri_media ?r \<bind> mediaOf of Some m \<Rightarrow> m | None \<Rightarrow> A4"
  have md: "media_ok ?md" using A4_ok by (auto simp: mediaOf_ok bind_eq_Some_conv split: option.splits)
  have ty: "''sgray_8'' \<in> set RASTER_TYPES" "''srgb_8'' \<in> set RASTER_TYPES" "''normal'' \<in> set SHEET_BACK"
    by (simp_all add: RASTER_TYPES_def SHEET_BACK_def)
  have "plan_ok formats p" if plan: "print_plan_for formats ?r color = Some p"
  proof -
    consider "raster_plan ''image/pwg-raster'' formats (ri_pwg ?r) [''sgray_8'', ''srgb_8''] color ?md = Some p"
      | "raster_plan ''image/urf'' formats (ri_urf ?r) [] color ?md = Some p"
      | "''image/jpeg'' \<in> set formats" "p = \<lparr>pp_format = ''image/jpeg'', pp_dpi = PREFERRED_DPI,
           pp_type = (if color then ''srgb_8'' else ''sgray_8''), pp_mono = (\<not> color), pp_back = ''normal'', pp_media = ?md\<rparr>"
      using plan unfolding print_plan_for_def Let_def by (auto split: option.split_asm if_split_asm)
    then show ?thesis
    proof cases
      case 1
      then show ?thesis using rasterInfo_ok md by (blast intro: raster_plan_ok)
    next
      case 2
      then show ?thesis using rasterInfo_ok md by (blast intro: raster_plan_ok)
    next
      case 3
      with md ty show ?thesis by (simp add: plan_ok_def PREFERRED_DPI_def)
    qed
  qed
  then show ?thesis by (auto simp: print_plan_for_def Let_def split: option.splits)
qed

theorem plan_is_printable_witness:
  "map_option pp_dpi (print_plan_for [''image/pwg-raster''] (rasterInfo (\<lambda>s. None)
     [(''pwg-raster-document-resolution-supported'', [V_resolution 600 600 3, V_resolution 1200 1200 3])]) False) = Some 600 \<and>
   plan_ok [''image/pwg-raster''] (the (print_plan_for [''image/pwg-raster''] (rasterInfo (\<lambda>s. None)
     [(''pwg-raster-document-resolution-supported'', [V_resolution 600 600 3, V_resolution 1200 1200 3])]) False))"
proof -
  let ?r = "rasterInfo (\<lambda>s. None) [(''pwg-raster-document-resolution-supported'', [V_resolution 600 600 3, V_resolution 1200 1200 3])]"
  have d: "map_option pp_dpi (print_plan_for [''image/pwg-raster''] ?r False) = Some 600" by code_simp
  then obtain p where "print_plan_for [''image/pwg-raster''] ?r False = Some p" by (auto simp: map_option_eq_Some)
  with plan_is_printable [of "[''image/pwg-raster'']" "\<lambda>s. None" _ False p] d show ?thesis by auto
qed

text \<open>
  Levels are matched with names by position after values that are not known have been dropped, so
  that one marker without a level gets the level of the next.
\<close>

lemma unknown_level_shifts:
  "map mk_level (pi_markers (printerInfo number
     [(''marker-names'', [V_text ''black'', V_text ''yellow'']), (''marker-levels'', [V_null, V_int 80])])) = [Some 80, None]"
  by (simp add: printerInfo_def marker_at_def attr_list_def values_of_def value_at_def Let_def enumerate_simps)

end
