(* ===== verification/Print_Raster.thy ===== *)
theory Print_Raster
  imports Js_Values
begin

text \<open>
  The raster pages that the gateway makes of a PDF file (\<open>src/src/print/convert.js\<close>): reading the
  renderer's output, turning and placing it on the sheet, and the run-length encoding of PWG and
  Apple raster. The decoders \<open>unpack_line\<close> and \<open>unpack_page\<close> are the specification: they read the
  encoding as PWG 5102.4 defines it.
\<close>

section \<open>Images\<close>

text \<open>\<open>im_row\<close> is the length of a line where the code stores it, \<open>im_bpp\<close> the bytes of a pixel.\<close>

record image =
  im_width :: nat
  im_height :: nat
  im_bpp :: nat
  im_row :: "nat option"
  im_data :: bytes

text \<open>An element of a buffer as it is stored into another one: \<open>undefined\<close> becomes 0.\<close>

definition byte_at :: "bytes \<Rightarrow> nat \<Rightarrow> byte" where
  "byte_at d i = (if i < length d then d ! i else 0)"

section \<open>The output of the renderer\<close>

definition PNM_HEAD_MAX :: nat where
  "PNM_HEAD_MAX = 512"

definition is_pnm_space :: "byte \<Rightarrow> bool" where
  "is_pnm_space c = (c = 0x20 \<or> c = 0x09 \<or> c = 0x0a \<or> c = 0x0d \<or> c = 0x0b \<or> c = 0x0c)"

text \<open>The loops of \<open>parsePnm\<close> on what is left of the head.\<close>

function pnm_skip :: "bytes \<Rightarrow> bytes" where
  "pnm_skip [] = []"
| "pnm_skip (b # bs) =
     (if b = 0x23 then pnm_skip (dropWhile (\<lambda>c. c \<noteq> 0x0a) bs)
      else if is_pnm_space b then pnm_skip bs
      else b # bs)"
  by pat_completeness auto
termination by (relation "measure length") (auto simp: less_Suc_eq_le length_dropWhile_le)

definition is_num :: "byte \<Rightarrow> bool" where
  "is_num b = (0x30 \<le> b \<and> b \<le> 0x39)"

definition pnm_digits :: "bytes \<Rightarrow> bytes" where
  "pnm_digits bs = takeWhile is_num (take 6 bs)"

definition pnm_value :: "bytes \<Rightarrow> nat" where
  "pnm_value ds = foldl (\<lambda>n b. n * 10 + (unat b - 0x30)) 0 ds"

text \<open>The numbers still missing and what is left of the head behind them.\<close>

fun pnm_nums :: "nat \<Rightarrow> bytes \<Rightarrow> (nat list \<times> bytes) option" where
  "pnm_nums 0 bs = Some ([], bs)"
| "pnm_nums (Suc k) bs =
     (let cs = pnm_skip bs; ds = pnm_digits cs; rest = drop (length ds) cs
      in if ds = [] \<or> rest = [] \<or> \<not> is_pnm_space (hd rest) then None
         else map_option (\<lambda>(ns, r). (pnm_value ds # ns, r)) (pnm_nums k rest))"

definition parsePnm :: "bytes \<Rightarrow> image option" where
  "parsePnm buf =
     (if length buf < 3 \<or> buf ! 0 \<noteq> 0x50 \<or> buf ! 1 \<noteq> 0x35 \<and> buf ! 1 \<noteq> 0x36 then None
      else let bpp = (if buf ! 1 = 0x35 then 1 else 3); head = take PNM_HEAD_MAX buf
        in case pnm_nums 3 (drop 2 head) of
             Some ([w, h, mx], r) \<Rightarrow>
               let data = drop (length head - length r + 1) buf
               in if mx \<noteq> 255 \<or> w = 0 \<or> h = 0 then None
                  else if length data < w * h * bpp then None
                  else Some \<lparr>im_width = w, im_height = h, im_bpp = bpp, im_row = None, im_data = take (w * h * bpp) data\<rparr>
           | _ \<Rightarrow> None)"

section \<open>Turning and placing\<close>

text \<open>The loops over lines, pixels of a line and bytes of a pixel, in the order of the code.\<close>

definition pixel_loop :: "nat \<Rightarrow> nat \<Rightarrow> nat \<Rightarrow> (nat \<times> nat \<times> nat) list" where
  "pixel_loop h w bpp = concat (map (\<lambda>y. concat (map (\<lambda>x. map (\<lambda>c. (y, x, c)) [0..<bpp]) [0..<w])) [0..<h])"

definition copy_pixels ::
    "(nat \<times> nat \<times> nat \<Rightarrow> nat) \<Rightarrow> (nat \<times> nat \<times> nat \<Rightarrow> nat) \<Rightarrow> bytes \<Rightarrow> (nat \<times> nat \<times> nat) list \<Rightarrow> bytes \<Rightarrow> bytes" where
  "copy_pixels dst src data ks out = foldl (\<lambda>o1 k. o1[dst k := byte_at data (src k)]) out ks"

definition rotate90 :: "image \<Rightarrow> image" where
  "rotate90 img =
     (let w = im_width img; h = im_height img; bpp = im_bpp img
      in \<lparr>im_width = h, im_height = w, im_bpp = bpp, im_row = None,
          im_data = copy_pixels (\<lambda>(y, x, c). ((w - 1 - x) * h + y) * bpp + c) (\<lambda>(y, x, c). (y * w + x) * bpp + c)
                      (im_data img) (pixel_loop h w bpp) (replicate (w * h * bpp) 0)\<rparr>)"

text \<open>\<open>src.copy(out, at, from, to)\<close>: as many bytes as both sides have.\<close>

definition buf_copy :: "bytes \<Rightarrow> nat \<Rightarrow> bytes \<Rightarrow> bytes" where
  "buf_copy out pos part = take pos out @ take (length out - pos) part @ drop (pos + length part) out"

definition onSheet :: "image \<Rightarrow> nat \<Rightarrow> nat \<Rightarrow> nat \<Rightarrow> nat \<Rightarrow> image" where
  "onSheet img W H x0 y0 =
     (if im_width img = W \<and> im_height img = H then img
      else let bpp = im_bpp img; w = im_width img; cw = min w (W - x0)
        in \<lparr>im_width = W, im_height = H, im_bpp = bpp, im_row = None,
            im_data = foldl (\<lambda>out y. buf_copy out (((y + y0) * W + x0) * bpp) (subarray (im_data img) (y * w * bpp) ((y * w + cw) * bpp)))
                        (replicate (W * H * bpp) 0xff) [y \<leftarrow> [0..<im_height img]. y + y0 < H]\<rparr>)"

definition backSide :: "image \<Rightarrow> string \<Rightarrow> image" where
  "backSide img back =
     (if back \<noteq> ''rotated'' \<and> back \<noteq> ''flipped'' then img
      else let w = im_width img; h = im_height img; bpp = im_bpp img; row = w * bpp; d = im_data img
        in img\<lparr>im_data :=
             (if back = ''flipped''
              then foldl (\<lambda>out y. buf_copy out ((h - 1 - y) * row) (subarray d (y * row) ((y + 1) * row)))
                     (replicate (length d) 0) [0..<h]
              else copy_pixels (\<lambda>(y, x, c). (h - 1 - y) * row + (w - 1 - x) * bpp + c) (\<lambda>(y, x, c). y * row + x * bpp + c)
                     d (pixel_loop h w bpp) (replicate (length d) 0))\<rparr>)"

definition toType :: "image \<Rightarrow> string \<Rightarrow> image" where
  "toType img ty =
     (if ty = ''srgb_8'' \<and> im_bpp img = 1 then
        img\<lparr>im_bpp := 3, im_data := take (im_width img * im_height img * 3) (concat (map (\<lambda>b. [b, b, b]) (im_data img)) @
              replicate (im_width img * im_height img * 3 - 3 * length (im_data img)) 0)\<rparr>
      else if ty = ''black_1'' then
        let w = im_width img; h = im_height img; row = (w + 7) div 8; d = im_data img
        in img\<lparr>im_bpp := 0, im_row := Some row,
             im_data := foldl (\<lambda>out (y, x, c). if y * w + x < length d \<and> unat (d ! (y * w + x)) < 128
                                               then out[y * row + x div 8 := out ! (y * row + x div 8) OR drop_bit (x mod 8) 0x80]
                                               else out)
                          (replicate (row * h) 0) (pixel_loop h w 1)\<rparr>
      else img)"

section \<open>Run-length encoding\<close>

function chunks :: "nat \<Rightarrow> 'a list \<Rightarrow> 'a list list" where
  "chunks u xs = (if u = 0 \<or> xs = [] then [] else take u xs # chunks u (drop u xs))"
  by pat_completeness auto
termination by (relation "measure (length \<circ> snd)") auto

declare chunks.simps [simp del]

text \<open>The pixels written literally behind the first one, at most as many as are left of 128.\<close>

fun literal_run :: "nat \<Rightarrow> 'a list \<Rightarrow> 'a list" where
  "literal_run k [] = []"
| "literal_run k [p] = (if k = 0 then [] else [p])"
| "literal_run k (p # q # ps) = (if k = 0 \<or> p = q then [] else p # literal_run (k - 1) (q # ps))"

lemma length_literal_run: "length (literal_run k ps) \<le> min k (length ps)"
  by (induction k ps rule: literal_run.induct) auto

function pack_pixels :: "bytes list \<Rightarrow> bytes" where
  "pack_pixels [] = []"
| "pack_pixels (p # ps) =
     (let run = 1 + length (takeWhile ((=) p) (take 127 ps))
      in if 1 < run \<or> ps = [] then byte_of (run - 1) # p @ pack_pixels (drop (run - 1) ps)
         else let lit = p # literal_run 127 ps; count = length lit
           in (if count = 1 then 0 else byte_of (257 - count)) # concat lit @ pack_pixels (drop (count - 1) ps))"
  by pat_completeness auto
termination by (relation "measure length") auto

definition packLine :: "bytes \<Rightarrow> nat \<Rightarrow> bytes" where
  "packLine line unit = pack_pixels (chunks unit line)"

function pack_rows :: "nat \<Rightarrow> bytes list \<Rightarrow> bytes" where
  "pack_rows unit [] = []"
| "pack_rows unit (l # ls) =
     (let rep = length (takeWhile (\<lambda>m. m = l) (take 255 ls))
      in byte_of rep # packLine l unit @ pack_rows unit (drop rep ls))"
  by pat_completeness auto
termination by (relation "measure (length \<circ> snd)") auto

definition row_len :: "image \<Rightarrow> nat" where
  "row_len img = (case im_row img of Some r \<Rightarrow> if r = 0 then im_width img * im_bpp img else r | None \<Rightarrow> im_width img * im_bpp img)"

definition unit_len :: "image \<Rightarrow> nat" where
  "unit_len img = (if im_bpp img = 0 then 1 else im_bpp img)"

definition image_rows :: "image \<Rightarrow> bytes list" where
  "image_rows img = map (\<lambda>y. subarray (im_data img) (y * row_len img) ((y + 1) * row_len img)) [0..<im_height img]"

definition packPage :: "image \<Rightarrow> bytes" where
  "packPage img = pack_rows (unit_len img) (image_rows img)"

section \<open>Decoding, as the standard defines it\<close>

lemma byte_below_257 [simp]: "unat (b :: byte) < 257"
  by (rule less_trans [OF unat_byte_less]) simp

function unpack_line :: "nat \<Rightarrow> nat \<Rightarrow> bytes \<Rightarrow> (bytes list \<times> bytes) option" where
  "unpack_line unit n bs =
     (if n = 0 then Some ([], bs)
      else case bs of
        [] \<Rightarrow> None
      | c # cs \<Rightarrow>
          if unat c < 128 then
            (let k = unat c + 1
             in if n < k \<or> length cs < unit then None
                else map_option (apfst ((@) (replicate k (take unit cs)))) (unpack_line unit (n - k) (drop unit cs)))
          else if unat c = 128 then None
          else
            (let k = 257 - unat c
             in if n < k \<or> length cs < k * unit then None
                else map_option (apfst ((@) (chunks unit (take (k * unit) cs)))) (unpack_line unit (n - k) (drop (k * unit) cs))))"
  by pat_completeness auto
termination by (relation "measure (fst \<circ> snd)") (auto intro!: diff_less)

declare unpack_line.simps [simp del]

function unpack_page :: "nat \<Rightarrow> nat \<Rightarrow> nat \<Rightarrow> bytes \<Rightarrow> (bytes list \<times> bytes) option" where
  "unpack_page unit n h bs =
     (if h = 0 then Some ([], bs)
      else case bs of
        [] \<Rightarrow> None
      | c # cs \<Rightarrow>
          if h < unat c + 1 then None
          else (case unpack_line unit n cs of
                  None \<Rightarrow> None
                | Some (ps, ds) \<Rightarrow>
                    map_option (apfst ((@) (replicate (unat c + 1) (concat ps)))) (unpack_page unit n (h - (unat c + 1)) ds)))"
  by pat_completeness auto
termination by (relation "measure (fst \<circ> snd \<circ> snd)") auto

declare unpack_page.simps [simp del]

section \<open>Round trip of the encoding\<close>

lemma chunks_Nil [simp]: "chunks u [] = []"
  by (simp add: chunks.simps)

lemma chunks_concat: "0 < u \<Longrightarrow> list_all (\<lambda>p. length p = u) ps \<Longrightarrow> chunks u (concat ps) = ps"
proof (induction ps)
  case (Cons p ps)
  then have "p \<noteq> []" by auto
  with Cons show ?case by (subst chunks.simps) simp
qed simp

lemma concat_chunks: "0 < u \<Longrightarrow> concat (chunks u xs) = xs"
proof (induction u xs rule: chunks.induct)
  case (1 u xs)
  then show ?case by (subst chunks.simps) auto
qed

lemma chunks_lengths: "0 < u \<Longrightarrow> length xs = n * u \<Longrightarrow> length (chunks u xs) = n \<and> list_all (\<lambda>p. length p = u) (chunks u xs)"
proof (induction n arbitrary: xs)
  case (Suc n)
  then have "length (drop u xs) = n * u" "xs \<noteq> []" "length (take u xs) = u" by auto
  with Suc.IH [OF Suc.prems(1), of "drop u xs"] Suc.prems(1) show ?case by (subst (1 2) chunks.simps) auto
qed simp

lemma takeWhile_replicate: "takeWhile ((=) p) ps = replicate (length (takeWhile ((=) p) ps)) p"
  by (induction ps) auto

lemma run_split:
  fixes p :: 'a and ps :: "'a list" and k :: nat
  defines "r \<equiv> length (takeWhile ((=) p) (take k ps))"
  shows "ps = replicate r p @ drop r ps" and "r \<le> k" and "r \<le> length ps"
proof -
  have "take r (take k ps) = takeWhile ((=) p) (take k ps)" by (simp only: r_def takeWhile_eq_take [symmetric])
  then have t: "take r (take k ps) = replicate r p" unfolding r_def using takeWhile_replicate [of p "take k ps"] by simp
  show l: "r \<le> k" unfolding r_def using length_takeWhile_le [of "(=) p" "take k ps"] by simp
  show "r \<le> length ps" unfolding r_def using length_takeWhile_le [of "(=) p" "take k ps"] by simp
  from t l have "take r ps = replicate r p" by (simp add: min_def)
  then show "ps = replicate r p @ drop r ps" by (metis append_take_drop_id)
qed

lemma literal_run_prefix: "ps = literal_run k ps @ drop (length (literal_run k ps)) ps"
  by (induction k ps rule: literal_run.induct) auto

lemma unpack_run:
  assumes "k < 128" "length p = u"
  shows "unpack_line u (Suc k + m) (byte_of k # p @ r) =
           map_option (apfst ((@) (replicate (Suc k) p))) (unpack_line u m r)"
  using assms by (subst unpack_line.simps) (simp add: Let_def)

lemma unpack_literal:
  assumes "2 \<le> length lit" "length lit \<le> 128" "0 < u" "list_all (\<lambda>p. length p = u) lit"
  shows "unpack_line u (length lit + m) (byte_of (257 - length lit) # concat lit @ r) =
           map_option (apfst ((@) lit)) (unpack_line u m r)"
proof -
  have c: "unat (byte_of (257 - length lit)) = 257 - length lit" using assms by simp
  have l: "length (concat lit) = length lit * u"
    using assms(4) by (induction lit) (auto simp: algebra_simps)
  have ch: "chunks u (concat lit) = lit" using assms by (intro chunks_concat)
  have n: "\<not> 257 - length lit < 128" "257 - length lit \<noteq> 128" "257 - (257 - length lit) = length lit" "lit \<noteq> []"
    using assms(1,2) by auto
  show ?thesis
    by (subst unpack_line.simps) (simp add: Let_def c l ch n del: unat_byte_of)
qed

theorem unpack_pack_pixels:
  "0 < u \<Longrightarrow> list_all (\<lambda>p. length p = u) ps \<Longrightarrow> unpack_line u (length ps) (pack_pixels ps @ r) = Some (ps, r)"
proof (induction ps rule: pack_pixels.induct)
  case 1
  then show ?case by (subst unpack_line.simps) simp
next
  case (2 p ps)
  define k where "k = length (takeWhile ((=) p) (take 127 ps))"
  define lit where "lit = p # literal_run 127 ps"
  note sp = run_split [where p = p and ps = ps and k = 127, folded k_def]
  have p: "length p = u" and ps: "list_all (\<lambda>p. length p = u) ps" using 2 by auto
  show ?case
  proof (cases "0 < k \<or> ps = []")
    case True
    have "list_all (\<lambda>p. length p = u) (drop k ps)" using ps by (metis list_all_append append_take_drop_id)
    then have ih: "unpack_line u (length (drop k ps)) (pack_pixels (drop k ps) @ r) = Some (drop k ps, r)"
      using 2(1) [of "1 + k"] 2(3) True k_def by auto
    have "pack_pixels (p # ps) = byte_of k # p @ pack_pixels (drop k ps)"
      using True by (auto simp: Let_def k_def)
    then show ?thesis
      using unpack_run [of k p u "length (drop k ps)" "pack_pixels (drop k ps) @ r"] p ih sp by simp
  next
    case False
    let ?j = "length (literal_run 127 ps)"
    have ps2: "ps = literal_run 127 ps @ drop ?j ps" by (rule literal_run_prefix)
    then have ls: "list_all (\<lambda>p. length p = u) (literal_run 127 ps)" "list_all (\<lambda>p. length p = u) (drop ?j ps)"
      using ps by (metis list_all_append)+
    have ih: "unpack_line u (length (drop ?j ps)) (pack_pixels (drop ?j ps) @ r) = Some (drop ?j ps, r)"
      using 2(2) [of "1 + k" lit "length lit"] 2(3) False k_def lit_def ls by auto
    have pk: "pack_pixels (p # ps) = (if ?j = 0 then 0 else byte_of (256 - ?j)) # concat lit @ pack_pixels (drop ?j ps)"
      using False by (auto simp: Let_def k_def lit_def)
    have len: "length ps = ?j + length (drop ?j ps)" using length_literal_run [of 127 ps] by simp
    show ?thesis
    proof (cases "?j = 0")
      case True
      with pk ih unpack_run [of 0 p u "length ps" "pack_pixels ps @ r"] p show ?thesis by (simp add: lit_def byte_of_def)
    next
      case j: False
      have "unpack_line u (length lit + length (drop ?j ps)) (byte_of (257 - length lit) # concat lit @ pack_pixels (drop ?j ps) @ r)
              = Some (lit @ drop ?j ps, r)"
        using unpack_literal [of lit u "length (drop ?j ps)" "pack_pixels (drop ?j ps) @ r"] j length_literal_run [of 127 ps] p ls 2(3) ih
        by (simp add: lit_def)
      moreover have "pack_pixels (p # ps) = byte_of (257 - length lit) # concat lit @ pack_pixels (drop ?j ps)"
        using pk j by (simp add: lit_def)
      moreover have "lit @ drop ?j ps = p # ps" unfolding lit_def using ps2 [symmetric] by simp
      moreover have "length (p # ps) = length lit + length (drop ?j ps)" using len by (simp add: lit_def)
      ultimately show ?thesis by (simp only: append_Cons append_assoc)
    qed
  qed
qed

theorem unpack_pack_rows:
  "0 < u \<Longrightarrow> list_all (\<lambda>l. length l = n * u) ls \<Longrightarrow> unpack_page u n (length ls) (pack_rows u ls @ r) = Some (ls, r)"
proof (induction u ls rule: pack_rows.induct)
  case (1 u)
  then show ?case by (subst unpack_page.simps) simp
next
  case (2 u l ls)
  define k where "k = length (takeWhile ((=) l) (take 255 ls))"
  note sp = run_split [where p = l and ps = ls and k = 255, folded k_def]
  have e: "(\<lambda>m. m = l) = (=) l" by auto
  have "list_all (\<lambda>l. length l = n * u) (drop k ls)" using 2(3) by (auto simp: list_all_iff dest: in_set_dropD)
  with 2(1) [of k] 2(2) have ih: "unpack_page u n (length (drop k ls)) (pack_rows u (drop k ls) @ r) = Some (drop k ls, r)"
    by (simp add: k_def e)
  have pk: "pack_rows u (l # ls) = byte_of k # packLine l u @ pack_rows u (drop k ls)" by (simp add: Let_def k_def e)
  have "length (chunks u l) = n" "list_all (\<lambda>p. length p = u) (chunks u l)" using chunks_lengths [of u l n] 2(2,3) by auto
  then have line: "unpack_line u n (packLine l u @ t) = Some (chunks u l, t)" for t
    using unpack_pack_pixels [of u "chunks u l" t] 2(2) by (simp add: packLine_def)
  have "k mod 256 = k" "length (l # ls) - Suc k = length (drop k ls)" "\<not> length (l # ls) < Suc k" using sp by auto
  then have "unpack_page u n (length (l # ls)) (pack_rows u (l # ls) @ r) = Some (replicate (Suc k) l @ drop k ls, r)"
    unfolding pk by (subst unpack_page.simps) (simp add: line ih [simplified] concat_chunks 2(2))
  then show ?case using sp(1) by simp
qed

definition image_ok :: "image \<Rightarrow> bool" where
  "image_ok img = (unit_len img dvd row_len img \<and> length (im_data img) = im_height img * row_len img)"

lemma concat_subarrays: "concat (map (\<lambda>y. subarray d (y * n) ((y + 1) * n)) [0..<h]) = take (h * n) d"
  by (induction h) (auto simp: subarray_def take_add add.commute [of n])

text \<open>Decoding the page gives the lines of the image, and these are its data.\<close>

lemma packPage_decodes:
  assumes "image_ok img"
  shows "unpack_page (unit_len img) (row_len img div unit_len img) (im_height img) (packPage img @ r) = Some (image_rows img, r)"
    and "concat (image_rows img) = im_data img"
proof -
  have u: "0 < unit_len img" by (simp add: unit_len_def)
  have "list_all (\<lambda>l. length l = row_len img) (image_rows img)"
  proof -
    have "(y + 1) * row_len img \<le> length (im_data img)" if "y < im_height img" for y
      using assms that mult_le_mono1 [of "y + 1" "im_height img" "row_len img"] by (simp add: image_ok_def)
    then show ?thesis by (auto simp: image_rows_def list_all_iff)
  qed
  with unpack_pack_rows [OF u, of "row_len img div unit_len img" "image_rows img" r] assms
  show "unpack_page (unit_len img) (row_len img div unit_len img) (im_height img) (packPage img @ r) = Some (image_rows img, r)"
    by (simp add: packPage_def image_ok_def image_rows_def)
  show "concat (image_rows img) = im_data img"
    unfolding image_rows_def concat_subarrays using assms by (simp add: image_ok_def)
qed

text \<open>The code allocates its output beforehand; it never writes past the end.\<close>

lemma length_pack_pixels: "length (pack_pixels ps) \<le> length (concat ps) + length ps"
proof (induction ps rule: pack_pixels.induct)
  case (2 p ps)
  define k where "k = length (takeWhile ((=) p) (take 127 ps))"
  let ?j = "length (literal_run 127 ps)"
  have split: "length (concat ps) = length (concat (take i ps)) + length (concat (drop i ps))" for i
    by (metis append_take_drop_id concat_append length_append)
  have lit: "take ?j ps = literal_run 127 ps" using literal_run_prefix [of ps 127] by (metis append_eq_conv_conj)
  show ?case
  proof (cases "0 < k \<or> ps = []")
    case True
    then have "length (pack_pixels (drop k ps)) \<le> length (concat (drop k ps)) + length (drop k ps)"
      using 2(1) [of "1 + k"] k_def by auto
    moreover have "pack_pixels (p # ps) = byte_of k # p @ pack_pixels (drop k ps)" using True by (auto simp: Let_def k_def)
    ultimately show ?thesis using split [of k] by simp
  next
    case False
    then have "length (pack_pixels (drop ?j ps)) \<le> length (concat (drop ?j ps)) + length (drop ?j ps)"
      using 2(2) [of "1 + k" "p # literal_run 127 ps" "1 + ?j"] k_def by auto
    moreover have "length (pack_pixels (p # ps)) = Suc (length p + length (concat (literal_run 127 ps)) + length (pack_pixels (drop ?j ps)))"
      using False by (auto simp: Let_def k_def)
    ultimately show ?thesis using split [of ?j] lit by simp
  qed
qed simp

lemma packLine_fits:
  assumes "0 < u" "length line = n * u"
  shows "length (packLine line u) \<le> n * u + (n + 127) div 128 * 2 + 2 + n"
  using length_pack_pixels [of "chunks u line"] chunks_lengths [OF assms] assms by (simp add: packLine_def concat_chunks)

section \<open>Turning\<close>

text \<open>Position of a byte in an image of lines of \<open>w\<close> pixels of \<open>b\<close> bytes.\<close>

definition pos :: "nat \<Rightarrow> nat \<Rightarrow> nat \<times> nat \<times> nat \<Rightarrow> nat" where
  "pos w b k = (case k of (y, x, c) \<Rightarrow> (y * w + x) * b + c)"

definition in_image :: "nat \<Rightarrow> nat \<Rightarrow> nat \<Rightarrow> nat \<times> nat \<times> nat \<Rightarrow> bool" where
  "in_image h w b k = (case k of (y, x, c) \<Rightarrow> y < h \<and> x < w \<and> c < b)"

definition pixel :: "image \<Rightarrow> nat \<times> nat \<times> nat \<Rightarrow> byte" where
  "pixel img k = im_data img ! pos (im_width img) (im_bpp img) k"

lemma set_pixel_loop: "set (pixel_loop h w b) = {k. in_image h w b k}"
  by (auto simp: pixel_loop_def in_image_def image_iff)

lemma mixed_radix_less: "y < h \<Longrightarrow> x < w \<Longrightarrow> y * w + x < h * (w :: nat)"
  by (metis add_less_cancel_left less_le_trans mult_Suc mult_le_mono1 Suc_leI add.commute)

lemma pos_less: "in_image h w b k \<Longrightarrow> pos w b k < h * w * b"
  by (cases k) (auto simp: pos_def in_image_def intro!: mixed_radix_less)

lemma pos_inj:
  assumes "in_image h w b k" "in_image h' w b k'" "pos w b k = pos w b k'"
  shows "k = k'"
proof -
  obtain y x c y' x' c' where k: "k = (y, x, c)" "k' = (y', x', c')" by (cases k; cases k') auto
  have "((y * w + x) * b + c) mod b = c" "((y * w + x) * b + c) div b = y * w + x"
    "((y' * w + x') * b + c') mod b = c'" "((y' * w + x') * b + c') div b = y' * w + x'"
    "(y * w + x) mod w = x" "(y * w + x) div w = y" "(y' * w + x') mod w = x'" "(y' * w + x') div w = y'"
    using assms(1,2) by (auto simp: k in_image_def)
  with assms(3) show ?thesis unfolding k pos_def by (metis case_prod_conv)
qed

lemma pos_surj:
  assumes "i < h * w * b"
  obtains k where "in_image h w b k" "i = pos w b k"
proof
  have "0 < b" "0 < w" using assms by (cases b; cases w; simp)+
  moreover have "i div b < h * w" using assms by (simp add: less_mult_imp_div_less)
  ultimately show "in_image h w b (i div b div w, i div b mod w, i mod b)"
    by (simp add: in_image_def less_mult_imp_div_less)
  show "i = pos w b (i div b div w, i div b mod w, i mod b)" by (simp add: pos_def)
qed

lemma length_foldl_updates [simp]: "length (foldl (\<lambda>o1 k. o1[f k := g k]) out ks) = length out"
  by (induction ks arbitrary: out) auto

lemma foldl_updates_other:
  "i \<notin> f ` set ks \<Longrightarrow> foldl (\<lambda>o1 k. o1[f k := g k]) out ks ! i = out ! i"
  by (induction ks arbitrary: out) auto

lemma foldl_updates_at:
  assumes "k \<in> set ks" "inj_on f (set ks)" "f k < length out"
  shows "foldl (\<lambda>o1 k. o1[f k := g k]) out ks ! f k = g k"
  using assms
proof (induction ks arbitrary: out)
  case (Cons j ks)
  show ?case
  proof (cases "k \<in> set ks")
    case True
    with Cons show ?thesis by simp
  next
    case False
    with Cons.prems have k: "k = j" "f k \<notin> f ` set ks" by (auto simp: inj_on_def)
    with Cons.prems show ?thesis using foldl_updates_other [of "f k" f ks g "out[f j := g j]"] by simp
  qed
qed simp

text \<open>A copy along a map of the positions puts each byte where the map says.\<close>

lemma copy_pixels_at:
  assumes "in_image h w b k" "inj_on dst {k. in_image h w b k}" "dst k < length out" "src k < length d"
  shows "copy_pixels dst src d (pixel_loop h w b) out ! dst k = d ! src k"
  using foldl_updates_at [of k "pixel_loop h w b" dst out "\<lambda>k. byte_at d (src k)"] assms
  by (simp add: copy_pixels_def set_pixel_loop byte_at_def)

definition plain :: "image \<Rightarrow> bool" where
  "plain img = (im_row img = None \<and> length (im_data img) = im_height img * im_width img * im_bpp img)"

lemma plain_eqI:
  assumes "plain a" "plain b" "im_width a = im_width b" "im_height a = im_height b" "im_bpp a = im_bpp b"
    "\<And>k. in_image (im_height a) (im_width a) (im_bpp a) k \<Longrightarrow> pixel a k = pixel b k"
  shows "a = b"
proof -
  have "im_data a = im_data b"
  proof (rule nth_equalityI)
    show "length (im_data a) = length (im_data b)" using assms by (simp add: plain_def)
    fix i assume "i < length (im_data a)"
    then have "i < im_height a * im_width a * im_bpp a" using assms(1) by (simp add: plain_def)
    then obtain k where "in_image (im_height a) (im_width a) (im_bpp a) k" "i = pos (im_width a) (im_bpp a) k" by (rule pos_surj)
    with assms(6) [of k] assms(3,5) show "im_data a ! i = im_data b ! i" by (simp add: pixel_def)
  qed
  with assms show ?thesis by (simp add: plain_def)
qed

definition turn_pos :: "nat \<Rightarrow> nat \<times> nat \<times> nat \<Rightarrow> nat \<times> nat \<times> nat" where
  "turn_pos w k = (case k of (y, x, c) \<Rightarrow> (w - 1 - x, y, c))"

definition back_pos :: "nat \<Rightarrow> nat \<Rightarrow> nat \<times> nat \<times> nat \<Rightarrow> nat \<times> nat \<times> nat" where
  "back_pos h w k = (case k of (y, x, c) \<Rightarrow> (h - 1 - y, w - 1 - x, c))"

lemma turn_pos_in: "in_image h w b k \<Longrightarrow> in_image w h b (turn_pos w k)"
  by (cases k) (auto simp: in_image_def turn_pos_def)

lemma back_pos_in: "in_image h w b k \<Longrightarrow> in_image h w b (back_pos h w k)"
  by (cases k) (auto simp: in_image_def back_pos_def)

lemma back_back: "in_image h w b k \<Longrightarrow> back_pos h w (back_pos h w k) = k"
  by (cases k) (auto simp: in_image_def back_pos_def)

lemma turn_turn: "turn_pos h (turn_pos w k) = back_pos h w k"
  by (cases k) (auto simp: back_pos_def turn_pos_def)

lemma turn_pos_inj: "in_image h w b k \<Longrightarrow> in_image h w b k' \<Longrightarrow> turn_pos w k = turn_pos w k' \<Longrightarrow> k = k'"
  by (cases k; cases k') (auto simp: in_image_def turn_pos_def)

lemma back_pos_inj: "in_image h w b k \<Longrightarrow> in_image h w b k' \<Longrightarrow> back_pos h w k = back_pos h w k' \<Longrightarrow> k = k'"
  by (metis back_back)

lemma inj_on_pos:
  assumes "\<And>k. in_image h w b k \<Longrightarrow> in_image h' w' b (T k)"
    and "\<And>k k'. in_image h w b k \<Longrightarrow> in_image h w b k' \<Longrightarrow> T k = T k' \<Longrightarrow> k = k'"
  shows "inj_on (\<lambda>k. pos w' b (T k)) {k. in_image h w b k}"
proof (rule inj_onI)
  fix k k' assume "k \<in> {k. in_image h w b k}" "k' \<in> {k. in_image h w b k}" "pos w' b (T k) = pos w' b (T k')"
  with pos_inj [of h' w' b "T k" h' "T k'"] assms show "k = k'" by blast
qed

lemma rotate90_plain: "plain (rotate90 img)"
  by (simp add: plain_def rotate90_def Let_def copy_pixels_def mult.assoc)

lemma rotate90_pixel:
  assumes "plain img" "in_image (im_height img) (im_width img) (im_bpp img) k"
  shows "pixel (rotate90 img) (turn_pos (im_width img) k) = pixel img k"
proof -
  let ?w = "im_width img" and ?h = "im_height img" and ?b = "im_bpp img"
  have d: "(\<lambda>(y, x, c). ((?w - 1 - x) * ?h + y) * ?b + c) = (\<lambda>k. pos ?h ?b (turn_pos ?w k))"
    and s: "(\<lambda>(y, x, c). (y * ?w + x) * ?b + c) = pos ?w ?b"
    by (auto simp: pos_def turn_pos_def)
  have "inj_on (\<lambda>k. pos ?h ?b (turn_pos ?w k)) {k. in_image ?h ?w ?b k}"
    using turn_pos_in turn_pos_inj by (rule inj_on_pos)
  then show ?thesis
    using copy_pixels_at [OF assms(2), of "\<lambda>k. pos ?h ?b (turn_pos ?w k)" "replicate (?w * ?h * ?b) 0" "pos ?w ?b" "im_data img"]
      pos_less [OF assms(2)] pos_less [OF turn_pos_in [OF assms(2)]] assms(1)
    unfolding pixel_def rotate90_def Let_def d s by (simp add: plain_def)
qed

text \<open>The rotated back side, and the flipped one, whose lines are copied whole.\<close>

lemma backSide_plain: "plain img \<Longrightarrow> plain (backSide img ''rotated'')"
  by (simp add: plain_def backSide_def Let_def copy_pixels_def)

lemma backSide_pixel:
  assumes "plain img" "in_image (im_height img) (im_width img) (im_bpp img) k"
  shows "pixel (backSide img ''rotated'') (back_pos (im_height img) (im_width img) k) = pixel img k"
proof -
  let ?w = "im_width img" and ?h = "im_height img" and ?b = "im_bpp img"
  have d: "(\<lambda>(y, x, c). (?h - 1 - y) * (?w * ?b) + (?w - 1 - x) * ?b + c) = (\<lambda>k. pos ?w ?b (back_pos ?h ?w k))"
    and s: "(\<lambda>(y, x, c). y * (?w * ?b) + x * ?b + c) = pos ?w ?b"
    by (auto simp: pos_def back_pos_def fun_eq_iff add_mult_distrib mult.assoc)
  have "inj_on (\<lambda>k. pos ?w ?b (back_pos ?h ?w k)) {k. in_image ?h ?w ?b k}"
    using back_pos_in back_pos_inj by (rule inj_on_pos)
  then show ?thesis
    using copy_pixels_at [OF assms(2), of "\<lambda>k. pos ?w ?b (back_pos ?h ?w k)" "replicate (length (im_data img)) 0" "pos ?w ?b" "im_data img"]
      pos_less [OF assms(2)] pos_less [OF back_pos_in [OF assms(2)]] assms(1)
    unfolding pixel_def backSide_def Let_def d s by (simp add: plain_def)
qed

theorem rotate90_twice: "plain img \<Longrightarrow> rotate90 (rotate90 img) = backSide img ''rotated''"
proof (rule plain_eqI)
  assume p: "plain img"
  let ?w = "im_width img" and ?h = "im_height img" and ?b = "im_bpp img"
  have dims: "im_width (rotate90 i) = im_height i" "im_height (rotate90 i) = im_width i" "im_bpp (rotate90 i) = im_bpp i"
    "im_width (backSide img ''rotated'') = ?w" "im_height (backSide img ''rotated'') = ?h" "im_bpp (backSide img ''rotated'') = ?b" for i
    by (simp_all add: rotate90_def backSide_def Let_def)
  show "plain (rotate90 (rotate90 img))" "plain (backSide img ''rotated'')" using p by (simp_all add: rotate90_plain backSide_plain)
  show "im_width (rotate90 (rotate90 img)) = im_width (backSide img ''rotated'')"
    "im_height (rotate90 (rotate90 img)) = im_height (backSide img ''rotated'')"
    "im_bpp (rotate90 (rotate90 img)) = im_bpp (backSide img ''rotated'')" by (simp_all add: dims)
  fix k assume "in_image (im_height (rotate90 (rotate90 img))) (im_width (rotate90 (rotate90 img))) (im_bpp (rotate90 (rotate90 img))) k"
  then have k: "in_image ?h ?w ?b k" by (simp add: dims)
  let ?j = "back_pos ?h ?w k"
  have j: "in_image ?h ?w ?b ?j" "back_pos ?h ?w ?j = k" using k by (auto intro: back_pos_in simp: back_back)
  have "pixel (rotate90 (rotate90 img)) (turn_pos ?h (turn_pos ?w ?j)) = pixel (rotate90 img) (turn_pos ?w ?j)"
    using rotate90_pixel [OF rotate90_plain, of img "turn_pos ?w ?j"] turn_pos_in [OF j(1)] by (simp add: dims)
  with rotate90_pixel [OF p j(1)] backSide_pixel [OF p j(1)] j(2)
  show "pixel (rotate90 (rotate90 img)) k = pixel (backSide img ''rotated'') k" by (simp add: turn_turn)
qed

theorem back_side_twice: "plain img \<Longrightarrow> backSide (backSide img ''rotated'') ''rotated'' = img"
proof (rule plain_eqI)
  assume p: "plain img"
  let ?w = "im_width img" and ?h = "im_height img" and ?b = "im_bpp img" and ?B = "\<lambda>i. backSide i ''rotated''"
  have dims: "im_width (?B i) = im_width i" "im_height (?B i) = im_height i" "im_bpp (?B i) = im_bpp i" for i
    by (simp_all add: backSide_def Let_def)
  show "plain (?B (?B img))" "plain img" using p by (simp_all add: backSide_plain)
  show "im_width (?B (?B img)) = ?w" "im_height (?B (?B img)) = ?h" "im_bpp (?B (?B img)) = ?b" by (simp_all add: dims)
  fix k assume "in_image (im_height (?B (?B img))) (im_width (?B (?B img))) (im_bpp (?B (?B img))) k"
  then have k: "in_image ?h ?w ?b k" by (simp add: dims)
  show "pixel (?B (?B img)) k = pixel img k"
    using backSide_pixel [OF p k] backSide_pixel [OF backSide_plain [OF p], of "back_pos ?h ?w k"] back_pos_in [OF k] back_back [OF k]
    by (simp add: dims)
qed

section \<open>Placing\<close>

lemma length_buf_copy [simp]: "p \<le> length out \<Longrightarrow> length (buf_copy out p part) = length out"
  by (simp add: buf_copy_def)

lemma buf_copy_nth:
  assumes "p + length part \<le> length out" "i < length out"
  shows "buf_copy out p part ! i = (if p \<le> i \<and> i < p + length part then part ! (i - p) else out ! i)"
  using assms by (auto simp: buf_copy_def nth_append)

text \<open>A line copied to column \<open>x0\<close> of line \<open>Y0\<close> covers exactly its pixels there.\<close>

lemma line_interval:
  assumes "X < W" "c < b" "x0 + n \<le> W"
  shows "((Y0 * W + x0) * b \<le> pos W b (Y, X, c) \<and> pos W b (Y, X, c) < (Y0 * W + x0) * b + n * b) \<longleftrightarrow>
         (Y = Y0 \<and> x0 \<le> X \<and> X < x0 + n)"
    (is "?lhs = ?rhs")
proof -
  let ?q = "Y * W + X"
  have div: "pos W b (Y, X, c) div b = ?q" using assms(2) by (simp add: pos_def)
  have "((Y0 * W + x0) * b \<le> pos W b (Y, X, c)) = (Y0 * W + x0 \<le> ?q)"
    using assms(2) div by (simp add: less_eq_div_iff_mult_less_eq [symmetric])
  moreover have "(pos W b (Y, X, c) < (Y0 * W + x0 + n) * b) = (?q < Y0 * W + x0 + n)"
    using assms(2) div by (metis div_less_iff_less_mult gr_zeroI not_less_zero)
  ultimately have l: "?lhs = (Y0 * W + x0 \<le> ?q \<and> ?q < Y0 * W + x0 + n)" by (simp add: add_mult_distrib)
  have "Y = Y0" if "Y0 * W + x0 \<le> ?q" "?q < Y0 * W + x0 + n"
  proof (rule ccontr)
    assume "Y \<noteq> Y0"
    then consider "Suc Y \<le> Y0" | "Suc Y0 \<le> Y" by linarith
    then show False
    proof cases
      case 1
      then have "Suc Y * W \<le> Y0 * W" by (rule mult_le_mono1)
      with that assms show False by simp
    next
      case 2
      then have "Suc Y0 * W \<le> Y * W" by (rule mult_le_mono1)
      with that assms show False by simp
    qed
  qed
  with l show ?thesis by auto
qed

definition sheet_byte :: "image \<Rightarrow> nat \<Rightarrow> nat \<Rightarrow> nat \<Rightarrow> nat \<Rightarrow> nat \<times> nat \<times> nat \<Rightarrow> byte" where
  "sheet_byte img n cw x0 y0 k =
     (case k of (Y, X, c) \<Rightarrow>
        if y0 \<le> Y \<and> Y < y0 + n \<and> x0 \<le> X \<and> X < x0 + cw then pixel img (Y - y0, X - x0, c) else 0xff)"

lemma sheet_rows:
  fixes img :: image and W H x0 y0 :: nat
  assumes img: "plain img" and cw: "cw \<le> im_width img" "x0 + cw \<le> W" and n: "n \<le> im_height img" "y0 + n \<le> H"
  defines "b \<equiv> im_bpp img" and "w \<equiv> im_width img"
  defines "f \<equiv> \<lambda>out y. buf_copy out (((y + y0) * W + x0) * b) (subarray (im_data img) (y * w * b) ((y * w + cw) * b))"
  defines "out0 \<equiv> replicate (W * H * b) 0xff"
  shows "length (foldl f out0 [0..<n]) = W * H * b \<and>
         (\<forall>k. in_image H W b k \<longrightarrow> foldl f out0 [0..<n] ! pos W b k = sheet_byte img n cw x0 y0 k)"
  using n
proof (induction n)
  case 0
  have "pos W b k < W * H * b" if "in_image H W b k" for k using pos_less [OF that] by (simp add: mult.commute)
  then show ?case by (auto simp: out0_def sheet_byte_def)
next
  case (Suc n)
  let ?o = "foldl f out0 [0..<n]" and ?p = "((n + y0) * W + x0) * b"
  let ?part = "subarray (im_data img) (n * w * b) ((n * w + cw) * b)"
  from Suc have ih: "length ?o = W * H * b"
    "in_image H W b k \<Longrightarrow> ?o ! pos W b k = sheet_byte img n cw x0 y0 k" for k
    by (auto simp del: split_paired_All)
  have rows: "(n * w + cw) * b \<le> im_height img * w * b"
  proof (rule mult_le_mono1)
    have "Suc n * w \<le> im_height img * w" using Suc.prems by (intro mult_le_mono1) simp
    with cw show "n * w + cw \<le> im_height img * w" by (simp add: w_def)
  qed
  then have le: "n * w * b \<le> length (im_data img)" using img Suc.prems(1) by (simp add: plain_def w_def b_def)
  from rows have part: "length ?part = cw * b"
    using img by (simp add: plain_def w_def b_def add_mult_distrib)
  have "Suc (n + y0) * W \<le> H * W" using Suc.prems by (intro mult_le_mono1) simp
  then have "(n + y0) * W + x0 + cw \<le> W * H" using cw by (simp add: mult.commute)
  then have "((n + y0) * W + x0 + cw) * b \<le> W * H * b" by (rule mult_le_mono1)
  then have fits: "?p + length ?part \<le> length ?o" unfolding part ih(1) by (simp add: add_mult_distrib)
  have "buf_copy ?o ?p ?part ! pos W b k = sheet_byte img (Suc n) cw x0 y0 k" if k: "in_image H W b k" for k
  proof -
    obtain Y X c where kk: "k = (Y, X, c)" by (cases k) auto
    have X: "X < W" "c < b" using k by (auto simp: kk in_image_def)
    have iv: "(?p \<le> pos W b k \<and> pos W b k < ?p + length ?part) \<longleftrightarrow> (Y = n + y0 \<and> x0 \<le> X \<and> X < x0 + cw)"
      unfolding kk part using X cw(2) by (rule line_interval)
    have pl: "pos W b k < length ?o" using pos_less [OF k] ih(1) by (simp add: mult.commute)
    show ?thesis
    proof (cases "Y = n + y0 \<and> x0 \<le> X \<and> X < x0 + cw")
      case True
      then obtain d where d: "X = x0 + d" "d < cw" by (metis less_add_eq_less le_Suc_ex nat_add_left_cancel_less)
      have "pos W b k - ?p = d * b + c" using True d by (simp add: kk pos_def add_mult_distrib)
      moreover have "d * b + c < cw * b" using mixed_radix_less [OF d(2) X(2)] .
      ultimately have "?part ! (pos W b k - ?p) = im_data img ! (n * w * b + (d * b + c))"
        using le by (simp add: subarray_def add_mult_distrib)
      moreover have "n * w * b + (d * b + c) = pos w b (n, d, c)" by (simp add: pos_def add_mult_distrib)
      ultimately show ?thesis
        using buf_copy_nth [OF fits pl] iv True d by (simp add: kk sheet_byte_def pixel_def w_def b_def)
    next
      case False
      with buf_copy_nth [OF fits pl] iv have "buf_copy ?o ?p ?part ! pos W b k = ?o ! pos W b k" by auto
      with ih(2) [OF k] False show ?thesis by (auto simp: kk sheet_byte_def)
    qed
  qed
  moreover have "length (buf_copy ?o ?p ?part) = W * H * b"
    using length_buf_copy [OF add_leD1 [OF fits]] ih(1) by simp
  ultimately show ?case by (simp add: f_def)
qed

text \<open>A sheet shows the image at its place and is white elsewhere.\<close>

theorem onSheet_pixel:
  assumes "plain img" "x0 \<le> W" "(im_width img, im_height img) \<noteq> (W, H)" "in_image H W (im_bpp img) (Y, X, c)"
  shows "plain (onSheet img W H x0 y0) \<and>
         pixel (onSheet img W H x0 y0) (Y, X, c) =
           (if y0 \<le> Y \<and> Y - y0 < im_height img \<and> x0 \<le> X \<and> X - x0 < im_width img then pixel img (Y - y0, X - x0, c) else 0xff)"
proof -
  let ?n = "min (im_height img) (H - y0)" and ?cw = "min (im_width img) (W - x0)"
  have rows: "[y\<leftarrow>[0..<im_height img]. y + y0 < H] = [0..<?n]"
  proof -
    have "[y\<leftarrow>[0..<m]. y + y0 < H] = [0..<min m (H - y0)]" for m
    proof (induction m)
      case (Suc m)
      show ?case
      proof (cases "m + y0 < H")
        case True
        then have "min (Suc m) (H - y0) = Suc m" "min m (H - y0) = m" by auto
        with Suc True show ?thesis by simp
      next
        case False
        then have "min (Suc m) (H - y0) = H - y0" "min m (H - y0) = H - y0" by auto
        with Suc False show ?thesis by simp
      qed
    qed simp
    then show ?thesis .
  qed
  note s = sheet_rows [OF assms(1), of ?cw x0 W ?n y0 H]
  have "y0 + ?n \<le> H \<or> ?n = 0" by auto
  with assms(2) have "length (im_data (onSheet img W H x0 y0)) = W * H * im_bpp img \<and>
      pixel (onSheet img W H x0 y0) (Y, X, c) = sheet_byte img ?n ?cw x0 y0 (Y, X, c)"
  proof (cases "y0 \<le> H")
    case True
    with s assms show ?thesis by (auto simp: onSheet_def Let_def rows pixel_def)
  next
    case False
    with assms pos_less [OF assms(4)] show ?thesis
      by (auto simp: onSheet_def Let_def rows pixel_def sheet_byte_def mult.commute)
  qed
  moreover have "im_width (onSheet img W H x0 y0) = W" "im_height (onSheet img W H x0 y0) = H"
    "im_row (onSheet img W H x0 y0) = None" "im_bpp (onSheet img W H x0 y0) = im_bpp img"
    using assms(3) by (auto simp: onSheet_def Let_def)
  ultimately show ?thesis using assms(4) by (auto simp: sheet_byte_def in_image_def plain_def mult.commute)
qed

end
