(* ===== verification/Print_Convert.thy ===== *)
theory Print_Convert
  imports Print_Plan Print_Raster
begin

text \<open>
  Converting a PDF file page by page (\<open>src/src/print/convert.js\<close>): the layout on the sheet, the headers
  of PWG and Apple raster, and the loop over the pages with its size limit. The renderer
  \<open>pdftoppm\<close> is an argument: page, size and colour to its output or an error code. The result is
  judged by the decoder \<open>read_pwg\<close>, which reads a raster file from its headers alone.
\<close>

section \<open>Layout\<close>

record layout =
  ly_rw :: nat
  ly_rh :: nat
  ly_turn :: bool
  ly_W :: nat
  ly_H :: nat
  ly_x :: nat
  ly_y :: nat

definition px :: "nat \<Rightarrow> rat \<Rightarrow> nat" where
  "px dpi pt = max 1 (nat \<lfloor>pt / 72 * of_nat dpi + 1 / 2\<rfloor>)"

text \<open>A quotient that is only compared with 1 from above: dividing by 0 gives \<open>Infinity\<close>.\<close>

definition ratio :: "rat \<Rightarrow> rat \<Rightarrow> rat" where
  "ratio a b = (if b = 0 then 1 else a / b)"

definition layout_of :: "rat \<times> rat \<Rightarrow> media \<Rightarrow> nat \<Rightarrow> layout" where
  "layout_of page md dpi =
     (let (pw, ph) = page; W = px dpi (md_w md); H = px dpi (md_h md);
          turn = ((ph < pw) \<noteq> (md_h md < md_w md) \<and> 1 < \<bar>pw - ph\<bar>);
          fw = (if turn then ph else pw); fh = (if turn then pw else ph);
          s = min 1 (min (ratio (md_w md) fw) (ratio (md_h md) fh));
          ow = min W (px dpi (fw * s)); oh = min H (px dpi (fh * s))
      in \<lparr>ly_rw = (if turn then oh else ow), ly_rh = (if turn then ow else oh), ly_turn = turn, ly_W = W, ly_H = H,
          ly_x = (W - ow) div 2, ly_y = (H - oh) div 2\<rparr>)"

section \<open>Headers\<close>

definition TYPE_bpc :: "string \<Rightarrow> nat" where
  "TYPE_bpc ty = (if ty = ''black_1'' then 1 else 8)"

definition TYPE_bpp :: "string \<Rightarrow> nat" where
  "TYPE_bpp ty = (if ty = ''srgb_8'' then 24 else if ty = ''sgray_8'' then 8 else 1)"

definition TYPE_cs :: "string \<Rightarrow> nat" where
  "TYPE_cs ty = (if ty = ''srgb_8'' then 19 else if ty = ''sgray_8'' then 18 else 3)"

definition TYPE_colors :: "string \<Rightarrow> nat" where
  "TYPE_colors ty = (if ty = ''srgb_8'' then 3 else 1)"

definition be32 :: "nat \<Rightarrow> bytes" where
  "be32 v = [byte_of (v div 16777216), byte_of (v div 65536), byte_of (v div 256), byte_of v]"

definition round_pt :: "rat \<Rightarrow> nat" where
  "round_pt r = nat \<lfloor>r + 1 / 2\<rfloor>"

record page_header =
  hd_width :: nat
  hd_height :: nat
  hd_dpi :: nat
  hd_type :: string
  hd_media :: media
  hd_duplex :: bool
  hd_pages :: nat
  hd_back :: bool

text \<open>The writes into the zeroed header, in order; \<open>hd_back\<close> stands for the transform \<open>-1\<close>.\<close>

definition pwg_writes :: "page_header \<Rightarrow> (nat \<times> bytes) list" where
  "pwg_writes h =
     (let t = hd_type h; tr = (if hd_back h then 2 ^ 32 - 1 else 1)
      in [(0, map char_byte ''PwgRaster''), (272, be32 (if hd_duplex h then 1 else 0)),
          (276, be32 (hd_dpi h)), (280, be32 (hd_dpi h)),
          (352, be32 (round_pt (md_w (hd_media h)))), (356, be32 (round_pt (md_h (hd_media h)))),
          (372, be32 (hd_width h)), (376, be32 (hd_height h)),
          (384, be32 (TYPE_bpc t)), (388, be32 (TYPE_bpp t)), (392, be32 ((hd_width h * TYPE_bpp t + 7) div 8)),
          (396, be32 0), (400, be32 (TYPE_cs t)), (420, be32 (TYPE_colors t)),
          (452, be32 (hd_pages h)), (456, be32 tr), (460, be32 tr),
          (464, be32 0), (468, be32 0), (472, be32 (hd_width h)), (476, be32 (hd_height h)),
          (480, be32 0x00ffffff), (1732, map char_byte (take 63 (md_name (hd_media h))))])"

definition apply_writes :: "bytes \<Rightarrow> (nat \<times> bytes) list \<Rightarrow> bytes" where
  "apply_writes b ws = foldl (\<lambda>b w. buf_copy b (fst w) (snd w)) b ws"

definition pwgHeader :: "page_header \<Rightarrow> bytes" where
  "pwgHeader h = apply_writes (replicate 1796 0) (pwg_writes h)"

definition urfHeader :: "page_header \<Rightarrow> bytes" where
  "urfHeader h =
     apply_writes (replicate 32 0)
       [(0, [byte_of (TYPE_bpp (hd_type h)), (if hd_type h = ''srgb_8'' then 1 else 0), (if hd_duplex h then 3 else 1), 4]),
        (12, be32 (hd_width h)), (16, be32 (hd_height h)), (20, be32 (hd_dpi h))]"

section \<open>The loop over the pages\<close>

definition MAX_OUTPUT :: nat where
  "MAX_OUTPUT = 1024 * 1024 * 1024"

definition MAX_PAGE_PIXELS :: nat where
  "MAX_PAGE_PIXELS = 120000000"

text \<open>Page, width, height, grey: the whole output of the renderer or the code of its failure.\<close>

type_synonym renderer = "nat \<Rightarrow> nat \<Rightarrow> nat \<Rightarrow> bool \<Rightarrow> string + bytes"

definition renderPage :: "renderer \<Rightarrow> print_plan \<Rightarrow> string \<Rightarrow> nat \<Rightarrow> rat \<times> rat \<Rightarrow> string + image" where
  "renderPage render p ty n page =
     (let l = layout_of page (pp_media p) (pp_dpi p); rgb = (ty = ''srgb_8'' \<and> \<not> pp_mono p)
      in if MAX_PAGE_PIXELS < ly_W l * ly_H l then Inl ''convert_too_large''
         else case render n (ly_rw l) (ly_rh l) (\<not> rgb) of
           Inl e \<Rightarrow> Inl e
         | Inr out \<Rightarrow>
             if ly_rw l * ly_rh l * (if rgb then 3 else 1) + 1024 < length out then Inl ''convert_too_large''
             else (case parsePnm out of
                     None \<Rightarrow> Inl ''convert_failed''
                   | Some img \<Rightarrow> Inr (onSheet (if ly_turn l then rotate90 img else img) (ly_W l) (ly_H l) (ly_x l) (ly_y l))))"

text \<open>The image of page \<open>i\<close> (counted from 0) as it is packed, and whether it is a turned back side.\<close>

definition back_of :: "print_plan \<Rightarrow> bool \<Rightarrow> nat \<Rightarrow> string" where
  "back_of p duplex i = (if duplex \<and> odd i then pp_back p else ''normal'')"

definition page_image :: "renderer \<Rightarrow> print_plan \<Rightarrow> string \<Rightarrow> bool \<Rightarrow> nat \<Rightarrow> rat \<times> rat \<Rightarrow> string + image" where
  "page_image render p ty duplex i page =
     map_sum (\<lambda>e. e) (\<lambda>img. toType (backSide img (back_of p duplex i)) ty) (renderPage render p ty (i + 1) page)"

definition header_of :: "print_plan \<Rightarrow> string \<Rightarrow> bool \<Rightarrow> nat \<Rightarrow> nat \<Rightarrow> image \<Rightarrow> page_header" where
  "header_of p ty duplex npages i img =
     \<lparr>hd_width = im_width img, hd_height = im_height img, hd_dpi = pp_dpi p, hd_type = ty, hd_media = pp_media p,
      hd_duplex = duplex, hd_pages = npages, hd_back = (back_of p duplex i = ''rotated'')\<rparr>"

text \<open>\<open>sink.write\<close>.\<close>

definition sink_write :: "nat \<Rightarrow> bytes \<Rightarrow> bytes \<Rightarrow> string + bytes" where
  "sink_write mx out b = (if mx < length out + length b then Inl ''convert_too_large'' else Inr (out @ b))"

definition both_writes :: "nat \<Rightarrow> bytes \<Rightarrow> bytes \<Rightarrow> bytes \<Rightarrow> string + bytes" where
  "both_writes mx out a b = (case sink_write mx out a of Inl e \<Rightarrow> Inl e | Inr o1 \<Rightarrow> sink_write mx o1 b)"

fun page_loop :: "renderer \<Rightarrow> print_plan \<Rightarrow> string \<Rightarrow> bool \<Rightarrow> nat \<Rightarrow> nat \<Rightarrow> nat \<Rightarrow> (rat \<times> rat) list \<Rightarrow> bytes \<Rightarrow> string + bytes" where
  "page_loop render p ty duplex mx npages i [] out = Inr out"
| "page_loop render p ty duplex mx npages i (page # pages) out =
     (case page_image render p ty duplex i page of
        Inl e \<Rightarrow> Inl e
      | Inr img \<Rightarrow>
          let h = header_of p ty duplex npages i img
          in (case both_writes mx out (if pp_format p = ''image/pwg-raster'' then pwgHeader h else urfHeader h) (packPage img) of
                Inl e \<Rightarrow> Inl e
              | Inr out' \<Rightarrow> page_loop render p ty duplex mx npages (i + 1) pages out'))"

text \<open>The JPEG pages by their sizes; their total is checked after each.\<close>

fun jpeg_loop :: "(nat \<Rightarrow> string + nat) \<Rightarrow> nat \<Rightarrow> nat \<Rightarrow> nat list \<Rightarrow> string + nat list" where
  "jpeg_loop jpeg mx sum0 [] = Inr []"
| "jpeg_loop jpeg mx sum0 (n # ns) =
     (case jpeg n of
        Inl e \<Rightarrow> Inl e
      | Inr sz \<Rightarrow> if mx < sum0 + sz then Inl ''convert_too_large''
                  else map_sum (\<lambda>e. e) ((#) sz) (jpeg_loop jpeg mx (sum0 + sz) ns))"

datatype converted = Jpegs "nat list" | Raster bytes

definition convert ::
    "bool \<Rightarrow> (nat \<Rightarrow> string + nat) \<Rightarrow> renderer \<Rightarrow> print_plan \<Rightarrow> bool \<Rightarrow> nat \<Rightarrow> (rat \<times> rat) list \<Rightarrow> string + converted" where
  "convert available jpeg render p duplex maxBytes pages =
     (let mx = (if maxBytes = 0 then MAX_OUTPUT else maxBytes); n = length pages
      in if \<not> available then Inl ''no_converter''
         else if n = 0 then Inl ''convert_failed''
         else if pp_format p = ''image/jpeg'' then map_sum (\<lambda>e. e) Jpegs (jpeg_loop jpeg mx 0 [1..<n + 1])
         else let head = (if pp_format p = ''image/pwg-raster'' then map char_byte ''RaS2''
                          else map char_byte ''UNIRAST'' @ [0] @ be32 n);
                  ty = (if pp_format p = ''image/urf'' \<and> pp_type p = ''black_1'' then ''sgray_8'' else pp_type p)
           in case sink_write mx [] head of
                Inl e \<Rightarrow> Inl e
              | Inr out \<Rightarrow> map_sum (\<lambda>e. e) Raster (page_loop render p ty duplex mx n 0 pages out))"

section \<open>Reading a raster file\<close>

fun read_pwg :: "nat \<Rightarrow> bytes \<Rightarrow> (nat \<times> nat \<times> bytes list) list option" where
  "read_pwg 0 bs = (if bs = [] then Some [] else None)"
| "read_pwg (Suc k) bs =
     do {
       w \<leftarrow> readU32 bs 372;
       h \<leftarrow> readU32 bs 376;
       bits \<leftarrow> readU32 bs 388;
       line \<leftarrow> readU32 bs 392;
       let unit = (bits + 7) div 8;
       (rows, rest) \<leftarrow> unpack_page unit (line div unit) h (drop 1796 bs);
       more \<leftarrow> read_pwg k rest;
       Some ((w, h, rows) # more)
     }"

section \<open>Headers are read back\<close>

lemma length_apply_writes:
  "list_all (\<lambda>w. fst w + length (snd w) \<le> length b) ws \<Longrightarrow> length (apply_writes b ws) = length b"
  by (induction ws arbitrary: b) (auto simp: apply_writes_def)

text \<open>A byte of the buffer is that of the last write over it.\<close>

lemma apply_writes_nth:
  assumes "list_all (\<lambda>w. fst w + length (snd w) \<le> length b) ws" "i < length b"
  shows "apply_writes b ws ! i =
           (case find (\<lambda>w. fst w \<le> i \<and> i < fst w + length (snd w)) (rev ws) of Some w \<Rightarrow> snd w ! (i - fst w) | None \<Rightarrow> b ! i)"
  using assms(1)
proof (induction ws rule: rev_induct)
  case (snoc w ws)
  have "length (apply_writes b ws) = length b" using length_apply_writes [of b ws] snoc.prems by simp
  moreover have "apply_writes b (ws @ [w]) = buf_copy (apply_writes b ws) (fst w) (snd w)" by (simp add: apply_writes_def)
  ultimately show ?case using snoc assms(2) by (simp add: buf_copy_nth)
qed (simp add: apply_writes_def)

lemma length_be32 [simp]: "length (be32 v) = 4"
  by (simp add: be32_def)

lemma pwg_writes_fit: "list_all (\<lambda>w. fst w + length (snd w) \<le> length (replicate 1796 (0::byte))) (pwg_writes h)"
  by (simp add: pwg_writes_def Let_def)

lemma length_pwgHeader [simp]: "length (pwgHeader h) = 1796"
  using length_apply_writes [OF pwg_writes_fit] by (simp add: pwgHeader_def)

lemma readU32_be32:
  assumes "\<And>i. i < 4 \<Longrightarrow> b ! (off + i) = be32 v ! i" "off + 4 \<le> length b" "v < 2 ^ 32"
  shows "readU32 (b @ r) off = Some v"
proof -
  have "u32 v = Some (be32 v)" using assms(3) by (simp add: u32_def be32_def)
  then have "readU32 (be32 v) 0 = Some v" using readU32_u32 [of v "be32 v" "[]"] by simp
  then have "((unat (be32 v ! 0) * 256 + unat (be32 v ! 1)) * 256 + unat (be32 v ! 2)) * 256 + unat (be32 v ! 3) = v"
    by (simp add: readU32_def numeral_2_eq_2 del: distrib_right_numeral)
  with assms(1) [of 0] assms(1) [of 1] assms(1) [of 2] assms(1) [of 3] assms(2) show ?thesis
    by (simp add: readU32_def nth_append del: distrib_right_numeral)
qed

lemma pwgHeader_fields:
  assumes "hd_width h < 2 ^ 32" "hd_height h < 2 ^ 32" "(hd_width h * TYPE_bpp (hd_type h) + 7) div 8 < 2 ^ 32"
  shows "readU32 (pwgHeader h @ r) 372 = Some (hd_width h)" "readU32 (pwgHeader h @ r) 376 = Some (hd_height h)"
    "readU32 (pwgHeader h @ r) 388 = Some (TYPE_bpp (hd_type h))"
    "readU32 (pwgHeader h @ r) 392 = Some ((hd_width h * TYPE_bpp (hd_type h) + 7) div 8)"
proof -
  note nth = apply_writes_nth [OF pwg_writes_fit, of _ h, folded pwgHeader_def, unfolded length_replicate]
  have small: "i < 4 \<Longrightarrow> i = 0 \<or> i = 1 \<or> i = 2 \<or> i = (3::nat)" for i by linarith
  show "readU32 (pwgHeader h @ r) 372 = Some (hd_width h)" "readU32 (pwgHeader h @ r) 376 = Some (hd_height h)"
    "readU32 (pwgHeader h @ r) 392 = Some ((hd_width h * TYPE_bpp (hd_type h) + 7) div 8)"
    by (rule readU32_be32; use assms in \<open>auto simp: nth pwg_writes_def Let_def dest!: small\<close>)+
  have "TYPE_bpp t < 2 ^ 32" for t by (simp add: TYPE_bpp_def)
  then show "readU32 (pwgHeader h @ r) 388 = Some (TYPE_bpp (hd_type h))"
    by (intro readU32_be32) (auto simp: nth pwg_writes_def Let_def dest!: small)
qed

section \<open>Every page has the form its header says\<close>

lemma parsePnm_plain:
  assumes "parsePnm buf = Some img"
  shows "plain img \<and> im_bpp img = (if buf ! 1 = 0x35 then 1 else 3)"
proof -
  obtain w h d where "img = \<lparr>im_width = w, im_height = h, im_bpp = (if buf ! 1 = 0x35 then 1 else 3), im_row = None,
      im_data = take (w * h * (if buf ! 1 = 0x35 then 1 else 3)) d\<rparr>" "w * h * (if buf ! 1 = 0x35 then 1 else 3) \<le> length d"
    using assms by (auto simp: parsePnm_def Let_def not_less split: if_split_asm option.split_asm list.split_asm prod.split_asm)
  then show ?thesis by (simp add: plain_def mult.commute [of w h])
qed

lemma length_copies:
  assumes "\<And>y. y \<in> set ys \<Longrightarrow> f y \<le> length out"
  shows "length (foldl (\<lambda>out y. buf_copy out (f y) (g y)) out ys) = length out"
  using assms by (induction ys arbitrary: out) auto

lemma onSheet_form:
  assumes "plain img" "x0 \<le> W"
  shows "plain (onSheet img W H x0 y0)" "im_width (onSheet img W H x0 y0) = W" "im_height (onSheet img W H x0 y0) = H"
    "im_bpp (onSheet img W H x0 y0) = im_bpp img"
proof -
  let ?b = "im_bpp img"
  let ?ys = "[y \<leftarrow> [0..<im_height img]. y + y0 < H]"
  have fits: "((y + y0) * W + x0) * ?b \<le> W * H * ?b" if "y + y0 < H" for y
  proof (rule mult_le_mono1)
    have "Suc (y + y0) * W \<le> H * W" using that by (intro mult_le_mono1) simp
    with assms(2) show "(y + y0) * W + x0 \<le> W * H" by (simp add: mult.commute)
  qed
  have "length (foldl (\<lambda>out y. buf_copy out (((y + y0) * W + x0) * ?b) (g y)) (replicate (W * H * ?b) 0xff) ?ys) = W * H * ?b" for g
    by (subst length_copies) (use fits in auto)
  then have "length (im_data (onSheet img W H x0 y0)) = W * H * ?b"
    using assms(1) by (auto simp: onSheet_def Let_def plain_def)
  then have "length (im_data (onSheet img W H x0 y0)) = H * W * ?b" by (simp add: mult.commute)
  then show "plain (onSheet img W H x0 y0)" "im_width (onSheet img W H x0 y0) = W" "im_height (onSheet img W H x0 y0) = H"
    "im_bpp (onSheet img W H x0 y0) = im_bpp img"
    using assms(1) by (auto simp: onSheet_def Let_def plain_def)
qed

lemma backSide_form:
  assumes "plain img"
  shows "plain (backSide img s)" "im_width (backSide img s) = im_width img" "im_height (backSide img s) = im_height img"
    "im_bpp (backSide img s) = im_bpp img"
proof -
  have "(im_height img - 1 - y) * (im_width img * im_bpp img) \<le> length (im_data img)" for y
    using assms mult_le_mono1 [of "im_height img - 1 - y" "im_height img" "im_width img * im_bpp img"]
    by (simp add: plain_def mult.assoc)
  then have "length (im_data (backSide img s)) = length (im_data img)"
    by (auto simp: backSide_def Let_def copy_pixels_def length_copies)
  then show "plain (backSide img s)" "im_width (backSide img s) = im_width img" "im_height (backSide img s) = im_height img"
    "im_bpp (backSide img s) = im_bpp img"
    using assms by (auto simp: backSide_def Let_def plain_def)
qed

text \<open>Bytes of a pixel or, for one bit per pixel, of a group of eight.\<close>

definition type_fits :: "image \<Rightarrow> string \<Rightarrow> bool" where
  "type_fits img ty = (ty \<in> set RASTER_TYPES \<and> (im_bpp img = 1 \<or> im_bpp img = 3 \<and> ty = ''srgb_8''))"

lemma toType_form:
  assumes "plain img" "type_fits img ty" "0 < im_width img"
  shows "image_ok (toType img ty)" "im_width (toType img ty) = im_width img" "im_height (toType img ty) = im_height img"
    "unit_len (toType img ty) = (TYPE_bpp ty + 7) div 8" "row_len (toType img ty) = (im_width img * TYPE_bpp ty + 7) div 8"
proof -
  have bits: "length (foldl (\<lambda>out (y, x, c). if P y x then out[f y x := g y x out] else out) o1 ks) = length o1"
    for P f and g :: "nat \<Rightarrow> nat \<Rightarrow> bytes \<Rightarrow> byte" and o1 :: bytes and ks :: "(nat \<times> nat \<times> nat) list"
    by (induction ks arbitrary: o1) auto
  have three: "length (concat (map (\<lambda>b. [b, b, b]) xs)) = 3 * length xs" for xs :: bytes by (induction xs) auto
  have div8: "(w * 24 + 7) div 8 = w * 3" "(w * 8 + 7) div 8 = w" for w :: nat by auto
  consider "ty = ''srgb_8''" "im_bpp img = 1" | "ty = ''srgb_8''" "im_bpp img = 3" | "ty = ''sgray_8''" "im_bpp img = 1"
    | "ty = ''black_1''" "im_bpp img = 1"
    using assms(2) by (auto simp: type_fits_def RASTER_TYPES_def)
  then show "image_ok (toType img ty)" "im_width (toType img ty) = im_width img" "im_height (toType img ty) = im_height img"
    "unit_len (toType img ty) = (TYPE_bpp ty + 7) div 8" "row_len (toType img ty) = (im_width img * TYPE_bpp ty + 7) div 8"
    using assms(1,3)
    by (cases; simp add: toType_def image_ok_def unit_len_def row_len_def plain_def TYPE_bpp_def Let_def bits three div8 mult_ac; fail)+
qed

text \<open>What is relied on of the renderer: asked for grey it writes P5, otherwise P6.\<close>

definition honours_gray :: "renderer \<Rightarrow> bool" where
  "honours_gray render = (\<forall>n rw rh gray out. render n rw rh gray = Inr out \<longrightarrow> (out ! 1 = 0x35) = gray)"

lemma half_le: "(a - b) div 2 \<le> (a :: nat)"
  by simp

lemma layout_W: "ly_W (layout_of page md dpi) = px dpi (md_w md)"
  by (cases page) (simp only: layout_of_def Let_def prod.case layout.simps)

lemma layout_H: "ly_H (layout_of page md dpi) = px dpi (md_h md)"
  by (cases page) (simp only: layout_of_def Let_def prod.case layout.simps)

lemma layout_x: "ly_x (layout_of page md dpi) \<le> ly_W (layout_of page md dpi)"
  by (cases page) (simp only: layout_of_def Let_def prod.case layout.simps half_le)

lemma layout_pos: "0 < ly_W (layout_of page md dpi) \<and> 0 < ly_H (layout_of page md dpi)"
  by (simp add: layout_W layout_H px_def less_max_iff_disj)

lemma renderPage_form:
  assumes "renderPage render p ty n page = Inr img" "honours_gray render" "ty \<in> set RASTER_TYPES"
  shows "plain img" "type_fits img ty" "im_width img = ly_W (layout_of page (pp_media p) (pp_dpi p))"
    "im_height img = ly_H (layout_of page (pp_media p) (pp_dpi p))" "im_width img * im_height img \<le> MAX_PAGE_PIXELS"
proof -
  let ?l = "layout_of page (pp_media p) (pp_dpi p)" and ?rgb = "ty = ''srgb_8'' \<and> \<not> pp_mono p"
  obtain out pnm where o: "ly_W ?l * ly_H ?l \<le> MAX_PAGE_PIXELS" "render n (ly_rw ?l) (ly_rh ?l) (\<not> ?rgb) = Inr out" "parsePnm out = Some pnm"
      "img = onSheet (if ly_turn ?l then rotate90 pnm else pnm) (ly_W ?l) (ly_H ?l) (ly_x ?l) (ly_y ?l)"
    using assms(1) by (auto simp: renderPage_def Let_def not_less split: if_split_asm sum.split_asm option.split_asm)
  let ?img = "if ly_turn ?l then rotate90 pnm else pnm"
  have pnm: "plain pnm" "im_bpp pnm = (if ?rgb then 3 else 1)"
    using parsePnm_plain [OF o(3)] assms(2) o(2) unfolding honours_gray_def by (auto split: if_splits)
  have t: "plain ?img" "im_bpp ?img = im_bpp pnm" using pnm(1) rotate90_plain [of pnm] by (auto simp: rotate90_def Let_def)
  note f = onSheet_form [OF t(1) layout_x]
  from f o(4) show "plain img" "im_width img = ly_W ?l" "im_height img = ly_H ?l" by simp_all
  then show "im_width img * im_height img \<le> MAX_PAGE_PIXELS" using o(1) by simp
  show "type_fits img ty" using f(4) o(4) t(2) pnm(2) assms(3) by (simp add: type_fits_def)
qed

lemma page_image_form:
  assumes "page_image render p ty duplex i page = Inr img" "honours_gray render" "ty \<in> set RASTER_TYPES"
  shows "image_ok img" "unit_len img = (TYPE_bpp ty + 7) div 8" "row_len img = (im_width img * TYPE_bpp ty + 7) div 8"
    "im_width img = ly_W (layout_of page (pp_media p) (pp_dpi p))" "im_height img = ly_H (layout_of page (pp_media p) (pp_dpi p))"
    "im_width img * im_height img \<le> MAX_PAGE_PIXELS"
proof -
  obtain r where r: "renderPage render p ty (i + 1) page = Inr r" "img = toType (backSide r (back_of p duplex i)) ty"
    using assms(1) by (cases "renderPage render p ty (i + 1) page") (auto simp: page_image_def)
  note f = renderPage_form [OF r(1) assms(2,3)]
  note b = backSide_form [OF f(1), of "back_of p duplex i"]
  have "type_fits (backSide r (back_of p duplex i)) ty" using f(2) b(4) by (simp add: type_fits_def)
  moreover have "0 < im_width (backSide r (back_of p duplex i))" using b(2) f(3) layout_pos by simp
  ultimately have t: "image_ok img" "im_width img = im_width r" "im_height img = im_height r"
      "unit_len img = (TYPE_bpp ty + 7) div 8" "row_len img = (im_width img * TYPE_bpp ty + 7) div 8"
    using toType_form [OF b(1)] b by (simp_all add: r(2))
  then show "image_ok img" "unit_len img = (TYPE_bpp ty + 7) div 8" "row_len img = (im_width img * TYPE_bpp ty + 7) div 8"
    "im_width img = ly_W (layout_of page (pp_media p) (pp_dpi p))" "im_height img = ly_H (layout_of page (pp_media p) (pp_dpi p))"
    "im_width img * im_height img \<le> MAX_PAGE_PIXELS" using f by simp_all
qed

section \<open>The whole file\<close>

definition page_entry :: "image \<Rightarrow> nat \<times> nat \<times> bytes list" where
  "page_entry img = (im_width img, im_height img, image_rows img)"

text \<open>The images of the pages, in order.\<close>

fun page_images :: "renderer \<Rightarrow> print_plan \<Rightarrow> string \<Rightarrow> bool \<Rightarrow> nat \<Rightarrow> (rat \<times> rat) list \<Rightarrow> string + image list" where
  "page_images render p ty duplex i [] = Inr []"
| "page_images render p ty duplex i (page # pages) =
     (case page_image render p ty duplex i page of
        Inl e \<Rightarrow> Inl e
      | Inr img \<Rightarrow> map_sum (\<lambda>e. e) ((#) img) (page_images render p ty duplex (i + 1) pages))"

lemma read_pwg_page:
  assumes "page_image render p ty duplex i page = Inr img" "honours_gray render" "ty \<in> set RASTER_TYPES"
    "read_pwg k rest = Some others"
  shows "read_pwg (Suc k) (pwgHeader (header_of p ty duplex n i img) @ packPage img @ rest) = Some (page_entry img # others)"
proof -
  let ?h = "header_of p ty duplex n i img"
  note f = page_image_form [OF assms(1-3)]
  have pos: "0 < im_width img" "0 < im_height img" using f(4,5) layout_pos by simp_all
  have b: "im_width img \<le> 120000000" "im_height img \<le> 120000000"
    using pos by (auto intro!: le_trans [OF _ f(6) [unfolded MAX_PAGE_PIXELS_def]])
  have "TYPE_bpp ty \<le> 24" by (simp add: TYPE_bpp_def)
  then have "im_width img * TYPE_bpp ty \<le> 120000000 * 24" using b by (intro mult_le_mono)
  then have "(im_width img * TYPE_bpp ty + 7) div 8 < 2 ^ 32" by simp
  with b have fields: "readU32 (pwgHeader ?h @ r) 372 = Some (im_width img)" "readU32 (pwgHeader ?h @ r) 376 = Some (im_height img)"
      "readU32 (pwgHeader ?h @ r) 388 = Some (TYPE_bpp ty)" "readU32 (pwgHeader ?h @ r) 392 = Some (row_len img)" for r
    using pwgHeader_fields [of ?h r] f(3) by (simp_all add: header_of_def)
  show ?thesis
    using packPage_decodes(1) [OF f(1), of rest] f(2) assms(4)
    by (simp add: fields page_entry_def Let_def)
qed

lemma both_writes_Inr: "both_writes mx out a b = Inr out' \<Longrightarrow> out' = out @ a @ b \<and> length out' \<le> mx"
  by (auto simp: both_writes_def sink_write_def split: if_splits)

lemma page_loop_reads:
  assumes "page_loop render p ty duplex mx n i pages out = Inr res" "honours_gray render" "ty \<in> set RASTER_TYPES"
    "pp_format p = ''image/pwg-raster''" "length out \<le> mx"
  shows "\<exists>imgs tail. page_images render p ty duplex i pages = Inr imgs \<and> res = out @ tail \<and> length res \<le> mx \<and>
           read_pwg (length pages) tail = Some (map page_entry imgs)"
  using assms(1,5)
proof (induction pages arbitrary: i out)
  case (Cons page pages)
  let ?H = "\<lambda>img. pwgHeader (header_of p ty duplex n i img)"
  from Cons.prems obtain img out' where s: "page_image render p ty duplex i page = Inr img"
      "both_writes mx out (?H img) (packPage img) = Inr out'" "page_loop render p ty duplex mx n (i + 1) pages out' = Inr res"
    using assms(4) by (auto simp: Let_def split: sum.split_asm)
  note w = both_writes_Inr [OF s(2)]
  from Cons.IH [OF s(3)] w obtain imgs tail where ih: "page_images render p ty duplex (i + 1) pages = Inr imgs" "res = out' @ tail"
      "length res \<le> mx" "read_pwg (length pages) tail = Some (map page_entry imgs)" by blast
  have "read_pwg (length (page # pages)) (?H img @ packPage img @ tail) = Some (map page_entry (img # imgs))"
    using read_pwg_page [OF s(1) assms(2,3) ih(4), of n] by (simp del: read_pwg.simps)
  with ih s(1) w show ?case
    by (intro exI [of _ "img # imgs"] exI [of _ "?H img @ packPage img @ tail"]) (simp del: read_pwg.simps)
qed simp

lemma convert_pwg:
  assumes "pp_format p = ''image/pwg-raster''" "0 < mx"
  shows "convert True jpeg render p duplex mx pages =
           (if pages = [] then Inl ''convert_failed''
            else case sink_write mx [] (map char_byte ''RaS2'') of
              Inl e \<Rightarrow> Inl e
            | Inr o1 \<Rightarrow> map_sum (\<lambda>e. e) Raster (page_loop render p (pp_type p) duplex mx (length pages) 0 pages o1))"
proof -
  have "''image/pwg-raster'' \<noteq> ''image/jpeg''" "''image/pwg-raster'' \<noteq> ''image/urf''" by simp_all
  with assms show ?thesis by (simp only: convert_def Let_def length_0_conv if_False if_True simp_thms) simp
qed

text \<open>
  C13. A converted PWG raster file is within the size limit and decodes, from its own headers, to
  exactly the sheets: as many pages as the document has, each with the size of the paper at the
  chosen resolution and the lines of the page as it was rendered, placed and turned.
\<close>

theorem converted_file_decodes:
  assumes "convert True jpeg render p duplex mx pages = Inr (Raster out)" "0 < mx" "pp_format p = ''image/pwg-raster''"
    "pp_type p \<in> set RASTER_TYPES" "honours_gray render"
  shows "\<exists>imgs. page_images render p (pp_type p) duplex 0 pages = Inr imgs \<and> length out \<le> mx \<and>
           take 4 out = map char_byte ''RaS2'' \<and> read_pwg (length pages) (drop 4 out) = Some (map page_entry imgs) \<and>
           map (\<lambda>img. (im_width img, im_height img)) imgs =
             replicate (length pages) (px (pp_dpi p) (md_w (pp_media p)), px (pp_dpi p) (md_h (pp_media p)))"
proof -
  let ?W = "px (pp_dpi p) (md_w (pp_media p))" and ?H = "px (pp_dpi p) (md_h (pp_media p))"
  have l: "length (map char_byte ''RaS2'') = 4" by simp
  have "(case sink_write mx [] (map char_byte ''RaS2'') of
           Inl e \<Rightarrow> Inl e
         | Inr o1 \<Rightarrow> map_sum (\<lambda>e. e) Raster (page_loop render p (pp_type p) duplex mx (length pages) 0 pages o1)) = Inr (Raster out)"
    using assms(1) convert_pwg [OF assms(3,2), of jpeg render duplex pages] by (auto split: if_split_asm simp del: list.map)
  then have s: "4 \<le> mx" and loop: "page_loop render p (pp_type p) duplex mx (length pages) 0 pages (map char_byte ''RaS2'') = Inr out"
    unfolding sink_write_def append_Nil l list.size by (auto simp: map_sum_Inr split: if_split_asm simp del: list.map)
  note ty = assms(4)
  obtain imgs tail where r: "page_images render p (pp_type p) duplex 0 pages = Inr imgs" "out = map char_byte ''RaS2'' @ tail"
      "length out \<le> mx" "read_pwg (length pages) tail = Some (map page_entry imgs)"
    using page_loop_reads [OF loop assms(5) ty assms(3)] s by auto
  have "map (\<lambda>img. (im_width img, im_height img)) imgs = replicate (length pages) (?W, ?H)"
    if "page_images render p (pp_type p) duplex i pages = Inr imgs" for i imgs
    using that
  proof (induction pages arbitrary: i imgs)
    case (Cons page pages)
    then obtain img rest where "page_image render p (pp_type p) duplex i page = Inr img" "imgs = img # rest"
        "page_images render p (pp_type p) duplex (i + 1) pages = Inr rest"
      by (auto split: sum.split_asm dest!: map_sum_Inr [THEN iffD1])
    with Cons.IH [OF this(3)] page_image_form(4,5) [OF this(1) assms(5) ty] show ?case by (simp add: layout_W layout_H)
  qed simp
  from this [OF r(1)] r show ?thesis by (intro exI [of _ imgs]) simp
qed

definition white_page :: renderer where
  "white_page n rw rh gray =
     Inr (map char_byte (if gray then ''P5 '' else ''P6 '') @ map char_byte (dec_string rw) @ [0x20] @ map char_byte (dec_string rh) @
          map char_byte '' 255'' @ [0x0a] @ replicate (rw * rh * (if gray then 1 else 3)) 0xff)"

definition small_plan :: print_plan where
  "small_plan = \<lparr>pp_format = ''image/pwg-raster'', pp_dpi = 72, pp_type = ''sgray_8'', pp_mono = True, pp_back = ''rotated'',
                 pp_media = \<lparr>md_name = ''tiny'', md_w = 3, md_h = 2\<rparr>\<rparr>"

definition small_sheet :: image where
  "small_sheet = \<lparr>im_width = 3, im_height = 2, im_bpp = 1, im_row = None, im_data = replicate 6 0xff\<rparr>"

lemma white_page_gray: "honours_gray white_page"
  by (simp add: honours_gray_def white_page_def char_byte_def)

lemma small_pages:
  "page_image white_page small_plan ''sgray_8'' True 0 (3, 2) = Inr small_sheet"
  "page_image white_page small_plan ''sgray_8'' True 1 (1, 2) = Inr small_sheet"
  "length (packPage small_sheet) = 3"
  by code_simp+

theorem converted_file_decodes_witness:
  "\<exists>out. convert True (\<lambda>n. Inl []) white_page small_plan True 10000 [(3, 2), (1, 2)] = Inr (Raster out) \<and>
         map_option (map (apsnd fst)) (read_pwg 2 (drop 4 out)) = Some [(3, 2), (3, 2)]"
proof -
  have p: "pp_format small_plan = ''image/pwg-raster''" "pp_type small_plan = ''sgray_8''" "''sgray_8'' \<in> set RASTER_TYPES"
    by (simp_all add: small_plan_def RASTER_TYPES_def)
  have "\<exists>out. convert True (\<lambda>n. Inl []) white_page small_plan True 10000 [(3, 2), (1, 2)] = Inr (Raster out)"
    using convert_pwg [OF p(1), of 10000 "\<lambda>n. Inl []" white_page True "[(3, 2), (1, 2)]"] small_pages
    by (simp add: p sink_write_def both_writes_def Let_def)
  then obtain out where c: "convert True (\<lambda>n. Inl []) white_page small_plan True 10000 [(3, 2), (1, 2)] = Inr (Raster out)" by blast
  have "px 72 3 = 3" "px 72 2 = 2" by code_simp+
  then have d: "px (pp_dpi small_plan) (md_w (pp_media small_plan)) = 3" "px (pp_dpi small_plan) (md_h (pp_media small_plan)) = 2"
    by (simp_all add: small_plan_def)
  have n: "length [(3, 2), (1, 2) :: rat \<times> rat] = 2" "replicate 2 (3, 2) = [(3, 2), (3, 2) :: nat \<times> nat]"
    by (simp_all add: numeral_2_eq_2)
  have "(0::nat) < 10000" "pp_type small_plan \<in> set RASTER_TYPES" using p by simp_all
  from converted_file_decodes [OF c this(1) p(1) this(2) white_page_gray, unfolded d n]
  obtain imgs where i: "read_pwg 2 (drop 4 out) = Some (map page_entry imgs)"
      "map (\<lambda>img. (im_width img, im_height img)) imgs = [(3, 2), (3, 2)]"
    by (elim exE conjE) (rule that)
  have "map (apsnd fst \<circ> page_entry) imgs = map (\<lambda>img. (im_width img, im_height img)) imgs" by (simp add: page_entry_def)
  then have "map_option (map (apsnd fst)) (read_pwg 2 (drop 4 out)) = Some [(3, 2), (3, 2)]"
    unfolding i(1) option.map map_map i(2) by simp
  with c show ?thesis by (intro exI [of _ out] conjI)
qed

end
