(* ===== verification/Camera_Fmp4.thy ===== *)
theory Camera_Fmp4
  imports Js_Values
begin

text \<open>
  Fragmented MP4 of the cameras (\<open>src/src/cameras/fmp4.js\<close>): reading boxes, track data of the init
  segment, moving the times of a segment and adding the total duration to the init segment.
  Exceptions of any kind are \<open>None\<close>. Times are unsigned 64-bit numbers as in the code's \<open>BigInt\<close>.
\<close>

section \<open>Boxes\<close>

record box =
  bx_type :: string
  bx_start :: nat
  bx_size :: nat
  bx_body :: nat

definition bx_end :: "box \<Rightarrow> nat" where
  "bx_end b = bx_start b + bx_size b"

definition readU64 :: "bytes \<Rightarrow> nat \<Rightarrow> nat option" where
  "readU64 buf off =
     do {
       hi \<leftarrow> readU32 buf off;
       lo \<leftarrow> readU32 buf (off + 4);
       Some (hi * 2 ^ 32 + lo)
     }"

text \<open>Size and length of the header of the box at \<open>s\<close>.\<close>

definition box_size :: "bytes \<Rightarrow> nat \<Rightarrow> nat \<Rightarrow> (nat \<times> nat) option" where
  "box_size buf s e =
     do {
       sz \<leftarrow> readU32 buf s;
       if sz = 1 then
         (if e < s + 16 then None
          else do { big \<leftarrow> readU64 buf (s + 8); if e - s < big then None else Some (big, 16) })
       else if sz = 0 then Some (e - s, 8)
       else Some (sz, 8)
     }"

definition box_at :: "bytes \<Rightarrow> nat \<Rightarrow> nat \<Rightarrow> box option" where
  "box_at buf s e =
     do {
       (sz, head) \<leftarrow> box_size buf s e;
       if sz < head \<or> e < s + sz then None
       else Some \<lparr>bx_type = map byte_char (subarray buf (s + 4) (s + 8)), bx_start = s, bx_size = sz, bx_body = s + head\<rparr>
     }"

lemma box_at_bounds:
  assumes "box_at buf s e = Some b"
  shows "bx_start b = s \<and> s + 8 \<le> bx_body b \<and> bx_body b \<le> s + bx_size b \<and> s + bx_size b \<le> e \<and> 0 < bx_size b"
  using assms by (auto simp: box_at_def box_size_def bind_eq_Some_conv split: if_splits)

function boxes :: "bytes \<Rightarrow> nat \<Rightarrow> nat \<Rightarrow> box list option" where
  "boxes buf s e =
     (if s + 8 \<le> e then
        (case box_at buf s e of
           None \<Rightarrow> None
         | Some b \<Rightarrow> map_option ((#) b) (boxes buf (s + bx_size b) e))
      else Some [])"
  by pat_completeness auto
termination by (relation "measure (\<lambda>(buf, s, e). e - s)") (auto dest: box_at_bounds)

declare boxes.simps [simp del]

definition box_named :: "string \<Rightarrow> box list \<Rightarrow> box option" where
  "box_named ty bs = find (\<lambda>b. bx_type b = ty) bs"

definition children :: "bytes \<Rightarrow> box \<Rightarrow> box list option" where
  "children buf b = boxes buf (bx_body b) (bx_end b)"

text \<open>\<open>childOf\<close>: the outer \<open>None\<close> is an exception, the inner one a missing child.\<close>

definition childOf :: "bytes \<Rightarrow> box \<Rightarrow> string \<Rightarrow> box option option" where
  "childOf buf b ty = map_option (box_named ty) (children buf b)"

section \<open>The init segment\<close>

definition byte_or_none :: "bytes \<Rightarrow> nat \<Rightarrow> byte option" where
  "byte_or_none buf i = (if i < length buf then Some (buf ! i) else None)"

definition timescaleOf :: "bytes \<Rightarrow> box \<Rightarrow> nat option" where
  "timescaleOf buf b = readU32 buf (bx_body b + (if byte_or_none buf (bx_body b) = Some 1 then 20 else 12))"

definition hex_nibble :: "nat \<Rightarrow> char" where
  "hex_nibble n = ''0123456789abcdef'' ! n"

text \<open>\<open>hex2(buf[i])\<close>; past the end \<open>undefined.toString\<close> throws.\<close>

definition hex2 :: "bytes \<Rightarrow> nat \<Rightarrow> string option" where
  "hex2 buf i = map_option (\<lambda>b. [hex_nibble (unat b div 16), hex_nibble (unat b mod 16)]) (byte_or_none buf i)"

text \<open>A byte in a bit operation or a template: past the end it is 0 or \<open>undefined\<close>.\<close>

definition avc_codec :: "bytes \<Rightarrow> box \<Rightarrow> string option" where
  "avc_codec buf e =
     do {
       kids \<leftarrow> boxes buf (bx_body e + 78) (bx_end e);
       case box_named ''avcC'' kids of
         None \<Rightarrow> Some (bx_type e)
       | Some c \<Rightarrow>
           do {
             a \<leftarrow> hex2 buf (bx_body c + 1);
             b \<leftarrow> hex2 buf (bx_body c + 2);
             d \<leftarrow> hex2 buf (bx_body c + 3);
             Some (bx_type e @ ''.'' @ a @ b @ d)
           }
     }"

definition hevc_codec :: "bytes \<Rightarrow> box \<Rightarrow> string option" where
  "hevc_codec buf e =
     do {
       kids \<leftarrow> boxes buf (bx_body e + 78) (bx_end e);
       case box_named ''hvcC'' kids of
         None \<Rightarrow> Some (bx_type e)
       | Some c \<Rightarrow>
           let p = (case byte_or_none buf (bx_body c + 1) of Some x \<Rightarrow> unat x | None \<Rightarrow> 0);
               level = (case byte_or_none buf (bx_body c + 12) of Some x \<Rightarrow> dec_string (unat x) | None \<Rightarrow> ''undefined'')
           in Some (bx_type e @ ''.'' @ dec_string (p mod 32) @ ''.6.'' @ (if odd (p div 32) then ''H'' else ''L'') @ level @ ''.B0'')
     }"

definition codecOf :: "bytes \<Rightarrow> box \<Rightarrow> string option option" where
  "codecOf buf stsd =
     do {
       entries \<leftarrow> boxes buf (bx_body stsd + 8) (bx_end stsd);
       case entries of
         [] \<Rightarrow> Some None
       | e # _ \<Rightarrow>
           if bx_type e = ''avc1'' \<or> bx_type e = ''avc3'' then map_option Some (avc_codec buf e)
           else if bx_type e = ''hvc1'' \<or> bx_type e = ''hev1'' then map_option Some (hevc_codec buf e)
           else if bx_type e = ''mp4a'' then Some (Some ''mp4a.40.2'')
           else Some (Some (bx_type e))
     }"

record mp4_track =
  tk_id :: nat
  tk_timescale :: "nat option"
  tk_handler :: "string option"
  tk_codec :: "string option"

definition on_child :: "(box \<Rightarrow> 'a option option) \<Rightarrow> bytes \<Rightarrow> box option \<Rightarrow> string \<Rightarrow> 'a option option" where
  "on_child f buf parent ty =
     (case parent of
        None \<Rightarrow> Some None
      | Some p \<Rightarrow> do { c \<leftarrow> childOf buf p ty; case c of None \<Rightarrow> Some None | Some b \<Rightarrow> f b })"

definition track_of :: "bytes \<Rightarrow> box \<Rightarrow> mp4_track option option" where
  "track_of buf trak =
     do {
       tkhd \<leftarrow> childOf buf trak ''tkhd'';
       mdia \<leftarrow> childOf buf trak ''mdia'';
       case (tkhd, mdia) of
         (Some h, Some m) \<Rightarrow>
           do {
             i \<leftarrow> readU32 buf (bx_body h + (if byte_or_none buf (bx_body h) = Some 1 then 20 else 12));
             ts \<leftarrow> on_child (\<lambda>b. map_option Some (timescaleOf buf b)) buf (Some m) ''mdhd'';
             hd1 \<leftarrow> on_child (\<lambda>b. Some (Some (map byte_char (subarray buf (bx_body b + 8) (bx_body b + 12))))) buf (Some m) ''hdlr'';
             minf \<leftarrow> childOf buf m ''minf'';
             stbl \<leftarrow> on_child (\<lambda>b. Some (Some b)) buf minf ''stbl'';
             codec \<leftarrow> on_child (codecOf buf) buf stbl ''stsd'';
             Some (Some \<lparr>tk_id = i, tk_timescale = ts, tk_handler = hd1, tk_codec = codec\<rparr>)
           }
       | _ \<Rightarrow> Some None
     }"

fun collect_all :: "('a \<Rightarrow> 'b list option) \<Rightarrow> 'a list \<Rightarrow> 'b list option" where
  "collect_all f [] = Some []"
| "collect_all f (x # xs) = do { y \<leftarrow> f x; ys \<leftarrow> collect_all f xs; Some (y @ ys) }"

definition opt_list :: "'a option \<Rightarrow> 'a list" where
  "opt_list x = (case x of None \<Rightarrow> [] | Some y \<Rightarrow> [y])"

definition initInfo :: "bytes \<Rightarrow> (nat \<times> mp4_track list) option" where
  "initInfo buf =
     do {
       top \<leftarrow> boxes buf 0 (length buf);
       moov \<leftarrow> box_named ''moov'' top;
       mvhd \<leftarrow> childOf buf moov ''mvhd'';
       kids \<leftarrow> children buf moov;
       tracks \<leftarrow> collect_all (\<lambda>t. map_option opt_list (track_of buf t)) (filter (\<lambda>b. bx_type b = ''trak'') kids);
       scale \<leftarrow> (case mvhd of None \<Rightarrow> Some 1000 | Some b \<Rightarrow> timescaleOf buf b);
       Some (scale, tracks)
     }"

definition codecsString :: "mp4_track list \<Rightarrow> string" where
  "codecsString tracks =
     (case filter (\<lambda>s. s \<noteq> []) (List.map_filter tk_codec tracks) of
        [] \<Rightarrow> []
      | c # cs \<Rightarrow> c @ concat (map (\<lambda>s. '', '' @ s) cs))"

section \<open>Times of a segment\<close>

record tfdt =
  td_trackId :: nat
  td_offset :: nat
  td_version :: byte
  td_value :: nat

definition tfdt_of :: "bytes \<Rightarrow> box \<Rightarrow> tfdt list option" where
  "tfdt_of buf traf =
     do {
       tfhd \<leftarrow> childOf buf traf ''tfhd'';
       tfdt \<leftarrow> childOf buf traf ''tfdt'';
       case (tfhd, tfdt) of
         (Some h, Some t) \<Rightarrow>
           let off = bx_body t + 4; v = byte_or_none buf (bx_body t)
           in do {
                val \<leftarrow> (if v = Some 1 then readU64 buf off else readU32 buf off);
                i \<leftarrow> readU32 buf (bx_body h + 4);
                Some [\<lparr>td_trackId = i, td_offset = off, td_version = (case v of Some x \<Rightarrow> x | None \<Rightarrow> 0), td_value = val\<rparr>]
              }
       | _ \<Rightarrow> Some []
     }"

definition trafs_of :: "bytes \<Rightarrow> box \<Rightarrow> tfdt list option" where
  "trafs_of buf moof =
     do {
       kids \<leftarrow> children buf moof;
       collect_all (tfdt_of buf) (filter (\<lambda>b. bx_type b = ''traf'') kids)
     }"

definition tfdtsOf :: "bytes \<Rightarrow> tfdt list option" where
  "tfdtsOf buf =
     do {
       top \<leftarrow> boxes buf 0 (length buf);
       collect_all (trafs_of buf) (filter (\<lambda>b. bx_type b = ''moof'') top)
     }"

definition first_time :: "(nat, nat) jsmap \<Rightarrow> tfdt \<Rightarrow> (nat, nat) jsmap" where
  "first_time m t = (if map_of m (td_trackId t) = None then mset_at (td_trackId t) (td_value t) m else m)"

definition firstTimes :: "bytes \<Rightarrow> (nat, nat) jsmap option" where
  "firstTimes buf = map_option (foldl first_time []) (tfdtsOf buf)"

definition overwrite_at :: "bytes \<Rightarrow> nat \<Rightarrow> bytes \<Rightarrow> bytes" where
  "overwrite_at buf off new = take off buf @ new @ drop (off + length new) buf"

definition word_bytes :: "nat \<Rightarrow> bytes" where
  "word_bytes v = [byte_of (v div 16777216), byte_of (v div 65536), byte_of (v div 256), byte_of v]"

definition long_bytes :: "nat \<Rightarrow> bytes" where
  "long_bytes v = word_bytes (v div 2 ^ 32) @ word_bytes (v mod 2 ^ 32)"

text \<open>\<open>Number(v & 0xffffffffn)\<close> are the lower four bytes.\<close>

definition set_time :: "tfdt \<Rightarrow> nat \<Rightarrow> bytes \<Rightarrow> bytes" where
  "set_time t v buf = overwrite_at buf (td_offset t) (if td_version t = 1 then long_bytes v else word_bytes (v mod 2 ^ 32))"

definition rebase_one :: "(nat, nat) jsmap \<Rightarrow> bytes \<Rightarrow> tfdt \<Rightarrow> bytes" where
  "rebase_one base buf t = (case map_of base (td_trackId t) of None \<Rightarrow> buf | Some b \<Rightarrow> set_time t (td_value t - b) buf)"

definition box_bytes :: "bytes \<Rightarrow> box \<Rightarrow> bytes" where
  "box_bytes buf b = subarray buf (bx_start b) (bx_end b)"

definition without_index :: "bytes \<Rightarrow> bytes option" where
  "without_index buf =
     map_option (\<lambda>bs. concat (map (box_bytes buf) (filter (\<lambda>b. bx_type b \<noteq> ''styp'' \<and> bx_type b \<noteq> ''sidx'') bs)))
       (boxes buf 0 (length buf))"

definition rebase :: "bytes \<Rightarrow> (nat, nat) jsmap \<Rightarrow> bytes option" where
  "rebase buf base =
     do {
       out \<leftarrow> without_index buf;
       ts \<leftarrow> tfdtsOf out;
       Some (foldl (rebase_one base) out ts)
     }"

section \<open>The duration in the init segment\<close>

definition boxed :: "string \<Rightarrow> bytes \<Rightarrow> bytes" where
  "boxed ty body = word_bytes (length body + 8) @ map char_byte ty @ body"

definition withMehd :: "bytes \<Rightarrow> nat \<Rightarrow> (bytes \<times> nat) option" where
  "withMehd init ticks =
     do {
       top \<leftarrow> boxes init 0 (length init);
       moov \<leftarrow> box_named ''moov'' top;
       if bx_body moov - bx_start moov \<noteq> 8 then None
       else do {
         inner \<leftarrow> children init moov;
         mvex \<leftarrow> box_named ''mvex'' inner;
         if bx_body mvex - bx_start mvex \<noteq> 8 \<or> 2 ^ 64 \<le> ticks then None
         else do {
           kids \<leftarrow> children init mvex;
           let mehd = boxed ''mehd'' ([1, 0, 0, 0] @ long_bytes ticks);
           let newMvex = boxed ''mvex'' (mehd @ concat (map (box_bytes init) (filter (\<lambda>b. bx_type b \<noteq> ''mehd'') kids)));
           let newMoov = boxed ''moov'' (concat (map (\<lambda>b. if b = mvex then newMvex else box_bytes init b) inner));
           let before = concat (map (box_bytes init) (filter (\<lambda>b. bx_start b < bx_start moov) top));
           let after = concat (map (box_bytes init) (filter (\<lambda>b. bx_start moov < bx_start b) top));
           let off = length before + 8 + sum_list (map bx_size (takeWhile (\<lambda>b. b \<noteq> mvex) inner)) + 8 + 12;
           if 2 ^ 32 \<le> length newMoov then None else Some (before @ newMoov @ after, off)
         }
       }
     }"

section \<open>Reading boxes from a part of a buffer\<close>

definition embeds :: "bytes \<Rightarrow> nat \<Rightarrow> bytes \<Rightarrow> bool" where
  "embeds buf k x = (\<exists>p q. buf = p @ x @ q \<and> length p = k)"

definition shift :: "nat \<Rightarrow> box \<Rightarrow> box" where
  "shift k b = b\<lparr>bx_start := k + bx_start b, bx_body := k + bx_body b\<rparr>"

lemma shift_simps [simp]:
  "bx_type (shift k b) = bx_type b" "bx_size (shift k b) = bx_size b" "bx_start (shift k b) = k + bx_start b"
  "bx_body (shift k b) = k + bx_body b" "bx_end (shift k b) = k + bx_end b" "shift 0 b = b" "shift k (shift j b) = shift (k + j) b"
  by (simp_all add: shift_def bx_end_def add.assoc)

lemma embeds_middle: "embeds (p @ x @ q) (length p) x"
  by (auto simp: embeds_def)

lemma embeds_read32: "embeds buf k x \<Longrightarrow> s + 4 \<le> length x \<Longrightarrow> readU32 buf (k + s) = readU32 x s"
  by (auto simp: embeds_def readU32_skip readU32_append)

lemma embeds_read64: "embeds buf k x \<Longrightarrow> s + 8 \<le> length x \<Longrightarrow> readU64 buf (k + s) = readU64 x s"
  using embeds_read32 [of buf k x "s + 4"] by (simp add: readU64_def embeds_read32 add.assoc)

lemma embeds_subarray: "embeds buf k x \<Longrightarrow> e \<le> length x \<Longrightarrow> subarray buf (k + s) (k + e) = subarray x s e"
  by (cases "s \<le> e") (auto simp: embeds_def subarray_def)

lemma box_at_shift:
  assumes "embeds buf k x" "s + 8 \<le> e" "e \<le> length x"
  shows "box_at buf (k + s) (k + e) = map_option (shift k) (box_at x s e)"
proof -
  have r: "readU32 buf (k + s) = readU32 x s" using embeds_read32 [OF assms(1)] assms by simp
  have t: "subarray buf (k + s + 4) (k + s + 8) = subarray x (s + 4) (s + 8)"
    using embeds_subarray [OF assms(1), of "s + 8" "s + 4"] assms by (simp add: add.assoc)
  have "readU64 buf (k + s + 8) = readU64 x (s + 8)" if "s + 16 \<le> e"
    using embeds_read64 [OF assms(1), of "s + 8"] assms that by (simp add: add.assoc)
  then have "box_size buf (k + s) (k + e) = box_size x s e"
    by (cases "readU32 x s") (auto simp: box_size_def r)
  then show ?thesis
    by (auto simp: box_at_def t shift_def split: bind_splits)
qed

lemma boxes_shift:
  assumes "embeds buf k x" "e \<le> length x"
  shows "boxes buf (k + s) (k + e) = map_option (map (shift k)) (boxes x s e)"
  using assms(2)
proof (induction "e - s" arbitrary: s rule: less_induct)
  case less
  show ?case
  proof (cases "s + 8 \<le> e")
    case True
    note b = box_at_shift [OF assms(1) True less.prems]
    show ?thesis
    proof (cases "box_at x s e")
      case None
      with b True show ?thesis by (simp add: boxes.simps)
    next
      case (Some c)
      have "e - (s + bx_size c) < e - s" using box_at_bounds [OF Some] by linarith
      with less.hyps [of "s + bx_size c"] less.prems
      have "boxes buf (k + (s + bx_size c)) (k + e) = map_option (map (shift k)) (boxes x (s + bx_size c) e)" by simp
      with Some b True show ?thesis
        by (subst (1 2) boxes.simps) (simp add: add.assoc option.map_comp comp_def)
    qed
  qed (simp add: boxes.simps)
qed

section \<open>Boxes one after the other\<close>

text \<open>A byte string that is one box with its size written in the header.\<close>

definition is_box :: "bytes \<Rightarrow> box \<Rightarrow> bool" where
  "is_box x b = (box_at x 0 (length x) = Some b \<and> bx_size b = length x \<and> readU32 x 0 \<noteq> Some 0)"

lemma is_box_append:
  assumes "is_box x b"
  shows "box_at (x @ y) 0 (length (x @ y)) = Some b"
proof -
  from assms obtain sz where sz: "readU32 x 0 = Some sz" "sz \<noteq> 0" and x: "8 \<le> length x" "box_at x 0 (length x) = Some b" "bx_size b = length x"
    using box_at_bounds [of x 0 "length x" b] by (auto simp: is_box_def box_at_def box_size_def bind_eq_Some_conv)
  have r: "readU32 (x @ y) 0 = Some sz" using sz x(1) by (simp add: readU32_append)
  have t: "subarray (x @ y) 4 8 = subarray x 4 8" using x(1) by (simp add: subarray_def)
  show ?thesis
  proof (cases "sz = 1")
    case True
    with x sz obtain big where big: "readU64 x 8 = Some big" "16 \<le> length x" "big = length x"
      by (auto simp: box_at_def box_size_def bind_eq_Some_conv split: if_splits)
    then have "readU64 (x @ y) 8 = Some big" by (simp add: readU64_def readU32_append)
    with x sz True r t big show ?thesis by (simp add: box_at_def box_size_def)
  next
    case False
    with x sz r t show ?thesis by (auto simp: box_at_def box_size_def split: if_splits)
  qed
qed

fun place :: "nat \<Rightarrow> box list \<Rightarrow> box list" where
  "place k [] = []"
| "place k (b # bs) = shift k b # place (k + bx_size b) bs"

lemma shift_place: "map (shift j) (place k bs) = place (j + k) bs"
  by (induction bs arbitrary: k) (auto simp: add.assoc)

lemma boxes_cons:
  assumes "is_box x b"
  shows "boxes (x @ y) 0 (length (x @ y)) = map_option (\<lambda>bs. b # map (shift (length x)) bs) (boxes y 0 (length y))"
proof -
  have l: "8 \<le> length x" "bx_size b = length x" using assms box_at_bounds [of x 0 "length x" b] by (auto simp: is_box_def)
  have "boxes (x @ y) (length x + 0) (length x + length y) = map_option (map (shift (length x))) (boxes y 0 (length y))"
    by (rule boxes_shift [OF embeds_middle [of x y "[]", simplified]]) simp
  then show ?thesis using is_box_append [OF assms, of y] l
    by (subst boxes.simps) (simp add: option.map_comp comp_def)
qed

lemma boxes_concat: "list_all2 is_box xs bs \<Longrightarrow> boxes (concat xs) 0 (length (concat xs)) = Some (place 0 bs)"
proof (induction xs bs rule: list_all2_induct)
  case Nil
  then show ?case by (simp add: boxes.simps)
next
  case (Cons x xs b bs)
  then show ?case using boxes_cons [OF Cons(1), of "concat xs"] by (simp add: shift_place is_box_def)
qed

lemma length_word_bytes [simp]: "length (word_bytes v) = 4" "length (long_bytes v) = 8"
  by (simp_all add: word_bytes_def long_bytes_def)

lemma readU32_word_bytes: "v < 2 ^ 32 \<Longrightarrow> readU32 (word_bytes v @ r) 0 = Some v"
  using readU32_u32 [of v "word_bytes v" r] by (simp add: u32_def word_bytes_def)

lemma readU64_long_bytes:
  assumes "v < 2 ^ 64"
  shows "readU64 (long_bytes v @ r) 0 = Some v"
proof -
  have "v div 2 ^ 32 < 2 ^ 32" using assms by (simp add: less_mult_imp_div_less)
  then have "readU32 (long_bytes v @ r) 0 = Some (v div 2 ^ 32)"
    using readU32_word_bytes [of "v div 2 ^ 32" "word_bytes (v mod 2 ^ 32) @ r"] by (simp add: long_bytes_def)
  moreover have "readU32 (long_bytes v @ r) 4 = Some (v mod 2 ^ 32)"
    using readU32_skip [of "word_bytes (v div 2 ^ 32)" 4 "word_bytes (v mod 2 ^ 32) @ r"] readU32_word_bytes [of "v mod 2 ^ 32" r]
    by (simp add: long_bytes_def)
  ultimately show ?thesis by (simp add: readU64_def)
qed

lemma subarray_split: "s \<le> e \<Longrightarrow> take s buf @ subarray buf s e @ drop e buf = buf"
proof -
  assume "s \<le> e"
  then have "drop e buf = drop (e - s) (drop s buf)" by simp
  then show ?thesis unfolding subarray_def by (metis append_take_drop_id)
qed

lemma boxed_is_box:
  assumes "length ty = 4" "length body + 8 < 2 ^ 32" 
  shows "is_box (boxed ty body) \<lparr>bx_type = ty, bx_start = 0, bx_size = length body + 8, bx_body = 8\<rparr>"
proof -
  have "readU32 (boxed ty body) 0 = Some (length body + 8)"
    using readU32_word_bytes [OF assms(2)] by (simp add: boxed_def)
  moreover have "map byte_char (subarray (boxed ty body) 4 8) = ty"
    using assms(1) by (simp add: boxed_def subarray_def comp_def)
  moreover have "length (boxed ty body) = length body + 8" using assms(1) by (simp add: boxed_def)
  ultimately show ?thesis by (simp add: is_box_def box_at_def box_size_def)
qed

text \<open>A box of a buffer, cut out, is that box moved to the front.\<close>

definition front :: "box \<Rightarrow> box" where
  "front b = b\<lparr>bx_start := 0, bx_body := bx_body b - bx_start b\<rparr>"

lemma front_simps [simp]: "bx_type (front b) = bx_type b" "bx_size (front b) = bx_size b"
  by (simp_all add: front_def)

definition sized :: "bytes \<Rightarrow> box \<Rightarrow> bool" where
  "sized buf b = (readU32 buf (bx_start b) \<noteq> Some 0)"

lemma boxes_step:
  assumes "boxes buf s e = Some bs" "b \<in> set bs"
  shows "box_at buf (bx_start b) e = Some b \<and> s \<le> bx_start b \<and> bx_end b \<le> e \<and> bx_start b + 8 \<le> bx_body b \<and> bx_body b \<le> bx_end b"
  using assms
proof (induction "e - s" arbitrary: s bs rule: less_induct)
  case less
  then obtain c cs where c: "s + 8 \<le> e" "box_at buf s e = Some c" "boxes buf (s + bx_size c) e = Some cs" "bs = c # cs"
    by (subst (asm) (2) boxes.simps) (auto split: if_split_asm option.split_asm)
  note bd = box_at_bounds [OF c(2)]
  show ?case
  proof (cases "b = c")
    case True
    with c bd show ?thesis by (auto simp: bx_end_def)
  next
    case False
    with less.prems c have "b \<in> set cs" by simp
    moreover have "e - (s + bx_size c) < e - s" using bd by linarith
    ultimately show ?thesis using less.hyps [OF _ c(3)] bd by auto
  qed
qed

lemma box_at_shorter:
  assumes "box_at buf s e = Some b" "readU32 buf s \<noteq> Some 0"
  shows "box_at buf s (s + bx_size b) = Some b"
proof -
  obtain sz head where h: "box_size buf s e = Some (sz, head)" "head \<le> sz" "s + sz \<le> e"
      "b = \<lparr>bx_type = map byte_char (subarray buf (s + 4) (s + 8)), bx_start = s, bx_size = sz, bx_body = s + head\<rparr>"
    using assms(1) by (auto simp: box_at_def bind_eq_Some_conv not_less split: if_splits)
  obtain n where n: "readU32 buf s = Some n" "n \<noteq> 0" using assms(2) h(1) by (auto simp: box_size_def bind_eq_Some_conv)
  have "box_size buf s (s + sz) = Some (sz, head)"
    using h(1-3) n by (cases "n = 1") (auto simp: box_size_def bind_eq_Some_conv split: if_splits)
  with h(2,4) show ?thesis by (simp add: box_at_def)
qed

lemma box_bytes_is_box:
  assumes "box_at buf (bx_start b) e = Some b" "e \<le> length buf" "sized buf b"
  shows "is_box (box_bytes buf b) (front b)"
proof -
  let ?x = "box_bytes buf b" and ?s = "bx_start b"
  note bd = box_at_bounds [OF assms(1)]
  have len: "length ?x = bx_size b" using bd assms(2) by (simp add: box_bytes_def bx_end_def)
  have em: "embeds buf ?s ?x"
    unfolding embeds_def using bd assms(2) subarray_split [of ?s "bx_end b" buf]
    by (intro exI [of _ "take ?s buf"] exI [of _ "drop (bx_end b) buf"]) (simp add: box_bytes_def bx_end_def)
  have r: "readU32 buf ?s = readU32 ?x 0" using embeds_read32 [OF em, of 0] bd len by simp
  have "box_at buf (?s + 0) (?s + bx_size b) = map_option (shift ?s) (box_at ?x 0 (bx_size b))"
    by (rule box_at_shift [OF em]) (use bd len in auto)
  moreover have "box_at buf ?s (?s + bx_size b) = Some b"
    using box_at_shorter [OF assms(1)] assms(3) by (simp add: sized_def)
  ultimately obtain c where c: "box_at ?x 0 (bx_size b) = Some c" "b = shift ?s c"
    by (metis add_0_right map_option_eq_Some)
  then have "bx_start c = 0" using box_at_bounds by blast
  then have "front b = c" using arg_cong [OF c(2), of front] by (cases c) (simp add: front_def shift_def)
  with c len r assms(3) show ?thesis by (auto simp: is_box_def sized_def)
qed

section \<open>The duration is where it is said to be\<close>

lemma boxes_sorted:
  assumes "boxes buf s e = Some bs"
  shows "sorted_wrt (\<lambda>a b. bx_end a \<le> bx_start b) bs"
  using assms
proof (induction "e - s" arbitrary: s bs rule: less_induct)
  case less
  show ?case
  proof (cases bs)
    case (Cons c cs)
    with less.prems have c: "s + 8 \<le> e" "box_at buf s e = Some c" "boxes buf (s + bx_size c) e = Some cs"
      by (subst (asm) boxes.simps, simp split: if_split_asm option.split_asm)+
    note bd = box_at_bounds [OF c(2)]
    have "bx_end c \<le> bx_start b" if "b \<in> set cs" for b
      using boxes_step [OF c(3) that] bd by (simp add: bx_end_def)
    moreover have "e - (s + bx_size c) < e - s" using bd by linarith
    ultimately show ?thesis using less.hyps [OF _ c(3)] Cons by simp
  qed simp
qed

lemma split_first:
  assumes "boxes buf s e = Some bs" "box_named ty bs = Some b"
  obtains as cs where "bs = as @ b # cs" "bx_type b = ty" "\<And>a. a \<in> set as \<Longrightarrow> bx_type a \<noteq> ty"
    "filter (\<lambda>x. bx_start x < bx_start b) bs = as" "filter (\<lambda>x. bx_start b < bx_start x) bs = cs" "b \<notin> set as" "b \<notin> set cs"
proof -
  from assms(2) obtain i where i: "i < length bs" "bx_type (bs ! i) = ty" "b = bs ! i" "\<forall>j<i. bx_type (bs ! j) \<noteq> ty"
    by (auto simp: box_named_def find_Some_iff)
  let ?as = "take i bs" and ?cs = "drop (Suc i) bs"
  have split: "bs = ?as @ b # ?cs" using i(1,3) by (simp add: id_take_nth_drop)
  have srt: "sorted_wrt (\<lambda>a b. bx_end a \<le> bx_start b) (?as @ b # ?cs)" using boxes_sorted [OF assms(1)] split by simp
  have pos: "bx_start x < bx_end x" if "x \<in> set bs" for x using boxes_step [OF assms(1) that] by simp
  have a: "bx_start x < bx_start b" if "x \<in> set ?as" for x
    using srt that pos [of x] by (fastforce simp: sorted_wrt_append dest: in_set_takeD)
  have c: "bx_start b < bx_start x" if "x \<in> set ?cs" for x
    using srt that pos [of b] i by (fastforce simp: sorted_wrt_append)
  have ty: "bx_type x \<noteq> ty" if "x \<in> set ?as" for x
    using that i(4) by (auto simp: in_set_conv_nth)
  have "filter (\<lambda>x. bx_start x < bx_start b) (?as @ b # ?cs) = ?as" using a c by (auto simp: filter_empty_conv filter_id_conv dest: less_asym)
  moreover have "filter (\<lambda>x. bx_start b < bx_start x) (?as @ b # ?cs) = ?cs" using a c by (auto simp: filter_empty_conv filter_id_conv dest: less_asym)
  ultimately show thesis using that [OF split] i ty split a c by (metis less_irrefl)
qed

lemma place_append: "place k (as @ bs) = place k as @ place (k + sum_list (map bx_size as)) bs"
  by (induction as arbitrary: k) (auto simp: add.assoc)

lemma types_place [simp]: "map bx_type (place k bs) = map bx_type bs"
  by (induction bs arbitrary: k) auto

lemma find_append: "find P (as @ bs) = (case find P as of None \<Rightarrow> find P bs | Some x \<Rightarrow> Some x)"
  by (induction as) auto

lemma find_place:
  assumes "\<And>a. a \<in> set as \<Longrightarrow> bx_type a \<noteq> ty" "bx_type b = ty"
  shows "box_named ty (place k (as @ b # cs)) = Some (shift (k + sum_list (map bx_size as)) b)"
proof -
  have "find (\<lambda>b. bx_type b = ty) (place k as) = None"
    using assms(1) types_place [of k as] by (metis (mono_tags, lifting) find_None_iff imageE image_eqI set_map)
  then show ?thesis using assms(2) by (simp add: box_named_def place_append find_append)
qed

lemma find_front:
  assumes "\<And>a. a \<in> set as \<Longrightarrow> bx_type a \<noteq> ty" "bx_type b = ty"
  shows "box_named ty (place k (map front as @ b # cs)) = Some (shift (k + sum_list (map bx_size as)) b)"
proof -
  have "map bx_size (map front as) = map bx_size as" by simp
  then show ?thesis using find_place [of "map front as" ty b k cs] assms by (metis front_simps(1) imageE set_map)
qed

lemma length_boxed: "length ty = 4 \<Longrightarrow> length (boxed ty body) = length body + 8"
  by (simp add: boxed_def)

lemma length_boxes:
  "list_all2 is_box (map (box_bytes buf) as) (map front as) \<Longrightarrow> length (concat (map (box_bytes buf) as)) = sum_list (map bx_size as)"
  by (induction as) (auto simp: is_box_def)

lemma boxes_are_boxes:
  assumes "boxes buf s e = Some bs" "e \<le> length buf" "list_all (sized buf) bs" "set as \<subseteq> set bs"
  shows "list_all2 is_box (map (box_bytes buf) as) (map front as)"
proof -
  have b: "is_box (box_bytes buf b) (front b)" if "b \<in> set as" for b
    using box_bytes_is_box [of buf b e] boxes_step [OF assms(1), of b] that assms(2-4) by (auto simp: list_all_iff)
  then show "list_all2 is_box (map (box_bytes buf) as) (map front as)" by (induction as) auto
qed

lemma embeds_trans: "embeds buf k x \<Longrightarrow> embeds x j y \<Longrightarrow> embeds buf (k + j) y"
proof -
  assume "embeds buf k x" "embeds x j y"
  then obtain p q r s where "buf = p @ (r @ y @ s) @ q" "length p = k" "length r = j" by (auto simp: embeds_def)
  then show ?thesis unfolding embeds_def by (intro exI [of _ "p @ r"] exI [of _ "s @ q"]) simp
qed

lemma embeds_concat: "embeds (concat (as @ x # cs)) (length (concat as)) x"
  using embeds_middle [of "concat as" x "concat cs"] by simp

lemma embeds_body: "length ty = 4 \<Longrightarrow> embeds (boxed ty body) 8 body"
  using embeds_middle [of "word_bytes (length body + 8) @ map char_byte ty" body "[]"] by (simp add: boxed_def)

definition header :: "string \<Rightarrow> bytes \<Rightarrow> box" where
  "header ty body = \<lparr>bx_type = ty, bx_start = 0, bx_size = length body + 8, bx_body = 8\<rparr>"

lemma header_type [simp]: "bx_type (header ty body) = ty" and header_size [simp]: "bx_size (header ty body) = length body + 8"
  and header_body [simp]: "bx_body (header ty body) = 8"
  by (simp_all add: header_def)

lemma children_boxed:
  assumes "embeds buf k (boxed ty body)" "length ty = 4" "body = concat xs" "list_all2 is_box xs bs"
  shows "children buf (shift k (header ty body)) = Some (place (k + 8) bs)"
proof -
  have em: "embeds buf (k + 8) body" by (rule embeds_trans [OF assms(1) embeds_body [OF assms(2)]])
  have "boxes buf (k + 8 + 0) (k + 8 + length body) = map_option (map (shift (k + 8))) (boxes body 0 (length body))"
    by (rule boxes_shift [OF em]) simp
  moreover have "bx_end (header ty body) = 8 + length body" by (simp add: bx_end_def header_def)
  ultimately show ?thesis using boxes_concat [OF assms(4)] assms(3) by (simp add: children_def shift_place add.assoc)
qed

lemma list_all2_middle:
  assumes "list_all2 R (map f as) (map g as)" "R y z" "list_all2 R (map f cs) (map g cs)"
  shows "list_all2 R (map f as @ y # map f cs) (map g as @ z # map g cs)"
  using assms by (simp add: list_all2_append)

text \<open>The total duration entry of an init segment.\<close>

definition mehd_of :: "bytes \<Rightarrow> box option" where
  "mehd_of buf =
     do {
       top \<leftarrow> boxes buf 0 (length buf);
       moov \<leftarrow> box_named ''moov'' top;
       inner \<leftarrow> children buf moov;
       mvex \<leftarrow> box_named ''mvex'' inner;
       kids \<leftarrow> children buf mvex;
       box_named ''mehd'' kids
     }"

text \<open>No box that is moved has the size 0 (up to the end of its parent).\<close>

definition explicit_sizes :: "bytes \<Rightarrow> bool" where
  "explicit_sizes buf =
     (case do {
        top \<leftarrow> boxes buf 0 (length buf);
        moov \<leftarrow> box_named ''moov'' top;
        inner \<leftarrow> children buf moov;
        mvex \<leftarrow> box_named ''mvex'' inner;
        kids \<leftarrow> children buf mvex;
        Some (top @ inner @ kids)
      } of None \<Rightarrow> False | Some bs \<Rightarrow> list_all (sized buf) bs)"

lemma mehd_read:
  assumes "ticks < 2 ^ 64" "embeds buf k (boxed ''mehd'' ([1, 0, 0, 0] @ long_bytes ticks))"
  shows "readU64 buf (k + 12) = Some ticks"
proof -
  have "embeds (boxed ''mehd'' ([1, 0, 0, 0] @ long_bytes ticks)) (8 + 4) (long_bytes ticks)"
    by (rule embeds_trans [OF embeds_body]) (use embeds_middle [of "[1, 0, 0, 0]" "long_bytes ticks" "[]"] in \<open>simp_all add: eval_nat_numeral\<close>)
  with assms(2) have "embeds buf (k + 12) (long_bytes ticks)" using embeds_trans by fastforce
  then show ?thesis using embeds_read64 [of buf "k + 12" "long_bytes ticks" 0] readU64_long_bytes [OF assms(1), of "[]"] by simp
qed

lemma mehd_built:
  assumes out: "out = concat (map (box_bytes init) tas @ boxed ''moov'' moov_body # map (box_bytes init) tcs)"
    and moov: "moov_body = concat (map (box_bytes init) ias @ boxed ''mvex'' mvex_body # map (box_bytes init) ics)"
    and mvex: "mvex_body = concat (boxed ''mehd'' ([1, 0, 0, 0] @ long_bytes ticks) # map (box_bytes init) kids)"
    and sizes: "length moov_body + 8 < 2 ^ 32" and ticks: "ticks < 2 ^ 64"
    and boxes_ok: "\<And>bs. bs \<in> {tas, tcs, ias, ics, kids} \<Longrightarrow> list_all2 is_box (map (box_bytes init) bs) (map front bs)"
    and tas: "\<And>b. b \<in> set tas \<Longrightarrow> bx_type b \<noteq> ''moov''" and ias: "\<And>b. b \<in> set ias \<Longrightarrow> bx_type b \<noteq> ''mvex''"
  shows "let off = sum_list (map bx_size tas) + 8 + sum_list (map bx_size ias) + 8
         in mehd_of out = Some (shift off (header ''mehd'' ([1, 0, 0, 0] @ long_bytes ticks))) \<and> readU64 out (off + 12) = Some ticks"
proof -
  let ?k1 = "sum_list (map bx_size tas)" and ?mb = "[1, 0, 0, 0] @ long_bytes ticks"
  let ?k2 = "?k1 + 8 + sum_list (map bx_size ias)"
  have len: "length (concat (map (box_bytes init) bs)) = sum_list (map bx_size bs)" if "bs \<in> {tas, ias}" for bs
    using length_boxes [OF boxes_ok [of bs]] that by auto
  have b1: "is_box (boxed ''moov'' moov_body) (header ''moov'' moov_body)"
    and b2: "is_box (boxed ''mvex'' mvex_body) (header ''mvex'' mvex_body)"
    and b3: "is_box (boxed ''mehd'' ?mb) (header ''mehd'' ?mb)"
    using sizes boxed_is_box [of "''moov''" moov_body] boxed_is_box [of "''mvex''" mvex_body] boxed_is_box [of "''mehd''" ?mb]
    by (simp_all add: moov header_def boxed_def)
  have top: "boxes out 0 (length out) = Some (place 0 (map front tas @ header ''moov'' moov_body # map front tcs))"
    unfolding out by (intro boxes_concat list_all2_middle boxes_ok b1) simp_all
  have e1: "embeds out ?k1 (boxed ''moov'' moov_body)" unfolding out using embeds_concat len [of tas] by (metis insertI1)
  have c1: "children out (shift ?k1 (header ''moov'' moov_body)) = Some (place (?k1 + 8) (map front ias @ header ''mvex'' mvex_body # map front ics))"
    using children_boxed [OF e1 _ moov list_all2_middle [OF boxes_ok b2 boxes_ok]] by simp
  have e2: "embeds out ?k2 (boxed ''mvex'' mvex_body)"
    using embeds_trans [OF embeds_trans [OF e1 embeds_body], of "sum_list (map bx_size ias)" "boxed ''mvex'' mvex_body"]
      embeds_concat [of "map (box_bytes init) ias" "boxed ''mvex'' mvex_body" "map (box_bytes init) ics"] len [of ias]
    by (simp add: moov)
  have c2: "children out (shift ?k2 (header ''mvex'' mvex_body)) = Some (place (?k2 + 8) (header ''mehd'' ?mb # map front kids))"
    by (rule children_boxed [OF e2 _ mvex]) (use b3 boxes_ok [of kids] in simp_all)
  have e3: "embeds out (?k2 + 8) (boxed ''mehd'' ?mb)"
    using embeds_trans [OF embeds_trans [OF e2 embeds_body], of 0 "boxed ''mehd'' ?mb"]
      embeds_concat [of "[]" "boxed ''mehd'' ?mb" "map (box_bytes init) kids"] by (simp add: mvex)
  have n1: "box_named ''moov'' (place 0 (map front tas @ header ''moov'' moov_body # map front tcs)) = Some (shift ?k1 (header ''moov'' moov_body))"
    using find_front [OF tas, where b = "header ''moov'' moov_body" and k = 0] by simp
  have n2: "box_named ''mvex'' (place (?k1 + 8) (map front ias @ header ''mvex'' mvex_body # map front ics)) = Some (shift ?k2 (header ''mvex'' mvex_body))"
    using find_front [OF ias, where b = "header ''mvex'' mvex_body" and k = "?k1 + 8"] by simp
  have "mehd_of out = Some (shift (?k2 + 8) (header ''mehd'' ?mb))"
    by (simp only: mehd_of_def top n1 c1 n2 c2 Option.bind.bind_lunit) (simp add: box_named_def)
  with mehd_read [OF ticks e3] show ?thesis by (simp add: Let_def)
qed

text \<open>
  The init segment with the total duration: reading the boxes of the result finds the new entry, the returned
  offset is that of its 64-bit duration, and the duration written there is the given one.
\<close>

theorem mehd_duration:
  assumes "withMehd init ticks = Some (out, off)" "explicit_sizes init"
  shows "\<exists>h. mehd_of out = Some h \<and> off = bx_body h + 4 \<and> readU64 out off = Some ticks"
proof -
  let ?mb = "[1, 0, 0, 0] @ long_bytes ticks"
  obtain top moov inner mvex kids where b: "boxes init 0 (length init) = Some top" "box_named ''moov'' top = Some moov"
      "children init moov = Some inner" "box_named ''mvex'' inner = Some mvex" "children init mvex = Some kids"
    using assms(1) by (auto simp: withMehd_def bind_eq_Some_conv split: if_splits)
  have sz: "list_all (sized init) top" "list_all (sized init) inner" "list_all (sized init) kids"
    using assms(2) b by (simp_all add: explicit_sizes_def)
  from b(1,2) obtain tas tcs where t: "top = tas @ moov # tcs" "\<And>a. a \<in> set tas \<Longrightarrow> bx_type a \<noteq> ''moov''"
      "filter (\<lambda>x. bx_start x < bx_start moov) top = tas" "filter (\<lambda>x. bx_start moov < bx_start x) top = tcs"
    by (rule split_first) (rule that)
  from b(3,4) obtain ias ics where i: "inner = ias @ mvex # ics" "\<And>a. a \<in> set ias \<Longrightarrow> bx_type a \<noteq> ''mvex''" "mvex \<notin> set ias" "mvex \<notin> set ics"
    unfolding children_def by (rule split_first) (rule that)
  have ends: "bx_end moov \<le> length init" "bx_end mvex \<le> bx_end moov"
    using boxes_step [OF b(1), of moov] boxes_step [OF b(3) [unfolded children_def], of mvex] t(1) i(1) by simp_all
  let ?kids = "filter (\<lambda>b. bx_type b \<noteq> ''mehd'') kids"
  let ?xb = "boxed ''mehd'' ?mb @ concat (map (box_bytes init) ?kids)"
  let ?vb = "concat (map (box_bytes init) ias @ boxed ''mvex'' ?xb # map (box_bytes init) ics)"
  have parts: "map (\<lambda>b. if b = mvex then boxed ''mvex'' ?xb else box_bytes init b) inner
      = map (box_bytes init) ias @ boxed ''mvex'' ?xb # map (box_bytes init) ics"
    using i(3,4) by (auto simp: i(1))
  have tw: "takeWhile (\<lambda>b. b \<noteq> mvex) inner = ias"
    unfolding i(1) by (subst takeWhile_append2) (use i(3) in auto)
  have ok: "list_all2 is_box (map (box_bytes init) bs) (map front bs)" if "bs \<in> {tas, tcs, ias, ics, ?kids}" for bs
    using boxes_are_boxes [OF b(1) _ sz(1), of bs] boxes_are_boxes [OF b(3) [unfolded children_def] _ sz(2), of bs]
      boxes_are_boxes [OF b(5) [unfolded children_def] _ sz(3), of bs] ends that t(1) i(1) by auto
  have r: "ticks < 2 ^ 64" "length ?vb + 8 < 2 ^ 32"
      "out = concat (map (box_bytes init) tas @ boxed ''moov'' ?vb # map (box_bytes init) tcs)"
      "off = length (concat (map (box_bytes init) tas)) + 8 + sum_list (map bx_size ias) + 8 + 12"
    using assms(1) unfolding withMehd_def b Option.bind.bind_lunit Let_def t(3,4) tw parts
    by (simp_all add: length_boxed not_le split: if_split_asm)
  show ?thesis
    using mehd_built [OF r(3) refl concat.simps(2) [symmetric] r(2) r(1) ok t(2) i(2)] length_boxes [OF ok, of tas] r(4)
    by (simp add: Let_def add.assoc)
qed

theorem mehd_duration_witness:
  "\<exists>out off h. withMehd (boxed ''ftyp'' [] @ boxed ''moov'' (boxed ''mvhd'' [1, 2] @ boxed ''mvex'' (boxed ''trex'' []))) 7000 = Some (out, off)
     \<and> mehd_of out = Some h \<and> off = bx_body h + 4 \<and> readU64 out off = Some 7000"
proof -
  let ?init = "boxed ''ftyp'' [] @ boxed ''moov'' (boxed ''mvhd'' [1, 2] @ boxed ''mvex'' (boxed ''trex'' []))"
  have "withMehd ?init 7000 \<noteq> None" by code_simp
  then obtain out off where w: "withMehd ?init 7000 = Some (out, off)" by auto
  have "explicit_sizes ?init" by code_simp
  from mehd_duration [OF w this] w show ?thesis by blast
qed

end
