(* ===== verification/Camera_Times.thy ===== *)
theory Camera_Times
  imports Camera_Fmp4
begin

text \<open>
  Moving the times of a segment (\<open>rebase\<close> of \<open>src/src/cameras/fmp4.js\<close>): writing the time fields leaves the
  box structure as it is, so that reading the times of the result gives the moved times.
\<close>

section \<open>Fields of a segment\<close>

definition td_width :: "tfdt \<Rightarrow> nat" where
  "td_width t = (if td_version t = 1 then 8 else 4)"

definition td_end :: "tfdt \<Rightarrow> nat" where
  "td_end t = td_offset t + td_width t"

definition time_fields :: "tfdt list \<Rightarrow> nat set" where
  "time_fields ts = (\<Union>t\<in>set ts. {td_offset t..<td_end t})"

definition field_value :: "bytes \<Rightarrow> tfdt \<Rightarrow> nat" where
  "field_value buf t = the (if td_version t = 1 then readU64 buf (td_offset t) else readU32 buf (td_offset t))"

definition reread :: "bytes \<Rightarrow> tfdt \<Rightarrow> tfdt" where
  "reread buf t = t\<lparr>td_value := field_value buf t\<rparr>"

definition agree :: "bytes \<Rightarrow> bytes \<Rightarrow> nat set \<Rightarrow> bool" where
  "agree buf buf' I = (length buf' = length buf \<and> (\<forall>i\<in>I. buf' ! i = buf ! i))"

lemma agree_mono: "agree buf buf' I \<Longrightarrow> J \<subseteq> I \<Longrightarrow> agree buf buf' J"
  by (auto simp: agree_def)

lemma readU32_agree: "agree buf buf' {off..<off + 4} \<Longrightarrow> readU32 buf' off = readU32 buf off"
  by (simp add: agree_def readU32_def)

lemma readU64_agree: "agree buf buf' {off..<off + 8} \<Longrightarrow> readU64 buf' off = readU64 buf off"
  using readU32_agree [OF agree_mono, of buf buf' "{off..<off + 8}" off] readU32_agree [OF agree_mono, of buf buf' "{off..<off + 8}" "off + 4"]
  by (simp add: readU64_def)

lemma subarray_agree: "agree buf buf' {s..<e} \<Longrightarrow> subarray buf' s e = subarray buf s e"
  by (rule nth_equalityI) (auto simp: agree_def subarray_def)

lemma readU32_Some: "off + 4 \<le> length buf \<Longrightarrow> \<exists>v. readU32 buf off = Some v"
  by (simp add: readU32_def)

lemma readU64_Some: "off + 8 \<le> length buf \<Longrightarrow> \<exists>v. readU64 buf off = Some v"
  using readU32_Some [of off buf] readU32_Some [of "off + 4" buf] by (auto simp: readU64_def)

lemma box_at_agree:
  assumes "box_at buf s e = Some b" "agree buf buf' {s..<bx_body b}"
  shows "box_at buf' s e = Some b"
proof -
  obtain sz head where h: "box_size buf s e = Some (sz, head)" "head \<le> sz" "s + sz \<le> e"
      "b = \<lparr>bx_type = map byte_char (subarray buf (s + 4) (s + 8)), bx_start = s, bx_size = sz, bx_body = s + head\<rparr>"
    using assms(1) by (auto simp: box_at_def bind_eq_Some_conv not_less split: if_splits)
  have ag: "agree buf buf' {s..<s + head}" using assms(2) h(4) by simp
  have "8 \<le> head" using box_at_bounds [OF assms(1)] h(4) by simp
  then have r: "readU32 buf' s = readU32 buf s" "subarray buf' (s + 4) (s + 8) = subarray buf (s + 4) (s + 8)"
    by (auto intro!: readU32_agree subarray_agree agree_mono [OF ag])
  have "readU64 buf' (s + 8) = readU64 buf (s + 8)" if "head = 16"
    using that by (auto intro!: readU64_agree agree_mono [OF ag])
  moreover obtain n where n: "readU32 buf s = Some n" using h(1) by (auto simp: box_size_def bind_eq_Some_conv)
  moreover have "head = 16" if "n = 1" using h(1) n that by (auto simp: box_size_def bind_eq_Some_conv split: if_splits)
  ultimately have "box_size buf' s e = box_size buf s e" by (cases "n = 1") (simp_all add: box_size_def r)
  then have "box_size buf' s e = Some (sz, head)" using h(1) by simp
  with h(2-4) show ?thesis by (simp add: box_at_def r)
qed

lemma boxes_agree:
  assumes "boxes buf s e = Some bs" "\<And>b. b \<in> set bs \<Longrightarrow> agree buf buf' {bx_start b..<bx_body b}"
  shows "boxes buf' s e = Some bs"
  using assms
proof (induction "e - s" arbitrary: s bs rule: less_induct)
  case less
  show ?case
  proof (cases "s + 8 \<le> e")
    case True
    with less.prems obtain c cs where c: "box_at buf s e = Some c" "boxes buf (s + bx_size c) e = Some cs" "bs = c # cs"
      by (subst (asm) (2) boxes.simps) (auto split: option.split_asm)
    note bd = box_at_bounds [OF c(1)]
    have "e - (s + bx_size c) < e - s" using bd by linarith
    then have "boxes buf' (s + bx_size c) e = Some cs" using less.hyps [OF _ c(2)] less.prems(2) c(3) by simp
    moreover have "box_at buf' s e = Some c" using box_at_agree [OF c(1)] less.prems(2) [of c] bd c(3) by simp
    ultimately show ?thesis using True c(3) by (subst boxes.simps) simp
  next
    case False
    with less.prems(1) show ?thesis by (simp add: boxes.simps)
  qed
qed

section \<open>Reading only the part of a box\<close>

text \<open>
  The times \<open>ys\<close> that \<open>f\<close> reads from the bytes \<open>s\<close> to \<open>e\<close> lie in this part, one after the other, and a
  buffer that differs only in these fields gives the same times with the values of that buffer.
\<close>

definition reads_inside :: "(bytes \<Rightarrow> tfdt list option) \<Rightarrow> bytes \<Rightarrow> nat \<Rightarrow> nat \<Rightarrow> tfdt list \<Rightarrow> bool" where
  "reads_inside f buf s e ys =
     (sorted_wrt (\<lambda>a b. td_end a \<le> td_offset b) ys \<and> (\<forall>t\<in>set ys. s \<le> td_offset t \<and> td_end t \<le> e) \<and>
      (\<forall>buf'. agree buf buf' ({s..<e} - time_fields ys) \<longrightarrow> f buf' = Some (map (reread buf') ys)))"

lemma reads_insideD:
  assumes "reads_inside f buf s e ys"
  shows "sorted_wrt (\<lambda>a b. td_end a \<le> td_offset b) ys" "t \<in> set ys \<Longrightarrow> s \<le> td_offset t \<and> td_end t \<le> e"
    "agree buf buf' ({s..<e} - time_fields ys) \<Longrightarrow> f buf' = Some (map (reread buf') ys)"
  using assms by (auto simp: reads_inside_def)

lemma time_fields_append [simp]: "time_fields (xs @ ys) = time_fields xs \<union> time_fields ys"
  by (auto simp: time_fields_def)

lemma time_fields_inside: "reads_inside f buf s e ys \<Longrightarrow> time_fields ys \<subseteq> {s..<e}"
  by (fastforce simp: reads_inside_def time_fields_def)

lemma collect_inside:
  assumes "sorted_wrt (\<lambda>a b. bx_end a \<le> bx_start b) bs" "collect_all (f buf) bs = Some ys"
    "\<And>b. b \<in> set bs \<Longrightarrow> bx_start b \<le> bx_body b"
    "\<And>b y. b \<in> set bs \<Longrightarrow> f buf b = Some y \<Longrightarrow> reads_inside (\<lambda>buf'. f buf' b) buf (bx_body b) (bx_end b) y"
  shows "sorted_wrt (\<lambda>a b. td_end a \<le> td_offset b) ys
    \<and> (\<forall>t\<in>set ys. \<exists>b\<in>set bs. bx_body b \<le> td_offset t \<and> td_end t \<le> bx_end b)
    \<and> (\<forall>buf'. agree buf buf' ((\<Union>b\<in>set bs. {bx_body b..<bx_end b}) - time_fields ys) \<longrightarrow> collect_all (f buf') bs = Some (map (reread buf') ys))"
  using assms
proof (induction bs arbitrary: ys)
  case Nil
  then show ?case by simp
next
  case (Cons b bs)
  from Cons.prems(2) obtain y zs where y: "f buf b = Some y" "collect_all (f buf) bs = Some zs" "ys = y @ zs"
    by (auto simp: bind_eq_Some_conv)
  note fb = Cons.prems(4) [OF list.set_intros(1) y(1)]
  have ih: "sorted_wrt (\<lambda>a b. td_end a \<le> td_offset b) zs" "\<forall>t\<in>set zs. \<exists>b\<in>set bs. bx_body b \<le> td_offset t \<and> td_end t \<le> bx_end b"
      "\<And>buf'. agree buf buf' ((\<Union>b\<in>set bs. {bx_body b..<bx_end b}) - time_fields zs) \<Longrightarrow> collect_all (f buf') bs = Some (map (reread buf') zs)"
    using Cons.IH [OF _ y(2)] Cons.prems(1,3,4) by auto
  have later: "bx_end b \<le> td_offset t" if "t \<in> set zs" for t
    using ih(2) that Cons.prems(1,3) by fastforce
  have after: "bx_end b \<le> bx_body c" if "c \<in> set bs" for c
    using that Cons.prems(1) Cons.prems(3) [of c] by auto
  have before: "td_end t \<le> bx_end b \<and> bx_body b \<le> td_offset t" if "t \<in> set y" for t using reads_insideD(2) [OF fb that] by simp
  have disj: "time_fields zs \<inter> {bx_body b..<bx_end b} = {}" using later by (fastforce simp: time_fields_def)
  have disj': "time_fields y \<inter> (\<Union>c\<in>set bs. {bx_body c..<bx_end c}) = {}"
    using before after by (fastforce simp: time_fields_def)
  have "sorted_wrt (\<lambda>a b. td_end a \<le> td_offset b) ys"
    using reads_insideD(1) [OF fb] ih(1) before later by (fastforce simp: y(3) sorted_wrt_append)
  moreover have "\<forall>t\<in>set ys. \<exists>c\<in>set (b # bs). bx_body c \<le> td_offset t \<and> td_end t \<le> bx_end c"
    using before ih(2) by (auto simp: y(3))
  moreover have "collect_all (f buf') (b # bs) = Some (map (reread buf') ys)"
    if "agree buf buf' ((\<Union>b\<in>set (b # bs). {bx_body b..<bx_end b}) - time_fields ys)" for buf'
  proof -
    have "f buf' b = Some (map (reread buf') y)"
      by (rule reads_insideD(3) [OF fb], rule agree_mono [OF that]) (use disj in \<open>auto simp: y(3)\<close>)
    moreover have "collect_all (f buf') bs = Some (map (reread buf') zs)"
      by (rule ih(3), rule agree_mono [OF that]) (use disj' in \<open>auto simp: y(3)\<close>)
    ultimately show ?thesis by (simp add: y(3))
  qed
  ultimately show ?case by blast
qed

lemma headers_untouched:
  assumes "boxes buf s e = Some bs" "c \<in> set bs"
    "\<forall>t\<in>set ys. \<exists>b\<in>set bs. bx_body b \<le> td_offset t \<and> td_end t \<le> bx_end b"
  shows "time_fields ys \<inter> {bx_start c..<bx_body c} = {}"
proof -
  have "\<not> (td_offset t \<le> i \<and> i < td_end t)" if i: "bx_start c \<le> i" "i < bx_body c" and t: "t \<in> set ys" for i t
  proof
    assume f: "td_offset t \<le> i \<and> i < td_end t"
    from assms(3) t obtain b where b: "b \<in> set bs" "bx_body b \<le> td_offset t" "td_end t \<le> bx_end b" by auto
    from b(1) assms(2) obtain j k where jk: "j < length bs" "k < length bs" "b = bs ! j" "c = bs ! k" by (auto simp: in_set_conv_nth)
    note st = boxes_step [OF assms(1) b(1)] boxes_step [OF assms(1,2)]
    note srt = sorted_wrt_nth_less [OF boxes_sorted [OF assms(1)]]
    consider "j = k" | "j < k" | "k < j" by linarith
    then show False
    proof cases
      case 1
      with b f i jk show False by simp
    next
      case 2
      with srt [of j k] b f i jk show False by simp
    next
      case 3
      with srt [of k j] b f i jk st show False by simp
    qed
  qed
  then show ?thesis by (auto simp: time_fields_def)
qed

text \<open>One level of the structure: the boxes of a kind in a part, each read on its own.\<close>

lemma level_inside:
  assumes "boxes buf s e = Some bs" "collect_all (f buf) (filter P bs) = Some ys"
    "\<And>b y. b \<in> set bs \<Longrightarrow> P b \<Longrightarrow> f buf b = Some y \<Longrightarrow> reads_inside (\<lambda>buf'. f buf' b) buf (bx_body b) (bx_end b) y"
  shows "reads_inside (\<lambda>buf'. do { bs \<leftarrow> boxes buf' s e; collect_all (f buf') (filter P bs) }) buf s e ys"
proof -
  note st = boxes_step [OF assms(1)]
  have "sorted_wrt (\<lambda>a b. bx_end a \<le> bx_start b) (filter P bs)"
    using boxes_sorted [OF assms(1)] by (rule sorted_wrt_filter)
  moreover have "bx_start b \<le> bx_body b" if "b \<in> set (filter P bs)" for b using st [of b] that by simp
  moreover have "reads_inside (\<lambda>buf'. f buf' b) buf (bx_body b) (bx_end b) y" if "b \<in> set (filter P bs)" "f buf b = Some y" for b y
    using assms(3) [of b y] that by simp
  ultimately have ci: "sorted_wrt (\<lambda>a b. td_end a \<le> td_offset b) ys
    \<and> (\<forall>t\<in>set ys. \<exists>b\<in>set (filter P bs). bx_body b \<le> td_offset t \<and> td_end t \<le> bx_end b)
    \<and> (\<forall>buf'. agree buf buf' ((\<Union>b\<in>set (filter P bs). {bx_body b..<bx_end b}) - time_fields ys) \<longrightarrow> collect_all (f buf') (filter P bs) = Some (map (reread buf') ys))"
    using collect_inside [where f = f, OF _ assms(2)] by blast
  have c: "sorted_wrt (\<lambda>a b. td_end a \<le> td_offset b) ys"
      "\<forall>t\<in>set ys. \<exists>b\<in>set (filter P bs). bx_body b \<le> td_offset t \<and> td_end t \<le> bx_end b"
      "\<And>buf'. agree buf buf' ((\<Union>b\<in>set (filter P bs). {bx_body b..<bx_end b}) - time_fields ys) \<Longrightarrow> collect_all (f buf') (filter P bs) = Some (map (reread buf') ys)"
    using ci by blast+
  have inb: "\<forall>t\<in>set ys. \<exists>b\<in>set bs. bx_body b \<le> td_offset t \<and> td_end t \<le> bx_end b" using c(2) by auto
  have "boxes buf' s e = Some bs \<and> collect_all (f buf') (filter P bs) = Some (map (reread buf') ys)"
    if ag: "agree buf buf' ({s..<e} - time_fields ys)" for buf'
  proof
    show "boxes buf' s e = Some bs"
    proof (rule boxes_agree [OF assms(1)])
      fix b assume b: "b \<in> set bs"
      show "agree buf buf' {bx_start b..<bx_body b}"
        by (rule agree_mono [OF ag]) (use headers_untouched [OF assms(1) b inb] st [OF b] in fastforce)
    qed
    show "collect_all (f buf') (filter P bs) = Some (map (reread buf') ys)"
      by (rule c(3), rule agree_mono [OF ag]) (use st in fastforce)
  qed
  moreover have "s \<le> td_offset t \<and> td_end t \<le> e" if "t \<in> set ys" for t
    using inb that st by fastforce
  ultimately show ?thesis using c(1) by (simp add: reads_inside_def)
qed

section \<open>The times of one track fragment\<close>

text \<open>The two entries that are read have the size that their fields need.\<close>

definition leaf_ok :: "bytes \<Rightarrow> box \<Rightarrow> bool" where
  "leaf_ok buf traf =
     (case (childOf buf traf ''tfhd'', childOf buf traf ''tfdt'') of
        (Some (Some h), Some (Some t)) \<Rightarrow>
          bx_body h + 8 \<le> bx_end h \<and> bx_body t + 4 + (if byte_or_none buf (bx_body t) = Some 1 then 8 else 4) \<le> bx_end t
      | _ \<Rightarrow> True)"

definition moof_ok :: "bytes \<Rightarrow> box \<Rightarrow> bool" where
  "moof_ok buf moof =
     (case children buf moof of
        None \<Rightarrow> False
      | Some kids \<Rightarrow> list_all (leaf_ok buf) (filter (\<lambda>b. bx_type b = ''traf'') kids))"

definition times_ok :: "bytes \<Rightarrow> bool" where
  "times_ok buf =
     (case boxes buf 0 (length buf) of
        None \<Rightarrow> False
      | Some bs \<Rightarrow> list_all (moof_ok buf) (filter (\<lambda>b. bx_type b = ''moof'') bs))"

lemma boxes_disjoint:
  assumes "boxes buf s e = Some bs" "b \<in> set bs" "c \<in> set bs" "b \<noteq> c"
  shows "bx_end b \<le> bx_start c \<or> bx_end c \<le> bx_start b"
proof -
  from assms(2,3) obtain j k where jk: "j < length bs" "k < length bs" "b = bs ! j" "c = bs ! k" by (auto simp: in_set_conv_nth)
  with assms(4) have "j < k \<or> k < j" by (metis nat_neq_iff)
  then show ?thesis using sorted_wrt_nth_less [OF boxes_sorted [OF assms(1)]] jk by blast
qed

lemma box_named_in: "box_named ty bs = Some b \<Longrightarrow> b \<in> set bs \<and> bx_type b = ty"
  by (auto simp: box_named_def find_Some_iff)

lemma byte_agree: "agree buf buf' {i} \<Longrightarrow> byte_or_none buf' i = byte_or_none buf i"
  by (simp add: agree_def byte_or_none_def)

lemma leaf_inside:
  assumes "tfdt_of buf traf = Some ys" "leaf_ok buf traf" "bx_end traf \<le> length buf"
  shows "reads_inside (\<lambda>buf'. tfdt_of buf' traf) buf (bx_body traf) (bx_end traf) ys"
proof -
  from assms(1) obtain kids where kids: "children buf traf = Some kids"
    by (auto simp: tfdt_of_def childOf_def bind_eq_Some_conv)
  note st = boxes_step [OF kids [unfolded children_def]]
  have same: "children buf' traf = Some kids"
    if "agree buf buf' ({bx_body traf..<bx_end traf} - time_fields ys)"
      "\<forall>t\<in>set ys. \<exists>b\<in>set kids. bx_body b \<le> td_offset t \<and> td_end t \<le> bx_end b" for buf'
    unfolding children_def
  proof (rule boxes_agree [OF kids [unfolded children_def]])
    fix b assume b: "b \<in> set kids"
    show "agree buf buf' {bx_start b..<bx_body b}"
      by (rule agree_mono [OF that(1)]) (use headers_untouched [OF kids [unfolded children_def] b that(2)] st [OF b] in fastforce)
  qed
  show ?thesis
  proof (cases "box_named ''tfhd'' kids = None \<or> box_named ''tfdt'' kids = None")
    case True
    then have "ys = []" using assms(1) kids by (auto simp: tfdt_of_def childOf_def split: option.splits)
    moreover have "tfdt_of buf' traf = Some []" if "children buf' traf = Some kids" for buf'
      using True that by (auto simp: tfdt_of_def childOf_def split: option.splits)
    ultimately show ?thesis using same by (simp add: reads_inside_def)
  next
    case False
    then obtain h t where ht: "box_named ''tfhd'' kids = Some h" "box_named ''tfdt'' kids = Some t" by auto
    let ?off = "bx_body t + 4" and ?v = "byte_or_none buf (bx_body t)"
    have hin: "h \<in> set kids" "t \<in> set kids" "h \<noteq> t" using box_named_in [OF ht(1)] box_named_in [OF ht(2)] by auto
    have sz: "bx_body h + 8 \<le> bx_end h" "?off + (if ?v = Some 1 then 8 else 4) \<le> bx_end t"
      using assms(2) kids ht by (simp_all add: leaf_ok_def childOf_def)
    note sth = st [OF hin(1)] and stt = st [OF hin(2)]
    have "bx_body t < length buf" using stt assms(3) sz(2) by (simp split: if_splits)
    then obtain x where x: "?v = Some x" by (simp add: byte_or_none_def)
    obtain i val where iv: "ys = [\<lparr>td_trackId = i, td_offset = ?off, td_version = x, td_value = val\<rparr>]" "readU32 buf (bx_body h + 4) = Some i"
      using assms(1) kids ht x by (auto simp: tfdt_of_def childOf_def Let_def bind_eq_Some_conv)
    have "ys = [hd ys]" "td_offset (hd ys) = ?off" "td_version (hd ys) = x" "readU32 buf (bx_body h + 4) = Some (td_trackId (hd ys))"
      by (simp_all add: iv)
    then obtain y where y: "ys = [y]" "td_offset y = ?off" "td_version y = x" "readU32 buf (bx_body h + 4) = Some (td_trackId y)"
      by (rule that)
    have te: "td_end y = ?off + (if x = 1 then 8 else 4)" by (simp add: td_end_def td_width_def y(2,3))
    have inb: "\<forall>t\<in>set ys. \<exists>b\<in>set kids. bx_body b \<le> td_offset t \<and> td_end t \<le> bx_end b"
      using te sz(2) x unfolding y(1) by (auto simp: y(2) intro!: bexI [OF _ hin(2)] split: if_splits)
    have tf: "time_fields ys = {?off..<td_end y}" by (simp add: time_fields_def y)
    have apart: "bx_end h \<le> bx_start t \<or> bx_end t \<le> bx_start h"
      by (rule boxes_disjoint [OF kids [unfolded children_def] hin])
    have "tfdt_of buf' traf = Some (map (reread buf') ys)" if ag: "agree buf buf' ({bx_body traf..<bx_end traf} - time_fields ys)" for buf'
    proof -
      have len: "length buf' = length buf" using ag by (simp add: agree_def)
      have "readU32 buf' (bx_body h + 4) = readU32 buf (bx_body h + 4)"
        by (rule readU32_agree, rule agree_mono [OF ag]) (use sth stt sz apart te x in \<open>auto simp: tf split: if_splits\<close>)
      moreover have "byte_or_none buf' (bx_body t) = ?v"
        by (rule byte_agree, rule agree_mono [OF ag]) (use stt sz in \<open>auto simp: tf split: if_splits\<close>)
      moreover have "(if x = 1 then readU64 buf' ?off else readU32 buf' ?off) = Some (field_value buf' y)"
        using readU64_Some [of ?off buf'] readU32_Some [of ?off buf'] stt sz(2) assms(3) len x
        by (auto simp: field_value_def y(2,3))
      ultimately show ?thesis using same [OF ag inb] ht x y(4)
        by (simp add: tfdt_of_def childOf_def Let_def y reread_def)
    qed
    moreover have "bx_body traf \<le> td_offset y" "td_end y \<le> bx_end traf" using stt sz(2) x by (auto simp: y(2) te split: if_splits)
    ultimately show ?thesis by (simp add: reads_inside_def y(1))
  qed
qed

section \<open>The times of a segment\<close>

lemma moof_inside:
  assumes "trafs_of buf moof = Some ys" "moof_ok buf moof" "bx_end moof \<le> length buf"
  shows "reads_inside (\<lambda>buf'. trafs_of buf' moof) buf (bx_body moof) (bx_end moof) ys"
proof -
  from assms(1) obtain kids where k: "boxes buf (bx_body moof) (bx_end moof) = Some kids"
      "collect_all (tfdt_of buf) (filter (\<lambda>b. bx_type b = ''traf'') kids) = Some ys"
    by (auto simp: trafs_of_def children_def bind_eq_Some_conv)
  show ?thesis unfolding trafs_of_def children_def
  proof (rule level_inside [where f = tfdt_of, OF k])
    fix b y assume b: "b \<in> set kids" "bx_type b = ''traf''" "tfdt_of buf b = Some y"
    have "leaf_ok buf b" using assms(2) k(1) b by (simp add: moof_ok_def children_def list_all_iff)
    moreover have "bx_end b \<le> length buf" using boxes_step [OF k(1) b(1)] assms(3) by simp
    ultimately show "reads_inside (\<lambda>buf'. tfdt_of buf' b) buf (bx_body b) (bx_end b) y" by (rule leaf_inside [OF b(3)])
  qed
qed

lemma segment_inside:
  assumes "tfdtsOf buf = Some ts" "times_ok buf"
  shows "reads_inside (\<lambda>buf'. do { bs \<leftarrow> boxes buf' 0 (length buf); collect_all (trafs_of buf') (filter (\<lambda>b. bx_type b = ''moof'') bs) })
           buf 0 (length buf) ts"
proof -
  from assms(1) obtain top where k: "boxes buf 0 (length buf) = Some top"
      "collect_all (trafs_of buf) (filter (\<lambda>b. bx_type b = ''moof'') top) = Some ts"
    by (auto simp: tfdtsOf_def bind_eq_Some_conv)
  show ?thesis
  proof (rule level_inside [where f = trafs_of, OF k])
    fix b y assume b: "b \<in> set top" "bx_type b = ''moof''" "trafs_of buf b = Some y"
    have "moof_ok buf b" using assms(2) k(1) b by (simp add: times_ok_def list_all_iff)
    moreover have "bx_end b \<le> length buf" using boxes_step [OF k(1) b(1)] by simp
    ultimately show "reads_inside (\<lambda>buf'. trafs_of buf' b) buf (bx_body b) (bx_end b) y" by (rule moof_inside [OF b(3)])
  qed
qed

section \<open>Writing the moved times\<close>

definition rebased :: "(nat, nat) jsmap \<Rightarrow> tfdt \<Rightarrow> tfdt" where
  "rebased base t = t\<lparr>td_value := (case map_of base (td_trackId t) of None \<Rightarrow> td_value t | Some b \<Rightarrow> td_value t - b)\<rparr>"

lemma overwrite_nth:
  "i < length buf \<Longrightarrow> off + length new \<le> length buf \<Longrightarrow> i < off \<or> off + length new \<le> i \<Longrightarrow> overwrite_at buf off new ! i = buf ! i"
  by (auto simp: overwrite_at_def nth_append)

lemma overwrite_at_length: "off + length new \<le> length buf \<Longrightarrow> length (overwrite_at buf off new) = length buf"
  by (simp add: overwrite_at_def)

lemma overwrite_embeds: "off \<le> length buf \<Longrightarrow> embeds (overwrite_at buf off new) off new"
  using embeds_middle [of "take off buf" new] by (simp add: overwrite_at_def)

lemma field_value_agree: "agree buf buf' {td_offset t..<td_end t} \<Longrightarrow> field_value buf' t = field_value buf t"
  using readU64_agree [of buf buf' "td_offset t"] readU32_agree [of buf buf' "td_offset t"]
  by (auto simp: field_value_def td_end_def td_width_def)

lemma field_value_set:
  assumes "td_end t \<le> length buf" "v < 2 ^ (8 * td_width t)"
  shows "field_value (set_time t v buf) t = v"
proof (cases "td_version t = 1")
  case True
  then have "embeds (set_time t v buf) (td_offset t) (long_bytes v)"
    using assms(1) by (simp add: set_time_def overwrite_embeds td_end_def)
  then show ?thesis using True assms(2) embeds_read64 [of _ _ "long_bytes v" 0] readU64_long_bytes [of v "[]"]
    by (simp add: field_value_def td_width_def)
next
  case False
  then have "embeds (set_time t v buf) (td_offset t) (word_bytes v)"
    using assms by (simp add: set_time_def overwrite_embeds td_end_def td_width_def)
  then show ?thesis using False assms(2) embeds_read32 [of _ _ "word_bytes v" 0] readU32_word_bytes [of v "[]"]
    by (simp add: field_value_def td_width_def)
qed

lemma rebase_one_agree:
  assumes "td_end t \<le> length buf"
  shows "agree buf (rebase_one base buf t) ({..<length buf} - {td_offset t..<td_end t})"
proof -
  have "length (if td_version t = 1 then long_bytes v else word_bytes (v mod 2 ^ 32)) = td_width t" for v
    by (simp add: td_width_def)
  then have "agree buf (set_time t v buf) ({..<length buf} - {td_offset t..<td_end t})" for v
    using assms overwrite_nth [of _ buf "td_offset t"] overwrite_at_length [of "td_offset t" _ buf]
    unfolding agree_def set_time_def td_end_def by fastforce
  then show ?thesis by (auto simp: rebase_one_def agree_def split: option.split)
qed

lemma rebase_one_value:
  assumes "td_end t \<le> length buf" "td_value t < 2 ^ (8 * td_width t)" "field_value buf t = td_value t"
  shows "field_value (rebase_one base buf t) t = td_value (rebased base t)"
proof -
  have "field_value (set_time t (td_value t - b) buf) t = td_value t - b" for b
    by (rule field_value_set [OF assms(1)]) (use assms(2) in linarith)
  then show ?thesis using assms(3) by (simp add: rebase_one_def rebased_def split: option.split)
qed

lemma agree_trans: "agree a b I \<Longrightarrow> agree b c J \<Longrightarrow> agree a c (I \<inter> J)"
  by (auto simp: agree_def)

lemma rebase_fold:
  assumes "sorted_wrt (\<lambda>a b. td_end a \<le> td_offset b) ts"
    "\<And>t. t \<in> set ts \<Longrightarrow> td_end t \<le> length buf \<and> td_value t < 2 ^ (8 * td_width t) \<and> field_value buf t = td_value t"
  shows "agree buf (foldl (rebase_one base) buf ts) ({..<length buf} - time_fields ts)
    \<and> (\<forall>t\<in>set ts. field_value (foldl (rebase_one base) buf ts) t = td_value (rebased base t))"
  using assms
proof (induction ts arbitrary: buf)
  case Nil
  then show ?case by (simp add: agree_def)
next
  case (Cons t ts)
  let ?one = "rebase_one base buf t" and ?out = "foldl (rebase_one base) (rebase_one base buf t) ts"
  have t: "td_end t \<le> length buf" "td_value t < 2 ^ (8 * td_width t)" "field_value buf t = td_value t"
    using Cons.prems(2) [of t] by auto
  note one = rebase_one_agree [OF t(1), of base]
  then have len: "length ?one = length buf" by (simp add: agree_def)
  have later: "td_end t \<le> td_offset u" "td_end u \<le> length buf" if "u \<in> set ts" for u
    using Cons.prems that by auto
  have keep: "field_value ?one u = field_value buf u" if "u \<in> set ts" for u
    by (rule field_value_agree, rule agree_mono [OF one]) (use later [OF that] in auto)
  have ih: "agree ?one ?out ({..<length buf} - time_fields ts)" "\<forall>u\<in>set ts. field_value ?out u = td_value (rebased base u)"
    using Cons.IH [of ?one] Cons.prems len keep by auto
  have tf: "time_fields (t # ts) = {td_offset t..<td_end t} \<union> time_fields ts" by (simp add: time_fields_def)
  have "agree buf ?out ({..<length buf} - time_fields (t # ts))"
    by (rule agree_mono [OF agree_trans [OF one ih(1)]]) (auto simp: tf)
  moreover have "field_value ?out t = field_value ?one t"
    by (rule field_value_agree, rule agree_mono [OF ih(1)]) (use t later(1) in \<open>fastforce simp: time_fields_def\<close>)
  ultimately show ?case using ih(2) rebase_one_value [OF t, of base] by simp
qed

lemma readU64_bound: "readU64 buf off = Some v \<Longrightarrow> v < 2 ^ 64"
  using readU32_bound [of buf off] readU32_bound [of buf "off + 4"] by (fastforce simp: readU64_def bind_eq_Some_conv)

lemma field_value_bound:
  assumes "td_end t \<le> length buf"
  shows "field_value buf t < 2 ^ (8 * td_width t)"
  using assms readU64_Some [of "td_offset t" buf] readU32_Some [of "td_offset t" buf] readU64_bound [of buf "td_offset t"] readU32_bound [of buf "td_offset t"]
  by (auto simp: field_value_def td_end_def td_width_def split: if_splits)

text \<open>
  C15. A segment with moved times: reading its times gives the times of the segment without its index, each reduced by
  the base of its track but not below 0, tracks without a base as they were; every other byte is unchanged.
\<close>

theorem rebase_times:
  assumes "without_index buf = Some plain" "tfdtsOf plain = Some ts" "times_ok plain"
  shows "\<exists>out. rebase buf base = Some out \<and> tfdtsOf out = Some (map (rebased base) ts) \<and> length out = length plain
    \<and> (\<forall>i<length plain. i \<notin> time_fields ts \<longrightarrow> out ! i = plain ! i)"
proof -
  let ?out = "foldl (rebase_one base) plain ts"
  note si = segment_inside [OF assms(2,3)]
  have "Some ts = Some (map (reread plain) ts)"
    using reads_insideD(3) [OF si, of plain] assms(2) by (simp add: agree_def tfdtsOf_def)
  then have "reread plain t = t" if "t \<in> set ts" for t using that by (metis in_set_conv_nth length_map nth_map option.inject)
  then have "field_value plain t = td_value t" if "t \<in> set ts" for t using that unfolding reread_def by (metis tfdt.select_convs(4) tfdt.surjective tfdt.update_convs(4))
  moreover have "td_end t \<le> length plain" if "t \<in> set ts" for t using reads_insideD(2) [OF si that] by simp
  ultimately have "td_end t \<le> length plain \<and> td_value t < 2 ^ (8 * td_width t) \<and> field_value plain t = td_value t" if "t \<in> set ts" for t
    using field_value_bound [of t plain] that by metis
  then have f: "agree plain ?out ({..<length plain} - time_fields ts)" "\<forall>t\<in>set ts. field_value ?out t = td_value (rebased base t)"
    using rebase_fold [OF reads_insideD(1) [OF si], of plain base] by blast+
  have "map (reread ?out) ts = map (rebased base) ts" using f(2) by (simp add: reread_def rebased_def)
  moreover have "tfdtsOf ?out = Some (map (reread ?out) ts)"
    using reads_insideD(3) [OF si, of ?out] f(1) by (simp add: tfdtsOf_def agree_def)
  ultimately show ?thesis using f(1) assms(1,2) by (auto simp: rebase_def agree_def)
qed

definition sample_segment :: "nat \<Rightarrow> bytes" where
  "sample_segment v =
     boxed ''styp'' [] @
     boxed ''moof'' (boxed ''traf'' (boxed ''tfhd'' [0, 0, 0, 0, 0, 0, 0, 7] @ boxed ''tfdt'' ([1, 0, 0, 0] @ long_bytes v))) @
     boxed ''mdat'' [9, 9]"

theorem rebase_times_witness:
  "\<exists>out. rebase (sample_segment 90500) [(7, 90000)] = Some out
     \<and> tfdtsOf out = Some [\<lparr>td_trackId = 7, td_offset = 44, td_version = 1, td_value = 500\<rparr>] \<and> length out = 62
     \<and> (\<forall>i<62. i \<notin> {44..<52} \<longrightarrow> out ! i = drop 8 (sample_segment 90500) ! i)"
proof -
  have "without_index (sample_segment 90500) = Some (drop 8 (sample_segment 90500))" by code_simp
  moreover have "tfdtsOf (drop 8 (sample_segment 90500)) = Some [\<lparr>td_trackId = 7, td_offset = 44, td_version = 1, td_value = 90500\<rparr>]" by code_simp
  moreover have "times_ok (drop 8 (sample_segment 90500))" by code_simp
  moreover have "length (drop 8 (sample_segment 90500)) = 62" by code_simp
  ultimately show ?thesis
    using rebase_times [of "sample_segment 90500" "drop 8 (sample_segment 90500)" "[\<lparr>td_trackId = 7, td_offset = 44, td_version = 1, td_value = 90500\<rparr>]" "[(7, 90000)]"]
    by (simp add: rebased_def time_fields_def td_end_def td_width_def)
qed

end
