(* ===== verification/Edge_Process.thy ===== *)
theory Edge_Process
  imports Edge_Limits Edge_Protocol "HOL-Library.Multiset"
begin

text \<open>
  The process of one plugin (\<open>src/src/edge/pluginProcess.js\<close>) as a machine of events: calls of the host,
  messages, output and exit of the child, and timers. What a handler does to the outside (messages, kills, emitted
  events, settled promises) is appended to \<open>ep_out\<close>, with the child that sends or receives. Each \<open>fork\<close> gives a new identity, since the handlers compare
  children by identity. The clock is read once per event. Dashes in log texts are written as hyphens.
\<close>

section \<open>Limits and times\<close>

definition LIM_openCallsPerPlugin :: nat where
  "LIM_openCallsPerPlugin = 32"

definition LIM_hostCallsPerPlugin :: nat where
  "LIM_hostCallsPerPlugin = 64"

definition LIM_eventsPerSec :: nat where
  "LIM_eventsPerSec = 50"

definition LIM_logsPerSec :: nat where
  "LIM_logsPerSec = 20"

definition LIM_logLineBytes :: nat where
  "LIM_logLineBytes = 2048"

definition LIM_callTimeoutDefaultMs :: rat where
  "LIM_callTimeoutDefaultMs = 30000"

definition RESTART_BACKOFF_MS :: "int list" where
  "RESTART_BACKOFF_MS = [1000, 2000, 5000, 15000, 30000, 60000, 300000]"

definition TIM_stableAfterMs :: int where
  "TIM_stableAfterMs = 10 * 60 * 1000"

definition TIM_childDeadMs :: int where
  "TIM_childDeadMs = 75000"

section \<open>State\<close>

datatype proc_state = Stopped | Starting | Running | Crashed | Stopping

datatype call_error = Not_running | Too_many_calls | Call_timeout | Edge_error string string

text \<open>The first component of an error is its code when it has one, then the message and the additional data.\<close>

type_synonym host_error = "string option \<times> string \<times> json"

datatype child_msg =
    Init_msg string string string json
  | Call_msg nat string json
  | Host_busy json
  | Host_value json json
  | Host_failed json string string json
  | Ping_msg nat
  | Stop_msg
  | Configure_msg json

datatype proc_out =
    To_child nat child_msg
  | Kill nat
  | Emit_state proc_state
  | Emit_started
  | Emit_exit
  | Emit_event string json
  | Emit_log string bytes
  | Host_call nat json string json
  | Settled nat "call_error + json"
  | Stop_done nat

record plugin_spec =
  sp_id :: string
  sp_version :: string
  sp_dir :: string
  sp_entry :: string
  sp_memoryMb :: int

record proc =
  ep_spec :: plugin_spec
  ep_state :: proc_state
  ep_wanted :: bool
  ep_child :: "nat option"
  ep_forks :: nat
  ep_seq :: nat
  ep_pending :: "(nat, nat \<times> rat) jsmap"
  ep_hostCalls :: nat
  ep_restarts :: nat
  ep_backoffIdx :: nat
  ep_restartTimer :: bool
  ep_restartAt :: "int option"
  ep_readyTimer :: "nat option"
  ep_pingTimer :: bool
  ep_lastPong :: int
  ep_startedAt :: int
  ep_lastError :: "string option"
  ep_events :: rate_window
  ep_logs :: rate_window
  ep_stopResolve :: "nat option"
  ep_stdout :: string
  ep_stderr :: string
  ep_out :: "proc_out list"

definition newProc :: "plugin_spec \<Rightarrow> proc" where
  "newProc sp =
     \<lparr>ep_spec = sp, ep_state = Stopped, ep_wanted = False, ep_child = None, ep_forks = 0, ep_seq = 0, ep_pending = [], ep_hostCalls = 0,
      ep_restarts = 0, ep_backoffIdx = 0, ep_restartTimer = False, ep_restartAt = None, ep_readyTimer = None, ep_pingTimer = False,
      ep_lastPong = 0, ep_startedAt = 0, ep_lastError = None, ep_events = newWindow LIM_eventsPerSec 1000,
      ep_logs = newWindow LIM_logsPerSec 1000, ep_stopResolve = None, ep_stdout = [], ep_stderr = [], ep_out = []\<rparr>"

text \<open>
  What an event needs of the platform: the time, whether \<open>fork\<close> throws, whether the child's channel takes a message,
  the plugin's configuration, \<open>path.join\<close>, the two directions of UTF-8.
\<close>

record proc_world =
  pw_now :: int
  pw_forkError :: "string option"
  pw_connected :: bool
  pw_config :: json
  pw_join :: "string \<Rightarrow> string \<Rightarrow> string"
  pw_utf8 :: "string \<Rightarrow> bytes"
  pw_text :: "bytes \<Rightarrow> string"
  pw_platform :: platform

section \<open>Helpers\<close>

definition out1 :: "proc_out \<Rightarrow> proc \<Rightarrow> proc" where
  "out1 x s = s\<lparr>ep_out := ep_out s @ [x]\<rparr>"

definition setState :: "proc_state \<Rightarrow> proc \<Rightarrow> proc" where
  "setState st s = (if ep_state s = st then s else out1 (Emit_state st) (s\<lparr>ep_state := st\<rparr>))"

definition proc_log :: "proc_world \<Rightarrow> string \<Rightarrow> string \<Rightarrow> proc \<Rightarrow> proc" where
  "proc_log w level line s =
     (case rate_take (pw_now w) (ep_logs s) of
        (False, lw) \<Rightarrow> s\<lparr>ep_logs := lw\<rparr>
      | (True, lw) \<Rightarrow> out1 (Emit_log level (truncateUtf8 (pw_utf8 w line) LIM_logLineBytes)) (s\<lparr>ep_logs := lw\<rparr>))"

definition toChild :: "proc_world \<Rightarrow> child_msg \<Rightarrow> proc \<Rightarrow> bool \<times> proc" where
  "toChild w m s =
     (case ep_child s of
        None \<Rightarrow> (False, s)
      | Some c \<Rightarrow> if pw_connected w then (True, out1 (To_child c m) s) else (False, s))"

definition js_truthy :: "json \<Rightarrow> bool" where
  "js_truthy v = (v \<noteq> JUndef \<and> v \<noteq> JNull \<and> v \<noteq> JBool False \<and> v \<noteq> JNum 0 \<and> v \<noteq> JStr [])"

text \<open>\<open>String(v || d)\<close>.\<close>

definition text_or :: "proc_world \<Rightarrow> json \<Rightarrow> string \<Rightarrow> string" where
  "text_or w v d = (if js_truthy v then jsString (pw_platform w) v else d)"

definition first_line :: "string \<Rightarrow> string" where
  "first_line s = hd (split_on (char_of (10 :: nat)) s)"

definition clearTimers :: "proc \<Rightarrow> proc" where
  "clearTimers s = s\<lparr>ep_pingTimer := False, ep_readyTimer := None\<rparr>"

definition nextBackoff :: "proc_world \<Rightarrow> proc \<Rightarrow> int \<times> proc" where
  "nextBackoff w s =
     (let i = (if ep_startedAt s \<noteq> 0 \<and> TIM_stableAfterMs < pw_now w - ep_startedAt s then 0 else ep_backoffIdx s)
      in (RESTART_BACKOFF_MS ! min i (length RESTART_BACKOFF_MS - 1), s\<lparr>ep_backoffIdx := i + 1\<rparr>))"

section \<open>The end of a child\<close>

definition reject_all :: "proc \<Rightarrow> proc" where
  "reject_all s =
     foldl (\<lambda>s (i, k, t). out1 (Settled k (Inl (Edge_error ''not_running'' ''edge part ended''))) s) s (ep_pending s)
       \<lparr>ep_pending := []\<rparr>"

definition resolve_stop :: "proc \<Rightarrow> proc" where
  "resolve_stop s = (case ep_stopResolve s of None \<Rightarrow> s | Some k \<Rightarrow> out1 (Stop_done k) (s\<lparr>ep_stopResolve := None\<rparr>))"

definition int_text :: "int \<Rightarrow> string" where
  "int_text i = (if i < 0 then CHR ''-'' # dec_string (nat (- i)) else dec_string (nat i))"

text \<open>\<open>why\<close> is the signal or exit code as text, \<open>err\<close> the exception of a failed start. The delays are whole seconds.\<close>

definition schedule_restart :: "proc_world \<Rightarrow> string \<Rightarrow> string option \<Rightarrow> proc \<Rightarrow> proc" where
  "schedule_restart w why err s =
     (case nextBackoff w (s\<lparr>ep_restarts := ep_restarts s + 1\<rparr>) of
        (delay, s2) \<Rightarrow>
          let s3 = s2\<lparr>ep_lastError := (if ep_lastError s2 \<noteq> None \<and> ep_lastError s2 \<noteq> Some [] then ep_lastError s2
                                        else case err of Some e \<Rightarrow> Some e | None \<Rightarrow> Some (''exited ('' @ why @ '')''))\<rparr>;
              s4 = setState Crashed (proc_log w ''error'' (''process ended ('' @ why @ '') - restart in '' @ int_text (delay div 1000) @ '' s'') s3)
          in s4\<lparr>ep_restartAt := Some (pw_now w + delay), ep_restartTimer := True\<rparr>)"

definition onExit :: "proc_world \<Rightarrow> string \<Rightarrow> string option \<Rightarrow> nat option \<Rightarrow> proc \<Rightarrow> proc" where
  "onExit w why err who s =
     (if who \<noteq> None \<and> ep_child s \<noteq> who then s
      else let s1 = resolve_stop (reject_all (out1 Emit_exit (clearTimers (s\<lparr>ep_child := None\<rparr>))))
        in if \<not> ep_wanted s1 then setState Stopped s1 else schedule_restart w why err s1)"

section \<open>Starting and stopping\<close>

text \<open>\<open>None\<close>: the entry lies outside of the plugin's folder.\<close>

definition spawn :: "proc_world \<Rightarrow> proc \<Rightarrow> proc option" where
  "spawn w s =
     (if ep_child s \<noteq> None then Some s
      else let sp = ep_spec s; entryPath = pw_join w (sp_dir sp) (sp_entry sp)
        in if \<not> prefix (sp_dir sp @ ''/'') entryPath then None
           else let s1 = setState Starting (s\<lparr>ep_startedAt := pw_now w, ep_lastPong := pw_now w\<rparr>)
             in case pw_forkError w of
                  Some e \<Rightarrow> Some (onExit w ''null'' (Some e) None s1)
                | None \<Rightarrow>
                    let c = ep_forks s1;
                        s2 = s1\<lparr>ep_child := Some c, ep_forks := c + 1, ep_readyTimer := Some c, ep_stdout := [], ep_stderr := []\<rparr>
                    in Some (snd (toChild w (Init_msg (sp_id sp) (sp_version sp) entryPath (pw_config w)) s2)))"

definition proc_start :: "proc_world \<Rightarrow> proc \<Rightarrow> proc option" where
  "proc_start w s =
     (let s1 = s\<lparr>ep_wanted := True\<rparr>
      in if ep_child s1 \<noteq> None \<or> ep_restartTimer s1 then Some s1
         else spawn w (s1\<lparr>ep_backoffIdx := 0, ep_lastError := None\<rparr>))"

text \<open>\<open>k\<close> names the promise that is returned. The kill after the grace period is the event \<open>Grace_over\<close>.\<close>

definition proc_stop :: "proc_world \<Rightarrow> nat \<Rightarrow> proc \<Rightarrow> proc" where
  "proc_stop w k s =
     (let s1 = s\<lparr>ep_wanted := False, ep_restartTimer := False, ep_restartAt := (if ep_restartTimer s then None else ep_restartAt s)\<rparr>
      in if ep_child s1 = None then out1 (Stop_done k) (setState Stopped s1)
         else snd (toChild w Stop_msg ((setState Stopping s1)\<lparr>ep_stopResolve := Some k\<rparr>)))"

definition restart_due :: "proc_world \<Rightarrow> proc \<Rightarrow> proc" where
  "restart_due w s =
     (let s1 = s\<lparr>ep_restartTimer := False, ep_restartAt := None\<rparr>
      in if \<not> ep_wanted s1 then s1
         else case spawn w s1 of Some s2 \<Rightarrow> s2 | None \<Rightarrow> onExit w ''null'' (Some ''entry outside the plugin folder'') None s1)"

section \<open>Calls\<close>

definition callLimit :: "rat option \<Rightarrow> rat" where
  "callLimit t = max 1 (min LIM_callTimeoutMaxMs (case t of Some x \<Rightarrow> x | None \<Rightarrow> LIM_callTimeoutDefaultMs))"

definition proc_call :: "proc_world \<Rightarrow> nat \<Rightarrow> string \<Rightarrow> json \<Rightarrow> rat option \<Rightarrow> proc \<Rightarrow> proc" where
  "proc_call w k method params t s =
     (if ep_state s \<noteq> Running \<or> ep_child s = None then out1 (Settled k (Inl Not_running)) s
      else if LIM_openCallsPerPlugin \<le> length (ep_pending s) then out1 (Settled k (Inl Too_many_calls)) s
      else let i = ep_seq s + 1;
               s1 = s\<lparr>ep_seq := i, ep_pending := mset_at i (k, callLimit t) (ep_pending s)\<rparr>
        in case toChild w (Call_msg i method (if params = JUndef then JNull else params)) s1 of
             (True, s2) \<Rightarrow> s2
           | (False, s2) \<Rightarrow> out1 (Settled k (Inl Not_running)) (s2\<lparr>ep_pending := mdelete i (ep_pending s2)\<rparr>))"

text \<open>Settling the call \<open>i\<close> when it is open: its result has come or its timer has fired.\<close>

definition settle_call :: "nat \<Rightarrow> (call_error + json) \<Rightarrow> proc \<Rightarrow> proc" where
  "settle_call i r s =
     (case map_of (ep_pending s) i of
        None \<Rightarrow> s
      | Some (k, t) \<Rightarrow> out1 (Settled k r) (s\<lparr>ep_pending := mdelete i (ep_pending s)\<rparr>))"

fun pending_id :: "json \<Rightarrow> nat option" where
  "pending_id (JNum r) = (if 0 \<le> r \<and> of_int \<lfloor>r\<rfloor> = r then Some (nat \<lfloor>r\<rfloor>) else None)"
| "pending_id _ = None"

definition result_of :: "proc_world \<Rightarrow> (string \<times> json) list \<Rightarrow> call_error + json" where
  "result_of w ms =
     (if js_truthy (field ms ''ok'') then Inr (field ms ''value'')
      else Inl (Edge_error (case field ms ''code'' of JStr c \<Rightarrow> take 32 c | _ \<Rightarrow> ''edge_error'') (take 500 (text_or w (field ms ''error'') ''edge error''))))"

section \<open>Messages of the child\<close>

definition EVENT_RE :: "string \<Rightarrow> bool" where
  "EVENT_RE = re_class (\<lambda>c. is_alnum c \<or> c \<in> set ''._:-'') 1 64"

definition onHostCall :: "proc_world \<Rightarrow> (string \<times> json) list \<Rightarrow> proc \<Rightarrow> proc" where
  "onHostCall w ms s =
     (if LIM_hostCallsPerPlugin \<le> ep_hostCalls s then snd (toChild w (Host_busy (field ms ''id'')) s)
      else out1 (Host_call (case ep_child s of Some c \<Rightarrow> c | None \<Rightarrow> 0) (field ms ''id'') (text_or w (field ms ''api'') []) (case field ms ''args'' of JObj a \<Rightarrow> JObj a | JArr a \<Rightarrow> JArr a | _ \<Rightarrow> JObj []))
             (s\<lparr>ep_hostCalls := ep_hostCalls s + 1\<rparr>))"

definition on_event :: "proc_world \<Rightarrow> (string \<times> json) list \<Rightarrow> proc \<Rightarrow> proc" where
  "on_event w ms s =
     (case field ms ''name'' of
        JStr nm \<Rightarrow>
          if \<not> EVENT_RE nm then s
          else (case rate_take (pw_now w) (ep_events s) of
                  (False, ew) \<Rightarrow> s\<lparr>ep_events := ew\<rparr>
                | (True, ew) \<Rightarrow> out1 (Emit_event nm (if field ms ''data'' = JUndef then JNull else field ms ''data'')) (s\<lparr>ep_events := ew\<rparr>))
      | _ \<Rightarrow> s)"

definition on_ready :: "proc \<Rightarrow> proc" where
  "on_ready s = out1 Emit_started (setState Running (s\<lparr>ep_readyTimer := None, ep_lastError := None, ep_pingTimer := True\<rparr>))"

definition log_level :: "json \<Rightarrow> string" where
  "log_level v = (case v of JStr l \<Rightarrow> if l \<in> set [''info'', ''warn'', ''error''] then l else ''info'' | _ \<Rightarrow> ''info'')"

definition proc_onMessage :: "proc_world \<Rightarrow> json \<Rightarrow> proc \<Rightarrow> proc" where
  "proc_onMessage w m s =
     (let ms = members m
      in case field ms ''t'' of
           JStr t \<Rightarrow>
             if t = ''ready'' then on_ready s
             else if t = ''fatal'' then
               proc_log w ''error'' (''start failed: '' @ take 1800 (text_or w (field ms ''error'') []))
                 (s\<lparr>ep_lastError := Some (take 300 (first_line (text_or w (field ms ''error'') ''start failed'')))\<rparr>)
             else if t = ''log'' then proc_log w (log_level (field ms ''level'')) (text_or w (field ms ''line'') []) s
             else if t = ''event'' then on_event w ms s
             else if t = ''pong'' then s\<lparr>ep_lastPong := pw_now w\<rparr>
             else if t = ''result'' then (case pending_id (field ms ''id'') of None \<Rightarrow> s | Some i \<Rightarrow> settle_call i (result_of w ms) s)
             else if t = ''host'' then onHostCall w ms s
             else s
         | _ \<Rightarrow> s)"

text \<open>The answer of the host to a call of the plugin.\<close>

definition host_done :: "proc_world \<Rightarrow> json \<Rightarrow> host_error + json \<Rightarrow> proc \<Rightarrow> proc" where
  "host_done w mid r s =
     (case snd (toChild w (case r of
                   Inr v \<Rightarrow> Host_value mid (if v = JUndef then JNull else v)
                 | Inl (code, msg, dat) \<Rightarrow> Host_failed mid (take 300 msg) (case code of Some c \<Rightarrow> c | None \<Rightarrow> ''edge_error'') (if isObj dat then dat else JUndef)) s) of
        s1 \<Rightarrow> s1\<lparr>ep_hostCalls := ep_hostCalls s1 - 1\<rparr>)"

section \<open>Timers and output\<close>

definition ready_timeout :: "proc_world \<Rightarrow> nat \<Rightarrow> proc \<Rightarrow> proc" where
  "ready_timeout w c s =
     (if ep_child s \<noteq> Some c \<or> ep_state s \<noteq> Starting then s
      else out1 (Kill c) (proc_log w ''error'' ''edge part did not start in time'' (s\<lparr>ep_lastError := Some ''start timeout''\<rparr>)))"

definition ping_tick :: "proc_world \<Rightarrow> proc \<Rightarrow> proc" where
  "ping_tick w s =
     (case ep_child s of
        None \<Rightarrow> s
      | Some c \<Rightarrow>
          if ep_state s \<noteq> Running then s
          else if TIM_childDeadMs < pw_now w - ep_lastPong s then
            out1 (Kill c) (proc_log w ''error'' ''edge part stopped answering - restarting'' s)
          else snd (toChild w (Ping_msg (ep_seq s + 1)) (s\<lparr>ep_seq := ep_seq s + 1\<rparr>)))"

fun contains :: "string \<Rightarrow> string \<Rightarrow> bool" where
  "contains p [] = (p = [])"
| "contains p (c # cs) = (prefix p (c # cs) \<or> contains p cs)"

definition noise :: "string \<Rightarrow> bool" where
  "noise line = (contains ''ExperimentalWarning'' line \<or> contains ''--trace-warnings'' line)"

definition keep_last :: "nat \<Rightarrow> 'a list \<Rightarrow> 'a list" where
  "keep_last n xs = drop (length xs - n) xs"

definition on_output :: "proc_world \<Rightarrow> bool \<Rightarrow> bytes \<Rightarrow> proc \<Rightarrow> proc" where
  "on_output w is_err chunk s =
     (let level = (if is_err then ''error'' else ''info'');
          parts = split_on (char_of (10 :: nat)) (keep_last 65536 ((if is_err then ep_stderr s else ep_stdout s) @ pw_text w chunk));
          logged = filter (\<lambda>l. l \<noteq> [] \<and> \<not> noise l) (map trim (butlast parts));
          s1 = foldl (\<lambda>s l. proc_log w level l s) s logged
      in if is_err then s1\<lparr>ep_stderr := last parts\<rparr> else s1\<lparr>ep_stdout := last parts\<rparr>)"

section \<open>Events\<close>

datatype proc_event =
    Start
  | Stop nat
  | Call nat string json "rat option"
  | Configure json
  | Message json
  | Child_error string
  | Exit nat string
  | Output bool bytes
  | Ready_timer nat
  | Ping_timer
  | Restart_timer
  | Call_timer nat
  | Grace_over nat
  | Host_done json "host_error + json"

text \<open>What can happen: timers that are set, messages and output of the current child, answers to calls that are under way.\<close>

fun enabled :: "proc_event \<Rightarrow> proc \<Rightarrow> bool" where
  "enabled (Message m) s = (ep_child s \<noteq> None)"
| "enabled (Output e b) s = (ep_child s \<noteq> None)"
| "enabled (Ready_timer c) s = (ep_readyTimer s = Some c)"
| "enabled Ping_timer s = ep_pingTimer s"
| "enabled Restart_timer s = ep_restartTimer s"
| "enabled (Call_timer i) s = (i \<in> fst ` set (ep_pending s))"
| "enabled (Host_done m r) s = (0 < ep_hostCalls s)"
| "enabled _ s = True"

fun proc_step :: "proc_world \<times> proc_event \<Rightarrow> proc \<Rightarrow> proc option" where
  "proc_step (w, Start) s = proc_start w s"
| "proc_step (w, Stop k) s = Some (proc_stop w k s)"
| "proc_step (w, Call k m p t) s = Some (proc_call w k m p t s)"
| "proc_step (w, Configure d) s = Some (snd (toChild w (Configure_msg d) s))"
| "proc_step (w, Message m) s = Some (proc_onMessage w m s)"
| "proc_step (w, Child_error e) s = Some (s\<lparr>ep_lastError := Some e\<rparr>)"
| "proc_step (w, Exit c why) s = Some (onExit w why None (Some c) s)"
| "proc_step (w, Output e b) s = Some (on_output w e b s)"
| "proc_step (w, Ready_timer c) s = Some (ready_timeout w c (s\<lparr>ep_readyTimer := None\<rparr>))"
| "proc_step (w, Ping_timer) s = Some (ping_tick w s)"
| "proc_step (w, Restart_timer) s = Some (restart_due w s)"
| "proc_step (w, Call_timer i) s = Some (settle_call i (Inl Call_timeout) s)"
| "proc_step (w, Grace_over c) s = Some (out1 (Kill c) s)"
| "proc_step (w, Host_done m r) s = Some (host_done w m r s)"

text \<open>The run of a process; an event that cannot happen is skipped.\<close>

definition guarded_step :: "proc_world \<times> proc_event \<Rightarrow> proc \<Rightarrow> proc option" where
  "guarded_step e s = (if enabled (snd e) s then proc_step e s else Some s)"

section \<open>What the helpers leave alone\<close>

named_theorems proc_frame

lemma out1_frame [simp, proc_frame]:
  "ep_spec (out1 x s) = ep_spec s" "ep_state (out1 x s) = ep_state s" "ep_wanted (out1 x s) = ep_wanted s" "ep_child (out1 x s) = ep_child s"
  "ep_seq (out1 x s) = ep_seq s" "ep_pending (out1 x s) = ep_pending s" "ep_hostCalls (out1 x s) = ep_hostCalls s"
  "ep_restartTimer (out1 x s) = ep_restartTimer s" "ep_restartAt (out1 x s) = ep_restartAt s" "ep_readyTimer (out1 x s) = ep_readyTimer s"
  "ep_pingTimer (out1 x s) = ep_pingTimer s" "ep_stopResolve (out1 x s) = ep_stopResolve s" "ep_forks (out1 x s) = ep_forks s"
  "ep_lastError (out1 x s) = ep_lastError s" "ep_restarts (out1 x s) = ep_restarts s" "ep_backoffIdx (out1 x s) = ep_backoffIdx s"
  by (simp_all add: out1_def)

lemma proc_log_frame [simp, proc_frame]:
  "ep_spec (proc_log w l t s) = ep_spec s" "ep_state (proc_log w l t s) = ep_state s" "ep_wanted (proc_log w l t s) = ep_wanted s"
  "ep_child (proc_log w l t s) = ep_child s" "ep_seq (proc_log w l t s) = ep_seq s" "ep_pending (proc_log w l t s) = ep_pending s"
  "ep_hostCalls (proc_log w l t s) = ep_hostCalls s" "ep_restartTimer (proc_log w l t s) = ep_restartTimer s"
  "ep_restartAt (proc_log w l t s) = ep_restartAt s" "ep_readyTimer (proc_log w l t s) = ep_readyTimer s"
  "ep_pingTimer (proc_log w l t s) = ep_pingTimer s" "ep_stopResolve (proc_log w l t s) = ep_stopResolve s"
  by (simp_all add: proc_log_def split: prod.split bool.split)

lemma toChild_frame [simp, proc_frame]:
  "ep_spec (snd (toChild w m s)) = ep_spec s" "ep_state (snd (toChild w m s)) = ep_state s" "ep_wanted (snd (toChild w m s)) = ep_wanted s"
  "ep_child (snd (toChild w m s)) = ep_child s" "ep_seq (snd (toChild w m s)) = ep_seq s" "ep_pending (snd (toChild w m s)) = ep_pending s"
  "ep_hostCalls (snd (toChild w m s)) = ep_hostCalls s" "ep_restartTimer (snd (toChild w m s)) = ep_restartTimer s"
  "ep_restartAt (snd (toChild w m s)) = ep_restartAt s" "ep_readyTimer (snd (toChild w m s)) = ep_readyTimer s"
  "ep_pingTimer (snd (toChild w m s)) = ep_pingTimer s" "ep_stopResolve (snd (toChild w m s)) = ep_stopResolve s"
  by (simp_all add: toChild_def split: option.split)

lemma setState_frame [simp, proc_frame]:
  "ep_spec (setState x s) = ep_spec s" "ep_state (setState x s) = x" "ep_wanted (setState x s) = ep_wanted s" "ep_child (setState x s) = ep_child s"
  "ep_seq (setState x s) = ep_seq s" "ep_pending (setState x s) = ep_pending s" "ep_hostCalls (setState x s) = ep_hostCalls s"
  "ep_restartTimer (setState x s) = ep_restartTimer s" "ep_restartAt (setState x s) = ep_restartAt s" "ep_readyTimer (setState x s) = ep_readyTimer s"
  "ep_pingTimer (setState x s) = ep_pingTimer s" "ep_stopResolve (setState x s) = ep_stopResolve s" "ep_forks (setState x s) = ep_forks s"
  by (simp_all add: setState_def)

section \<open>Calls that are settled and calls that are open\<close>

fun settled_token :: "proc_out \<Rightarrow> nat option" where
  "settled_token (Settled k r) = Some k"
| "settled_token _ = None"

definition settled :: "proc \<Rightarrow> nat multiset" where
  "settled s = mset (List.map_filter settled_token (ep_out s))"

definition open_calls :: "proc \<Rightarrow> nat multiset" where
  "open_calls s = mset (map (\<lambda>(i, k, t). k) (ep_pending s))"

fun call_token :: "proc_event \<Rightarrow> nat multiset" where
  "call_token (Call k m p t) = {#k#}"
| "call_token _ = {#}"

lemma settled_out1: "settled (out1 x s) = settled s + (case settled_token x of None \<Rightarrow> {#} | Some k \<Rightarrow> {#k#})"
  by (simp add: settled_def out1_def map_filter_def split: option.split)

lemma settled_update [simp, proc_frame]:
  "settled (s\<lparr>ep_state := a\<rparr>) = settled s" "settled (s\<lparr>ep_wanted := b\<rparr>) = settled s" "settled (s\<lparr>ep_child := c\<rparr>) = settled s"
  "settled (s\<lparr>ep_forks := n\<rparr>) = settled s" "settled (s\<lparr>ep_seq := n\<rparr>) = settled s" "settled (s\<lparr>ep_pending := p\<rparr>) = settled s"
  "settled (s\<lparr>ep_hostCalls := n\<rparr>) = settled s" "settled (s\<lparr>ep_restarts := n\<rparr>) = settled s" "settled (s\<lparr>ep_backoffIdx := n\<rparr>) = settled s"
  "settled (s\<lparr>ep_restartTimer := b\<rparr>) = settled s" "settled (s\<lparr>ep_restartAt := t\<rparr>) = settled s" "settled (s\<lparr>ep_readyTimer := c\<rparr>) = settled s"
  "settled (s\<lparr>ep_pingTimer := b\<rparr>) = settled s" "settled (s\<lparr>ep_lastPong := i\<rparr>) = settled s" "settled (s\<lparr>ep_startedAt := i\<rparr>) = settled s"
  "settled (s\<lparr>ep_lastError := e\<rparr>) = settled s" "settled (s\<lparr>ep_events := v\<rparr>) = settled s" "settled (s\<lparr>ep_logs := v\<rparr>) = settled s"
  "settled (s\<lparr>ep_stopResolve := c\<rparr>) = settled s" "settled (s\<lparr>ep_stdout := x\<rparr>) = settled s" "settled (s\<lparr>ep_stderr := x\<rparr>) = settled s"
  by (simp_all add: settled_def)

lemma settled_quiet [simp, proc_frame]:
  "settled (setState x s) = settled s" "settled (proc_log w l t s) = settled s" "settled (snd (toChild w m s)) = settled s"
  by (auto simp: setState_def proc_log_def toChild_def settled_out1 split: prod.split bool.split option.split)

lemma reject_fold:
  "settled (foldl (\<lambda>s (i, k, t). out1 (Settled k (Inl e)) s) s ps) = settled s + mset (map (\<lambda>(i, k, t). k) ps)"
  by (induction ps arbitrary: s) (auto simp: settled_out1)

lemma reject_fold_frame: "\<exists>out. foldl (\<lambda>s (i, k, t). out1 (Settled k (Inl e)) s) s ps = s\<lparr>ep_out := out\<rparr>"
proof (induction ps arbitrary: s)
  case Nil
  show ?case by (rule exI [of _ "ep_out s"]) simp
next
  case (Cons p ps)
  obtain i k t where p: "p = (i, k, t)" by (cases p)
  from Cons.IH [of "out1 (Settled k (Inl e)) s"] show ?case by (auto simp: p out1_def)
qed

lemma reject_all_frame [simp, proc_frame]:
  "ep_spec (reject_all s) = ep_spec s" "ep_state (reject_all s) = ep_state s" "ep_wanted (reject_all s) = ep_wanted s" "ep_child (reject_all s) = ep_child s"
  "ep_seq (reject_all s) = ep_seq s" "ep_pending (reject_all s) = []" "ep_hostCalls (reject_all s) = ep_hostCalls s"
  "ep_restartTimer (reject_all s) = ep_restartTimer s" "ep_restartAt (reject_all s) = ep_restartAt s" "ep_readyTimer (reject_all s) = ep_readyTimer s"
  "ep_pingTimer (reject_all s) = ep_pingTimer s" "ep_stopResolve (reject_all s) = ep_stopResolve s"
  "settled (reject_all s) = settled s + open_calls s"
  using reject_fold_frame [of "Edge_error ''not_running'' ''edge part ended''" s "ep_pending s"]
    reject_fold [of "Edge_error ''not_running'' ''edge part ended''" s "ep_pending s"]
  by (auto simp: reject_all_def open_calls_def)

lemma clearTimers_frame [simp, proc_frame]:
  "ep_spec (clearTimers s) = ep_spec s" "ep_state (clearTimers s) = ep_state s" "ep_wanted (clearTimers s) = ep_wanted s" "ep_child (clearTimers s) = ep_child s"
  "ep_pending (clearTimers s) = ep_pending s" "ep_hostCalls (clearTimers s) = ep_hostCalls s" "ep_restartTimer (clearTimers s) = ep_restartTimer s"
  "ep_restartAt (clearTimers s) = ep_restartAt s" "ep_readyTimer (clearTimers s) = None" "\<not> ep_pingTimer (clearTimers s)"
  "ep_stopResolve (clearTimers s) = ep_stopResolve s" "settled (clearTimers s) = settled s"
  by (simp_all add: clearTimers_def)

lemma resolve_stop_frame [simp, proc_frame]:
  "ep_spec (resolve_stop s) = ep_spec s" "ep_state (resolve_stop s) = ep_state s" "ep_wanted (resolve_stop s) = ep_wanted s"
  "ep_child (resolve_stop s) = ep_child s" "ep_seq (resolve_stop s) = ep_seq s" "ep_pending (resolve_stop s) = ep_pending s"
  "ep_hostCalls (resolve_stop s) = ep_hostCalls s" "ep_restartTimer (resolve_stop s) = ep_restartTimer s"
  "ep_restartAt (resolve_stop s) = ep_restartAt s" "ep_readyTimer (resolve_stop s) = ep_readyTimer s"
  "ep_pingTimer (resolve_stop s) = ep_pingTimer s" "ep_stopResolve (resolve_stop s) = None" "settled (resolve_stop s) = settled s"
  by (simp_all add: resolve_stop_def settled_out1 split: option.split)

lemma open_calls_pending: "ep_pending s = [] \<Longrightarrow> open_calls s = {#}"
  by (simp add: open_calls_def)

section \<open>The invariant\<close>

definition proc_ok :: "proc \<Rightarrow> bool" where
  "proc_ok s =
     ((ep_wanted s \<longrightarrow> ep_child s \<noteq> None \<or> ep_restartTimer s)
      \<and> (ep_restartTimer s \<longrightarrow> ep_wanted s \<and> ep_child s = None)
      \<and> (ep_restartTimer s \<longrightarrow> ep_restartAt s \<noteq> None) \<and> (\<not> ep_restartTimer s \<longrightarrow> ep_restartAt s = None)
      \<and> (ep_child s = None \<longrightarrow> ep_pending s = [] \<and> ep_readyTimer s = None \<and> \<not> ep_pingTimer s \<and> ep_stopResolve s = None)
      \<and> (ep_child s = None \<and> ep_wanted s \<longrightarrow> ep_state s = Crashed) \<and> (ep_child s = None \<and> \<not> ep_wanted s \<longrightarrow> ep_state s = Stopped)
      \<and> (ep_child s \<noteq> None \<longrightarrow> ep_state s \<in> {Starting, Running, Stopping})
      \<and> wf_map (ep_pending s) \<and> (\<forall>i\<in>fst ` set (ep_pending s). i \<le> ep_seq s)
      \<and> length (ep_pending s) \<le> LIM_openCallsPerPlugin \<and> ep_hostCalls s \<le> LIM_hostCallsPerPlugin)"

lemma nextBackoff_frame:
  assumes "nextBackoff w s = (d, s')"
  shows "\<exists>i. s' = s\<lparr>ep_backoffIdx := i\<rparr>" "d \<in> set RESTART_BACKOFF_MS"
proof -
  show "\<exists>i. s' = s\<lparr>ep_backoffIdx := i\<rparr>" using assms by (auto simp: nextBackoff_def Let_def)
  have "RESTART_BACKOFF_MS ! min i (length RESTART_BACKOFF_MS - 1) \<in> set RESTART_BACKOFF_MS" for i
    by (rule nth_mem) (simp add: RESTART_BACKOFF_MS_def)
  then show "d \<in> set RESTART_BACKOFF_MS" using assms by (auto simp: nextBackoff_def Let_def)
qed

lemma schedule_restart_frame [simp, proc_frame]:
  "ep_spec (schedule_restart w why err s) = ep_spec s" "ep_wanted (schedule_restart w why err s) = ep_wanted s"
  "ep_child (schedule_restart w why err s) = ep_child s" "ep_pending (schedule_restart w why err s) = ep_pending s"
  "ep_hostCalls (schedule_restart w why err s) = ep_hostCalls s" "ep_readyTimer (schedule_restart w why err s) = ep_readyTimer s"
  "ep_pingTimer (schedule_restart w why err s) = ep_pingTimer s" "ep_stopResolve (schedule_restart w why err s) = ep_stopResolve s"
  "ep_state (schedule_restart w why err s) = Crashed" "ep_restartTimer (schedule_restart w why err s)"
  "settled (schedule_restart w why err s) = settled s"
  and schedule_restart_at: "\<exists>d\<in>set RESTART_BACKOFF_MS. ep_restartAt (schedule_restart w why err s) = Some (pw_now w + d)"
proof -
  obtain d s2 where nb: "nextBackoff w (s\<lparr>ep_restarts := ep_restarts s + 1\<rparr>) = (d, s2)" by fastforce
  obtain i where s2: "s2 = s\<lparr>ep_restarts := ep_restarts s + 1, ep_backoffIdx := i\<rparr>"
    using nextBackoff_frame(1) [OF nb] by blast
  note d = nextBackoff_frame(2) [OF nb]
  show "ep_spec (schedule_restart w why err s) = ep_spec s" "ep_wanted (schedule_restart w why err s) = ep_wanted s"
    "ep_child (schedule_restart w why err s) = ep_child s" "ep_pending (schedule_restart w why err s) = ep_pending s"
    "ep_hostCalls (schedule_restart w why err s) = ep_hostCalls s" "ep_readyTimer (schedule_restart w why err s) = ep_readyTimer s"
    "ep_pingTimer (schedule_restart w why err s) = ep_pingTimer s" "ep_stopResolve (schedule_restart w why err s) = ep_stopResolve s"
    "ep_state (schedule_restart w why err s) = Crashed" "ep_restartTimer (schedule_restart w why err s)"
    "\<exists>d\<in>set RESTART_BACKOFF_MS. ep_restartAt (schedule_restart w why err s) = Some (pw_now w + d)"
    "settled (schedule_restart w why err s) = settled s"
    using d unfolding schedule_restart_def nb prod.case Let_def s2 by (simp_all only: proc_frame) simp_all
qed

lemma onExit_frame:
  assumes "who = None \<or> who = ep_child s"
  shows "ep_spec (onExit w why err who s) = ep_spec s \<and> ep_child (onExit w why err who s) = None
    \<and> ep_wanted (onExit w why err who s) = ep_wanted s \<and> ep_pending (onExit w why err who s) = []
    \<and> ep_readyTimer (onExit w why err who s) = None \<and> \<not> ep_pingTimer (onExit w why err who s) \<and> ep_stopResolve (onExit w why err who s) = None
    \<and> ep_state (onExit w why err who s) = (if ep_wanted s then Crashed else Stopped)
    \<and> ep_restartTimer (onExit w why err who s) = (ep_wanted s \<or> ep_restartTimer s)
    \<and> (ep_restartAt (onExit w why err who s) \<noteq> None) = (ep_wanted s \<or> ep_restartAt s \<noteq> None)
    \<and> ep_hostCalls (onExit w why err who s) = ep_hostCalls s
    \<and> settled (onExit w why err who s) = settled s + open_calls s"
proof -
  let ?s1 = "resolve_stop (reject_all (out1 Emit_exit (clearTimers (s\<lparr>ep_child := None\<rparr>))))"
  have e: "onExit w why err who s = (if \<not> ep_wanted ?s1 then setState Stopped ?s1 else schedule_restart w why err ?s1)"
    using assms by (auto simp: onExit_def Let_def)
  have o: "open_calls (out1 Emit_exit (clearTimers (s\<lparr>ep_child := None\<rparr>))) = open_calls s"
    and c: "settled (out1 Emit_exit (clearTimers (s\<lparr>ep_child := None\<rparr>))) = settled s"
    by (simp_all add: open_calls_def settled_out1)
  show ?thesis unfolding e using schedule_restart_at [of w why err ?s1] by (auto simp: o c)
qed

definition entry_inside :: "proc_world \<Rightarrow> plugin_spec \<Rightarrow> bool" where
  "entry_inside w sp = prefix (sp_dir sp @ ''/'') (pw_join w (sp_dir sp) (sp_entry sp))"

text \<open>What a handler keeps besides the invariant: the plugin it is for, and the count of the calls.\<close>

definition keeps :: "nat multiset \<Rightarrow> proc \<Rightarrow> proc \<Rightarrow> bool" where
  "keeps new s s' = (proc_ok s' \<and> ep_spec s' = ep_spec s \<and> settled s' + open_calls s' = settled s + open_calls s + new)"

lemma keepsI:
  "proc_ok s' \<Longrightarrow> ep_spec s' = ep_spec s \<Longrightarrow> ep_pending s' = ep_pending s \<Longrightarrow> settled s' = settled s + new \<Longrightarrow> keeps new s s'"
  by (simp add: keeps_def open_calls_def)

lemma keeps_trans: "keeps a s t \<Longrightarrow> keeps b t u \<Longrightarrow> keeps (a + b) s u"
  by (simp add: keeps_def)

lemma proc_ok_quiet [simp]:
  "proc_ok (out1 x s) = proc_ok s" "proc_ok (proc_log w l t s) = proc_ok s" "proc_ok (snd (toChild w m s)) = proc_ok s"
  by (simp_all only: proc_ok_def out1_frame proc_log_frame toChild_frame)

lemma proc_ok_irrelevant [simp]:
  "proc_ok (s\<lparr>ep_lastError := e\<rparr>) = proc_ok s" "proc_ok (s\<lparr>ep_events := v\<rparr>) = proc_ok s" "proc_ok (s\<lparr>ep_lastPong := i\<rparr>) = proc_ok s"
  "proc_ok (s\<lparr>ep_stdout := x\<rparr>) = proc_ok s" "proc_ok (s\<lparr>ep_stderr := x\<rparr>) = proc_ok s"
  by (simp_all add: proc_ok_def)

lemma onExit_keeps:
  assumes "proc_ok s" "who = None \<or> who = ep_child s"
  shows "keeps {#} s (onExit w why err who s)"
proof -
  note f = onExit_frame [OF assms(2), of w why err]
  have "open_calls (onExit w why err who s) = {#}" using f by (simp add: open_calls_def)
  with f assms(1) show ?thesis by (auto simp: keeps_def proc_ok_def)
qed

lemma spawn_keeps:
  assumes "ep_child s = None" "ep_wanted s" "\<not> ep_restartTimer s" "ep_restartAt s = None" "ep_pending s = []" "ep_readyTimer s = None"
    "\<not> ep_pingTimer s" "ep_stopResolve s = None" "ep_hostCalls s \<le> LIM_hostCallsPerPlugin" "entry_inside w (ep_spec s)"
  shows "\<exists>s'. spawn w s = Some s' \<and> keeps {#} s s'"
proof -
  let ?s1 = "setState Starting (s\<lparr>ep_startedAt := pw_now w, ep_lastPong := pw_now w\<rparr>)"
  have in1: "prefix (sp_dir (ep_spec s) @ ''/'') (pw_join w (sp_dir (ep_spec s)) (sp_entry (ep_spec s)))"
    using assms(10) by (simp add: entry_inside_def)
  have o: "open_calls s = {#}" "open_calls ?s1 = {#}" using assms by (simp_all add: open_calls_def)
  show ?thesis
  proof (cases "pw_forkError w")
    case (Some e)
    note f = onExit_frame [of None ?s1 w "''null''" "Some e"]
    have "open_calls (onExit w ''null'' (Some e) None ?s1) = {#}" using f by (simp add: open_calls_def)
    with f assms in1 o Some show ?thesis by (auto simp: spawn_def Let_def keeps_def proc_ok_def)
  next
    case None
    with assms in1 o show ?thesis
      by (auto simp: spawn_def Let_def keeps_def proc_ok_def open_calls_def)
  qed
qed

lemma start_keeps:
  assumes "proc_ok s" "entry_inside w (ep_spec s)"
  shows "\<exists>s'. proc_start w s = Some s' \<and> keeps {#} s s'"
proof (cases "ep_child s \<noteq> None \<or> ep_restartTimer s")
  case True
  with assms show ?thesis by (auto simp: proc_start_def keeps_def proc_ok_def open_calls_def)
next
  case False
  let ?s = "s\<lparr>ep_wanted := True, ep_backoffIdx := 0, ep_lastError := None\<rparr>"
  have "\<exists>s'. spawn w ?s = Some s' \<and> keeps {#} ?s s'"
    by (rule spawn_keeps) (use False assms in \<open>auto simp: proc_ok_def\<close>)
  moreover have "keeps {#} s s'" if "keeps {#} ?s s'" for s' using that by (simp add: keeps_def open_calls_def)
  ultimately show ?thesis using False by (auto simp: proc_start_def Let_def)
qed

lemma restart_keeps:
  assumes "proc_ok s" "entry_inside w (ep_spec s)" "ep_restartTimer s"
  shows "keeps {#} s (restart_due w s)"
proof -
  let ?s = "s\<lparr>ep_restartTimer := False, ep_restartAt := None\<rparr>"
  have "\<exists>s'. spawn w ?s = Some s' \<and> keeps {#} ?s s'"
    by (rule spawn_keeps) (use assms in \<open>auto simp: proc_ok_def\<close>)
  moreover have "keeps {#} s s'" if "keeps {#} ?s s'" for s' using that by (simp add: keeps_def open_calls_def)
  ultimately show ?thesis using assms by (auto simp: restart_due_def Let_def proc_ok_def)
qed

lemma stop_keeps: "proc_ok s \<Longrightarrow> keeps {#} s (proc_stop w k s)"
  by (auto simp: proc_stop_def Let_def keeps_def proc_ok_def open_calls_def settled_out1)

lemma mset_mdelete:
  assumes "wf_map m" "map_of m i = Some v"
  shows "mset (map f m) = add_mset (f (i, v)) (mset (map f (mdelete i m)))"
  using assms
proof (induction m)
  case (Cons e m)
  obtain j u where e: "e = (j, u)" by (cases e)
  show ?case
  proof (cases "j = i")
    case True
    then have "mdelete i m = m" using Cons.prems(1) by (intro mdelete_absent) (auto simp: e wf_map_def)
    with True Cons.prems show ?thesis by (simp add: e mdelete_def)
  next
    case False
    with Cons show ?thesis by (simp add: e mdelete_def wf_map_def)
  qed
qed simp

lemma settle_keeps:
  assumes "proc_ok s"
  shows "keeps {#} s (settle_call i r s)"
proof (cases "map_of (ep_pending s) i")
  case None
  with assms show ?thesis by (simp add: settle_call_def keeps_def)
next
  case (Some v)
  obtain k t where v: "v = (k, t)" by (cases v)
  have "wf_map (ep_pending s)" using assms by (simp add: proc_ok_def)
  note m = mset_mdelete [OF this Some, of "\<lambda>(i, k, t). k"]
  have "length (mdelete i (ep_pending s)) \<le> LIM_openCallsPerPlugin"
    using assms length_mdelete_le [of i "ep_pending s"] by (simp add: proc_ok_def)
  with m assms Some v show ?thesis
    by (auto simp: settle_call_def keeps_def proc_ok_def open_calls_def settled_out1)
qed

lemma call_keeps:
  assumes "proc_ok s"
  shows "keeps {#k#} s (proc_call w k m p t s)"
proof (cases "ep_state s \<noteq> Running \<or> ep_child s = None \<or> LIM_openCallsPerPlugin \<le> length (ep_pending s)")
  case True
  then have "\<exists>e. proc_call w k m p t s = out1 (Settled k (Inl e)) s" by (auto simp: proc_call_def)
  with assms show ?thesis by (auto intro!: keepsI simp: settled_out1)
next
  case False
  let ?i = "ep_seq s + 1"
  have new: "?i \<notin> fst ` set (ep_pending s)" using assms by (auto simp: proc_ok_def)
  have ins: "mset_at ?i v (ep_pending s) = ep_pending s @ [(?i, v)]" for v using new by (rule mset_at_absent)
  have del: "mdelete ?i (ep_pending s @ [(?i, v)]) = ep_pending s" for v
    using mdelete_absent [OF new] by (simp add: mdelete_def)
  have wf: "wf_map (ep_pending s @ [(?i, v)])" for v
    using assms new by (auto simp: proc_ok_def wf_map_def)
  let ?s1 = "s\<lparr>ep_seq := ?i, ep_pending := ep_pending s @ [(?i, k, callLimit t)]\<rparr>"
  have ok1: "proc_ok ?s1" using False assms wf [of "(k, callLimit t)"] by (auto simp: proc_ok_def)
  have ok2: "proc_ok (s\<lparr>ep_seq := ?i, ep_pending := ep_pending s\<rparr>)" using False assms by (auto simp: proc_ok_def)
  obtain c where c: "ep_child s = Some c" using False by auto
  show ?thesis
  proof (cases "pw_connected w")
    case True
    then have "proc_call w k m p t s = out1 (To_child c (Call_msg ?i m (if p = JUndef then JNull else p))) ?s1"
      using False c unfolding proc_call_def Let_def ins by (simp add: toChild_def)
    moreover have "open_calls ?s1 = open_calls s + {#k#}" by (simp add: open_calls_def)
    ultimately show ?thesis using ok1 by (simp add: keeps_def open_calls_def settled_out1)
  next
    case not_connected: False
    then have "proc_call w k m p t s = out1 (Settled k (Inl Not_running)) (s\<lparr>ep_seq := ?i, ep_pending := ep_pending s\<rparr>)"
      using False c del [of "(k, callLimit t)"] unfolding proc_call_def Let_def ins by (simp add: toChild_def)
    with ok2 show ?thesis by (auto intro!: keepsI simp: settled_out1)
  qed
qed

lemma log_fold_keeps: "proc_ok s \<Longrightarrow> keeps {#} s (foldl (\<lambda>s l. proc_log w level l s) s ls)"
proof (induction ls arbitrary: s)
  case Nil
  then show ?case by (simp add: keeps_def)
next
  case (Cons l ls)
  have "keeps {#} s (proc_log w level l s)" using Cons.prems by (auto intro: keepsI)
  from keeps_trans [OF this Cons.IH] Cons.prems show ?case by simp
qed

lemma ready_keeps: "proc_ok s \<Longrightarrow> ep_child s \<noteq> None \<Longrightarrow> keeps {#} s (on_ready s)"
  by (rule keepsI) (auto simp: on_ready_def proc_ok_def settled_out1)

lemma host_call_keeps: "proc_ok s \<Longrightarrow> keeps {#} s (onHostCall w ms s)"
  by (rule keepsI) (auto simp: onHostCall_def settled_out1 proc_ok_def)

lemma event_keeps: "proc_ok s \<Longrightarrow> keeps {#} s (on_event w ms s)"
  by (rule keepsI) (auto simp: on_event_def settled_out1 split: json.split prod.split bool.split)

lemma message_keeps:
  assumes "proc_ok s" "ep_child s \<noteq> None"
  shows "keeps {#} s (proc_onMessage w m s)"
proof -
  have same: "keeps {#} s s" using assms(1) by (auto intro: keepsI)
  have "keeps {#} s (proc_log w l t s)" for l t using assms(1) by (auto intro: keepsI)
  moreover have "keeps {#} s (proc_log w l t (s\<lparr>ep_lastError := e\<rparr>))" for l t e using assms(1) by (auto intro: keepsI)
  moreover have "keeps {#} s (s\<lparr>ep_lastPong := i\<rparr>)" for i using assms(1) by (auto intro: keepsI)
  ultimately show ?thesis
    using same ready_keeps [OF assms] host_call_keeps [OF assms(1)] event_keeps [OF assms(1)] settle_keeps [OF assms(1)]
    by (simp add: proc_onMessage_def Let_def split: json.split option.split)
qed

lemma output_keeps:
  assumes "proc_ok s"
  shows "keeps {#} s (on_output w e b s)"
proof -
  have "keeps {#} s (s'\<lparr>ep_stderr := x\<rparr>)" "keeps {#} s (s'\<lparr>ep_stdout := x\<rparr>)" if "keeps {#} s s'" for s' x
    using that by (simp_all add: keeps_def open_calls_def)
  then show ?thesis using log_fold_keeps [OF assms] by (simp add: on_output_def Let_def)
qed

lemma host_done_keeps: "proc_ok s \<Longrightarrow> keeps {#} s (host_done w mid r s)"
  by (rule keepsI) (auto simp: host_done_def proc_ok_def)

lemma ready_timeout_keeps: "proc_ok s \<Longrightarrow> keeps {#} s (ready_timeout w c (s\<lparr>ep_readyTimer := None\<rparr>))"
  by (rule keepsI) (auto simp: ready_timeout_def settled_out1 proc_ok_def)

lemma ping_keeps: "proc_ok s \<Longrightarrow> keeps {#} s (ping_tick w s)"
  by (rule keepsI) (auto simp: ping_tick_def settled_out1 proc_ok_def split: option.split)

lemma step_keeps:
  assumes "proc_ok s" "entry_inside (fst e) (ep_spec s)"
  shows "\<exists>s'. guarded_step e s = Some s' \<and> keeps (call_token (snd e)) s s'"
proof -
  obtain w ev where e: "e = (w, ev)" by (cases e)
  have same: "keeps {#} s s" using assms(1) by (auto intro: keepsI)
  have err: "keeps {#} s (s\<lparr>ep_lastError := x\<rparr>)" "keeps {#} s (out1 (Kill c) s)" "keeps {#} s (snd (toChild w m s))" for x c m
    using assms(1) by (auto intro!: keepsI simp: settled_out1)
  have exit: "keeps {#} s (onExit w why None (Some c) s)" for c why
    using same onExit_keeps [OF assms(1), of "Some c"] by (cases "ep_child s = Some c") (simp_all add: onExit_def)
  show ?thesis
    using assms same err exit start_keeps [OF assms(1)] restart_keeps [OF assms(1)] stop_keeps [OF assms(1)] call_keeps [OF assms(1)]
      message_keeps [OF assms(1)] output_keeps [OF assms(1)] host_done_keeps [OF assms(1)] ready_timeout_keeps [OF assms(1)]
      ping_keeps [OF assms(1)] settle_keeps [OF assms(1)]
    by (cases ev) (simp_all add: e guarded_step_def)
qed

lemma run_keeps:
  assumes "proc_ok s" "\<And>e. e \<in> set evs \<Longrightarrow> entry_inside (fst e) (ep_spec s)"
  shows "\<exists>s'. run guarded_step evs s = Some s' \<and> keeps (\<Sum>e\<leftarrow>evs. call_token (snd e)) s s'"
  using assms
proof (induction evs arbitrary: s)
  case Nil
  then show ?case by (auto intro: keepsI)
next
  case (Cons e evs)
  obtain s1 where s1: "guarded_step e s = Some s1" "keeps (call_token (snd e)) s s1"
    using step_keeps [OF Cons.prems(1) Cons.prems(2) [of e]] by auto
  then have "proc_ok s1" "ep_spec s1 = ep_spec s" by (simp_all add: keeps_def)
  then obtain s2 where "run guarded_step evs s1 = Some s2" "keeps (\<Sum>e\<leftarrow>evs. call_token (snd e)) s1 s2"
    using Cons.IH [of s1] Cons.prems(2) by auto
  with s1 keeps_trans [OF s1(2)] show ?case by auto
qed

lemma newProc_ok: "proc_ok (newProc sp)"
  by (simp add: proc_ok_def newProc_def)

section \<open>Supervision\<close>

text \<open>
  C24. Whatever messages, exits, failed forks and timers come, a plugin that is wanted has a running process or a
  restart that is due, never both; one that is not wanted has no restart due.
  Every call is settled exactly once or still open, none is open without a process, and the limits on open calls and
  host calls hold.
\<close>

theorem plugin_supervised:
  assumes "\<forall>e\<in>set evs. entry_inside (fst e) sp"
  shows "\<exists>s. run guarded_step evs (newProc sp) = Some s
    \<and> (if ep_wanted s then (ep_child s \<noteq> None) \<noteq> ep_restartTimer s else \<not> ep_restartTimer s)
    \<and> settled s + open_calls s = (\<Sum>e\<leftarrow>evs. call_token (snd e))
    \<and> (ep_child s = None \<longrightarrow> open_calls s = {#})
    \<and> size (open_calls s) \<le> LIM_openCallsPerPlugin \<and> ep_hostCalls s \<le> LIM_hostCallsPerPlugin"
proof -
  have "entry_inside (fst e) (ep_spec (newProc sp))" if "e \<in> set evs" for e using assms that by (simp add: newProc_def)
  then obtain s where s: "run guarded_step evs (newProc sp) = Some s" "keeps (\<Sum>e\<leftarrow>evs. call_token (snd e)) (newProc sp) s"
    using run_keeps [OF newProc_ok] by blast
  have "settled (newProc sp) = {#}" "open_calls (newProc sp) = {#}" by (simp_all add: newProc_def settled_def open_calls_def map_filter_def)
  with s show ?thesis by (auto simp: keeps_def proc_ok_def open_calls_def)
qed

definition sample_spec :: plugin_spec where
  "sample_spec = \<lparr>sp_id = ''hue'', sp_version = ''1.0.0'', sp_dir = ''/p'', sp_entry = ''edge/main.js'', sp_memoryMb = 48\<rparr>"

definition sample_platform :: platform where
  "sample_platform = \<lparr>pf_toASCII = \<lambda>s. s, pf_newURL = \<lambda>s. None, pf_dateParse = \<lambda>s. None, pf_numStr = \<lambda>r. ''0'', pf_isTimezone = \<lambda>s. False\<rparr>"

definition world_at :: "int \<Rightarrow> proc_world" where
  "world_at t = \<lparr>pw_now = t, pw_forkError = None, pw_connected = True, pw_config = JNull, pw_join = \<lambda>d e. d @ ''/'' @ e,
     pw_utf8 = map char_byte, pw_text = map byte_char, pw_platform = sample_platform\<rparr>"

definition sample_run :: "(proc_world \<times> proc_event) list" where
  "sample_run =
     [(world_at 1000, Start),
      (world_at 1100, Message (JObj [(''t'', JStr ''ready'')])),
      (world_at 1200, Call 7 ''scan'' JNull None),
      (world_at 1300, Message (JObj [(''t'', JStr ''host''), (''id'', JNum 1), (''api'', JStr ''http.request'')])),
      (world_at 1400, Exit 0 ''1'')]"

theorem plugin_supervised_witness:
  "\<exists>s. run guarded_step sample_run (newProc sample_spec) = Some s \<and> ep_wanted s \<and> ep_child s = None \<and> ep_restartTimer s
     \<and> settled s = {#7#} \<and> open_calls s = {#}"
proof -
  have "\<forall>e\<in>set sample_run. entry_inside (fst e) sample_spec" by code_simp
  from plugin_supervised [OF this] obtain s where s: "run guarded_step sample_run (newProc sample_spec) = Some s"
      "if ep_wanted s then (ep_child s \<noteq> None) \<noteq> ep_restartTimer s else \<not> ep_restartTimer s"
      "settled s + open_calls s = (\<Sum>e\<leftarrow>sample_run. call_token (snd e))" "ep_child s = None \<longrightarrow> open_calls s = {#}"
    by (elim exE conjE) (rule that)
  have "map_option ep_wanted (run guarded_step sample_run (newProc sample_spec)) = Some True"
    "map_option ep_child (run guarded_step sample_run (newProc sample_spec)) = Some None" by code_simp+
  moreover have "(\<Sum>e\<leftarrow>sample_run. call_token (snd e)) = {#7#}" unfolding sample_run_def by simp
  ultimately show ?thesis using s by auto
qed

lemma forks_frame [simp]:
  "ep_forks (proc_log w l t s) = ep_forks s" "ep_forks (snd (toChild w m s)) = ep_forks s" "ep_forks (clearTimers s) = ep_forks s"
  "ep_forks (resolve_stop s) = ep_forks s" "ep_forks (reject_all s) = ep_forks s" "ep_forks (schedule_restart w why err s) = ep_forks s"
proof -
  show "ep_forks (proc_log w l t s) = ep_forks s" "ep_forks (snd (toChild w m s)) = ep_forks s" "ep_forks (clearTimers s) = ep_forks s"
    "ep_forks (resolve_stop s) = ep_forks s"
    by (simp_all add: proc_log_def toChild_def clearTimers_def resolve_stop_def split: prod.split bool.split option.split)
  show "ep_forks (reject_all s) = ep_forks s"
    using reject_fold_frame [of "Edge_error ''not_running'' ''edge part ended''" s "ep_pending s"] by (auto simp: reject_all_def)
  show "ep_forks (schedule_restart w why err s) = ep_forks s"
    by (simp add: schedule_restart_def Let_def nextBackoff_def proc_log_def split: prod.split bool.split)
qed

text \<open>
  An answer that arrives after the process that asked has ended is sent to the next process of the plugin. That
  process numbers its requests from 1 again, so the answer can settle_call another request with the same number.
\<close>

theorem stale_host_answer:
  assumes "proc_ok s" "ep_child s = Some c" "ep_wanted s" "0 < ep_hostCalls s" "entry_inside w (ep_spec s)" "pw_forkError w = None" "pw_connected w"
  shows "\<exists>s'. run guarded_step [(w, Exit c why), (w, Restart_timer), (w, Host_done mid (Inr (JStr v)))] s = Some s'
    \<and> ep_child s' = Some (ep_forks s) \<and> To_child (ep_forks s) (Host_value mid (JStr v)) \<in> set (ep_out s')"
proof -
  let ?s1 = "onExit w why None (Some c) s"
  note f = onExit_frame [of "Some c" s w why None]
  have fk: "ep_forks ?s1 = ep_forks s" using assms(2,3) by (simp add: onExit_def Let_def)
  have "prefix (sp_dir (ep_spec s) @ ''/'') (pw_join w (sp_dir (ep_spec s)) (sp_entry (ep_spec s)))"
    using assms(5) by (simp add: entry_inside_def)
  then have c2: "ep_child (restart_due w ?s1) = Some (ep_forks s)" and h2: "ep_hostCalls (restart_due w ?s1) = ep_hostCalls s"
    using f fk assms(2,3,6) by (simp_all add: restart_due_def spawn_def Let_def)
  have "guarded_step (w, Exit c why) s = Some ?s1" by (simp add: guarded_step_def)
  moreover have "guarded_step (w, Restart_timer) ?s1 = Some (restart_due w ?s1)" using f assms(2,3) by (simp add: guarded_step_def)
  moreover have "guarded_step (w, Host_done mid (Inr (JStr v))) (restart_due w ?s1) = Some (host_done w mid (Inr (JStr v)) (restart_due w ?s1))"
    using h2 assms(4) by (simp add: guarded_step_def)
  moreover have "ep_child (host_done w mid (Inr (JStr v)) (restart_due w ?s1)) = Some (ep_forks s)"
    "To_child (ep_forks s) (Host_value mid (JStr v)) \<in> set (ep_out (host_done w mid (Inr (JStr v)) (restart_due w ?s1)))"
    using c2 assms(7) by (simp_all add: host_done_def toChild_def out1_def)
  ultimately show ?thesis by (simp del: proc_step.simps)
qed

end
