(* ===== verification/Edge_Signature.thy ===== *)
theory Edge_Signature
  imports Edge_Manifest
begin

text \<open>
  The signature of plugin packages (\<open>src/src/edge/signature.js\<close>) and the check of a downloaded package with the files
  that are unpacked from it (\<open>inspect\<close> and \<open>PackageStore\<close> of \<open>src/src/edge/packages.js\<close>). Hashes, Ed25519, base64 and
  \<open>JSON.parse\<close> are the record \<open>crypto\<close>.
\<close>

section \<open>What is signed\<close>

type_synonym files = "(string, bytes) jsmap"

definition SIGNATURE_FILE :: string where
  "SIGNATURE_FILE = ''signature''"

definition MANIFEST_FILE :: string where
  "MANIFEST_FILE = ''plugin.json''"

definition LF :: char where
  "LF = char_of (10 :: nat)"

definition SIGN_HEADER :: string where
  "SIGN_HEADER = ''GCPLUGIN-MANIFEST-V1'' @ [LF]"

record 'k crypto =
  cr_sha256 :: "bytes \<Rightarrow> string"
  cr_utf8 :: "string \<Rightarrow> bytes"
  cr_text :: "bytes \<Rightarrow> string"
  cr_base64 :: "string \<Rightarrow> bytes"
  cr_toBase64 :: "bytes \<Rightarrow> string"
  cr_key :: "bytes \<Rightarrow> 'k option"
  cr_verify :: "'k \<Rightarrow> bytes \<Rightarrow> bytes \<Rightarrow> bool option"
  cr_parse :: "string \<Rightarrow> json option"

definition manifest_line :: "'k crypto \<Rightarrow> files \<Rightarrow> string \<Rightarrow> string" where
  "manifest_line cr fs p = cr_sha256 cr (the (map_of fs p)) @ '' '' @ p @ [LF]"

definition canonical_text :: "'k crypto \<Rightarrow> files \<Rightarrow> string" where
  "canonical_text cr fs = SIGN_HEADER @ concat (map (manifest_line cr fs) (sort (filter (\<lambda>p. p \<noteq> SIGNATURE_FILE) (mkeys fs))))"

definition canonicalManifest :: "'k crypto \<Rightarrow> files \<Rightarrow> bytes" where
  "canonicalManifest cr fs = cr_utf8 cr (canonical_text cr fs)"

section \<open>Keys\<close>

definition is_b64_char :: "char \<Rightarrow> bool" where
  "is_b64_char c = (is_alnum c \<or> c = CHR ''+'' \<or> c = CHR ''/'')"

definition B64_32 :: "string \<Rightarrow> bool" where
  "B64_32 s = (length s = 44 \<and> list_all is_b64_char (take 43 s) \<and> s ! 43 = CHR ''='')"

definition publicKeyFromRaw :: "'k crypto \<Rightarrow> string \<Rightarrow> 'k option" where
  "publicKeyFromRaw cr b64 =
     (if \<not> B64_32 b64 then None
      else let raw = cr_base64 cr b64 in if length raw \<noteq> 32 then None else cr_key cr raw)"

text \<open>\<open>line.replace(/#.*$/, '')\<close>: the dot stops at a carriage return.\<close>

fun strip_comment :: "string \<Rightarrow> string" where
  "strip_comment [] = []"
| "strip_comment (c # cs) = (if c = CHR ''#'' \<and> char_of (13 :: nat) \<notin> set cs then [] else c # strip_comment cs)"

fun key_lines :: "string list \<Rightarrow> string list option" where
  "key_lines [] = Some []"
| "key_lines (l # ls) =
     (let s = trim (strip_comment l)
      in if s = [] then key_lines ls
         else if \<not> B64_32 s then None
         else map_option ((#) s) (key_lines ls))"

definition parseKeyFile :: "string \<Rightarrow> string list option" where
  "parseKeyFile txt = key_lines (split_on LF txt)"

text \<open>The extra keys of the environment: the list read from its JSON text, when it is one.\<close>

definition extraKeys :: "'k crypto \<Rightarrow> string option \<Rightarrow> string list" where
  "extraKeys cr extra =
     (case extra of
        None \<Rightarrow> []
      | Some t \<Rightarrow>
          if trim t = [] then []
          else case cr_parse cr t of
                 Some (JArr vs) \<Rightarrow> List.map_filter (\<lambda>v. case v of JStr k \<Rightarrow> if B64_32 (trim k) then Some (trim k) else None | _ \<Rightarrow> None) vs
               | _ \<Rightarrow> [])"

definition trustedKeys :: "'k crypto \<Rightarrow> string \<Rightarrow> string option \<Rightarrow> string list option" where
  "trustedKeys cr keyFile extra = map_option (\<lambda>ks. uniq (ks @ extraKeys cr extra)) (parseKeyFile keyFile)"

section \<open>Checking a signature\<close>

datatype sig_status = No_signature | Trusted | Untrusted | Invalid

definition sig_verify :: "'k crypto \<Rightarrow> files \<Rightarrow> string list \<Rightarrow> sig_status \<times> string option" where
  "sig_verify cr fs keys =
     (case map_of fs SIGNATURE_FILE of
        None \<Rightarrow> (No_signature, None)
      | Some sf \<Rightarrow>
          (case cr_parse cr (cr_text cr sf) of
             None \<Rightarrow> (Invalid, None)
           | Some doc \<Rightarrow>
               let ms = members doc
               in case (field ms ''sig'', field ms ''publicKey'') of
                    (JStr sg, JStr pk) \<Rightarrow>
                      if field ms ''v'' \<noteq> JNum 1 \<or> field ms ''alg'' \<noteq> JStr ''Ed25519'' then (Invalid, None)
                      else (case publicKeyFromRaw cr pk of
                              None \<Rightarrow> (Invalid, None)
                            | Some key \<Rightarrow>
                                let raw = cr_base64 cr sg
                                in if length raw = 64 \<and> cr_verify cr key (canonicalManifest cr fs) raw = Some True
                                   then (if pk \<in> set keys then Trusted else Untrusted, Some pk)
                                   else (Invalid, None))
                  | _ \<Rightarrow> (Invalid, None)))"

definition acceptable :: "sig_status \<Rightarrow> bool \<Rightarrow> bool" where
  "acceptable st allowUnsigned =
     (if st = Trusted then True else if st = Invalid then False else allowUnsigned \<and> (st = No_signature \<or> st = Untrusted))"

section \<open>A downloaded package\<close>

definition LIM_manifestBytes :: nat where
  "LIM_manifestBytes = 256 * 1024"

datatype rejected =
    Sha256_mismatch
  | Bad_package package_error
  | Signature_invalid
  | Unsigned
  | Bad_manifest_file
  | Rejected_manifest manifest_error
  | Type_error

record checked =
  ck_files :: files
  ck_manifest :: json
  ck_edge :: edge_manifest
  ck_status :: sig_status
  ck_key :: "string option"

text \<open>\<open>JSON.parse\<close> may give \<open>null\<close>, on which \<open>manifest.id\<close> throws.\<close>

definition inspect_manifest :: "platform \<Rightarrow> 'k crypto \<Rightarrow> string \<Rightarrow> string \<Rightarrow> string \<Rightarrow> files \<Rightarrow> rejected + json \<times> edge_manifest" where
  "inspect_manifest pf cr i version gatewayVersion fs =
     (case map_of fs MANIFEST_FILE of
        None \<Rightarrow> Inl Bad_manifest_file
      | Some mf \<Rightarrow>
          if LIM_manifestBytes < length mf then Inl Bad_manifest_file
          else case cr_parse cr (cr_text cr mf) of
                 None \<Rightarrow> Inl Bad_manifest_file
               | Some m \<Rightarrow>
                   if m = JNull then Inl Type_error
                   else if field (members m) ''id'' \<noteq> JStr i \<or> field (members m) ''version'' \<noteq> JStr version then Inl Bad_manifest_file
                   else case validateEdgeManifest pf gatewayVersion m of
                          Inl e \<Rightarrow> Inl (Rejected_manifest e)
                        | Inr edge \<Rightarrow> if map_of fs (em_entry edge) = None then Inl Bad_manifest_file else Inr (m, edge))"

definition inspect ::
  "platform \<Rightarrow> 'k crypto \<Rightarrow> (bytes \<Rightarrow> nat \<Rightarrow> bool + bytes) \<Rightarrow> string list \<Rightarrow> string \<Rightarrow> string \<Rightarrow> string \<Rightarrow> bool \<Rightarrow> string \<Rightarrow> bytes
   \<Rightarrow> rejected + checked" where
  "inspect pf cr gunzip keys i version sha256 allowUnsigned gatewayVersion buf =
     (if cr_sha256 cr buf \<noteq> toLower sha256 then Inl Sha256_mismatch
      else case decode gunzip (cr_text cr) buf of
             Inl e \<Rightarrow> Inl (Bad_package e)
           | Inr fs \<Rightarrow>
               (case sig_verify cr fs keys of
                  (st, pk) \<Rightarrow>
                    if st = Invalid then Inl Signature_invalid
                    else if \<not> acceptable st allowUnsigned then Inl Unsigned
                    else case inspect_manifest pf cr i version gatewayVersion fs of
                           Inl e \<Rightarrow> Inl e
                         | Inr (m, edge) \<Rightarrow> Inr \<lparr>ck_files = fs, ck_manifest = m, ck_edge = edge, ck_status = st, ck_key = pk\<rparr>))"

text \<open>The files that are unpacked: the manifest and the folder of the entry.\<close>

definition extracted :: "checked \<Rightarrow> files" where
  "extracted c = filter (\<lambda>(p, d). p = MANIFEST_FILE \<or> prefix (em_entryDir (ck_edge c) @ ''/'') p) (ck_files c)"

record package_info =
  pi_sha256 :: string
  pi_signature :: sig_status
  pi_edge :: edge_manifest

definition package_info_of :: "string \<Rightarrow> checked \<Rightarrow> package_info" where
  "package_info_of sha256 c = \<lparr>pi_sha256 = toLower sha256, pi_signature = ck_status c, pi_edge = ck_edge c\<rparr>"

text \<open>
  The unpacked packages by id and version. The write of \<open>extract\<close> goes to a temporary folder that is renamed, so a
  package is there with all its files or not at all.
\<close>

type_synonym package_store = "(string \<times> string, package_info \<times> files) jsmap"

definition store_extract :: "string \<Rightarrow> string \<Rightarrow> string \<Rightarrow> checked \<Rightarrow> package_store \<Rightarrow> package_store" where
  "store_extract i version sha256 c st = mset_at (i, version) (package_info_of sha256 c, extracted c) st"

definition store_installed :: "string \<Rightarrow> string \<Rightarrow> string \<Rightarrow> package_store \<Rightarrow> package_info option" where
  "store_installed i version sha256 st =
     (case map_of st (i, version) of
        None \<Rightarrow> None
      | Some (info, fs) \<Rightarrow> if pi_sha256 info = toLower sha256 \<and> em_entry (pi_edge info) \<noteq> [] then Some info else None)"

definition store_prune :: "string \<Rightarrow> string \<Rightarrow> package_store \<Rightarrow> package_store" where
  "store_prune i keep st = filter (\<lambda>((j, v), x). j \<noteq> i \<or> v = keep) st"

definition store_pruneExcept :: "string list \<Rightarrow> package_store \<Rightarrow> package_store" where
  "store_pruneExcept is st = filter (\<lambda>((j, v), x). j \<in> set is) st"

section \<open>The signed text determines the files\<close>

text \<open>\<open>digest\<close> prints a hash as 64 characters other than a line end.\<close>

definition hex_digest :: "'k crypto \<Rightarrow> bool" where
  "hex_digest cr = (\<forall>b. length (cr_sha256 cr b) = 64 \<and> LF \<notin> set (cr_sha256 cr b))"

lemma LF_not_space: "LF \<noteq> CHR '' ''"
  by code_simp

lemma lines_equal:
  assumes "concat (map (\<lambda>x. x @ [LF]) xs) = concat (map (\<lambda>x. x @ [LF]) ys)" "\<forall>x\<in>set xs \<union> set ys. LF \<notin> set x"
  shows "xs = ys"
  using assms
proof (induction xs arbitrary: ys)
  case Nil
  then show ?case by (cases ys) auto
next
  case (Cons x xs)
  then obtain y zs where ys: "ys = y # zs" by (cases ys) auto
  have "x = y" "concat (map (\<lambda>x. x @ [LF]) xs) = concat (map (\<lambda>x. x @ [LF]) zs)"
    using arg_cong [OF Cons.prems(1), of "split_on LF"] Cons.prems split_on_append [of LF x] split_on_append [of LF y]
    by (auto simp: ys)
  with Cons.IH [of zs] Cons.prems(2) show ?case by (simp add: ys)
qed

lemma manifest_paths:
  assumes "canonical_text cr fs = canonical_text cr gs" "hex_digest cr" "\<forall>p\<in>set (mkeys fs) \<union> set (mkeys gs). LF \<notin> set p"
  shows "sort (filter (\<lambda>p. p \<noteq> SIGNATURE_FILE) (mkeys fs)) = sort (filter (\<lambda>p. p \<noteq> SIGNATURE_FILE) (mkeys gs))
    \<and> (\<forall>p\<in>set (mkeys fs) - {SIGNATURE_FILE}. cr_sha256 cr (the (map_of fs p)) = cr_sha256 cr (the (map_of gs p)))"
proof -
  let ?F = "sort (filter (\<lambda>p. p \<noteq> SIGNATURE_FILE) (mkeys fs))" and ?G = "sort (filter (\<lambda>p. p \<noteq> SIGNATURE_FILE) (mkeys gs))"
  let ?l = "\<lambda>hs p. cr_sha256 cr (the (map_of hs p)) @ '' '' @ p"
  have body: "concat (map (\<lambda>x. x @ [LF]) (map (?l fs) ?F)) = concat (map (\<lambda>x. x @ [LF]) (map (?l gs) ?G))"
    using assms(1) by (simp add: canonical_text_def manifest_line_def [abs_def] comp_def)
  have "LF \<notin> set ('' '' :: string)" using LF_not_space by simp
  then have no_LF: "LF \<notin> set (?l hs p)" if "p \<in> set (mkeys fs) \<union> set (mkeys gs)" for hs p
    using assms(2) bspec [OF assms(3) that] by (simp add: hex_digest_def)
  have "\<forall>x\<in>set (map (?l fs) ?F) \<union> set (map (?l gs) ?G). LF \<notin> set x"
  proof
    fix x assume "x \<in> set (map (?l fs) ?F) \<union> set (map (?l gs) ?G)"
    then obtain hs p where "x = ?l hs p" "p \<in> set (mkeys fs) \<union> set (mkeys gs)" by auto
    with no_LF show "LF \<notin> set x" by blast
  qed
  from lines_equal [OF body this] have eq: "map (?l fs) ?F = map (?l gs) ?G" .
  have cut: "drop 65 (?l hs p) = p" "take 64 (?l hs p) = cr_sha256 cr (the (map_of hs p))" for hs p
    using assms(2) by (simp_all add: hex_digest_def)
  have FG: "?F = ?G" using arg_cong [OF eq, of "map (drop 65)"] cut(1) by (simp add: comp_def del: drop_append)
  have "map (\<lambda>p. cr_sha256 cr (the (map_of fs p))) ?F = map (\<lambda>p. cr_sha256 cr (the (map_of gs p))) ?F"
    using arg_cong [OF eq, of "map (take 64)"] cut(2) FG by (simp add: comp_def del: take_append)
  then have "\<forall>p\<in>set ?F. cr_sha256 cr (the (map_of fs p)) = cr_sha256 cr (the (map_of gs p))"
    by (metis (no_types, lifting) map_eq_conv)
  then have "\<forall>p\<in>set (mkeys fs) - {SIGNATURE_FILE}. cr_sha256 cr (the (map_of fs p)) = cr_sha256 cr (the (map_of gs p))"
    by (simp only: set_sort set_filter) blast
  with FG show ?thesis by blast
qed

lemma checkPath_no_LF: "checkPath p \<Longrightarrow> LF \<notin> set p"
proof -
  assume "checkPath p"
  then have seg: "list_all (\<lambda>s. SEGMENT_RE s) (split_on CHR ''/'' p)" by (auto simp: checkPath_def Let_def list_all_iff)
  have cls: "\<not> is_seg_first LF" "\<not> is_seg_char LF" "LF \<noteq> CHR ''/''" by code_simp+
  have "LF \<notin> set s" if "SEGMENT_RE s" for s
    using that cls by (cases s) (auto simp: SEGMENT_RE_def re_first_def list_all_iff)
  with seg cls(3) show ?thesis
    using set_join [of "CHR ''/''" "split_on CHR ''/'' p"] by (auto simp: list_all_iff)
qed

lemma decoded_paths:
  assumes "decode gunzip dec buf = Inr fs"
  shows "wf_map fs \<and> (\<forall>p\<in>set (mkeys fs). checkPath p)"
proof -
  obtain raw where "decode_raw dec raw = Inr fs" using assms by (auto simp: decode_def split: if_splits sum.splits)
  then show ?thesis using decode_raw_ok by (fastforce simp: unpacked_ok_def list_all_iff)
qed

text \<open>Two packages with the same signed text have the same files, unless the hash collides on them.\<close>

lemma signed_text_unique:
  assumes "canonicalManifest cr fs = canonicalManifest cr gs" "inj (cr_utf8 cr)" "hex_digest cr"
    "\<forall>p\<in>set (mkeys fs) \<union> set (mkeys gs). LF \<notin> set p" "inj_on (cr_sha256 cr) (snd ` set fs \<union> snd ` set gs)"
    "p \<noteq> SIGNATURE_FILE"
  shows "map_of fs p = map_of gs p"
proof -
  have same_text: "canonical_text cr fs = canonical_text cr gs"
    using assms(1,2) by (auto simp: canonicalManifest_def inj_def)
  note m = manifest_paths [OF same_text assms(3,4)]
  from m have "set (filter (\<lambda>p. p \<noteq> SIGNATURE_FILE) (mkeys fs)) = set (filter (\<lambda>p. p \<noteq> SIGNATURE_FILE) (mkeys gs))"
    by (metis set_sort)
  then have keys: "p \<in> fst ` set fs \<longleftrightarrow> p \<in> fst ` set gs" using assms(6) by auto
  show ?thesis
  proof (cases "p \<in> fst ` set fs")
    case True
    then obtain a b where ab: "map_of fs p = Some a" "map_of gs p = Some b" using keys by (metis map_of_eq_None_iff not_None_eq)
    then have "a \<in> snd ` set fs" "b \<in> snd ` set gs" by (force dest: map_of_SomeD)+
    moreover have "cr_sha256 cr (the (map_of fs p)) = cr_sha256 cr (the (map_of gs p))"
      by (rule bspec [OF m [THEN conjunct2]]) (use True assms(6) in auto)
    then have "cr_sha256 cr a = cr_sha256 cr b" unfolding ab option.sel .
    ultimately have "a = b" using assms(5) unfolding inj_on_def by blast
    with ab show ?thesis by simp
  next
    case False
    then show ?thesis using keys by (metis map_of_eq_None_iff)
  qed
qed

section \<open>What an accepted package is\<close>

lemma sig_verify_valid:
  assumes "sig_verify cr fs keys = (st, pk)" "st = Trusted \<or> st = Untrusted"
  shows "\<exists>k key sg. pk = Some k \<and> (st = Trusted \<longrightarrow> k \<in> set keys) \<and> publicKeyFromRaw cr k = Some key
    \<and> cr_verify cr key (canonicalManifest cr fs) sg = Some True"
  using assms by (auto simp: sig_verify_def Let_def split: option.splits json.splits if_splits)

lemma extracted_lookup:
  assumes "wf_map (ck_files c)" "p = MANIFEST_FILE \<or> prefix (em_entryDir (ck_edge c) @ ''/'') p"
  shows "map_of (extracted c) p = map_of (ck_files c) p"
proof -
  have "map_of (filter (\<lambda>(p, d). Q p) fs) p = map_of fs p" if "Q p" for Q and fs :: files
    using that by (induction fs) auto
  then show ?thesis using assms(2) by (simp add: extracted_def)
qed

text \<open>
  C23. A package that passes the check is the one the server asked for and, unless unsigned packages are allowed, a
  trusted key has signed exactly its files: any package with the same signed text has the same files, when the hash
  does not collide on them. What is unpacked stays below its folder and contains the entry that will be run.
\<close>

theorem installed_package_is_authentic:
  assumes "inspect pf cr gunzip keys i version sha256 allowUnsigned gv buf = Inr c" "inj (cr_utf8 cr)" "hex_digest cr"
  shows "cr_sha256 cr buf = toLower sha256
    \<and> field (members (ck_manifest c)) ''id'' = JStr i \<and> field (members (ck_manifest c)) ''version'' = JStr version
    \<and> (\<not> allowUnsigned \<longrightarrow> (\<exists>k key sg. k \<in> set keys \<and> publicKeyFromRaw cr k = Some key \<and> cr_verify cr key (canonicalManifest cr (ck_files c)) sg = Some True))
    \<and> (\<forall>other buf' p. decode gunzip (cr_text cr) buf' = Inr other \<longrightarrow> canonicalManifest cr other = canonicalManifest cr (ck_files c)
          \<longrightarrow> inj_on (cr_sha256 cr) (snd ` set other \<union> snd ` set (ck_files c)) \<longrightarrow> p \<noteq> SIGNATURE_FILE \<longrightarrow> map_of other p = map_of (ck_files c) p)
    \<and> (\<forall>p\<in>set (mkeys (extracted c)). safe_path p) \<and> map_of (extracted c) (em_entry (ck_edge c)) \<noteq> None"
proof -
  obtain st pk where dec: "decode gunzip (cr_text cr) buf = Inr (ck_files c)" and sha: "cr_sha256 cr buf = toLower sha256"
    and sg: "sig_verify cr (ck_files c) keys = (st, pk)" "acceptable st allowUnsigned" "st \<noteq> Invalid"
    and man: "inspect_manifest pf cr i version gv (ck_files c) = Inr (ck_manifest c, ck_edge c)"
    using assms(1) by (auto simp: inspect_def split: if_splits sum.splits prod.splits)
  from man obtain m where m: "field (members (ck_manifest c)) ''id'' = JStr i" "field (members (ck_manifest c)) ''version'' = JStr version"
      "validateEdgeManifest pf gv (ck_manifest c) = Inr (ck_edge c)" "map_of (ck_files c) (em_entry (ck_edge c)) = Some m"
    by (auto simp: inspect_manifest_def split: option.splits if_splits sum.splits)
  note paths = decoded_paths [OF dec]
  have "st = Trusted" if "\<not> allowUnsigned" using sg(2) that by (auto simp: acceptable_def split: if_splits)
  with sig_verify_valid [OF sg(1)] have signed: "\<not> allowUnsigned \<longrightarrow>
      (\<exists>k key sg. k \<in> set keys \<and> publicKeyFromRaw cr k = Some key \<and> cr_verify cr key (canonicalManifest cr (ck_files c)) sg = Some True)"
    by blast
  have unique: "map_of other p = map_of (ck_files c) p"
    if "decode gunzip (cr_text cr) buf' = Inr other" "canonicalManifest cr other = canonicalManifest cr (ck_files c)"
      "inj_on (cr_sha256 cr) (snd ` set other \<union> snd ` set (ck_files c))" "p \<noteq> SIGNATURE_FILE" for other buf' p
    using signed_text_unique [OF that(2) assms(2,3) _ that(3,4)] paths decoded_paths [OF that(1)] checkPath_no_LF by blast
  have safe: "\<forall>p\<in>set (mkeys (extracted c)). safe_path p" using paths checkPath_safe by (auto simp: extracted_def)
  have "prefix (em_entryDir (ck_edge c) @ ''/'') (em_entry (ck_edge c))" using edge_manifest_ok [OF m(3)] by blast
  then have "map_of (extracted c) (em_entry (ck_edge c)) \<noteq> None" using extracted_lookup paths m(4) by auto
  with sha m signed unique safe show ?thesis by blast
qed

definition sample_key :: string where
  "sample_key = replicate 43 CHR ''A'' @ ''=''"

definition sample_manifest :: json where
  "sample_manifest = JObj [(''id'', JStr ''hue''), (''version'', JStr ''1.0.0''), (''edge'', JObj [(''entry'', JStr ''edge/main.js'')])]"

definition sample_crypto :: "unit crypto" where
  "sample_crypto = \<lparr>cr_sha256 = \<lambda>b. replicate 64 CHR ''0'', cr_utf8 = map char_byte, cr_text = map byte_char,
     cr_base64 = \<lambda>s. replicate (if length s = 44 then 32 else 64) 0, cr_toBase64 = \<lambda>b. [], cr_key = \<lambda>b. Some (), cr_verify = \<lambda>k m s. Some True,
     cr_parse = \<lambda>s. if s = ''S'' then Some (JObj [(''v'', JNum 1), (''alg'', JStr ''Ed25519''), (''sig'', JStr []), (''publicKey'', JStr sample_key)])
                   else Some sample_manifest\<rparr>"

definition sample_package :: bytes where
  "sample_package = plain_gzip (the (encode_raw [(''edge/main.js'', [1]), (''plugin.json'', [2]), (''signature'', [83])]))"

definition plain_platform :: platform where
  "plain_platform = \<lparr>pf_toASCII = \<lambda>s. s, pf_newURL = \<lambda>s. None, pf_dateParse = \<lambda>s. None, pf_numStr = \<lambda>r. [], pf_isTimezone = \<lambda>s. False\<rparr>"

lemma sample_crypto_ok: "inj (cr_utf8 sample_crypto)" "hex_digest sample_crypto"
proof -
  have "inj char_byte" by (metis byte_char_byte injI)
  then show "inj (cr_utf8 sample_crypto)" by (simp add: sample_crypto_def inj_mapI)
  have "LF \<noteq> CHR ''0''" by code_simp
  then show "hex_digest sample_crypto" by (simp add: hex_digest_def sample_crypto_def)
qed

theorem installed_package_is_authentic_witness:
  "\<exists>c. inspect plain_platform sample_crypto plain_gunzip [sample_key] ''hue'' ''1.0.0'' (replicate 64 CHR ''0'') False ''2.0.0'' sample_package = Inr c
     \<and> map_of (extracted c) (em_entry (ck_edge c)) \<noteq> None
     \<and> (\<exists>k key sg. k \<in> set [sample_key] \<and> publicKeyFromRaw sample_crypto k = Some key
          \<and> cr_verify sample_crypto key (canonicalManifest sample_crypto (ck_files c)) sg = Some True)"
proof -
  have "case inspect plain_platform sample_crypto plain_gunzip [sample_key] ''hue'' ''1.0.0'' (replicate 64 CHR ''0'') False ''2.0.0'' sample_package of
      Inl e \<Rightarrow> False | Inr c \<Rightarrow> True" by code_simp
  then obtain c where c: "inspect plain_platform sample_crypto plain_gunzip [sample_key] ''hue'' ''1.0.0'' (replicate 64 CHR ''0'') False ''2.0.0'' sample_package = Inr c"
    by (auto split: sum.splits)
  from installed_package_is_authentic [OF c sample_crypto_ok] c show ?thesis by blast
qed

end
