(* ===== verification/Edge_Net.thy ===== *)
theory Edge_Net
  imports Edge_Process Edge_Fence Http_Proxy
begin

text \<open>
  The network services of a plugin (\<open>src/src/edge/netProxy.js\<close>): every request is checked against the effective
  capabilities and the LAN guard before anything goes out. A call that waits for a socket is two steps, its start and
  the event that ends it. What goes out is appended to \<open>pn_out\<close> together with the rights at that moment.
\<close>

section \<open>State\<close>

definition LIM_udpSocketsPerPlugin :: nat where
  "LIM_udpSocketsPerPlugin = 16"

definition LIM_tcpSocketsPerPlugin :: nat where
  "LIM_tcpSocketsPerPlugin = 32"

definition LIM_mdnsBrowsesPerPlugin :: nat where
  "LIM_mdnsBrowsesPerPlugin = 8"

definition LIM_udpDatagramBytes :: nat where
  "LIM_udpDatagramBytes = 8192"

definition LIM_tcpWriteBufferBytes :: nat where
  "LIM_tcpWriteBufferBytes = 1024 * 1024"

definition LIM_httpRequestBytes :: nat where
  "LIM_httpRequestBytes = 1024 * 1024"

definition LIM_httpResponseBytes :: nat where
  "LIM_httpResponseBytes = 5 * 1024 * 1024"

definition LIM_httpTimeoutMaxMs :: rat where
  "LIM_httpTimeoutMaxMs = 30000"

definition TLS_PROBE_TIMEOUT_MS :: rat where
  "TLS_PROBE_TIMEOUT_MS = 10000"

datatype net_error = Denied | Net_error string

text \<open>How the certificate of an HTTPS server is checked.\<close>

datatype tls_check = No_tls | Full_check | Pinned string

record http_call =
  hc_host :: string
  hc_port :: int
  hc_tls :: tls_check
  hc_method :: string
  hc_headers :: "(string, string) jsmap"
  hc_body :: bytes
  hc_limit :: rat

datatype plugin_msg =
    Udp_msg nat bytes string int
  | Sock_data nat bytes
  | Sock_end nat
  | Sock_error nat string
  | Sock_close nat
  | Mdns_msg nat string string

datatype net_out =
    Udp_bind int
  | Udp_join string
  | Udp_send string int bytes
  | Udp_close nat
  | Tcp_connect string int
  | Tcp_write nat bytes
  | Tcp_end nat
  | Tcp_destroy nat
  | Http_request http_call
  | Tls_probe string int rat
  | Mdns_browse string
  | Mdns_stop nat
  | To_plugin plugin_msg

record net_rights =
  nr_caps :: caps
  nr_subnets :: "string list"
  nr_tunnel :: string
  nr_servers :: "string list"

record net_url =
  nu_protocol :: string
  nu_hostname :: string
  nu_port :: "int option"
  nu_username :: string
  nu_password :: string

record net_world =
  nw_platform :: platform
  nw_base64 :: "string \<Rightarrow> bytes"
  nw_url :: "string \<Rightarrow> net_url option"
  nw_upper :: "string \<Rightarrow> string"
  nw_mdns :: "nat option option"

record plugin_net =
  pn_udp :: "(nat, int) jsmap"
  pn_udpOpening :: "(nat, int \<times> string list \<times> net_rights) jsmap"
  pn_tcp :: "(nat, string \<times> int) jsmap"
  pn_tcpOpening :: "(nat, string \<times> int) jsmap"
  pn_browses :: "(nat, nat) jsmap"
  pn_ephemeral :: bool
  pn_nextId :: nat
  pn_out :: "(net_rights \<times> net_out) list"

definition newNet :: plugin_net where
  "newNet = \<lparr>pn_udp = [], pn_udpOpening = [], pn_tcp = [], pn_tcpOpening = [], pn_browses = [], pn_ephemeral = False, pn_nextId = 0, pn_out = []\<rparr>"

datatype net_value = V_done | V_pending nat | V_id nat

type_synonym net_reply = "(net_error + net_value) \<times> plugin_net"

definition net_emit :: "net_rights \<Rightarrow> net_out list \<Rightarrow> plugin_net \<Rightarrow> plugin_net" where
  "net_emit r es s = s\<lparr>pn_out := pn_out s @ map (Pair r) es\<rparr>"

definition net_guard :: "net_rights \<Rightarrow> string list \<Rightarrow> json \<Rightarrow> string option" where
  "net_guard r groups v = guard_check (nr_subnets r) (nr_tunnel r) (nr_servers r) groups v"

definition decodeB64 :: "net_world \<Rightarrow> json \<Rightarrow> nat \<Rightarrow> net_error + bytes" where
  "decodeB64 w v mx =
     (case v of
        JNull \<Rightarrow> Inr []
      | JUndef \<Rightarrow> Inr []
      | JStr s \<Rightarrow> let buf = nw_base64 w s in if mx < length buf then Inl (Net_error ''too_large'') else Inr buf
      | _ \<Rightarrow> Inl (Net_error ''bad_request''))"

section \<open>UDP\<close>

text \<open>The approved groups of a request, when all of them are approved.\<close>

fun approved_groups :: "string list \<Rightarrow> json list \<Rightarrow> string list option" where
  "approved_groups ok [] = Some []"
| "approved_groups ok (v # vs) =
     (case v of JStr g \<Rightarrow> if g \<in> set ok then map_option ((#) g) (approved_groups ok vs) else None | _ \<Rightarrow> None)"

definition udpBind :: "net_rights \<Rightarrow> (string \<times> json) list \<Rightarrow> plugin_net \<Rightarrow> net_reply" where
  "udpBind r a s =
     (case (cap_udp (nr_caps r), intOf (field a ''port'')) of
        (Some c, Some port) \<Rightarrow>
          if port \<notin> set (uc_ports c) then (Inl Denied, s)
          else (case approved_groups (uc_multicast c) (items (field a ''multicast'')) of
                  None \<Rightarrow> (Inl Denied, s)
                | Some groups \<Rightarrow>
                    if LIM_udpSocketsPerPlugin \<le> length (pn_udp s) then (Inl (Net_error ''busy''), s)
                    else let i = pn_nextId s + 1
                      in (Inr (V_pending i),
                          net_emit r [Udp_bind port] (s\<lparr>pn_nextId := i, pn_udpOpening := mset_at i (port, groups, r) (pn_udpOpening s)\<rparr>)))
      | _ \<Rightarrow> (Inl Denied, s))"

text \<open>
  The end of the wait: the socket is bound or the bind has failed. The groups are those checked when the wait began,
  under the rights kept with them.
\<close>

definition udpBound :: "nat \<Rightarrow> bool \<Rightarrow> plugin_net \<Rightarrow> net_reply" where
  "udpBound i ok s =
     (case map_of (pn_udpOpening s) i of
        None \<Rightarrow> (Inr V_done, s)
      | Some (port, groups, r) \<Rightarrow>
          let s1 = s\<lparr>pn_udpOpening := mdelete i (pn_udpOpening s)\<rparr>
          in if \<not> ok then (Inl (Net_error ''net_error''), s1)
             else (Inr (V_id i), net_emit r (map Udp_join groups) (s1\<lparr>pn_udp := mset_at i port (pn_udp s1)\<rparr>)))"

text \<open>A datagram for the socket \<open>i\<close>, or for the common sending socket when \<open>i = 0\<close>.\<close>

definition udpMessage :: "net_rights \<Rightarrow> nat \<Rightarrow> bytes \<Rightarrow> string \<Rightarrow> int \<Rightarrow> plugin_net \<Rightarrow> plugin_net" where
  "udpMessage r i msg address port s =
     (if net_guard r [] (JStr address) = None then s
      else net_emit r [To_plugin (Udp_msg i (take LIM_udpDatagramBytes msg) address port)] s)"

definition udpSend :: "net_world \<Rightarrow> net_rights \<Rightarrow> (string \<times> json) list \<Rightarrow> plugin_net \<Rightarrow> net_reply" where
  "udpSend w r a s =
     (case cap_udp (nr_caps r) of
        None \<Rightarrow> (Inl Denied, s)
      | Some c \<Rightarrow>
          (case (net_guard r (uc_multicast c) (field a ''host''), checkPort (field a ''port'')) of
             (Some host, Some port) \<Rightarrow>
               (case decodeB64 w (field a ''b64'') LIM_udpDatagramBytes of
                  Inl e \<Rightarrow> (Inl e, s)
                | Inr buf \<Rightarrow>
                    let i = field a ''id''
                    in if i \<noteq> JUndef \<and> i \<noteq> JNull then
                         (case pending_id i of
                            None \<Rightarrow> (Inl (Net_error ''not_found''), s)
                          | Some n \<Rightarrow>
                              if map_of (pn_udp s) n = None then (Inl (Net_error ''not_found''), s)
                              else (Inr V_done, net_emit r [Udp_send host port buf] s))
                       else (Inr V_done, net_emit r [Udp_send host port buf] (s\<lparr>pn_ephemeral := True\<rparr>)))
           | _ \<Rightarrow> (Inl Denied, s)))"

definition udpClose :: "net_rights \<Rightarrow> (string \<times> json) list \<Rightarrow> plugin_net \<Rightarrow> net_reply" where
  "udpClose r a s =
     (case pending_id (field a ''id'') of
        None \<Rightarrow> (Inr V_done, s)
      | Some i \<Rightarrow>
          if map_of (pn_udp s) i = None then (Inr V_done, s)
          else (Inr V_done, net_emit r [Udp_close i] (s\<lparr>pn_udp := mdelete i (pn_udp s)\<rparr>)))"

section \<open>TCP\<close>

definition tcpConnect :: "net_rights \<Rightarrow> (string \<times> json) list \<Rightarrow> plugin_net \<Rightarrow> net_reply" where
  "tcpConnect r a s =
     (if cap_tcp (nr_caps r) \<noteq> Some True then (Inl Denied, s)
      else case (net_guard r [] (field a ''host''), checkPort (field a ''port'')) of
             (Some host, Some port) \<Rightarrow>
               if LIM_tcpSocketsPerPlugin \<le> length (pn_tcp s) then (Inl (Net_error ''busy''), s)
               else let i = pn_nextId s + 1
                 in (Inr (V_pending i),
                     net_emit r [Tcp_connect host port] (s\<lparr>pn_nextId := i, pn_tcpOpening := mset_at i (host, port) (pn_tcpOpening s)\<rparr>))
           | _ \<Rightarrow> (Inl Denied, s))"

text \<open>Events of a socket: connected, failed or timed out before that, data, end, error, close.\<close>

definition tcpConnected :: "nat \<Rightarrow> plugin_net \<Rightarrow> net_reply" where
  "tcpConnected i s =
     (case map_of (pn_tcpOpening s) i of
        None \<Rightarrow> (Inr V_done, s)
      | Some hp \<Rightarrow> (Inr (V_id i), s\<lparr>pn_tcpOpening := mdelete i (pn_tcpOpening s), pn_tcp := mset_at i hp (pn_tcp s)\<rparr>))"

definition tcpFailed :: "bool \<Rightarrow> nat \<Rightarrow> plugin_net \<Rightarrow> net_reply" where
  "tcpFailed timedOut i s =
     (Inl (Net_error (if timedOut then ''timeout'' else ''net_error'')), s\<lparr>pn_tcpOpening := mdelete i (pn_tcpOpening s)\<rparr>)"

definition tcpData :: "net_rights \<Rightarrow> nat \<Rightarrow> bytes \<Rightarrow> plugin_net \<Rightarrow> plugin_net" where
  "tcpData r i d s = net_emit r [To_plugin (Sock_data i d)] s"

definition tcpEnded :: "net_rights \<Rightarrow> nat \<Rightarrow> plugin_net \<Rightarrow> plugin_net" where
  "tcpEnded r i s = net_emit r [To_plugin (Sock_end i)] s"

definition tcpError :: "net_rights \<Rightarrow> nat \<Rightarrow> string \<Rightarrow> plugin_net \<Rightarrow> plugin_net" where
  "tcpError r i e s = net_emit r [To_plugin (Sock_error i e)] s"

definition tcpClosed :: "net_rights \<Rightarrow> nat \<Rightarrow> plugin_net \<Rightarrow> plugin_net" where
  "tcpClosed r i s =
     (if map_of (pn_tcp s) i = None then s
      else net_emit r [To_plugin (Sock_close i)] (s\<lparr>pn_tcp := mdelete i (pn_tcp s)\<rparr>))"

text \<open>\<open>queued\<close> is the socket's \<open>writableLength\<close>.\<close>

definition tcpWrite :: "net_world \<Rightarrow> net_rights \<Rightarrow> nat \<Rightarrow> (string \<times> json) list \<Rightarrow> plugin_net \<Rightarrow> net_reply" where
  "tcpWrite w r queued a s =
     (case pending_id (field a ''id'') of
        None \<Rightarrow> (Inl (Net_error ''not_found''), s)
      | Some i \<Rightarrow>
          if map_of (pn_tcp s) i = None then (Inl (Net_error ''not_found''), s)
          else (case decodeB64 w (field a ''b64'') LIM_tcpWriteBufferBytes of
                  Inl e \<Rightarrow> (Inl e, s)
                | Inr buf \<Rightarrow>
                    if LIM_tcpWriteBufferBytes < queued + length buf then (Inl (Net_error ''busy''), s)
                    else (Inr V_done, net_emit r [Tcp_write i buf] s)))"

definition tcpEnd :: "net_rights \<Rightarrow> (string \<times> json) list \<Rightarrow> plugin_net \<Rightarrow> net_reply" where
  "tcpEnd r a s =
     (case pending_id (field a ''id'') of
        None \<Rightarrow> (Inr V_done, s)
      | Some i \<Rightarrow> (Inr V_done, if map_of (pn_tcp s) i = None then s else net_emit r [Tcp_end i] s))"

definition tcpDestroy :: "net_rights \<Rightarrow> (string \<times> json) list \<Rightarrow> plugin_net \<Rightarrow> net_reply" where
  "tcpDestroy r a s =
     (case pending_id (field a ''id'') of
        None \<Rightarrow> (Inr V_done, s)
      | Some i \<Rightarrow>
          (Inr V_done, if map_of (pn_tcp s) i = None then s else net_emit r [Tcp_destroy i] (s\<lparr>pn_tcp := mdelete i (pn_tcp s)\<rparr>)))"

section \<open>HTTP\<close>

definition HTTP_METHODS :: "string list" where
  "HTTP_METHODS = [''GET'', ''HEAD'', ''POST'', ''PUT'', ''PATCH'', ''DELETE'', ''OPTIONS'']"

definition HOP_HEADERS :: "string list" where
  "HOP_HEADERS = [''connection'', ''keep-alive'', ''proxy-connection'', ''transfer-encoding'', ''upgrade'', ''te'', ''trailer'', ''proxy-authorization'']"

definition tlsOptions :: "net_url \<Rightarrow> json \<Rightarrow> net_error + tls_check" where
  "tlsOptions u pin =
     (if nu_protocol u \<noteq> ''https:'' then (if js_truthy pin then Inl (Net_error ''bad_request'') else Inr No_tls)
      else if pin \<noteq> JUndef \<and> pin \<noteq> JNull then
        (case normalizeFingerprint pin of None \<Rightarrow> Inl (Net_error ''bad_request'') | Some fp \<Rightarrow> Inr (Pinned fp))
      else Inr Full_check)"

definition clampLimit :: "rat \<Rightarrow> json \<Rightarrow> rat" where
  "clampLimit d v = max 1000 (min LIM_httpTimeoutMaxMs (case v of JNum t \<Rightarrow> t | _ \<Rightarrow> d))"

definition tlsFingerprint :: "net_rights \<Rightarrow> (string \<times> json) list \<Rightarrow> plugin_net \<Rightarrow> net_reply" where
  "tlsFingerprint r a s =
     (if cap_http (nr_caps r) \<noteq> Some True \<and> cap_tcp (nr_caps r) \<noteq> Some True then (Inl Denied, s)
      else case (net_guard r [] (field a ''host''), checkPort (if field a ''port'' = JUndef then JNum 443 else field a ''port'')) of
             (Some host, Some port) \<Rightarrow>
               (Inr V_done, net_emit r [Tls_probe host port (clampLimit TLS_PROBE_TIMEOUT_MS (field a ''timeoutMs''))] s)
           | _ \<Rightarrow> (Inl Denied, s))"

definition header_char :: "char \<Rightarrow> bool" where
  "header_char c = (is_lower c \<or> is_digit c \<or> c \<in> set ''!#$%&*+.^_`|~-'' \<or> c = char_of (39 :: nat))"

definition forbidden_in_value :: "char \<Rightarrow> bool" where
  "forbidden_in_value c = (c = char_of (13 :: nat) \<or> c = char_of (10 :: nat) \<or> c = char_of (0 :: nat))"

text \<open>\<open>Object.entries\<close>: an array has its indices as names.\<close>

definition obj_entries :: "json \<Rightarrow> (string \<times> json) list" where
  "obj_entries v = (case v of JObj ms \<Rightarrow> ms | JArr vs \<Rightarrow> zip (map dec_string [0..<length vs]) vs | _ \<Rightarrow> [])"

text \<open>Assigning a string to \<open>__proto__\<close> of an object has no effect.\<close>

definition header_step :: "platform \<Rightarrow> (string, string) jsmap \<Rightarrow> string \<times> json \<Rightarrow> (string, string) jsmap" where
  "header_step pf hs kv =
     (case kv of (k, v) \<Rightarrow>
        let key = toLower k
        in if \<not> re_class header_char 1 64 key \<or> key \<in> set HOP_HEADERS then hs
           else case v of
                  JStr val \<Rightarrow> if list_ex forbidden_in_value val \<or> 4096 < length val \<or> key = ''__proto__'' then hs else mset_at key val hs
                | JNum n \<Rightarrow>
                    let val = pf_numStr pf n
                    in if list_ex forbidden_in_value val \<or> 4096 < length val \<or> key = ''__proto__'' then hs else mset_at key val hs
                | _ \<Rightarrow> hs)"

definition request_headers :: "platform \<Rightarrow> json \<Rightarrow> bytes \<Rightarrow> (string, string) jsmap" where
  "request_headers pf v body =
     (let hs = foldl (header_step pf) [] (obj_entries v)
      in if body = [] then hs else mset_at ''content-length'' (dec_string (length body)) hs)"

definition url_port :: "net_url \<Rightarrow> int" where
  "url_port u = (case nu_port u of Some p \<Rightarrow> p | None \<Rightarrow> if nu_protocol u = ''https:'' then 443 else 80)"

definition request_url :: "net_world \<Rightarrow> json \<Rightarrow> net_error + net_url" where
  "request_url w v =
     (case nw_url w (jsString (nw_platform w) v) of
        None \<Rightarrow> Inl (Net_error ''bad_request'')
      | Some u \<Rightarrow>
          if nu_protocol u \<noteq> ''http:'' \<and> nu_protocol u \<noteq> ''https:'' then Inl (Net_error ''bad_request'')
          else if nu_username u \<noteq> [] \<or> nu_password u \<noteq> [] then Inl (Net_error ''bad_request'')
          else Inr u)"

definition httpRequest :: "net_world \<Rightarrow> net_rights \<Rightarrow> (string \<times> json) list \<Rightarrow> plugin_net \<Rightarrow> net_reply" where
  "httpRequest w r a s =
     (if cap_http (nr_caps r) \<noteq> Some True then (Inl Denied, s)
      else if field a ''insecure'' \<notin> {JUndef, JNull, JBool False} then (Inl Denied, s)
      else case request_url w (field a ''url'') of
             Inl e \<Rightarrow> (Inl e, s)
           | Inr u \<Rightarrow>
               (case (net_guard r [] (JStr (nu_hostname u)), checkPort (JNum (of_int (url_port u)))) of
                  (Some host, Some port) \<Rightarrow>
                    let m = nw_upper w (if field a ''method'' = JUndef then ''GET'' else jsString (nw_platform w) (field a ''method''))
                    in if m \<notin> set HTTP_METHODS then (Inl (Net_error ''bad_request''), s)
                       else (case decodeB64 w (field a ''b64'') LIM_httpRequestBytes of
                               Inl e \<Rightarrow> (Inl e, s)
                             | Inr body \<Rightarrow>
                                 (case tlsOptions u (field a ''pinSha256'') of
                                    Inl e \<Rightarrow> (Inl e, s)
                                  | Inr tls \<Rightarrow>
                                      (Inr V_done,
                                       net_emit r [Http_request
                                         \<lparr>hc_host = host, hc_port = port, hc_tls = tls, hc_method = m,
                                          hc_headers = request_headers (nw_platform w) (field a ''headers'') body,
                                          hc_body = body, hc_limit = clampLimit LIM_httpTimeoutMaxMs (field a ''timeoutMs'')\<rparr>] s)))
                | _ \<Rightarrow> (Inl Denied, s)))"

text \<open>The body of the answer: the chunks together, as long as they stay within the limit.\<close>

fun response_body :: "nat \<Rightarrow> bytes list \<Rightarrow> bytes option" where
  "response_body got [] = Some []"
| "response_body got (d # ds) =
     (let n = got + length d in if LIM_httpResponseBytes < n then None else map_option ((@) d) (response_body n ds))"

section \<open>mDNS, serial devices, end\<close>

text \<open>\<open>nw_mdns\<close>: there is no mDNS service, it cannot be started, or the number of the browse it starts.\<close>

definition mdnsBrowse :: "net_world \<Rightarrow> net_rights \<Rightarrow> (string \<times> json) list \<Rightarrow> plugin_net \<Rightarrow> net_reply" where
  "mdnsBrowse w r a s =
     (case (cap_mdns (nr_caps r), field a ''service'') of
        (Some services, JStr service) \<Rightarrow>
          if service \<notin> set services then (Inl Denied, s)
          else (case nw_mdns w of
                  None \<Rightarrow> (Inl (Net_error ''not_available''), s)
                | Some started \<Rightarrow>
                    if LIM_mdnsBrowsesPerPlugin \<le> length (pn_browses s) then (Inl (Net_error ''busy''), s)
                    else let i = pn_nextId s + 1; s1 = s\<lparr>pn_nextId := i\<rparr>
                      in case started of
                           None \<Rightarrow> (Inl (Net_error ''not_available''), s1)
                         | Some mid \<Rightarrow> (Inr (V_id i), net_emit r [Mdns_browse service] (s1\<lparr>pn_browses := mset_at i mid (pn_browses s1)\<rparr>)))
      | _ \<Rightarrow> (Inl Denied, s))"

definition mdnsFound :: "net_rights \<Rightarrow> nat \<Rightarrow> string \<Rightarrow> string \<Rightarrow> plugin_net \<Rightarrow> plugin_net" where
  "mdnsFound r i service ip s =
     (if net_guard r [] (JStr ip) = None then s else net_emit r [To_plugin (Mdns_msg i service ip)] s)"

definition mdnsStop :: "net_rights \<Rightarrow> (string \<times> json) list \<Rightarrow> plugin_net \<Rightarrow> net_reply" where
  "mdnsStop r a s =
     (case pending_id (field a ''id'') of
        None \<Rightarrow> (Inr V_done, s)
      | Some i \<Rightarrow>
          (case map_of (pn_browses s) i of
             None \<Rightarrow> (Inr V_done, s)
           | Some mid \<Rightarrow> (Inr V_done, net_emit r [Mdns_stop mid] (s\<lparr>pn_browses := mdelete i (pn_browses s)\<rparr>))))"

definition serialOpen :: "net_rights \<Rightarrow> (string \<times> json) list \<Rightarrow> plugin_net \<Rightarrow> net_reply" where
  "serialOpen r a s =
     (case (cap_serial (nr_caps r), field a ''name'') of
        (Some names, JStr nm) \<Rightarrow> if nm \<in> set names then (Inl (Net_error ''not_available''), s) else (Inl Denied, s)
      | _ \<Rightarrow> (Inl Denied, s))"

definition closeAll :: "net_rights \<Rightarrow> plugin_net \<Rightarrow> plugin_net" where
  "closeAll r s =
     net_emit r (map (Udp_close \<circ> fst) (pn_udp s) @ (if pn_ephemeral s then [Udp_close 0] else [])
         @ map (Tcp_destroy \<circ> fst) (pn_tcp s) @ map (Mdns_stop \<circ> snd) (pn_browses s))
       (s\<lparr>pn_udp := [], pn_ephemeral := False, pn_tcp := [], pn_browses := []\<rparr>)"

definition NET_APIS :: "string list" where
  "NET_APIS = [''udp.bind'', ''udp.send'', ''udp.close'', ''tcp.connect'', ''tcp.write'', ''tcp.end'', ''tcp.destroy'', ''http.request'',
     ''tls.fingerprint'', ''mdns.browse'', ''mdns.stop'', ''serial.open'']"

text \<open>\<open>apis()[api](args)\<close> for a name of the table.\<close>

definition net_api :: "net_world \<Rightarrow> net_rights \<Rightarrow> nat \<Rightarrow> string \<Rightarrow> (string \<times> json) list \<Rightarrow> plugin_net \<Rightarrow> net_reply" where
  "net_api w r queued api a s =
     (if api = ''udp.bind'' then udpBind r a s
      else if api = ''udp.send'' then udpSend w r a s
      else if api = ''udp.close'' then udpClose r a s
      else if api = ''tcp.connect'' then tcpConnect r a s
      else if api = ''tcp.write'' then tcpWrite w r queued a s
      else if api = ''tcp.end'' then tcpEnd r a s
      else if api = ''tcp.destroy'' then tcpDestroy r a s
      else if api = ''http.request'' then httpRequest w r a s
      else if api = ''tls.fingerprint'' then tlsFingerprint r a s
      else if api = ''mdns.browse'' then mdnsBrowse w r a s
      else if api = ''mdns.stop'' then mdnsStop r a s
      else if api = ''serial.open'' then serialOpen r a s
      else (Inl (Net_error ''unknown_api''), s))"

section \<open>What goes out was granted\<close>

definition lan_target :: "net_rights \<Rightarrow> string list \<Rightarrow> string \<Rightarrow> int \<Rightarrow> bool" where
  "lan_target r groups h p = (net_guard r groups (JStr h) = Some h \<and> 1 \<le> p \<and> p \<le> 65535)"

definition header_safe :: "string \<times> string \<Rightarrow> bool" where
  "header_safe kv = (fst kv \<notin> set HOP_HEADERS \<and> \<not> list_ex forbidden_in_value (snd kv))"

fun granted :: "net_rights \<Rightarrow> net_out \<Rightarrow> bool" where
  "granted r (Udp_bind p) = (case cap_udp (nr_caps r) of Some c \<Rightarrow> p \<in> set (uc_ports c) | None \<Rightarrow> False)"
| "granted r (Udp_join g) = (case cap_udp (nr_caps r) of Some c \<Rightarrow> g \<in> set (uc_multicast c) | None \<Rightarrow> False)"
| "granted r (Udp_send h p b) =
     (case cap_udp (nr_caps r) of Some c \<Rightarrow> lan_target r (uc_multicast c) h p \<and> length b \<le> 8192 | None \<Rightarrow> False)"
| "granted r (Tcp_connect h p) = (cap_tcp (nr_caps r) = Some True \<and> lan_target r [] h p)"
| "granted r (Tcp_write i b) = (length b \<le> 1048576)"
| "granted r (Http_request c) =
     (cap_http (nr_caps r) = Some True \<and> lan_target r [] (hc_host c) (hc_port c) \<and> hc_method c \<in> set HTTP_METHODS
      \<and> list_all header_safe (hc_headers c) \<and> length (hc_body c) \<le> 1048576 \<and> 1000 \<le> hc_limit c \<and> hc_limit c \<le> 30000)"
| "granted r (Tls_probe h p t) =
     ((cap_http (nr_caps r) = Some True \<or> cap_tcp (nr_caps r) = Some True) \<and> lan_target r [] h p \<and> 1000 \<le> t \<and> t \<le> 30000)"
| "granted r (Mdns_browse sv) = (case cap_mdns (nr_caps r) of Some ss \<Rightarrow> sv \<in> set ss | None \<Rightarrow> False)"
| "granted r (To_plugin (Udp_msg i d a p)) = (net_guard r [] (JStr a) = Some a)"
| "granted r (To_plugin (Mdns_msg i sv ip)) = (net_guard r [] (JStr ip) = Some ip)"
| "granted r _ = True"

definition net_ok :: "plugin_net \<Rightarrow> bool" where
  "net_ok s =
     ((\<forall>(r, e)\<in>set (pn_out s). granted r e)
      \<and> (\<forall>(i, p, gs, r)\<in>set (pn_udpOpening s). \<forall>g\<in>set gs. granted r (Udp_join g)))"

lemma net_guard_host: "net_guard r gs v = Some h \<Longrightarrow> v = JStr h"
  by (auto simp: net_guard_def guard_check_def split: json.splits if_splits option.splits)

lemma checkPort_range: "checkPort v = Some p \<Longrightarrow> 1 \<le> p \<and> p \<le> 65535"
  by (auto simp: checkPort_def split: option.splits if_splits)

lemma lan_targetI: "net_guard r gs v = Some h \<Longrightarrow> checkPort w = Some p \<Longrightarrow> lan_target r gs h p"
  using net_guard_host [of r gs v h] checkPort_range [of w p] by (simp add: lan_target_def)

lemma decodeB64_length: "decodeB64 w v mx = Inr b \<Longrightarrow> length b \<le> mx"
  by (auto simp: decodeB64_def Let_def split: json.splits if_splits)

lemma clampLimit_range: "d \<le> 30000 \<Longrightarrow> 1000 \<le> clampLimit d v \<and> clampLimit d v \<le> 30000"
  by (auto simp: clampLimit_def LIM_httpTimeoutMaxMs_def)

lemma approved_groups_ok: "approved_groups ok vs = Some gs \<Longrightarrow> set gs \<subseteq> set ok"
  by (induction vs arbitrary: gs) (auto split: json.splits if_splits)

lemma net_ok_emit [simp]: "net_ok (net_emit r es s) = (net_ok s \<and> (\<forall>e\<in>set es. granted r e))"
  by (auto simp: net_ok_def net_emit_def)

lemma net_ok_update [simp]:
  "net_ok (s\<lparr>pn_udp := a\<rparr>) = net_ok s" "net_ok (s\<lparr>pn_tcp := b\<rparr>) = net_ok s" "net_ok (s\<lparr>pn_tcpOpening := b\<rparr>) = net_ok s"
  "net_ok (s\<lparr>pn_browses := c\<rparr>) = net_ok s" "net_ok (s\<lparr>pn_ephemeral := d\<rparr>) = net_ok s" "net_ok (s\<lparr>pn_nextId := n\<rparr>) = net_ok s"
  by (simp_all add: net_ok_def)

lemma net_ok_opening:
  assumes "net_ok s" "\<And>g. g \<in> set gs \<Longrightarrow> granted r (Udp_join g)"
  shows "net_ok (s\<lparr>pn_udpOpening := mset_at i (p, gs, r) (pn_udpOpening s)\<rparr>)" "net_ok (s\<lparr>pn_udpOpening := mdelete i (pn_udpOpening s)\<rparr>)"
  using assms set_mset_at [of i "(p, gs, r)" "pn_udpOpening s"] set_mdelete [of i "pn_udpOpening s"]
  by (fastforce simp: net_ok_def)+

lemma udpBind_ok:
  assumes "net_ok s"
  shows "net_ok (snd (udpBind r a s))"
proof -
  have "net_ok (s\<lparr>pn_nextId := n, pn_udpOpening := mset_at i (p, gs, r) (pn_udpOpening s)\<rparr>)"
    if "cap_udp (nr_caps r) = Some c" "approved_groups (uc_multicast c) vs = Some gs" for n i p gs c vs
    using net_ok_opening(1) [of "s\<lparr>pn_nextId := n\<rparr>" gs r i p] assms that approved_groups_ok [OF that(2)] by auto
  with assms show ?thesis by (auto simp: udpBind_def Let_def split: option.split)
qed

lemma udpBound_ok:
  assumes "net_ok s"
  shows "net_ok (snd (udpBound i ok s))"
proof (cases "map_of (pn_udpOpening s) i")
  case (Some v)
  obtain p gs r where v: "v = (p, gs, r)" by (cases v)
  have "\<forall>g\<in>set gs. granted r (Udp_join g)" using assms map_of_SomeD [OF Some] by (auto simp: net_ok_def v)
  then show ?thesis using Some v net_ok_opening(2) [OF assms, of "[]" r i] by (auto simp: udpBound_def Let_def)
qed (simp add: udpBound_def assms)

lemma udpSend_ok: "net_ok s \<Longrightarrow> net_ok (snd (udpSend w r a s))"
  using decodeB64_length
  by (auto simp: udpSend_def Let_def LIM_udpDatagramBytes_def intro: lan_targetI split: option.splits sum.splits prod.split)

lemma tcpConnect_ok: "net_ok s \<Longrightarrow> net_ok (snd (tcpConnect r a s))"
  by (auto simp: tcpConnect_def Let_def intro: lan_targetI split: option.split prod.split)

lemma tlsFingerprint_ok: "net_ok s \<Longrightarrow> net_ok (snd (tlsFingerprint r a s))"
  using clampLimit_range [of TLS_PROBE_TIMEOUT_MS]
  by (auto simp: tlsFingerprint_def TLS_PROBE_TIMEOUT_MS_def intro: lan_targetI split: option.split prod.split)

lemma header_step_safe: "list_all header_safe hs \<Longrightarrow> list_all header_safe (header_step pf hs kv)"
  by (cases kv) (simp add: header_step_def Let_def list_all_mset_at header_safe_def split: json.split)

lemma digits_safe: "\<not> list_ex forbidden_in_value (dec_string n)"
proof -
  have "\<not> forbidden_in_value c" if "is_digit c" for c
    using that by (auto simp: forbidden_in_value_def is_digit_def)
  then show ?thesis using dec_string_digits [of n] by (auto simp: list_ex_iff list_all_iff)
qed

lemma request_headers_safe: "list_all header_safe (request_headers pf v body)"
proof -
  have "list_all header_safe (foldl (header_step pf) hs xs)" if "list_all header_safe hs" for hs xs
    using that by (induction xs arbitrary: hs) (auto simp: header_step_safe)
  moreover have "header_safe (''content-length'', dec_string n)" for n
    using digits_safe by (auto simp: header_safe_def HOP_HEADERS_def)
  ultimately show ?thesis by (simp add: request_headers_def Let_def list_all_mset_at)
qed

lemma httpRequest_ok: "net_ok s \<Longrightarrow> net_ok (snd (httpRequest w r a s))"
  using clampLimit_range [of LIM_httpTimeoutMaxMs] decodeB64_length [of w _ LIM_httpRequestBytes]
  by (auto simp: httpRequest_def Let_def LIM_httpTimeoutMaxMs_def LIM_httpRequestBytes_def request_headers_safe intro: lan_targetI
      split: option.split prod.split sum.split)

lemma mdnsBrowse_ok: "net_ok s \<Longrightarrow> net_ok (snd (mdnsBrowse w r a s))"
  by (auto simp: mdnsBrowse_def Let_def split: option.split prod.split json.split)

lemma udpMessage_ok: "net_ok s \<Longrightarrow> net_ok (udpMessage r i d a p s)"
  using net_guard_host by (auto simp: udpMessage_def)

lemma mdnsFound_ok: "net_ok s \<Longrightarrow> net_ok (mdnsFound r i sv ip s)"
  using net_guard_host by (auto simp: mdnsFound_def)

lemma closing_ok:
  "net_ok s \<Longrightarrow> net_ok (snd (udpClose r a s))" "net_ok s \<Longrightarrow> net_ok (snd (tcpEnd r a s))" "net_ok s \<Longrightarrow> net_ok (snd (tcpDestroy r a s))"
  "net_ok s \<Longrightarrow> net_ok (snd (mdnsStop r a s))" "net_ok s \<Longrightarrow> net_ok (snd (serialOpen r a s))" "net_ok s \<Longrightarrow> net_ok (closeAll r s)"
  "net_ok s \<Longrightarrow> net_ok (snd (tcpConnected i s))" "net_ok s \<Longrightarrow> net_ok (snd (tcpFailed b i s))" "net_ok s \<Longrightarrow> net_ok (tcpData r i d s)"
  "net_ok s \<Longrightarrow> net_ok (tcpEnded r i s)" "net_ok s \<Longrightarrow> net_ok (tcpError r i x s)" "net_ok s \<Longrightarrow> net_ok (tcpClosed r i s)"
  "net_ok s \<Longrightarrow> net_ok (snd (tcpWrite w r q a s))"
  by (auto simp: LIM_tcpWriteBufferBytes_def udpClose_def tcpEnd_def tcpDestroy_def mdnsStop_def serialOpen_def closeAll_def tcpConnected_def tcpFailed_def
      tcpData_def tcpEnded_def tcpError_def tcpClosed_def tcpWrite_def split: option.split prod.split json.split sum.split)

lemma net_api_ok: "net_ok s \<Longrightarrow> net_ok (snd (net_api w r q api a s))"
  using udpBind_ok udpSend_ok tcpConnect_ok tlsFingerprint_ok httpRequest_ok mdnsBrowse_ok closing_ok
  by (simp add: net_api_def)

section \<open>Events of the sockets\<close>

datatype socket_event =
    Ev_bound nat bool
  | Ev_datagram nat bytes string int
  | Ev_connected nat
  | Ev_connect_failed bool nat
  | Ev_data nat bytes
  | Ev_end nat
  | Ev_error nat string
  | Ev_close nat
  | Ev_found nat string string

fun net_event :: "net_rights \<Rightarrow> socket_event \<Rightarrow> plugin_net \<Rightarrow> plugin_net" where
  "net_event r (Ev_bound i ok) s = snd (udpBound i ok s)"
| "net_event r (Ev_datagram i d a p) s = udpMessage r i d a p s"
| "net_event r (Ev_connected i) s = snd (tcpConnected i s)"
| "net_event r (Ev_connect_failed b i) s = snd (tcpFailed b i s)"
| "net_event r (Ev_data i d) s = tcpData r i d s"
| "net_event r (Ev_end i) s = tcpEnded r i s"
| "net_event r (Ev_error i e) s = tcpError r i e s"
| "net_event r (Ev_close i) s = tcpClosed r i s"
| "net_event r (Ev_found i sv ip) s = mdnsFound r i sv ip s"

lemma net_event_ok: "net_ok s \<Longrightarrow> net_ok (net_event r e s)"
  by (cases e) (auto simp: udpBound_ok udpMessage_ok mdnsFound_ok closing_ok)

text \<open>
  A connection under way when everything is closed is not cut: once it is connected, it is open although the plugin's
  network was closed.
\<close>

theorem connect_survives_closeAll:
  assumes "map_of (pn_tcpOpening s) i = Some (h, p)"
  shows "map_of (pn_tcp (net_event r (Ev_connected i) (closeAll r s))) i = Some (h, p)
    \<and> (r, Tcp_destroy i) \<notin> set (drop (length (pn_out (closeAll r s))) (pn_out (net_event r (Ev_connected i) (closeAll r s))))"
  using assms by (simp add: closeAll_def net_emit_def tcpConnected_def)

text \<open>
  The limit of sockets counts only those that are bound, so binds that overlap all pass it: seventeen binds that begin
  before the first of them is done end in seventeen sockets.
\<close>

definition sample_rights :: net_rights where
  "sample_rights = \<lparr>nr_caps = noCaps\<lparr>cap_udp := Some \<lparr>uc_ports = [5683], uc_multicast = []\<rparr>, cap_tcp := Some True\<rparr>,
     nr_subnets = [''192.168.1.0/24''], nr_tunnel = ''10.8.0.2'', nr_servers = [''203.0.113.7'']\<rparr>"

theorem overlapping_binds_exceed_the_limit:
  "LIM_udpSocketsPerPlugin
     < length (pn_udp (foldl (\<lambda>s i. net_event sample_rights (Ev_bound i True) s)
         (foldl (\<lambda>s i. snd (udpBind sample_rights [(''port'', JNum 5683)] s)) newNet [1..<18]) [1..<18]))"
  by code_simp

end
