(* ===== verification/Edge_Bridge.thy ===== *)
theory Edge_Bridge
  imports Edge_Net
begin

text \<open>
  The gateway's side of the plugin container (\<open>src/src/edge/bridge.js\<close>): it reads the desired state off the relayed
  channel, and checks every request of the container against that state before a plugin's network services run it.
  The networks of the plugins are objects of their own (\<open>br_nets\<close>, by position), since sockets keep theirs alive after
  the plugin was forgotten. Frames of the two websockets are given as the values they carry.
\<close>

section \<open>State\<close>

record lan_env =
  le_subnets :: "string list"
  le_tunnel :: string
  le_servers :: "string list"

definition rights_in :: "lan_env \<Rightarrow> caps \<Rightarrow> net_rights" where
  "rights_in e c = \<lparr>nr_caps = c, nr_subnets = le_subnets e, nr_tunnel = le_tunnel e, nr_servers = le_servers e\<rparr>"

record bridge_net =
  bn_plugin :: string
  bn_caps :: caps
  bn_net :: plugin_net

datatype mqtt_out =
    Mqtt_call string caps string json
  | Mqtt_drop string
  | Mqtt_apply mqtt_cfg

record edge_bridge =
  br_desired :: "edge_state option"
  br_nets :: "bridge_net list"
  br_plugins :: "(string, nat) jsmap"
  br_rpc :: "nat option"
  br_calls :: "(nat \<times> int) list"
  br_sent :: "(nat \<times> int \<times> (net_error + json)) list"
  br_mqtt :: "mqtt_out list"

definition newBridge :: edge_bridge where
  "newBridge = \<lparr>br_desired = None, br_nets = [], br_plugins = [], br_rpc = None, br_calls = [], br_sent = [], br_mqtt = []\<rparr>"

definition MQTT_APIS :: "string list" where
  "MQTT_APIS = [''mqtt.subscribe'', ''mqtt.unsubscribe'', ''mqtt.publish'']"

definition MAX_INFLIGHT :: nat where
  "MAX_INFLIGHT = 128"

text \<open>What a message needs of the outside: the platform, whether MQTT is available, and \<open>writableLength\<close> of the socket written to.\<close>

record bridge_world =
  bw_net :: net_world
  bw_mqtt :: bool
  bw_queued :: nat

section \<open>Plugins\<close>

definition bridge_wanted :: "edge_bridge \<Rightarrow> string \<Rightarrow> plugin_state option" where
  "bridge_wanted b i =
     (case br_desired b of
        None \<Rightarrow> None
      | Some st \<Rightarrow>
          if \<not> es_edgeEnabled st then None
          else case List.find (\<lambda>p. ps_id p = i) (es_plugins st) of
                 None \<Rightarrow> None
               | Some p \<Rightarrow> if ps_enabled p \<and> (ps_capsError p = None \<or> ps_capsError p = Some []) then Some p else None)"

definition with_net :: "nat \<Rightarrow> (bridge_net \<Rightarrow> bridge_net) \<Rightarrow> edge_bridge \<Rightarrow> edge_bridge" where
  "with_net k f b = b\<lparr>br_nets := (br_nets b)[k := f (br_nets b ! k)]\<rparr>"

definition bridge_entry :: "string \<Rightarrow> edge_bridge \<Rightarrow> nat \<times> edge_bridge" where
  "bridge_entry i b =
     (case map_of (br_plugins b) i of
        Some k \<Rightarrow> (k, b)
      | None \<Rightarrow>
          (length (br_nets b),
           b\<lparr>br_nets := br_nets b @ [\<lparr>bn_plugin = i, bn_caps = noCaps, bn_net = newNet\<rparr>],
             br_plugins := mset_at i (length (br_nets b)) (br_plugins b)\<rparr>))"

definition mqtt_emit :: "mqtt_out \<Rightarrow> edge_bridge \<Rightarrow> edge_bridge" where
  "mqtt_emit x b = b\<lparr>br_mqtt := br_mqtt b @ [x]\<rparr>"

definition closePlugin :: "lan_env \<Rightarrow> string \<Rightarrow> edge_bridge \<Rightarrow> edge_bridge" where
  "closePlugin env i b =
     mqtt_emit (Mqtt_drop i)
       (case map_of (br_plugins b) i of
          None \<Rightarrow> b
        | Some k \<Rightarrow>
            (with_net k (\<lambda>n. n\<lparr>bn_net := closeAll (rights_in env (bn_caps n)) (bn_net n)\<rparr>) b)
              \<lparr>br_plugins := mdelete i (br_plugins b)\<rparr>)"

definition closeAllPlugins :: "lan_env \<Rightarrow> edge_bridge \<Rightarrow> edge_bridge" where
  "closeAllPlugins env b = foldl (\<lambda>b i. closePlugin env i b) b (mkeys (br_plugins b))"

section \<open>The desired state\<close>

definition setDesired :: "bridge_world \<Rightarrow> lan_env \<Rightarrow> edge_state \<Rightarrow> edge_bridge \<Rightarrow> edge_bridge" where
  "setDesired w env st b =
     (let b1 = b\<lparr>br_desired := Some st\<rparr>;
          b2 = foldl (\<lambda>b i. if bridge_wanted b i = None then closePlugin env i b else b) b1 (mkeys (br_plugins b1))
      in if bw_mqtt w then mqtt_emit (Mqtt_apply (if es_edgeEnabled st then es_mqtt st else mqttOff)) b2 else b2)"

text \<open>\<open>observe\<close>: a frame of the server as its text and what \<open>JSON.parse\<close> makes of it.\<close>

definition observe_frame :: "bridge_world \<Rightarrow> lan_env \<Rightarrow> string \<Rightarrow> json option \<Rightarrow> edge_bridge \<Rightarrow> edge_bridge" where
  "observe_frame w env frame parsed b =
     (if \<not> contains ([CHR 0x22] @ ''state'' @ [CHR 0x22]) frame then b
      else case parsed of
             None \<Rightarrow> b
           | Some m \<Rightarrow>
               if field (members m) ''t'' \<noteq> JStr ''state'' then b
               else case parseState m of None \<Rightarrow> b | Some st \<Rightarrow> setDesired w env st b)"

text \<open>The packages the container may fetch are those of the desired state.\<close>

definition package_known :: "edge_bridge \<Rightarrow> string \<Rightarrow> string \<Rightarrow> bool" where
  "package_known b i version =
     (validId (JStr i) \<and> VERSION_RE version \<and>
      (case br_desired b of None \<Rightarrow> False | Some st \<Rightarrow> list_ex (\<lambda>p. ps_id p = i \<and> ps_version p = version) (es_plugins st)))"

definition SENDABLE_CLOSE :: "int list" where
  "SENDABLE_CLOSE = [1000, 1001, 1002, 1003, 1007, 1008, 1009, 1010, 1011, 1012, 1013, 1014]"

definition closeCode :: "int \<Rightarrow> int" where
  "closeCode c = (if 3000 \<le> c \<and> c \<le> 4999 \<or> c \<in> set SENDABLE_CLOSE then c else 1011)"

text \<open>\<open>PACKAGE_RE\<close>: the two parts behind the fixed path.\<close>

definition PACKAGE_RE :: "string \<Rightarrow> (string \<times> string) option" where
  "PACKAGE_RE url =
     (let p = ''/api/v1/gateway/edge/packages/''
      in if \<not> prefix p url then None
         else case split_on CHR ''/'' (drop (length p) url) of
                [x, y] \<Rightarrow> if x = [] \<or> y = [] \<or> CHR ''?'' \<in> set x \<or> CHR ''?'' \<in> set y then None else Some (x, y)
              | _ \<Rightarrow> None)"

datatype package_reply = Refused nat | Download string string

text \<open>\<open>onRequest\<close>; \<open>dec\<close> is \<open>decodeURIComponent\<close> and \<open>up\<close> says whether the gateway has access to the server.\<close>

definition onRequest :: "(string \<Rightarrow> string option) \<Rightarrow> bool \<Rightarrow> edge_bridge \<Rightarrow> string \<Rightarrow> string \<Rightarrow> package_reply" where
  "onRequest dec up b meth url =
     (case (if meth = ''GET'' then PACKAGE_RE url else None) of
        None \<Rightarrow> Refused 404
      | Some (x, y) \<Rightarrow>
          (case (dec x, dec y) of
             (Some i, Some version) \<Rightarrow>
               if \<not> package_known b i version then Refused 404 else if \<not> up then Refused 503 else Download i version
           | _ \<Rightarrow> Refused 404))"

section \<open>Requests of the container\<close>

definition handleCall :: "bridge_world \<Rightarrow> lan_env \<Rightarrow> (string \<times> json) list \<Rightarrow> edge_bridge \<Rightarrow> (net_error + net_value) \<times> edge_bridge" where
  "handleCall w env ms b =
     (case (field ms ''plugin'', field ms ''api'') of
        (JStr i, api) \<Rightarrow>
          if \<not> validId (JStr i) then (Inl (Net_error ''bad_request''), b)
          else (case api of
                  JStr nm \<Rightarrow>
                    if nm \<notin> set NET_APIS \<and> nm \<notin> set MQTT_APIS then (Inl (Net_error ''unknown_api''), b)
                    else (case bridge_wanted b i of
                            None \<Rightarrow> (Inl (Net_error ''not_enabled''), b)
                          | Some p \<Rightarrow>
                              (case validateCaps (field ms ''caps'') of
                                 None \<Rightarrow> (Inl (Net_error ''bad_request''), b)
                               | Some claimed \<Rightarrow>
                                   let (k, b1) = bridge_entry i b;
                                       c = intersectCaps claimed (ps_caps p);
                                       b2 = with_net k (\<lambda>n. n\<lparr>bn_caps := c\<rparr>) b1;
                                       args = members (field ms ''args'')
                                   in if nm \<in> set MQTT_APIS then
                                        (if bw_mqtt w then (Inr V_done, mqtt_emit (Mqtt_call i c nm (JObj args)) b2)
                                         else (Inl (Net_error ''not_available''), b2))
                                      else case net_api (bw_net w) (rights_in env c) (bw_queued w) nm args (bn_net (br_nets b2 ! k)) of
                                             (res, s) \<Rightarrow> (res, with_net k (\<lambda>n. n\<lparr>bn_net := s\<rparr>) b2)))
                | _ \<Rightarrow> (Inl (Net_error ''unknown_api''), b))
      | _ \<Rightarrow> (Inl (Net_error ''bad_request''), b))"

definition onRpc :: "bridge_world \<Rightarrow> lan_env \<Rightarrow> nat \<Rightarrow> json \<Rightarrow> edge_bridge \<Rightarrow> edge_bridge" where
  "onRpc w env ws m b =
     (let ms = members m
      in if field ms ''t'' = JStr ''close'' then
           (case field ms ''plugin'' of JStr i \<Rightarrow> if validId (JStr i) then closePlugin env i b else b | _ \<Rightarrow> b)
         else case (field ms ''t'' = JStr ''call'', intOf (field ms ''id'')) of
                (True, Some cid) \<Rightarrow>
                  if MAX_INFLIGHT \<le> length (br_calls b) then b\<lparr>br_sent := br_sent b @ [(ws, cid, Inl (Net_error ''busy''))]\<rparr>
                  else (case handleCall w env ms b of
                          (Inr v, b1) \<Rightarrow> b1\<lparr>br_calls := br_calls b1 @ [(ws, cid)]\<rparr>
                        | (Inl e, b1) \<Rightarrow> b1\<lparr>br_sent := br_sent b1 @ [(ws, cid, Inl e)]\<rparr>)
              | _ \<Rightarrow> b)"

text \<open>The promise of a call is settled: the container that asked gets the answer.\<close>

definition call_settled :: "nat \<Rightarrow> int \<Rightarrow> net_error + json \<Rightarrow> edge_bridge \<Rightarrow> edge_bridge" where
  "call_settled ws cid r b =
     (if (ws, cid) \<in> set (br_calls b) then b\<lparr>br_calls := remove1 (ws, cid) (br_calls b), br_sent := br_sent b @ [(ws, cid, r)]\<rparr> else b)"

definition bindRpc :: "lan_env \<Rightarrow> nat \<Rightarrow> edge_bridge \<Rightarrow> edge_bridge" where
  "bindRpc env ws b =
     (case br_rpc b of
        None \<Rightarrow> b\<lparr>br_rpc := Some ws\<rparr>
      | Some old \<Rightarrow> (closeAllPlugins env (b\<lparr>br_rpc := None\<rparr>))\<lparr>br_rpc := Some ws\<rparr>)"

definition rpcClosed :: "lan_env \<Rightarrow> nat \<Rightarrow> edge_bridge \<Rightarrow> edge_bridge" where
  "rpcClosed env ws b = (if br_rpc b \<noteq> Some ws then b else closeAllPlugins env (b\<lparr>br_rpc := None\<rparr>))"

definition bridge_stop :: "lan_env \<Rightarrow> edge_bridge \<Rightarrow> edge_bridge" where
  "bridge_stop env b = closeAllPlugins env (b\<lparr>br_rpc := None\<rparr>)"

section \<open>Events\<close>

datatype bridge_event =
    Server_frame string "json option"
  | Rpc_open nat
  | Rpc_message nat json
  | Rpc_closed nat
  | Call_settled nat int "net_error + json"
  | Socket nat socket_event
  | Stopping_bridge

fun bridge_step :: "bridge_world \<Rightarrow> lan_env \<Rightarrow> bridge_event \<Rightarrow> edge_bridge \<Rightarrow> edge_bridge" where
  "bridge_step w env (Server_frame t m) b = observe_frame w env t m b"
| "bridge_step w env (Rpc_open ws) b = bindRpc env ws b"
| "bridge_step w env (Rpc_message ws m) b = onRpc w env ws m b"
| "bridge_step w env (Rpc_closed ws) b = rpcClosed env ws b"
| "bridge_step w env (Call_settled ws cid r) b = call_settled ws cid r b"
| "bridge_step w env (Socket k e) b =
     (if k < length (br_nets b) then with_net k (\<lambda>n. n\<lparr>bn_net := net_event (rights_in env (bn_caps n)) e (bn_net n)\<rparr>) b else b)"
| "bridge_step w env Stopping_bridge b = bridge_stop env b"

inductive bridge_reach :: "edge_bridge \<Rightarrow> bool" where
  start: "bridge_reach newBridge"
| step: "bridge_reach b \<Longrightarrow> bridge_reach (bridge_step w env ev b)"

section \<open>What a step adds to the effects of a network\<close>

fun outgoing :: "net_out \<Rightarrow> bool" where
  "outgoing (Udp_bind p) = True"
| "outgoing (Udp_send h p b) = True"
| "outgoing (Tcp_connect h p) = True"
| "outgoing (Tcp_write i b) = True"
| "outgoing (Http_request c) = True"
| "outgoing (Tls_probe h p t) = True"
| "outgoing (Mdns_browse sv) = True"
| "outgoing _ = False"

definition adds :: "(net_rights \<times> net_out \<Rightarrow> bool) \<Rightarrow> plugin_net \<Rightarrow> plugin_net \<Rightarrow> bool" where
  "adds P s s' = (\<exists>es. pn_out s' = pn_out s @ es \<and> (\<forall>x\<in>set es. P x))"

lemma adds_refl [simp]: "pn_out s' = pn_out s \<Longrightarrow> adds P s s'"
  by (simp add: adds_def)

lemma adds_emit: "pn_out s' = pn_out s \<Longrightarrow> (\<And>e. e \<in> set es \<Longrightarrow> P (r, e)) \<Longrightarrow> adds P s (net_emit r es s')"
  by (auto simp: adds_def net_emit_def)

lemma adds_trans: "adds P s t \<Longrightarrow> adds P t u \<Longrightarrow> adds P s u"
  by (auto simp: adds_def)

lemma closeAll_adds: "adds (\<lambda>(r, e). \<not> outgoing e) s (closeAll r s)"
  unfolding closeAll_def by (rule adds_emit) (auto split: if_splits)

lemma net_event_adds: "adds (\<lambda>(r, e). \<not> outgoing e) s (net_event r ev s)"
  by (cases ev) (auto simp: udpBound_def udpMessage_def tcpConnected_def tcpFailed_def tcpData_def tcpEnded_def tcpError_def tcpClosed_def
      mdnsFound_def Let_def intro!: adds_emit split: option.split)

text \<open>Made with the rights \<open>r\<close>; what is written fits into the socket's buffer, of which \<open>q\<close> bytes are in use.\<close>

definition made_with :: "net_rights \<Rightarrow> nat \<Rightarrow> net_rights \<times> net_out \<Rightarrow> bool" where
  "made_with r q x = (fst x = r \<and> (\<forall>i d. snd x = Tcp_write i d \<longrightarrow> q + length d \<le> 1048576))"

lemma net_ops_add:
  "adds (made_with r q) s (snd (udpBind r a s))" "adds (made_with r q) s (snd (udpSend w r a s))"
  "adds (made_with r q) s (snd (udpClose r a s))" "adds (made_with r q) s (snd (tcpConnect r a s))"
  "adds (made_with r q) s (snd (tcpWrite w r q a s))" "adds (made_with r q) s (snd (tcpEnd r a s))"
  "adds (made_with r q) s (snd (tcpDestroy r a s))" "adds (made_with r q) s (snd (tlsFingerprint r a s))"
  "adds (made_with r q) s (snd (mdnsBrowse w r a s))" "adds (made_with r q) s (snd (mdnsStop r a s))"
  "adds (made_with r q) s (snd (serialOpen r a s))" "adds (made_with r q) s (snd (httpRequest w r a s))"
  by (auto simp: made_with_def udpBind_def udpSend_def udpClose_def tcpConnect_def tcpWrite_def tcpEnd_def tcpDestroy_def httpRequest_def tlsFingerprint_def
      mdnsBrowse_def mdnsStop_def serialOpen_def LIM_tcpWriteBufferBytes_def Let_def intro!: adds_emit split: option.split sum.split prod.split json.split)

lemma net_api_adds: "adds (made_with r q) s (snd (net_api w r q api a s))"
  unfolding net_api_def using net_ops_add by simp

section \<open>What a step adds to the effects of the bridge\<close>

definition bridge_adds :: "(string \<Rightarrow> net_rights \<times> net_out \<Rightarrow> bool) \<Rightarrow> edge_bridge \<Rightarrow> edge_bridge \<Rightarrow> bool" where
  "bridge_adds P b b' =
     (length (br_nets b) \<le> length (br_nets b') \<and>
      (\<forall>k < length (br_nets b'). let n' = br_nets b' ! k in
         if k < length (br_nets b) then bn_plugin n' = bn_plugin (br_nets b ! k) \<and> adds (P (bn_plugin n')) (bn_net (br_nets b ! k)) (bn_net n')
         else adds (P (bn_plugin n')) newNet (bn_net n')))"

definition bridge_ok :: "edge_bridge \<Rightarrow> bool" where
  "bridge_ok b =
     ((\<forall>n\<in>set (br_nets b). net_ok (bn_net n))
      \<and> (\<forall>(i, k)\<in>set (br_plugins b). k < length (br_nets b) \<and> bn_plugin (br_nets b ! k) = i))"

definition bridge_same :: "edge_bridge \<Rightarrow> edge_bridge \<Rightarrow> bool" where
  "bridge_same b b' = (br_nets b' = br_nets b \<and> br_plugins b' = br_plugins b)"

lemma bridge_same_adds: "bridge_same b b' \<Longrightarrow> bridge_adds P b b' \<and> (bridge_ok b \<longrightarrow> bridge_ok b')"
  by (simp add: bridge_same_def bridge_adds_def bridge_ok_def Let_def)

lemma bridge_adds_trans:
  assumes "bridge_adds P b c" "bridge_adds P c d"
  shows "bridge_adds P b d"
  unfolding bridge_adds_def Let_def
proof (intro conjI allI impI)
  show "length (br_nets b) \<le> length (br_nets d)" using assms by (simp add: bridge_adds_def)
next
  fix k assume k: "k < length (br_nets d)"
  let ?P = "P (bn_plugin (br_nets d ! k))"
  show "if k < length (br_nets b)
      then bn_plugin (br_nets d ! k) = bn_plugin (br_nets b ! k) \<and> adds ?P (bn_net (br_nets b ! k)) (bn_net (br_nets d ! k))
      else adds ?P newNet (bn_net (br_nets d ! k))"
  proof (cases "k < length (br_nets c)")
    case True
    have cd: "bn_plugin (br_nets d ! k) = bn_plugin (br_nets c ! k)" "adds ?P (bn_net (br_nets c ! k)) (bn_net (br_nets d ! k))"
      using assms(2) k True unfolding bridge_adds_def Let_def by meson+
    have bc: "if k < length (br_nets b) then bn_plugin (br_nets c ! k) = bn_plugin (br_nets b ! k) \<and> adds ?P (bn_net (br_nets b ! k)) (bn_net (br_nets c ! k))
        else adds ?P newNet (bn_net (br_nets c ! k))"
      using assms(1) True unfolding bridge_adds_def Let_def cd(1) by blast
    show ?thesis using bc cd adds_trans by (auto split: if_splits)
  next
    case False
    have "length (br_nets b) \<le> length (br_nets c)" using assms(1) by (simp add: bridge_adds_def)
    then show ?thesis using assms(2) k False by (simp add: bridge_adds_def Let_def)
  qed
qed

lemma with_net_adds:
  assumes "bn_plugin (f (br_nets b ! k)) = bn_plugin (br_nets b ! k)"
    "k < length (br_nets b) \<Longrightarrow> adds (P (bn_plugin (br_nets b ! k))) (bn_net (br_nets b ! k)) (bn_net (f (br_nets b ! k)))"
  shows "bridge_adds P b (with_net k f b)"
  using assms by (cases "k < length (br_nets b)") (simp_all add: bridge_adds_def with_net_def Let_def nth_list_update)

lemma with_net_ok:
  assumes "bridge_ok b" "bn_plugin (f (br_nets b ! k)) = bn_plugin (br_nets b ! k)"
    "k < length (br_nets b) \<Longrightarrow> net_ok (bn_net (f (br_nets b ! k)))"
  shows "bridge_ok (with_net k f b)"
proof (cases "k < length (br_nets b)")
  case True
  then have "set (br_nets (with_net k f b)) \<subseteq> insert (f (br_nets b ! k)) (set (br_nets b))"
    by (simp add: with_net_def set_update_subset_insert)
  with True assms show ?thesis by (fastforce simp: bridge_ok_def with_net_def nth_list_update)
next
  case False
  then have "with_net k f b = b" by (simp add: with_net_def list_update_beyond)
  with assms(1) show ?thesis by simp
qed

abbreviation quiet :: "string \<Rightarrow> net_rights \<times> net_out \<Rightarrow> bool" where
  "quiet i x \<equiv> (case x of (r, e) \<Rightarrow> \<not> outgoing e)"

lemma closePlugin_step: "bridge_adds quiet b (closePlugin env i b) \<and> (bridge_ok b \<longrightarrow> bridge_ok (closePlugin env i b))"
proof (cases "map_of (br_plugins b) i")
  case None
  then show ?thesis using bridge_same_adds [of b "closePlugin env i b"] by (simp add: closePlugin_def mqtt_emit_def bridge_same_def)
next
  case (Some k)
  let ?f = "\<lambda>n. n\<lparr>bn_net := closeAll (rights_in env (bn_caps n)) (bn_net n)\<rparr>"
  have eq: "closePlugin env i b = mqtt_emit (Mqtt_drop i) ((with_net k ?f b)\<lparr>br_plugins := mdelete i (br_plugins b)\<rparr>)"
    using Some by (simp add: closePlugin_def)
  have a: "bridge_adds quiet b (with_net k ?f b)" by (rule with_net_adds) (simp_all add: closeAll_adds)
  have "bridge_ok (with_net k ?f b)" if "bridge_ok b"
  proof (rule with_net_ok [OF that])
    assume "k < length (br_nets b)"
    then have "net_ok (bn_net (br_nets b ! k))" using that by (simp add: bridge_ok_def)
    then show "net_ok (bn_net (?f (br_nets b ! k)))" by (simp add: closing_ok)
  qed simp
  then show ?thesis using a unfolding eq
    by (auto simp: bridge_adds_def bridge_ok_def mqtt_emit_def with_net_def mdelete_def Let_def)
qed

lemma foldl_step:
  assumes "\<And>b i. bridge_adds P b (f b i) \<and> (bridge_ok b \<longrightarrow> bridge_ok (f b i))"
  shows "bridge_adds P b (foldl f b xs) \<and> (bridge_ok b \<longrightarrow> bridge_ok (foldl f b xs))"
proof (induction xs arbitrary: b)
  case Nil
  show ?case using bridge_same_adds [of b b] by (simp add: bridge_same_def)
next
  case (Cons x xs)
  show ?case using assms [of b x] Cons.IH [of "f b x"] bridge_adds_trans [of P b "f b x"] by auto
qed

lemma closeAllPlugins_step:
  "bridge_adds quiet b (closeAllPlugins env b) \<and> (bridge_ok b \<longrightarrow> bridge_ok (closeAllPlugins env b))"
  unfolding closeAllPlugins_def by (rule foldl_step) (rule closePlugin_step)


lemma adds_mono: "adds P s s' \<Longrightarrow> (\<And>x. x \<in> set (pn_out s') \<Longrightarrow> P x \<Longrightarrow> Q x) \<Longrightarrow> adds Q s s'"
  unfolding adds_def by (metis Un_iff set_append)

lemma bridge_adds_mono:
  assumes "bridge_adds P b b'" "\<And>n x. n \<in> set (br_nets b') \<Longrightarrow> x \<in> set (pn_out (bn_net n)) \<Longrightarrow> P (bn_plugin n) x \<Longrightarrow> Q (bn_plugin n) x"
  shows "bridge_adds Q b b'"
proof -
  have "adds (Q (bn_plugin (br_nets b' ! k))) s (bn_net (br_nets b' ! k))"
    if "k < length (br_nets b')" "adds (P (bn_plugin (br_nets b' ! k))) s (bn_net (br_nets b' ! k))" for k s
    using adds_mono [OF that(2)] assms(2) nth_mem [OF that(1)] by blast
  then show ?thesis using assms(1) unfolding bridge_adds_def Let_def by meson
qed

lemma setDesired_step: "bridge_adds quiet b (setDesired w env st b) \<and> (bridge_ok b \<longrightarrow> bridge_ok (setDesired w env st b))"
proof -
  let ?b1 = "b\<lparr>br_desired := Some st\<rparr>" and ?f = "\<lambda>b i. if bridge_wanted b i = None then closePlugin env i b else b"
  have f: "bridge_adds quiet b (?f b i) \<and> (bridge_ok b \<longrightarrow> bridge_ok (?f b i))" for b i
    using closePlugin_step [of b env i] bridge_same_adds [of b b] by (simp add: bridge_same_def)
  have "bridge_adds quiet b ?b1 \<and> (bridge_ok b \<longrightarrow> bridge_ok ?b1)"
    by (rule bridge_same_adds) (simp add: bridge_same_def)
  moreover note foldl_step [of quiet ?f ?b1 "mkeys (br_plugins ?b1)", OF f]
  moreover have "bridge_same c (if bw_mqtt w then mqtt_emit x c else c)" for c x
    by (simp add: bridge_same_def mqtt_emit_def)
  ultimately show ?thesis
    unfolding setDesired_def Let_def by (meson bridge_adds_trans bridge_same_adds)
qed

lemma observe_frame_step: "bridge_adds quiet b (observe_frame w env t m b) \<and> (bridge_ok b \<longrightarrow> bridge_ok (observe_frame w env t m b))"
  using setDesired_step [of b w env] bridge_same_adds [of b b quiet]
  by (simp add: observe_frame_def bridge_same_def split: option.split)

lemma closing_step:
  "bridge_adds quiet b ((closeAllPlugins env (b\<lparr>br_rpc := x\<rparr>))\<lparr>br_rpc := y\<rparr>)
    \<and> (bridge_ok b \<longrightarrow> bridge_ok ((closeAllPlugins env (b\<lparr>br_rpc := x\<rparr>))\<lparr>br_rpc := y\<rparr>))"
proof -
  let ?c = "closeAllPlugins env (b\<lparr>br_rpc := x\<rparr>)"
  have "bridge_same b (b\<lparr>br_rpc := x\<rparr>)" "bridge_same ?c (?c\<lparr>br_rpc := y\<rparr>)" by (simp_all add: bridge_same_def)
  then show ?thesis using closeAllPlugins_step [of "b\<lparr>br_rpc := x\<rparr>" env]
    by (meson bridge_adds_trans bridge_same_adds)
qed

lemma bindRpc_step: "bridge_adds quiet b (bindRpc env ws b) \<and> (bridge_ok b \<longrightarrow> bridge_ok (bindRpc env ws b))"
  using closing_step [of b "Some ws" env None] bridge_same_adds [of b "b\<lparr>br_rpc := Some ws\<rparr>" quiet]
  by (simp add: bindRpc_def bridge_same_def split: option.split)

lemma rpcClosed_step:
  "bridge_adds quiet b (rpcClosed env ws b) \<and> (bridge_ok b \<longrightarrow> bridge_ok (rpcClosed env ws b))"
  "bridge_adds quiet b (bridge_stop env b) \<and> (bridge_ok b \<longrightarrow> bridge_ok (bridge_stop env b))"
proof -
  have r: "bridge_same b (b\<lparr>br_rpc := None\<rparr>)" by (simp add: bridge_same_def)
  then have c: "bridge_adds quiet b (closeAllPlugins env (b\<lparr>br_rpc := None\<rparr>)) \<and>
      (bridge_ok b \<longrightarrow> bridge_ok (closeAllPlugins env (b\<lparr>br_rpc := None\<rparr>)))"
    using closeAllPlugins_step by (meson bridge_adds_trans bridge_same_adds)
  then show "bridge_adds quiet b (bridge_stop env b) \<and> (bridge_ok b \<longrightarrow> bridge_ok (bridge_stop env b))" by (simp add: bridge_stop_def)
  show "bridge_adds quiet b (rpcClosed env ws b) \<and> (bridge_ok b \<longrightarrow> bridge_ok (rpcClosed env ws b))"
    using c bridge_same_adds [of b b quiet] by (simp add: rpcClosed_def bridge_same_def)
qed

lemma socket_step:
  assumes "bridge_ok b" "k < length (br_nets b)"
  shows "bridge_adds quiet b (with_net k (\<lambda>n. n\<lparr>bn_net := net_event (rights_in env (bn_caps n)) e (bn_net n)\<rparr>) b)
    \<and> bridge_ok (with_net k (\<lambda>n. n\<lparr>bn_net := net_event (rights_in env (bn_caps n)) e (bn_net n)\<rparr>) b)"
proof -
  have "net_ok (bn_net (br_nets b ! k))" using assms by (simp add: bridge_ok_def)
  then show ?thesis by (intro conjI with_net_adds with_net_ok assms) (simp_all add: net_event_adds net_event_ok)
qed

section \<open>Calls\<close>

definition approved :: "edge_bridge \<Rightarrow> string \<Rightarrow> caps \<Rightarrow> bool" where
  "approved b i c = (case bridge_wanted b i of None \<Rightarrow> False | Some p \<Rightarrow> rights c \<subseteq> rights (ps_caps p))"

text \<open>
  What goes out for the plugin \<open>j\<close> on a message with the members \<open>ms\<close>: the message names this plugin, its rights are
  approved, and what is written fits into the socket's buffer.
\<close>

definition called_for :: "bridge_world \<Rightarrow> (string \<times> json) list \<Rightarrow> edge_bridge \<Rightarrow> string \<Rightarrow> net_rights \<times> net_out \<Rightarrow> bool" where
  "called_for w ms b j x =
     (outgoing (snd x) \<longrightarrow> field ms ''plugin'' = JStr j \<and> approved b j (nr_caps (fst x)) \<and>
        (\<forall>i d. snd x = Tcp_write i d \<longrightarrow> bw_queued w + length d \<le> 1048576))"

lemma bridge_entry_step:
  assumes "bridge_ok b" "bridge_entry i b = (k, b1)"
  shows "bridge_adds P b b1 \<and> bridge_ok b1 \<and> k < length (br_nets b1) \<and> bn_plugin (br_nets b1 ! k) = i"
proof (cases "map_of (br_plugins b) i")
  case (Some j)
  then have "k = j" "b1 = b" using assms(2) by (simp_all add: bridge_entry_def)
  moreover have "j < length (br_nets b) \<and> bn_plugin (br_nets b ! j) = i"
    using assms(1) map_of_SomeD [OF Some] by (auto simp: bridge_ok_def)
  ultimately show ?thesis using assms(1) bridge_same_adds [of b b] by (simp add: bridge_same_def)
next
  case None
  let ?n = "\<lparr>bn_plugin = i, bn_caps = noCaps, bn_net = newNet\<rparr>"
  from None have k: "k = length (br_nets b)"
    and b1: "b1 = b\<lparr>br_nets := br_nets b @ [?n], br_plugins := mset_at i k (br_plugins b)\<rparr>"
    using assms(2) by (auto simp: bridge_entry_def)
  have "net_ok newNet" by (simp add: net_ok_def newNet_def)
  moreover have "\<forall>(j, l)\<in>set (mset_at i k (br_plugins b)). l < Suc (length (br_nets b)) \<and> bn_plugin ((br_nets b @ [?n]) ! l) = j"
    using assms(1) set_mset_at [of i k "br_plugins b"] by (fastforce simp: bridge_ok_def nth_append k)
  ultimately have "bridge_ok b1" using assms(1) by (simp add: b1 bridge_ok_def)
  moreover have "bridge_adds P b b1" by (simp add: bridge_adds_def b1 Let_def nth_append less_Suc_eq)
  ultimately show ?thesis by (simp add: b1 k)
qed

lemma approved_intersect: "bridge_wanted b i = Some p \<Longrightarrow> approved b i (intersectCaps c (ps_caps p))"
  by (simp add: approved_def rights_intersect)

lemma net_call_step:
  assumes ok: "bridge_ok b" and w: "bridge_wanted b i = Some p" and e: "bridge_entry i b = (k, b1)"
    and c: "c = intersectCaps cl (ps_caps p)" and b2: "b2 = with_net k (\<lambda>n. n\<lparr>bn_caps := c\<rparr>) b1"
    and i: "field ms ''plugin'' = JStr i"
  shows "bridge_adds (called_for bw ms b) b b2 \<and> bridge_ok b2"
    and "net_api (bw_net bw) (rights_in env c) (bw_queued bw) api a (bn_net (br_nets b2 ! k)) = (res, s) \<Longrightarrow>
      bridge_adds (called_for bw ms b) b (with_net k (\<lambda>n. n\<lparr>bn_net := s\<rparr>) b2) \<and> bridge_ok (with_net k (\<lambda>n. n\<lparr>bn_net := s\<rparr>) b2)"
proof -
  let ?P = "called_for bw ms b"
  note e1 = bridge_entry_step [OF ok e, of ?P]
  have "net_ok (bn_net (br_nets b1 ! k))" using e1 by (simp add: bridge_ok_def)
  then have "bridge_adds ?P b1 b2 \<and> bridge_ok b2"
    unfolding b2 using e1 by (intro conjI with_net_adds with_net_ok) simp_all
  then show 2: "bridge_adds ?P b b2 \<and> bridge_ok b2" using e1 bridge_adds_trans by blast
  have k: "k < length (br_nets b2)" "bn_plugin (br_nets b2 ! k) = i" using e1 by (simp_all add: b2 with_net_def)
  assume r: "net_api (bw_net bw) (rights_in env c) (bw_queued bw) api a (bn_net (br_nets b2 ! k)) = (res, s)"
  have "adds (made_with (rights_in env c) (bw_queued bw)) (bn_net (br_nets b2 ! k)) s"
    using net_api_adds [of "rights_in env c" "bw_queued bw" "bn_net (br_nets b2 ! k)" "bw_net bw" api a] by (simp add: r)
  then have "adds (?P i) (bn_net (br_nets b2 ! k)) s"
    by (rule adds_mono) (use approved_intersect [OF w, of cl] i in \<open>simp add: c called_for_def made_with_def rights_in_def\<close>)
  then have "bridge_adds ?P b2 (with_net k (\<lambda>n. n\<lparr>bn_net := s\<rparr>) b2)"
    by (intro with_net_adds) (simp_all add: k)
  moreover have "net_ok (bn_net (br_nets b2 ! k))" using 2 k by (simp add: bridge_ok_def)
  then have "net_ok s" using net_api_ok [of _ "bw_net bw" "rights_in env c" "bw_queued bw" api a] r by (metis snd_conv)
  then have "bridge_ok (with_net k (\<lambda>n. n\<lparr>bn_net := s\<rparr>) b2)" using 2 by (intro with_net_ok) simp_all
  ultimately show "bridge_adds ?P b (with_net k (\<lambda>n. n\<lparr>bn_net := s\<rparr>) b2) \<and> bridge_ok (with_net k (\<lambda>n. n\<lparr>bn_net := s\<rparr>) b2)"
    using 2 bridge_adds_trans by blast
qed

lemma handleCall_step:
  assumes ok: "bridge_ok b"
  shows "bridge_adds (called_for w ms b) b (snd (handleCall w env ms b)) \<and> bridge_ok (snd (handleCall w env ms b))"
proof -
  have same: "bridge_adds (called_for w ms b) b b \<and> bridge_ok b" using ok bridge_same_adds [of b b] by (simp add: bridge_same_def)
  have emit: "bridge_adds (called_for w ms b) b c \<and> bridge_ok c \<Longrightarrow>
      bridge_adds (called_for w ms b) b (mqtt_emit x c) \<and> bridge_ok (mqtt_emit x c)" for c x
    by (simp add: mqtt_emit_def bridge_adds_def bridge_ok_def)
  show ?thesis
    using same net_call_step [OF ok] emit
    by (auto simp: handleCall_def Let_def split: json.split option.split prod.split)
qed

lemma onRpc_step:
  assumes ok: "bridge_ok b"
  shows "bridge_adds (called_for w (members m) b) b (onRpc w env ws m b) \<and> bridge_ok (onRpc w env ws m b)"
proof -
  let ?P = "called_for w (members m) b"
  have same: "bridge_adds ?P b b \<and> bridge_ok b" using ok bridge_same_adds [of b b] by (simp add: bridge_same_def)
  have frame: "bridge_adds P b (c\<lparr>br_sent := x\<rparr>) = bridge_adds P b c" "bridge_adds P b (c\<lparr>br_calls := y\<rparr>) = bridge_adds P b c"
    "bridge_ok (c\<lparr>br_sent := x\<rparr>) = bridge_ok c" "bridge_ok (c\<lparr>br_calls := y\<rparr>) = bridge_ok c" for P c x y
    by (simp_all add: bridge_adds_def bridge_ok_def)
  have "bridge_adds ?P b (closePlugin env i b)" for i
    using bridge_adds_mono [of quiet b "closePlugin env i b" ?P] closePlugin_step by (auto simp: called_for_def)
  moreover have "bridge_ok (closePlugin env i b)" for i using closePlugin_step ok by blast
  moreover have "bridge_adds ?P b b1 \<and> bridge_ok b1" if "handleCall w env (members m) b = (r, b1)" for r b1
    using handleCall_step [OF ok, of w "members m" env] that by simp
  ultimately show ?thesis using same
    by (auto simp: onRpc_def Let_def frame split: bool.split json.split option.split prod.split sum.split)
qed

text \<open>The event is a message of the container that names the plugin \<open>i\<close>.\<close>

definition asked_for :: "bridge_event \<Rightarrow> string \<Rightarrow> bool" where
  "asked_for ev i = (case ev of Rpc_message ws m \<Rightarrow> field (members m) ''plugin'' = JStr i | _ \<Rightarrow> False)"

definition permitted :: "bridge_world \<Rightarrow> edge_bridge \<Rightarrow> bridge_event \<Rightarrow> string \<Rightarrow> net_rights \<times> net_out \<Rightarrow> bool" where
  "permitted w b ev i x =
     (outgoing (snd x) \<longrightarrow> asked_for ev i \<and> approved b i (nr_caps (fst x)) \<and>
        (\<forall>j d. snd x = Tcp_write j d \<longrightarrow> bw_queued w + length d \<le> 1048576))"

lemma bridge_step_keeps:
  assumes ok: "bridge_ok b"
  shows "bridge_adds (permitted w b ev) b (bridge_step w env ev b) \<and> bridge_ok (bridge_step w env ev b)"
proof (cases "\<exists>ws m. ev = Rpc_message ws m")
  case True
  then obtain ws m where ev: "ev = Rpc_message ws m" by blast
  have "called_for w (members m) b = permitted w b ev" by (intro ext) (simp add: called_for_def permitted_def asked_for_def ev)
  with onRpc_step [OF ok, of w m env ws] ev show ?thesis by simp
next
  case False
  have same: "bridge_adds quiet b b" using bridge_same_adds [of b b] by (simp add: bridge_same_def)
  have settled: "bridge_same b (call_settled ws cid r b)" for ws cid r by (simp add: call_settled_def bridge_same_def)
  have "bridge_adds quiet b (bridge_step w env ev b) \<and> bridge_ok (bridge_step w env ev b)"
    using False ok observe_frame_step bindRpc_step rpcClosed_step socket_step same bridge_same_adds [OF settled]
    by (cases ev) auto
  then show ?thesis using bridge_adds_mono [of quiet b "bridge_step w env ev b"] by (auto simp: permitted_def)
qed

lemma bridge_reach_ok: "bridge_reach b \<Longrightarrow> bridge_ok b"
proof (induction rule: bridge_reach.induct)
  case start
  show ?case by (simp add: newBridge_def bridge_ok_def)
qed (simp add: bridge_step_keeps)

section \<open>What a step asks of the MQTT service\<close>

definition mqtt_adds :: "(mqtt_out \<Rightarrow> bool) \<Rightarrow> edge_bridge \<Rightarrow> edge_bridge \<Rightarrow> bool" where
  "mqtt_adds P b b' = (\<exists>xs. br_mqtt b' = br_mqtt b @ xs \<and> (\<forall>x \<in> set xs. P x))"

lemma mqtt_adds_same: "br_mqtt b' = br_mqtt b \<Longrightarrow> mqtt_adds P b b'"
  by (simp add: mqtt_adds_def)

lemma mqtt_adds_emit: "mqtt_adds P b c \<Longrightarrow> P x \<Longrightarrow> mqtt_adds P b (mqtt_emit x c)"
  by (auto simp: mqtt_adds_def mqtt_emit_def)

lemma mqtt_adds_trans: "mqtt_adds P b c \<Longrightarrow> mqtt_adds P c d \<Longrightarrow> mqtt_adds P b d"
  by (auto simp: mqtt_adds_def)

text \<open>
  The calls of a step: for a plugin the message names and with approved rights; otherwise plugins are dropped, and
  the configuration handed over is that of the server's state.
\<close>

definition mqtt_permitted :: "edge_bridge \<Rightarrow> bridge_event \<Rightarrow> edge_bridge \<Rightarrow> mqtt_out \<Rightarrow> bool" where
  "mqtt_permitted b ev b' x =
     (case x of
        Mqtt_call i c nm args \<Rightarrow> nm \<in> set MQTT_APIS \<and> asked_for ev i \<and> approved b i c
      | Mqtt_drop i \<Rightarrow> True
      | Mqtt_apply cfg \<Rightarrow> (\<exists>st. br_desired b' = Some st \<and> cfg = (if es_edgeEnabled st then es_mqtt st else mqttOff)))"

abbreviation dropping :: "mqtt_out \<Rightarrow> bool" where
  "dropping x \<equiv> (\<exists>i. x = Mqtt_drop i)"

lemma mqtt_adds_dropping: "mqtt_adds dropping b c \<Longrightarrow> mqtt_adds (mqtt_permitted d ev e) b c"
  by (fastforce simp: mqtt_adds_def mqtt_permitted_def)

lemma closePlugin_drops: "mqtt_adds dropping b (closePlugin env i b)" "br_desired (closePlugin env i b) = br_desired b"
proof -
  show "mqtt_adds dropping b (closePlugin env i b)"
    unfolding closePlugin_def by (intro mqtt_adds_emit mqtt_adds_same) (auto simp: with_net_def split: option.split)
qed (simp add: closePlugin_def mqtt_emit_def with_net_def split: option.split)

lemma foldl_drops:
  assumes "\<And>b i. mqtt_adds dropping b (f b i) \<and> br_desired (f b i) = br_desired b"
  shows "mqtt_adds dropping b (foldl f b xs) \<and> br_desired (foldl f b xs) = br_desired b"
proof (induction xs arbitrary: b)
  case (Cons x xs)
  show ?case using assms [of b x] Cons.IH [of "f b x"] mqtt_adds_trans [of dropping b "f b x"] by auto
qed (simp add: mqtt_adds_same)

lemma closeAllPlugins_drops: "mqtt_adds dropping b (closeAllPlugins env b)"
  unfolding closeAllPlugins_def using foldl_drops [of "\<lambda>b i. closePlugin env i b"] closePlugin_drops by blast

lemma setDesired_mqtt: "mqtt_adds (mqtt_permitted d ev (setDesired w env st b)) b (setDesired w env st b)"
proof -
  let ?f = "\<lambda>b i. if bridge_wanted b i = None then closePlugin env i b else b"
  define b1 where "b1 = b\<lparr>br_desired := Some st\<rparr>"
  define b2 where "b2 = foldl ?f b1 (mkeys (br_plugins b1))"
  have "mqtt_adds dropping b (?f b i) \<and> br_desired (?f b i) = br_desired b" for b i
    using closePlugin_drops by (simp add: mqtt_adds_same)
  from foldl_drops [of ?f, OF this] have b2: "mqtt_adds dropping b1 b2" "br_desired b2 = Some st"
    unfolding b2_def by (auto simp: b1_def)
  moreover have "mqtt_adds dropping b b1" by (simp add: b1_def mqtt_adds_same)
  ultimately have drops: "mqtt_adds (mqtt_permitted d ev e) b b2" for e by (blast intro: mqtt_adds_dropping mqtt_adds_trans)
  have eq: "setDesired w env st b =
      (if bw_mqtt w then mqtt_emit (Mqtt_apply (if es_edgeEnabled st then es_mqtt st else mqttOff)) b2 else b2)"
    by (simp add: setDesired_def Let_def b1_def b2_def)
  show ?thesis
  proof (cases "bw_mqtt w")
    case True
    then have "setDesired w env st b = mqtt_emit (Mqtt_apply (if es_edgeEnabled st then es_mqtt st else mqttOff)) b2"
      using eq by simp
    moreover have "br_desired (mqtt_emit x b2) = Some st" for x using b2(2) by (simp add: mqtt_emit_def)
    then have "mqtt_permitted d ev (mqtt_emit x b2) (Mqtt_apply (if es_edgeEnabled st then es_mqtt st else mqttOff))" for x
      by (simp add: mqtt_permitted_def)
    ultimately show ?thesis by (simp only: mqtt_adds_emit [OF drops])
  next
    case False
    with eq drops show ?thesis by simp
  qed
qed

lemma observe_frame_mqtt: "mqtt_adds (mqtt_permitted d ev (observe_frame w env t m b)) b (observe_frame w env t m b)"
  using setDesired_mqtt by (auto simp: observe_frame_def mqtt_adds_same split: option.split)

lemma handleCall_mqtt:
  "mqtt_adds (\<lambda>x. \<exists>i c nm args. x = Mqtt_call i c nm args \<and> nm \<in> set MQTT_APIS \<and> field ms ''plugin'' = JStr i \<and> approved b i c)
     b (snd (handleCall w env ms b))"
proof -
  have entry: "br_mqtt b1 = br_mqtt b" if "bridge_entry i b = (k, b1)" for i k b1
    using that by (auto simp: bridge_entry_def split: option.splits)
  have net: "br_mqtt (with_net k f c) = br_mqtt c" for k f c by (simp add: with_net_def)
  show ?thesis
    using entry
    by (auto simp: handleCall_def Let_def mqtt_adds_def net mqtt_emit_def approved_intersect
        split: json.split option.split prod.split)
qed

lemma onRpc_mqtt: "mqtt_adds (mqtt_permitted b (Rpc_message ws m) e) b (onRpc w env ws m b)"
proof -
  have frame: "mqtt_adds P b (c\<lparr>br_sent := x\<rparr>) = mqtt_adds P b c" "mqtt_adds P b (c\<lparr>br_calls := y\<rparr>) = mqtt_adds P b c" for P c x y
    by (simp_all add: mqtt_adds_def)
  have "mqtt_adds (mqtt_permitted b (Rpc_message ws m) e) b (snd (handleCall w env (members m) b))"
    using handleCall_mqtt [of "members m" b w env] by (fastforce simp: mqtt_adds_def mqtt_permitted_def asked_for_def)
  then have call: "mqtt_adds (mqtt_permitted b (Rpc_message ws m) e) b c" if "handleCall w env (members m) b = (r, c)" for r c
    using that by simp
  show ?thesis
    using call mqtt_adds_dropping [OF closePlugin_drops(1)]
    by (auto simp: onRpc_def Let_def frame mqtt_adds_same split: bool.split json.split option.split prod.split sum.split)
qed

lemma bridge_step_mqtt: "mqtt_adds (mqtt_permitted b ev (bridge_step w env ev b)) b (bridge_step w env ev b)"
proof -
  have closing: "mqtt_adds (mqtt_permitted b ev e) b ((closeAllPlugins env (b\<lparr>br_rpc := x\<rparr>))\<lparr>br_rpc := y\<rparr>)" for e x y
    using mqtt_adds_dropping [OF closeAllPlugins_drops [of "b\<lparr>br_rpc := x\<rparr>" env]] by (simp add: mqtt_adds_def)
  have "mqtt_adds (mqtt_permitted b ev e) b (closeAllPlugins env (b\<lparr>br_rpc := x\<rparr>))" for e x
    using mqtt_adds_dropping [OF closeAllPlugins_drops [of "b\<lparr>br_rpc := x\<rparr>" env]] by (simp add: mqtt_adds_def)
  with closing show ?thesis
    using observe_frame_mqtt onRpc_mqtt
    by (cases ev) (auto simp: bindRpc_def rpcClosed_def bridge_stop_def call_settled_def with_net_def mqtt_adds_same split: option.split)
qed

text \<open>
  C21. Whatever the container sends and in whatever order things happen, in every step of the gateway the effects added to a
  plugin's network are granted by the rights they were made with: only approved ports, groups and services, addresses of the
  LAN that are neither the tunnel nor the server, and sizes, headers and times of each call within the limits (the number of
  open sockets is not part of it). Whatever goes out does so only on a message of the container that names this very plugin,
  which the server's current state enables, with rights that are a part of those the server approved, and bytes are
  written only as far as the socket's buffer has room. The same holds for the calls handed to the MQTT service, whose
  configuration is always that of the server's current state.
\<close>

theorem edge_calls_are_approved:
  assumes "bridge_reach b" and "b' = bridge_step w env ev b"
  shows "bridge_adds (\<lambda>i (r, e). granted r e \<and> (outgoing e \<longrightarrow> asked_for ev i \<and> approved b i (nr_caps r)) \<and>
      (\<forall>j d. e = Tcp_write j d \<longrightarrow> bw_queued w + length d \<le> 1048576)) b b' \<and>
    mqtt_adds (\<lambda>x. case x of
        Mqtt_call i c nm args \<Rightarrow> nm \<in> set MQTT_APIS \<and> asked_for ev i \<and> approved b i c
      | Mqtt_drop i \<Rightarrow> True
      | Mqtt_apply cfg \<Rightarrow> (\<exists>st. br_desired b' = Some st \<and> cfg = (if es_edgeEnabled st then es_mqtt st else mqttOff))) b b'"
proof
  note s = bridge_step_keeps [OF bridge_reach_ok [OF assms(1)], of w ev env]
  have "granted r e" if "n \<in> set (br_nets b')" "(r, e) \<in> set (pn_out (bn_net n))" for n r e
    using s that by (auto simp: bridge_ok_def net_ok_def assms(2))
  then show "bridge_adds (\<lambda>i (r, e). granted r e \<and> (outgoing e \<longrightarrow> asked_for ev i \<and> approved b i (nr_caps r)) \<and>
      (\<forall>j d. e = Tcp_write j d \<longrightarrow> bw_queued w + length d \<le> 1048576)) b b'"
    using s unfolding assms(2) [symmetric] by (auto simp: permitted_def intro: bridge_adds_mono)
  show "mqtt_adds (\<lambda>x. case x of
        Mqtt_call i c nm args \<Rightarrow> nm \<in> set MQTT_APIS \<and> asked_for ev i \<and> approved b i c
      | Mqtt_drop i \<Rightarrow> True
      | Mqtt_apply cfg \<Rightarrow> (\<exists>st. br_desired b' = Some st \<and> cfg = (if es_edgeEnabled st then es_mqtt st else mqttOff))) b b'"
    using bridge_step_mqtt [of b ev w env] unfolding mqtt_permitted_def assms(2) [symmetric] .
qed

definition sample_world :: bridge_world where
  "sample_world =
     \<lparr>bw_net = \<lparr>nw_platform = sample_platform, nw_base64 = map char_byte, nw_url = \<lambda>s. None, nw_upper = \<lambda>s. s, nw_mdns = None\<rparr>,
      bw_mqtt = False, bw_queued = 0\<rparr>"

definition sample_lan :: lan_env where
  "sample_lan = \<lparr>le_subnets = [''192.168.1.0/24''], le_tunnel = ''10.8.0.2'', le_servers = [''203.0.113.7'']\<rparr>"

definition sample_frame :: json where
  "sample_frame =
     JObj [(''t'', JStr ''state''), (''edgeEnabled'', JBool True),
       (''plugins'', JArr [JObj [(''id'', JStr ''hue''), (''version'', JStr ''1.0.0''), (''sha256'', JStr (replicate 64 CHR ''a'')),
          (''caps'', JObj [(''tcp'', JObj [(''lan'', JBool True)])])]])]"

definition sample_call :: "string \<Rightarrow> json" where
  "sample_call host =
     JObj [(''t'', JStr ''call''), (''id'', JNum 1), (''plugin'', JStr ''hue''), (''api'', JStr ''tcp.connect''),
       (''caps'', JObj [(''tcp'', JObj [(''lan'', JBool True)]), (''http'', JObj [(''lan'', JBool True)])]),
       (''args'', JObj [(''host'', JStr host), (''port'', JNum 443)])]"

text \<open>A connection into the LAN is made, one to the tunnel is refused.\<close>

theorem edge_calls_are_approved_witness:
  "\<exists>b b'. bridge_reach b \<and> b' = bridge_step sample_world sample_lan (Rpc_message 1 (sample_call ''192.168.1.20'')) b \<and>
     map (\<lambda>n. map snd (pn_out (bn_net n))) (br_nets b') = [[Tcp_connect ''192.168.1.20'' 443]] \<and>
     bridge_adds (\<lambda>i (r, e). granted r e \<and>
       (outgoing e \<longrightarrow> asked_for (Rpc_message 1 (sample_call ''192.168.1.20'')) i \<and> approved b i (nr_caps r)) \<and>
       (\<forall>j d. e = Tcp_write j d \<longrightarrow> bw_queued sample_world + length d \<le> 1048576)) b b' \<and>
     map (\<lambda>n. map snd (pn_out (bn_net n))) (br_nets (bridge_step sample_world sample_lan (Rpc_message 1 (sample_call ''10.8.0.2'')) b)) = [[]]"
proof (intro exI conjI)
  let ?b = "bridge_step sample_world sample_lan (Server_frame ([CHR 0x22] @ ''state'' @ [CHR 0x22]) (Some sample_frame)) newBridge"
  let ?ev = "Rpc_message 1 (sample_call ''192.168.1.20'')"
  show r: "bridge_reach ?b" by (intro bridge_reach.intros)
  show "bridge_step sample_world sample_lan ?ev ?b = bridge_step sample_world sample_lan ?ev ?b" by (rule refl)
  show "map (\<lambda>n. map snd (pn_out (bn_net n))) (br_nets (bridge_step sample_world sample_lan ?ev ?b)) = [[Tcp_connect ''192.168.1.20'' 443]]"
    by code_simp
  show "bridge_adds (\<lambda>i (r, e). granted r e \<and> (outgoing e \<longrightarrow> asked_for ?ev i \<and> approved ?b i (nr_caps r)) \<and>
       (\<forall>j d. e = Tcp_write j d \<longrightarrow> bw_queued sample_world + length d \<le> 1048576)) ?b (bridge_step sample_world sample_lan ?ev ?b)"
    by (rule conjunct1 [OF edge_calls_are_approved [OF r refl]])
  show "map (\<lambda>n. map snd (pn_out (bn_net n))) (br_nets (bridge_step sample_world sample_lan (Rpc_message 1 (sample_call ''10.8.0.2'')) ?b)) = [[]]"
    by code_simp
qed

end
