(* ===== verification/Edge_Channel.thy ===== *)
theory Edge_Channel
  imports Edge_Protocol
begin

text \<open>
  The two connections of the plugin container: the channel to the server (\<open>src/src/edge/channel.js\<close>) and the calls
  to the gateway (\<open>GatewayRpc\<close> of \<open>src/src/edge/remote.js\<close>). Both are machines of events. Websockets are numbered in the order
  they are made; a timer that waits is the delay it was set with. The outcome of making a websocket, the
  credentials and the random number are the world of an event. The interface \<open>reconnecting\<close> states what both promise.
\<close>

section \<open>Times\<close>

definition pongTimeoutMs :: int where
  "pongTimeoutMs = 60000"

definition reconnectMinMs :: int where
  "reconnectMinMs = 1000"

definition reconnectMaxMs :: int where
  "reconnectMaxMs = 60000"

definition unsupportedRetryMs :: int where
  "unsupportedRetryMs = 10 * 60 * 1000"

definition authRetryMs :: int where
  "authRetryMs = 5 * 60 * 1000"

definition rpcReconnectMinMs :: int where
  "rpcReconnectMinMs = 500"

definition rpcReconnectMaxMs :: int where
  "rpcReconnectMaxMs = 10000"

definition LIM_frameBytes :: nat where
  "LIM_frameBytes = 64 * 1024"

definition RPC_MAX_BYTES :: nat where
  "RPC_MAX_BYTES = 8 * 1024 * 1024"

definition js_round :: "rat \<Rightarrow> int" where
  "js_round x = \<lfloor>x + 1 / 2\<rfloor>"

text \<open>\<open>rnd\<close> is the value of \<open>Math.random\<close>.\<close>

definition backoffDelay :: "nat \<Rightarrow> int \<Rightarrow> int \<Rightarrow> rat \<Rightarrow> int" where
  "backoffDelay attempt mn mx rnd =
     (let base = min mx (mn * 2 ^ attempt)
      in max mn (min mx (js_round (of_int base * (4 / 5 + 2 / 5 * rnd)))))"

section \<open>Addresses\<close>

definition WS_PATH :: string where
  "WS_PATH = ''/api/v1/gateway/edge/ws''"

definition RPC_PATH :: string where
  "RPC_PATH = ''/edge/rpc''"

text \<open>A parsed URL, as far as \<open>wsUrl\<close> changes it; the parser and printer of URLs are arguments.\<close>

record ws_url =
  wu_protocol :: string
  wu_authority :: string
  wu_pathname :: string
  wu_search :: string
  wu_hash :: string

definition without_slashes :: "string \<Rightarrow> string" where
  "without_slashes s = rev (dropWhile (\<lambda>c. c = CHR ''/'') (rev s))"

definition wsUrl :: "(string \<Rightarrow> ws_url option) \<Rightarrow> string \<Rightarrow> string + ws_url" where
  "wsUrl parse serverUrl =
     (case parse serverUrl of
        None \<Rightarrow> Inl ''Invalid URL''
      | Some u \<Rightarrow>
          if wu_protocol u \<noteq> ''https:'' \<and> wu_protocol u \<noteq> ''http:'' then Inl ''serverUrl must be http(s)''
          else Inr (u\<lparr>wu_protocol := (if wu_protocol u = ''https:'' then ''wss:'' else ''ws:''),
                      wu_pathname := without_slashes (wu_pathname u) @ WS_PATH, wu_search := [], wu_hash := []\<rparr>))"

definition unixWsUrl :: "string \<Rightarrow> string \<Rightarrow> string option" where
  "unixWsUrl socketPath reqPath =
     (if prefix ''/'' socketPath then Some (''ws+unix://'' @ socketPath @ '':'' @ reqPath) else None)"

text \<open>The lookup that knows only the given addresses: all of them with their family, or none.\<close>

definition pinnedLookup :: "string list \<Rightarrow> (string \<times> nat) list option" where
  "pinnedLookup addrs =
     (case filter (\<lambda>a. a \<noteq> []) addrs of
        [] \<Rightarrow> None
      | l \<Rightarrow> Some (map (\<lambda>a. (a, if CHR '':'' \<in> set a then 6 else 4)) l))"

section \<open>The channel to the server\<close>

record edge_creds =
  cr_socketPath :: string
  cr_serverUrl :: string
  cr_apiToken :: string
  cr_serverAddrs :: "string list"

datatype ws_target =
    Unix_target string
  | Server_target ws_url string "(string \<times> nat) list option option"

datatype chan_out =
    Open_ws nat ws_target
  | Close_ws nat int
  | Terminate_ws nat
  | Ping_ws nat
  | Frame nat string
  | Emit_open
  | Emit_close
  | Emit_message json
  | Emit_retry int

record edge_channel =
  ch_ws :: "nat option"
  ch_made :: nat
  ch_retryIn :: "(nat, int) jsmap"
  ch_attempt :: nat
  ch_stopped :: bool
  ch_retryTimer :: "int option"
  ch_pingTimer :: "nat option"
  ch_lastSeen :: int
  ch_connected :: bool
  ch_lastError :: "string option"
  ch_unsupported :: bool
  ch_out :: "chan_out list"

definition newChannel :: edge_channel where
  "newChannel = \<lparr>ch_ws = None, ch_made = 0, ch_retryIn = [], ch_attempt = 0, ch_stopped = True, ch_retryTimer = None,
     ch_pingTimer = None, ch_lastSeen = 0, ch_connected = False, ch_lastError = None, ch_unsupported = False, ch_out = []\<rparr>"

text \<open>
  The world of an event: the credentials (an error, nothing, or a value), the URL parser, the error of the websocket's
  constructor, the random number, the text of a message and its length in UTF-8, and whether the socket takes a frame.
\<close>

record chan_world =
  cw_credentials :: "string + edge_creds option"
  cw_parse :: "string \<Rightarrow> ws_url option"
  cw_refused :: "string option"
  cw_random :: rat
  cw_json :: "json \<Rightarrow> string"
  cw_bytes :: "string \<Rightarrow> nat"
  cw_ready :: bool

definition chan_emit :: "chan_out list \<Rightarrow> edge_channel \<Rightarrow> edge_channel" where
  "chan_emit es s = s\<lparr>ch_out := ch_out s @ es\<rparr>"

definition chan_scheduleRetry :: "chan_world \<Rightarrow> int option \<Rightarrow> edge_channel \<Rightarrow> edge_channel" where
  "chan_scheduleRetry w fixed s =
     (if ch_stopped s then s
      else case fixed of
             Some delay \<Rightarrow> chan_emit [Emit_retry delay] (s\<lparr>ch_retryTimer := Some delay\<rparr>)
           | None \<Rightarrow>
               let delay = backoffDelay (ch_attempt s) reconnectMinMs reconnectMaxMs (cw_random w)
               in chan_emit [Emit_retry delay] (s\<lparr>ch_attempt := ch_attempt s + 1, ch_retryTimer := Some delay\<rparr>))"

definition clearPing :: "edge_channel \<Rightarrow> edge_channel" where
  "clearPing s = s\<lparr>ch_pingTimer := None\<rparr>"

definition usable_creds :: "string + edge_creds option \<Rightarrow> string + edge_creds" where
  "usable_creds c =
     (case c of
        Inl e \<Rightarrow> Inl e
      | Inr None \<Rightarrow> Inl ''no credentials''
      | Inr (Some k) \<Rightarrow>
          if cr_socketPath k = [] \<and> (cr_serverUrl k = [] \<or> cr_apiToken k = []) then Inl ''no credentials'' else Inr k)"

text \<open>Where to connect: \<open>None\<close> when \<open>unixWsUrl\<close> throws, which nothing catches.\<close>

definition chan_target :: "chan_world \<Rightarrow> edge_creds \<Rightarrow> (string + ws_target) option" where
  "chan_target w k =
     (if cr_socketPath k \<noteq> [] then map_option (\<lambda>u. Inr (Unix_target u)) (unixWsUrl (cr_socketPath k) WS_PATH)
      else case wsUrl (cw_parse w) (cr_serverUrl k) of
             Inl e \<Rightarrow> Some (Inl e)
           | Inr u \<Rightarrow>
               Some (Inr (Server_target u (''Bearer '' @ cr_apiToken k)
                 (if cr_serverAddrs k = [] then None else Some (pinnedLookup (cr_serverAddrs k))))))"

definition chan_connect :: "chan_world \<Rightarrow> edge_channel \<Rightarrow> edge_channel" where
  "chan_connect w s =
     (if ch_stopped s then s
      else case usable_creds (cw_credentials w) of
             Inl e \<Rightarrow> chan_scheduleRetry w (Some reconnectMaxMs) (s\<lparr>ch_lastError := Some e\<rparr>)
           | Inr k \<Rightarrow>
               (case chan_target w k of
                  None \<Rightarrow> s
                | Some (Inl e) \<Rightarrow> chan_scheduleRetry w (Some reconnectMaxMs) (s\<lparr>ch_lastError := Some e\<rparr>)
                | Some (Inr target) \<Rightarrow>
                    (case cw_refused w of
                       Some e \<Rightarrow> chan_scheduleRetry w None (s\<lparr>ch_lastError := Some e\<rparr>)
                     | None \<Rightarrow>
                         let n = ch_made s
                         in chan_emit [Open_ws n target] (s\<lparr>ch_ws := Some n, ch_made := n + 1\<rparr>))))"

definition chan_start :: "chan_world \<Rightarrow> edge_channel \<Rightarrow> edge_channel" where
  "chan_start w s = (if \<not> ch_stopped s then s else chan_connect w (s\<lparr>ch_stopped := False\<rparr>))"

definition chan_stop :: "edge_channel \<Rightarrow> edge_channel" where
  "chan_stop s =
     (let s1 = clearPing (s\<lparr>ch_stopped := True, ch_retryTimer := None\<rparr>);
          s2 = (case ch_ws s1 of None \<Rightarrow> s1 | Some n \<Rightarrow> chan_emit [Close_ws n 1000, Terminate_ws n] s1)
      in s2\<lparr>ch_ws := None, ch_connected := False\<rparr>)"

definition chan_reconnect :: "chan_world \<Rightarrow> edge_channel \<Rightarrow> edge_channel" where
  "chan_reconnect w s =
     (if ch_stopped s then s
      else case ch_ws s of
             Some n \<Rightarrow> chan_emit [Terminate_ws n] s
           | None \<Rightarrow> chan_connect w (s\<lparr>ch_retryTimer := None\<rparr>))"

definition retry_due :: "chan_world \<Rightarrow> edge_channel \<Rightarrow> edge_channel" where
  "retry_due w s = (if ch_retryTimer s = None then s else chan_connect w (s\<lparr>ch_retryTimer := None\<rparr>))"

text \<open>Events of the websocket \<open>n\<close>.\<close>

definition onUnexpectedResponse :: "nat \<Rightarrow> nat \<Rightarrow> edge_channel \<Rightarrow> edge_channel" where
  "onUnexpectedResponse n code s =
     (let s1 = (if code \<in> {404, 426, 501} then s\<lparr>ch_unsupported := True, ch_retryIn := mset_at n unsupportedRetryMs (ch_retryIn s)\<rparr>
                else if code \<in> {401, 403} then s\<lparr>ch_retryIn := mset_at n authRetryMs (ch_retryIn s)\<rparr>
                else s)
      in chan_emit [Terminate_ws n] (s1\<lparr>ch_lastError := Some (''http_'' @ dec_string code)\<rparr>))"

definition chan_onOpen :: "nat \<Rightarrow> bool \<Rightarrow> int \<Rightarrow> edge_channel \<Rightarrow> edge_channel" where
  "chan_onOpen n protocolOk now s =
     (if \<not> protocolOk then
        chan_emit [Close_ws n 1002] (s\<lparr>ch_lastError := Some ''wrong_subprotocol'', ch_retryIn := mset_at n unsupportedRetryMs (ch_retryIn s)\<rparr>)
      else chan_emit [Emit_open] ((clearPing (s\<lparr>ch_attempt := 0, ch_unsupported := False, ch_connected := True, ch_lastError := None, ch_lastSeen := now\<rparr>))
             \<lparr>ch_pingTimer := Some n\<rparr>))"

text \<open>A text frame: what \<open>JSON.parse\<close> makes of it, or a binary frame.\<close>

definition chan_onMessage :: "bool \<Rightarrow> json option \<Rightarrow> int \<Rightarrow> edge_channel \<Rightarrow> edge_channel" where
  "chan_onMessage isBinary parsed now s =
     (let s1 = s\<lparr>ch_lastSeen := now\<rparr>
      in if isBinary then s1
         else case parsed of
                None \<Rightarrow> s1
              | Some m \<Rightarrow> if isObj m \<and> strOf (field (members m) ''t'') \<noteq> None then chan_emit [Emit_message m] s1 else s1)"

definition chan_onError :: "nat \<Rightarrow> string \<Rightarrow> edge_channel \<Rightarrow> edge_channel" where
  "chan_onError n e s = (if map_of (ch_retryIn s) n = None then s\<lparr>ch_lastError := Some e\<rparr> else s)"

definition chan_onClose :: "chan_world \<Rightarrow> nat \<Rightarrow> edge_channel \<Rightarrow> edge_channel" where
  "chan_onClose w n s =
     (if ch_ws s \<noteq> Some n then s
      else let s1 = clearPing (s\<lparr>ch_ws := None\<rparr>);
               s2 = s1\<lparr>ch_connected := False\<rparr>;
               s3 = (if ch_connected s1 then chan_emit [Emit_close] s2 else s2)
           in chan_scheduleRetry w (map_of (ch_retryIn s) n) s3)"

definition ping_due :: "int \<Rightarrow> edge_channel \<Rightarrow> edge_channel" where
  "ping_due now s =
     (case ch_pingTimer s of
        None \<Rightarrow> s
      | Some n \<Rightarrow> if pongTimeoutMs < now - ch_lastSeen s then chan_emit [Terminate_ws n] s else chan_emit [Ping_ws n] s)"

definition chan_send :: "chan_world \<Rightarrow> json \<Rightarrow> edge_channel \<Rightarrow> bool \<times> edge_channel" where
  "chan_send w msg s =
     (case ch_ws s of
        None \<Rightarrow> (False, s)
      | Some n \<Rightarrow>
          if \<not> ch_connected s \<or> \<not> cw_ready w then (False, s)
          else let txt1 = cw_json w msg
            in if LIM_frameBytes < cw_bytes w txt1 then (False, s) else (True, chan_emit [Frame n txt1] s))"

datatype chan_event =
    Ch_start
  | Ch_stop
  | Ch_reconnect
  | Ch_retry
  | Ch_refused nat nat
  | Ch_opened nat bool int
  | Ch_frame bool "json option" int
  | Ch_alive int
  | Ch_error nat string
  | Ch_closed nat
  | Ch_ping int
  | Ch_send json

text \<open>A websocket that was terminated or replaced does not open any more.\<close>

fun chan_step :: "chan_world \<times> chan_event \<Rightarrow> edge_channel \<Rightarrow> edge_channel" where
  "chan_step (w, Ch_start) s = chan_start w s"
| "chan_step (w, Ch_stop) s = chan_stop s"
| "chan_step (w, Ch_reconnect) s = chan_reconnect w s"
| "chan_step (w, Ch_retry) s = retry_due w s"
| "chan_step (w, Ch_refused n code) s = onUnexpectedResponse n code s"
| "chan_step (w, Ch_opened n ok now) s = (if ch_ws s = Some n then chan_onOpen n ok now s else s)"
| "chan_step (w, Ch_frame b m now) s = chan_onMessage b m now s"
| "chan_step (w, Ch_alive now) s = s\<lparr>ch_lastSeen := now\<rparr>"
| "chan_step (w, Ch_error n e) s = chan_onError n e s"
| "chan_step (w, Ch_closed n) s = chan_onClose w n s"
| "chan_step (w, Ch_ping now) s = ping_due now s"
| "chan_step (w, Ch_send m) s = snd (chan_send w m s)"

section \<open>Calls to the gateway\<close>

definition PUSH_TYPES :: "string list" where
  "PUSH_TYPES = [''udp'', ''sock'', ''mdns'', ''mqtt'']"

datatype rpc_out =
    Rpc_ws nat string
  | Rpc_close_ws nat int
  | Rpc_terminate nat
  | Call_frame nat nat string string json json
  | Close_frame nat string
  | Resolved nat json
  | Rejected nat string
  | Call_refused string
  | Emit_push string json
  | Emit_info bool json
  | Emit_rpc_open nat
  | Emit_rpc_close

record gateway_rpc =
  rp_socketPath :: string
  rp_ws :: "nat option"
  rp_made :: nat
  rp_connected :: bool
  rp_stopped :: bool
  rp_attempt :: nat
  rp_retryTimer :: "int option"
  rp_pending :: "nat list"
  rp_nextId :: nat
  rp_info :: "(bool \<times> json) option"
  rp_sessions :: nat
  rp_out :: "rpc_out list"

definition newRpc :: "string \<Rightarrow> gateway_rpc" where
  "newRpc path = \<lparr>rp_socketPath = path, rp_ws = None, rp_made = 0, rp_connected = False, rp_stopped = True, rp_attempt = 0,
     rp_retryTimer = None, rp_pending = [], rp_nextId = 0, rp_info = None, rp_sessions = 0, rp_out = []\<rparr>"

text \<open>The error code of an answer.\<close>

definition rpcError :: "json \<Rightarrow> string" where
  "rpcError e = (case field (members e) ''code'' of JStr c \<Rightarrow> if length c \<le> 32 then c else ''edge_error'' | _ \<Rightarrow> ''edge_error'')"

definition rpc_emit :: "rpc_out list \<Rightarrow> gateway_rpc \<Rightarrow> gateway_rpc" where
  "rpc_emit es s = s\<lparr>rp_out := rp_out s @ es\<rparr>"

definition failAll :: "string \<Rightarrow> gateway_rpc \<Rightarrow> gateway_rpc" where
  "failAll code s = rpc_emit (map (\<lambda>i. Rejected i code) (rp_pending s)) (s\<lparr>rp_pending := []\<rparr>)"

definition rpc_scheduleRetry :: "chan_world \<Rightarrow> gateway_rpc \<Rightarrow> gateway_rpc" where
  "rpc_scheduleRetry w s =
     (if rp_stopped s then s
      else s\<lparr>rp_attempt := rp_attempt s + 1,
             rp_retryTimer := Some (backoffDelay (rp_attempt s) rpcReconnectMinMs rpcReconnectMaxMs (cw_random w))\<rparr>)"

text \<open>Here a path that is not absolute is caught like an error of the constructor.\<close>

definition rpc_connect :: "chan_world \<Rightarrow> gateway_rpc \<Rightarrow> gateway_rpc" where
  "rpc_connect w s =
     (if rp_stopped s then s
      else case (unixWsUrl (rp_socketPath s) RPC_PATH, cw_refused w) of
             (Some url, None) \<Rightarrow>
               let n = rp_made s in rpc_emit [Rpc_ws n url] (s\<lparr>rp_ws := Some n, rp_made := n + 1\<rparr>)
           | _ \<Rightarrow> rpc_scheduleRetry w s)"

definition rpc_start :: "chan_world \<Rightarrow> gateway_rpc \<Rightarrow> gateway_rpc" where
  "rpc_start w s = (if \<not> rp_stopped s then s else rpc_connect w (s\<lparr>rp_stopped := False\<rparr>))"

definition rpc_stop :: "gateway_rpc \<Rightarrow> gateway_rpc" where
  "rpc_stop s =
     (let s1 = s\<lparr>rp_stopped := True, rp_retryTimer := None\<rparr>;
          s2 = (case rp_ws s1 of None \<Rightarrow> s1 | Some n \<Rightarrow> rpc_emit [Rpc_terminate n] s1)
      in failAll ''not_available'' (s2\<lparr>rp_ws := None, rp_connected := False\<rparr>))"

definition rpc_retry_due :: "chan_world \<Rightarrow> gateway_rpc \<Rightarrow> gateway_rpc" where
  "rpc_retry_due w s = (if rp_retryTimer s = None then s else rpc_connect w (s\<lparr>rp_retryTimer := None\<rparr>))"

definition rpc_onOpen :: "nat \<Rightarrow> bool \<Rightarrow> gateway_rpc \<Rightarrow> gateway_rpc" where
  "rpc_onOpen n protocolOk s =
     (if \<not> protocolOk then rpc_emit [Rpc_close_ws n 1002] s
      else let k = rp_sessions s + 1
           in rpc_emit [Emit_rpc_open k] (s\<lparr>rp_attempt := 0, rp_connected := True, rp_sessions := k\<rparr>))"

definition rpc_onClose :: "chan_world \<Rightarrow> nat \<Rightarrow> gateway_rpc \<Rightarrow> gateway_rpc" where
  "rpc_onClose w n s =
     (if rp_ws s \<noteq> Some n then s
      else let s1 = failAll ''not_available'' (s\<lparr>rp_ws := None, rp_connected := False\<rparr>)
           in rpc_scheduleRetry w (if rp_connected s then rpc_emit [Emit_rpc_close] s1 else s1))"

definition is_object :: "json \<Rightarrow> bool" where
  "is_object v = (isObj v \<or> isArray v)"

definition rpc_onMessage :: "json \<Rightarrow> gateway_rpc \<Rightarrow> gateway_rpc" where
  "rpc_onMessage m s =
     (let ms = members m
      in case field ms ''t'' of
           JStr t \<Rightarrow>
             if t = ''result'' then
               (case intOf (field ms ''id'') of
                  None \<Rightarrow> s
                | Some z \<Rightarrow>
                    if z < 0 \<or> nat z \<notin> set (rp_pending s) then s
                    else let s1 = s\<lparr>rp_pending := remove1 (nat z) (rp_pending s)\<rparr>
                      in if field ms ''ok'' = JBool True then
                           rpc_emit [Resolved (nat z) (if field ms ''result'' = JUndef then JNull else field ms ''result'')] s1
                         else rpc_emit [Rejected (nat z) (rpcError (field ms ''error''))] s1)
             else if t = ''push'' then
               (case (field ms ''plugin'', field (members (field ms ''msg'')) ''t'') of
                  (JStr p, JStr pt) \<Rightarrow> if pt \<in> set PUSH_TYPES then rpc_emit [Emit_push p (field ms ''msg'')] s else s
                | _ \<Rightarrow> s)
             else if t = ''info'' then
               (let a = (field (members (field ms ''mqtt'')) ''available'' = JBool True);
                    st = (if is_object (field ms ''mqttStatus'') then field ms ''mqttStatus'' else JNull)
                in rpc_emit [Emit_info a st] (s\<lparr>rp_info := Some (a, st)\<rparr>))
             else s
         | _ \<Rightarrow> s)"

text \<open>\<open>send\<close>: the socket takes a frame when it is open and the frame is not too large.\<close>

definition rpc_sends :: "chan_world \<Rightarrow> json \<Rightarrow> gateway_rpc \<Rightarrow> bool" where
  "rpc_sends w msg s = (rp_ws s \<noteq> None \<and> rp_connected s \<and> cw_ready w \<and> cw_bytes w (cw_json w msg) \<le> RPC_MAX_BYTES)"

definition call_msg :: "nat \<Rightarrow> string \<Rightarrow> string \<Rightarrow> json \<Rightarrow> json \<Rightarrow> json" where
  "call_msg i plugin api args c =
     JObj [(''t'', JStr ''call''), (''id'', JNum (of_nat i)), (''plugin'', JStr plugin), (''api'', JStr api), (''args'', args), (''caps'', c)]"

definition rpc_call :: "chan_world \<Rightarrow> string \<Rightarrow> string \<Rightarrow> json \<Rightarrow> json \<Rightarrow> gateway_rpc \<Rightarrow> gateway_rpc" where
  "rpc_call w plugin api args c s =
     (if \<not> rp_connected s then rpc_emit [Call_refused ''not_available''] s
      else let i = rp_nextId s + 1;
               a = (if args = JUndef then JNull else args);
               s1 = s\<lparr>rp_nextId := i, rp_pending := rp_pending s @ [i]\<rparr>
           in if rpc_sends w (call_msg i plugin api a c) s1 then rpc_emit [Call_frame (the (rp_ws s)) i plugin api a c] s1
              else rpc_emit [Rejected i ''too_large''] (s1\<lparr>rp_pending := remove1 i (rp_pending s1)\<rparr>))"

definition call_timeout :: "nat \<Rightarrow> gateway_rpc \<Rightarrow> gateway_rpc" where
  "call_timeout i s =
     (if i \<in> set (rp_pending s) then rpc_emit [Rejected i ''timeout''] (s\<lparr>rp_pending := remove1 i (rp_pending s)\<rparr>) else s)"

definition rpc_closePlugin :: "chan_world \<Rightarrow> string \<Rightarrow> gateway_rpc \<Rightarrow> gateway_rpc" where
  "rpc_closePlugin w plugin s =
     (if rpc_sends w (JObj [(''t'', JStr ''close''), (''plugin'', JStr plugin)]) s
      then rpc_emit [Close_frame (the (rp_ws s)) plugin] s else s)"

datatype rpc_event =
    Rp_start
  | Rp_stop
  | Rp_retry
  | Rp_opened nat bool
  | Rp_frame json
  | Rp_closed nat
  | Rp_call string string json json
  | Rp_timeout nat
  | Rp_close_plugin string

fun rpc_step :: "chan_world \<times> rpc_event \<Rightarrow> gateway_rpc \<Rightarrow> gateway_rpc" where
  "rpc_step (w, Rp_start) s = rpc_start w s"
| "rpc_step (w, Rp_stop) s = rpc_stop s"
| "rpc_step (w, Rp_retry) s = rpc_retry_due w s"
| "rpc_step (w, Rp_opened n ok) s = (if rp_ws s = Some n then rpc_onOpen n ok s else s)"
| "rpc_step (w, Rp_frame m) s = rpc_onMessage m s"
| "rpc_step (w, Rp_closed n) s = rpc_onClose w n s"
| "rpc_step (w, Rp_call p api a c) s = rpc_call w p api a c s"
| "rpc_step (w, Rp_timeout i) s = call_timeout i s"
| "rpc_step (w, Rp_close_plugin p) s = rpc_closePlugin w p s"


section \<open>What a reconnecting client promises\<close>

text \<open>
  A client that is stopped has neither a socket nor a timer; otherwise it has exactly one of them, and the timer's
  delay is within the bounds. It takes itself for connected only with a socket.
\<close>

definition line_ok :: "int \<Rightarrow> int \<Rightarrow> bool \<Rightarrow> nat option \<Rightarrow> int option \<Rightarrow> bool \<Rightarrow> bool" where
  "line_ok lo hi stopped sock timer online =
     ((if stopped then sock = None \<and> timer = None else (sock = None) = (timer \<noteq> None))
      \<and> (online \<longrightarrow> sock \<noteq> None) \<and> (\<forall>d. timer = Some d \<longrightarrow> lo \<le> d \<and> d \<le> hi))"

locale reconnecting =
  fixes stopped :: "'s \<Rightarrow> bool"
    and sock :: "'s \<Rightarrow> nat option"
    and timer :: "'s \<Rightarrow> int option"
    and online :: "'s \<Rightarrow> bool"
    and lo hi :: int
    and ok :: "'s \<Rightarrow> bool"
    and step :: "'w \<times> 'e \<Rightarrow> 's \<Rightarrow> 's"
    and sane up :: "'w \<Rightarrow> bool"
    and lost :: "nat \<Rightarrow> 'e"
    and due :: 'e
  assumes ok_line: "ok s \<Longrightarrow> line_ok lo hi (stopped s) (sock s) (timer s) (online s)"
    and step_ok: "ok s \<Longrightarrow> sane w \<Longrightarrow> ok (step (w, e) s)"
    and lost_sock: "sock s = Some n \<Longrightarrow> sock (step (w, lost n) s) = None \<and> stopped (step (w, lost n) s) = stopped s"
    and due_connects: "ok s \<Longrightarrow> timer s \<noteq> None \<Longrightarrow> up w \<Longrightarrow> sock (step (w, due) s) \<noteq> None"
begin

lemma run_ok: "ok s \<Longrightarrow> list_all (\<lambda>x. sane (fst x)) es \<Longrightarrow> ok (foldl (\<lambda>s e. step e s) s es)"
proof (induction es arbitrary: s)
  case (Cons e es)
  from Cons.prems have "ok (step e s)" using step_ok [of s "fst e" "snd e"] by simp
  then show ?case using Cons.IH Cons.prems by simp
qed simp

lemma lost_retries:
  assumes "ok s" "\<not> stopped s" "sock s = Some n" "sane w"
  shows "\<exists>d. timer (step (w, lost n) s) = Some d \<and> lo \<le> d \<and> d \<le> hi"
  using ok_line [OF step_ok [OF assms(1, 4), of "lost n"]] lost_sock [OF assms(3), of w] assms(2) by (auto simp: line_ok_def)

lemma comes_back:
  assumes "ok s" "\<not> stopped s" "sock s = Some n" "sane w" "up v"
  shows "sock (step (v, due) (step (w, lost n) s)) \<noteq> None"
  using lost_retries [OF assms(1-4)] due_connects [OF step_ok [OF assms(1, 4), of "lost n"], of v] assms(5) by auto

end

section \<open>Delays\<close>

lemma js_round_mono: "x \<le> y \<Longrightarrow> js_round x \<le> js_round y"
  unfolding js_round_def by (rule floor_mono) simp

lemma js_round_int [simp]: "js_round (of_int z) = z"
  by (simp add: js_round_def floor_eq_iff)

lemma backoffDelay_range: "mn \<le> mx \<Longrightarrow> mn \<le> backoffDelay k mn mx r \<and> backoffDelay k mn mx r \<le> mx"
  by (simp add: backoffDelay_def Let_def)

text \<open>
  The delay stays within a fifth of its base, apart from rounding and the bounds.
\<close>

lemma backoffDelay_spread:
  fixes k :: nat
  assumes "0 < mn" "mn \<le> mx" "0 \<le> r" "r \<le> 1"
  defines "base \<equiv> of_int (min mx (mn * 2 ^ k)) :: rat"
  shows "4 / 5 * base - 1 / 2 \<le> of_int (backoffDelay k mn mx r) \<and> of_int (backoffDelay k mn mx r) \<le> 6 / 5 * base + 1 / 2"
proof -
  let ?x = "base * (4 / 5 + 2 / 5 * r)"
  have mn1: "mn * 1 \<le> mn * 2 ^ k" using assms(1) by (intro mult_left_mono) simp_all
  then have b: "of_int mn \<le> base" "base \<le> of_int mx" "0 \<le> base"
    using assms(1, 2) by (simp_all add: base_def)
  have x: "4 / 5 * base \<le> ?x" "?x \<le> 6 / 5 * base"
    using mult_left_mono [of "4 / 5" "4 / 5 + 2 / 5 * r" base] mult_left_mono [of "4 / 5 + 2 / 5 * r" "6 / 5" base] b(3) assms(3, 4)
    by (simp_all add: mult.commute)
  have rd: "?x - 1 / 2 \<le> of_int (js_round ?x)" "of_int (js_round ?x) \<le> ?x + 1 / 2"
    unfolding js_round_def by (linarith)+
  have "backoffDelay k mn mx r = max mn (min mx (js_round ?x))"
    by (simp add: backoffDelay_def Let_def base_def)
  then show ?thesis using x rd b assms(2) by (simp add: max_def min_def)
qed

section \<open>The channel\<close>

definition chan_ok :: "edge_channel \<Rightarrow> bool" where
  "chan_ok s =
     (line_ok reconnectMinMs unsupportedRetryMs (ch_stopped s) (ch_ws s) (ch_retryTimer s) (ch_connected s)
      \<and> (\<forall>d\<in>snd ` set (ch_retryIn s). d = unsupportedRetryMs \<or> d = authRetryMs)
      \<and> ch_pingTimer s = (if ch_connected s then ch_ws s else None))"

text \<open>A socket path is absolute, and a world in which a connection can be made.\<close>

definition chan_sane :: "chan_world \<Rightarrow> bool" where
  "chan_sane w = (case usable_creds (cw_credentials w) of Inl e \<Rightarrow> True | Inr k \<Rightarrow> chan_target w k \<noteq> None)"

definition chan_up :: "chan_world \<Rightarrow> bool" where
  "chan_up w =
     (cw_refused w = None \<and>
      (case usable_creds (cw_credentials w) of
         Inl e \<Rightarrow> False
       | Inr k \<Rightarrow> (case chan_target w k of Some (Inr t) \<Rightarrow> True | _ \<Rightarrow> False)))"

lemma chan_ok_emit [simp]: "chan_ok (chan_emit es s) = chan_ok s"
  by (simp add: chan_ok_def chan_emit_def)

lemma chan_ok_frame [simp]:
  "chan_ok (s\<lparr>ch_lastError := e\<rparr>) = chan_ok s" "chan_ok (s\<lparr>ch_lastSeen := now\<rparr>) = chan_ok s" "chan_ok (s\<lparr>ch_attempt := a\<rparr>) = chan_ok s"
  "chan_ok (s\<lparr>ch_unsupported := u\<rparr>) = chan_ok s" "chan_ok (s\<lparr>ch_made := m\<rparr>) = chan_ok s"
  by (simp_all add: chan_ok_def)

lemma chan_scheduleRetry_ok:
  assumes "\<not> ch_stopped s" "ch_ws s = None" "\<not> ch_connected s" "ch_pingTimer s = None"
    "\<forall>d\<in>snd ` set (ch_retryIn s). d = unsupportedRetryMs \<or> d = authRetryMs" "\<forall>d. fixed = Some d \<longrightarrow> reconnectMinMs \<le> d \<and> d \<le> unsupportedRetryMs"
  shows "chan_ok (chan_scheduleRetry w fixed s)"
proof -
  have "reconnectMinMs \<le> backoffDelay k reconnectMinMs reconnectMaxMs r \<and> backoffDelay k reconnectMinMs reconnectMaxMs r \<le> unsupportedRetryMs" for k r
    using backoffDelay_range [of reconnectMinMs reconnectMaxMs k r] by (simp add: reconnectMinMs_def reconnectMaxMs_def unsupportedRetryMs_def)
  with assms show ?thesis
    by (auto simp: chan_scheduleRetry_def chan_ok_def chan_emit_def line_ok_def Let_def split: option.split)
qed

lemma chan_connect_ok:
  assumes "\<not> ch_stopped s" "ch_ws s = None" "\<not> ch_connected s" "ch_pingTimer s = None" "ch_retryTimer s = None"
    "\<forall>d\<in>snd ` set (ch_retryIn s). d = unsupportedRetryMs \<or> d = authRetryMs" "chan_sane w"
  shows "chan_ok (chan_connect w s)"
proof -
  have m: "reconnectMinMs \<le> reconnectMaxMs \<and> reconnectMaxMs \<le> unsupportedRetryMs"
    by (simp add: reconnectMinMs_def reconnectMaxMs_def unsupportedRetryMs_def)
  have "chan_ok (chan_scheduleRetry w f (s\<lparr>ch_lastError := e\<rparr>))" if "f = None \<or> f = Some reconnectMaxMs" for f e
    using that m assms by (intro chan_scheduleRetry_ok) auto
  moreover have "chan_ok (s\<lparr>ch_ws := Some n, ch_made := k\<rparr>)" for n k using assms by (simp add: chan_ok_def line_ok_def)
  ultimately show ?thesis using assms(1, 7)
    by (auto simp: chan_connect_def chan_sane_def Let_def split: sum.split option.split)
qed

lemma retryIn_ok:
  assumes "chan_ok s" "d = unsupportedRetryMs \<or> d = authRetryMs"
  shows "chan_ok (s\<lparr>ch_retryIn := mset_at n d (ch_retryIn s)\<rparr>)"
  using assms set_mset_at [of n d "ch_retryIn s"] by (fastforce simp: chan_ok_def)

lemma chan_stop_ok: "chan_ok s \<Longrightarrow> chan_ok (chan_stop s)"
  by (auto simp: chan_stop_def clearPing_def chan_ok_def line_ok_def chan_emit_def Let_def split: option.split)

lemma chan_start_ok: "chan_ok s \<Longrightarrow> chan_sane w \<Longrightarrow> chan_ok (chan_start w s)"
  using chan_connect_ok [of "s\<lparr>ch_stopped := False\<rparr>" w] by (auto simp: chan_start_def chan_ok_def line_ok_def split: if_splits)

lemma waiting_ok:
  assumes "chan_ok s" "\<not> ch_stopped s" "ch_ws s = None" "chan_sane w"
  shows "chan_ok (chan_connect w (s\<lparr>ch_retryTimer := None\<rparr>))"
  using assms by (intro chan_connect_ok) (auto simp: chan_ok_def line_ok_def split: if_splits)

lemma retry_due_ok: "chan_ok s \<Longrightarrow> chan_sane w \<Longrightarrow> chan_ok (retry_due w s)"
  using waiting_ok [of s w] by (auto simp: retry_due_def chan_ok_def line_ok_def split: if_splits)

lemma chan_reconnect_ok: "chan_ok s \<Longrightarrow> chan_sane w \<Longrightarrow> chan_ok (chan_reconnect w s)"
  using waiting_ok [of s w] by (auto simp: chan_reconnect_def split: option.split)

lemma onUnexpectedResponse_ok: "chan_ok s \<Longrightarrow> chan_ok (onUnexpectedResponse n code s)"
  using retryIn_ok [of s] retryIn_ok [of "s\<lparr>ch_unsupported := True\<rparr>"] by (simp add: onUnexpectedResponse_def Let_def)

lemma chan_onOpen_ok:
  assumes "chan_ok s" "ch_ws s = Some n"
  shows "chan_ok (chan_onOpen n b now s)"
proof (cases b)
  case True
  moreover have "\<not> ch_stopped s" "ch_retryTimer s = None" using assms by (auto simp: chan_ok_def line_ok_def split: if_splits)
  ultimately show ?thesis using assms by (simp add: chan_onOpen_def clearPing_def chan_emit_def chan_ok_def line_ok_def)
next
  case False
  then show ?thesis using assms(1) retryIn_ok [of "s\<lparr>ch_lastError := Some ''wrong_subprotocol''\<rparr>" unsupportedRetryMs n]
    by (simp add: chan_onOpen_def)
qed

lemma chan_onClose_ok:
  assumes "chan_ok s"
  shows "chan_ok (chan_onClose w n s)"
proof (cases "ch_ws s = Some n")
  case True
  then have st: "\<not> ch_stopped s" using assms by (auto simp: chan_ok_def line_ok_def)
  have r: "\<forall>d\<in>snd ` set (ch_retryIn s). d = unsupportedRetryMs \<or> d = authRetryMs" using assms by (simp add: chan_ok_def)
  have f: "\<forall>d. map_of (ch_retryIn s) n = Some d \<longrightarrow> reconnectMinMs \<le> d \<and> d \<le> unsupportedRetryMs"
    using r by (force dest: map_of_SomeD simp: reconnectMinMs_def unsupportedRetryMs_def authRetryMs_def)
  show ?thesis unfolding chan_onClose_def Let_def
    using st r f True by (auto simp: clearPing_def chan_emit_def intro!: chan_scheduleRetry_ok)
qed (simp add: chan_onClose_def assms)

lemma chan_quiet_ok:
  "chan_ok s \<Longrightarrow> chan_ok (chan_onMessage b m now s)" "chan_ok s \<Longrightarrow> chan_ok (chan_onError n e s)"
  "chan_ok s \<Longrightarrow> chan_ok (ping_due now s)" "chan_ok s \<Longrightarrow> chan_ok (snd (chan_send w j s))"
  by (simp_all add: chan_onMessage_def chan_onError_def ping_due_def chan_send_def Let_def split: option.split)

lemma chan_step_ok: "chan_ok s \<Longrightarrow> chan_sane w \<Longrightarrow> chan_ok (chan_step (w, e) s)"
  by (cases e) (simp_all add: chan_start_ok chan_stop_ok chan_reconnect_ok retry_due_ok onUnexpectedResponse_ok chan_onOpen_ok
      chan_onClose_ok chan_quiet_ok)

lemma chan_scheduleRetry_frame [simp]:
  "ch_ws (chan_scheduleRetry w f s) = ch_ws s" "ch_stopped (chan_scheduleRetry w f s) = ch_stopped s"
  by (simp_all add: chan_scheduleRetry_def chan_emit_def Let_def split: option.split)

interpretation channel: reconnecting ch_stopped ch_ws ch_retryTimer ch_connected reconnectMinMs unsupportedRetryMs chan_ok
  chan_step chan_sane chan_up Ch_closed Ch_retry
proof
  fix s w n e
  show "chan_ok s \<Longrightarrow> line_ok reconnectMinMs unsupportedRetryMs (ch_stopped s) (ch_ws s) (ch_retryTimer s) (ch_connected s)"
    by (simp add: chan_ok_def)
  show "chan_ok s \<Longrightarrow> chan_sane w \<Longrightarrow> chan_ok (chan_step (w, e) s)" by (rule chan_step_ok)
  show "ch_ws s = Some n \<Longrightarrow> ch_ws (chan_step (w, Ch_closed n) s) = None \<and> ch_stopped (chan_step (w, Ch_closed n) s) = ch_stopped s"
    by (simp add: chan_onClose_def clearPing_def chan_emit_def Let_def)
  assume "chan_ok s" "ch_retryTimer s \<noteq> None" "chan_up w"
  moreover from this have "\<not> ch_stopped s" by (auto simp: chan_ok_def line_ok_def)
  ultimately show "ch_ws (chan_step (w, Ch_retry) s) \<noteq> None"
    by (auto simp: retry_due_def chan_connect_def chan_up_def chan_emit_def Let_def split: sum.splits option.splits)
qed

section \<open>The calls\<close>

fun settled_id :: "rpc_out \<Rightarrow> nat option" where
  "settled_id (Resolved i v) = Some i"
| "settled_id (Rejected i c) = Some i"
| "settled_id _ = None"

definition settled_ids :: "gateway_rpc \<Rightarrow> nat list" where
  "settled_ids s = List.map_filter settled_id (rp_out s)"

text \<open>Every call is waiting or settled, once; none waits without a connection.\<close>

definition rpc_ok :: "gateway_rpc \<Rightarrow> bool" where
  "rpc_ok s =
     (line_ok rpcReconnectMinMs rpcReconnectMaxMs (rp_stopped s) (rp_ws s) (rp_retryTimer s) (rp_connected s)
      \<and> prefix ''/'' (rp_socketPath s)
      \<and> (\<not> rp_connected s \<longrightarrow> rp_pending s = [])
      \<and> distinct (rp_pending s @ settled_ids s) \<and> set (rp_pending s @ settled_ids s) = {1..rp_nextId s})"

lemma settled_emit [simp]: "settled_ids (rpc_emit es s) = settled_ids s @ List.map_filter settled_id es"
  by (simp add: settled_ids_def rpc_emit_def map_filter_def)

lemma settled_frame [simp]:
  "settled_ids (s\<lparr>rp_ws := a\<rparr>) = settled_ids s" "settled_ids (s\<lparr>rp_made := b\<rparr>) = settled_ids s" "settled_ids (s\<lparr>rp_connected := c\<rparr>) = settled_ids s"
  "settled_ids (s\<lparr>rp_stopped := c\<rparr>) = settled_ids s" "settled_ids (s\<lparr>rp_attempt := b\<rparr>) = settled_ids s"
  "settled_ids (s\<lparr>rp_retryTimer := d\<rparr>) = settled_ids s" "settled_ids (s\<lparr>rp_pending := e\<rparr>) = settled_ids s"
  "settled_ids (s\<lparr>rp_nextId := b\<rparr>) = settled_ids s" "settled_ids (s\<lparr>rp_info := f\<rparr>) = settled_ids s" "settled_ids (s\<lparr>rp_sessions := b\<rparr>) = settled_ids s"
  by (simp_all add: settled_ids_def)

lemma rpc_emit_frame [simp]:
  "rp_ws (rpc_emit es s) = rp_ws s" "rp_connected (rpc_emit es s) = rp_connected s" "rp_stopped (rpc_emit es s) = rp_stopped s"
  "rp_retryTimer (rpc_emit es s) = rp_retryTimer s" "rp_pending (rpc_emit es s) = rp_pending s" "rp_nextId (rpc_emit es s) = rp_nextId s"
  "rp_socketPath (rpc_emit es s) = rp_socketPath s"
  by (simp_all add: rpc_emit_def)

lemma settled_rejected [simp]: "List.map_filter settled_id (map (\<lambda>i. Rejected i code) is) = is"
  by (induction "is") (simp_all add: map_filter_simps)

lemma settle_ok:
  assumes "rpc_ok s" "i \<in> set (rp_pending s)" "List.map_filter settled_id es = [i]"
  shows "rpc_ok (rpc_emit es (s\<lparr>rp_pending := remove1 i (rp_pending s)\<rparr>))"
proof -
  have "distinct (rp_pending s)" using assms(1) by (simp add: rpc_ok_def)
  then have "set (remove1 i (rp_pending s)) = set (rp_pending s) - {i}" "distinct (remove1 i (rp_pending s))" by simp_all
  with assms show ?thesis by (auto simp: rpc_ok_def)
qed

lemma rpc_quiet_ok: "rpc_ok s \<Longrightarrow> List.map_filter settled_id es = [] \<Longrightarrow> rpc_ok (rpc_emit es s)"
  by (simp add: rpc_ok_def)

lemma settled_one [simp]:
  "List.map_filter settled_id [Resolved i v] = [i]" "List.map_filter settled_id [Rejected i c] = [i]"
  "settled_id e = None \<Longrightarrow> List.map_filter settled_id [e] = []"
  by (simp_all add: map_filter_simps)

lemma rpc_delay:
  "rpcReconnectMinMs \<le> backoffDelay k rpcReconnectMinMs rpcReconnectMaxMs r"
  "backoffDelay k rpcReconnectMinMs rpcReconnectMaxMs r \<le> rpcReconnectMaxMs"
  using backoffDelay_range [of rpcReconnectMinMs rpcReconnectMaxMs k r] by (simp_all add: rpcReconnectMinMs_def rpcReconnectMaxMs_def)

definition rpc_idle :: "gateway_rpc \<Rightarrow> bool" where
  "rpc_idle s =
     (\<not> rp_stopped s \<and> rp_ws s = None \<and> \<not> rp_connected s \<and> rp_pending s = [] \<and> prefix ''/'' (rp_socketPath s)
      \<and> distinct (settled_ids s) \<and> set (settled_ids s) = {1..rp_nextId s})"

lemma rpc_scheduleRetry_ok: "rpc_idle s \<Longrightarrow> rpc_ok (rpc_scheduleRetry w s)"
  by (simp add: rpc_idle_def rpc_scheduleRetry_def rpc_ok_def line_ok_def rpc_delay)

lemma rpc_connect_ok: "rpc_idle s \<Longrightarrow> rp_retryTimer s = None \<Longrightarrow> rpc_ok (rpc_connect w s)"
  using rpc_scheduleRetry_ok [of s w]
  by (auto simp: rpc_connect_def rpc_ok_def rpc_idle_def line_ok_def Let_def split: option.split)

lemma failAll_sets [simp]:
  "rp_pending (failAll c s) = []" "settled_ids (failAll c s) = settled_ids s @ rp_pending s" "rp_ws (failAll c s) = rp_ws s"
  "rp_connected (failAll c s) = rp_connected s" "rp_stopped (failAll c s) = rp_stopped s" "rp_retryTimer (failAll c s) = rp_retryTimer s"
  "rp_nextId (failAll c s) = rp_nextId s" "rp_socketPath (failAll c s) = rp_socketPath s"
  by (simp_all add: failAll_def)

lemma rpc_onClose_ok:
  assumes "rpc_ok s"
  shows "rpc_ok (rpc_onClose w n s)"
proof (cases "rp_ws s = Some n")
  case True
  then have "rpc_idle (failAll ''not_available'' (s\<lparr>rp_ws := None, rp_connected := False\<rparr>))"
    using assms by (auto simp: rpc_idle_def rpc_ok_def line_ok_def)
  then have "rpc_idle (if rp_connected s then rpc_emit [Emit_rpc_close] (failAll ''not_available'' (s\<lparr>rp_ws := None, rp_connected := False\<rparr>))
      else failAll ''not_available'' (s\<lparr>rp_ws := None, rp_connected := False\<rparr>))"
    by (simp add: rpc_idle_def)
  then show ?thesis using True rpc_scheduleRetry_ok by (simp add: rpc_onClose_def Let_def)
qed (simp add: rpc_onClose_def assms)

lemma rpc_stop_ok: "rpc_ok s \<Longrightarrow> rpc_ok (rpc_stop s)"
  by (auto simp: rpc_stop_def Let_def rpc_ok_def line_ok_def split: option.split)

lemma rpc_waiting:
  assumes "rpc_ok s" "rp_ws s = None"
  shows "rpc_idle (s\<lparr>rp_stopped := False\<rparr>)" "\<not> rp_stopped s \<Longrightarrow> rpc_idle (s\<lparr>rp_retryTimer := d\<rparr>)"
proof -
  have c: "\<not> rp_connected s" using assms by (auto simp: rpc_ok_def line_ok_def)
  then have "rp_pending s = []" using assms by (simp add: rpc_ok_def)
  with c assms show "rpc_idle (s\<lparr>rp_stopped := False\<rparr>)" "\<not> rp_stopped s \<Longrightarrow> rpc_idle (s\<lparr>rp_retryTimer := d\<rparr>)"
    by (simp_all add: rpc_idle_def rpc_ok_def)
qed

lemma rpc_start_ok:
  assumes "rpc_ok s"
  shows "rpc_ok (rpc_start w s)"
proof (cases "rp_stopped s")
  case True
  then have "rp_ws s = None" "rp_retryTimer s = None" using assms by (auto simp: rpc_ok_def line_ok_def)
  then show ?thesis using True rpc_connect_ok [OF rpc_waiting(1) [OF assms]] by (simp add: rpc_start_def)
qed (simp add: rpc_start_def assms)

lemma rpc_retry_due_ok:
  assumes "rpc_ok s"
  shows "rpc_ok (rpc_retry_due w s)"
proof (cases "rp_retryTimer s")
  case (Some d)
  then have "rp_ws s = None" "\<not> rp_stopped s" using assms by (auto simp: rpc_ok_def line_ok_def split: if_splits)
  then show ?thesis using Some rpc_connect_ok [OF rpc_waiting(2) [OF assms]] by (simp add: rpc_retry_due_def)
qed (simp add: rpc_retry_due_def assms)

lemma rpc_onOpen_ok: "rpc_ok s \<Longrightarrow> rp_ws s = Some n \<Longrightarrow> rpc_ok (rpc_onOpen n b s)"
  by (auto simp: rpc_onOpen_def Let_def rpc_ok_def line_ok_def)

lemma rpc_onMessage_ok: "rpc_ok s \<Longrightarrow> rpc_ok (rpc_onMessage m s)"
proof -
  assume s: "rpc_ok s"
  have "rpc_ok (s\<lparr>rp_info := x\<rparr>)" for x using s by (simp add: rpc_ok_def)
  then show ?thesis using s
    by (simp add: rpc_onMessage_def Let_def settle_ok rpc_quiet_ok split: json.split option.split)
qed

lemma rpc_call_ok: "rpc_ok s \<Longrightarrow> rpc_ok (rpc_call w p api a c s)"
proof -
  assume s: "rpc_ok s"
  have k: "rpc_ok (s\<lparr>rp_nextId := rp_nextId s + 1, rp_pending := rp_pending s @ [rp_nextId s + 1]\<rparr>)" if "rp_connected s"
  proof -
    have "rp_nextId s + 1 \<notin> set (rp_pending s @ settled_ids s)" using s unfolding rpc_ok_def by (metis Suc_eq_plus1 Suc_n_not_le_n atLeastAtMost_iff)
    then have "Suc (rp_nextId s) \<notin> set (rp_pending s)" "Suc (rp_nextId s) \<notin> set (settled_ids s)" by simp_all
    with s that show ?thesis by (auto simp: rpc_ok_def)
  qed
  show ?thesis unfolding rpc_call_def Let_def
    using s k settle_ok [OF k, of "rp_nextId s + 1" "[Rejected (rp_nextId s + 1) ''too_large'']"] by (simp add: rpc_quiet_ok)
qed

lemma rpc_step_ok: "rpc_ok s \<Longrightarrow> rpc_ok (rpc_step (w, e) s)"
  by (cases e) (simp_all add: rpc_start_ok rpc_stop_ok rpc_retry_due_ok rpc_onOpen_ok rpc_onMessage_ok rpc_onClose_ok rpc_call_ok
      call_timeout_def settle_ok rpc_closePlugin_def rpc_quiet_ok)

interpretation rpc: reconnecting rp_stopped rp_ws rp_retryTimer rp_connected rpcReconnectMinMs rpcReconnectMaxMs rpc_ok
  rpc_step "\<lambda>w. True" "\<lambda>w. cw_refused w = None" Rp_closed Rp_retry
proof
  fix s w n e
  show "rpc_ok s \<Longrightarrow> line_ok rpcReconnectMinMs rpcReconnectMaxMs (rp_stopped s) (rp_ws s) (rp_retryTimer s) (rp_connected s)"
    by (simp add: rpc_ok_def)
  show "rpc_ok s \<Longrightarrow> rpc_ok (rpc_step (w, e) s)" by (rule rpc_step_ok)
  show "rp_ws s = Some n \<Longrightarrow> rp_ws (rpc_step (w, Rp_closed n) s) = None \<and> rp_stopped (rpc_step (w, Rp_closed n) s) = rp_stopped s"
    by (simp add: rpc_onClose_def rpc_scheduleRetry_def Let_def)
  assume "rpc_ok s" "rp_retryTimer s \<noteq> None" "cw_refused w = None"
  then show "rp_ws (rpc_step (w, Rp_retry) s) \<noteq> None"
    by (auto simp: rpc_retry_due_def rpc_connect_def rpc_ok_def line_ok_def unixWsUrl_def Let_def split: if_splits)
qed

section \<open>Both connections come back\<close>

text \<open>
  Whatever happens to the channel to the server, in whatever order, it is never lost: unless it was stopped it has
  either a websocket or a pending retry, never both, and the retry is due after one second at least and ten
  minutes at most. While it is connected, the ping timer watches exactly the current websocket and cuts it after a minute of silence; and when
  the websocket closes, the retry that follows makes a new one as soon as the world allows it.
\<close>

theorem channel_comes_back:
  assumes "list_all (\<lambda>x. chan_sane (fst x)) es" "s = foldl (\<lambda>s e. chan_step e s) newChannel es"
  shows "(if ch_stopped s then ch_ws s = None \<and> ch_retryTimer s = None else (ch_ws s = None) = (ch_retryTimer s \<noteq> None))
    \<and> (\<forall>d. ch_retryTimer s = Some d \<longrightarrow> 1000 \<le> d \<and> d \<le> 600000)
    \<and> (ch_connected s \<longrightarrow> (\<exists>n. ch_ws s = Some n \<and>
         (\<forall>now. 60000 < now - ch_lastSeen s \<longrightarrow> ch_out (chan_step (w, Ch_ping now) s) = ch_out s @ [Terminate_ws n])))
    \<and> (\<forall>n v. ch_ws s = Some n \<and> chan_sane w \<and> chan_up v \<longrightarrow>
         ch_ws (chan_step (v, Ch_retry) (chan_step (w, Ch_closed n) s)) \<noteq> None)"
proof -
  have "chan_ok newChannel" by (simp add: chan_ok_def newChannel_def line_ok_def)
  then have ok: "chan_ok s" unfolding assms(2) using assms(1) by (rule channel.run_ok)
  note l = channel.ok_line [OF ok, unfolded line_ok_def reconnectMinMs_def unsupportedRetryMs_def]
  have "\<exists>n. ch_ws s = Some n \<and>
         (\<forall>now. 60000 < now - ch_lastSeen s \<longrightarrow> ch_out (chan_step (w, Ch_ping now) s) = ch_out s @ [Terminate_ws n])"
    if c: "ch_connected s"
  proof -
    obtain n where n: "ch_ws s = Some n" using l c by auto
    then have "ch_pingTimer s = Some n" using ok c by (simp add: chan_ok_def)
    with n show ?thesis by (simp add: ping_due_def chan_emit_def pongTimeoutMs_def)
  qed
  moreover have "\<not> ch_stopped s" if "ch_ws s = Some n" for n using l that by (auto split: if_splits)
  ultimately show ?thesis using l channel.comes_back [OF ok] by simp
qed

definition sample_chan_world :: "string option \<Rightarrow> chan_world" where
  "sample_chan_world refused =
     \<lparr>cw_credentials = Inr (Some \<lparr>cr_socketPath = ''/run/gc-edge/gw.sock'', cr_serverUrl = [], cr_apiToken = [], cr_serverAddrs = []\<rparr>),
      cw_parse = \<lambda>s. None, cw_refused = refused, cw_random = 1 / 2, cw_json = \<lambda>j. ''{}'', cw_bytes = length, cw_ready = True\<rparr>"

theorem channel_comes_back_witness:
  "\<exists>s. ch_connected s \<and> ch_ws s = Some 1 \<and> ch_ws (chan_step (sample_chan_world None, Ch_retry) (chan_step (sample_chan_world None, Ch_closed 1) s)) \<noteq> None"
proof -
  let ?w = "sample_chan_world None"
  let ?es = "[(?w, Ch_start), (?w, Ch_refused 0 503), (?w, Ch_closed 0), (?w, Ch_retry), (?w, Ch_opened 1 True 5000)]"
  let ?s = "foldl (\<lambda>s e. chan_step e s) newChannel ?es"
  have w: "chan_sane ?w" "chan_up ?w" by code_simp+
  have s: "ch_connected ?s" "ch_ws ?s = Some 1" by code_simp+
  have "list_all (\<lambda>x. chan_sane (fst x)) ?es" using w(1) by simp
  from channel_comes_back [OF this refl] s(2) w
  have "ch_ws (chan_step (?w, Ch_retry) (chan_step (?w, Ch_closed 1) ?s)) \<noteq> None" by blast
  with s show ?thesis by blast
qed

text \<open>
  Every call a plugin makes over the gateway socket is settled: in every history each number given out is either
  still waiting or was settled exactly once, by the answer, a timeout or the loss of the connection; without a
  connection nothing waits; and the connection itself comes back after half a second at least and ten seconds at most.
\<close>

theorem gateway_calls_settle:
  assumes "prefix ''/'' path" "s = foldl (\<lambda>s e. rpc_step e s) (newRpc path) es"
  shows "distinct (rp_pending s @ settled_ids s) \<and> set (rp_pending s @ settled_ids s) = {1..rp_nextId s}
    \<and> (\<not> rp_connected s \<longrightarrow> rp_pending s = [])
    \<and> (\<forall>d. rp_retryTimer s = Some d \<longrightarrow> 500 \<le> d \<and> d \<le> 10000)
    \<and> (\<forall>n w v. rp_ws s = Some n \<and> cw_refused v = None \<longrightarrow>
         rp_ws (rpc_step (v, Rp_retry) (rpc_step (w, Rp_closed n) s)) \<noteq> None)"
proof -
  have "rpc_ok (newRpc path)" using assms(1) by (simp add: rpc_ok_def newRpc_def line_ok_def settled_ids_def map_filter_simps)
  then have ok: "rpc_ok s" unfolding assms(2) by (rule rpc.run_ok) (simp add: list_all_iff)
  note l = rpc.ok_line [OF ok, unfolded line_ok_def rpcReconnectMinMs_def rpcReconnectMaxMs_def]
  have "\<not> rp_stopped s" if "rp_ws s = Some n" for n using l that by (auto split: if_splits)
  then show ?thesis using l ok rpc.comes_back [OF ok] unfolding rpc_ok_def by simp
qed

theorem gateway_calls_settle_witness:
  "\<exists>s. rp_out s = [Rpc_ws 0 ''ws+unix:///gw.sock:/edge/rpc'', Emit_rpc_open 1, Call_frame 0 1 ''hue'' ''udp.bind'' JNull (JObj []),
       Call_frame 0 2 ''hue'' ''udp.bind'' JNull (JObj []), Rejected 1 ''timeout'', Rejected 2 ''not_available'', Emit_rpc_close]
     \<and> rp_pending s = [] \<and> distinct (settled_ids s)"
proof -
  let ?w = "sample_chan_world None"
  let ?c = "(?w, Rp_call ''hue'' ''udp.bind'' JUndef (JObj []))"
  let ?es = "[(?w, Rp_start), (?w, Rp_opened 0 True), ?c, ?c, (?w, Rp_timeout 1), (?w, Rp_closed 0)]"
  let ?s = "foldl (\<lambda>s e. rpc_step e s) (newRpc ''/gw.sock'') ?es"
  have s: "rp_out ?s = [Rpc_ws 0 ''ws+unix:///gw.sock:/edge/rpc'', Emit_rpc_open 1, Call_frame 0 1 ''hue'' ''udp.bind'' JNull (JObj []),
       Call_frame 0 2 ''hue'' ''udp.bind'' JNull (JObj []), Rejected 1 ''timeout'', Rejected 2 ''not_available'', Emit_rpc_close]"
    "\<not> rp_connected ?s" by code_simp+
  have "prefix ''/'' ''/gw.sock''" by simp
  from gateway_calls_settle [OF this refl, of ?es] s(2) have "rp_pending ?s = []" "distinct (settled_ids ?s)" by simp_all
  with s(1) show ?thesis by blast
qed

end
