(* ===== verification/Edge_Store.thy ===== *)
theory Edge_Store
  imports Edge_Protocol
begin

text \<open>
  The store of a plugin (\<open>src/src/edge/store.js\<close>): one JSON object in a file, kept in memory after the first read. The text of
  an object, its parser, its length in UTF-8 and the outcome of writing the file are the world of an operation.
\<close>

datatype store_error = Bad_key | Too_large | Write_failed

record store_world =
  sw_json :: "json \<Rightarrow> string"
  sw_parse :: "string \<Rightarrow> json option"
  sw_bytes :: "string \<Rightarrow> nat"
  sw_writes :: bool

record plugin_store =
  st_file :: "string option"
  st_data :: "(string, json) jsmap option"
  st_maxBytes :: nat

definition LIM_storeBytes :: nat where
  "LIM_storeBytes = 1024 * 1024"

definition newPluginStore :: "string option \<Rightarrow> plugin_store" where
  "newPluginStore file = \<lparr>st_file = file, st_data = None, st_maxBytes = LIM_storeBytes\<rparr>"

definition STORE_KEY_RE :: "string \<Rightarrow> bool" where
  "STORE_KEY_RE k = re_class (\<lambda>c. is_alnum c \<or> c \<in> set ''._:-'') 1 128 k"

definition store_load :: "store_world \<Rightarrow> plugin_store \<Rightarrow> (string, json) jsmap \<times> plugin_store" where
  "store_load w s =
     (case st_data s of
        Some d \<Rightarrow> (d, s)
      | None \<Rightarrow>
          let d = (case Option.bind (st_file s) (sw_parse w) of Some (JObj ms) \<Rightarrow> ms | _ \<Rightarrow> [])
          in (d, s\<lparr>st_data := Some d\<rparr>))"

definition store_key :: "json \<Rightarrow> string option" where
  "store_key k = (case k of JStr s \<Rightarrow> if STORE_KEY_RE s then Some s else None | _ \<Rightarrow> None)"

definition store_get :: "store_world \<Rightarrow> json \<Rightarrow> plugin_store \<Rightarrow> (store_error + json) \<times> plugin_store" where
  "store_get w k s =
     (case store_load w s of (d, s1) \<Rightarrow>
        (case store_key k of
           None \<Rightarrow> (Inl Bad_key, s1)
         | Some i \<Rightarrow> (Inr (case map_of d i of Some v \<Rightarrow> v | None \<Rightarrow> JNull), s1)))"

definition store_write :: "store_world \<Rightarrow> (string, json) jsmap \<Rightarrow> plugin_store \<Rightarrow> (store_error + unit) \<times> plugin_store" where
  "store_write w d s =
     (let body = sw_json w (JObj d)
      in if st_maxBytes s < sw_bytes w body then (Inl Too_large, s)
         else if \<not> sw_writes w then (Inl Write_failed, s)
         else (Inr (), s\<lparr>st_file := Some body, st_data := Some d\<rparr>))"

definition store_delete :: "store_world \<Rightarrow> json \<Rightarrow> plugin_store \<Rightarrow> (store_error + unit) \<times> plugin_store" where
  "store_delete w k s =
     (case store_key k of
        None \<Rightarrow> (Inl Bad_key, s)
      | Some i \<Rightarrow>
          (case store_load w s of (d, s1) \<Rightarrow>
             if map_of d i = None then (Inr (), s1) else store_write w (mdelete i d) s1))"

definition store_set :: "store_world \<Rightarrow> json \<Rightarrow> json \<Rightarrow> plugin_store \<Rightarrow> (store_error + unit) \<times> plugin_store" where
  "store_set w k v s =
     (case store_key k of
        None \<Rightarrow> (Inl Bad_key, s)
      | Some i \<Rightarrow>
          if v = JUndef then store_delete w k s
          else case store_load w s of (d, s1) \<Rightarrow> store_write w (mset_at i v d) s1)"

section \<open>A store is a map that survives a restart\<close>

definition store_view :: "store_world \<Rightarrow> plugin_store \<Rightarrow> string \<Rightarrow> json option" where
  "store_view w s = map_of (fst (store_load w s))"

text \<open>The process ends and starts again: only the file is left.\<close>

definition restarted :: "plugin_store \<Rightarrow> plugin_store" where
  "restarted s = s\<lparr>st_data := None\<rparr>"

definition store_ok :: "store_world \<Rightarrow> plugin_store \<Rightarrow> bool" where
  "store_ok w s = (store_view w (restarted s) = store_view w s)"

definition reads_back :: "store_world \<Rightarrow> (string, json) jsmap \<Rightarrow> bool" where
  "reads_back w d = (sw_parse w (sw_json w (JObj d)) = Some (JObj d))"

lemma load_view [simp]: "store_view w (snd (store_load w s)) = store_view w s" "st_file (snd (store_load w s)) = st_file s"
  "store_ok w (snd (store_load w s)) = store_ok w s" "st_maxBytes (snd (store_load w s)) = st_maxBytes s"
  by (auto simp: store_view_def store_load_def store_ok_def restarted_def Let_def split: option.split)

text \<open>How an operation changes the store: as \<open>f\<close> says, or not at all with an error.\<close>

definition changes :: "store_world \<Rightarrow> plugin_store \<Rightarrow> ((string \<Rightarrow> json option) \<Rightarrow> string \<Rightarrow> json option) \<Rightarrow> (store_error + unit) \<times> plugin_store \<Rightarrow> bool" where
  "changes w s f r =
     (store_ok w (snd r) \<and>
      (case fst r of
         Inr u \<Rightarrow> store_view w (snd r) = f (store_view w s)
       | Inl e \<Rightarrow> store_view w (snd r) = store_view w s \<and> st_file (snd r) = st_file s) \<and>
      (st_file (snd r) = st_file s \<or> (\<exists>t. st_file (snd r) = Some t \<and> sw_bytes w t \<le> st_maxBytes s)))"

lemma write_changes:
  assumes "store_ok w s" "reads_back w d" "map_of d = f (store_view w s)"
  shows "changes w s f (store_write w d (snd (store_load w s)))"
proof (cases "fst (store_write w d (snd (store_load w s)))")
  case (Inl e)
  then have "snd (store_write w d (snd (store_load w s))) = snd (store_load w s)"
    by (auto simp: store_write_def Let_def split: if_splits)
  with Inl assms(1) show ?thesis by (simp add: changes_def)
next
  case (Inr u)
  let ?s = "snd (store_load w s)"
  from Inr have r: "store_write w d ?s = (Inr (), ?s\<lparr>st_file := Some (sw_json w (JObj d)), st_data := Some d\<rparr>)"
    and b: "sw_bytes w (sw_json w (JObj d)) \<le> st_maxBytes s"
    by (auto simp: store_write_def Let_def split: if_splits)
  show ?thesis unfolding r using assms(2, 3) b
    by (auto simp: changes_def store_ok_def restarted_def store_view_def store_load_def reads_back_def)
qed

text \<open>
  The store of a plugin is a map that survives a restart: a successful set or delete changes exactly the one key,
  in memory and in the file, an operation that fails (bad key, too large, file not written) changes nothing,
  a get returns what was set last, and the file never exceeds the limit. What is written has to read back as the object it was printed from.
\<close>

theorem plugin_store_is_a_map:
  assumes "store_ok w s" "STORE_KEY_RE k" "reads_back w (mset_at k v (fst (store_load w s)))" "reads_back w (mdelete k (fst (store_load w s)))"
  shows "changes w s (\<lambda>m. m(k := if v = JUndef then None else Some v)) (store_set w (JStr k) v s)"
    and "changes w s (\<lambda>m. m(k := None)) (store_delete w (JStr k) s)"
    and "fst (store_get w (JStr k) s) = Inr (case store_view w s k of None \<Rightarrow> JNull | Some x \<Rightarrow> x)"
    and "store_ok w (snd (store_get w (JStr k) s)) \<and> store_view w (snd (store_get w (JStr k) s)) = store_view w s"
    and "\<not> STORE_KEY_RE i \<Longrightarrow> store_set w (JStr i) v s = (Inl Bad_key, s)"
proof -
  have "map_of (mset_at k v (fst (store_load w s))) = (store_view w s)(k := Some v)"
    "map_of (mdelete k (fst (store_load w s))) = (store_view w s)(k := None)" by (simp_all add: store_view_def)
  note up = write_changes [OF assms(1, 3), where f = "\<lambda>m. m(k := Some v)", OF this(1)]
    and del = write_changes [OF assms(1, 4), where f = "\<lambda>m. m(k := None)", OF this(2)]
  have key: "store_key (JStr k) = Some k" using assms(2) by (simp add: store_key_def)
  have absent: "changes w s (\<lambda>m. m(k := None)) (Inr (), snd (store_load w s))" if "store_view w s k = None"
    using that assms(1) by (simp add: changes_def fun_upd_idem)
  show d: "changes w s (\<lambda>m. m(k := None)) (store_delete w (JStr k) s)"
    using del absent unfolding store_delete_def key store_view_def by (cases "store_load w s") simp
  show "changes w s (\<lambda>m. m(k := if v = JUndef then None else Some v)) (store_set w (JStr k) v s)"
    using up d by (auto simp: store_set_def key split: prod.split)
  show "fst (store_get w (JStr k) s) = Inr (case store_view w s k of None \<Rightarrow> JNull | Some x \<Rightarrow> x)"
    by (simp add: store_get_def store_view_def key split: prod.split option.split)
  have "snd (store_get w (JStr k) s) = snd (store_load w s)" by (simp add: store_get_def key split: prod.split)
  then show "store_ok w (snd (store_get w (JStr k) s)) \<and> store_view w (snd (store_get w (JStr k) s)) = store_view w s"
    using assms(1) by simp
  show "\<not> STORE_KEY_RE i \<Longrightarrow> store_set w (JStr i) v s = (Inl Bad_key, s)" by (simp add: store_set_def store_key_def)
qed

end
