(* ===== verification/Edge_Host.thy ===== *)
theory Edge_Host
  imports Edge_Signature Edge_Store Edge_Net
begin

text \<open>
  The plugin host (\<open>src/src/edge/host.js\<close>) and its check of the network boundary (\<open>src/src/edge/fence.js\<close>): it takes over
  the state the server sends, installs packages, starts and stops one process per plugin and answers for
  them. Every \<open>await\<close> is a point where other events come in between: the rest of the reconciling is kept as a value
  (\<open>rec_wait\<close> in \<open>ho_wait\<close>, or \<open>rec_at\<close> at the process it waits for). Entries and processes are objects, numbered in the
  order of their creation. A process is what \<open>Edge_Process\<close> models, here by its events. Of an error only its code is kept.
  The files of the plugins' stores are \<open>ho_files\<close>.
\<close>

section \<open>The network boundary\<close>

record probe_result =
  pr_v4 :: string
  pr_v6 :: string
  pr_blocked :: bool

definition probe :: "string \<Rightarrow> string \<Rightarrow> probe_result" where
  "probe code4 code6 =
     \<lparr>pr_v4 = code4, pr_v6 = code6,
      pr_blocked = ((code4 = ''EPERM'' \<or> code4 = ''EACCES'') \<and>
        code6 \<in> set [''EPERM'', ''EACCES'', ''ENETUNREACH'', ''EADDRNOTAVAIL'', ''EAFNOSUPPORT'', ''EHOSTUNREACH''])\<rparr>"

record boundary =
  bo_isolated :: bool
  bo_active :: bool
  bo_backend :: "string option"
  bo_reason :: "string option"

definition fenceMarkerMaxAgeMs :: int where
  "fenceMarkerMaxAgeMs = 3 * 60 * 1000"

definition EDGE_UID :: int where
  "EDGE_UID = 61001"

definition orNull :: "json \<Rightarrow> string option" where
  "orNull v = (case v of JStr s \<Rightarrow> if s = [] then None else Some s | _ \<Rightarrow> None)"

text \<open>
  The marker is the object in the file, if it can be read; \<open>applied\<close> its time as \<open>Date.parse\<close> reads it. \<open>backend\<close> is a name or missing.
\<close>

definition checkFence :: "json option \<Rightarrow> int option \<Rightarrow> int \<Rightarrow> probe_result \<Rightarrow> boundary" where
  "checkFence marker applied now p =
     (case marker of
        None \<Rightarrow> \<lparr>bo_isolated = False, bo_active = False, bo_backend = None, bo_reason = Some ''no_marker''\<rparr>
      | Some m \<Rightarrow>
          let ms = members m; inactive = (\<lambda>r. \<lparr>bo_isolated = False, bo_active = False, bo_backend = orNull (field ms ''backend''), bo_reason = Some r\<rparr>)
          in if field ms ''active'' \<noteq> JBool True then
               inactive (case field ms ''error'' of JStr e \<Rightarrow> if e = [] then ''rules_not_active'' else take 120 e | _ \<Rightarrow> ''rules_not_active'')
             else if (case applied of None \<Rightarrow> True | Some t \<Rightarrow> fenceMarkerMaxAgeMs < now - t) then inactive ''marker_stale''
             else if intOf (field ms ''uid'') \<noteq> Some EDGE_UID then inactive ''uid_mismatch''
             else if \<not> pr_blocked p then inactive (''probe_'' @ toLower (pr_v4 p))
             else \<lparr>bo_isolated = False, bo_active = True, bo_backend = orNull (field ms ''backend''), bo_reason = None\<rparr>)"

definition CLOSED :: "string list" where
  "CLOSED = [''ENETUNREACH'', ''EHOSTUNREACH'', ''EADDRNOTAVAIL'', ''EAFNOSUPPORT'', ''EPERM'', ''EACCES'']"

text \<open>
  An interface as its name and, for each of its addresses, whether it is internal. The source also sorts the names, whose order
  nothing reads.
\<close>

definition externalInterfaces :: "(string \<times> bool list) list \<Rightarrow> string list" where
  "externalInterfaces ifs = map fst (filter (\<lambda>(n, as). \<not> list_all (\<lambda>a. a) as) ifs)"

definition checkIsolation :: "(string \<times> bool list) list \<Rightarrow> probe_result \<Rightarrow> string option" where
  "checkIsolation ifs p =
     (if externalInterfaces ifs \<noteq> [] then Some ''network_interfaces''
      else if pr_v4 p \<notin> set CLOSED then Some (''probe_'' @ toLower (pr_v4 p))
      else if pr_v6 p \<notin> set CLOSED then Some (''probe6_'' @ toLower (pr_v6 p))
      else None)"

definition checkBoundary :: "(string \<times> bool list) list \<Rightarrow> probe_result \<Rightarrow> boundary \<Rightarrow> boundary" where
  "checkBoundary ifs p fence =
     (case checkIsolation ifs p of
        None \<Rightarrow> \<lparr>bo_isolated = True, bo_active = True, bo_backend = Some ''isolated'', bo_reason = None\<rparr>
      | Some r \<Rightarrow>
          if r \<noteq> ''network_interfaces'' then \<lparr>bo_isolated = True, bo_active = False, bo_backend = None, bo_reason = Some r\<rparr>
          else fence\<lparr>bo_isolated := False\<rparr>)"

section \<open>State\<close>

record host_spec =
  hs_id :: string
  hs_version :: string
  hs_entry :: string
  hs_memoryMb :: int

datatype stop_reason =
    For_caps string
  | For_reject string
  | For_unsigned
  | For_fence host_spec
  | For_change host_spec

text \<open>
  Where the reconciling waits: for the broker or for a package; and, at a process, for the end of one that is not wanted or
  of one that is.
\<close>

datatype rec_wait =
    At_apply edge_state
  | At_download edge_state plugin_state nat "plugin_state list"

datatype rec_at =
    At_unwant edge_state nat "nat list"
  | At_stop stop_reason edge_state plugin_state nat "plugin_state list"

datatype waiter = W_reconcile rec_at | W_rpc "nat list" | W_shutdown

datatype phase = Alive | Ending waiter | Ended

record host_proc =
  hp_owner :: nat
  hp_spec :: host_spec
  hp_phase :: phase

record host_entry =
  he_id :: string
  he_version :: "string option"
  he_sha256 :: "string option"
  he_spec :: "host_spec option"
  he_proc :: "nat option"
  he_wanted :: bool
  he_denied :: bool
  he_status :: string
  he_lastError :: "string option"
  he_retryAt :: "int option"
  he_caps :: caps
  he_config :: json
  he_throttled :: nat
  he_restarts :: nat
  he_buffer :: "json event_buffer"
  he_store :: plugin_store

record plugin_report =
  rp_id :: string
  rp_version :: "string option"
  rp_state :: string
  rp_restartCount :: nat
  rp_lastError :: "string option"
  rp_throttled :: nat
  rp_buffered :: nat

datatype host_msg =
    Msg_hello bool "string option" bool
  | Msg_event "json event_msg"
  | Msg_log string string string
  | Msg_result string "string + json"
  | Msg_status "plugin_report list"

datatype host_out =
    Ho_state edge_state
  | Ho_apply mqtt_cfg
  | Ho_download string string
  | Ho_stop nat
  | Ho_closeNet string
  | Ho_dropMqtt string
  | Ho_call nat string edge_call
  | Ho_toChild nat json
  | Ho_mqtt string caps string json
  | Ho_net string caps string json
  | Ho_send host_msg

record edge_host =
  ho_entries :: "host_entry list"
  ho_plugins :: "(string, nat) jsmap"
  ho_procs :: "host_proc list"
  ho_desired :: "edge_state option"
  ho_isolated :: "bool option"
  ho_fence :: boundary
  ho_mqttAvailable :: bool
  ho_reconciling :: bool
  ho_again :: bool
  ho_wait :: "rec_wait option"
  ho_statusPending :: bool
  ho_stateSeen :: bool
  ho_stopped :: bool
  ho_store :: package_store
  ho_files :: "(string, string) jsmap"
  ho_out :: "host_out list"

definition newHost :: "package_store \<Rightarrow> (string, string) jsmap \<Rightarrow> edge_host" where
  "newHost st files =
     \<lparr>ho_entries = [], ho_plugins = [], ho_procs = [], ho_desired = None, ho_isolated = None,
      ho_fence = \<lparr>bo_isolated = False, bo_active = False, bo_backend = None, bo_reason = Some ''not_checked''\<rparr>,
      ho_mqttAvailable = False, ho_reconciling = False, ho_again = False, ho_wait = None, ho_statusPending = False,
      ho_stateSeen = False, ho_stopped = True, ho_store = st, ho_files = files, ho_out = []\<rparr>"

text \<open>
  The world of an event: the clock, what checks a package, whether there is a local broker manager and whether MQTT is
  available, the outcome of unpacking, the counters and the state of a process, and whether the channel takes a message.
\<close>

record 'k host_world =
  hw_now :: int
  hw_platform :: platform
  hw_crypto :: "'k crypto"
  hw_gunzip :: "bytes \<Rightarrow> nat \<Rightarrow> bool + bytes"
  hw_keys :: "string list"
  hw_gatewayVersion :: string
  hw_localMqtt :: bool
  hw_mqttAvailable :: bool
  hw_extractError :: "string option"
  hw_counts :: "nat \<Rightarrow> nat \<times> nat"
  hw_procState :: "nat \<Rightarrow> string \<times> string option"
  hw_connected :: bool
  hw_sends :: "host_msg \<Rightarrow> bool"
  hw_store :: store_world

definition DOWNLOAD_RETRY_MS :: int where
  "DOWNLOAD_RETRY_MS = 60000"

definition host_emit :: "host_out list \<Rightarrow> edge_host \<Rightarrow> edge_host" where
  "host_emit es h = h\<lparr>ho_out := ho_out h @ es\<rparr>"

definition with_entry :: "nat \<Rightarrow> (host_entry \<Rightarrow> host_entry) \<Rightarrow> edge_host \<Rightarrow> edge_host" where
  "with_entry k f h = h\<lparr>ho_entries := (ho_entries h)[k := f (ho_entries h ! k)]\<rparr>"

definition with_proc :: "nat \<Rightarrow> (host_proc \<Rightarrow> host_proc) \<Rightarrow> edge_host \<Rightarrow> edge_host" where
  "with_proc k f h = h\<lparr>ho_procs := (ho_procs h)[k := f (ho_procs h ! k)]\<rparr>"

definition scheduleStatus :: "edge_host \<Rightarrow> edge_host" where
  "scheduleStatus h = h\<lparr>ho_statusPending := True\<rparr>"

text \<open>The MQTT of this mode: the gateway's in an isolated container, the local one, if there is one, otherwise.\<close>

definition host_mqtt :: "'k host_world \<Rightarrow> edge_host \<Rightarrow> bool" where
  "host_mqtt w h = (case ho_isolated h of None \<Rightarrow> False | Some True \<Rightarrow> True | Some False \<Rightarrow> hw_localMqtt w)"

definition host_send :: "'k host_world \<Rightarrow> host_msg \<Rightarrow> edge_host \<Rightarrow> edge_host" where
  "host_send w m h = (if hw_sends w m then host_emit [Ho_send m] h else h)"

definition newEntry :: "string \<Rightarrow> string option \<Rightarrow> host_entry" where
  "newEntry i file =
     \<lparr>he_id = i, he_version = None, he_sha256 = None, he_spec = None, he_proc = None, he_wanted = False, he_denied = False,
      he_status = ''stopped'', he_lastError = None, he_retryAt = None, he_caps = noCaps, he_config = JNull, he_throttled = 0,
      he_restarts = 0, he_buffer = newBuffer 1000 3600000, he_store = newPluginStore file\<rparr>"

definition host_entry_of :: "string \<Rightarrow> edge_host \<Rightarrow> nat \<times> edge_host" where
  "host_entry_of i h =
     (case map_of (ho_plugins h) i of
        Some k \<Rightarrow> (k, h)
      | None \<Rightarrow>
          (length (ho_entries h),
           h\<lparr>ho_entries := ho_entries h @ [newEntry i (map_of (ho_files h) i)], ho_plugins := mset_at i (length (ho_entries h)) (ho_plugins h)\<rparr>))"

section \<open>Stopping and starting processes\<close>

text \<open>\<open>stopProcess\<close> up to its \<open>await\<close>: the result says whether there is nothing to wait for.\<close>

definition stop_begin :: "'k host_world \<Rightarrow> waiter \<Rightarrow> nat \<Rightarrow> edge_host \<Rightarrow> bool \<times> edge_host" where
  "stop_begin w wt k h =
     (case he_proc (ho_entries h ! k) of
        None \<Rightarrow> (True, h)
      | Some q \<Rightarrow>
          case hw_counts w q of (restarts, dropped) \<Rightarrow>
            (False,
             host_emit [Ho_stop q]
               (with_proc q (\<lambda>p. p\<lparr>hp_phase := Ending wt\<rparr>)
                 (with_entry k (\<lambda>e. e\<lparr>he_restarts := he_restarts e + restarts, he_throttled := he_throttled e + dropped, he_proc := None\<rparr>) h))))"

text \<open>What \<open>stopProcess\<close> does after it, and the handler of \<open>exit\<close>: close the plugin's network and its subscriptions.\<close>

definition release :: "'k host_world \<Rightarrow> nat \<Rightarrow> edge_host \<Rightarrow> edge_host" where
  "release w k h =
     (let i = he_id (ho_entries h ! k)
      in host_emit ([Ho_closeNet i] @ (if host_mqtt w h then [Ho_dropMqtt i] else [])) h)"

definition deny :: "nat \<Rightarrow> string \<Rightarrow> edge_host \<Rightarrow> edge_host" where
  "deny k code h = with_entry k (\<lambda>e. e\<lparr>he_denied := True, he_status := ''denied'', he_lastError := Some code\<rparr>) h"

definition startProcess :: "nat \<Rightarrow> host_spec \<Rightarrow> edge_host \<Rightarrow> edge_host" where
  "startProcess k spec h =
     (let q = length (ho_procs h)
      in (with_entry k (\<lambda>e. e\<lparr>he_proc := Some q, he_status := ''starting'', he_lastError := None\<rparr>) h)
           \<lparr>ho_procs := ho_procs h @ [\<lparr>hp_owner = k, hp_spec = spec, hp_phase = Alive\<rparr>]\<rparr>)"

section \<open>Reconciling\<close>

text \<open>The end of \<open>ensurePlugin\<close> once the old process is gone, by the reason it was stopped for.\<close>

fun after_stop :: "'k host_world \<Rightarrow> stop_reason \<Rightarrow> nat \<Rightarrow> edge_host \<Rightarrow> edge_host" where
  "after_stop w (For_caps e) k h = deny k ''bad_caps'' h"
| "after_stop w (For_reject code) k h = deny k code h"
| "after_stop w For_unsigned k h = deny k ''unsigned'' h"
| "after_stop w (For_fence spec) k h =
     with_entry k (\<lambda>e. e\<lparr>he_spec := Some spec\<rparr>)
       (deny k (if ho_isolated h = Some True then ''network_isolation_inactive'' else ''network_fence_inactive'') h)"
| "after_stop w (For_change spec) k h =
     (let h1 = with_entry k (\<lambda>e. e\<lparr>he_spec := Some spec\<rparr>) h
      in case he_proc (ho_entries h1 ! k) of
           None \<Rightarrow> startProcess k spec h1
         | Some q \<Rightarrow>
             if he_status (ho_entries h1 ! k) = ''denied'' then with_entry k (\<lambda>e. e\<lparr>he_status := fst (hw_procState w q)\<rparr>) h1 else h1)"

definition stop_then :: "'k host_world \<Rightarrow> stop_reason \<Rightarrow> edge_state \<Rightarrow> plugin_state \<Rightarrow> nat \<Rightarrow> plugin_state list \<Rightarrow> edge_host \<Rightarrow> bool \<times> edge_host" where
  "stop_then w r st p k ps h =
     (case stop_begin w (W_reconcile (At_stop r st p k ps)) k h of
        (True, h1) \<Rightarrow> (True, after_stop w r k h1)
      | (False, h1) \<Rightarrow> (False, h1))"

text \<open>The part of \<open>ensurePlugin\<close> behind the installed package.\<close>

definition spec_of :: "plugin_state \<Rightarrow> package_info \<Rightarrow> host_spec" where
  "spec_of p inst =
     \<lparr>hs_id = ps_id p, hs_version = ps_version p, hs_entry = em_entry (pi_edge inst),
      hs_memoryMb = (case ps_memoryMb p of Some m \<Rightarrow> m | None \<Rightarrow> em_memoryMb (pi_edge inst))\<rparr>"

definition spec_changed :: "host_entry \<Rightarrow> plugin_state \<Rightarrow> host_spec \<Rightarrow> bool" where
  "spec_changed e p spec =
     (case he_spec e of
        None \<Rightarrow> True
      | Some old \<Rightarrow> hs_version old \<noteq> hs_version spec \<or> he_sha256 e \<noteq> Some (ps_sha256 p) \<or> hs_memoryMb old \<noteq> hs_memoryMb spec)"

definition ensure_installed ::
  "'k host_world \<Rightarrow> edge_state \<Rightarrow> plugin_state \<Rightarrow> nat \<Rightarrow> plugin_state list \<Rightarrow> package_info \<Rightarrow> edge_host \<Rightarrow> bool \<times> edge_host" where
  "ensure_installed w st p k ps inst h =
     (if \<not> acceptable (pi_signature inst) (es_allowUnsigned st) then stop_then w For_unsigned st p k ps h
      else let spec = spec_of p inst;
               changed = spec_changed (ho_entries h ! k) p spec;
               h1 = with_entry k (\<lambda>e. e\<lparr>he_caps := intersectCaps (em_capabilities (pi_edge inst)) (ps_caps p),
                                       he_version := Some (ps_version p), he_sha256 := Some (ps_sha256 p)\<rparr>) h
           in if \<not> bo_active (ho_fence h1) then stop_then w (For_fence spec) st p k ps h1
              else if changed \<and> he_proc (ho_entries h1 ! k) \<noteq> None then stop_then w (For_change spec) st p k ps h1
              else (True, after_stop w (For_change spec) k h1))"

definition ensure_begin :: "'k host_world \<Rightarrow> edge_state \<Rightarrow> plugin_state \<Rightarrow> plugin_state list \<Rightarrow> edge_host \<Rightarrow> bool \<times> edge_host" where
  "ensure_begin w st p ps h =
     (case host_entry_of (ps_id p) h of (k, h0) \<Rightarrow>
        let h1 = with_entry k (\<lambda>e. e\<lparr>he_wanted := True, he_denied := False\<rparr>) h0; e = ho_entries h1 ! k
        in case ps_capsError p of
             Some err \<Rightarrow> stop_then w (For_caps err) st p k ps h1
           | None \<Rightarrow>
               (case store_installed (ps_id p) (ps_version p) (ps_sha256 p) (ho_store h1) of
                  Some inst \<Rightarrow> ensure_installed w st p k ps inst h1
                | None \<Rightarrow>
                    if (case he_retryAt e of None \<Rightarrow> False | Some t \<Rightarrow> hw_now w < t) \<and> he_version e = Some (ps_version p) \<and> he_sha256 e = Some (ps_sha256 p)
                    then (True, h1)
                    else (False,
                          host_emit [Ho_download (ps_id p) (ps_version p)]
                            (scheduleStatus (with_entry k (\<lambda>e. e\<lparr>he_status := (if he_proc e \<noteq> None then ''update_pending'' else ''starting'')\<rparr>) h1))
                              \<lparr>ho_wait := Some (At_download st p k ps)\<rparr>)))"

definition rec_cleanup :: "edge_state \<Rightarrow> edge_host \<Rightarrow> edge_host" where
  "rec_cleanup st h =
     h\<lparr>ho_plugins := filter (\<lambda>(i, k). he_wanted (ho_entries h ! k) \<or> he_proc (ho_entries h ! k) \<noteq> None \<or> list_ex (\<lambda>p. ps_id p = i) (es_plugins st))
         (ho_plugins h)\<rparr>"

fun rec_ensure :: "'k host_world \<Rightarrow> edge_state \<Rightarrow> plugin_state list \<Rightarrow> edge_host \<Rightarrow> bool \<times> edge_host" where
  "rec_ensure w st [] h = (True, rec_cleanup st h)"
| "rec_ensure w st (p # ps) h =
     (if ho_stopped h then (True, h)
      else case ensure_begin w st p ps h of
             (True, h1) \<Rightarrow> rec_ensure w st ps h1
           | (False, h1) \<Rightarrow> (False, h1))"

definition wanted_plugins :: "edge_state \<Rightarrow> plugin_state list" where
  "wanted_plugins st = (if es_edgeEnabled st then filter ps_enabled (es_plugins st) else [])"

definition unwanted :: "nat \<Rightarrow> edge_host \<Rightarrow> edge_host" where
  "unwanted k h = with_entry k (\<lambda>e. e\<lparr>he_status := ''stopped'', he_denied := False, he_lastError := None\<rparr>) h"

fun rec_unwant :: "'k host_world \<Rightarrow> edge_state \<Rightarrow> nat list \<Rightarrow> edge_host \<Rightarrow> bool \<times> edge_host" where
  "rec_unwant w st [] h =
     rec_ensure w st (wanted_plugins st)
       (if es_edgeEnabled st then h\<lparr>ho_store := store_pruneExcept (map ps_id (es_plugins st)) (ho_store h)\<rparr> else h)"
| "rec_unwant w st (k # ks) h =
     (if he_id (ho_entries h ! k) \<in> set (map ps_id (wanted_plugins st)) then rec_unwant w st ks h
      else case stop_begin w (W_reconcile (At_unwant st k ks)) k (with_entry k (\<lambda>e. e\<lparr>he_wanted := False\<rparr>) h) of
             (True, h1) \<Rightarrow> rec_unwant w st ks (unwanted k h1)
           | (False, h1) \<Rightarrow> (False, h1))"

definition rec_main :: "'k host_world \<Rightarrow> edge_state \<Rightarrow> edge_host \<Rightarrow> bool \<times> edge_host" where
  "rec_main w st h = rec_unwant w st (map snd (ho_plugins h)) h"

definition rec_begin :: "'k host_world \<Rightarrow> edge_host \<Rightarrow> bool \<times> edge_host" where
  "rec_begin w h =
     (case ho_desired h of
        None \<Rightarrow> (True, h)
      | Some st \<Rightarrow>
          if host_mqtt w h then
            (False, host_emit [Ho_apply (if es_edgeEnabled st then es_mqtt st else mqttOff)] (h\<lparr>ho_wait := Some (At_apply st)\<rparr>))
          else rec_main w st h)"

text \<open>
  The loop of \<open>requestReconcile\<close>: when a pass is over and another was asked for meanwhile, it runs once more. Nothing
  can ask for one while a pass runs without waiting, so a pass that ends at once is the last.
\<close>

definition rec_over :: "edge_host \<Rightarrow> edge_host" where
  "rec_over h = scheduleStatus (h\<lparr>ho_reconciling := False\<rparr>)"

definition rec_loop :: "'k host_world \<Rightarrow> bool \<times> edge_host \<Rightarrow> edge_host" where
  "rec_loop w r =
     (case r of (done1, h) \<Rightarrow>
        if \<not> done1 then h
        else if ho_again h \<and> \<not> ho_stopped h then
          (case rec_begin w (h\<lparr>ho_again := False\<rparr>) of (done2, h2) \<Rightarrow> if done2 then rec_over h2 else h2)
        else rec_over h)"

definition requestReconcile :: "'k host_world \<Rightarrow> edge_host \<Rightarrow> edge_host" where
  "requestReconcile w h =
     (if ho_reconciling h then h\<lparr>ho_again := True\<rparr>
      else rec_loop w (rec_begin w (h\<lparr>ho_reconciling := True, ho_again := False\<rparr>)))"

section \<open>What ends a wait\<close>

definition rejected_code :: "rejected \<Rightarrow> string" where
  "rejected_code r =
     (case r of
        Sha256_mismatch \<Rightarrow> ''sha256_mismatch''
      | Bad_package e \<Rightarrow> ''bad_package''
      | Signature_invalid \<Rightarrow> ''signature_invalid''
      | Unsigned \<Rightarrow> ''unsigned''
      | Bad_manifest_file \<Rightarrow> ''bad_manifest''
      | Rejected_manifest e \<Rightarrow> if e = Gateway_too_old then ''gateway_too_old'' else ''bad_manifest''
      | Type_error \<Rightarrow> ''edge_error'')"

definition package_failed :: "'k host_world \<Rightarrow> edge_state \<Rightarrow> plugin_state \<Rightarrow> nat \<Rightarrow> plugin_state list \<Rightarrow> string \<Rightarrow> edge_host \<Rightarrow> bool \<times> edge_host" where
  "package_failed w st p k ps code h =
     (let h1 = with_entry k (\<lambda>e. e\<lparr>he_version := Some (ps_version p), he_sha256 := Some (ps_sha256 p)\<rparr>) h
      in if code \<in> {''download_failed'', ''not_found''} then
           (True, with_entry k (\<lambda>e. let e1 = e\<lparr>he_retryAt := Some (hw_now w + DOWNLOAD_RETRY_MS)\<rparr>
                                    in if he_proc e = None then e1\<lparr>he_status := ''stopped'', he_lastError := Some code\<rparr> else e1) h1)
         else stop_then w (For_reject code) st p k ps h1)"

definition downloaded :: "'k host_world \<Rightarrow> string + bytes \<Rightarrow> edge_state \<Rightarrow> plugin_state \<Rightarrow> nat \<Rightarrow> plugin_state list \<Rightarrow> edge_host \<Rightarrow> bool \<times> edge_host" where
  "downloaded w r st p k ps h =
     (case r of
        Inl code \<Rightarrow> package_failed w st p k ps code h
      | Inr buf \<Rightarrow>
          (case inspect (hw_platform w) (hw_crypto w) (hw_gunzip w) (hw_keys w) (ps_id p) (ps_version p) (ps_sha256 p) (es_allowUnsigned st)
                  (hw_gatewayVersion w) buf of
             Inl rj \<Rightarrow> package_failed w st p k ps (rejected_code rj) h
           | Inr c \<Rightarrow>
               (case hw_extractError w of
                  Some code \<Rightarrow> package_failed w st p k ps code h
                | None \<Rightarrow>
                    ensure_installed w st p k ps (package_info_of (ps_sha256 p) c)
                      (with_entry k (\<lambda>e. e\<lparr>he_retryAt := None\<rparr>) (h\<lparr>ho_store := store_extract (ps_id p) (ps_version p) (ps_sha256 p) c (ho_store h)\<rparr>)))))"

text \<open>A pass goes on with the next plugin.\<close>

definition rec_next :: "'k host_world \<Rightarrow> edge_state \<Rightarrow> plugin_state list \<Rightarrow> bool \<times> edge_host \<Rightarrow> edge_host" where
  "rec_next w st ps r = rec_loop w (case r of (True, h) \<Rightarrow> rec_ensure w st ps h | (False, h) \<Rightarrow> (False, h))"

definition on_applied :: "'k host_world \<Rightarrow> edge_host \<Rightarrow> edge_host" where
  "on_applied w h = (case ho_wait h of Some (At_apply st) \<Rightarrow> rec_loop w (rec_main w st (h\<lparr>ho_wait := None\<rparr>)) | _ \<Rightarrow> h)"

definition on_downloaded :: "'k host_world \<Rightarrow> string + bytes \<Rightarrow> edge_host \<Rightarrow> edge_host" where
  "on_downloaded w r h =
     (case ho_wait h of
        Some (At_download st p k ps) \<Rightarrow> rec_next w st ps (downloaded w r st p k ps (h\<lparr>ho_wait := None\<rparr>))
      | _ \<Rightarrow> h)"

text \<open>\<open>onRpcOpen\<close> stops the running plugins one after the other, then asks for a pass.\<close>

fun rpc_stop_next :: "'k host_world \<Rightarrow> nat list \<Rightarrow> edge_host \<Rightarrow> edge_host" where
  "rpc_stop_next w [] h = requestReconcile w h"
| "rpc_stop_next w (k # ks) h =
     (case stop_begin w (W_rpc ks) k h of (True, h1) \<Rightarrow> rpc_stop_next w ks h1 | (False, h1) \<Rightarrow> h1)"

definition onRpcOpen :: "'k host_world \<Rightarrow> nat \<Rightarrow> edge_host \<Rightarrow> edge_host" where
  "onRpcOpen w session h =
     (if session \<le> 1 then h
      else let running = filter (\<lambda>k. he_proc (ho_entries h ! k) \<noteq> None) (map snd (ho_plugins h))
           in if running = [] then h else rpc_stop_next w running h)"

definition resume :: "'k host_world \<Rightarrow> waiter \<Rightarrow> edge_host \<Rightarrow> edge_host" where
  "resume w wt h =
     (case wt of
        W_reconcile (At_unwant st k ks) \<Rightarrow> rec_loop w (rec_unwant w st ks (unwanted k h))
      | W_reconcile (At_stop r st p k ps) \<Rightarrow> rec_next w st ps (True, after_stop w r k h)
      | W_rpc ks \<Rightarrow> rpc_stop_next w ks h
      | W_shutdown \<Rightarrow> h)"

text \<open>\<open>proc.stop()\<close> is settled.\<close>

definition on_stopped :: "'k host_world \<Rightarrow> nat \<Rightarrow> edge_host \<Rightarrow> edge_host" where
  "on_stopped w q h =
     (if length (ho_procs h) \<le> q then h
      else case hp_phase (ho_procs h ! q) of
             Ending wt \<Rightarrow> resume w wt (release w (hp_owner (ho_procs h ! q)) (with_proc q (\<lambda>p. p\<lparr>hp_phase := Ended\<rparr>) h))
           | _ \<Rightarrow> h)"

section \<open>The other operations\<close>

definition checkFenceNow :: "boundary \<Rightarrow> edge_host \<Rightarrow> edge_host" where
  "checkFenceNow f h =
     (let mode = bo_isolated f;
          known = (case ho_isolated h of None \<Rightarrow> mode | Some m \<Rightarrow> m);
          f1 = (if known = mode then f
                else \<lparr>bo_isolated = known, bo_active = False, bo_backend = None,
                      bo_reason = Some (''mode_changed_'' @ (if mode then ''isolated'' else ''fence''))\<rparr>)
      in h\<lparr>ho_isolated := Some known,
           ho_fence := \<lparr>bo_isolated = known, bo_active = bo_active f1, bo_backend = bo_backend f1,
                        bo_reason = (if bo_active f1 then None else Some (case bo_reason f1 of Some r \<Rightarrow> r | None \<Rightarrow> ''inactive''))\<rparr>\<rparr>)"

definition hasRetry :: "'k host_world \<Rightarrow> edge_host \<Rightarrow> bool" where
  "hasRetry w h = list_ex (\<lambda>(i, k). case he_retryAt (ho_entries h ! k) of None \<Rightarrow> False | Some t \<Rightarrow> t \<le> hw_now w) (ho_plugins h)"

text \<open>\<open>tick\<close> with the boundary it finds; \<open>was\<close> is the state of the fence before the check began.\<close>

definition host_tick :: "'k host_world \<Rightarrow> bool \<Rightarrow> boundary \<Rightarrow> edge_host \<Rightarrow> edge_host" where
  "host_tick w was f h =
     (let h1 = checkFenceNow f h
      in if was \<noteq> bo_active (ho_fence h1) \<or> hasRetry w h1 then requestReconcile w h1 else h1)"

definition fenceView :: "edge_host \<Rightarrow> bool \<times> string option" where
  "fenceView h = (bo_active (ho_fence h), if ho_isolated h = Some True then Some ''isolated'' else bo_backend (ho_fence h))"

definition hello :: "'k host_world \<Rightarrow> edge_host \<Rightarrow> host_msg" where
  "hello w h = Msg_hello (fst (fenceView h)) (snd (fenceView h)) (host_mqtt w h \<and> hw_mqttAvailable w)"

definition onMqttChange :: "'k host_world \<Rightarrow> edge_host \<Rightarrow> edge_host" where
  "onMqttChange w h =
     (let avail = (host_mqtt w h \<and> hw_mqttAvailable w);
          h1 = (if avail \<noteq> ho_mqttAvailable h then
                  (let h2 = h\<lparr>ho_mqttAvailable := avail\<rparr> in if hw_connected w then host_send w (hello w h2) h2 else h2)
                else h)
      in scheduleStatus h1)"

fun resend :: "'k host_world \<Rightarrow> nat list \<Rightarrow> edge_host \<Rightarrow> edge_host" where
  "resend w [] h = h"
| "resend w (k # ks) h =
     (case pending (hw_now w) (he_buffer (ho_entries h ! k)) of
        (msgs, b) \<Rightarrow> resend w ks (foldl (\<lambda>h m. host_send w (Msg_event m) h) (with_entry k (\<lambda>e. e\<lparr>he_buffer := b\<rparr>) h) msgs))"

definition resendEvents :: "'k host_world \<Rightarrow> edge_host \<Rightarrow> edge_host" where
  "resendEvents w h = resend w (map snd (ho_plugins h)) h"

definition reply :: "'k host_world \<Rightarrow> string \<Rightarrow> string + json \<Rightarrow> edge_host \<Rightarrow> edge_host" where
  "reply w i r h =
     (if hw_sends w (Msg_result i r) then host_emit [Ho_send (Msg_result i r)] h
      else case r of Inr v \<Rightarrow> host_send w (Msg_result i (Inl ''too_large'')) h | Inl e \<Rightarrow> h)"

definition onCall :: "'k host_world \<Rightarrow> json \<Rightarrow> edge_host \<Rightarrow> edge_host" where
  "onCall w m h =
     (case parseCall m of
        None \<Rightarrow>
          (case field (members m) ''id'' of
             JStr i \<Rightarrow> if length i \<le> 64 then host_send w (Msg_result i (Inl ''bad_request'')) h else h
           | _ \<Rightarrow> h)
      | Some c \<Rightarrow>
          (case map_of (ho_plugins h) (ec_plugin c) of
             None \<Rightarrow> reply w (ec_id c) (Inl ''not_enabled'') h
           | Some k \<Rightarrow>
               let e = ho_entries h ! k
               in if \<not> he_wanted e then reply w (ec_id c) (Inl ''not_enabled'') h
                  else if he_denied e then reply w (ec_id c) (Inl ''denied'') h
                  else case he_proc e of
                         None \<Rightarrow> reply w (ec_id c) (Inl ''not_running'') h
                       | Some q \<Rightarrow> host_emit [Ho_call q (ec_id c) c] h))"

definition host_onMessage :: "'k host_world \<Rightarrow> json \<Rightarrow> edge_host \<Rightarrow> edge_host" where
  "host_onMessage w m h =
     (let ms = members m; entry = (case field ms ''plugin'' of JStr i \<Rightarrow> map_of (ho_plugins h) i | _ \<Rightarrow> None)
      in case field ms ''t'' of
           JStr t \<Rightarrow>
             if t = ''state'' then
               (case parseState m of
                  None \<Rightarrow> h
                | Some st \<Rightarrow>
                    let h1 = host_emit [Ho_state st] (h\<lparr>ho_desired := Some st\<rparr>);
                        h2 = (if ho_stateSeen h1 then h1 else resendEvents w (h1\<lparr>ho_stateSeen := True\<rparr>))
                    in requestReconcile w h2)
             else if t = ''ack'' then
               (case (entry, field ms ''seq'') of
                  (Some k, JNum sq) \<Rightarrow> with_entry k (\<lambda>e. e\<lparr>he_buffer := snd (ack (Some \<lfloor>sq\<rfloor>) (he_buffer e))\<rparr>) h
                | _ \<Rightarrow> h)
             else if t = ''call'' then onCall w m h
             else if t = ''configure'' then
               (case entry of
                  None \<Rightarrow> h
                | Some k \<Rightarrow>
                    let v = (if field ms ''data'' = JUndef then JNull else field ms ''data'');
                        h1 = with_entry k (\<lambda>e. e\<lparr>he_config := v\<rparr>) h
                    in case he_proc (ho_entries h1 ! k) of None \<Rightarrow> h1 | Some q \<Rightarrow> host_emit [Ho_toChild q v] h1)
             else h
         | _ \<Rightarrow> h)"

text \<open>Events of the process \<open>q\<close>, whose handlers hold the entry it was started for.\<close>

definition on_procState :: "'k host_world \<Rightarrow> nat \<Rightarrow> string \<Rightarrow> edge_host \<Rightarrow> edge_host" where
  "on_procState w q s h =
     scheduleStatus (with_entry (hp_owner (ho_procs h ! q))
       (\<lambda>e. let e1 = e\<lparr>he_status := (if s = ''stopping'' then ''stopped'' else s)\<rparr>
            in if s = ''crashed'' then e1\<lparr>he_lastError := snd (hw_procState w q)\<rparr> else e1) h)"

definition on_procStarted :: "nat \<Rightarrow> edge_host \<Rightarrow> edge_host" where
  "on_procStarted q h =
     (let e = ho_entries h ! hp_owner (ho_procs h ! q)
      in case he_spec e of None \<Rightarrow> h | Some spec \<Rightarrow> h\<lparr>ho_store := store_prune (he_id e) (hs_version spec) (ho_store h)\<rparr>)"

definition on_procEvent :: "'k host_world \<Rightarrow> nat \<Rightarrow> string \<Rightarrow> json \<Rightarrow> string \<Rightarrow> edge_host \<Rightarrow> edge_host" where
  "on_procEvent w q name data stamp h =
     (let k = hp_owner (ho_procs h ! q); e = ho_entries h ! k; now = hw_now w
      in case push now now now (he_id e) name data stamp (he_buffer e) of
           (msg, b) \<Rightarrow> host_send w (Msg_event msg) (with_entry k (\<lambda>e. e\<lparr>he_buffer := b\<rparr>) h))"

definition on_procLog :: "'k host_world \<Rightarrow> nat \<Rightarrow> string \<Rightarrow> string \<Rightarrow> edge_host \<Rightarrow> edge_host" where
  "on_procLog w q level line h = host_send w (Msg_log (he_id (ho_entries h ! hp_owner (ho_procs h ! q))) level line) h"

definition on_push :: "string \<Rightarrow> json \<Rightarrow> edge_host \<Rightarrow> edge_host" where
  "on_push i msg h =
     (case map_of (ho_plugins h) i of
        None \<Rightarrow> h
      | Some k \<Rightarrow> (case he_proc (ho_entries h ! k) of None \<Rightarrow> h | Some q \<Rightarrow> host_emit [Ho_toChild q msg] h))"

text \<open>\<open>hostCall\<close>: a request of a plugin's process. What goes to the broker or the gateway is answered there.\<close>

datatype host_answer = Answer json | Forwarded

definition store_answer :: "(store_error + json) \<times> plugin_store \<Rightarrow> nat \<Rightarrow> edge_host \<Rightarrow> (string + host_answer) \<times> edge_host" where
  "store_answer r k h =
     (case r of (x, s) \<Rightarrow>
        (case x of
           Inr v \<Rightarrow> Inr (Answer v)
         | Inl Bad_key \<Rightarrow> Inl ''bad_key''
         | Inl Too_large \<Rightarrow> Inl ''too_large''
         | Inl Write_failed \<Rightarrow> Inl ''edge_error'',
         (with_entry k (\<lambda>e. e\<lparr>he_store := s\<rparr>) h)
           \<lparr>ho_files := (case st_file s of None \<Rightarrow> ho_files h | Some t \<Rightarrow> mset_at (he_id (ho_entries h ! k)) t (ho_files h))\<rparr>))"

definition hostCall :: "'k host_world \<Rightarrow> nat \<Rightarrow> string \<Rightarrow> json \<Rightarrow> edge_host \<Rightarrow> (string + host_answer) \<times> edge_host" where
  "hostCall w k api args h =
     (let e = ho_entries h ! k; a = members args; unit = map_prod (map_sum id (\<lambda>u. JObj [])) id
      in if \<not> he_wanted e \<or> he_denied e then (Inl ''not_enabled'', h)
         else if api = ''store.get'' then store_answer (store_get (hw_store w) (field a ''key'') (he_store e)) k h
         else if api = ''store.set'' then store_answer (unit (store_set (hw_store w) (field a ''key'') (field a ''value'') (he_store e))) k h
         else if api = ''store.delete'' then store_answer (unit (store_delete (hw_store w) (field a ''key'') (he_store e))) k h
         else if prefix ''mqtt.'' api then
           (if \<not> host_mqtt w h then (Inl ''not_enabled'', h) else (Inr Forwarded, host_emit [Ho_mqtt (he_id e) (he_caps e) api args] h))
         else if api \<notin> set NET_APIS then (Inl ''unknown_api'', h)
         else (Inr Forwarded, host_emit [Ho_net (he_id e) (he_caps e) api args] h))"

definition pluginStatus :: "'k host_world \<Rightarrow> host_entry \<Rightarrow> plugin_report" where
  "pluginStatus w e =
     \<lparr>rp_id = he_id e, rp_version = he_version e, rp_state = he_status e,
      rp_restartCount = he_restarts e + (case he_proc e of None \<Rightarrow> 0 | Some q \<Rightarrow> fst (hw_counts w q)),
      rp_lastError = (case he_lastError e of Some x \<Rightarrow> Some x | None \<Rightarrow> Option.bind (he_proc e) (\<lambda>q. snd (hw_procState w q))),
      rp_throttled = he_throttled e + (case he_proc e of None \<Rightarrow> 0 | Some q \<Rightarrow> snd (hw_counts w q)),
      rp_buffered = length (eb_items (he_buffer e))\<rparr>"

definition sendStatus :: "'k host_world \<Rightarrow> edge_host \<Rightarrow> edge_host" where
  "sendStatus w h =
     (let ks = filter (\<lambda>k. he_wanted (ho_entries h ! k) \<or> he_proc (ho_entries h ! k) \<noteq> None) (map snd (ho_plugins h));
          msg = Msg_status (map (\<lambda>k. pluginStatus w (ho_entries h ! k)) ks);
          h1 = foldl (\<lambda>h k. with_entry k (\<lambda>e. e\<lparr>he_throttled := 0\<rparr>) h) (h\<lparr>ho_statusPending := False\<rparr>) ks
      in if hw_connected w then host_send w msg h1 else h1)"

definition host_stop :: "'k host_world \<Rightarrow> edge_host \<Rightarrow> edge_host" where
  "host_stop w h =
     foldl (\<lambda>h k. snd (stop_begin w W_shutdown k h)) (h\<lparr>ho_stopped := True, ho_statusPending := False\<rparr>) (map snd (ho_plugins h))"

section \<open>Events\<close>

datatype host_event =
    Ev_start boundary
  | Ev_tick bool boundary
  | Ev_channelOpen
  | Ev_channelClosed
  | Ev_message json
  | Ev_applied
  | Ev_downloaded "string + bytes"
  | Ev_stopped nat
  | Ev_exit nat
  | Ev_procState nat string
  | Ev_procStarted nat
  | Ev_procEvent nat string json string
  | Ev_procLog nat string string
  | Ev_hostCall nat string json
  | Ev_callDone string "string + json"
  | Ev_rpcOpen nat
  | Ev_push string json
  | Ev_mqttChange
  | Ev_status
  | Ev_stop

fun host_step :: "'k host_world \<times> host_event \<Rightarrow> edge_host \<Rightarrow> edge_host" where
  "host_step (w, Ev_start f) h = checkFenceNow f (h\<lparr>ho_stopped := False\<rparr>)"
| "host_step (w, Ev_tick was f) h = host_tick w was f h"
| "host_step (w, Ev_channelOpen) h = host_send w (hello w h) h"
| "host_step (w, Ev_channelClosed) h = scheduleStatus (h\<lparr>ho_stateSeen := False\<rparr>)"
| "host_step (w, Ev_message m) h = host_onMessage w m h"
| "host_step (w, Ev_applied) h = on_applied w h"
| "host_step (w, Ev_downloaded r) h = on_downloaded w r h"
| "host_step (w, Ev_stopped q) h = on_stopped w q h"
| "host_step (w, Ev_exit q) h = (if q < length (ho_procs h) then release w (hp_owner (ho_procs h ! q)) h else h)"
| "host_step (w, Ev_procState q s) h = (if q < length (ho_procs h) then on_procState w q s h else h)"
| "host_step (w, Ev_procStarted q) h = (if q < length (ho_procs h) then on_procStarted q h else h)"
| "host_step (w, Ev_procEvent q n d t) h = (if q < length (ho_procs h) then on_procEvent w q n d t h else h)"
| "host_step (w, Ev_procLog q l s) h = (if q < length (ho_procs h) then on_procLog w q l s h else h)"
| "host_step (w, Ev_hostCall q api args) h =
     (if q < length (ho_procs h) then snd (hostCall w (hp_owner (ho_procs h ! q)) api args h) else h)"
| "host_step (w, Ev_callDone i r) h = reply w i r h"
| "host_step (w, Ev_rpcOpen n) h = onRpcOpen w n h"
| "host_step (w, Ev_push i m) h = on_push i m h"
| "host_step (w, Ev_mqttChange) h = onMqttChange w h"
| "host_step (w, Ev_status) h = sendStatus w h"
| "host_step (w, Ev_stop) h = host_stop w h"

end
