(* ===== verification/Edge_Host_Safe.thy ===== *)
theory Edge_Host_Safe
  imports Edge_Host
begin

text \<open>
  What the plugin host keeps over every sequence of events: one pass of reconciling at a time, one running process per
  entry, and only processes of packages that were checked, for plugins that the server enabled, behind the network boundary.
\<close>

section \<open>The invariant\<close>



definition taken :: "edge_host \<Rightarrow> edge_state \<Rightarrow> bool" where
  "taken h st = (Ho_state st \<in> set (ho_out h))"



definition owned :: "edge_host \<Rightarrow> nat \<Rightarrow> nat \<Rightarrow> bool" where
  "owned h k q =
     (q < length (ho_procs h) \<and> hp_owner (ho_procs h ! q) = k \<and> hp_phase (ho_procs h ! q) = Alive
      \<and> (he_id (ho_entries h ! k), k) \<in> set (ho_plugins h))"







text \<open>The waiting parts of a pass.\<close>

fun rec_part :: "phase \<Rightarrow> (rec_wait + rec_at) list" where
  "rec_part (Ending (W_reconcile a)) = [Inr a]"
| "rec_part _ = []"

definition waits :: "edge_host \<Rightarrow> (rec_wait + rec_at) list" where
  "waits h = (case ho_wait h of None \<Rightarrow> [] | Some a \<Rightarrow> [Inl a]) @ concat (map (\<lambda>p. rec_part (hp_phase p)) (ho_procs h))"




section \<open>Frames\<close>

definition extends :: "edge_host \<Rightarrow> edge_host \<Rightarrow> bool" where
  "extends h h' =
     (length (ho_entries h) \<le> length (ho_entries h') \<and> (\<forall>k < length (ho_entries h). he_id (ho_entries h' ! k) = he_id (ho_entries h ! k))
      \<and> set (ho_plugins h) \<subseteq> set (ho_plugins h') \<and> set (ho_out h) \<subseteq> set (ho_out h'))"

lemma extends_refl [simp]: "extends h h"
  by (simp add: extends_def)





lemma emit_frame [simp]:
  "ho_entries (host_emit es h) = ho_entries h" "ho_plugins (host_emit es h) = ho_plugins h" "ho_procs (host_emit es h) = ho_procs h"
  "ho_wait (host_emit es h) = ho_wait h" "ho_store (host_emit es h) = ho_store h" "ho_desired (host_emit es h) = ho_desired h"
  "ho_reconciling (host_emit es h) = ho_reconciling h" "ho_fence (host_emit es h) = ho_fence h" "ho_stopped (host_emit es h) = ho_stopped h"
  "ho_out (host_emit es h) = ho_out h @ es" "ho_again (host_emit es h) = ho_again h" "ho_isolated (host_emit es h) = ho_isolated h"
  by (simp_all add: host_emit_def)

lemma entry_frame [simp]:
  "ho_plugins (with_entry k f h) = ho_plugins h" "ho_procs (with_entry k f h) = ho_procs h"
  "ho_wait (with_entry k f h) = ho_wait h" "ho_store (with_entry k f h) = ho_store h" "ho_desired (with_entry k f h) = ho_desired h"
  "ho_reconciling (with_entry k f h) = ho_reconciling h" "ho_fence (with_entry k f h) = ho_fence h" "ho_stopped (with_entry k f h) = ho_stopped h"
  "ho_out (with_entry k f h) = ho_out h" "ho_again (with_entry k f h) = ho_again h" "length (ho_entries (with_entry k f h)) = length (ho_entries h)"
  "ho_isolated (with_entry k f h) = ho_isolated h"
  by (simp_all add: with_entry_def)


lemma waits_emit [simp]: "waits (host_emit es h) = waits h"
  by (simp add: waits_def)

lemma waits_entry [simp]: "waits (with_entry k f h) = waits h"
  by (simp add: waits_def)

text \<open>A step that leaves everything the invariant speaks of.\<close>

definition similar :: "edge_host \<Rightarrow> edge_host \<Rightarrow> bool" where
  "similar h h' =
     (length (ho_entries h') = length (ho_entries h)
      \<and> (\<forall>k < length (ho_entries h). he_id (ho_entries h' ! k) = he_id (ho_entries h ! k) \<and> he_proc (ho_entries h' ! k) = he_proc (ho_entries h ! k)
           \<and> he_caps (ho_entries h' ! k) = he_caps (ho_entries h ! k))
      \<and> ho_plugins h' = ho_plugins h \<and> ho_procs h' = ho_procs h \<and> ho_store h' = ho_store h \<and> ho_desired h' = ho_desired h
      \<and> set (ho_out h) \<subseteq> set (ho_out h') \<and> ho_wait h' = ho_wait h)"










lemma taken_frame [simp]: "taken (h\<lparr>ho_store := s\<rparr>) = taken h" "taken (h\<lparr>ho_wait := a\<rparr>) = taken h"
  by (simp_all add: taken_def fun_eq_iff)

lemma owned_frame [simp]: "owned (h\<lparr>ho_store := s\<rparr>) = owned h" "owned (h\<lparr>ho_wait := a\<rparr>) = owned h"
  by (simp_all add: owned_def fun_eq_iff)




lemma similar_refl [simp]: "similar h h"
  by (simp add: similar_def)



lemma similar_update [simp]:
  "similar h (h\<lparr>ho_again := a\<rparr>)" "similar h (h\<lparr>ho_statusPending := a\<rparr>)" "similar h (h\<lparr>ho_stateSeen := a\<rparr>)" "similar h (h\<lparr>ho_stopped := a\<rparr>)"
  "similar h (h\<lparr>ho_reconciling := a\<rparr>)" "similar h (h\<lparr>ho_mqttAvailable := a\<rparr>)" "similar h (h\<lparr>ho_isolated := m, ho_fence := f\<rparr>)"
  "similar h (h\<lparr>ho_files := fs\<rparr>)"
  by (simp_all add: similar_def)

section \<open>Processes\<close>

lemma proc_frame [simp]:
  "ho_entries (with_proc k f h) = ho_entries h" "ho_plugins (with_proc k f h) = ho_plugins h" "ho_out (with_proc k f h) = ho_out h"
  "ho_wait (with_proc k f h) = ho_wait h" "ho_store (with_proc k f h) = ho_store h" "ho_desired (with_proc k f h) = ho_desired h"
  "ho_reconciling (with_proc k f h) = ho_reconciling h" "ho_fence (with_proc k f h) = ho_fence h" "ho_stopped (with_proc k f h) = ho_stopped h"
  "length (ho_procs (with_proc k f h)) = length (ho_procs h)"
  by (simp_all add: with_proc_def)
















section \<open>The parts of a pass\<close>












lemma deny_frame [simp]: "ho_reconciling (deny k code h) = ho_reconciling h" "ho_fence (deny k code h) = ho_fence h" "ho_procs (deny k code h) = ho_procs h"
  by (simp_all add: deny_def)













section \<open>A pass\<close>










section \<open>The steps\<close>






lemma release_frame [simp]: "ho_reconciling (release w k h) = ho_reconciling h" "ho_fence (release w k h) = ho_fence h"
  by (simp_all add: release_def Let_def)


































section \<open>What runs\<close>


definition sample_host_world :: "unit host_world" where
  "sample_host_world =
     \<lparr>hw_now = 0, hw_platform = plain_platform, hw_crypto = sample_crypto, hw_gunzip = plain_gunzip, hw_keys = [sample_key], hw_gatewayVersion = ''2.0.0'',
      hw_localMqtt = False, hw_mqttAvailable = False, hw_extractError = None, hw_counts = \<lambda>q. (0, 0), hw_procState = \<lambda>q. (''running'', None),
      hw_connected = True, hw_sends = \<lambda>m. True, hw_store = \<lparr>sw_json = \<lambda>j. [], sw_parse = \<lambda>s. None, sw_bytes = length, sw_writes = True\<rparr>\<rparr>"

definition sample_boundary :: "bool \<Rightarrow> boundary" where
  "sample_boundary b = \<lparr>bo_isolated = False, bo_active = b, bo_backend = Some ''nft'', bo_reason = None\<rparr>"

definition sample_host_state :: "string \<Rightarrow> rat \<Rightarrow> json" where
  "sample_host_state version mb =
     JObj [(''t'', JStr ''state''), (''edgeEnabled'', JBool True),
       (''plugins'', JArr [JObj [(''id'', JStr ''hue''), (''version'', JStr version), (''sha256'', JStr (replicate 64 CHR ''0'')), (''memoryMb'', JNum mb),
          (''caps'', JObj [(''tcp'', JObj [(''lan'', JBool True)])])]])]"


section \<open>What the waits let through\<close>

definition sample_info :: package_info where
  "sample_info = \<lparr>pi_sha256 = replicate 64 CHR ''0'', pi_signature = Trusted,
     pi_edge = \<lparr>em_id = JStr ''hue'', em_version = JStr ''1.0.0'', em_entry = ''edge/main.js'', em_entryDir = ''edge'', em_minGateway = JUndef, em_memoryMb = 48, em_capabilities = noCaps\<rparr>\<rparr>"

definition host_run :: "package_store \<Rightarrow> host_event list \<Rightarrow> edge_host" where
  "host_run store evs = foldl (\<lambda>h e. host_step (sample_host_world, e) h) (newHost store []) evs"

text \<open>
  The boundary is not looked at again after the wait for the old process: found inactive meanwhile, it does not keep
  the new one from starting.
\<close>

lemma starts_without_boundary:
  "let h = host_run [((''hue'', ''1.0.0''), (sample_info, []))]
         [Ev_start (sample_boundary True), Ev_message (sample_host_state ''1.0.0'' 48), Ev_message (sample_host_state ''1.0.0'' 64),
          Ev_tick True (sample_boundary False)];
       h' = host_step (sample_host_world, Ev_stopped 0) h
   in \<not> bo_active (ho_fence h) \<and> length (ho_procs h) = 1 \<and> length (ho_procs h') = 2"
  by code_simp

text \<open>Nor is it looked at whether the host has stopped: a plugin whose update is under way is started after \<open>stop\<close>, and nothing stops it.\<close>

lemma starts_after_stop:
  "let h = host_run [((''hue'', ''1.0.0''), (sample_info, []))]
         [Ev_start (sample_boundary True), Ev_message (sample_host_state ''1.0.0'' 48), Ev_message (sample_host_state ''1.0.0'' 64), Ev_stop, Ev_stopped 0]
   in ho_stopped h \<and> map hp_phase (ho_procs h) = [Ended, Alive]"
  by code_simp

text \<open>
  The old process may report its start while the host waits for its end; old versions are deleted then, and as the entry still has
  the old one, it is the new one that goes: the process that is started next has no files.
\<close>

lemma late_start_deletes_update:
  "let h = host_run [((''hue'', ''1.0.0''), (sample_info, [])), ((''hue'', ''1.1.0''), (sample_info, []))]
         [Ev_start (sample_boundary True), Ev_message (sample_host_state ''1.0.0'' 48), Ev_message (sample_host_state ''1.1.0'' 48), Ev_procStarted 0, Ev_stopped 0]
   in map (hs_version \<circ> hp_spec) (ho_procs h) = [''1.0.0'', ''1.1.0''] \<and> mkeys (ho_store h) = [(''hue'', ''1.0.0'')]"
  by code_simp

text \<open>
  After the gateway socket has come back the running plugins are stopped; a pass in between starts the plugin again while its old
  process still ends, and the end of that one closes the network of the new one.
\<close>

lemma old_end_closes_new_network:
  "let h = host_run [((''hue'', ''1.0.0''), (sample_info, []))]
         [Ev_start (sample_boundary True), Ev_message (sample_host_state ''1.0.0'' 48), Ev_rpcOpen 2, Ev_message (sample_host_state ''1.0.0'' 48)];
       h' = host_step (sample_host_world, Ev_stopped 0) h
   in map hp_phase (ho_procs h) = [Ending (W_rpc []), Alive] \<and> map hp_phase (ho_procs h') = [Ended, Alive]
      \<and> ho_out h' = ho_out h @ [Ho_closeNet ''hue'']"
  by code_simp

end
