(* ===== verification/Spec2Isabelle.thy ===== *)
theory Spec2Isabelle
  imports
    Dns_Resolver Dns_Server
    Edge_Mqtt Mqtt_Client Edge_Fence Edge_Limits
    Home_Cache Proxy_Listeners Http_Proxy Home_Monitor Ups_Nut Ble_Parse
    Print_Convert Camera_Times Edge_Process Edge_Signature Edge_Bridge Edge_Channel Edge_Host_Safe
begin

text \<open>
  A verification development for \<open>gatecontrol-gateway\<close>, the program that runs on a gateway in a home
  network: it filters DNS for the home, proxies routes between a WireGuard tunnel and the LAN,
  keeps a cache of the server's blobs, runs plugins in a fenced container and reports to the
  server what it measures. The source is JavaScript for Node.js under \<open>src/src\<close>.

  \<^bold>\<open>Parts and how they interact.\<close> The server sends one JSON configuration. Each feature checks its own
  part of it into a well-formed configuration and hands that to a manager; the managers own the
  listeners, timers and files. A DNS query arrives at a listener (\<open>dns/server.js\<close>), is parsed and
  answered by the resolver (\<open>dns/resolver.js\<close>), which asks the policy, the response cache and the
  upstream and counts the outcome. Plugins arrive as packages, are checked against their manifest
  and the approved capabilities, and talk to the outside through services that check every call:
  MQTT topics, LAN targets, rates. The network fence is the second line behind these checks.
  Requests from the tunnel go through the HTTP proxy or a TCP route into the LAN, and LAN devices
  reach the tunnel through egress doors.

  \<^bold>\<open>How the code is modelled.\<close> An object with state is a record and a method a function from state to
  state; a method that throws returns \<open>None\<close> or an error value. A JavaScript \<open>Map\<close> is the list of its
  entries in insertion order (\<open>jsmap\<close>), since eviction and reports depend on that order. Buffers
  are lists of \<open>8 word\<close>; bit operations are on words of the width JavaScript uses. Values from the
  server are of the type \<open>json\<close>. What the code gets from Node, the system or the network is an
  argument: answers of sockets, outcomes of binds and file operations, clocks, HMAC, character
  decoding, URL and date parsing. Nothing is assumed of it unless a theorem says so.

  \<^bold>\<open>Theories.\<close>

  \<^item> \<open>Gateway_Prelude\<close>: bytes, big-endian reads and writes, splitting and joining, ordered maps, and the
    two interfaces that components implement: \<open>incremental_reader\<close> (a reader whose result does not
    depend on how its input is cut into chunks) and \<open>total_machine\<close> (operations that keep an
    invariant and never get stuck). \<open>Js_Values\<close>: JSON values, member access with the inherited names,
    the platform functions, MAC addresses and decimal numbers.
  \<^item> \<open>Dns_Wire\<close> (\<open>dns/wire.js\<close>, \<open>netwatch/dnsWire.js\<close>): parsing and building messages; round trips of queries
    and responses, ageing of cached responses, bounds of the name reader.
  \<^item> \<open>Domain_Set\<close> (\<open>dns/domainSet.js\<close>): hashes, cleaning, the growing hash table as a set, lists and pattern
    sets as suffix sets. \<open>List_Parser\<close> (\<open>dns/listParser.js\<close>): the allocation-free hash equals the hash of
    the cleaned name; the streaming reader refines a function of the whole file.
  \<^item> \<open>Response_Cache\<close> (\<open>dns/responseCache.js\<close>): bounds, lookup after insertion. \<open>Dns_Config\<close> (\<open>dns/config.js\<close>):
    every normalised configuration is well-formed. \<open>Dns_Policy\<close> (\<open>dns/policy.js\<close>, \<open>dns/safeSearch.js\<close>): the
    compiled decision refines the rules of the configuration; schedules are weekly intervals.
    \<open>Dns_Stats\<close> (\<open>dns/stats.js\<close>): reports conserve counts. \<open>Dns_Upstream\<close> (\<open>dns/upstream.js\<close>): circuit
    breaker, loop guard, rotation. \<open>Dns_Resolver\<close> (\<open>dns/resolver.js\<close>): every query is answered and a
    blocked one reaches nobody. \<open>Dns_Server\<close> (\<open>dns/server.js\<close>): listen addresses, reconciling sockets, the
    TCP connection as a machine of events and its framing loop.
  \<^item> \<open>Edge_Topics\<close>, \<open>Edge_Package\<close>, \<open>Edge_Manifest\<close>, \<open>Edge_Protocol\<close> (\<open>edge/topics.js\<close>, \<open>gcplugin.js\<close>,
    \<open>manifest.js\<close>, \<open>protocol.js\<close>): inclusion of topic filters, safe packages and their round trip,
    capabilities as the intersection of claimed and approved rights, the desired state.
    \<open>Edge_Mqtt\<close>, \<open>Mqtt_Client\<close> (\<open>edge/mqtt/manager.js\<close>, \<open>client.js\<close>): isolation of plugins and reference
    counts over all reachable states, the packet stream. \<open>Lan_Interfaces\<close>, \<open>Edge_Fence\<close>
    (\<open>discovery/lanInterfaces.js\<close>, \<open>edge/fenceRules.js\<close>, \<open>fence.js\<close>, \<open>lanGuard.js\<close>): the two firewall
    backends as first-match rule lists, and the guard in front of them. \<open>Edge_Limits\<close> (\<open>edge/limits.js\<close>,
    \<open>eventBuffer.js\<close>): rates, shortening, accounting of events. \<open>Edge_Signature\<close> (\<open>edge/signature.js\<close>,
    \<open>packages.js\<close>): an installed package is signed and the one asked for. \<open>Edge_Process\<close>
    (\<open>edge/pluginProcess.js\<close>): a plugin's process as a machine of events, its calls settled exactly once.
    \<open>Edge_Net\<close>, \<open>Edge_Bridge\<close> (\<open>edge/netProxy.js\<close>, \<open>bridge.js\<close>): what goes out for a plugin is granted by its
    rights and asked for, by a message that names it, by a plugin that the server's state enables.
    \<open>Edge_Channel\<close> (\<open>edge/channel.js\<close>, \<open>remote.js\<close>): the connections of the container as machines of events: started,
    they have a socket or a retry that is due, and every call is settled once. \<open>Edge_Store\<close> (\<open>edge/store.js\<close>): a plugin's
    store, what is written is read back, also after a restart. \<open>Edge_Host\<close>, \<open>Edge_Host_Safe\<close> (\<open>edge/host.js\<close>, \<open>fence.js\<close>): the
    plugin host with every wait of its reconciling as a step, and that it starts only what a state of the server
    enabled and the check of packages let through.
  \<^item> \<open>Blob_Store\<close>, \<open>Cache_Server\<close>, \<open>Home_Cache\<close> (\<open>cache/store.js\<close>, \<open>config.js\<close>, \<open>signature.js\<close>, \<open>lanServer.js\<close>,
    \<open>fetcher.js\<close>, \<open>cache.js\<close>): exact eviction, signed release, fetching within the limit in force and by the
    priority of the item being fetched, and the convergence of the server's inventory.
  \<^item> \<open>Http_Proxy\<close> (\<open>sync/configStore.js\<close>, \<open>sync/poller.js\<close>, \<open>proxy/router.js\<close>, \<open>tlsPin.js\<close>, \<open>http.js\<close>): the diff of a
    configuration, certificate pins on HTTPS routes. \<open>Proxy_Listeners\<close> (\<open>proxy/tcp.js\<close>, \<open>egress.js\<close>): isolation of
    routes, the source lock; \<open>tcp_retarget_never_applies\<close> shows that a changed target on the same port is never taken over.
  \<^item> \<open>Home_Monitor\<close> (\<open>inetq/aggregate.js\<close>, \<open>presence/presence.js\<close>): outages as confirmed runs, presence.
    \<open>Ups_Nut\<close> (\<open>ups/nut.js\<close>): the line protocol of a UPS and its monitor. \<open>Ble_Parse\<close> (\<open>radio/bleparse.js\<close>):
    advertisements of Bluetooth sensors are read as they were sent.
  \<^item> \<open>Print_Ipp\<close>, \<open>Print_Plan\<close>, \<open>Print_Raster\<close>, \<open>Print_Convert\<close> (\<open>print/ipp.js\<close>, \<open>config.js\<close>, \<open>convert.js\<close>): the IPP
    codec and its round trip, what a printer says of itself and the plan made from it, pixel operations
    and run-length packing with a decoder, and the conversion loop whose file decodes to the rendered sheets.
  \<^item> \<open>Camera_Fmp4\<close>, \<open>Camera_Times\<close> (\<open>cameras/fmp4.js\<close>): boxes of fragmented MP4, the duration entry of an init
    segment, and moving the times of a segment without touching anything else.

  \<^bold>\<open>Interfaces.\<close> \<open>incremental_reader\<close> is interpreted by the list reader, the MQTT parser, the UPS session and the
  DNS listener's connection, so that chunking is irrelevant for each by one lemma; \<open>total_machine\<close> by the response
  cache, the statistics, the event buffer and the DNS connection. The remaining locales state what a client needs of its provider and are interpreted
  in the provider's theory.

  \<^bold>\<open>Bounds and termination.\<close> Loops are structural or have a measure: bytes left in a buffer, entries left
  in a cache, pointers left to follow (at most 16, as in the code). The DNS listener's framing
  loop is a partial function whose termination on every buffer is a theorem. There is no fuel
  whose exhaustion a theorem could hide behind; where the code itself has a limit (four bytes
  walked back in \<open>truncateUtf8\<close>, the pointer count) the limit is the code's.
  Numbers from JSON are rationals, so values beyond the range of doubles and rounding of
  fractions are not modelled; where the code depends on safe integers the check is in the model.
  Characters are code units up to 255. The size hint of a list download (\<open>expectedEntries | 0\<close>) only chooses the first
  capacity of a table and is taken without the wrap-around at 32 bits.

  \<^bold>\<open>Interleaving.\<close> A method that awaits is modelled as one step where nothing else can change its state
  in between, and as separate steps where something can: a DNS connection, an MQTT manager, the
  event buffer, sends of statistics, the plugin host, a report of the LAN cache. Reports of the LAN cache are
  taken to run one at a time, and convergence of the inventory is claimed for histories in which nothing is stored or
  removed while a full report is under way; \<open>full_report_race\<close> shows what goes wrong otherwise. Reports of the DNS statistics
  are sent one at a time too, although the timer of \<open>dns/dns.js\<close> can start one while another waits. For the plugin host,
  \<open>starts_without_boundary\<close>, \<open>starts_after_stop\<close>, \<open>late_start_deletes_update\<close> and \<open>old_end_closes_new_network\<close> show what its waits let
  through.

  \<^bold>\<open>Not modelled.\<close> The code inside a plugin's own process and the relay of websocket frames; scanning of networks, printers and cameras, device drivers, recording and AI, which are
  calls of external programs and protocols around a little logic of their own; the feature manager, health
  and management API; timers, logging, certificates and start-up; the external programs and packages
  (mosquitto, keepalived, iptables, ffmpeg, http-proxy, axios).
\<close>

end
